(* ===== verification/Noxa_Prelude.thy ===== *)
theory Noxa_Prelude
  imports Main "HOL-Library.Finite_Map" "HOL-Library.FSet" "HOL-Library.Char_ord"
    "HOL-Library.List_Lexorder" "HOL-Library.Word" "HOL-Library.Multiset"
begin

text \<open>
  Shared vocabulary of the development.

  A Go map is a finite map (\<open>fmap\<close>), a Go set-valued map (\<open>map[K]map[V]bool\<close>) is a
  finite map to finite sets.  The two idioms the code uses on set-valued maps are
  \<open>fmset_add\<close> (create the inner set on demand, then insert) and \<open>fmset_del\<close> (delete the
  member and drop the inner set once it is empty).  \<open>fmset_get\<close> is Go's read of a possibly
  missing inner map.

  The theory also holds the two interfaces that several components share: \<open>multimap\<close> /
  \<open>paired_index\<close> for a pair of mutually inverse set-valued maps, and \<open>invariant_system\<close>
  for components whose operations keep an invariant.
\<close>

type_synonym client_id = string
type_synonym channel_id = int
type_synonym user_id = int
type_synonym time = int

named_theorems mgr_simps \<open>field and lookup equations of the in-memory state\<close>
named_theorems inv_intros \<open>preservation of component invariants\<close>

subsection \<open>Set-valued maps\<close>

definition fmset_get :: "('k, 'v fset) fmap \<Rightarrow> 'k \<Rightarrow> 'v fset" where
  "fmset_get m k = (case fmlookup m k of None \<Rightarrow> {||} | Some s \<Rightarrow> s)"

definition fmset_add :: "'k \<Rightarrow> 'v \<Rightarrow> ('k, 'v fset) fmap \<Rightarrow> ('k, 'v fset) fmap" where
  "fmset_add k x m = fmupd k (finsert x (fmset_get m k)) m"

definition fmset_del :: "'k \<Rightarrow> 'v \<Rightarrow> ('k, 'v fset) fmap \<Rightarrow> ('k, 'v fset) fmap" where
  "fmset_del k x m =
     (case fmlookup m k of
        None \<Rightarrow> m
      | Some s \<Rightarrow> if s |-| {|x|} = {||} then fmdrop k m else fmupd k (s |-| {|x|}) m)"

text \<open>No inner set is stored empty: the shape both idioms maintain.\<close>

definition fmset_ok :: "('k, 'v fset) fmap \<Rightarrow> bool" where
  "fmset_ok m \<longleftrightarrow> (\<forall>k. fmlookup m k \<noteq> Some {||})"

lemma fmset_get_empty [simp]: "fmset_get fmempty k = {||}"
  by (simp add: fmset_get_def)

lemma fmset_get_upd [simp]: "fmset_get (fmupd k s m) k' = (if k = k' then s else fmset_get m k')"
  by (simp add: fmset_get_def)

lemma fmset_get_drop [simp]: "fmset_get (fmdrop k m) k' = (if k = k' then {||} else fmset_get m k')"
  by (simp add: fmset_get_def)

lemma fmset_get_add [simp]:
  "fmset_get (fmset_add k x m) k' = (if k = k' then finsert x (fmset_get m k) else fmset_get m k')"
  by (simp add: fmset_add_def)

lemma fmset_get_del [simp]:
  "fmset_get (fmset_del k x m) k' = (if k = k' then fmset_get m k |-| {|x|} else fmset_get m k')"
  by (auto simp: fmset_del_def fmset_get_def split: option.splits)

lemma fmset_ok_empty [simp, intro]: "fmset_ok fmempty"
  by (simp add: fmset_ok_def)

lemma fmset_ok_add [simp, intro]: "fmset_ok m \<Longrightarrow> fmset_ok (fmset_add k x m)"
  by (auto simp: fmset_ok_def fmset_add_def)

lemma fmset_ok_del [simp, intro]: "fmset_ok m \<Longrightarrow> fmset_ok (fmset_del k x m)"
  by (auto simp: fmset_ok_def fmset_del_def split: option.splits)

lemma fmset_ok_drop [simp, intro]: "fmset_ok m \<Longrightarrow> fmset_ok (fmdrop k m)"
  by (auto simp: fmset_ok_def)

lemma fmset_ok_lookup: "fmset_ok m \<Longrightarrow> fmlookup m k = Some s \<Longrightarrow> s \<noteq> {||}"
  by (auto simp: fmset_ok_def)

lemma fmset_lookup_conv:
  "fmset_ok m \<Longrightarrow> fmlookup m k = (if fmset_get m k = {||} then None else Some (fmset_get m k))"
  by (auto simp: fmset_ok_def fmset_get_def split: option.splits)

text \<open>Deleting one member under several keys, the shape of the loops over a set of keys.\<close>

definition fmset_del_keys :: "'k fset \<Rightarrow> 'v \<Rightarrow> ('k, 'v fset) fmap \<Rightarrow> ('k, 'v fset) fmap" where
  "fmset_del_keys ks x m =
     fmmap_keys (\<lambda>k s. if k |\<in>| ks then s |-| {|x|} else s)
       (fmfilter (\<lambda>k. \<not> (k |\<in>| ks \<and> fmset_get m k |-| {|x|} = {||})) m)"

lemma fmset_get_del_keys:
  "fmset_get (fmset_del_keys ks x m) k =
     (if k |\<in>| ks then fmset_get m k |-| {|x|} else fmset_get m k)"
  by (auto simp: fmset_del_keys_def fmset_get_def split: option.splits)

lemma fmset_ok_del_keys: "fmset_ok m \<Longrightarrow> fmset_ok (fmset_del_keys ks x m)"
  by (auto simp: fmset_ok_def fmset_del_keys_def fmset_get_def split: if_splits option.splits)

text \<open>The bulk form is the loop that deletes under one key after another, in any order.\<close>

lemma fmset_eqI:
  assumes "fmset_ok m" "fmset_ok m'" "\<And>k. fmset_get m k = fmset_get m' k"
  shows "m = m'"
  using assms by (intro fmap_ext) (simp add: fmset_lookup_conv)

lemma fold_fmset_del_get:
  "fmset_get (fold (\<lambda>k. fmset_del k x) ks m) k =
     (if k \<in> set ks then fmset_get m k |-| {|x|} else fmset_get m k)"
  by (induction ks arbitrary: m) auto

lemma fold_fmset_del_ok: "fmset_ok m \<Longrightarrow> fmset_ok (fold (\<lambda>k. fmset_del k x) ks m)"
  by (induction ks arbitrary: m) auto

lemma fmset_del_keys_fold:
  assumes "fmset_ok m"
  shows "fmset_del_keys (fset_of_list ks) x m = fold (\<lambda>k. fmset_del k x) ks m"
  using assms
  by (intro fmset_eqI fmset_ok_del_keys fold_fmset_del_ok)
     (auto simp: fmset_get_del_keys fold_fmset_del_get fset_of_list_elem)

subsection \<open>Interface: set-valued maps and mutually inverse pairs of them\<close>

locale multimap =
  fixes get :: "'m \<Rightarrow> 'k \<Rightarrow> 'v fset"
    and add :: "'k \<Rightarrow> 'v \<Rightarrow> 'm \<Rightarrow> 'm"
    and del :: "'k \<Rightarrow> 'v \<Rightarrow> 'm \<Rightarrow> 'm"
    and emp :: "'m"
    and wf :: "'m \<Rightarrow> bool"
  assumes get_emp: "get emp k = {||}"
    and get_add: "get (add k x m) k' = (if k = k' then finsert x (get m k) else get m k')"
    and get_del: "get (del k x m) k' = (if k = k' then get m k |-| {|x|} else get m k')"
    and wf_emp: "wf emp"
    and wf_add: "wf m \<Longrightarrow> wf (add k x m)"
    and wf_del: "wf m \<Longrightarrow> wf (del k x m)"

locale paired_index =
  fwd: multimap get add del emp wf + bwd: multimap get' add' del' emp' wf'
  for get :: "'m \<Rightarrow> 'k \<Rightarrow> 'v fset" and add del emp wf
    and get' :: "'n \<Rightarrow> 'v \<Rightarrow> 'k fset" and add' del' emp' wf'
begin

lemma inverse_emp: "x |\<in>| get emp k \<longleftrightarrow> k |\<in>| get' emp' x"
  by (simp add: fwd.get_emp bwd.get_emp)

lemma inverse_add:
  assumes "\<And>k x. x |\<in>| get m k \<longleftrightarrow> k |\<in>| get' n x"
  shows "x |\<in>| get (add a b m) k \<longleftrightarrow> k |\<in>| get' (add' b a n) x"
  using assms by (auto simp: fwd.get_add bwd.get_add)

lemma inverse_del:
  assumes "\<And>k x. x |\<in>| get m k \<longleftrightarrow> k |\<in>| get' n x"
  shows "x |\<in>| get (del a b m) k \<longleftrightarrow> k |\<in>| get' (del' b a n) x"
  using assms by (auto simp: fwd.get_del bwd.get_del)

end

interpretation fmset: multimap fmset_get fmset_add fmset_del fmempty fmset_ok
  by unfold_locales auto

interpretation fmset_pair: paired_index
  fmset_get fmset_add fmset_del fmempty fmset_ok
  fmset_get fmset_add fmset_del fmempty fmset_ok
  by unfold_locales

subsection \<open>Interface: operations that keep an invariant\<close>

text \<open>Runs of a component: each operation is applied to the state the previous one left.\<close>

fun run_ops :: "('op \<Rightarrow> 's \<Rightarrow> 's) \<Rightarrow> 'op list \<Rightarrow> 's \<Rightarrow> 's" where
  "run_ops step [] s = s"
| "run_ops step (p # ps) s = run_ops step ps (step p s)"

fun ops_ok :: "('op \<Rightarrow> 's \<Rightarrow> 's) \<Rightarrow> ('op \<Rightarrow> 's \<Rightarrow> bool) \<Rightarrow> 'op list \<Rightarrow> 's \<Rightarrow> bool" where
  "ops_ok step ok [] s \<longleftrightarrow> True"
| "ops_ok step ok (p # ps) s \<longleftrightarrow> ok p s \<and> ops_ok step ok ps (step p s)"

lemma run_ops_append: "run_ops step (ps @ qs) s = run_ops step qs (run_ops step ps s)"
  by (induction ps arbitrary: s) auto

locale invariant_system =
  fixes step :: "'op \<Rightarrow> 's \<Rightarrow> 's"
    and ok :: "'op \<Rightarrow> 's \<Rightarrow> bool"
    and inv :: "'s \<Rightarrow> bool"
    and start :: "'s"
  assumes start_inv: "inv start"
    and step_inv: "inv s \<Longrightarrow> ok p s \<Longrightarrow> inv (step p s)"
begin

lemma run_inv: "inv s \<Longrightarrow> ops_ok step ok ps s \<Longrightarrow> inv (run_ops step ps s)"
proof (induction ps arbitrary: s)
  case Nil
  then show ?case by simp
next
  case (Cons p ps)
  then have "inv (step p s)" by (auto intro: step_inv)
  with Cons show ?case by simp
qed

lemma run_start_inv: "ops_ok step ok ps start \<Longrightarrow> inv (run_ops step ps start)"
  by (rule run_inv [OF start_inv])

end

end
