(* ===== verification/Permissions.thy ===== *)
theory Permissions
  imports Noxa_Prelude
begin

text \<open>
  The permission model of \<^verbatim>\<open>internal/permissions\<close>: permission sets (\<^verbatim>\<open>types.go\<close>), the tiers
  and their evaluation order (\<^verbatim>\<open>tiers.go\<close>), the merge of several sources within one tier
  (\<^verbatim>\<open>merge.go\<close>), the resolver across tiers (\<^verbatim>\<open>resolver.go\<close>) and the conflict diagnostic
  (\<^verbatim>\<open>conflicts.go\<close>).

  A \<open>PermissionSet\<close> is a Go map to pointers, so an entry may be present and nil
  (\<open>Some None\<close>), and the set itself may be nil (\<open>None\<close>).  Values are only compared, never
  added, so they are unbounded integers.
\<close>

type_synonym PermissionKey = string

datatype PermissionType = PermissionTypeBoolean | PermissionTypeInteger

record permission =
  Key :: PermissionKey
  PType :: PermissionType
  Value :: int
  Grant :: int
  Skip :: bool
  Negate :: bool

type_synonym PermissionSet = "(PermissionKey, permission option) fmap"

text \<open>The permission vocabulary, in the order the source declares it.\<close>

definition permission_keys :: "PermissionKey list" where
  "permission_keys =
    [''i_channel_join_power'',
     ''i_channel_needed_join_power'',
     ''b_channel_join_ignore_password'',
     ''i_channel_subscribe_power'',
     ''i_channel_needed_subscribe_power'',
     ''b_channel_create_child'',
     ''b_channel_create_permanent'',
     ''b_channel_create_semi_permanent'',
     ''b_channel_create_temporary'',
     ''b_channel_delete'',
     ''b_channel_modify'',
     ''i_channel_modify_power'',
     ''i_channel_needed_modify_power'',
     ''i_client_kick_from_channel_power'',
     ''i_client_needed_kick_from_channel_power'',
     ''i_client_kick_from_server_power'',
     ''i_client_needed_kick_from_server_power'',
     ''b_client_ban'',
     ''i_client_ban_power'',
     ''i_client_needed_ban_power'',
     ''i_client_move_power'',
     ''i_client_needed_move_power'',
     ''b_client_use_channel_command'',
     ''i_client_talk_power'',
     ''i_client_needed_talk_power'',
     ''i_client_whisper_power'',
     ''i_client_needed_whisper_power'',
     ''b_client_video_publish'',
     ''b_client_issue_screenshare_1080p'',
     ''b_client_priority_speaker'',
     ''b_client_ignore_antiflood'',
     ''b_client_request_talker'',
     ''i_ft_file_upload_power'',
     ''i_ft_needed_file_upload_power'',
     ''i_ft_file_download_power'',
     ''i_ft_needed_file_download_power'',
     ''i_ft_quota_mb_upload_per_client'',
     ''b_ft_delete'',
     ''b_client_avatar_upload'',
     ''i_client_poke_power'',
     ''i_client_needed_poke_power'',
     ''b_client_poke'',
     ''b_client_serverquery_view'',
     ''b_client_remoteaddress_view'',
     ''b_permission_modify_power'',
     ''i_permission_modify_power'',
     ''b_permission_modify_power_ignore'',
     ''b_virtualserver_select'',
     ''b_virtualserver_info_view'',
     ''b_virtualserver_connectioninfo_view'',
     ''b_virtualserver_recording'',
     ''b_virtualserver_token_list'',
     ''b_virtualserver_token_add'',
     ''b_virtualserver_token_use'',
     ''b_virtualserver_token_delete'',
     ''b_chat_delete_any'',
     ''b_chat_mention_all'',
     ''b_chat_slowmode_bypass'',
     ''b_emoji_manage'',
     ''b_chat_filter_manage'',
     ''b_client_is_bot'',
     ''b_server_group_manage'',
     ''b_channel_group_manage'',
     ''b_permission_manage'',
     ''b_audit_view'']"

definition inferType :: "string \<Rightarrow> PermissionType" where
  "inferType key = (if take 2 key = ''b_'' then PermissionTypeBoolean else PermissionTypeInteger)"

subsection \<open>Permission sets\<close>

definition NewPermissionSet :: PermissionSet where
  "NewPermissionSet = fmempty"

definition set_Get :: "PermissionSet option \<Rightarrow> PermissionKey \<Rightarrow> permission option \<times> bool" where
  "set_Get s key =
     (case s of
        None \<Rightarrow> (None, False)
      | Some m \<Rightarrow> (case fmlookup m key of None \<Rightarrow> (None, False) | Some p \<Rightarrow> (p, True)))"

text \<open>\<open>Set\<close> panics on a nil permission: the outer \<open>None\<close>.\<close>

definition set_Set :: "permission option \<Rightarrow> PermissionSet \<Rightarrow> PermissionSet option" where
  "set_Set p s = (case p of None \<Rightarrow> None | Some q \<Rightarrow> Some (fmupd (Key q) (Some q) s))"

definition set_Has :: "PermissionSet \<Rightarrow> PermissionKey \<Rightarrow> bool" where
  "set_Has s key \<longleftrightarrow> fmlookup s key \<noteq> None"

text \<open>
  \<open>Keys\<close> ranges over the map, whose order Go leaves open, then runs an insertion sort by
  adjacent swaps.  \<open>keys_sift\<close> is the inner loop on \<open>j\<close>, \<open>keys_isort\<close> the outer loop on \<open>i\<close>;
  the iteration order is the argument \<open>ks\<close>.
\<close>

fun keys_sift :: "'a::linorder list \<Rightarrow> nat \<Rightarrow> 'a list" where
  "keys_sift ks 0 = ks"
| "keys_sift ks (Suc j) =
     (if ks ! j > ks ! Suc j then keys_sift (ks[j := ks ! Suc j, Suc j := ks ! j]) j else ks)"

function keys_isort :: "'a::linorder list \<Rightarrow> nat \<Rightarrow> 'a list" where
  "keys_isort ks i = (if i < length ks then keys_isort (keys_sift ks i) (Suc i) else ks)"
  by pat_completeness auto

lemma length_keys_sift [simp]: "length (keys_sift ks j) = length ks"
  by (induction ks j rule: keys_sift.induct) auto

termination keys_isort
  by (relation "measure (\<lambda>(ks, i). length ks - i)") auto

declare keys_isort.simps [simp del]

definition set_Keys :: "PermissionKey list \<Rightarrow> PermissionKey list" where
  "set_Keys ks = keys_isort ks 1"

subsection \<open>Tiers\<close>

datatype Tier =
    TierServerGroup
  | TierClientSpecific
  | TierChannelSpecific
  | TierChannelGroup
  | TierChannelClient
  | TierChannel

fun tier_String :: "Tier \<Rightarrow> string" where
  "tier_String TierServerGroup = ''server_group''"
| "tier_String TierClientSpecific = ''client_specific''"
| "tier_String TierChannelSpecific = ''channel_specific''"
| "tier_String TierChannelGroup = ''channel_group''"
| "tier_String TierChannelClient = ''channel_client''"
| "tier_String TierChannel = ''channel''"

definition tierOrder :: "Tier list" where
  "tierOrder =
     [TierServerGroup, TierClientSpecific, TierChannelSpecific, TierChannel, TierChannelGroup,
      TierChannelClient]"

type_synonym TieredPermissions = "(Tier, PermissionSet option) fmap"

definition NewTieredPermissions :: TieredPermissions where
  "NewTieredPermissions = fmempty"

definition tp_Set :: "Tier \<Rightarrow> PermissionSet option \<Rightarrow> TieredPermissions \<Rightarrow> TieredPermissions" where
  "tp_Set tier s tp = fmupd tier s tp"

definition tp_Get :: "TieredPermissions \<Rightarrow> Tier \<Rightarrow> PermissionSet option \<times> bool" where
  "tp_Get tp tier = (case fmlookup tp tier of None \<Rightarrow> (None, False) | Some s \<Rightarrow> (s, True))"

subsection \<open>Merge within a tier\<close>

text \<open>The body of the loop over \<open>entries[1:]\<close>.\<close>

definition merge_step :: "permission \<Rightarrow> permission \<Rightarrow> permission" where
  "merge_step m e =
     (let m1 = (if Negate e then m\<lparr>Negate := True\<rparr> else m);
          m2 = (if Skip e then m1\<lparr>Skip := True\<rparr> else m1);
          m3 = (if Value e > Value m2 then m2\<lparr>Value := Value e\<rparr> else m2);
          m4 = (if Grant e > Grant m3 then m3\<lparr>Grant := Grant e\<rparr> else m3)
      in m4)"

text \<open>\<open>entries[0]\<close> panics on an empty slice: \<open>None\<close>.\<close>

definition mergeEntries :: "PermissionKey \<Rightarrow> permission list \<Rightarrow> permission option" where
  "mergeEntries key entries =
     (case entries of
        [] \<Rightarrow> None
      | e0 # es \<Rightarrow>
          let m = foldl merge_step (e0\<lparr>Key := key\<rparr>) es
          in Some (if Negate m then m\<lparr>Value := 0\<rparr> else m))"

text \<open>
  \<open>byKey\<close> collects, per key, the non-nil entries in the order of the input sets; within one
  set each key occurs once, so the map's own iteration order does not matter.
\<close>

definition nonnil :: "PermissionSet \<Rightarrow> (PermissionKey, permission) fmap" where
  "nonnil s = fmmap the (fmfilter (\<lambda>k. fmlookup s k \<noteq> Some None) s)"

definition contrib_add ::
  "PermissionSet option \<Rightarrow> (PermissionKey, permission list) fmap \<Rightarrow> (PermissionKey, permission list) fmap" where
  "contrib_add s byKey =
     (case s of
        None \<Rightarrow> byKey
      | Some m \<Rightarrow>
          byKey ++\<^sub>f
          fmmap_keys (\<lambda>k p. (case fmlookup byKey k of None \<Rightarrow> [] | Some es \<Rightarrow> es) @ [p]) (nonnil m))"

definition contributions :: "PermissionSet option list \<Rightarrow> (PermissionKey, permission list) fmap" where
  "contributions sets = fold contrib_add sets fmempty"

definition MergeSet :: "PermissionSet option list \<Rightarrow> PermissionSet" where
  "MergeSet sets = fmmap_keys mergeEntries (contributions sets)"

definition MergeTiered ::
  "PermissionSet option list \<Rightarrow> PermissionSet option list \<Rightarrow> PermissionSet option list \<Rightarrow>
   PermissionSet option list \<Rightarrow> PermissionSet option list \<Rightarrow> TieredPermissions" where
  "MergeTiered groupSets clientServerSets channelSpecificSets channelGroupSets channelClientSets =
     tp_Set TierChannelClient (Some (MergeSet channelClientSets))
     (tp_Set TierChannelGroup (Some (MergeSet channelGroupSets))
     (tp_Set TierChannelSpecific (Some (MergeSet channelSpecificSets))
     (tp_Set TierClientSpecific (Some (MergeSet clientServerSets))
     (tp_Set TierServerGroup (Some (MergeSet groupSets)) NewTieredPermissions))))"

subsection \<open>Resolver\<close>

datatype resolve_error = ErrPermissionNotSet

text \<open>The error result carries \<open>noTier\<close> in the source; here it is the branch \<open>Inl\<close>.\<close>

fun resolve_tiers ::
  "TieredPermissions \<Rightarrow> PermissionKey \<Rightarrow> Tier list \<Rightarrow> resolve_error + permission \<times> Tier" where
  "resolve_tiers tp key [] = Inl ErrPermissionNotSet"
| "resolve_tiers tp key (tier # tiers) =
     (case tp_Get tp tier of
        (Some s, True) \<Rightarrow>
          (case set_Get (Some s) key of
             (Some p, True) \<Rightarrow>
               if Negate p then Inr (p\<lparr>Value := 0, Negate := True\<rparr>, tier) else Inr (p, tier)
           | _ \<Rightarrow> resolve_tiers tp key tiers)
      | _ \<Rightarrow> resolve_tiers tp key tiers)"

definition Resolve :: "TieredPermissions \<Rightarrow> PermissionKey \<Rightarrow> resolve_error + permission \<times> Tier" where
  "Resolve tp key = resolve_tiers tp key tierOrder"

definition ResolveBool :: "TieredPermissions \<Rightarrow> PermissionKey \<Rightarrow> resolve_error + bool \<times> Tier" where
  "ResolveBool tp key =
     (case Resolve tp key of Inl e \<Rightarrow> Inl e | Inr (p, tier) \<Rightarrow> Inr (Value p \<noteq> 0, tier))"

definition ResolveInt :: "TieredPermissions \<Rightarrow> PermissionKey \<Rightarrow> resolve_error + int \<times> Tier" where
  "ResolveInt tp key =
     (case Resolve tp key of Inl e \<Rightarrow> Inl e | Inr (p, tier) \<Rightarrow> Inr (Value p, tier))"

definition IsGranted :: "TieredPermissions \<Rightarrow> PermissionKey \<Rightarrow> int \<Rightarrow> resolve_error + bool \<times> Tier" where
  "IsGranted tp key required =
     (case ResolveInt tp key of Inl e \<Rightarrow> Inl e | Inr (v, tier) \<Rightarrow> Inr (v \<ge> required, tier))"

subsection \<open>Conflict diagnostic\<close>

record conflict =
  CKey :: PermissionKey
  WinningTier :: Tier
  ShadowedTier :: Tier
  Message :: string

definition tp_keys :: "TieredPermissions \<Rightarrow> PermissionKey fset" where
  "tp_keys tp =
     fold (\<lambda>tier keys. case tp_Get tp tier of (Some s, True) \<Rightarrow> keys |\<union>| fmdom s | _ \<Rightarrow> keys)
       tierOrder {||}"

definition effective_value :: "permission \<Rightarrow> int" where
  "effective_value p = (if Negate p then 0 else Value p)"

definition shadow_conflict :: "PermissionKey \<Rightarrow> Tier \<Rightarrow> Tier \<Rightarrow> conflict" where
  "shadow_conflict key winner tier =
     \<lparr>CKey = key, WinningTier = winner, ShadowedTier = tier,
      Message = key @ '' from '' @ tier_String winner @ '' shadows a contradictory value from ''
        @ tier_String tier\<rparr>"

text \<open>The loop over the tiers for one key; \<open>winner\<close> is nil until the first entry is met.\<close>

fun key_conflicts ::
  "TieredPermissions \<Rightarrow> PermissionKey \<Rightarrow> (permission \<times> Tier) option \<Rightarrow> Tier list \<Rightarrow> conflict list" where
  "key_conflicts tp key winner [] = []"
| "key_conflicts tp key winner (tier # tiers) =
     (case tp_Get tp tier of
        (s, True) \<Rightarrow>
          (case set_Get s key of
             (Some entry, True) \<Rightarrow>
               (case winner of
                  None \<Rightarrow> key_conflicts tp key (Some (entry, tier)) tiers
                | Some (w, wt) \<Rightarrow>
                    (if effective_value w \<noteq> effective_value entry \<or> Negate w \<noteq> Negate entry
                     then [shadow_conflict key wt tier] else [])
                    @ key_conflicts tp key winner tiers)
           | _ \<Rightarrow> key_conflicts tp key winner tiers)
      | _ \<Rightarrow> key_conflicts tp key winner tiers)"

definition PermissionKeyClientTalkPower :: PermissionKey where
  "PermissionKeyClientTalkPower = ''i_client_talk_power''"

definition PermissionKeyClientRequestTalker :: PermissionKey where
  "PermissionKeyClientRequestTalker = ''b_client_request_talker''"

definition talk_conflict :: "TieredPermissions \<Rightarrow> conflict list" where
  "talk_conflict tp =
     (case Resolve tp PermissionKeyClientTalkPower of
        Inr (talk, talkTier) \<Rightarrow>
          if Negate talk \<or> Value talk < 0 then
            (case Resolve tp PermissionKeyClientRequestTalker of
               Inr (request, requestTier) \<Rightarrow>
                 if \<not> Negate request \<and> Value request \<noteq> 0 then
                   [\<lparr>CKey = PermissionKeyClientTalkPower, WinningTier = talkTier,
                     ShadowedTier = requestTier,
                     Message = ''talk power is denied while request-talker is enabled''\<rparr>]
                 else []
             | Inl _ \<Rightarrow> [])
          else []
      | Inl _ \<Rightarrow> [])"

definition DetectConflicts :: "TieredPermissions \<Rightarrow> conflict list" where
  "DetectConflicts tp =
     concat (map (\<lambda>key. key_conflicts tp key None tierOrder) (sorted_list_of_fset (tp_keys tp)))
     @ talk_conflict tp"

subsection \<open>Keys: the insertion sort\<close>

lemma insort_snoc: "x < y \<Longrightarrow> insort x (xs @ [y]) = insort x xs @ [y]"
  by (induction xs) auto

lemma insort_greatest: "sorted xs \<Longrightarrow> \<forall>a \<in> set xs. a \<le> x \<Longrightarrow> insort x xs = xs @ [x]"
proof -
  assume "sorted xs" "\<forall>a \<in> set xs. a \<le> x"
  then have "sorted (xs @ [x])" by (simp add: sorted_append)
  moreover have "mset (xs @ [x]) = mset (insort x xs)" by simp
  moreover have "sorted (insort x xs)" using \<open>sorted xs\<close> by (simp add: sorted_insort)
  ultimately show "insort x xs = xs @ [x]" by (metis properties_for_sort)
qed

lemma keys_sift_insort:
  "j < length ks \<Longrightarrow> sorted (take j ks) \<Longrightarrow>
   keys_sift ks j = insort (ks ! j) (take j ks) @ drop (Suc j) ks"
proof (induction j arbitrary: ks)
  case 0
  then show ?case by (cases ks) auto
next
  case (Suc j)
  let ?y = "ks ! j" and ?x = "ks ! Suc j"
  have tk: "take (Suc j) ks = take j ks @ [?y]" using Suc.prems by (simp add: take_Suc_conv_app_nth)
  show ?case
  proof (cases "?y > ?x")
    case True
    let ?ks = "ks[j := ?x, Suc j := ?y]"
    have "sorted (take j ?ks)" using Suc.prems tk by (simp add: sorted_append)
    then have "keys_sift ?ks j = insort (?ks ! j) (take j ?ks) @ drop (Suc j) ?ks"
      using Suc.prems by (intro Suc.IH) auto
    moreover have "drop (Suc j) ?ks = ?y # drop (Suc (Suc j)) ks"
      using Suc.prems by (simp add: drop_update_swap Cons_nth_drop_Suc [symmetric])
    ultimately show ?thesis
      using True Suc.prems by (simp add: tk insort_snoc)
  next
    case False
    have "\<forall>a \<in> set (take (Suc j) ks). a \<le> ?x"
      using False Suc.prems(2) by (auto simp: tk sorted_append)
    with Suc.prems have "insort ?x (take (Suc j) ks) = take (Suc j) ks @ [?x]"
      by (intro insort_greatest) auto
    with False Suc.prems show ?thesis
      by (simp add: Cons_nth_drop_Suc)
  qed
qed

lemma mset_keys_sift: 
  "j < length ks \<Longrightarrow> sorted (take j ks) \<Longrightarrow> mset (keys_sift ks j) = mset ks"
proof -
  assume *: "j < length ks" "sorted (take j ks)"
  have "mset ks = mset (take j ks @ ks ! j # drop (Suc j) ks)"
    using *(1) by (simp add: id_take_nth_drop [symmetric])
  with * show ?thesis by (simp add: keys_sift_insort)
qed

lemma keys_isort_done: "length ks \<le> i \<Longrightarrow> keys_isort ks i = ks"
  by (subst keys_isort.simps) simp

lemma keys_isort_sort:
  "i \<le> length ks \<Longrightarrow> sorted (take i ks) \<Longrightarrow> keys_isort ks i = sort ks"
proof (induction ks i rule: keys_isort.induct)
  case (1 ks i)
  show ?case
  proof (cases "i < length ks")
    case True
    let ?ks = "keys_sift ks i"
    have "take (Suc i) ?ks = insort (ks ! i) (take i ks)"
      using True 1 by (simp add: keys_sift_insort)
    with 1 True have "sorted (take (Suc i) ?ks)" by (simp add: sorted_insort)
    then have "keys_isort ?ks (Suc i) = sort ?ks"
      using True by (intro "1.IH") auto
    also have "\<dots> = sort ks"
      using True 1 by (intro properties_for_sort) (auto simp: mset_keys_sift [symmetric])
    finally show ?thesis using True by (simp add: keys_isort.simps [of ks i])
  next
    case False
    with 1 show ?thesis by (simp add: keys_isort_done sorted_sort_id)
  qed
qed

lemma set_Keys_sort: "set_Keys ks = sort ks"
proof (cases ks)
  case Nil
  then show ?thesis by (simp add: set_Keys_def keys_isort_done)
next
  case (Cons k ks')
  then show ?thesis by (simp add: set_Keys_def keys_isort_sort)
qed

subsection \<open>Lookup in one tier\<close>

text \<open>The entry a tier holds for a key, nil entries and nil sets counting as absent.\<close>

definition tier_entry :: "TieredPermissions \<Rightarrow> PermissionKey \<Rightarrow> Tier \<Rightarrow> permission option" where
  "tier_entry tp key tier =
     (case fmlookup tp tier of
        Some (Some s) \<Rightarrow> (case fmlookup s key of Some p \<Rightarrow> p | None \<Rightarrow> None)
      | _ \<Rightarrow> None)"

lemma resolve_tiers_Cons:
  "resolve_tiers tp key (t # ts) =
     (case tier_entry tp key t of
        None \<Rightarrow> resolve_tiers tp key ts
      | Some p \<Rightarrow> Inr (p\<lparr>Value := effective_value p\<rparr>, t))"
  by (auto simp: tier_entry_def tp_Get_def set_Get_def effective_value_def split: option.splits)

lemma resolve_tiers_None:
  "tier_entry tp key u = None \<Longrightarrow> resolve_tiers tp key (u # us) = resolve_tiers tp key us"
  by (simp add: resolve_tiers_Cons del: resolve_tiers.simps)

lemma resolve_tiers_Inr:
  "resolve_tiers tp key ts = Inr (r, t) \<longleftrightarrow>
     (\<exists>pre post p. ts = pre @ t # post \<and> (\<forall>u \<in> set pre. tier_entry tp key u = None) \<and>
        tier_entry tp key t = Some p \<and> r = p\<lparr>Value := effective_value p\<rparr>)"
    (is "_ \<longleftrightarrow> ?R ts")
proof (induction ts)
  case Nil
  then show ?case by simp
next
  case (Cons u us)
  show ?case
  proof (cases "tier_entry tp key u")
    case None
    have "?R (u # us) \<longleftrightarrow> ?R us"
    proof
      assume "?R us"
      then obtain pre post p where "us = pre @ t # post" "\<forall>u \<in> set pre. tier_entry tp key u = None"
        "tier_entry tp key t = Some p" "r = p\<lparr>Value := effective_value p\<rparr>" by blast
      with None have "u # us = (u # pre) @ t # post \<and> (\<forall>u \<in> set (u # pre). tier_entry tp key u = None) \<and>
        tier_entry tp key t = Some p \<and> r = p\<lparr>Value := effective_value p\<rparr>" by simp
      then show "?R (u # us)" by blast
    next
      assume "?R (u # us)"
      with None show "?R us" by (fastforce simp: Cons_eq_append_conv)
    qed
    with None Cons.IH show ?thesis by (simp only: resolve_tiers_None)
  next
    case (Some p)
    then show ?thesis
      by (auto simp: resolve_tiers_Cons Cons_eq_append_conv simp del: resolve_tiers.simps)
  qed
qed

lemma resolve_tiers_Inl:
  "resolve_tiers tp key ts = Inl e \<longleftrightarrow> (\<forall>u \<in> set ts. tier_entry tp key u = None)"
  by (cases e; induction ts)
     (auto simp: resolve_tiers_Cons simp del: resolve_tiers.simps(2) split: option.splits)

subsection \<open>Closed form of the merge\<close>

text \<open>All non-nil entries the input sets hold for a key, in input order.\<close>

definition set_entries :: "PermissionKey \<Rightarrow> PermissionSet option \<Rightarrow> permission list" where
  "set_entries k s =
     (case s of
        None \<Rightarrow> []
      | Some m \<Rightarrow> (case fmlookup m k of Some (Some p) \<Rightarrow> [p] | _ \<Rightarrow> []))"

definition entries_for :: "PermissionSet option list \<Rightarrow> PermissionKey \<Rightarrow> permission list" where
  "entries_for sets k = concat (map (set_entries k) sets)"

definition merged_entry :: "PermissionKey \<Rightarrow> permission list \<Rightarrow> permission" where
  "merged_entry k es =
     \<lparr>Key = k, PType = PType (hd es),
      Value = (if \<exists>e \<in> set es. Negate e then 0 else Max (Value ` set es)),
      Grant = Max (Grant ` set es),
      Skip = (\<exists>e \<in> set es. Skip e),
      Negate = (\<exists>e \<in> set es. Negate e)\<rparr>"

lemma merge_step_fields:
  "Key (merge_step m e) = Key m" "PType (merge_step m e) = PType m"
  "Value (merge_step m e) = max (Value m) (Value e)"
  "Grant (merge_step m e) = max (Grant m) (Grant e)"
  "Skip (merge_step m e) = (Skip m \<or> Skip e)" "Negate (merge_step m e) = (Negate m \<or> Negate e)"
  by (auto simp: merge_step_def Let_def)

lemma foldl_merge_step:
  "foldl merge_step m es =
     \<lparr>Key = Key m, PType = PType m, Value = Max (insert (Value m) (Value ` set es)),
      Grant = Max (insert (Grant m) (Grant ` set es)), Skip = (Skip m \<or> (\<exists>e \<in> set es. Skip e)),
      Negate = (Negate m \<or> (\<exists>e \<in> set es. Negate e))\<rparr>"
proof (induction es arbitrary: m)
  case Nil
  show ?case by simp
next
  case (Cons e es)
  have mx: "Max (insert (max a b) (f ` set es)) = Max (insert a (insert b (f ` set es)))"
    for a b :: int and f :: "permission \<Rightarrow> int"
    by (cases "set es = {}") (auto simp: Max_insert max.assoc)
  show ?case by (simp add: Cons.IH merge_step_fields mx disj_assoc)
qed

lemma mergeEntries_eq:
  "mergeEntries k es = (if es = [] then None else Some (merged_entry k es))"
proof (cases es)
  case (Cons e0 es')
  then show ?thesis by (auto simp: mergeEntries_def foldl_merge_step merged_entry_def Let_def)
qed (simp add: mergeEntries_def)

lemma nonnil_lookup:
  "fmlookup (nonnil s) k = (case fmlookup s k of Some (Some p) \<Rightarrow> Some p | _ \<Rightarrow> None)"
  by (auto simp: nonnil_def split: option.splits)

lemma contrib_add_lookup:
  "fmlookup (contrib_add s m) k =
     (case set_entries k s of
        [] \<Rightarrow> fmlookup m k
      | es \<Rightarrow> Some ((case fmlookup m k of None \<Rightarrow> [] | Some xs \<Rightarrow> xs) @ es))"
  by (auto simp: contrib_add_def nonnil_lookup set_entries_def split: option.splits)

lemma fold_contrib_lookup:
  "fmlookup (fold contrib_add sets m) k =
     (case entries_for sets k of
        [] \<Rightarrow> fmlookup m k
      | es \<Rightarrow> Some ((case fmlookup m k of None \<Rightarrow> [] | Some xs \<Rightarrow> xs) @ es))"
proof (induction sets arbitrary: m)
  case Nil
  show ?case by (simp add: entries_for_def)
next
  case (Cons s sets)
  have split: "entries_for (s # sets) k = set_entries k s @ entries_for sets k"
    by (simp add: entries_for_def)
  show ?case
    by (simp add: Cons.IH contrib_add_lookup split split: list.splits option.splits)
qed

lemma contributions_lookup:
  "fmlookup (contributions sets) k = (if entries_for sets k = [] then None else Some (entries_for sets k))"
  by (simp add: contributions_def fold_contrib_lookup split: list.splits)

lemma MergeSet_lookup:
  "fmlookup (MergeSet sets) k =
     (if entries_for sets k = [] then None else Some (Some (merged_entry k (entries_for sets k))))"
  by (simp add: MergeSet_def contributions_lookup mergeEntries_eq)

lemma entries_for_mset:
  "mset sets = mset sets' \<Longrightarrow> mset (entries_for sets k) = mset (entries_for sets' k)"
proof -
  have "mset (entries_for xs k) = \<Sum>\<^sub># (image_mset (\<lambda>s. mset (set_entries k s)) (mset xs))" for xs
    by (induction xs) (auto simp: entries_for_def)
  then show "mset sets = mset sets' \<Longrightarrow> ?thesis" by simp
qed

subsection \<open>The conflict diagnostic\<close>

definition contradicts :: "permission \<Rightarrow> permission \<Rightarrow> bool" where
  "contradicts w e \<longleftrightarrow> effective_value w \<noteq> effective_value e \<or> Negate w \<noteq> Negate e"

definition overruled :: "TieredPermissions \<Rightarrow> PermissionKey \<Rightarrow> permission \<Rightarrow> Tier \<Rightarrow> bool" where
  "overruled tp key w t = (case tier_entry tp key t of None \<Rightarrow> False | Some e \<Rightarrow> contradicts w e)"

lemma key_conflicts_step:
  "key_conflicts tp key winner (t # ts) =
     (case tier_entry tp key t of
        None \<Rightarrow> key_conflicts tp key winner ts
      | Some e \<Rightarrow>
          (case winner of
             None \<Rightarrow> key_conflicts tp key (Some (e, t)) ts
           | Some (w, wt) \<Rightarrow>
               (if contradicts w e then [shadow_conflict key wt t] else []) @
               key_conflicts tp key winner ts))"
  by (auto simp: tier_entry_def tp_Get_def set_Get_def contradicts_def split: option.splits)

lemma key_conflicts_winner:
  "key_conflicts tp key (Some (w, wt)) ts = map (shadow_conflict key wt) (filter (overruled tp key w) ts)"
  by (induction ts)
     (auto simp: key_conflicts_step overruled_def simp del: key_conflicts.simps(2) split: option.splits)

lemma key_conflicts_before:
  "\<forall>u \<in> set pre. tier_entry tp key u = None \<Longrightarrow>
   key_conflicts tp key None (pre @ ts) = key_conflicts tp key None ts"
  by (induction pre) (auto simp: key_conflicts_step simp del: key_conflicts.simps(2))

lemma key_conflicts_none:
  "\<forall>u \<in> set ts. tier_entry tp key u = None \<Longrightarrow> key_conflicts tp key winner ts = []"
  by (induction ts) (auto simp: key_conflicts_step simp del: key_conflicts.simps(2))

lemma tierOrder_all: "set tierOrder = UNIV"
proof -
  have "t \<in> set tierOrder" for t by (cases t) (auto simp: tierOrder_def)
  then show ?thesis by blast
qed

lemma tierOrder_distinct: "distinct tierOrder"
  by (simp add: tierOrder_def)

lemma Resolve_Inr_split:
  assumes "Resolve tp key = Inr (r, wt)"
  obtains pre post w where "tierOrder = pre @ wt # post" "\<forall>u \<in> set pre. tier_entry tp key u = None"
    "tier_entry tp key wt = Some w" "r = w\<lparr>Value := effective_value w\<rparr>"
  using assms unfolding Resolve_def resolve_tiers_Inr by blast

lemma key_conflicts_Resolve:
  assumes "Resolve tp key = Inr (r, wt)" "tier_entry tp key wt = Some w"
  shows "c \<in> set (key_conflicts tp key None tierOrder) \<longleftrightarrow>
    (\<exists>t. t \<noteq> wt \<and> overruled tp key w t \<and> c = shadow_conflict key wt t)"
proof -
  from assms(1) obtain pre post where order: "tierOrder = pre @ wt # post"
    and pre: "\<forall>u \<in> set pre. tier_entry tp key u = None"
    by (rule Resolve_Inr_split)
  have "t \<in> set post" if "t \<noteq> wt" "overruled tp key w t" for t
  proof -
    have "t \<in> set (pre @ wt # post)" by (simp only: order [symmetric] tierOrder_all UNIV_I)
    with that pre show ?thesis by (auto simp: overruled_def)
  qed
  moreover have "t \<noteq> wt" if "t \<in> set post" for t
    using that tierOrder_distinct [unfolded order] by auto
  ultimately show ?thesis
    unfolding order
    by (auto simp: key_conflicts_before pre key_conflicts_step assms(2) key_conflicts_winner
        simp del: key_conflicts.simps)
qed

lemma Resolve_Inl_iff: "Resolve tp key = Inl e \<longleftrightarrow> (\<forall>t. tier_entry tp key t = None)"
  by (simp add: Resolve_def resolve_tiers_Inl tierOrder_all)

lemma fold_keys_mem:
  "key |\<in>| fold (\<lambda>tier keys. case tp_Get tp tier of (Some s, True) \<Rightarrow> keys |\<union>| fmdom s | _ \<Rightarrow> keys) ts ks
   \<longleftrightarrow> key |\<in>| ks \<or> (\<exists>t \<in> set ts. \<exists>s. fmlookup tp t = Some (Some s) \<and> key |\<in>| fmdom s)"
  by (induction ts arbitrary: ks) (auto simp: tp_Get_def split: option.splits)

lemma tier_entry_in_keys: "tier_entry tp key t = Some p \<Longrightarrow> key |\<in>| tp_keys tp"
  by (auto simp: tp_keys_def fold_keys_mem tierOrder_all tier_entry_def intro: fmdomI
      split: option.splits)

lemma CKey_key_conflicts:
  assumes c: "c \<in> set (key_conflicts tp key None tierOrder)"
  shows "CKey c = key"
proof (cases "Resolve tp key")
  case (Inl e)
  with c show ?thesis by (simp add: Resolve_Inl_iff key_conflicts_none)
next
  case (Inr q)
  then obtain r wt where res: "Resolve tp key = Inr (r, wt)" by (cases q) auto
  then obtain w where "tier_entry tp key wt = Some w" by (rule Resolve_Inr_split)
  with c res show ?thesis by (auto simp: key_conflicts_Resolve shadow_conflict_def)
qed

lemma talk_conflict_fields:
  assumes "c \<in> set (talk_conflict tp)"
  shows "CKey c = PermissionKeyClientTalkPower \<and> hd (Message c) = CHR ''t''"
proof -
  have "talk_conflict tp = [] \<or> (\<exists>a b. talk_conflict tp =
    [\<lparr>CKey = PermissionKeyClientTalkPower, WinningTier = a, ShadowedTier = b,
      Message = ''talk power is denied while request-talker is enabled''\<rparr>])"
    unfolding talk_conflict_def by (simp split: sum.split prod.split)
  with assms show ?thesis by force
qed

lemma shadow_not_talk: "shadow_conflict key wt t \<notin> set (talk_conflict tp)"
proof
  assume "shadow_conflict key wt t \<in> set (talk_conflict tp)"
  from talk_conflict_fields [OF this] show False
    by (auto simp: shadow_conflict_def PermissionKeyClientTalkPower_def)
qed

lemma shadow_in_DetectConflicts:
  "shadow_conflict key wt t \<in> set (DetectConflicts tp) \<longleftrightarrow>
   shadow_conflict key wt t \<in> set (key_conflicts tp key None tierOrder)"
proof
  assume "shadow_conflict key wt t \<in> set (DetectConflicts tp)"
  then obtain key' where "shadow_conflict key wt t \<in> set (key_conflicts tp key' None tierOrder)"
    by (auto simp: DetectConflicts_def shadow_not_talk)
  moreover from this have "key' = key"
    using CKey_key_conflicts by (fastforce simp: shadow_conflict_def)
  ultimately show "shadow_conflict key wt t \<in> set (key_conflicts tp key None tierOrder)" by simp
next
  assume *: "shadow_conflict key wt t \<in> set (key_conflicts tp key None tierOrder)"
  have "\<not> (\<forall>t. tier_entry tp key t = None)"
  proof
    assume "\<forall>t. tier_entry tp key t = None"
    with * show False by (simp add: key_conflicts_none)
  qed
  then have "key \<in> set (sorted_list_of_fset (tp_keys tp))"
    by (auto dest: tier_entry_in_keys)
  with * show "shadow_conflict key wt t \<in> set (DetectConflicts tp)" by (auto simp: DetectConflicts_def)
qed

subsection \<open>Properties\<close>

text \<open>C15: the resolver returns exactly the entry of the first tier, in evaluation order, that holds the
  key, with its value forced to 0 when the entry is negated; it reports "not set" exactly when no
  tier holds the key.  Lower tiers never influence the result.\<close>

theorem Resolve_first_tier_wins:
  "(Resolve tp key = Inr (r, t) \<longleftrightarrow>
     (\<exists>pre post p. tierOrder = pre @ t # post \<and> (\<forall>u \<in> set pre. tier_entry tp key u = None) \<and>
        tier_entry tp key t = Some p \<and> r = p\<lparr>Value := (if Negate p then 0 else Value p)\<rparr>))
   \<and> (Resolve tp key = Inl ErrPermissionNotSet \<longleftrightarrow> (\<forall>t. tier_entry tp key t = None))"
  by (simp add: Resolve_def resolve_tiers_Inr resolve_tiers_Inl tierOrder_all
      effective_value_def [symmetric])

theorem Resolve_first_tier_wins_witness:
  "Resolve (fmupd TierChannel (Some (fmupd ''i_k'' (Some \<lparr>Key = ''i_k'', PType = PermissionTypeInteger,
       Value = 75, Grant = 0, Skip = False, Negate = False\<rparr>) fmempty))
     (fmupd TierClientSpecific (Some (fmupd ''i_k'' (Some \<lparr>Key = ''i_k'', PType = PermissionTypeInteger,
       Value = 50, Grant = 0, Skip = False, Negate = True\<rparr>) fmempty)) fmempty)) ''i_k''
   = Inr (\<lparr>Key = ''i_k'', PType = PermissionTypeInteger, Value = 0, Grant = 0, Skip = False,
       Negate = True\<rparr>, TierClientSpecific)"
  by (rule Resolve_first_tier_wins [THEN conjunct1, THEN iffD2],
      rule exI [where x = "[TierServerGroup]"],
      rule exI [where x = "[TierChannelSpecific, TierChannel, TierChannelGroup, TierChannelClient]"])
     (simp add: tierOrder_def tier_entry_def)

text \<open>Merging the sets of one tier gives, for every key that some set holds, one entry in which a
  single negating source denies (value 0), the value and the grant are otherwise the maxima, skip
  is the disjunction, and the type is the first source's; keys held by no set stay absent.\<close>

theorem MergeSet_closed_form:
  "fmlookup (MergeSet sets) k =
     (case entries_for sets k of
        [] \<Rightarrow> None
      | e # es \<Rightarrow> Some (Some
          \<lparr>Key = k, PType = PType e,
           Value = (if \<exists>x \<in> set (e # es). Negate x then 0 else Max (Value ` set (e # es))),
           Grant = Max (Grant ` set (e # es)),
           Skip = (\<exists>x \<in> set (e # es). Skip x),
           Negate = (\<exists>x \<in> set (e # es). Negate x)\<rparr>))"
  by (simp add: MergeSet_lookup merged_entry_def split: list.split)

text \<open>The order in which a client's groups are merged does not matter: permuting the sets leaves
  every merged field but the informational type unchanged.\<close>

theorem MergeSet_order_irrelevant:
  assumes "mset sets = mset sets'"
  shows "map_option (map_option (PType_update (\<lambda>_. T))) (fmlookup (MergeSet sets) k)
       = map_option (map_option (PType_update (\<lambda>_. T))) (fmlookup (MergeSet sets') k)"
proof -
  from assms have m: "mset (entries_for sets k) = mset (entries_for sets' k)" by (rule entries_for_mset)
  from m have "set (entries_for sets k) = set (entries_for sets' k)" by (metis set_mset_mset)
  moreover from m have "entries_for sets k = [] \<longleftrightarrow> entries_for sets' k = []"
    by (metis mset_zero_iff)
  ultimately show ?thesis by (simp add: MergeSet_lookup merged_entry_def)
qed

theorem MergeSet_order_irrelevant_witness:
  "map_option (map_option (PType_update (\<lambda>_. PermissionTypeInteger)))
     (fmlookup (MergeSet [Some (fmupd ''i_k'' (Some \<lparr>Key = ''i_k'', PType = PermissionTypeInteger,
        Value = 5, Grant = 1, Skip = True, Negate = False\<rparr>) fmempty), None]) ''i_k'')
   = map_option (map_option (PType_update (\<lambda>_. PermissionTypeInteger)))
     (fmlookup (MergeSet [None, Some (fmupd ''i_k'' (Some \<lparr>Key = ''i_k'', PType = PermissionTypeInteger,
        Value = 5, Grant = 1, Skip = True, Negate = False\<rparr>) fmempty)]) ''i_k'')"
  by (rule MergeSet_order_irrelevant) simp

text \<open>The conflict diagnostic is sound and complete for shadowed entries: it reports the pair of
  tiers \<open>wt\<close> and \<open>t\<close> for a key exactly when \<open>wt\<close> is the tier the resolver takes the key from and
  \<open>t\<close> is another tier whose entry has a different effective value or a different negate flag.\<close>

theorem DetectConflicts_sound_complete:
  "shadow_conflict key wt t \<in> set (DetectConflicts tp) \<longleftrightarrow>
     (\<exists>r w e. Resolve tp key = Inr (r, wt) \<and> t \<noteq> wt \<and> tier_entry tp key wt = Some w \<and>
        tier_entry tp key t = Some e \<and>
        \<not> (effective_value w = effective_value e \<and> Negate w = Negate e))"
proof (cases "Resolve tp key")
  case (Inl e)
  then show ?thesis by (simp add: shadow_in_DetectConflicts Resolve_Inl_iff key_conflicts_none)
next
  case (Inr q)
  then obtain r wt' where res: "Resolve tp key = Inr (r, wt')" by (cases q) auto
  then obtain w where w: "tier_entry tp key wt' = Some w" by (rule Resolve_Inr_split)
  have inj: "shadow_conflict key wt t = shadow_conflict key a b \<longleftrightarrow> wt = a \<and> t = b" for a b
    by (auto simp: shadow_conflict_def)
  show ?thesis
    using res w
    by (auto simp: shadow_in_DetectConflicts key_conflicts_Resolve [OF res w] inj overruled_def
        contradicts_def split: option.splits)
qed

text \<open>Whatever order Go's map iteration yields the keys in, \<open>Keys\<close> returns them ascending and without
  loss: the hand-written insertion sort equals sorting the key set.\<close>

theorem Keys_sorted:
  assumes "distinct ks" and "fset_of_list ks = fmdom (s :: PermissionSet)"
  shows "set_Keys ks = sorted_list_of_fset (fmdom s)"
proof -
  have "sort ks = sorted_list_of_set (set ks)"
    using assms(1) by (simp add: sorted_list_of_set_sort_remdups distinct_remdups_id)
  also have "set ks = fset (fmdom s)" by (simp add: fset_of_list.rep_eq flip: assms(2))
  finally show ?thesis by (simp add: set_Keys_sort sorted_list_of_fset.rep_eq)
qed

theorem Keys_sorted_witness:
  "set_Keys [''i_b'', ''b_a'', ''i_a'']
   = sorted_list_of_fset (fmdom (fmupd ''b_a'' None (fmupd ''i_a'' None (fmupd ''i_b'' None
       (fmempty :: PermissionSet)))))"
  by (rule Keys_sorted) auto

end
