(* ===== verification/Safecast.thy ===== *)
theory Safecast
  imports Noxa_Prelude
begin

text \<open>
  Checked integer conversions of \<^verbatim>\<open>internal/safecast/safecast.go\<close>.  A Go \<open>int64\<close> (and
  \<open>int\<close>, 64 bits on the supported platforms) is a \<open>64 word\<close> read by \<open>sint\<close>; the unsigned
  targets are words read by \<open>uint\<close>.  An out-of-range value is the error branch \<open>Inl\<close>.
\<close>

type_synonym int64 = "64 word"
type_synonym int32 = "32 word"
type_synonym uint32 = "32 word"
type_synonym uint16 = "16 word"
type_synonym uint8 = "8 word"

datatype cast_error = ErrOutOfRange

definition Int64ToUint32 :: "int64 \<Rightarrow> cast_error + uint32" where
  "Int64ToUint32 v =
     (if sint v < 0 \<or> sint v > 4294967295 then Inl ErrOutOfRange else Inr (ucast v))"

definition Int64ToUint16 :: "int64 \<Rightarrow> cast_error + uint16" where
  "Int64ToUint16 v =
     (if sint v < 0 \<or> sint v > 65535 then Inl ErrOutOfRange else Inr (ucast v))"

definition IntToInt32 :: "int64 \<Rightarrow> cast_error + int32" where
  "IntToInt32 v =
     (if sint v < - 2147483648 \<or> sint v > 2147483647 then Inl ErrOutOfRange else Inr (scast v))"

definition Int32ToInt :: "int32 \<Rightarrow> cast_error + int64" where
  "Int32ToInt v =
     (if sint v < - 9223372036854775808 \<or> sint v > 9223372036854775807
      then Inl ErrOutOfRange else Inr (scast v))"

definition IntToUint32 :: "int64 \<Rightarrow> cast_error + uint32" where
  "IntToUint32 v = Int64ToUint32 v"

definition IntToUint8 :: "int64 \<Rightarrow> cast_error + uint8" where
  "IntToUint8 v =
     (if sint v < 0 \<or> sint v > 255 then Inl ErrOutOfRange else Inr (ucast v))"

definition Uint32ToInt :: "uint32 \<Rightarrow> cast_error + int64" where
  "Uint32ToInt v =
     (if uint v > 9223372036854775807 then Inl ErrOutOfRange else Inr (ucast v))"

subsection \<open>Interface: a conversion that is exact on the target's range\<close>

text \<open>
  \<open>rd\<close> and \<open>rd'\<close> read source and target as mathematical integers; \<open>lo\<close> and \<open>hi\<close> bound
  the values the target can represent.
\<close>

locale exact_cast =
  fixes conv :: "'a \<Rightarrow> cast_error + 'b"
    and rd :: "'a \<Rightarrow> int" and rd' :: "'b \<Rightarrow> int" and lo hi :: int
  assumes in_range: "lo \<le> rd v \<Longrightarrow> rd v \<le> hi \<Longrightarrow> \<exists>r. conv v = Inr r \<and> rd' r = rd v"
    and out_range: "rd v < lo \<or> hi < rd v \<Longrightarrow> conv v = Inl ErrOutOfRange"
begin

lemma ok_iff: "(\<exists>r. conv v = Inr r) \<longleftrightarrow> lo \<le> rd v \<and> rd v \<le> hi"
  using in_range [of v] out_range [of v] by (cases "lo \<le> rd v \<and> rd v \<le> hi") auto

lemma exact: "conv v = Inr r \<Longrightarrow> rd' r = rd v"
  using in_range [of v] out_range [of v] by (cases "lo \<le> rd v \<and> rd v \<le> hi") auto

lemma outcome: "case conv v of Inr r \<Rightarrow> rd' r = rd v | Inl _ \<Rightarrow> \<not> (lo \<le> rd v \<and> rd v \<le> hi)"
  using in_range [of v] out_range [of v] by (cases "lo \<le> rd v \<and> rd v \<le> hi") auto

end

lemma sint64_bounds: "- 9223372036854775808 \<le> sint (v :: int64)" "sint (v :: int64) \<le> 9223372036854775807"
  using sint_range_size [of v] by (auto simp: word_size)

lemma sint32_bounds: "- 2147483648 \<le> sint (v :: int32)" "sint (v :: int32) \<le> 2147483647"
  using sint_range_size [of v] by (auto simp: word_size)

lemma uint_sint_nonneg:
  assumes "0 \<le> sint (v :: int64)"
  shows "uint v = sint v"
proof -
  have "uint v = take_bit 64 (sint v)" by (simp add: uint_sint)
  with assms sint64_bounds [of v] show ?thesis by (simp add: take_bit_int_eq_self)
qed

lemma uint_ucast_id:
  fixes v :: int64
  assumes "0 \<le> sint v" "sint v < 2 ^ LENGTH('b::len)" "LENGTH('b) \<le> 64"
  shows "uint (ucast v :: 'b word) = sint v"
proof -
  have "uint (ucast v :: 'b word) = take_bit LENGTH('b) (uint v)"
    by (simp add: unsigned_ucast_eq)
  with assms show ?thesis
    by (simp add: uint_sint_nonneg take_bit_int_eq_self)
qed

interpretation cast_u32: exact_cast Int64ToUint32 sint uint 0 4294967295
  by unfold_locales (auto simp: Int64ToUint32_def uint_ucast_id)

interpretation cast_u16: exact_cast Int64ToUint16 sint uint 0 65535
  by unfold_locales (auto simp: Int64ToUint16_def uint_ucast_id)

interpretation cast_u8: exact_cast IntToUint8 sint uint 0 255
  by unfold_locales (auto simp: IntToUint8_def uint_ucast_id)

interpretation cast_iu32: exact_cast IntToUint32 sint uint 0 4294967295
  by unfold_locales (auto simp: IntToUint32_def Int64ToUint32_def uint_ucast_id)

lemma sint_scast_int32: 
  fixes v :: int64
  assumes "- 2147483648 \<le> sint v" "sint v \<le> 2147483647"
  shows "sint (scast v :: int32) = sint v"
  using assms by (simp add: signed_scast_eq signed_take_bit_int_eq_self)

interpretation cast_i32: exact_cast IntToInt32 sint sint "- 2147483648" 2147483647
  by unfold_locales (auto simp: IntToInt32_def sint_scast_int32)

lemma sint_scast_int64: "sint (scast (v :: int32) :: int64) = sint v"
  using sint32_bounds [of v] by (simp add: signed_scast_eq signed_take_bit_int_eq_self)

interpretation cast_int: exact_cast Int32ToInt sint sint "- 9223372036854775808" 9223372036854775807
  by unfold_locales (auto simp: Int32ToInt_def sint_scast_int64)

lemma sint_ucast_u32: "sint (ucast (v :: uint32) :: int64) = uint v"
proof -
  have "uint v < 2 ^ 32" "- (2 ^ 63) \<le> uint v"
    using uint_bounded [of v] order_trans [OF _ uint_ge_0 [of v], of "- (2 ^ 63)"] by simp_all
  then show ?thesis
    by (simp add: signed_ucast_eq signed_take_bit_int_eq_self unsigned_ucast_eq take_bit_int_eq_self)
qed

interpretation cast_u32i: exact_cast Uint32ToInt uint sint 0 9223372036854775807
  by unfold_locales (auto simp: Uint32ToInt_def sint_ucast_u32)

text \<open>Each checked conversion returns the same number exactly when the target type can represent it and
  the range error otherwise; widening an \<open>int32\<close> or a \<open>uint32\<close> to \<open>int\<close> never fails.\<close>

theorem safecasts_exact:
  "(case Int64ToUint32 a of Inr r \<Rightarrow> uint r = sint a | Inl _ \<Rightarrow> \<not> (0 \<le> sint a \<and> sint a \<le> 4294967295)) \<and>
   (case Int64ToUint16 a of Inr r \<Rightarrow> uint r = sint a | Inl _ \<Rightarrow> \<not> (0 \<le> sint a \<and> sint a \<le> 65535)) \<and>
   (case IntToUint32 a of Inr r \<Rightarrow> uint r = sint a | Inl _ \<Rightarrow> \<not> (0 \<le> sint a \<and> sint a \<le> 4294967295)) \<and>
   (case IntToUint8 a of Inr r \<Rightarrow> uint r = sint a | Inl _ \<Rightarrow> \<not> (0 \<le> sint a \<and> sint a \<le> 255)) \<and>
   (case IntToInt32 a of Inr r \<Rightarrow> sint r = sint a | Inl _ \<Rightarrow> \<not> (- 2147483648 \<le> sint a \<and> sint a \<le> 2147483647)) \<and>
   (case Int32ToInt b of Inr r \<Rightarrow> sint r = sint b | Inl _ \<Rightarrow> False) \<and>
   (case Uint32ToInt c of Inr r \<Rightarrow> sint r = uint c | Inl _ \<Rightarrow> False)"
proof (intro conjI)
  show "case Int32ToInt b of Inr r \<Rightarrow> sint r = sint b | Inl _ \<Rightarrow> False"
    using cast_int.outcome [of b] sint32_bounds [of b] by (cases "Int32ToInt b") auto
  show "case Uint32ToInt c of Inr r \<Rightarrow> sint r = uint c | Inl _ \<Rightarrow> False"
    using cast_u32i.outcome [of c] uint_bounded [of c] by (cases "Uint32ToInt c") auto
qed (rule cast_u32.outcome cast_u16.outcome cast_iu32.outcome cast_u8.outcome cast_i32.outcome)+

end
