(* ===== verification/Netproto_Frame.thy ===== *)
theory Netproto_Frame
  imports Safecast
begin

unbundle bit_operations_syntax

text \<open>
  The length-prefixed framing of the control channel (\<^verbatim>\<open>internal/netproto/frame.go\<close>) and the
  one-byte UDP header (\<^verbatim>\<open>internal/netproto/udp.go\<close>).

  A reader is the list of bytes still to come, after which the stream ends; \<open>readFull\<close> is
  \<open>io.ReadFull\<close>.  A writer is an abstract state with a write function that may fail, as
  \<open>io.Writer\<close>; \<open>bufferWrite\<close> is the writer that never fails.
\<close>

type_synonym byte = "8 word"

definition MaxFrameSize :: nat where "MaxFrameSize = 1048576"

definition MaxPayloadSize :: nat where "MaxPayloadSize = MaxFrameSize - 2"

record frame =
  Type :: uint16
  Payload :: "byte list"

datatype io_error = EOF | UnexpectedEOF

datatype read_error =
    ReadLength io_error
  | InvalidLength uint32
  | ReadTooLarge
  | ReadBody io_error

datatype 'e write_error =
    NilFrame
  | WriteTooLarge
  | WriteHeader 'e
  | WritePayload 'e

subsection \<open>Big-endian integers\<close>

definition be_get16 :: "byte \<Rightarrow> byte \<Rightarrow> uint16" where
  "be_get16 b0 b1 = ucast b1 OR push_bit 8 (ucast b0)"

definition be_put16 :: "uint16 \<Rightarrow> byte list" where
  "be_put16 v = [ucast (drop_bit 8 v), ucast v]"

definition be_get32 :: "byte \<Rightarrow> byte \<Rightarrow> byte \<Rightarrow> byte \<Rightarrow> uint32" where
  "be_get32 b0 b1 b2 b3 =
     ucast b3 OR push_bit 8 (ucast b2) OR push_bit 16 (ucast b1) OR push_bit 24 (ucast b0)"

definition be_put32 :: "uint32 \<Rightarrow> byte list" where
  "be_put32 v = [ucast (drop_bit 24 v), ucast (drop_bit 16 v), ucast (drop_bit 8 v), ucast v]"

subsection \<open>ReadFrame and WriteFrame\<close>

definition readFull :: "nat \<Rightarrow> byte list \<Rightarrow> io_error + byte list \<times> byte list" where
  "readFull n r =
     (if n \<le> length r then Inr (take n r, drop n r)
      else Inl (if r = [] then EOF else UnexpectedEOF))"

definition ReadFrame :: "byte list \<Rightarrow> read_error + frame \<times> byte list" where
  "ReadFrame r =
     (case readFull 4 r of
        Inl e \<Rightarrow> Inl (ReadLength e)
      | Inr (header, r1) \<Rightarrow>
          let len = be_get32 (header ! 0) (header ! 1) (header ! 2) (header ! 3) in
          if len < 2 then Inl (InvalidLength len)
          else if MaxFrameSize < unat len then Inl ReadTooLarge
          else
            (case readFull (unat len) r1 of
               Inl e \<Rightarrow> Inl (ReadBody e)
             | Inr (buf, r2) \<Rightarrow>
                 Inr (\<lparr>Type = be_get16 (buf ! 0) (buf ! 1), Payload = drop 2 buf\<rparr>, r2)))"

definition WriteFrame ::
  "('w \<Rightarrow> byte list \<Rightarrow> 'w \<times> 'e option) \<Rightarrow> 'w \<Rightarrow> frame option \<Rightarrow> 'w \<times> 'e write_error option" where
  "WriteFrame write w f =
     (case f of
        None \<Rightarrow> (w, Some NilFrame)
      | Some f \<Rightarrow>
          if MaxPayloadSize < length (Payload f) then (w, Some WriteTooLarge)
          else
            (case IntToUint32 (of_nat (2 + length (Payload f))) of
               Inl _ \<Rightarrow> (w, Some WriteTooLarge)
             | Inr len \<Rightarrow>
                 (case write w (be_put32 len @ be_put16 (Type f)) of
                    (w1, Some e) \<Rightarrow> (w1, Some (WriteHeader e))
                  | (w1, None) \<Rightarrow>
                      if 0 < length (Payload f) then
                        (case write w1 (Payload f) of
                           (w2, Some e) \<Rightarrow> (w2, Some (WritePayload e))
                         | (w2, None) \<Rightarrow> (w2, None))
                      else (w1, None))))"

definition bufferWrite :: "byte list \<Rightarrow> byte list \<Rightarrow> byte list \<times> unit option" where
  "bufferWrite w p = (w @ p, None)"

subsection \<open>UDP header\<close>

definition UDPMsgPing :: byte where "UDPMsgPing = 1"

definition UDPMsgPong :: byte where "UDPMsgPong = 2"

definition UDPMsgName :: "byte \<Rightarrow> string" where
  "UDPMsgName t =
     (if t = UDPMsgPing then ''ping'' else if t = UDPMsgPong then ''pong'' else ''unknown'')"

datatype udp_error = ErrUDPTooShort

definition ParseUDPHeader :: "byte list \<Rightarrow> udp_error + byte \<times> byte list" where
  "ParseUDPHeader b = (case b of [] \<Rightarrow> Inl ErrUDPTooShort | t # payload \<Rightarrow> Inr (t, payload))"

subsection \<open>Interface: self-delimiting frames on a stream\<close>

text \<open>Frames written one after the other, and a reader that takes \<open>n\<close> frames off a stream.\<close>

fun put_all :: "('f \<Rightarrow> 'b list option) \<Rightarrow> 'f list \<Rightarrow> 'b list option" where
  "put_all put [] = Some []"
| "put_all put (f # fs) =
     (case put f of
        None \<Rightarrow> None
      | Some bs \<Rightarrow> (case put_all put fs of None \<Rightarrow> None | Some cs \<Rightarrow> Some (bs @ cs)))"

fun get_n :: "('b list \<Rightarrow> ('f \<times> 'b list) option) \<Rightarrow> nat \<Rightarrow> 'b list \<Rightarrow> ('f list \<times> 'b list) option" where
  "get_n get 0 r = Some ([], r)"
| "get_n get (Suc n) r =
     (case get r of
        None \<Rightarrow> None
      | Some (f, r1) \<Rightarrow>
          (case get_n get n r1 of None \<Rightarrow> None | Some (fs, r2) \<Rightarrow> Some (f # fs, r2)))"

locale framing =
  fixes put :: "'f \<Rightarrow> 'b list option"
    and get :: "'b list \<Rightarrow> ('f \<times> 'b list) option"
  assumes get_put: "put f = Some bs \<Longrightarrow> get (bs @ rest) = Some (f, rest)"
    and put_get: "get r = Some (f, rest) \<Longrightarrow> \<exists>bs. put f = Some bs \<and> r = bs @ rest"
begin

lemma stream_roundtrip:
  "put_all put fs = Some bs \<Longrightarrow> get_n get (length fs) (bs @ rest) = Some (fs, rest)"
  by (induction fs arbitrary: bs) (auto simp: get_put split: option.splits)

lemma stream_canonical:
  "get_n get n r = Some (fs, rest) \<Longrightarrow> \<exists>bs. put_all put fs = Some bs \<and> r = bs @ rest"
proof (induction n arbitrary: r fs)
  case 0
  then show ?case by simp
next
  case (Suc n)
  then obtain f r1 fs1 where one: "get r = Some (f, r1)"
    and more: "get_n get n r1 = Some (fs1, rest)" and fs: "fs = f # fs1"
    by (auto split: option.splits)
  from put_get [OF one] obtain bs where bs: "put f = Some bs" "r = bs @ r1" by blast
  from Suc.IH [OF more] obtain cs where "put_all put fs1 = Some cs" "r1 = cs @ rest" by blast
  with bs fs show ?case by simp
qed

end

subsection \<open>Round trips\<close>

lemma byte_bit_bound: "bit (b :: byte) n \<Longrightarrow> n < 8"
  using bit_imp_le_length [of b n] by simp

lemma be16_roundtrip: "be_get16 (ucast (drop_bit 8 v)) (ucast v) = v"
  unfolding be_get16_def by (rule bit_word_eqI) (auto simp: bit_simps)

lemma be32_roundtrip:
  "be_get32 (ucast (drop_bit 24 v)) (ucast (drop_bit 16 v)) (ucast (drop_bit 8 v)) (ucast v) = v"
proof (rule bit_word_eqI)
  fix n assume "n < LENGTH(32)"
  then consider "n < 8" | "8 \<le> n" "n < 16" | "16 \<le> n" "n < 24" | "24 \<le> n" "n < 32" by fastforce
  then show "bit (be_get32 (ucast (drop_bit 24 v)) (ucast (drop_bit 16 v))
      (ucast (drop_bit 8 v)) (ucast v)) n = bit v n"
    by cases (auto simp: be_get32_def bit_simps)
qed

lemma be16_split:
  "ucast (drop_bit 8 (be_get16 b0 b1)) = b0" "ucast (be_get16 b0 b1) = b1"
  unfolding be_get16_def
  by (rule bit_word_eqI; auto simp: bit_simps dest: byte_bit_bound)+

lemma be32_split:
  "ucast (drop_bit 24 (be_get32 b0 b1 b2 b3)) = b0"
  "ucast (drop_bit 16 (be_get32 b0 b1 b2 b3)) = b1"
  "ucast (drop_bit 8 (be_get32 b0 b1 b2 b3)) = b2"
  "ucast (be_get32 b0 b1 b2 b3) = b3"
  unfolding be_get32_def
  by (rule bit_word_eqI; auto simp: bit_simps dest: byte_bit_bound)+

text \<open>A frame's bytes on a writer that does not fail, and a read that succeeds.\<close>

definition frame_put :: "frame \<Rightarrow> byte list option" where
  "frame_put f = (case WriteFrame bufferWrite [] (Some f) of (bs, None) \<Rightarrow> Some bs | _ \<Rightarrow> None)"

definition frame_get :: "byte list \<Rightarrow> (frame \<times> byte list) option" where
  "frame_get r = (case ReadFrame r of Inl _ \<Rightarrow> None | Inr p \<Rightarrow> Some p)"

lemma MaxPayloadSize_value: "MaxPayloadSize = 1048574"
  by (simp add: MaxPayloadSize_def MaxFrameSize_def)

lemma IntToUint32_small:
  assumes "n \<le> 1048576"
  shows "IntToUint32 (of_nat n) = Inr (of_nat n)"
proof -
  have "sint (of_nat n :: int64) = int n"
    using assms by (simp add: signed_of_nat signed_take_bit_int_eq_self)
  moreover have "ucast (of_nat n :: int64) = (of_nat n :: uint32)"
    using assms by (simp add: unsigned_of_nat take_bit_nat_eq_self)
  ultimately show ?thesis
    using assms by (simp add: IntToUint32_def Int64ToUint32_def)
qed

lemma WriteFrame_buffer:
  assumes "length (Payload f) \<le> MaxPayloadSize"
  shows "WriteFrame bufferWrite w (Some f) =
    (w @ be_put32 (of_nat (2 + length (Payload f))) @ be_put16 (Type f) @ Payload f, None)"
proof -
  have small: "2 + length (Payload f) \<le> 1048576"
    using assms by (simp add: MaxPayloadSize_value)
  show ?thesis
    unfolding WriteFrame_def option.case IntToUint32_small [OF small] sum.case bufferWrite_def
    using assms by simp
qed

lemma WriteFrame_too_large:
  "MaxPayloadSize < length (Payload f) \<Longrightarrow> WriteFrame write w (Some f) = (w, Some WriteTooLarge)"
  by (simp add: WriteFrame_def)

lemma frame_put_eq:
  "frame_put f =
     (if length (Payload f) \<le> MaxPayloadSize
      then Some (be_put32 (of_nat (2 + length (Payload f))) @ be_put16 (Type f) @ Payload f)
      else None)"
  by (auto simp: frame_put_def WriteFrame_buffer WriteFrame_too_large simp del: of_nat_add)

lemma unat_frame_length:
  "n \<le> 1048576 \<Longrightarrow> unat (of_nat n :: uint32) = n"
  by (simp add: unat_of_nat)

lemma ReadFrame_written:
  assumes "length (Payload f) \<le> MaxPayloadSize"
  shows "ReadFrame (be_put32 (of_nat (2 + length (Payload f))) @ be_put16 (Type f) @ Payload f @ rest)
    = Inr (f, rest)"
proof -
  define n where "n = 2 + length (Payload f)"
  define len where "len = (of_nat n :: uint32)"
  have n: "2 \<le> n" "n \<le> MaxFrameSize" "n = length (be_put16 (Type f) @ Payload f)"
    using assms by (auto simp: n_def MaxPayloadSize_value MaxFrameSize_def be_put16_def)
  have un: "unat len = n"
    using n unfolding len_def MaxFrameSize_def by (intro unat_frame_length) simp
  have "\<not> len < 2" using n un by (simp add: word_less_nat_alt)
  moreover have "be_get32 (be_put32 len ! 0) (be_put32 len ! 1) (be_put32 len ! 2) (be_put32 len ! 3) = len"
    by (simp add: be_put32_def be32_roundtrip)
  moreover have "readFull 4 (be_put32 len @ be_put16 (Type f) @ Payload f @ rest)
      = Inr (be_put32 len, be_put16 (Type f) @ Payload f @ rest)"
    by (simp add: readFull_def be_put32_def)
  moreover have "readFull n (be_put16 (Type f) @ Payload f @ rest)
      = Inr (be_put16 (Type f) @ Payload f, rest)"
    using n(3) by (simp add: readFull_def)
  ultimately show ?thesis
    using n un unfolding ReadFrame_def n_def [symmetric] len_def [symmetric]
    by (simp add: Let_def be_put16_def be16_roundtrip)
qed

lemma list4E: "4 \<le> length r \<Longrightarrow> \<exists>a b c d r1. r = a # b # c # d # r1"
  by (cases r; cases "tl r"; cases "tl (tl r)"; cases "tl (tl (tl r))") auto

lemma ReadFrame_canonical:
  assumes "ReadFrame r = Inr (f, rest)"
  shows "length (Payload f) \<le> MaxPayloadSize
    \<and> r = be_put32 (of_nat (2 + length (Payload f))) @ be_put16 (Type f) @ Payload f @ rest"
proof -
  have "4 \<le> length r"
    using assms by (auto simp: ReadFrame_def readFull_def split: if_splits)
  then obtain b0 b1 b2 b3 r1 where r: "r = b0 # b1 # b2 # b3 # r1" using list4E by blast
  define len where "len = be_get32 b0 b1 b2 b3"
  have ok: "\<not> len < 2" "unat len \<le> MaxFrameSize" "unat len \<le> length r1"
    and f: "f = \<lparr>Type = be_get16 (take (unat len) r1 ! 0) (take (unat len) r1 ! 1),
      Payload = drop 2 (take (unat len) r1)\<rparr>"
    and rest: "rest = drop (unat len) r1"
    using assms unfolding r
    by (auto simp: ReadFrame_def readFull_def Let_def len_def split: if_splits)
  have two: "2 \<le> unat len" using ok(1) by (simp add: word_less_nat_alt)
  then obtain c0 c1 body where buf: "take (unat len) r1 = c0 # c1 # body"
    using ok(3) by (cases r1; cases "tl r1"; cases "unat len"; cases "unat len - 1") auto
  have "length (take (unat len) r1) = unat len" using ok(3) by simp
  then have n: "2 + length (Payload f) = unat len" by (simp add: f buf)
  have hdr: "be_put32 len = [b0, b1, b2, b3]" by (simp add: be_put32_def len_def be32_split)
  have tag: "be_put16 (Type f) = [c0, c1]" by (simp add: be_put16_def f buf be16_split)
  have body: "Payload f = body" by (simp add: f buf)
  have "r1 = take (unat len) r1 @ rest" by (simp add: rest)
  then have "r1 = c0 # c1 # body @ rest" by (simp only: buf append.simps)
  then have "r = be_put32 len @ be_put16 (Type f) @ Payload f @ rest"
    by (simp only: r hdr tag body append.simps)
  with n ok show ?thesis by (simp add: MaxPayloadSize_def)
qed

interpretation ctl: framing frame_put frame_get
proof unfold_locales
  fix f bs rest
  assume "frame_put f = Some bs"
  then show "frame_get (bs @ rest) = Some (f, rest)"
    using ReadFrame_written [of f rest] by (auto simp: frame_put_eq frame_get_def split: if_splits)
next
  fix r f rest
  assume "frame_get r = Some (f, rest)"
  then have "ReadFrame r = Inr (f, rest)" by (simp add: frame_get_def split: sum.splits)
  then show "\<exists>bs. frame_put f = Some bs \<and> r = bs @ rest"
    by (auto simp: frame_put_eq dest: ReadFrame_canonical)
qed

subsection \<open>Correctness of the framing\<close>

text \<open>C17: frames written one after the other on a writer that does not fail are read back in order, and
  the reader leaves exactly the bytes that follow the last frame.\<close>

theorem frame_stream_roundtrip:
  assumes "put_all frame_put fs = Some bs"
  shows "get_n frame_get (length fs) (bs @ rest) = Some (fs, rest)"
  using assms by (rule ctl.stream_roundtrip)

theorem frame_stream_roundtrip_witness:
  "get_n frame_get 2 ([0, 0, 0, 3, 0, 7, 9, 0, 0, 0, 2, 1, 0] @ [5]) =
     Some ([\<lparr>Type = 7, Payload = [9]\<rparr>, \<lparr>Type = 256, Payload = []\<rparr>], [5])"
  using frame_stream_roundtrip [of "[\<lparr>Type = 7, Payload = [9]\<rparr>, \<lparr>Type = 256, Payload = []\<rparr>]"
      "[0, 0, 0, 3, 0, 7, 9, 0, 0, 0, 2, 1, 0]" "[5]"]
  by (simp add: frame_put_eq MaxPayloadSize_value be_put32_def be_put16_def drop_bit_eq_div numeral_2_eq_2 [symmetric])

text \<open>Decoding is canonical: whatever the peer sent, a frame that \<open>ReadFrame\<close> accepts occupies exactly
  the bytes \<open>WriteFrame\<close> would emit for it, so no two encodings denote the same frame.\<close>

theorem ReadFrame_accepts_only_encodings:
  assumes "ReadFrame r = Inr (f, rest)"
  shows "\<exists>bs. WriteFrame bufferWrite [] (Some f) = (bs, None) \<and> r = bs @ rest"
  using ReadFrame_canonical [OF assms] WriteFrame_buffer [of f "[]"] by auto

theorem ReadFrame_accepts_only_encodings_witness:
  "\<exists>bs. WriteFrame bufferWrite [] (Some \<lparr>Type = 7, Payload = [9]\<rparr>) = (bs, None) \<and>
     [0, 0, 0, 3, 0, 7, 9, 4] = bs @ [4]"
  by (rule ReadFrame_accepts_only_encodings)
     (simp add: ReadFrame_def readFull_def be_get32_def be_get16_def MaxFrameSize_def)

text \<open>The length a header declares.\<close>

definition declared :: "byte list \<Rightarrow> uint32" where
  "declared r = be_get32 (r ! 0) (r ! 1) (r ! 2) (r ! 3)"

text \<open>What \<open>ReadFrame\<close> does on every input.  A short header is a length error, a declared length below 2
  or above the maximum frame size is rejected before any of the body is read, a body cut short is a
  body error, and otherwise the type and payload are the declared bytes.\<close>

theorem ReadFrame_behaviour:
  "ReadFrame r =
     (if length r < 4 then Inl (ReadLength (if r = [] then EOF else UnexpectedEOF))
      else if declared r < 2 then Inl (InvalidLength (declared r))
      else if MaxFrameSize < unat (declared r) then Inl ReadTooLarge
      else if length r < 4 + unat (declared r) then Inl (ReadBody (if length r = 4 then EOF else UnexpectedEOF))
      else Inr (\<lparr>Type = be_get16 (r ! 4) (r ! 5), Payload = drop 6 (take (4 + unat (declared r)) r)\<rparr>,
                drop (4 + unat (declared r)) r))"
proof (cases "length r < 4")
  case True
  then show ?thesis by (auto simp: ReadFrame_def readFull_def)
next
  case False
  then obtain b0 b1 b2 b3 r1 where r: "r = b0 # b1 # b2 # b3 # r1" using list4E by (meson not_less)
  show ?thesis
  proof (cases "declared r < 2")
    case True
    then show ?thesis by (simp add: r ReadFrame_def readFull_def declared_def)
  next
    case False
    then have "2 \<le> unat (declared r)" by (simp add: word_less_nat_alt)
    then obtain n where n: "unat (declared r) = Suc (Suc n)" by (metis add_2_eq_Suc le_Suc_ex)
    with False show ?thesis
      by (auto simp: r ReadFrame_def readFull_def declared_def Let_def numeral_eq_Suc)
  qed
qed

end
