(* ===== verification/State_Manager.thy ===== *)
theory State_Manager
  imports Noxa_Prelude "HOL-Library.Product_Lexorder"
begin

text \<open>
  The in-memory state of the server (\<^verbatim>\<open>internal/state/types.go\<close>, \<^verbatim>\<open>internal/state/manager.go\<close>):
  connected clients, channels, channel membership, speaking states and explicit channel
  subscriptions with their reverse index.

  Each exported method takes the manager lock for its whole body, so a method is one atomic step
  on the record \<open>manager\<close>.  Stored values are copies (\<open>cloneClient\<close>, \<open>cloneChannel\<close>), hence the
  value semantics here.  Where a method ranges over a Go map and the order is observable, the
  iteration order is an argument.
\<close>

record client =
  c_ClientID :: client_id
  c_UniqueID :: string
  c_Nickname :: string
  c_ChannelID :: channel_id
  c_IsSpeaking :: bool
  c_PrioritySpeaker :: bool
  c_Status :: string
  c_StatusMessage :: string
  c_E2EPublicKey :: string
  c_IsBot :: bool
  c_ConnectedAt :: time
  c_Conn :: "nat option"
  c_Metadata :: "(string, string) fmap"

record channel =
  ch_ChannelID :: channel_id
  ch_ParentID :: channel_id
  ch_Name :: string
  ch_Topic :: string
  ch_OrderIndex :: int
  ch_ChannelType :: int
  ch_MaxClients :: int
  ch_ClientCount :: int
  ch_CreatedAt :: time
  ch_PasswordHash :: string
  ch_NeededJoinPower :: int
  ch_HasIcon :: bool
  ch_HasPassword :: bool
  ch_OpusBitrate :: int
  ch_OpusFEC :: bool
  ch_OpusDTX :: bool
  ch_OpusStereo :: bool
  ch_SlowModeSeconds :: int
  ch_Description :: string
  ch_InheritPermissions :: bool

record speaking_state =
  ss_ClientID :: client_id
  ss_ChannelID :: channel_id
  ss_StartedAt :: time

record manager =
  clients :: "(client_id, client) fmap"
  channels :: "(channel_id, channel) fmap"
  membership :: "(channel_id, client_id fset) fmap"
  speaking :: "(client_id, speaking_state) fmap"
  subs :: "(client_id, channel_id fset) fmap"
  subsByChannel :: "(channel_id, client_id fset) fmap"

datatype state_error = ErrClientNotFound | ErrChannelNotFound | ErrNotInChannel

definition state_New :: manager where
  "state_New = \<lparr>clients = fmempty, channels = fmempty, membership = fmempty, speaking = fmempty,
     subs = fmempty, subsByChannel = fmempty\<rparr>"

subsection \<open>Clients\<close>

definition AddClient :: "client option \<Rightarrow> manager \<Rightarrow> manager" where
  "AddClient c m =
     (case c of None \<Rightarrow> m | Some c \<Rightarrow> m\<lparr>clients := fmupd (c_ClientID c) c (clients m)\<rparr>)"

definition dec_count :: "channel_id \<Rightarrow> (channel_id, channel) fmap \<Rightarrow> (channel_id, channel) fmap" where
  "dec_count ch chs =
     (case fmlookup chs ch of
        Some x \<Rightarrow>
          if ch_ClientCount x > 0 then fmupd ch (x\<lparr>ch_ClientCount := ch_ClientCount x - 1\<rparr>) chs
          else chs
      | None \<Rightarrow> chs)"

definition inc_count :: "channel_id \<Rightarrow> (channel_id, channel) fmap \<Rightarrow> (channel_id, channel) fmap" where
  "inc_count ch chs =
     (case fmlookup chs ch of
        Some x \<Rightarrow> fmupd ch (x\<lparr>ch_ClientCount := ch_ClientCount x + 1\<rparr>) chs
      | None \<Rightarrow> chs)"

text \<open>Leaving a channel's member set, as four methods spell it out.\<close>

definition leave_members :: "client_id \<Rightarrow> channel_id \<Rightarrow> manager \<Rightarrow> manager" where
  "leave_members cid ch m =
     (case fmlookup (membership m) ch of
        None \<Rightarrow> m
      | Some _ \<Rightarrow>
          m\<lparr>membership := fmset_del ch cid (membership m), channels := dec_count ch (channels m)\<rparr>)"

definition dropSubsLocked :: "client_id \<Rightarrow> manager \<Rightarrow> manager" where
  "dropSubsLocked cid m =
     m\<lparr>subsByChannel := fmset_del_keys (fmset_get (subs m) cid) cid (subsByChannel m),
       subs := fmdrop cid (subs m)\<rparr>"

definition RemoveClient :: "client_id \<Rightarrow> manager \<Rightarrow> manager \<times> client option" where
  "RemoveClient cid m =
     (case fmlookup (clients m) cid of
        None \<Rightarrow> (m, None)
      | Some c \<Rightarrow>
          let m1 = (if c_ChannelID c \<noteq> 0 then leave_members cid (c_ChannelID c) m else m);
              m2 = m1\<lparr>speaking := fmdrop cid (speaking m1)\<rparr>;
              m3 = dropSubsLocked cid m2;
              m4 = m3\<lparr>clients := fmdrop cid (clients m3)\<rparr>
          in (m4, Some c))"

definition GetClient :: "client_id \<Rightarrow> manager \<Rightarrow> client option" where
  "GetClient cid m = fmlookup (clients m) cid"

text \<open>The argument \<open>order\<close> is the order in which the loop visits the client ids.\<close>

fun GetClientByUniqueID :: "client_id list \<Rightarrow> string \<Rightarrow> manager \<Rightarrow> client option" where
  "GetClientByUniqueID [] uid m = None"
| "GetClientByUniqueID (cid # order) uid m =
     (case fmlookup (clients m) cid of
        Some c \<Rightarrow> if c_UniqueID c = uid then Some c else GetClientByUniqueID order uid m
      | None \<Rightarrow> GetClientByUniqueID order uid m)"

definition ClientCount :: "manager \<Rightarrow> nat" where
  "ClientCount m = fcard (fmdom (clients m))"

definition ListClients :: "manager \<Rightarrow> client fset" where
  "ListClients m = fmran (clients m)"

subsection \<open>Channels\<close>

definition AddChannel :: "channel option \<Rightarrow> manager \<Rightarrow> manager" where
  "AddChannel ch m =
     (case ch of None \<Rightarrow> m | Some x \<Rightarrow> m\<lparr>channels := fmupd (ch_ChannelID x) x (channels m)\<rparr>)"

record removed_member =
  rm_ClientID :: client_id
  rm_ChannelID :: channel_id

record remove_result =
  rr_Members :: "removed_member list"
  rr_SubscriberIDs :: "client_id list"

definition removeChannelLocked :: "channel_id \<Rightarrow> manager \<Rightarrow> manager" where
  "removeChannelLocked ch m =
     (let m1 = (case fmlookup (membership m) ch of
                  None \<Rightarrow> m
                | Some members \<Rightarrow>
                    m\<lparr>clients := fmmap_keys (\<lambda>cid c. if cid |\<in>| members then c\<lparr>c_ChannelID := 0\<rparr> else c)
                                  (clients m),
                      membership := fmdrop ch (membership m)\<rparr>);
          gone = ffilter (\<lambda>cid. case fmlookup (speaking m1) cid of
                              Some ss \<Rightarrow> ss_ChannelID ss = ch | None \<Rightarrow> False) (fmdom (speaking m1));
          m2 = m1\<lparr>clients := fmmap_keys (\<lambda>cid c. if cid |\<in>| gone then c\<lparr>c_IsSpeaking := False\<rparr> else c)
                                (clients m1),
                  speaking := fmdrop_fset gone (speaking m1)\<rparr>;
          m3 = m2\<lparr>subs := fmset_del_keys (fmset_get (subsByChannel m2) ch) ch (subs m2),
                  subsByChannel := fmdrop ch (subsByChannel m2)\<rparr>
      in m3\<lparr>channels := fmdrop ch (channels m3)\<rparr>)"

text \<open>
  The loop of \<open>RemoveChannels\<close>: the affected subscribers and the displaced members are collected
  from the state before each channel is removed.  Both slices are sorted before they are
  returned, members by channel and then by client.
\<close>

fun removeChannels_loop ::
  "channel_id list \<Rightarrow> manager \<Rightarrow> client_id fset \<Rightarrow> (channel_id \<times> client_id) fset \<Rightarrow>
   manager \<times> client_id fset \<times> (channel_id \<times> client_id) fset" where
  "removeChannels_loop [] m affected removed = (m, affected, removed)"
| "removeChannels_loop (ch # chs) m affected removed =
     removeChannels_loop chs (removeChannelLocked ch m)
       (affected |\<union>| fmset_get (subsByChannel m) ch)
       (removed |\<union>| Pair ch |`| fmset_get (membership m) ch)"

definition RemoveChannels :: "channel_id list \<Rightarrow> manager \<Rightarrow> manager \<times> remove_result" where
  "RemoveChannels chs m =
     (case removeChannels_loop chs m {||} {||} of
        (m', affected, removed) \<Rightarrow>
          (m', \<lparr>rr_Members = map (\<lambda>(ch, cid). \<lparr>rm_ClientID = cid, rm_ChannelID = ch\<rparr>)
                  (sorted_list_of_fset removed),
                rr_SubscriberIDs = sorted_list_of_fset affected\<rparr>))"

definition RemoveChannel :: "channel_id \<Rightarrow> manager \<Rightarrow> manager" where
  "RemoveChannel ch m = fst (RemoveChannels [ch] m)"

definition GetChannel :: "channel_id \<Rightarrow> manager \<Rightarrow> channel option" where
  "GetChannel ch m = fmlookup (channels m) ch"

text \<open>A nil pointer field leaves the channel's field unchanged.\<close>

record channel_update =
  u_ParentID :: "channel_id option"
  u_Name :: "string option"
  u_Topic :: "string option"
  u_OrderIndex :: "int option"
  u_ChannelType :: "int option"
  u_MaxClients :: "int option"
  u_PasswordHash :: "string option"
  u_NeededJoinPower :: "int option"
  u_HasIcon :: "bool option"
  u_HasPassword :: "bool option"
  u_OpusBitrate :: "int option"
  u_OpusFEC :: "bool option"
  u_OpusDTX :: "bool option"
  u_OpusStereo :: "bool option"
  u_SlowModeSeconds :: "int option"
  u_Description :: "string option"
  u_InheritPermissions :: "bool option"

definition no_update :: channel_update where
  "no_update =
     \<lparr>u_ParentID = None, u_Name = None, u_Topic = None, u_OrderIndex = None, u_ChannelType = None,
      u_MaxClients = None, u_PasswordHash = None, u_NeededJoinPower = None, u_HasIcon = None,
      u_HasPassword = None, u_OpusBitrate = None, u_OpusFEC = None, u_OpusDTX = None,
      u_OpusStereo = None, u_SlowModeSeconds = None, u_Description = None,
      u_InheritPermissions = None\<rparr>"

definition orelse :: "'a option \<Rightarrow> 'a \<Rightarrow> 'a" where
  "orelse u v = (case u of None \<Rightarrow> v | Some x \<Rightarrow> x)"

definition patch_channel :: "channel_update \<Rightarrow> channel \<Rightarrow> channel" where
  "patch_channel u x =
     x\<lparr>ch_ParentID := orelse (u_ParentID u) (ch_ParentID x),
       ch_Name := orelse (u_Name u) (ch_Name x),
       ch_Topic := orelse (u_Topic u) (ch_Topic x),
       ch_OrderIndex := orelse (u_OrderIndex u) (ch_OrderIndex x),
       ch_ChannelType := orelse (u_ChannelType u) (ch_ChannelType x),
       ch_MaxClients := orelse (u_MaxClients u) (ch_MaxClients x),
       ch_PasswordHash := orelse (u_PasswordHash u) (ch_PasswordHash x),
       ch_NeededJoinPower := orelse (u_NeededJoinPower u) (ch_NeededJoinPower x),
       ch_HasIcon := orelse (u_HasIcon u) (ch_HasIcon x),
       ch_HasPassword := orelse (u_HasPassword u) (ch_HasPassword x),
       ch_OpusBitrate := orelse (u_OpusBitrate u) (ch_OpusBitrate x),
       ch_OpusFEC := orelse (u_OpusFEC u) (ch_OpusFEC x),
       ch_OpusDTX := orelse (u_OpusDTX u) (ch_OpusDTX x),
       ch_OpusStereo := orelse (u_OpusStereo u) (ch_OpusStereo x),
       ch_SlowModeSeconds := orelse (u_SlowModeSeconds u) (ch_SlowModeSeconds x),
       ch_Description := orelse (u_Description u) (ch_Description x),
       ch_InheritPermissions := orelse (u_InheritPermissions u) (ch_InheritPermissions x)\<rparr>"

definition UpdateChannel :: "channel_id \<Rightarrow> channel_update \<Rightarrow> manager \<Rightarrow> manager \<times> bool" where
  "UpdateChannel ch u m =
     (case fmlookup (channels m) ch of
        None \<Rightarrow> (m, False)
      | Some x \<Rightarrow> (m\<lparr>channels := fmupd ch (patch_channel u x) (channels m)\<rparr>, True))"

definition SetChannelHasIcon :: "channel_id \<Rightarrow> bool \<Rightarrow> manager \<Rightarrow> manager \<times> bool" where
  "SetChannelHasIcon ch b m = UpdateChannel ch (no_update\<lparr>u_HasIcon := Some b\<rparr>) m"

definition ChannelHasIcon :: "channel_id \<Rightarrow> manager \<Rightarrow> bool \<times> bool" where
  "ChannelHasIcon ch m =
     (case fmlookup (channels m) ch of None \<Rightarrow> (False, False) | Some x \<Rightarrow> (ch_HasIcon x, True))"

definition ChannelCount :: "manager \<Rightarrow> nat" where
  "ChannelCount m = fcard (fmdom (channels m))"

definition ListChannels :: "manager \<Rightarrow> channel fset" where
  "ListChannels m = fmran (channels m)"

text \<open>\<open>ChannelTreeOrdered\<close> sorts the channels, visited in the order \<open>xs\<close>, by parent, order index and id.\<close>

definition tree_key :: "channel \<Rightarrow> int \<times> int \<times> int" where
  "tree_key x = (ch_ParentID x, ch_OrderIndex x, ch_ChannelID x)"

definition ChannelTreeOrdered :: "channel list \<Rightarrow> channel list" where
  "ChannelTreeOrdered xs = sort_key tree_key xs"

subsection \<open>Membership\<close>

text \<open>The second half of \<open>JoinChannel\<close> and \<open>MoveClient\<close>: enter the target channel.\<close>

definition enter_channel :: "client_id \<Rightarrow> client \<Rightarrow> channel_id \<Rightarrow> manager \<Rightarrow> manager" where
  "enter_channel cid c ch m =
     m\<lparr>clients := fmupd cid (c\<lparr>c_ChannelID := ch\<rparr>) (clients m),
       membership := fmset_add ch cid (membership m),
       channels := inc_count ch (channels m)\<rparr>"

definition JoinChannel :: "client_id \<Rightarrow> channel_id \<Rightarrow> manager \<Rightarrow> manager \<times> state_error option" where
  "JoinChannel cid ch m =
     (case fmlookup (clients m) cid of
        None \<Rightarrow> (m, Some ErrClientNotFound)
      | Some c \<Rightarrow>
          (case fmlookup (channels m) ch of
             None \<Rightarrow> (m, Some ErrChannelNotFound)
           | Some _ \<Rightarrow>
               if c_ChannelID c = ch then (m, None)
               else
                 let m1 = (if c_ChannelID c \<noteq> 0 then leave_members cid (c_ChannelID c) m else m)
                 in (enter_channel cid c ch m1, None)))"

text \<open>Clearing the speaking state of a client that leaves its channel.\<close>

definition stop_speaking :: "client_id \<Rightarrow> manager \<Rightarrow> bool" where
  "stop_speaking cid m \<longleftrightarrow> fmlookup (speaking m) cid \<noteq> None"

definition LeaveChannel :: "client_id \<Rightarrow> manager \<Rightarrow> manager \<times> state_error option" where
  "LeaveChannel cid m =
     (case fmlookup (clients m) cid of
        None \<Rightarrow> (m, Some ErrClientNotFound)
      | Some c \<Rightarrow>
          if c_ChannelID c = 0 then (m, Some ErrNotInChannel)
          else
            let m1 = leave_members cid (c_ChannelID c) m;
                c1 = (if stop_speaking cid m1 then c\<lparr>c_IsSpeaking := False\<rparr> else c);
                m2 = (if stop_speaking cid m1 then m1\<lparr>speaking := fmdrop cid (speaking m1)\<rparr> else m1)
            in (m2\<lparr>clients := fmupd cid (c1\<lparr>c_ChannelID := 0\<rparr>) (clients m2)\<rparr>, None))"

definition ChannelMembers :: "channel_id \<Rightarrow> manager \<Rightarrow> client fset" where
  "ChannelMembers ch m =
     (\<lambda>cid. the (fmlookup (clients m) cid)) |`|
       ffilter (\<lambda>cid. fmlookup (clients m) cid \<noteq> None) (fmset_get (membership m) ch)"

definition MoveClient :: "client_id \<Rightarrow> channel_id \<Rightarrow> manager \<Rightarrow> manager \<times> state_error option" where
  "MoveClient cid ch m =
     (case fmlookup (clients m) cid of
        None \<Rightarrow> (m, Some ErrClientNotFound)
      | Some c \<Rightarrow>
          (case fmlookup (channels m) ch of
             None \<Rightarrow> (m, Some ErrChannelNotFound)
           | Some _ \<Rightarrow>
               if c_ChannelID c = ch then (m, None)
               else if c_ChannelID c \<noteq> 0 then
                 let m1 = leave_members cid (c_ChannelID c) m;
                     c1 = (if stop_speaking cid m1 then c\<lparr>c_IsSpeaking := False\<rparr> else c);
                     m2 = (if stop_speaking cid m1 then m1\<lparr>speaking := fmdrop cid (speaking m1)\<rparr> else m1)
                 in (enter_channel cid c1 ch m2, None)
               else (enter_channel cid c ch m, None)))"

subsection \<open>Subscriptions\<close>

definition subscribe_one :: "client_id \<Rightarrow> channel_id \<Rightarrow> manager \<Rightarrow> manager" where
  "subscribe_one cid ch m =
     (case fmlookup (channels m) ch of
        None \<Rightarrow> m
      | Some _ \<Rightarrow>
          m\<lparr>subs := fmset_add cid ch (subs m), subsByChannel := fmset_add ch cid (subsByChannel m)\<rparr>)"

definition Subscribe :: "client_id \<Rightarrow> channel_id list \<Rightarrow> manager \<Rightarrow> manager" where
  "Subscribe cid chs m =
     (case fmlookup (clients m) cid of None \<Rightarrow> m | Some _ \<Rightarrow> fold (subscribe_one cid) chs m)"

text \<open>
  The inner set is kept while the loop runs, even when it becomes empty, and dropped after it;
  the reverse sets are dropped as soon as they become empty.
\<close>

definition Unsubscribe :: "client_id \<Rightarrow> channel_id list \<Rightarrow> manager \<Rightarrow> manager" where
  "Unsubscribe cid chs m =
     (case fmlookup (subs m) cid of
        None \<Rightarrow> m
      | Some s \<Rightarrow>
          let s' = s |-| fset_of_list chs
          in m\<lparr>subs := (if s' = {||} then fmdrop cid (subs m) else fmupd cid s' (subs m)),
               subsByChannel := fold (\<lambda>ch. fmset_del ch cid) chs (subsByChannel m)\<rparr>)"

definition Subscriptions :: "client_id \<Rightarrow> manager \<Rightarrow> channel_id list" where
  "Subscriptions cid m = sorted_list_of_fset (fmset_get (subs m) cid)"

definition IsSubscribed :: "client_id \<Rightarrow> channel_id \<Rightarrow> manager \<Rightarrow> bool" where
  "IsSubscribed cid ch m \<longleftrightarrow> ch |\<in>| fmset_get (subs m) cid"

definition ClientChannelState :: "client_id \<Rightarrow> manager \<Rightarrow> (channel_id \<times> string) option" where
  "ClientChannelState cid m =
     (case fmlookup (clients m) cid of None \<Rightarrow> None | Some c \<Rightarrow> Some (c_ChannelID c, c_E2EPublicKey c))"

definition ChannelSubscribers :: "channel_id \<Rightarrow> manager \<Rightarrow> client fset" where
  "ChannelSubscribers ch m =
     (\<lambda>cid. the (fmlookup (clients m) cid)) |`|
       ffilter (\<lambda>cid. fmlookup (clients m) cid \<noteq> None) (fmset_get (subsByChannel m) ch)"

subsection \<open>Speaking and presence\<close>

definition SetSpeaking :: "client_id \<Rightarrow> bool \<Rightarrow> time \<Rightarrow> manager \<Rightarrow> manager" where
  "SetSpeaking cid b now m =
     (case fmlookup (clients m) cid of
        None \<Rightarrow> m
      | Some c \<Rightarrow>
          if b then
            m\<lparr>clients := fmupd cid (c\<lparr>c_IsSpeaking := True\<rparr>) (clients m),
              speaking := fmupd cid \<lparr>ss_ClientID = cid, ss_ChannelID = c_ChannelID c, ss_StartedAt = now\<rparr>
                (speaking m)\<rparr>
          else
            m\<lparr>clients := fmupd cid (c\<lparr>c_IsSpeaking := False\<rparr>) (clients m),
              speaking := fmdrop cid (speaking m)\<rparr>)"

definition SetPrioritySpeaker :: "client_id \<Rightarrow> bool \<Rightarrow> manager \<Rightarrow> manager" where
  "SetPrioritySpeaker cid b m =
     (case fmlookup (clients m) cid of
        None \<Rightarrow> m
      | Some c \<Rightarrow> m\<lparr>clients := fmupd cid (c\<lparr>c_PrioritySpeaker := b\<rparr>) (clients m)\<rparr>)"

definition SetE2EPublicKey :: "client_id \<Rightarrow> string \<Rightarrow> manager \<Rightarrow> manager" where
  "SetE2EPublicKey cid k m =
     (case fmlookup (clients m) cid of
        None \<Rightarrow> m
      | Some c \<Rightarrow> m\<lparr>clients := fmupd cid (c\<lparr>c_E2EPublicKey := k\<rparr>) (clients m)\<rparr>)"

definition SetStatus :: "client_id \<Rightarrow> string \<Rightarrow> string \<Rightarrow> manager \<Rightarrow> manager" where
  "SetStatus cid st msg m =
     (case fmlookup (clients m) cid of
        None \<Rightarrow> m
      | Some c \<Rightarrow>
          m\<lparr>clients := fmupd cid (c\<lparr>c_Status := st, c_StatusMessage := msg\<rparr>) (clients m)\<rparr>)"

definition SpeakingClients :: "manager \<Rightarrow> speaking_state fset" where
  "SpeakingClients m = fmran (speaking m)"

definition IsSpeaking :: "client_id \<Rightarrow> manager \<Rightarrow> bool" where
  "IsSpeaking cid m \<longleftrightarrow> fmlookup (speaking m) cid \<noteq> None"

record stats =
  st_ClientCount :: nat
  st_ChannelCount :: nat
  st_SpeakingCount :: nat
  st_ChannelClientCounts :: "(channel_id, int) fmap"

definition Stats :: "manager \<Rightarrow> stats" where
  "Stats m =
     \<lparr>st_ClientCount = fcard (fmdom (clients m)), st_ChannelCount = fcard (fmdom (channels m)),
      st_SpeakingCount = fcard (fmdom (speaking m)),
      st_ChannelClientCounts = fmmap ch_ClientCount (channels m)\<rparr>"

subsection \<open>Walks along the parent chain\<close>

definition maxChannelDepth :: nat where "maxChannelDepth = 64"

text \<open>The first argument counts the remaining iterations of the bounded \<open>for\<close> loop.\<close>

fun ancestors_loop :: "nat \<Rightarrow> (channel_id, channel) fmap \<Rightarrow> channel_id \<Rightarrow> channel_id list" where
  "ancestors_loop 0 chs i = []"
| "ancestors_loop (Suc n) chs i =
     (case fmlookup chs i of
        None \<Rightarrow> []
      | Some x \<Rightarrow> if ch_ParentID x = 0 then [] else ch_ParentID x # ancestors_loop n chs (ch_ParentID x))"

definition ChannelAncestors :: "channel_id \<Rightarrow> manager \<Rightarrow> channel_id list" where
  "ChannelAncestors ch m = ancestors_loop maxChannelDepth (channels m) ch"

fun chain_loop :: "nat \<Rightarrow> (channel_id, channel) fmap \<Rightarrow> channel_id \<Rightarrow> channel_id list" where
  "chain_loop 0 chs i = []"
| "chain_loop (Suc n) chs i =
     (case fmlookup chs i of
        None \<Rightarrow> []
      | Some x \<Rightarrow>
          if \<not> ch_InheritPermissions x \<or> ch_ParentID x = 0 then []
          else if fmlookup chs (ch_ParentID x) = None then []
          else ch_ParentID x # chain_loop n chs (ch_ParentID x))"

definition ChannelPermissionChain :: "channel_id \<Rightarrow> manager \<Rightarrow> channel_id list" where
  "ChannelPermissionChain ch m =
     (if fmlookup (channels m) ch = None then []
      else ch # chain_loop maxChannelDepth (channels m) ch)"

fun join_power_loop :: "nat \<Rightarrow> (channel_id, channel) fmap \<Rightarrow> channel_id \<Rightarrow> int \<Rightarrow> int" where
  "join_power_loop 0 chs i needed = needed"
| "join_power_loop (Suc n) chs i needed =
     (case fmlookup chs i of
        None \<Rightarrow> needed
      | Some x \<Rightarrow>
          if \<not> ch_InheritPermissions x \<or> ch_ParentID x = 0 then needed
          else
            (case fmlookup chs (ch_ParentID x) of
               None \<Rightarrow> needed
             | Some p \<Rightarrow>
                 join_power_loop n chs (ch_ParentID x)
                   (if ch_NeededJoinPower p > needed then ch_NeededJoinPower p else needed)))"

definition EffectiveJoinPower :: "channel_id \<Rightarrow> manager \<Rightarrow> int" where
  "EffectiveJoinPower ch m =
     (case fmlookup (channels m) ch of
        None \<Rightarrow> 0
      | Some x \<Rightarrow> join_power_loop maxChannelDepth (channels m) ch (ch_NeededJoinPower x))"

subsection \<open>The invariant\<close>

text \<open>
  Ids and keys agree; a client is a member of exactly the channel it says it is in, and that
  channel exists; the derived client counts are the sizes of the member sets; the speaking map
  lists exactly the clients flagged as speaking; the two subscription indices are inverse to each
  other and mention only registered clients and channels.  No inner set is stored empty.
\<close>

definition inv_keys :: "manager \<Rightarrow> bool" where
  "inv_keys m \<longleftrightarrow>
     (\<forall>cid c. fmlookup (clients m) cid = Some c \<longrightarrow> c_ClientID c = cid) \<and>
     (\<forall>ch x. fmlookup (channels m) ch = Some x \<longrightarrow> ch_ChannelID x = ch \<and> ch \<noteq> 0)"

definition inv_members :: "manager \<Rightarrow> bool" where
  "inv_members m \<longleftrightarrow>
     fmset_ok (membership m) \<and>
     (\<forall>ch cid. cid |\<in>| fmset_get (membership m) ch \<longleftrightarrow>
        ch \<noteq> 0 \<and> (\<exists>c. fmlookup (clients m) cid = Some c \<and> c_ChannelID c = ch)) \<and>
     (\<forall>cid c. fmlookup (clients m) cid = Some c \<longrightarrow> c_ChannelID c \<noteq> 0 \<longrightarrow>
        (\<exists>x. fmlookup (channels m) (c_ChannelID c) = Some x))"

definition inv_counts :: "manager \<Rightarrow> bool" where
  "inv_counts m \<longleftrightarrow>
     (\<forall>ch x. fmlookup (channels m) ch = Some x \<longrightarrow>
        ch_ClientCount x = int (fcard (fmset_get (membership m) ch)))"

definition inv_speaking :: "manager \<Rightarrow> bool" where
  "inv_speaking m \<longleftrightarrow>
     (\<forall>cid. (\<exists>ss. fmlookup (speaking m) cid = Some ss) \<longleftrightarrow>
        (\<exists>c. fmlookup (clients m) cid = Some c \<and> c_IsSpeaking c))"

definition inv_subs :: "manager \<Rightarrow> bool" where
  "inv_subs m \<longleftrightarrow>
     fmset_ok (subs m) \<and> fmset_ok (subsByChannel m) \<and>
     (\<forall>cid ch. ch |\<in>| fmset_get (subs m) cid \<longleftrightarrow> cid |\<in>| fmset_get (subsByChannel m) ch) \<and>
     (\<forall>cid ch. ch |\<in>| fmset_get (subs m) cid \<longrightarrow>
        (\<exists>c. fmlookup (clients m) cid = Some c) \<and> (\<exists>x. fmlookup (channels m) ch = Some x))"

definition mgr_inv :: "manager \<Rightarrow> bool" where
  "mgr_inv m \<longleftrightarrow> inv_keys m \<and> inv_members m \<and> inv_counts m \<and> inv_speaking m \<and> inv_subs m"

lemmas inv_parts = inv_keys_def inv_members_def inv_counts_def inv_speaking_def inv_subs_def

lemma mgr_invI [inv_intros]:
  "inv_keys m \<Longrightarrow> inv_members m \<Longrightarrow> inv_counts m \<Longrightarrow> inv_speaking m \<Longrightarrow> inv_subs m \<Longrightarrow> mgr_inv m"
  by (simp add: mgr_inv_def)

lemma mgr_invD:
  assumes "mgr_inv m"
  shows "inv_keys m" "inv_members m" "inv_counts m" "inv_speaking m" "inv_subs m"
  using assms by (simp_all add: mgr_inv_def)

lemma fmupd_twice [simp]: "fmupd k a (fmupd k b m) = fmupd k a m"
  by (rule fmap_ext) simp

lemma fmdrop_fmupd_same' [simp]: "fmdrop k (fmupd k a m) = fmdrop k m"
  by (rule fmap_ext) simp

lemma update_order [mgr_simps]:
  "m\<lparr>speaking := a, clients := b\<rparr> = m\<lparr>clients := b, speaking := a\<rparr>"
  "c\<lparr>c_IsSpeaking := p, c_ChannelID := i\<rparr> = c\<lparr>c_ChannelID := i, c_IsSpeaking := p\<rparr>"
  by simp_all

lemma state_New_inv: "mgr_inv state_New"
  by (simp add: mgr_inv_def inv_parts state_New_def)

subsubsection \<open>Client records\<close>

lemma set_client_inv:
  assumes "mgr_inv m" "fmlookup (clients m) cid = Some c"
    and "c_ClientID c' = c_ClientID c" "c_ChannelID c' = c_ChannelID c" "c_IsSpeaking c' = c_IsSpeaking c"
  shows "mgr_inv (m\<lparr>clients := fmupd cid c' (clients m)\<rparr>)"
proof (rule mgr_invI)
  note p = mgr_invD [OF assms(1)]
  show "inv_keys (m\<lparr>clients := fmupd cid c' (clients m)\<rparr>)"
    using p(1) assms(2-) by (auto simp: inv_keys_def)
  show "inv_members (m\<lparr>clients := fmupd cid c' (clients m)\<rparr>)"
    using p(2) assms(2-) by (auto simp: inv_members_def)
  show "inv_counts (m\<lparr>clients := fmupd cid c' (clients m)\<rparr>)"
    using p(3) by (simp add: inv_counts_def)
  show "inv_speaking (m\<lparr>clients := fmupd cid c' (clients m)\<rparr>)"
    using p(4) assms(2-) by (auto simp: inv_speaking_def)
  show "inv_subs (m\<lparr>clients := fmupd cid c' (clients m)\<rparr>)"
    using p(5) assms(2-) by (auto simp: inv_subs_def)
qed

lemma set_speaking_inv:
  assumes "mgr_inv m" "fmlookup (clients m) cid = Some c"
  shows "mgr_inv (m\<lparr>clients := fmupd cid (c\<lparr>c_IsSpeaking := True\<rparr>) (clients m),
    speaking := fmupd cid ss (speaking m)\<rparr>)" (is "mgr_inv ?a")
    and "mgr_inv (m\<lparr>clients := fmupd cid (c\<lparr>c_IsSpeaking := False\<rparr>) (clients m),
    speaking := fmdrop cid (speaking m)\<rparr>)" (is "mgr_inv ?b")
proof -
  note p = mgr_invD [OF assms(1)]
  have "inv_keys ?a" "inv_keys ?b" using p(1) assms(2) by (auto simp: inv_keys_def)
  moreover have "inv_members ?a" "inv_members ?b" using p(2) assms(2) by (auto simp: inv_members_def)
  moreover have "inv_counts ?a" "inv_counts ?b" using p(3) by (simp_all add: inv_counts_def)
  moreover have "inv_speaking ?a" "inv_speaking ?b" using p(4) by (auto simp: inv_speaking_def)
  moreover have "inv_subs ?a" "inv_subs ?b" using p(5) assms(2) by (auto simp: inv_subs_def)
  ultimately show "mgr_inv ?a" "mgr_inv ?b" by (auto intro: mgr_invI)
qed

lemma AddClient_inv:
  assumes "mgr_inv m" "fmlookup (clients m) (c_ClientID c) = None" "c_ChannelID c = 0" "\<not> c_IsSpeaking c"
  shows "mgr_inv (AddClient (Some c) m)"
proof (rule mgr_invI)
  note p = mgr_invD [OF assms(1)]
  show "inv_keys (AddClient (Some c) m)" using p(1) by (auto simp: inv_keys_def AddClient_def)
  show "inv_members (AddClient (Some c) m)"
    using p(2) assms(2,3) by (auto simp: inv_members_def AddClient_def)
  show "inv_counts (AddClient (Some c) m)" using p(3) by (simp add: inv_counts_def AddClient_def)
  show "inv_speaking (AddClient (Some c) m)"
    using p(4) assms(2,4) by (auto simp: inv_speaking_def AddClient_def)
  show "inv_subs (AddClient (Some c) m)"
    using p(5) by (auto simp: inv_subs_def AddClient_def)
qed

subsubsection \<open>Leaving and entering a channel\<close>

lemma leave_members_eq:
  assumes "mgr_inv m" "fmlookup (clients m) cid = Some c" "c_ChannelID c = ch" "ch \<noteq> 0"
  obtains x where "fmlookup (channels m) ch = Some x"
    and "leave_members cid ch m =
      m\<lparr>membership := fmset_del ch cid (membership m),
        channels := fmupd ch (x\<lparr>ch_ClientCount := ch_ClientCount x - 1\<rparr>) (channels m)\<rparr>"
    and "cid |\<in>| fmset_get (membership m) ch"
proof -
  note p = mgr_invD [OF assms(1)]
  from p(2) assms obtain x where x: "fmlookup (channels m) ch = Some x"
    unfolding inv_members_def by blast
  from p(2) assms have mem: "cid |\<in>| fmset_get (membership m) ch" by (auto simp: inv_members_def)
  then obtain s where s: "fmlookup (membership m) ch = Some s" "cid |\<in>| s"
    by (auto simp: fmset_get_def split: option.splits)
  have "fcard s \<noteq> 0" using s(2) by auto
  with p(3) x s have "ch_ClientCount x > 0" by (auto simp: inv_counts_def fmset_get_def)
  with that x mem s show thesis by (auto simp: leave_members_def dec_count_def)
qed

text \<open>A client detached from its channel: member set, count and the client's channel id agree again.\<close>

lemma detach_inv:
  assumes "mgr_inv m" "fmlookup (clients m) cid = Some c" "c_ChannelID c = ch" "ch \<noteq> 0"
    and "d = leave_members cid ch m"
  shows "mgr_inv (d\<lparr>clients := fmupd cid (c\<lparr>c_ChannelID := 0\<rparr>) (clients d)\<rparr>)"
proof -
  note p = mgr_invD [OF assms(1)]
  from assms obtain x where x: "fmlookup (channels m) ch = Some x"
    and d: "d = m\<lparr>membership := fmset_del ch cid (membership m),
        channels := fmupd ch (x\<lparr>ch_ClientCount := ch_ClientCount x - 1\<rparr>) (channels m)\<rparr>"
    and mem: "cid |\<in>| fmset_get (membership m) ch"
    by (auto elim: leave_members_eq)
  let ?m = "d\<lparr>clients := fmupd cid (c\<lparr>c_ChannelID := 0\<rparr>) (clients d)\<rparr>"
  have card: "int (fcard (fmset_get (membership m) ch |-| {|cid|}))
      = int (fcard (fmset_get (membership m) ch)) - 1"
    using fcard_Suc_fminus1 [OF mem] by simp
  have "inv_keys ?m" using p(1) x assms(2) by (auto simp: inv_keys_def d)
  moreover have "inv_members ?m" using p(2) x assms(2,3,4) by (auto simp: inv_members_def d)
  moreover have "inv_counts ?m" using p(3) x card by (auto simp: inv_counts_def d)
  moreover have "inv_speaking ?m" using p(4) assms(2) by (auto simp: inv_speaking_def d)
  moreover have "inv_subs ?m" using p(5) x assms(2) by (fastforce simp: inv_subs_def d)
  ultimately show ?thesis by (rule mgr_invI)
qed

lemma enter_inv:
  assumes "mgr_inv m" "fmlookup (clients m) cid = Some c" "c_ChannelID c = 0"
    and "fmlookup (channels m) ch = Some x"
  shows "mgr_inv (enter_channel cid c ch m)"
proof -
  note p = mgr_invD [OF assms(1)]
  let ?m = "enter_channel cid c ch m"
  have ch: "ch \<noteq> 0" using p(1) assms(4) by (auto simp: inv_keys_def)
  have "cid |\<notin>| fmset_get (membership m) ch" using p(2) assms(2,3) by (auto simp: inv_members_def)
  then have card: "int (fcard (finsert cid (fmset_get (membership m) ch)))
      = int (fcard (fmset_get (membership m) ch)) + 1"
    by (simp add: fcard_finsert_disjoint)
  have "inv_keys ?m" using p(1) assms by (auto simp: inv_keys_def enter_channel_def inc_count_def)
  moreover have "inv_members ?m"
    using p(2) assms ch by (auto simp: inv_members_def enter_channel_def inc_count_def)
  moreover have "inv_counts ?m"
    using p(3) assms(4) card by (auto simp: inv_counts_def enter_channel_def inc_count_def)
  moreover have "inv_speaking ?m" using p(4) assms(2) by (auto simp: inv_speaking_def enter_channel_def)
  moreover have "inv_subs ?m"
    using p(5) assms by (fastforce simp: inv_subs_def enter_channel_def inc_count_def)
  ultimately show ?thesis by (rule mgr_invI)
qed

text \<open>Entering overwrites the client's record, so it may follow a detached state.\<close>

lemma enter_overwrite: "enter_channel cid c ch (m\<lparr>clients := fmupd cid d (clients m)\<rparr>) = enter_channel cid c ch m"
  by (simp add: enter_channel_def)

lemma enter_ignores_channel_id:
  "enter_channel cid (c\<lparr>c_ChannelID := i\<rparr>) ch m = enter_channel cid c ch m"
  by (simp add: enter_channel_def)

lemma leave_members_frame [simp]:
  "clients (leave_members cid ch m) = clients m"
  "speaking (leave_members cid ch m) = speaking m"
  "subs (leave_members cid ch m) = subs m"
  "subsByChannel (leave_members cid ch m) = subsByChannel m"
  by (simp_all add: leave_members_def split: option.splits)

lemma dec_count_dom: "(\<exists>x. fmlookup (dec_count i chs) ch = Some x) \<longleftrightarrow> (\<exists>x. fmlookup chs ch = Some x)"
  by (auto simp: dec_count_def split: option.splits)

lemma leave_members_dom:
  "(\<exists>x. fmlookup (channels (leave_members cid i m)) ch = Some x) \<longleftrightarrow> (\<exists>x. fmlookup (channels m) ch = Some x)"
  by (auto simp: leave_members_def dec_count_dom split: option.splits)

lemma JoinChannel_inv:
  assumes inv: "mgr_inv m"
  shows "mgr_inv (fst (JoinChannel cid ch m))"
proof (cases "fmlookup (clients m) cid")
  case None
  with inv show ?thesis by (simp add: JoinChannel_def)
next
  case (Some c)
  show ?thesis
  proof (cases "fmlookup (channels m) ch = None \<or> c_ChannelID c = ch")
    case True
    with Some inv show ?thesis by (auto simp: JoinChannel_def split: option.splits)
  next
    case False
    then obtain x where x: "fmlookup (channels m) ch = Some x" by auto
    show ?thesis
    proof (cases "c_ChannelID c = 0")
      case True
      with False x Some enter_inv [OF inv Some True x] show ?thesis by (simp add: JoinChannel_def)
    next
      case old: False
      define d where "d = leave_members cid (c_ChannelID c) m"
      define e where "e = d\<lparr>clients := fmupd cid (c\<lparr>c_ChannelID := 0\<rparr>) (clients d)\<rparr>"
      have inv_e: "mgr_inv e" using detach_inv [OF inv Some refl old d_def] by (simp add: e_def)
      obtain y where y: "fmlookup (channels e) ch = Some y"
        using leave_members_dom [of cid "c_ChannelID c" m ch] x by (auto simp: e_def d_def)
      have "mgr_inv (enter_channel cid (c\<lparr>c_ChannelID := 0\<rparr>) ch e)"
        by (rule enter_inv [OF inv_e _ _ y]) (simp_all add: e_def)
      then have "mgr_inv (enter_channel cid c ch d)"
        by (simp only: e_def enter_overwrite enter_ignores_channel_id)
      with False x Some old show ?thesis by (simp add: JoinChannel_def d_def)
    qed
  qed
qed

text \<open>Silencing a speaking client after it was detached.\<close>

lemma silenced_inv:
  assumes inv: "mgr_inv e" and c: "fmlookup (clients e) cid = Some c"
  defines "c1 \<equiv> (if stop_speaking cid e then c\<lparr>c_IsSpeaking := False\<rparr> else c)"
    and "e1 \<equiv> (if stop_speaking cid e then e\<lparr>speaking := fmdrop cid (speaking e)\<rparr> else e)"
  shows "mgr_inv (e1\<lparr>clients := fmupd cid c1 (clients e1)\<rparr>)"
proof (cases "stop_speaking cid e")
  case True
  with set_speaking_inv(2) [OF inv c] show ?thesis by (simp add: c1_def e1_def mgr_simps)
next
  case False
  with set_client_inv [OF inv c refl refl refl] show ?thesis by (simp add: c1_def e1_def)
qed

text \<open>The state in which a moving or leaving client stands between its two channels.\<close>

definition departed :: "client_id \<Rightarrow> client \<Rightarrow> manager \<Rightarrow> manager" where
  "departed cid c m =
     (let d = leave_members cid (c_ChannelID c) m;
          c1 = (if stop_speaking cid d then c\<lparr>c_IsSpeaking := False\<rparr> else c);
          d1 = (if stop_speaking cid d then d\<lparr>speaking := fmdrop cid (speaking d)\<rparr> else d)
      in d1\<lparr>clients := fmupd cid (c1\<lparr>c_ChannelID := 0\<rparr>) (clients d1)\<rparr>)"

lemma departed_inv:
  assumes "mgr_inv m" "fmlookup (clients m) cid = Some c" "c_ChannelID c \<noteq> 0"
  shows "mgr_inv (departed cid c m)"
proof -
  define d where "d = leave_members cid (c_ChannelID c) m"
  define e where "e = d\<lparr>clients := fmupd cid (c\<lparr>c_ChannelID := 0\<rparr>) (clients d)\<rparr>"
  have "mgr_inv e" using detach_inv [OF assms(1,2) refl assms(3) d_def] by (simp add: e_def)
  from silenced_inv [OF this, of cid "c\<lparr>c_ChannelID := 0\<rparr>"]
  show ?thesis
    by (cases "stop_speaking cid d")
       (auto simp: departed_def Let_def d_def e_def stop_speaking_def mgr_simps)
qed

lemma departed_client:
  "\<exists>c1. fmlookup (clients (departed cid c m)) cid = Some c1 \<and> c_ChannelID c1 = 0"
  by (auto simp: departed_def Let_def)

lemma departed_channels: "channels (departed cid c m) = channels (leave_members cid (c_ChannelID c) m)"
  by (simp add: departed_def Let_def)

lemma LeaveChannel_departed:
  "fmlookup (clients m) cid = Some c \<Longrightarrow> c_ChannelID c \<noteq> 0 \<Longrightarrow>
   LeaveChannel cid m = (departed cid c m, None)"
  by (simp add: LeaveChannel_def departed_def Let_def)

lemma LeaveChannel_inv:
  assumes inv: "mgr_inv m"
  shows "mgr_inv (fst (LeaveChannel cid m))"
proof (cases "\<exists>c. fmlookup (clients m) cid = Some c \<and> c_ChannelID c \<noteq> 0")
  case True
  with inv show ?thesis by (auto simp: LeaveChannel_departed intro: departed_inv)
next
  case False
  with inv show ?thesis by (auto simp: LeaveChannel_def split: option.splits)
qed

lemma MoveClient_departed:
  assumes "fmlookup (clients m) cid = Some c" "fmlookup (channels m) ch = Some x"
    and "c_ChannelID c \<noteq> ch" "c_ChannelID c \<noteq> 0"
  shows "MoveClient cid ch m =
    (enter_channel cid (the (fmlookup (clients (departed cid c m)) cid)) ch (departed cid c m), None)"
  using assms
  by (simp add: MoveClient_def departed_def Let_def enter_overwrite enter_ignores_channel_id)

lemma MoveClient_inv:
  assumes inv: "mgr_inv m"
  shows "mgr_inv (fst (MoveClient cid ch m))"
proof (cases "\<exists>c x. fmlookup (clients m) cid = Some c \<and> fmlookup (channels m) ch = Some x \<and> c_ChannelID c \<noteq> ch")
  case True
  then obtain c x where c: "fmlookup (clients m) cid = Some c" and x: "fmlookup (channels m) ch = Some x"
    and ne: "c_ChannelID c \<noteq> ch" by blast
  show ?thesis
  proof (cases "c_ChannelID c = 0")
    case True
    with c x ne enter_inv [OF inv c True x] show ?thesis by (simp add: MoveClient_def)
  next
    case False
    obtain c1 where c1: "fmlookup (clients (departed cid c m)) cid = Some c1" "c_ChannelID c1 = 0"
      using departed_client by blast
    obtain y where y: "fmlookup (channels (departed cid c m)) ch = Some y"
      using leave_members_dom x by (metis departed_channels)
    from enter_inv [OF departed_inv [OF inv c False] c1 y]
    show ?thesis by (simp add: MoveClient_departed [OF c x ne False] c1)
  qed
next
  case False
  with inv show ?thesis by (auto simp: MoveClient_def split: option.splits)
qed

subsubsection \<open>Removing a client\<close>

lemma drop_client_inv:
  assumes "mgr_inv m" "fmlookup (clients m) cid = Some c" "c_ChannelID c = 0"
  defines "m' \<equiv> dropSubsLocked cid (m\<lparr>speaking := fmdrop cid (speaking m)\<rparr>)"
  shows "mgr_inv (m'\<lparr>clients := fmdrop cid (clients m')\<rparr>)" (is "mgr_inv ?m")
proof -
  note p = mgr_invD [OF assms(1)]
  have "inv_keys ?m" using p(1) by (auto simp: inv_keys_def m'_def dropSubsLocked_def)
  moreover have "inv_members ?m"
    using p(2) assms(2,3) by (fastforce simp: inv_members_def m'_def dropSubsLocked_def)
  moreover have "inv_counts ?m" using p(3) by (simp add: inv_counts_def m'_def dropSubsLocked_def)
  moreover have "inv_speaking ?m" using p(4) by (auto simp: inv_speaking_def m'_def dropSubsLocked_def)
  moreover have "inv_subs ?m"
    using p(5) by (auto simp: inv_subs_def m'_def dropSubsLocked_def fmset_get_del_keys fmset_ok_del_keys)
  ultimately show ?thesis by (rule mgr_invI)
qed

lemma RemoveClient_inv:
  assumes inv: "mgr_inv m"
  shows "mgr_inv (fst (RemoveClient cid m))"
proof (cases "fmlookup (clients m) cid")
  case None
  with inv show ?thesis by (simp add: RemoveClient_def)
next
  case (Some c)
  show ?thesis
  proof (cases "c_ChannelID c = 0")
    case True
    with Some drop_client_inv [OF inv Some True] show ?thesis by (simp add: RemoveClient_def Let_def)
  next
    case False
    define d where "d = leave_members cid (c_ChannelID c) m"
    define e where "e = d\<lparr>clients := fmupd cid (c\<lparr>c_ChannelID := 0\<rparr>) (clients d)\<rparr>"
    have "mgr_inv e" using detach_inv [OF inv Some refl False d_def] by (simp add: e_def)
    from drop_client_inv [OF this, of cid "c\<lparr>c_ChannelID := 0\<rparr>"] Some False
    show ?thesis by (simp add: RemoveClient_def Let_def e_def d_def dropSubsLocked_def mgr_simps)
  qed
qed

subsubsection \<open>Channels\<close>

lemma AddChannel_inv:
  assumes "mgr_inv m" "fmlookup (channels m) (ch_ChannelID x) = None" "ch_ChannelID x \<noteq> 0" "ch_ClientCount x = 0"
  shows "mgr_inv (AddChannel (Some x) m)" (is "mgr_inv ?m")
proof -
  note p = mgr_invD [OF assms(1)]
  have "fmset_get (membership m) (ch_ChannelID x) = {||}"
  proof (rule ccontr)
    assume "fmset_get (membership m) (ch_ChannelID x) \<noteq> {||}"
    then obtain cid where "cid |\<in>| fmset_get (membership m) (ch_ChannelID x)" by blast
    with p(2) assms(2) show False by (force simp: inv_members_def)
  qed
  then have "inv_counts ?m" using p(3) assms(4) by (auto simp: inv_counts_def AddChannel_def)
  moreover have "inv_keys ?m" using p(1) assms(3) by (auto simp: inv_keys_def AddChannel_def)
  moreover have "inv_members ?m" using p(2) by (auto simp: inv_members_def AddChannel_def)
  moreover have "inv_speaking ?m" using p(4) by (simp add: inv_speaking_def AddChannel_def)
  moreover have "inv_subs ?m" using p(5) by (auto simp: inv_subs_def AddChannel_def)
  ultimately show ?thesis by (intro mgr_invI)
qed

lemma patch_channel_frame [simp]:
  "ch_ChannelID (patch_channel u x) = ch_ChannelID x"
  "ch_ClientCount (patch_channel u x) = ch_ClientCount x"
  by (simp_all add: patch_channel_def)

lemma UpdateChannel_inv:
  assumes "mgr_inv m"
  shows "mgr_inv (fst (UpdateChannel ch u m))"
proof (cases "fmlookup (channels m) ch")
  case None
  with assms show ?thesis by (simp add: UpdateChannel_def)
next
  case (Some x)
  note p = mgr_invD [OF assms]
  let ?m = "m\<lparr>channels := fmupd ch (patch_channel u x) (channels m)\<rparr>"
  have "inv_keys ?m" using p(1) Some by (auto simp: inv_keys_def)
  moreover have "inv_members ?m" using p(2) by (auto simp: inv_members_def)
  moreover have "inv_counts ?m" using p(3) Some by (auto simp: inv_counts_def)
  moreover have "inv_speaking ?m" using p(4) by (simp add: inv_speaking_def)
  moreover have "inv_subs ?m" using p(5) by (auto simp: inv_subs_def)
  ultimately have "mgr_inv ?m" by (rule mgr_invI)
  with Some show ?thesis by (simp add: UpdateChannel_def)
qed

text \<open>The effect of removing one channel, field by field.\<close>

definition evict :: "channel_id \<Rightarrow> manager \<Rightarrow> client_id \<Rightarrow> client \<Rightarrow> client" where
  "evict ch m cid c =
     c\<lparr>c_ChannelID := (if cid |\<in>| fmset_get (membership m) ch then 0 else c_ChannelID c),
       c_IsSpeaking := (case fmlookup (speaking m) cid of
          Some ss \<Rightarrow> if ss_ChannelID ss = ch then False else c_IsSpeaking c | None \<Rightarrow> c_IsSpeaking c)\<rparr>"

lemma evict_fields [simp]:
  "c_ClientID (evict ch m cid c) = c_ClientID c"
  "c_ChannelID (evict ch m cid c) = (if cid |\<in>| fmset_get (membership m) ch then 0 else c_ChannelID c)"
  "c_IsSpeaking (evict ch m cid c) =
     (case fmlookup (speaking m) cid of
        Some ss \<Rightarrow> if ss_ChannelID ss = ch then False else c_IsSpeaking c | None \<Rightarrow> c_IsSpeaking c)"
  by (simp_all add: evict_def)

lemma removeChannelLocked_fields:
  "fmlookup (clients (removeChannelLocked ch m)) cid = map_option (evict ch m cid) (fmlookup (clients m) cid)"
  "fmset_get (membership (removeChannelLocked ch m)) i = (if i = ch then {||} else fmset_get (membership m) i)"
  "fmset_ok (membership m) \<Longrightarrow> fmset_ok (membership (removeChannelLocked ch m))"
  "fmlookup (speaking (removeChannelLocked ch m)) cid =
     (case fmlookup (speaking m) cid of
        Some ss \<Rightarrow> if ss_ChannelID ss = ch then None else Some ss | None \<Rightarrow> None)"
  "subs (removeChannelLocked ch m) = fmset_del_keys (fmset_get (subsByChannel m) ch) ch (subs m)"
  "subsByChannel (removeChannelLocked ch m) = fmdrop ch (subsByChannel m)"
  "channels (removeChannelLocked ch m) = fmdrop ch (channels m)"
  by (auto simp: removeChannelLocked_def Let_def evict_def fmset_get_def map_option_case
      intro: fmdomI dest: fmdom_notD split: option.splits)

lemma removeChannelLocked_inv:
  assumes "mgr_inv m"
  shows "mgr_inv (removeChannelLocked ch m)" (is "mgr_inv ?m")
proof -
  note p = mgr_invD [OF assms] and f = removeChannelLocked_fields
  have "inv_keys ?m" using p(1) by (auto simp: inv_keys_def f)
  moreover have "inv_members ?m"
    unfolding inv_members_def
  proof (intro conjI allI impI)
    show "fmset_ok (membership ?m)" using p(2) by (simp add: inv_members_def f)
    show "cid |\<in>| fmset_get (membership ?m) i \<longleftrightarrow>
      i \<noteq> 0 \<and> (\<exists>c. fmlookup (clients ?m) cid = Some c \<and> c_ChannelID c = i)" for i cid
      using p(2) by (cases "fmlookup (clients m) cid") (auto simp: inv_members_def f)
    show "\<exists>x. fmlookup (channels ?m) (c_ChannelID c) = Some x"
      if "fmlookup (clients ?m) cid = Some c" "c_ChannelID c \<noteq> 0" for cid c
      using p(2) that by (auto simp: inv_members_def f split: if_splits)
  qed
  moreover have "inv_counts ?m" using p(3) by (auto simp: inv_counts_def f)
  moreover have "inv_speaking ?m"
    unfolding inv_speaking_def
  proof
    fix cid
    show "(\<exists>ss. fmlookup (speaking ?m) cid = Some ss) \<longleftrightarrow>
        (\<exists>c. fmlookup (clients ?m) cid = Some c \<and> c_IsSpeaking c)"
      using p(4) [unfolded inv_speaking_def, rule_format, of cid]
      by (cases "fmlookup (speaking m) cid"; cases "fmlookup (clients m) cid") (auto simp: f)
  qed
  moreover have "inv_subs ?m"
    using p(5) by (auto simp: inv_subs_def f fmset_get_del_keys fmset_ok_del_keys)
  ultimately show ?thesis by (rule mgr_invI)
qed

lemma removeChannels_loop_inv: "mgr_inv m \<Longrightarrow> mgr_inv (fst (removeChannels_loop chs m a r))"
  by (induction chs arbitrary: m a r) (auto intro: removeChannelLocked_inv)

lemma RemoveChannels_inv: "mgr_inv m \<Longrightarrow> mgr_inv (fst (RemoveChannels chs m))"
  using removeChannels_loop_inv [of m chs "{||}" "{||}"]
  by (simp add: RemoveChannels_def case_prod_beta)

subsubsection \<open>Subscriptions\<close>

lemma subscribe_one_inv:
  assumes "mgr_inv m" "fmlookup (clients m) cid = Some c"
  shows "mgr_inv (subscribe_one cid ch m)" (is "mgr_inv ?m")
proof -
  note p = mgr_invD [OF assms(1)]
  have "inv_subs ?m"
    using p(5) assms(2)
    by (auto simp: inv_subs_def subscribe_one_def fmset_pair.inverse_add split: option.splits)
  moreover have "inv_keys ?m" "inv_members ?m" "inv_counts ?m" "inv_speaking ?m"
    using p by (simp_all add: inv_parts subscribe_one_def split: option.splits)
  ultimately show ?thesis by (intro mgr_invI)
qed

lemma subscribe_one_clients [simp]: "clients (subscribe_one cid ch m) = clients m"
  by (simp add: subscribe_one_def split: option.splits)

lemma Subscribe_inv:
  assumes "mgr_inv m"
  shows "mgr_inv (Subscribe cid chs m)"
proof (cases "fmlookup (clients m) cid")
  case None
  with assms show ?thesis by (simp add: Subscribe_def)
next
  case (Some c)
  have "mgr_inv (fold (subscribe_one cid) chs m)" using assms Some
    by (induction chs arbitrary: m) (simp_all add: subscribe_one_inv)
  with Some show ?thesis by (simp add: Subscribe_def)
qed

lemma Unsubscribe_inv:
  assumes "mgr_inv m"
  shows "mgr_inv (Unsubscribe cid chs m)" (is "mgr_inv ?m")
proof -
  note p = mgr_invD [OF assms]
  have "inv_subs ?m"
  proof (cases "fmlookup (subs m) cid")
    case None
    with p(5) show ?thesis by (simp add: Unsubscribe_def)
  next
    case (Some s)
    have s: "fmset_get (subs m) cid = s" using Some by (simp add: fmset_get_def)
    have "fmset_ok (fmupd cid t (subs m))" if "t \<noteq> {||}" for t
      using p(5) that by (auto simp: inv_subs_def fmset_ok_def)
    then show ?thesis
      using p(5) Some s
      by (auto simp: inv_subs_def Unsubscribe_def Let_def fold_fmset_del_get fold_fmset_del_ok
          fset_of_list_elem split: if_splits)
  qed
  moreover have "inv_keys ?m" "inv_members ?m" "inv_counts ?m" "inv_speaking ?m"
    using p by (simp_all add: inv_parts Unsubscribe_def Let_def split: option.splits)
  ultimately show ?thesis by (intro mgr_invI)
qed

subsection \<open>Runs of the manager\<close>

datatype mgr_op =
    OpAddClient client
  | OpRemoveClient client_id
  | OpAddChannel channel
  | OpRemoveChannels "channel_id list"
  | OpUpdateChannel channel_id channel_update
  | OpJoinChannel client_id channel_id
  | OpLeaveChannel client_id
  | OpMoveClient client_id channel_id
  | OpSubscribe client_id "channel_id list"
  | OpUnsubscribe client_id "channel_id list"
  | OpSetSpeaking client_id bool time
  | OpSetPrioritySpeaker client_id bool
  | OpSetE2EPublicKey client_id string
  | OpSetStatus client_id string string

fun mgr_step :: "mgr_op \<Rightarrow> manager \<Rightarrow> manager" where
  "mgr_step (OpAddClient c) m = AddClient (Some c) m"
| "mgr_step (OpRemoveClient cid) m = fst (RemoveClient cid m)"
| "mgr_step (OpAddChannel x) m = AddChannel (Some x) m"
| "mgr_step (OpRemoveChannels chs) m = fst (RemoveChannels chs m)"
| "mgr_step (OpUpdateChannel ch u) m = fst (UpdateChannel ch u m)"
| "mgr_step (OpJoinChannel cid ch) m = fst (JoinChannel cid ch m)"
| "mgr_step (OpLeaveChannel cid) m = fst (LeaveChannel cid m)"
| "mgr_step (OpMoveClient cid ch) m = fst (MoveClient cid ch m)"
| "mgr_step (OpSubscribe cid chs) m = Subscribe cid chs m"
| "mgr_step (OpUnsubscribe cid chs) m = Unsubscribe cid chs m"
| "mgr_step (OpSetSpeaking cid b now) m = SetSpeaking cid b now m"
| "mgr_step (OpSetPrioritySpeaker cid b) m = SetPrioritySpeaker cid b m"
| "mgr_step (OpSetE2EPublicKey cid k) m = SetE2EPublicKey cid k m"
| "mgr_step (OpSetStatus cid st msg) m = SetStatus cid st msg m"

text \<open>
  How the server calls the two registering methods: a client is added once, under a fresh
  connection id, outside every channel and silent (\<^verbatim>\<open>internal/server/handlers.go\<close>); a channel is
  added under a fresh database id with no members (\<^verbatim>\<open>internal/channels/manager.go\<close>).  Every other
  method may be called with any arguments.
\<close>

fun mgr_op_ok :: "mgr_op \<Rightarrow> manager \<Rightarrow> bool" where
  "mgr_op_ok (OpAddClient c) m \<longleftrightarrow>
     fmlookup (clients m) (c_ClientID c) = None \<and> c_ChannelID c = 0 \<and> \<not> c_IsSpeaking c"
| "mgr_op_ok (OpAddChannel x) m \<longleftrightarrow>
     fmlookup (channels m) (ch_ChannelID x) = None \<and> ch_ChannelID x \<noteq> 0 \<and> ch_ClientCount x = 0"
| "mgr_op_ok _ m \<longleftrightarrow> True"

lemma presence_inv:
  assumes "mgr_inv m"
  shows "mgr_inv (SetSpeaking cid b now m)" "mgr_inv (SetPrioritySpeaker cid b m)"
    "mgr_inv (SetE2EPublicKey cid k m)" "mgr_inv (SetStatus cid st msg m)"
  using assms
  by (auto simp: SetSpeaking_def SetPrioritySpeaker_def SetE2EPublicKey_def SetStatus_def
      split: option.splits intro: set_speaking_inv set_client_inv)

lemmas op_invs = AddClient_inv RemoveClient_inv AddChannel_inv RemoveChannels_inv UpdateChannel_inv
  JoinChannel_inv LeaveChannel_inv MoveClient_inv Subscribe_inv Unsubscribe_inv presence_inv

interpretation mgr: invariant_system mgr_step mgr_op_ok mgr_inv state_New
proof
  show "mgr_inv state_New" by (rule state_New_inv)
  show "mgr_inv (mgr_step p m)" if "mgr_inv m" "mgr_op_ok p m" for p m
    using that by (cases p) (simp_all add: op_invs)
qed

subsection \<open>The abstract view\<close>

text \<open>
  What the manager promises its callers: who is registered, which channels exist, where each
  client stands and who subscribed to what.
\<close>

record abs_state =
  a_clients :: "client_id set"
  a_channels :: "channel_id set"
  a_where :: "client_id \<rightharpoonup> channel_id"
  a_subs :: "(client_id \<times> channel_id) set"

definition abs :: "manager \<Rightarrow> abs_state" where
  "abs m =
     \<lparr>a_clients = {cid. \<exists>c. fmlookup (clients m) cid = Some c},
      a_channels = {ch. \<exists>x. fmlookup (channels m) ch = Some x},
      a_where = (\<lambda>cid. case fmlookup (clients m) cid of
         Some c \<Rightarrow> if c_ChannelID c = 0 then None else Some (c_ChannelID c) | None \<Rightarrow> None),
      a_subs = {(cid, ch). ch |\<in>| fmset_get (subs m) cid}\<rparr>"

fun abs_step :: "mgr_op \<Rightarrow> abs_state \<Rightarrow> abs_state" where
  "abs_step (OpAddClient c) a = a\<lparr>a_clients := insert (c_ClientID c) (a_clients a)\<rparr>"
| "abs_step (OpRemoveClient cid) a =
     a\<lparr>a_clients := a_clients a - {cid}, a_where := (a_where a)(cid := None),
       a_subs := {p \<in> a_subs a. fst p \<noteq> cid}\<rparr>"
| "abs_step (OpAddChannel x) a = a\<lparr>a_channels := insert (ch_ChannelID x) (a_channels a)\<rparr>"
| "abs_step (OpRemoveChannels chs) a =
     a\<lparr>a_channels := a_channels a - set chs,
       a_where := (\<lambda>cid. case a_where a cid of
          Some ch \<Rightarrow> if ch \<in> set chs then None else Some ch | None \<Rightarrow> None),
       a_subs := {p \<in> a_subs a. snd p \<notin> set chs}\<rparr>"
| "abs_step (OpJoinChannel cid ch) a =
     (if cid \<in> a_clients a \<and> ch \<in> a_channels a then a\<lparr>a_where := (a_where a)(cid \<mapsto> ch)\<rparr> else a)"
| "abs_step (OpMoveClient cid ch) a =
     (if cid \<in> a_clients a \<and> ch \<in> a_channels a then a\<lparr>a_where := (a_where a)(cid \<mapsto> ch)\<rparr> else a)"
| "abs_step (OpLeaveChannel cid) a = a\<lparr>a_where := (a_where a)(cid := None)\<rparr>"
| "abs_step (OpSubscribe cid chs) a =
     (if cid \<in> a_clients a then a\<lparr>a_subs := a_subs a \<union> {cid} \<times> (set chs \<inter> a_channels a)\<rparr> else a)"
| "abs_step (OpUnsubscribe cid chs) a = a\<lparr>a_subs := a_subs a - {cid} \<times> set chs\<rparr>"
| "abs_step _ a = a"

lemma abs_eqI:
  fixes a b :: abs_state
  assumes "a_clients a = a_clients b" "a_channels a = a_channels b" "a_where a = a_where b" "a_subs a = a_subs b"
  shows "a = b"
  using assms by simp

lemma abs_fields:
  "a_clients (abs m) = {cid. \<exists>c. fmlookup (clients m) cid = Some c}"
  "a_channels (abs m) = {ch. \<exists>x. fmlookup (channels m) ch = Some x}"
  "a_where (abs m) = (\<lambda>cid. case fmlookup (clients m) cid of
     Some c \<Rightarrow> if c_ChannelID c = 0 then None else Some (c_ChannelID c) | None \<Rightarrow> None)"
  "a_subs (abs m) = {(cid, ch). ch |\<in>| fmset_get (subs m) cid}"
  by (simp_all add: abs_def)

lemma abs_leave_members:
  "a_clients (abs (leave_members cid ch m)) = a_clients (abs m)"
  "a_channels (abs (leave_members cid ch m)) = a_channels (abs m)"
  "a_where (abs (leave_members cid ch m)) = a_where (abs m)"
  "a_subs (abs (leave_members cid ch m)) = a_subs (abs m)"
  by (simp_all add: abs_fields leave_members_dom)

lemma abs_enter_channel:
  assumes "fmlookup (clients m) cid = Some c0" "ch \<noteq> 0"
  shows "abs (enter_channel cid c ch m) = (abs m)\<lparr>a_where := (a_where (abs m))(cid \<mapsto> ch)\<rparr>"
  using assms
  by (intro abs_eqI) (auto simp: abs_fields enter_channel_def inc_count_def fun_eq_iff split: option.splits)

lemma abs_departed:
  assumes "fmlookup (clients m) cid = Some c"
  shows "abs (departed cid c m) = (abs m)\<lparr>a_where := (a_where (abs m))(cid := None)\<rparr>"
  using assms abs_leave_members [of cid "c_ChannelID c" m]
  by (intro abs_eqI) (auto simp: abs_fields departed_def Let_def fun_eq_iff leave_members_dom)

subsubsection \<open>Every operation refines its abstract counterpart\<close>

lemma abs_RemoveClient: "abs (fst (RemoveClient cid m)) = abs_step (OpRemoveClient cid) (abs m)"
  if "mgr_inv m"
proof (cases "fmlookup (clients m) cid")
  case None
  have "b |\<notin>| fmset_get (subs m) cid" for b
    using mgr_invD(5) [OF that] None unfolding inv_subs_def by fastforce
  with None show ?thesis
    by (intro abs_eqI) (auto simp: RemoveClient_def abs_fields fun_eq_iff)
next
  case (Some c)
  then show ?thesis
    by (intro abs_eqI)
       (auto simp: RemoveClient_def abs_fields Let_def dropSubsLocked_def leave_members_dom fun_eq_iff
        split: if_splits)
qed

lemma abs_removeChannelLocked:
  assumes "mgr_inv m"
  shows "abs (removeChannelLocked ch m) = abs_step (OpRemoveChannels [ch]) (abs m)"
proof (rule abs_eqI)
  note f = removeChannelLocked_fields and p = mgr_invD [OF assms]
  show "a_where (abs (removeChannelLocked ch m)) = a_where (abs_step (OpRemoveChannels [ch]) (abs m))"
    using p(2) by (auto simp: abs_fields f inv_members_def fun_eq_iff split: option.splits)
  show "a_subs (abs (removeChannelLocked ch m)) = a_subs (abs_step (OpRemoveChannels [ch]) (abs m))"
    using p(5) by (auto simp: abs_fields f inv_subs_def fmset_get_del_keys split: if_splits)
qed (auto simp: abs_fields removeChannelLocked_fields)

lemma abs_step_RemoveChannels_Cons:
  "abs_step (OpRemoveChannels chs) (abs_step (OpRemoveChannels [ch]) a) = abs_step (OpRemoveChannels (ch # chs)) a"
  by (intro abs_eqI) (auto simp: fun_eq_iff split: option.splits)

lemma abs_removeChannels_loop:
  "mgr_inv m \<Longrightarrow> abs (fst (removeChannels_loop chs m a r)) = abs_step (OpRemoveChannels chs) (abs m)"
proof (induction chs arbitrary: m a r)
  case Nil
  show ?case by (intro abs_eqI) (auto simp: fun_eq_iff split: option.splits)
next
  case (Cons ch chs)
  from Cons.IH [OF removeChannelLocked_inv [OF Cons.prems]] show ?case
    by (simp only: removeChannels_loop.simps abs_removeChannelLocked [OF Cons.prems]
        abs_step_RemoveChannels_Cons)
qed

lemma abs_subscribe_one:
  "abs (subscribe_one cid ch m) =
     (abs m)\<lparr>a_subs := a_subs (abs m) \<union> {cid} \<times> ({ch} \<inter> a_channels (abs m))\<rparr>"
  by (intro abs_eqI) (auto simp: abs_fields subscribe_one_def split: option.splits if_splits)

lemma abs_subscribe_fold:
  "abs (fold (subscribe_one cid) chs m) =
     (abs m)\<lparr>a_subs := a_subs (abs m) \<union> {cid} \<times> (set chs \<inter> a_channels (abs m))\<rparr>"
proof (induction chs arbitrary: m)
  case Nil
  show ?case by simp
next
  case (Cons ch chs)
  show ?case by (rule abs_eqI) (auto simp: Cons.IH abs_subscribe_one)
qed

lemma abs_Unsubscribe: "abs (Unsubscribe cid chs m) = abs_step (OpUnsubscribe cid chs) (abs m)"
proof (cases "fmlookup (subs m) cid")
  case None
  then have "fmset_get (subs m) cid = {||}" by (simp add: fmset_get_def)
  with None show ?thesis by (intro abs_eqI) (auto simp: Unsubscribe_def abs_fields)
next
  case (Some s)
  then have "fmset_get (subs m) cid = s" by (simp add: fmset_get_def)
  with Some show ?thesis
    by (intro abs_eqI) (auto simp: Unsubscribe_def abs_fields Let_def fset_of_list_elem split: if_splits)
qed

lemma abs_set_client:
  assumes "fmlookup (clients m) cid = Some c" "c_ChannelID c' = c_ChannelID c"
  shows "abs (m\<lparr>clients := fmupd cid c' (clients m)\<rparr>) = abs m"
    and "abs (m\<lparr>clients := fmupd cid c' (clients m), speaking := s\<rparr>) = abs m"
  using assms by (auto intro!: abs_eqI simp: abs_fields fun_eq_iff split: if_splits)

lemma abs_LeaveChannel: "abs (fst (LeaveChannel cid m)) = abs_step (OpLeaveChannel cid) (abs m)"
proof (cases "\<exists>c. fmlookup (clients m) cid = Some c \<and> c_ChannelID c \<noteq> 0")
  case True
  then show ?thesis by (auto simp: LeaveChannel_departed abs_departed)
next
  case False
  then show ?thesis
    by (intro abs_eqI) (auto simp: LeaveChannel_def abs_fields fun_eq_iff split: option.splits)
qed

lemma abs_enter_or_stay:
  assumes "mgr_inv m" "fmlookup (clients m) cid = Some c" "fmlookup (channels m) ch = Some x"
    "c_ChannelID c = ch"
  shows "abs m = (abs m)\<lparr>a_where := (a_where (abs m))(cid \<mapsto> ch)\<rparr>"
  using assms mgr_invD(1) [OF assms(1)]
  by (intro abs_eqI) (auto simp: abs_fields fun_eq_iff inv_keys_def)

lemma abs_place:
  assumes "mgr_inv m" "fmlookup (clients m) cid = Some c" "fmlookup (channels m) ch = Some x"
  shows "abs (fst (JoinChannel cid ch m)) = (abs m)\<lparr>a_where := (a_where (abs m))(cid \<mapsto> ch)\<rparr>"
    and "abs (fst (MoveClient cid ch m)) = (abs m)\<lparr>a_where := (a_where (abs m))(cid \<mapsto> ch)\<rparr>"
proof -
  have ch: "ch \<noteq> 0" using mgr_invD(1) [OF assms(1)] assms(3) by (auto simp: inv_keys_def)
  have leave: "abs (leave_members cid i m) = abs m" for i
    by (rule abs_eqI) (simp_all add: abs_leave_members)
  have dep: "abs (enter_channel cid d ch (departed cid c m)) = (abs m)\<lparr>a_where := (a_where (abs m))(cid \<mapsto> ch)\<rparr>" for d
    using abs_departed [OF assms(2)] departed_client [of cid c m] ch by (auto simp: abs_enter_channel)
  show "abs (fst (JoinChannel cid ch m)) = (abs m)\<lparr>a_where := (a_where (abs m))(cid \<mapsto> ch)\<rparr>"
    using assms(2,3) abs_enter_or_stay [OF assms] leave ch
      abs_enter_channel [of "leave_members cid (c_ChannelID c) m" cid c]
    by (simp add: JoinChannel_def Let_def abs_enter_channel)
  show "abs (fst (MoveClient cid ch m)) = (abs m)\<lparr>a_where := (a_where (abs m))(cid \<mapsto> ch)\<rparr>"
  proof (cases "c_ChannelID c = ch \<or> c_ChannelID c = 0")
    case True
    with assms(2,3) ch abs_enter_or_stay [OF assms] show ?thesis
      by (auto simp: MoveClient_def abs_enter_channel)
  next
    case False
    with MoveClient_departed [OF assms(2,3)] dep show ?thesis by simp
  qed
qed

lemma abs_no_place:
  "fmlookup (clients m) cid = None \<or> fmlookup (channels m) ch = None \<Longrightarrow>
   fst (JoinChannel cid ch m) = m \<and> fst (MoveClient cid ch m) = m"
  by (auto simp: JoinChannel_def MoveClient_def split: option.splits)

lemma abs_placing_ops:
  assumes "mgr_inv m"
  shows "abs (fst (JoinChannel cid ch m)) = abs_step (OpJoinChannel cid ch) (abs m)"
    and "abs (fst (MoveClient cid ch m)) = abs_step (OpMoveClient cid ch) (abs m)"
  using abs_place [OF assms, of cid _ ch] abs_no_place [of m cid ch]
  by (cases "fmlookup (clients m) cid"; cases "fmlookup (channels m) ch"; simp add: abs_fields)+

lemma abs_adding_ops:
  "fmlookup (clients m) (c_ClientID c) = None \<Longrightarrow> c_ChannelID c = 0 \<Longrightarrow>
     abs (AddClient (Some c) m) = abs_step (OpAddClient c) (abs m)"
  "abs (AddChannel (Some x) m) = abs_step (OpAddChannel x) (abs m)"
  "abs (fst (UpdateChannel ch u m)) = abs m"
  by (auto intro!: abs_eqI simp: AddClient_def AddChannel_def UpdateChannel_def abs_fields fun_eq_iff
      split: option.splits if_splits)

lemma abs_presence_ops:
  "abs (SetSpeaking cid b now m) = abs m" "abs (SetPrioritySpeaker cid b m) = abs m"
  "abs (SetE2EPublicKey cid k m) = abs m" "abs (SetStatus cid st msg m) = abs m"
  by (auto simp: SetSpeaking_def SetPrioritySpeaker_def SetE2EPublicKey_def SetStatus_def abs_set_client split: option.splits)

lemma abs_RemoveChannels:
  "mgr_inv m \<Longrightarrow> abs (fst (RemoveChannels chs m)) = abs_step (OpRemoveChannels chs) (abs m)"
  using abs_removeChannels_loop [of m chs "{||}" "{||}"] by (simp add: RemoveChannels_def case_prod_beta)

lemma abs_Subscribe: "abs (Subscribe cid chs m) = abs_step (OpSubscribe cid chs) (abs m)"
  by (cases "fmlookup (clients m) cid") (simp_all add: Subscribe_def abs_subscribe_fold abs_fields)

lemmas abs_ops = abs_RemoveClient abs_RemoveChannels abs_placing_ops abs_LeaveChannel abs_Subscribe
  abs_Unsubscribe abs_adding_ops abs_presence_ops

lemma abs_mgr_step: "mgr_inv m \<Longrightarrow> mgr_op_ok p m \<Longrightarrow> abs (mgr_step p m) = abs_step p (abs m)"
  by (cases p) (simp_all add: abs_ops del: abs_step.simps, simp_all)

subsection \<open>The place recorded with a speaking state\<close>

text \<open>
  A speaking state records the channel in which the client started to speak.  It is meant to be
  the client's channel; a client that started outside every channel has the record 0.
\<close>

definition speaking_here :: "manager \<Rightarrow> bool" where
  "speaking_here m \<longleftrightarrow>
     (\<forall>cid ss c. fmlookup (speaking m) cid = Some ss \<longrightarrow> fmlookup (clients m) cid = Some c \<longrightarrow>
        ss_ChannelID ss = c_ChannelID c \<or> ss_ChannelID ss = 0)"

lemma speaking_hereD:
  "speaking_here m \<Longrightarrow> fmlookup (speaking m) cid = Some ss \<Longrightarrow> fmlookup (clients m) cid = Some c \<Longrightarrow>
   ss_ChannelID ss = c_ChannelID c \<or> ss_ChannelID ss = 0"
  by (simp add: speaking_here_def)

lemma speaking_here_place:
  "speaking_here m \<Longrightarrow> fmlookup (speaking m) cid = Some ss \<Longrightarrow> fmlookup (clients m) cid = Some c \<Longrightarrow>
   ss_ChannelID ss \<noteq> 0 \<Longrightarrow> ss_ChannelID ss = c_ChannelID c"
  by (auto simp: speaking_here_def)

lemma speaking_here_upd:
  assumes "speaking_here m"
    and "\<And>i. i \<noteq> cid \<Longrightarrow> fmlookup (speaking m') i = fmlookup (speaking m) i"
    and "\<And>i. i \<noteq> cid \<Longrightarrow> fmlookup (clients m') i = fmlookup (clients m) i"
    and "\<And>ss c. fmlookup (speaking m') cid = Some ss \<Longrightarrow> fmlookup (clients m') cid = Some c \<Longrightarrow>
      ss_ChannelID ss = c_ChannelID c \<or> ss_ChannelID ss = 0"
  shows "speaking_here m'"
  unfolding speaking_here_def
proof (intro allI impI)
  fix i ss c
  assume "fmlookup (speaking m') i = Some ss" "fmlookup (clients m') i = Some c"
  with assms show "ss_ChannelID ss = c_ChannelID c \<or> ss_ChannelID ss = 0"
    by (cases "i = cid") (auto dest: speaking_hereD)
qed

lemma speaking_here_cong:
  "clients m' = clients m \<Longrightarrow> speaking m' = speaking m \<Longrightarrow> speaking_here m' = speaking_here m"
  by (simp add: speaking_here_def)

lemma departed_others:
  "i \<noteq> cid \<Longrightarrow> fmlookup (speaking (departed cid c m)) i = fmlookup (speaking m) i"
  "i \<noteq> cid \<Longrightarrow> fmlookup (clients (departed cid c m)) i = fmlookup (clients m) i"
  "fmlookup (speaking (departed cid c m)) cid = None"
  by (auto simp: departed_def Let_def stop_speaking_def)

lemma enter_channel_others:
  "speaking (enter_channel cid c ch m) = speaking m"
  "fmlookup (clients (enter_channel cid c ch m)) i = (if i = cid then Some (c\<lparr>c_ChannelID := ch\<rparr>) else fmlookup (clients m) i)"
  by (auto simp: enter_channel_def)

lemma LeaveChannel_here: "speaking_here m \<Longrightarrow> speaking_here (fst (LeaveChannel cid m))"
proof (cases "\<exists>c. fmlookup (clients m) cid = Some c \<and> c_ChannelID c \<noteq> 0")
  case True
  assume "speaking_here m"
  with True show ?thesis
    by (auto simp: LeaveChannel_departed departed_others intro!: speaking_here_upd [of m cid])
next
  case False
  assume "speaking_here m"
  with False show ?thesis by (auto simp: LeaveChannel_def split: option.splits)
qed

lemma MoveClient_here:
  assumes here: "speaking_here m"
  shows "speaking_here (fst (MoveClient cid ch m))"
proof (cases "\<exists>c x. fmlookup (clients m) cid = Some c \<and> fmlookup (channels m) ch = Some x \<and> c_ChannelID c \<noteq> ch")
  case True
  then obtain c x where cx: "fmlookup (clients m) cid = Some c" "fmlookup (channels m) ch = Some x"
    and ne: "c_ChannelID c \<noteq> ch" by blast
  show ?thesis
  proof (cases "c_ChannelID c = 0")
    case True
    with cx ne speaking_hereD [OF here _ cx(1)] show ?thesis
      by (auto simp: MoveClient_def enter_channel_others intro!: speaking_here_upd [OF here, of cid])
  next
    case False
    show ?thesis unfolding MoveClient_departed [OF cx ne False] fst_conv
      by (rule speaking_here_upd [OF here, of cid]) (auto simp: enter_channel_others departed_others)
  qed
next
  case False
  with here show ?thesis by (auto simp: MoveClient_def split: option.splits)
qed

lemma removeChannelLocked_here:
  assumes "mgr_inv m" "speaking_here m"
  shows "speaking_here (removeChannelLocked ch m)"
  unfolding speaking_here_def
proof (intro allI impI)
  fix i ss c
  assume a: "fmlookup (speaking (removeChannelLocked ch m)) i = Some ss"
    "fmlookup (clients (removeChannelLocked ch m)) i = Some c"
  then obtain c0 where c0: "fmlookup (clients m) i = Some c0" "c = evict ch m i c0"
    by (auto simp: removeChannelLocked_fields)
  from a(1) have ss: "fmlookup (speaking m) i = Some ss" "ss_ChannelID ss \<noteq> ch"
    by (auto simp: removeChannelLocked_fields split: option.splits if_splits)
  from speaking_hereD [OF assms(2) ss(1) c0(1)] ss(2) c0 mgr_invD(2) [OF assms(1)]
  show "ss_ChannelID ss = c_ChannelID c \<or> ss_ChannelID ss = 0"
    by (auto simp: inv_members_def)
qed

lemma removeChannels_loop_here:
  "mgr_inv m \<Longrightarrow> speaking_here m \<Longrightarrow> speaking_here (fst (removeChannels_loop chs m a r))"
  by (induction chs arbitrary: m a r) (auto simp: removeChannelLocked_inv removeChannelLocked_here)

lemma RemoveChannels_here: "mgr_inv m \<Longrightarrow> speaking_here m \<Longrightarrow> speaking_here (fst (RemoveChannels chs m))"
  using removeChannels_loop_here [of m chs "{||}" "{||}"] by (simp add: RemoveChannels_def case_prod_beta)

lemma RemoveClient_here: "speaking_here m \<Longrightarrow> speaking_here (fst (RemoveClient cid m))"
  by (auto simp: RemoveClient_def Let_def dropSubsLocked_def split: option.splits
      intro!: speaking_here_upd [of m cid])

lemma AddClient_here:
  assumes "mgr_inv m" "fmlookup (clients m) (c_ClientID c) = None" "speaking_here m"
  shows "speaking_here (AddClient (Some c) m)"
proof (rule speaking_here_upd [OF assms(3), of "c_ClientID c"])
  have "fmlookup (speaking m) (c_ClientID c) = None"
    using mgr_invD(4) [OF assms(1)] assms(2) unfolding inv_speaking_def by (metis not_Some_eq)
  then show "ss_ChannelID ss = c_ChannelID c' \<or> ss_ChannelID ss = 0"
    if "fmlookup (speaking (AddClient (Some c) m)) (c_ClientID c) = Some ss" for ss c'
    using that by (simp add: AddClient_def)
qed (simp_all add: AddClient_def)

lemma channel_ops_here:
  "speaking_here (AddChannel x m) = speaking_here m"
  "speaking_here (fst (UpdateChannel ch u m)) = speaking_here m"
  "speaking_here (Subscribe cid chs m) = speaking_here m"
  "speaking_here (Unsubscribe cid chs m) = speaking_here m"
proof -
  have "clients (fold (subscribe_one cid) chs m) = clients m \<and> speaking (fold (subscribe_one cid) chs m) = speaking m" for m
    by (induction chs arbitrary: m) (auto simp: subscribe_one_def split: option.splits)
  then show "speaking_here (Subscribe cid chs m) = speaking_here m"
    by (auto simp: Subscribe_def split: option.splits intro!: speaking_here_cong)
qed (auto simp: AddChannel_def UpdateChannel_def Unsubscribe_def Let_def split: option.splits
      intro!: speaking_here_cong)

lemma presence_here:
  assumes "speaking_here m"
  shows "speaking_here (SetSpeaking cid b now m)" "speaking_here (SetPrioritySpeaker cid p m)"
    "speaking_here (SetE2EPublicKey cid k m)" "speaking_here (SetStatus cid st msg m)"
  by (auto simp: SetSpeaking_def SetPrioritySpeaker_def SetE2EPublicKey_def SetStatus_def assms split: option.splits
      intro!: speaking_here_upd [OF assms, of cid])
     (erule (2) speaking_here_place [OF assms])+

lemmas here_ops = AddClient_here RemoveClient_here RemoveChannels_here LeaveChannel_here MoveClient_here
  channel_ops_here presence_here

fun is_join :: "mgr_op \<Rightarrow> bool" where
  "is_join (OpJoinChannel _ _) \<longleftrightarrow> True"
| "is_join _ \<longleftrightarrow> False"

interpretation mgr_here: invariant_system mgr_step "\<lambda>p m. mgr_op_ok p m \<and> \<not> is_join p"
  "\<lambda>m. mgr_inv m \<and> speaking_here m" state_New
proof
  show "mgr_inv state_New \<and> speaking_here state_New"
    by (simp add: state_New_inv) (simp add: speaking_here_def state_New_def)
  show "mgr_inv (mgr_step p m) \<and> speaking_here (mgr_step p m)"
    if "mgr_inv m \<and> speaking_here m" "mgr_op_ok p m \<and> \<not> is_join p" for p m
  proof
    show "mgr_inv (mgr_step p m)" using that by (auto intro: mgr.step_inv)
    show "speaking_here (mgr_step p m)" using that by (cases p) (simp_all add: here_ops)
  qed
qed

subsection \<open>The walks and the ordered tree\<close>

text \<open>The two walks visit the same channels; the join power is the maximum along the chain.\<close>

definition needed_power :: "(channel_id, channel) fmap \<Rightarrow> channel_id \<Rightarrow> int" where
  "needed_power chs i = (case fmlookup chs i of Some x \<Rightarrow> ch_NeededJoinPower x | None \<Rightarrow> 0)"

lemma join_power_loop_chain:
  "join_power_loop n chs i needed = fold max (map (needed_power chs) (chain_loop n chs i)) needed"
  by (induction n arbitrary: i needed)
     (auto simp: needed_power_def max_def split: option.split)

lemma Max_fold_max: "Max (insert (a::int) (set xs)) = fold max xs a"
  by (induction xs arbitrary: a) (simp_all add: Max.set_eq_fold [symmetric] insert_commute max.commute
      flip: Max_insert, metis Max.set_eq_fold fold_simps(2) list.simps(15) max.commute)

lemma chain_loop_length: "length (chain_loop n chs i) \<le> n"
  by (induction n chs i rule: chain_loop.induct) (auto split: option.splits)

text \<open>Each element of the chain inherits from the next one, which exists.\<close>

definition inherits_from :: "(channel_id, channel) fmap \<Rightarrow> channel_id \<Rightarrow> channel_id \<Rightarrow> bool" where
  "inherits_from chs i j \<longleftrightarrow>
     (\<exists>x y. fmlookup chs i = Some x \<and> ch_InheritPermissions x \<and> ch_ParentID x = j \<and> j \<noteq> 0 \<and>
        fmlookup chs j = Some y)"

lemma chain_loop_inherits: "successively (inherits_from chs) (i # chain_loop n chs i)"
  by (induction n chs i rule: chain_loop.induct)
     (auto simp: inherits_from_def split: option.splits)

lemma chain_loop_maximal:
  "length (chain_loop n chs i) < n \<Longrightarrow> \<not> inherits_from chs (last (i # chain_loop n chs i)) j"
proof (induction n chs i rule: chain_loop.induct)
  case (1 chs i)
  then show ?case by simp
next
  case (2 n chs i)
  show ?case
  proof (cases "chain_loop (Suc n) chs i = []")
    case True
    then show ?thesis by (auto simp: inherits_from_def split: option.splits if_splits)
  next
    case False
    then obtain x where x: "fmlookup chs i = Some x" "ch_InheritPermissions x" "ch_ParentID x \<noteq> 0"
      "fmlookup chs (ch_ParentID x) \<noteq> None"
      by (auto split: option.splits if_splits)
    with 2 show ?thesis by auto
  qed
qed

lemma tree_key_inj: "tree_key x = tree_key y \<Longrightarrow> ch_ChannelID x = ch_ChannelID y"
  by (simp add: tree_key_def)

lemma ListChannels_ids_inj:
  assumes "mgr_inv m"
  shows "inj_on tree_key (fset (ListChannels m))"
proof (rule inj_onI)
  fix x y
  assume "x \<in> fset (ListChannels m)" "y \<in> fset (ListChannels m)" "tree_key x = tree_key y"
  then have "ch_ChannelID x = ch_ChannelID y"
    "\<exists>i. fmlookup (channels m) i = Some x" "\<exists>j. fmlookup (channels m) j = Some y"
    by (auto simp: ListChannels_def tree_key_def elim: fmranE)
  with mgr_invD(1) [OF assms] show "x = y" by (metis inv_keys_def option.inject)
qed

lemma sort_key_unique:
  assumes "inj_on f (set xs)" "mset xs = mset ys"
  shows "sort_key f xs = sort_key f ys"
  using assms by (intro sort_key_inj_key_eq) auto

subsection \<open>Correctness of the manager\<close>

text \<open>A small server used by the examples: two channels and one client.\<close>

definition ex_client :: client where
  "ex_client = \<lparr>c_ClientID = ''a'', c_UniqueID = ''u'', c_Nickname = ''n'', c_ChannelID = 0, c_IsSpeaking = False,
     c_PrioritySpeaker = False, c_Status = [], c_StatusMessage = [], c_E2EPublicKey = [], c_IsBot = False,
     c_ConnectedAt = 0, c_Conn = None, c_Metadata = fmempty\<rparr>"

definition ex_channel :: "channel_id \<Rightarrow> channel_id \<Rightarrow> int \<Rightarrow> channel" where
  "ex_channel i parent np = \<lparr>ch_ChannelID = i, ch_ParentID = parent, ch_Name = [], ch_Topic = [],
     ch_OrderIndex = 0, ch_ChannelType = 0, ch_MaxClients = 0, ch_ClientCount = 0, ch_CreatedAt = 0,
     ch_PasswordHash = [], ch_NeededJoinPower = np, ch_HasIcon = False, ch_HasPassword = False,
     ch_OpusBitrate = 0, ch_OpusFEC = False, ch_OpusDTX = False, ch_OpusStereo = False,
     ch_SlowModeSeconds = 0, ch_Description = [], ch_InheritPermissions = True\<rparr>"

definition ex_ops :: "mgr_op list" where
  "ex_ops = [OpAddChannel (ex_channel 1 0 5), OpAddChannel (ex_channel 2 1 3), OpAddClient ex_client,
     OpMoveClient ''a'' 1, OpSubscribe ''a'' [2], OpSetSpeaking ''a'' True 7]"

definition ex_mgr :: manager where
  "ex_mgr = run_ops mgr_step ex_ops state_New"

lemma ex_ops_ok: "ops_ok mgr_step mgr_op_ok ex_ops state_New"
  by (simp add: ex_ops_def ex_client_def ex_channel_def state_New_def AddChannel_def AddClient_def)

lemma ex_ops_here: "ops_ok mgr_step (\<lambda>p m. mgr_op_ok p m \<and> \<not> is_join p) ex_ops state_New"
  by (simp add: ex_ops_def ex_client_def ex_channel_def state_New_def AddChannel_def AddClient_def)

lemma ex_mgr_inv: "mgr_inv ex_mgr"
  unfolding ex_mgr_def by (rule mgr.run_start_inv [OF ex_ops_ok])

lemmas ex_defs = ex_mgr_def ex_ops_def ex_client_def ex_channel_def state_New_def AddChannel_def AddClient_def
  MoveClient_def enter_channel_def inc_count_def Subscribe_def subscribe_one_def SetSpeaking_def

text \<open>C11: every sequence of manager operations from the empty state keeps the manager consistent:
  membership sets agree with the clients' channel ids and name existing channels, the derived
  client counts are the member-set sizes, the speaking map lists the clients flagged as speaking,
  and the two subscription indices are mutually inverse with no dangling ids.\<close>

theorem mgr_runs_consistent:
  assumes "ops_ok mgr_step mgr_op_ok ps state_New"
  shows "mgr_inv (run_ops mgr_step ps state_New)"
  using assms by (rule mgr.run_start_inv)

theorem mgr_runs_consistent_witness:
  "ops_ok mgr_step mgr_op_ok ex_ops state_New \<and> mgr_inv (run_ops mgr_step ex_ops state_New)"
  using ex_ops_ok mgr_runs_consistent [OF ex_ops_ok] by blast

text \<open>C10: every manager operation implements its abstract specification, in which the state is only the
  set of clients, the set of channels, each client's place and the subscription relation.\<close>

theorem mgr_refines_abstract:
  assumes "mgr_inv m" "mgr_op_ok p m"
  shows "abs (mgr_step p m) = abs_step p (abs m)"
  using assms by (rule abs_mgr_step)

theorem mgr_refines_abstract_witness:
  "mgr_inv ex_mgr \<and> a_where (abs (mgr_step (OpRemoveChannels [1]) ex_mgr)) ''a'' = None \<and>
   a_where (abs ex_mgr) ''a'' = Some 1"
proof -
  have w: "a_where (abs ex_mgr) ''a'' = Some 1"
    by (simp add: ex_defs abs_fields)
  show ?thesis
    using mgr_refines_abstract [OF ex_mgr_inv, of "OpRemoveChannels [1]"] ex_mgr_inv w by simp
qed

text \<open>Moving a client that stands in some channel to a different existing channel is leaving and
  then joining, as one step: neither call reports an error and the resulting states are equal.\<close>

theorem MoveClient_is_leave_then_join:
  assumes "mgr_inv m" "fmlookup (clients m) cid = Some c" "fmlookup (channels m) ch = Some x"
    and "c_ChannelID c \<noteq> 0" "c_ChannelID c \<noteq> ch"
  shows "LeaveChannel cid m = (fst (LeaveChannel cid m), None) \<and>
    JoinChannel cid ch (fst (LeaveChannel cid m)) = MoveClient cid ch m \<and>
    snd (MoveClient cid ch m) = None"
proof -
  have "ch \<noteq> 0" using mgr_invD(1) [OF assms(1)] assms(3) by (auto simp: inv_keys_def)
  moreover obtain y where "fmlookup (channels (departed cid c m)) ch = Some y"
    using leave_members_dom assms(3) by (metis departed_channels)
  moreover obtain c1 where "fmlookup (clients (departed cid c m)) cid = Some c1" "c_ChannelID c1 = 0"
    using departed_client by blast
  ultimately show ?thesis
    using assms by (simp add: LeaveChannel_departed MoveClient_departed JoinChannel_def)
qed

theorem MoveClient_is_leave_then_join_witness:
  "snd (MoveClient ''a'' 2 ex_mgr) = None \<and>
   JoinChannel ''a'' 2 (fst (LeaveChannel ''a'' ex_mgr)) = MoveClient ''a'' 2 ex_mgr"
proof -
  have "\<exists>c x. fmlookup (clients ex_mgr) ''a'' = Some c \<and> fmlookup (channels ex_mgr) 2 = Some x \<and>
      c_ChannelID c \<noteq> 0 \<and> c_ChannelID c \<noteq> 2"
    by (simp add: ex_defs)
  then show ?thesis using MoveClient_is_leave_then_join [OF ex_mgr_inv, of "''a''" _ 2] by blast
qed

text \<open>In every run that does not call \<open>JoinChannel\<close> (the server moves clients with \<open>MoveClient\<close>
  only), a client that is speaking speaks in the channel it is in, or started to speak outside every
  channel.\<close>

theorem speaking_place_kept:
  assumes "ops_ok mgr_step (\<lambda>p m. mgr_op_ok p m \<and> \<not> is_join p) ps state_New"
    and "fmlookup (speaking (run_ops mgr_step ps state_New)) cid = Some ss"
  shows "\<exists>c. fmlookup (clients (run_ops mgr_step ps state_New)) cid = Some c \<and> c_IsSpeaking c \<and>
    (ss_ChannelID ss = c_ChannelID c \<or> ss_ChannelID ss = 0)"
proof -
  let ?m = "run_ops mgr_step ps state_New"
  have inv: "mgr_inv ?m" "speaking_here ?m" using mgr_here.run_start_inv [OF assms(1)] by auto
  from mgr_invD(4) [OF inv(1)] assms(2) obtain c where
    "fmlookup (clients ?m) cid = Some c" "c_IsSpeaking c" unfolding inv_speaking_def by blast
  with speaking_hereD [OF inv(2) assms(2)] show ?thesis by blast
qed

theorem speaking_place_kept_witness:
  "fmlookup (speaking ex_mgr) ''a'' = Some \<lparr>ss_ClientID = ''a'', ss_ChannelID = 1, ss_StartedAt = 7\<rparr> \<and>
   (\<exists>c. fmlookup (clients ex_mgr) ''a'' = Some c \<and> c_IsSpeaking c \<and> (1 = c_ChannelID c \<or> 1 = (0::int)))"
proof -
  have s: "fmlookup (speaking ex_mgr) ''a'' = Some \<lparr>ss_ClientID = ''a'', ss_ChannelID = 1, ss_StartedAt = 7\<rparr>"
    by (simp add: ex_defs)
  then show ?thesis using speaking_place_kept [OF ex_ops_here] unfolding ex_mgr_def by fastforce
qed

text \<open>\<open>JoinChannel\<close>, unlike \<open>MoveClient\<close>, leaves the speaking record of the old channel behind: the
  example client speaks in channel 1, joins channel 2 and is still recorded as speaking in channel
  1.  After that, removing channel 1 silences a client that is in channel 2.\<close>

theorem JoinChannel_leaves_speaking_record:
  "map_option ss_ChannelID (fmlookup (speaking (fst (JoinChannel ''a'' 2 ex_mgr))) ''a'') = Some 1 \<and>
   fmlookup (speaking (fst (MoveClient ''a'' 2 ex_mgr))) ''a'' = None \<and>
   map_option c_IsSpeaking (fmlookup (clients (RemoveChannel 1 (fst (JoinChannel ''a'' 2 ex_mgr)))) ''a'') = Some False"
  by (simp add: ex_defs JoinChannel_def leave_members_def dec_count_def stop_speaking_def RemoveChannel_def
      RemoveChannels_def removeChannelLocked_fields fmset_del_def fmset_add_def)

text \<open>C16: the permission chain of a channel starts at the channel and follows inheriting parent links
  through existing channels; it stops only where no channel is inherited from, or at the depth bound,
  so the walk ends on every channel table, parent cycles included.\<close>

theorem ChannelPermissionChain_correct:
  "(fmlookup (channels m) ch = None \<and> ChannelPermissionChain ch m = []) \<or>
   (hd (ChannelPermissionChain ch m) = ch \<and>
    successively (inherits_from (channels m)) (ChannelPermissionChain ch m) \<and>
    length (ChannelPermissionChain ch m) \<le> Suc maxChannelDepth \<and>
    (length (ChannelPermissionChain ch m) = Suc maxChannelDepth \<or>
     (\<exists>i. last (ChannelPermissionChain ch m) = i \<and> Collect (inherits_from (channels m) i) = {})))"
  using chain_loop_inherits [of "channels m" ch maxChannelDepth]
    chain_loop_length [of maxChannelDepth "channels m" ch]
    chain_loop_maximal [of maxChannelDepth "channels m" ch]
  by (cases "length (chain_loop maxChannelDepth (channels m) ch) = maxChannelDepth")
     (auto simp: ChannelPermissionChain_def)

text \<open>The join power a client needs is the largest needed join power along the permission chain, and
  0 for an unknown channel.\<close>

theorem EffectiveJoinPower_is_max:
  "EffectiveJoinPower ch m =
     (if ChannelPermissionChain ch m = [] then 0
      else Max (needed_power (channels m) ` set (ChannelPermissionChain ch m)))"
proof (cases "fmlookup (channels m) ch")
  case None
  then show ?thesis by (simp add: EffectiveJoinPower_def ChannelPermissionChain_def)
next
  case (Some x)
  have "needed_power (channels m) ` set (ChannelPermissionChain ch m) =
      insert (ch_NeededJoinPower x) (set (map (needed_power (channels m)) (chain_loop maxChannelDepth (channels m) ch)))"
    using Some by (simp add: ChannelPermissionChain_def needed_power_def)
  with Some show ?thesis
    by (simp only: Max_fold_max EffectiveJoinPower_def join_power_loop_chain option.case)
       (simp add: ChannelPermissionChain_def)
qed

text \<open>The ordered channel tree does not depend on the order in which the map is iterated.\<close>

theorem ChannelTreeOrdered_deterministic:
  assumes "mgr_inv m" "distinct xs" "set xs = fset (ListChannels m)" "distinct ys" "set ys = fset (ListChannels m)"
  shows "ChannelTreeOrdered xs = ChannelTreeOrdered ys \<and> set (ChannelTreeOrdered xs) = fset (ListChannels m) \<and>
    sorted (map tree_key (ChannelTreeOrdered xs))"
proof -
  have "mset xs = mset ys" using assms(2-) by (metis set_eq_iff_mset_eq_distinct)
  with sort_key_unique [of tree_key xs ys] ListChannels_ids_inj [OF assms(1)] assms(3,5) show ?thesis
    by (simp add: ChannelTreeOrdered_def)
qed

theorem ChannelTreeOrdered_deterministic_witness:
  "ChannelTreeOrdered [ex_channel 1 0 5, ex_channel 2 1 3] = ChannelTreeOrdered [ex_channel 2 1 3, ex_channel 1 0 5] \<and>
   sorted (map tree_key (ChannelTreeOrdered [ex_channel 1 0 5, ex_channel 2 1 3]))"
proof -
  define ps where "ps = [OpAddChannel (ex_channel 1 0 5), OpAddChannel (ex_channel 2 1 3)]"
  have inv: "mgr_inv (run_ops mgr_step ps state_New)"
    by (rule mgr.run_start_inv) (simp add: ps_def ex_channel_def state_New_def AddChannel_def)
  have ne: "ex_channel 1 0 5 \<noteq> ex_channel 2 1 3" by (simp add: ex_channel_def)
  have lk: "fmlookup (channels (run_ops mgr_step ps state_New)) i =
      (if i = 2 then Some (ex_channel 2 1 3) else if i = 1 then Some (ex_channel 1 0 5) else None)" for i
    by (simp add: ps_def state_New_def AddChannel_def ex_channel_def)
  have "fset (ListChannels (run_ops mgr_step ps state_New)) = {ex_channel 1 0 5, ex_channel 2 1 3}"
    by (auto simp: ListChannels_def lk intro: fmranI [of _ 1] fmranI [of _ 2] split: if_splits elim!: fmranE)
  with ne show ?thesis
    using ChannelTreeOrdered_deterministic [OF inv, of "[ex_channel 1 0 5, ex_channel 2 1 3]" "[ex_channel 2 1 3, ex_channel 1 0 5]"]
    by auto
qed

lemma removeChannels_loop_collects:
  "fset (fst (snd (removeChannels_loop chs m a r))) =
     fset a \<union> {cid. \<exists>ch. ch \<in> set chs \<and> cid |\<in>| fmset_get (subsByChannel m) ch}"
  "fset (snd (snd (removeChannels_loop chs m a r))) =
     fset r \<union> {(ch, cid). ch \<in> set chs \<and> cid |\<in>| fmset_get (membership m) ch}"
  by (induction chs arbitrary: m a r) (auto simp: removeChannelLocked_fields split: if_splits, metis)

text \<open>The result of removing channels lists exactly the members that were displaced, each once, ordered
  by channel and then by client, and exactly the clients that had subscribed to one of them, ascending.\<close>

theorem RemoveChannels_reports_displaced:
  "map (\<lambda>r. (rm_ChannelID r, rm_ClientID r)) (rr_Members (snd (RemoveChannels chs m))) =
     sorted_list_of_set {(ch, cid). ch \<in> set chs \<and> cid |\<in>| fmset_get (membership m) ch} \<and>
   rr_SubscriberIDs (snd (RemoveChannels chs m)) =
     sorted_list_of_set {cid. \<exists>ch. ch \<in> set chs \<and> cid |\<in>| fmset_get (subsByChannel m) ch}"
  using removeChannels_loop_collects [of chs m "{||}" "{||}"]
  by (simp add: RemoveChannels_def case_prod_beta sorted_list_of_fset.rep_eq comp_def)

end
