(* ===== verification/Channel_Tree.thy ===== *)
theory Channel_Tree
  imports Noxa_Prelude
begin

text \<open>
  The tree algorithms of the channel manager (\<^verbatim>\<open>internal/channels/manager.go\<close>): the breadth-first
  search that finds a channel's subtree, the cycle guard of a re-parent, the merge of id lists and
  the order in which channel locks are taken.

  A tree is seen through its edges.  \<open>bfs\<close> works on the list of (channel, parent) pairs in the
  order in which the channels are listed; \<open>validate_walk\<close> on the parent column of the table.
\<close>

type_synonym edges = "(channel_id \<times> channel_id) list"

subsection \<open>Subtree discovery\<close>

text \<open>\<open>children[id]\<close>: the ids appended for that parent, in listing order.\<close>

definition kids :: "edges \<Rightarrow> channel_id \<Rightarrow> channel_id list" where
  "kids es p = map fst (filter (\<lambda>e. snd e = p) es)"

function bfs :: "edges \<Rightarrow> channel_id list \<Rightarrow> channel_id list \<Rightarrow> channel_id list \<Rightarrow> channel_id list" where
  "bfs es [] seen ids = ids"
| "bfs es (i # queue) seen ids =
     (if i \<in> set seen then bfs es queue seen ids
      else bfs es (queue @ kids es i) (i # seen) (if i \<in> fst ` set es then ids @ [i] else ids))"
  by pat_completeness auto

lemma set_kids [simp]: "set (kids es p) = {c. (c, p) \<in> set es}"
  by (force simp: kids_def)

text \<open>Each round either shortens the queue or marks one more of the finitely many ids in play.\<close>

definition unseen :: "edges \<times> channel_id list \<times> channel_id list \<times> channel_id list \<Rightarrow> nat" where
  "unseen = (\<lambda>(es, queue, seen, ids). card ((set queue \<union> fst ` set es) - set seen))"

termination bfs
proof (relation "measures [unseen, \<lambda>(es, queue, seen, ids). length queue]", goal_cases)
  case 1
  show ?case by simp
next
  case (2 es i queue seen ids)
  have "unseen (es, queue, seen, ids) \<le> unseen (es, i # queue, seen, ids)"
    unfolding unseen_def prod.case by (intro card_mono) auto
  then show ?case by auto
next
  case (3 es i queue seen ids)
  have "set (queue @ kids es i) \<union> fst ` set es - set (i # seen) \<subset> set (i # queue) \<union> fst ` set es - set seen"
    using 3 by (force simp: image_iff)
  then have "unseen (es, queue @ kids es i, i # seen, ids') < unseen (es, i # queue, seen, ids)" for ids'
    unfolding unseen_def prod.case by (intro psubset_card_mono) auto
  then show ?case by simp
qed

definition child_rel :: "edges \<Rightarrow> (channel_id \<times> channel_id) set" where
  "child_rel es = {(p, c). (c, p) \<in> set es}"

lemma closed_Image_rtrancl: "R `` A \<subseteq> A \<Longrightarrow> R\<^sup>* `` A = A"
  by (rule Image_closed_trancl)

lemma bfs_set:
  assumes "set ids = set seen \<inter> fst ` set es" "child_rel es `` set seen \<subseteq> set seen \<union> set queue"
  shows "set (bfs es queue seen ids) = fst ` set es \<inter> (child_rel es)\<^sup>* `` (set seen \<union> set queue)"
  using assms
proof (induction es queue seen ids rule: bfs.induct)
  case (1 es seen ids)
  then show ?case using closed_Image_rtrancl [of "child_rel es" "set seen"] by auto
next
  case (2 es i queue seen ids)
  show ?case
  proof (cases "i \<in> set seen")
    case True
    with 2 show ?thesis by (simp add: insert_absorb)
  next
    case False
    let ?R = "child_rel es" and ?K = "{c. (c, i) \<in> set es}"
    have K: "?R `` {i} = ?K" by (auto simp: child_rel_def)
    define ids' where "ids' = (if i \<in> fst ` set es then ids @ [i] else ids)"
    have "set ids' = set (i # seen) \<inter> fst ` set es" using 2(3) by (auto simp: ids'_def)
    moreover have "?R `` set (i # seen) \<subseteq> set (i # seen) \<union> set (queue @ kids es i)"
      using 2(4) by (auto simp: child_rel_def)
    ultimately have IH: "set (bfs es (i # queue) seen ids) =
        fst ` set es \<inter> ?R\<^sup>* `` (set (i # seen) \<union> set (queue @ kids es i))"
      using False 2(2) [OF False] by (simp only: bfs.simps if_False ids'_def)
    have "?R\<^sup>* `` (A \<union> ?R `` {i}) = ?R\<^sup>* `` A" if "i \<in> A" for A
      using that by (auto intro: converse_rtrancl_into_rtrancl)
    from this [of "insert i (set seen \<union> set queue)"] IH show ?thesis
      by (simp add: K Un_ac del: bfs.simps)
  qed
qed

lemma bfs_distinct:
  "distinct ids \<Longrightarrow> set ids \<subseteq> set seen \<Longrightarrow> distinct (bfs es queue seen ids)"
proof (induction es queue seen ids rule: bfs.induct)
  case (1 es seen ids)
  then show ?case by simp
next
  case (2 es i queue seen ids)
  show ?case
  proof (cases "i \<in> set seen")
    case True
    with 2 show ?thesis by simp
  next
    case False
    define ids' where "ids' = (if i \<in> fst ` set es then ids @ [i] else ids)"
    have "distinct ids'" "set ids' \<subseteq> set (i # seen)" using 2(3,4) False by (auto simp: ids'_def)
    with False 2(2) [OF False] show ?thesis by (simp only: bfs.simps if_False ids'_def)
  qed
qed

definition subtreeIDs :: "edges \<Rightarrow> channel_id \<Rightarrow> channel_id list" where
  "subtreeIDs es ch = bfs es [ch] [] []"

lemma set_subtreeIDs: "set (subtreeIDs es ch) = fst ` set es \<inter> (child_rel es)\<^sup>* `` {ch}"
  unfolding subtreeIDs_def by (subst bfs_set) auto

lemma distinct_subtreeIDs: "distinct (subtreeIDs es ch)"
  unfolding subtreeIDs_def by (rule bfs_distinct) auto

text \<open>A present channel is the whole of its subtree exactly when nothing else names it as parent.\<close>

lemma subtreeIDs_single:
  assumes "ch \<in> fst ` set es"
  shows "length (subtreeIDs es ch) = 1 \<longleftrightarrow> (\<forall>c. (c, ch) \<in> set es \<longrightarrow> c = ch)"
proof
  assume one: "length (subtreeIDs es ch) = 1"
  have "card (set (subtreeIDs es ch)) = 1" using distinct_card [OF distinct_subtreeIDs] one by metis
  moreover have "ch \<in> set (subtreeIDs es ch)" using assms by (simp add: set_subtreeIDs)
  ultimately have single: "set (subtreeIDs es ch) = {ch}" by (metis card_1_singletonE singletonD)
  show "\<forall>c. (c, ch) \<in> set es \<longrightarrow> c = ch"
  proof (intro allI impI)
    fix c assume "(c, ch) \<in> set es"
    then have "c \<in> set (subtreeIDs es ch)"
      by (force simp: set_subtreeIDs child_rel_def)
    with single show "c = ch" by simp
  qed
next
  assume leaf: "\<forall>c. (c, ch) \<in> set es \<longrightarrow> c = ch"
  have "(child_rel es)\<^sup>* `` {ch} = {ch}"
    by (rule closed_Image_rtrancl) (use leaf in \<open>auto simp: child_rel_def\<close>)
  with assms have "set (subtreeIDs es ch) = {ch}" by (auto simp: set_subtreeIDs)
  then show "length (subtreeIDs es ch) = 1"
    using distinct_card [OF distinct_subtreeIDs, of es ch] by simp
qed

subsection \<open>Id lists and lock order\<close>

definition mergeChannelIDs :: "channel_id list list \<Rightarrow> channel_id list" where
  "mergeChannelIDs groups = sorted_list_of_set (set (filter (\<lambda>i. i > 0) (concat groups)))"

text \<open>The ids \<open>lockChannels\<close> locks, in the order in which it takes the locks; released in reverse.\<close>

fun lock_ids :: "channel_id list \<Rightarrow> channel_id list \<Rightarrow> channel_id list" where
  "lock_ids seen [] = []"
| "lock_ids seen (i # is) =
     (if i \<le> 0 then lock_ids seen is
      else if i \<in> set seen then lock_ids seen is
      else i # lock_ids (i # seen) is)"

definition lockChannels :: "channel_id list \<Rightarrow> channel_id list" where
  "lockChannels is = sort (lock_ids [] is)"

lemma lock_ids_set: "set (lock_ids seen is) = {i \<in> set is. 0 < i} - set seen"
  by (induction "is" arbitrary: seen) auto

lemma lock_ids_distinct:
  "distinct (lock_ids seen is)"
  by (induction "is" arbitrary: seen) (simp_all add: lock_ids_set)

lemma set_mergeChannelIDs: "set (mergeChannelIDs groups) = {i \<in> set (concat groups). 0 < i}"
  by (auto simp: mergeChannelIDs_def)

subsection \<open>The cycle guard\<close>

definition cm_maxChannelDepth :: nat where "cm_maxChannelDepth = 64"

datatype move_verdict =
    MoveOk
  | MoveNotFound
  | MoveAncestor
  | MoveNoParent
  | MoveTooDeep
  | MoveDBError

text \<open>
  The ancestor walk.  \<open>parents\<close> is the parent column of the table (None: no such row; Some None:
  NULL), \<open>fails d\<close> tells whether the query at depth \<open>d\<close> fails, \<open>n\<close> counts the levels left before
  the depth bound.
\<close>

fun validate_walk ::
  "(channel_id \<Rightarrow> channel_id option option) \<Rightarrow> (nat \<Rightarrow> bool) \<Rightarrow> channel_id \<Rightarrow> nat \<Rightarrow> channel_id \<Rightarrow> move_verdict" where
  "validate_walk parents fails ch 0 current =
     (if current = ch then MoveAncestor
      else if fails cm_maxChannelDepth then MoveDBError
      else if parents current = None then MoveDBError
      else MoveTooDeep)"
| "validate_walk parents fails ch (Suc n) current =
     (if current = ch then MoveAncestor
      else if fails (cm_maxChannelDepth - Suc n) then MoveDBError
      else
        (case parents current of
           None \<Rightarrow> if cm_maxChannelDepth - Suc n = 0 then MoveNoParent else MoveDBError
         | Some None \<Rightarrow> MoveOk
         | Some (Some p) \<Rightarrow> if p = 0 then MoveOk else validate_walk parents fails ch n p))"

definition validateMoveTx ::
  "(channel_id \<Rightarrow> channel_id option option) \<Rightarrow> bool \<Rightarrow> (nat \<Rightarrow> bool) \<Rightarrow> channel_id \<Rightarrow> channel_id \<Rightarrow> move_verdict" where
  "validateMoveTx parents lock_fails fails ch newParent =
     (if lock_fails then MoveDBError
      else if parents ch = None then MoveNotFound
      else if newParent = 0 then MoveOk
      else validate_walk parents fails ch cm_maxChannelDepth newParent)"

text \<open>The parent relation of a table: from a channel to its parent.\<close>

definition parent_rel :: "(channel_id \<Rightarrow> channel_id option option) \<Rightarrow> (channel_id \<times> channel_id) set" where
  "parent_rel parents = {(c, p). parents c = Some (Some p) \<and> p \<noteq> 0}"

lemma validate_walk_ok:
  "validate_walk parents fails ch n current = MoveOk \<Longrightarrow> (current, ch) \<notin> (parent_rel parents)\<^sup>*"
proof (induction parents fails ch n current rule: validate_walk.induct)
  case (1 parents fails ch current)
  then show ?case by (auto split: if_splits)
next
  case (2 parents fails ch n current)
  have ne: "current \<noteq> ch" using 2(2) by auto
  show ?case
  proof
    assume "(current, ch) \<in> (parent_rel parents)\<^sup>*"
    then obtain p where p: "(current, p) \<in> parent_rel parents" "(p, ch) \<in> (parent_rel parents)\<^sup>*"
      using ne by (blast elim: converse_rtranclE)
    then have "parents current = Some (Some p)" "p \<noteq> 0" by (auto simp: parent_rel_def)
    with 2 ne p(2) show False by (simp split: if_splits)
  qed
qed

lemma validate_walk_exists:
  "validate_walk parents fails ch n current = MoveOk \<Longrightarrow> parents current \<noteq> None"
  by (cases n) (auto split: if_splits option.splits)

lemma validate_walk_ancestor:
  "validate_walk parents fails ch n current = MoveAncestor \<Longrightarrow> (current, ch) \<in> (parent_rel parents)\<^sup>*"
proof (induction parents fails ch n current rule: validate_walk.induct)
  case (1 parents fails ch current)
  then show ?case by (auto split: if_splits)
next
  case (2 parents fails ch n current)
  then show ?case
    by (auto simp: parent_rel_def split: if_splits option.splits intro: converse_rtrancl_into_rtrancl)
qed

lemma acyclic_reparent:
  assumes "acyclic (parent_rel parents)" "(p, ch) \<notin> (parent_rel parents)\<^sup>*"
  shows "acyclic (parent_rel (parents(ch := Some (Some p))))"
proof -
  have "parent_rel (parents(ch := Some (Some p))) \<subseteq> insert (ch, p) (parent_rel parents)"
    by (auto simp: parent_rel_def split: if_splits)
  moreover have "acyclic (insert (ch, p) (parent_rel parents))"
    using assms by (simp add: acyclic_insert)
  ultimately show ?thesis by (rule acyclic_subset [rotated])
qed

lemma acyclic_unparent:
  assumes "acyclic (parent_rel parents)"
  shows "acyclic (parent_rel (parents(ch := Some None)))"
  using assms by (rule acyclic_subset) (auto simp: parent_rel_def split: if_splits)

lemma validateMoveTx_sound:
  assumes "acyclic (parent_rel parents)" "validateMoveTx parents lf fails ch p = MoveOk"
  shows "acyclic (parent_rel (parents(ch := Some (if p = 0 then None else Some p)))) \<and>
    (p = 0 \<or> (\<exists>q. parents p = Some q)) \<and> (\<exists>q. parents ch = Some q)"
proof (cases "p = 0")
  case True
  with assms acyclic_unparent show ?thesis
    by (auto simp: validateMoveTx_def split: if_splits)
next
  case False
  with assms(2) have "validate_walk parents fails ch cm_maxChannelDepth p = MoveOk" "parents ch \<noteq> None"
    by (auto simp: validateMoveTx_def split: if_splits)
  with False acyclic_reparent [OF assms(1) validate_walk_ok] validate_walk_exists show ?thesis
    by auto
qed

text \<open>C20: a re-parent that the cycle guard admits keeps the channel tree free of cycles, whatever the
  outcome of the individual queries; the new parent exists or is the root.\<close>

theorem validateMoveTx_keeps_tree:
  assumes "acyclic (parent_rel parents)" "validateMoveTx parents lf fails ch p = MoveOk"
  shows "acyclic (parent_rel (parents(ch := Some (if p = 0 then None else Some p)))) \<and>
    (p = 0 \<or> (\<exists>q. parents p = Some q)) \<and> (\<exists>q. parents ch = Some q)"
  using assms by (rule validateMoveTx_sound)

definition ex_parents :: "channel_id \<Rightarrow> channel_id option option" where
  "ex_parents = (\<lambda>_. None)(1 := Some None, 2 := Some (Some 1), 3 := Some (Some 2), 4 := Some None)"

lemma ex_parents_acyclic: "acyclic (parent_rel ex_parents)"
proof (rule acyclic_subset)
  show "parent_rel ex_parents \<subseteq> {(x, y). y < x}"
    by (auto simp: parent_rel_def ex_parents_def split: if_splits)
  show "acyclic {(x, y :: int). y < x}"
    by (rule acyclicI_order [of _ "\<lambda>x. x"]) auto
qed

lemma depth_unrolled: "cm_maxChannelDepth = Suc (Suc (Suc (Suc 60)))"
  by (simp add: cm_maxChannelDepth_def)

theorem validateMoveTx_keeps_tree_witness:
  "acyclic (parent_rel (ex_parents(4 := Some (Some 3)))) \<and>
   validateMoveTx ex_parents False (\<lambda>_. False) 4 3 = MoveOk"
proof -
  have "validateMoveTx ex_parents False (\<lambda>_. False) 4 3 = MoveOk"
    unfolding validateMoveTx_def by (subst depth_unrolled, simp only: validate_walk.simps) (simp add: ex_parents_def)
  then show ?thesis
    using validateMoveTx_keeps_tree [OF ex_parents_acyclic] by fastforce
qed

text \<open>The guard blames an ancestor only when the moved channel really is the new parent or an ancestor
  of it, and conversely never admits such a move.\<close>

theorem validateMoveTx_ancestor_exact:
  assumes "p \<noteq> 0"
  shows "(validateMoveTx parents lf fails ch p = MoveAncestor \<longrightarrow> (p, ch) \<in> (parent_rel parents)\<^sup>*) \<and>
    ((p, ch) \<in> (parent_rel parents)\<^sup>* \<longrightarrow> validateMoveTx parents lf fails ch p \<noteq> MoveOk)"
  using assms by (auto simp: validateMoveTx_def split: if_splits dest: validate_walk_ok validate_walk_ancestor)

theorem validateMoveTx_ancestor_exact_witness:
  "validateMoveTx ex_parents False (\<lambda>_. False) 1 3 = MoveAncestor \<and> (3, 1) \<in> (parent_rel ex_parents)\<^sup>*"
proof -
  have "validateMoveTx ex_parents False (\<lambda>_. False) 1 3 = MoveAncestor"
    unfolding validateMoveTx_def by (subst depth_unrolled, simp only: validate_walk.simps) (simp add: ex_parents_def)
  then show ?thesis using validateMoveTx_ancestor_exact [of 3 ex_parents False "\<lambda>_. False" 1] by simp
qed

text \<open>Subtree discovery terminates on every listing, cyclic ones included, and returns each present
  channel reachable over child links exactly once.\<close>

theorem subtreeIDs_correct:
  "distinct (subtreeIDs es ch) \<and> set (subtreeIDs es ch) = fst ` set es \<inter> (child_rel es)\<^sup>* `` {ch}"
  using distinct_subtreeIDs set_subtreeIDs by blast

subsection \<open>Deadlock freedom of the lock order\<close>

text \<open>
  Any number of operations run at once; operation \<open>t\<close> needs the locks \<open>lockChannels (need t)\<close> and
  has taken the first \<open>got t\<close> of them.  It waits when some lock is still missing.
\<close>

definition waits_for :: "('t \<Rightarrow> channel_id list) \<Rightarrow> ('t \<Rightarrow> nat) \<Rightarrow> ('t \<times> 't) set" where
  "waits_for need got =
     {(t, t'). got t < length (lockChannels (need t)) \<and>
        lockChannels (need t) ! got t \<in> set (take (got t') (lockChannels (need t')))}"

lemma lockChannels_strict: "sorted_wrt (<) (lockChannels is)"
  by (simp add: lockChannels_def strict_sorted_iff lock_ids_distinct)

lemma waits_for_ascends:
  assumes "(t, t') \<in> waits_for need got" "got t' < length (lockChannels (need t'))"
  shows "lockChannels (need t) ! got t < lockChannels (need t') ! got t'"
proof -
  let ?l = "lockChannels (need t')"
  from assms(1) obtain j where j: "j < got t'" "?l ! j = lockChannels (need t) ! got t"
    by (auto simp: waits_for_def in_set_conv_nth)
  with sorted_wrt_nth_less [OF lockChannels_strict j(1) assms(2)] show ?thesis by simp
qed

lemma waits_for_trancl_ascends:
  "(t, t') \<in> (waits_for need got)\<^sup>+ \<Longrightarrow> got t' < length (lockChannels (need t')) \<Longrightarrow>
   lockChannels (need t) ! got t < lockChannels (need t') ! got t'"
proof (induction rule: trancl_induct)
  case (base y)
  then show ?case by (rule waits_for_ascends)
next
  case (step y z)
  then have "got y < length (lockChannels (need y))" by (auto simp: waits_for_def)
  with step.IH waits_for_ascends [OF step.hyps(2) step.prems] show ?case by simp
qed

text \<open>Lifecycle operations that take several channel locks cannot deadlock among each other: in no
  interleaving do they wait for each other in a circle.\<close>

theorem lockChannels_no_deadlock: "acyclic (waits_for need got)"
proof (rule acyclicI, intro allI notI)
  fix t assume cyc: "(t, t) \<in> (waits_for need got)\<^sup>+"
  then have "got t < length (lockChannels (need t))"
    by (auto simp: waits_for_def elim: tranclE dest: tranclD)
  with waits_for_trancl_ascends [OF cyc] show False by simp
qed

end
