(* ===== verification/Channel_Manager.thy ===== *)
theory Channel_Manager
  imports State_Manager Channel_Tree Safecast
begin

text \<open>
  The channel manager (\<^verbatim>\<open>internal/channels/types.go\<close>, \<^verbatim>\<open>internal/channels/manager.go\<close>): channel
  lifecycle across the database table, the in-memory state and the cleanup timers of temporary
  channels.

  \<^item> The channels table is a finite map from ids to rows; the SQL statements of the source are
    functions on it.  A statement may fail, and a failed \<open>DELETE\<close> or \<open>COMMIT\<close> may or may not have
    been applied (\<open>exec_outcome\<close>).  Which calls fail is an argument of every operation
    (\<open>db_faults\<close>), so the theorems hold for every pattern of failures they do not exclude.
  \<^item> A pending timer is the generation of its token.  \<open>cleanupCallback\<close> may be delivered for any
    token, at any later time, also after it was stopped or replaced.
  \<^item> An operation holds the tree lock and its channel locks for its whole body and is one step here;
    \<open>Channel_Tree\<close> shows that the lock order is free of deadlocks.
  \<^item> Logging, test hooks and the release of an already failed transaction have no counterpart.
\<close>

subsection \<open>Types\<close>

definition ChannelTypeTemporary :: int where "ChannelTypeTemporary = 0"

definition ChannelTypeSemiPermanent :: int where "ChannelTypeSemiPermanent = 1"

definition ChannelTypePermanent :: int where "ChannelTypePermanent = 2"

definition ChannelType_String :: "int \<Rightarrow> string" where
  "ChannelType_String t =
     (if t = ChannelTypeTemporary then ''temporary''
      else if t = ChannelTypeSemiPermanent then ''semi-permanent''
      else if t = ChannelTypePermanent then ''permanent''
      else ''unknown'')"

definition ChannelType_Valid :: "int \<Rightarrow> bool" where
  "ChannelType_Valid t \<longleftrightarrow>
     t = ChannelTypeTemporary \<or> t = ChannelTypeSemiPermanent \<or> t = ChannelTypePermanent"

datatype cm_error =
    CErrChannelNotFound
  | CErrInvalidSpec
  | CErrInvalidMove
  | CErrDatabase
  | CErrStoredType
  | CErrCommit
  | CErrState state_error

definition ParseChannelType :: "int \<Rightarrow> cm_error + int" where
  "ParseChannelType v =
     (if v = ChannelTypeTemporary then Inr ChannelTypeTemporary
      else if v = ChannelTypeSemiPermanent then Inr ChannelTypeSemiPermanent
      else if v = ChannelTypePermanent then Inr ChannelTypePermanent
      else Inl CErrStoredType)"

record channel_spec =
  cs_Name :: string
  cs_Topic :: string
  cs_ParentID :: channel_id
  cs_OrderIndex :: int
  cs_Type :: int
  cs_MaxClients :: int
  cs_Password :: string
  cs_NeededJoinPower :: int
  cs_CreatedBy :: user_id
  cs_OpusBitrate :: int
  cs_OpusFEC :: bool
  cs_OpusDTX :: bool
  cs_OpusStereo :: bool

definition fits_int32 :: "int \<Rightarrow> bool" where
  "fits_int32 n \<longleftrightarrow> (case IntToInt32 (word_of_int n) of Inr _ \<Rightarrow> True | Inl _ \<Rightarrow> False)"

definition Validate :: "channel_spec \<Rightarrow> cm_error option" where
  "Validate s =
     (if cs_Name s = [] then Some CErrInvalidSpec
      else if \<not> ChannelType_Valid (cs_Type s) then Some CErrInvalidSpec
      else if cs_MaxClients s > 0 \<and> \<not> fits_int32 (cs_MaxClients s) then Some CErrInvalidSpec
      else None)"

record cm_update =
  cu_Topic :: "string option"
  cu_MaxClients :: "int option"
  cu_OpusBitrate :: "int option"
  cu_OpusFEC :: "bool option"
  cu_OpusDTX :: "bool option"
  cu_OpusStereo :: "bool option"
  cu_SlowModeSeconds :: "int option"
  cu_Description :: "string option"
  cu_NeededJoinPower :: "int option"
  cu_OrderIndex :: "int option"
  cu_ParentID :: "channel_id option"
  cu_InheritPermissions :: "bool option"

record delete_result =
  dr_RootID :: channel_id
  dr_ChannelIDs :: "channel_id list"
  dr_SubscriberIDs :: "client_id list"
  dr_Members :: "removed_member list"

text \<open>A row of the channels table; a nullable column is an option.\<close>

record channel_row =
  row_parent :: "channel_id option"
  row_name :: string
  row_topic :: "string option"
  row_order :: int
  row_type :: int
  row_max :: "int option"
  row_created :: time
  row_password :: "string option"
  row_creator :: "user_id option"
  row_power :: int
  row_bitrate :: int
  row_fec :: bool
  row_dtx :: bool
  row_stereo :: bool
  row_slow :: int
  row_description :: string
  row_inherit :: bool

record cmgr =
  cm_db :: "(channel_id, channel_row) fmap"
  cm_state :: manager
  cm_timers :: "(channel_id, nat) fmap"
  cm_nextCleanupGeneration :: nat
  cm_CleanupDelay :: int
  cm_admins :: "(user_id \<times> channel_id) list"
  cm_notified :: "delete_result list"

subsection \<open>The database\<close>

datatype exec_outcome = ExecOk | ExecLost | ExecUnsure

record db_faults =
  df_begin :: bool
  df_read :: bool
  df_walk :: "nat \<Rightarrow> bool"
  df_exec :: bool
  df_rows :: bool
  df_commit :: exec_outcome
  df_load :: "channel_id \<Rightarrow> bool"
  df_subtree :: bool
  df_delete :: exec_outcome
  df_confirm :: bool

definition no_faults :: db_faults where
  "no_faults = \<lparr>df_begin = False, df_read = False, df_walk = (\<lambda>_. False), df_exec = False, df_rows = False,
     df_commit = ExecOk, df_load = (\<lambda>_. False), df_subtree = False, df_delete = ExecOk, df_confirm = False\<rparr>"

definition coalesce :: "'a option \<Rightarrow> 'a \<Rightarrow> 'a" where
  "coalesce v d = (case v of None \<Rightarrow> d | Some x \<Rightarrow> x)"

text \<open>The row as \<open>state.Channel\<close>, as scanned; derived fields keep their zero value.\<close>

definition scan_row :: "channel_id \<Rightarrow> channel_row \<Rightarrow> channel" where
  "scan_row i r =
     \<lparr>ch_ChannelID = i, ch_ParentID = coalesce (row_parent r) 0, ch_Name = row_name r,
      ch_Topic = coalesce (row_topic r) [], ch_OrderIndex = row_order r, ch_ChannelType = row_type r,
      ch_MaxClients = coalesce (row_max r) 0, ch_ClientCount = 0, ch_CreatedAt = row_created r,
      ch_PasswordHash = coalesce (row_password r) [], ch_NeededJoinPower = row_power r,
      ch_HasIcon = False, ch_HasPassword = False, ch_OpusBitrate = row_bitrate r, ch_OpusFEC = row_fec r,
      ch_OpusDTX = row_dtx r, ch_OpusStereo = row_stereo r, ch_SlowModeSeconds = row_slow r,
      ch_Description = row_description r, ch_InheritPermissions = row_inherit r\<rparr>"

definition loadChannelState :: "bool \<Rightarrow> channel_id \<Rightarrow> cmgr \<Rightarrow> cm_error + channel" where
  "loadChannelState fails i cm =
     (if fails then Inl CErrDatabase
      else
        (case fmlookup (cm_db cm) i of
           None \<Rightarrow> Inl CErrChannelNotFound
         | Some r \<Rightarrow>
             (case ParseChannelType (row_type r) of Inl e \<Rightarrow> Inl e | Inr _ \<Rightarrow> Inr (scan_row i r))))"

definition fm_ids :: "(channel_id, 'a) fmap \<Rightarrow> channel_id list" where
  "fm_ids m = sorted_list_of_fset (fmdom m)"

text \<open>
  Edges of the table for the recursive subtree query.  A NULL parent joins with nothing; as an edge
  from the channel to itself it adds nothing to the closure.
\<close>

definition db_edges :: "(channel_id, channel_row) fmap \<Rightarrow> edges" where
  "db_edges db =
     map (\<lambda>i. (i, case fmlookup db i of Some r \<Rightarrow> coalesce (row_parent r) i | None \<Rightarrow> i)) (fm_ids db)"

definition db_subtree :: "(channel_id, channel_row) fmap \<Rightarrow> channel_id \<Rightarrow> channel_id list" where
  "db_subtree db ch = (case fmlookup db ch of None \<Rightarrow> [] | Some _ \<Rightarrow> sort (subtreeIDs (db_edges db) ch))"

definition loadChannelSubtree :: "bool \<Rightarrow> channel_id \<Rightarrow> cmgr \<Rightarrow> cm_error + channel_id list \<times> channel_id" where
  "loadChannelSubtree fails ch cm =
     (if fails then Inl CErrDatabase
      else Inr (db_subtree (cm_db cm) ch,
        case fmlookup (cm_db cm) ch of None \<Rightarrow> 0 | Some r \<Rightarrow> coalesce (row_parent r) 0))"

text \<open>\<open>DELETE FROM channels WHERE id = ch\<close>: the foreign key cascades to the whole subtree.\<close>

definition db_delete :: "channel_id \<Rightarrow> (channel_id, channel_row) fmap \<Rightarrow> (channel_id, channel_row) fmap" where
  "db_delete ch db = fmfilter (\<lambda>i. i \<notin> set (db_subtree db ch)) db"

definition db_parents :: "(channel_id, channel_row) fmap \<Rightarrow> channel_id \<Rightarrow> channel_id option option" where
  "db_parents db i = map_option row_parent (fmlookup db i)"

subsection \<open>Cleanup timers\<close>

definition DefaultCleanupDelay :: int where "DefaultCleanupDelay = 60000000000"

definition cm_New :: "(channel_id, channel_row) fmap \<Rightarrow> manager \<Rightarrow> cmgr" where
  "cm_New db m = \<lparr>cm_db = db, cm_state = m, cm_timers = fmempty, cm_nextCleanupGeneration = 0,
     cm_CleanupDelay = DefaultCleanupDelay, cm_admins = [], cm_notified = []\<rparr>"

definition cleanupDelayLocked :: "cmgr \<Rightarrow> int" where
  "cleanupDelayLocked cm = (if cm_CleanupDelay cm \<le> 0 then DefaultCleanupDelay else cm_CleanupDelay cm)"

definition SetCleanupDelay :: "int \<Rightarrow> cmgr \<Rightarrow> cmgr" where
  "SetCleanupDelay d cm = cm\<lparr>cm_CleanupDelay := if d \<le> 0 then DefaultCleanupDelay else d\<rparr>"

text \<open>
  The channels as \<open>stateChannelSubtreeIDs\<close> lists them.  Go iterates the map in an arbitrary order;
  the set of ids found and their number do not depend on it (\<open>subtreeIDs_correct\<close>).
\<close>

definition state_edges :: "manager \<Rightarrow> edges" where
  "state_edges m =
     map (\<lambda>i. case fmlookup (channels m) i of Some x \<Rightarrow> (ch_ChannelID x, ch_ParentID x) | None \<Rightarrow> (i, 0))
       (fm_ids (channels m))"

definition stateChannelSubtreeIDs :: "manager \<Rightarrow> channel_id \<Rightarrow> channel_id list" where
  "stateChannelSubtreeIDs m ch = subtreeIDs (state_edges m) ch"

text \<open>The condition under which a channel is cleaned up, tested when a timer is set and when it fires.\<close>

definition cleanup_due :: "manager \<Rightarrow> channel_id \<Rightarrow> bool" where
  "cleanup_due m ch \<longleftrightarrow>
     (case GetChannel ch m of
        None \<Rightarrow> False
      | Some x \<Rightarrow>
          ch_ChannelType x = ChannelTypeTemporary \<and> ChannelMembers ch m = {||} \<and>
          length (stateChannelSubtreeIDs m ch) = 1)"

definition startCleanupWatcherLocked :: "channel_id \<Rightarrow> cmgr \<Rightarrow> cmgr" where
  "startCleanupWatcherLocked ch cm =
     cm\<lparr>cm_nextCleanupGeneration := cm_nextCleanupGeneration cm + 1,
        cm_timers := fmupd ch (cm_nextCleanupGeneration cm + 1) (cm_timers cm)\<rparr>"

definition cancelCleanupLocked :: "channel_id \<Rightarrow> cmgr \<Rightarrow> cmgr" where
  "cancelCleanupLocked ch cm = cm\<lparr>cm_timers := fmdrop ch (cm_timers cm)\<rparr>"

definition reconcileCleanupWatcherLocked :: "channel_id \<Rightarrow> cmgr \<Rightarrow> cmgr" where
  "reconcileCleanupWatcherLocked ch cm =
     (if cleanup_due (cm_state cm) ch then startCleanupWatcherLocked ch cm else cancelCleanupLocked ch cm)"

definition StartCleanupWatcher :: "channel_id \<Rightarrow> cmgr \<Rightarrow> cmgr" where
  "StartCleanupWatcher ch cm = reconcileCleanupWatcherLocked ch cm"

definition OnClientLeftChannel :: "channel_id \<Rightarrow> cmgr \<Rightarrow> cmgr" where
  "OnClientLeftChannel ch cm = reconcileCleanupWatcherLocked ch cm"

definition CancelCleanup :: "channel_id \<Rightarrow> cmgr \<Rightarrow> cmgr" where
  "CancelCleanup ch cm = cancelCleanupLocked ch cm"

definition cm_Close :: "cmgr \<Rightarrow> cmgr" where
  "cm_Close cm = cm\<lparr>cm_timers := fmempty\<rparr>"

definition CleanupTimersCount :: "cmgr \<Rightarrow> nat" where
  "CleanupTimersCount cm = fcard (fmdom (cm_timers cm))"

subsection \<open>Mirroring the table into the state\<close>

definition persisted_update :: "channel \<Rightarrow> channel_update" where
  "persisted_update x =
     \<lparr>u_ParentID = Some (ch_ParentID x), u_Name = Some (ch_Name x), u_Topic = Some (ch_Topic x),
      u_OrderIndex = Some (ch_OrderIndex x), u_ChannelType = Some (ch_ChannelType x),
      u_MaxClients = Some (ch_MaxClients x), u_PasswordHash = Some (ch_PasswordHash x),
      u_NeededJoinPower = Some (ch_NeededJoinPower x), u_HasIcon = None,
      u_HasPassword = Some (ch_PasswordHash x \<noteq> []), u_OpusBitrate = Some (ch_OpusBitrate x),
      u_OpusFEC = Some (ch_OpusFEC x), u_OpusDTX = Some (ch_OpusDTX x), u_OpusStereo = Some (ch_OpusStereo x),
      u_SlowModeSeconds = Some (ch_SlowModeSeconds x), u_Description = Some (ch_Description x),
      u_InheritPermissions = Some (ch_InheritPermissions x)\<rparr>"

definition mirrorPersistedChannel :: "channel \<Rightarrow> cmgr \<Rightarrow> cmgr" where
  "mirrorPersistedChannel x cm =
     (case UpdateChannel (ch_ChannelID x) (persisted_update x) (cm_state cm) of
        (m, True) \<Rightarrow> cm\<lparr>cm_state := m\<rparr>
      | (m, False) \<Rightarrow> cm\<lparr>cm_state := AddChannel (Some x) m\<rparr>)"

definition reconcilePersistedChannel :: "db_faults \<Rightarrow> channel_id \<Rightarrow> cmgr \<Rightarrow> cmgr \<times> (cm_error + channel)" where
  "reconcilePersistedChannel f ch cm =
     (case loadChannelState (df_load f ch) ch cm of
        Inl e \<Rightarrow> (cm, Inl e)
      | Inr x \<Rightarrow> (mirrorPersistedChannel x cm, Inr x))"

text \<open>Returns whether the channel had to be reloaded from the table.\<close>

definition mirrorChannelUpdate ::
  "db_faults \<Rightarrow> channel_id \<Rightarrow> channel_update \<Rightarrow> cmgr \<Rightarrow> cmgr \<times> (cm_error + bool)" where
  "mirrorChannelUpdate f ch u cm =
     (case UpdateChannel ch u (cm_state cm) of
        (m, True) \<Rightarrow> (cm\<lparr>cm_state := m\<rparr>, Inr False)
      | (m, False) \<Rightarrow>
          (case loadChannelState (df_load f ch) ch cm of
             Inl e \<Rightarrow> (cm, Inl e)
           | Inr x \<Rightarrow>
               let m1 = AddChannel (Some x) m
               in (cm\<lparr>cm_state := m1\<rparr>, if GetChannel ch m1 = None then Inl CErrDatabase else Inr True)))"

fun state_only_loop ::
  "db_faults \<Rightarrow> channel_id list \<Rightarrow> channel_id list \<Rightarrow> cmgr \<Rightarrow> channel_id list \<Rightarrow> channel_id list \<Rightarrow>
   cmgr \<times> (cm_error + channel_id list \<times> channel_id list)" where
  "state_only_loop f dbIDs [] cm missing timerIDs = (cm, Inr (missing, timerIDs))"
| "state_only_loop f dbIDs (i # is) cm missing timerIDs =
     (if i \<in> set dbIDs then state_only_loop f dbIDs is cm missing timerIDs
      else
        (case loadChannelState (df_load f i) i cm of
           Inl CErrChannelNotFound \<Rightarrow> state_only_loop f dbIDs is cm (missing @ [i]) timerIDs
         | Inl e \<Rightarrow> (cm, Inl e)
         | Inr x \<Rightarrow>
             state_only_loop f dbIDs is (mirrorPersistedChannel x cm) missing
               (timerIDs @ [i, ch_ParentID x] @
                (case GetChannel i (cm_state cm) of None \<Rightarrow> [] | Some before \<Rightarrow> [ch_ParentID before]))))"

definition reconcileStateOnlyDescendants ::
  "db_faults \<Rightarrow> channel_id list \<Rightarrow> channel_id list \<Rightarrow> cmgr \<Rightarrow> cmgr \<times> (cm_error + channel_id list)" where
  "reconcileStateOnlyDescendants f dbIDs stateIDs cm =
     (case state_only_loop f dbIDs stateIDs cm [] [] of
        (cm1, Inl e) \<Rightarrow> (cm1, Inl e)
      | (cm1, Inr (missing, timerIDs)) \<Rightarrow>
          (fold reconcileCleanupWatcherLocked (mergeChannelIDs [timerIDs]) cm1, Inr missing))"

subsection \<open>Creating and loading channels\<close>

text \<open>
  What \<open>CreateChannel\<close> gets from outside: whether the parent query fails, the password hash
  (None: hashing failed), the id and time the \<open>INSERT\<close> returns (None: it failed), whether the admin
  group is found and whether the assignment succeeds.
\<close>

record create_env =
  ce_exists_fails :: bool
  ce_hash :: "string \<Rightarrow> string option"
  ce_insert :: "(channel_id \<times> time) option"
  ce_group :: bool
  ce_assign :: bool

definition channelExists :: "bool \<Rightarrow> channel_id \<Rightarrow> cmgr \<Rightarrow> cm_error option" where
  "channelExists fails ch cm =
     (if fails then Some CErrDatabase
      else if fmlookup (cm_db cm) ch = None then Some CErrChannelNotFound else None)"

definition assignChannelAdmin :: "create_env \<Rightarrow> user_id \<Rightarrow> channel_id \<Rightarrow> cmgr \<Rightarrow> cmgr" where
  "assignChannelAdmin e uid ch cm =
     (if uid = 0 then cm
      else if \<not> ce_group e then cm
      else if \<not> ce_assign e then cm
      else cm\<lparr>cm_admins := cm_admins cm @ [(uid, ch)]\<rparr>)"

definition insert_row :: "channel_spec \<Rightarrow> string option \<Rightarrow> time \<Rightarrow> channel_row" where
  "insert_row s pw t =
     \<lparr>row_parent = (if cs_ParentID s \<noteq> 0 then Some (cs_ParentID s) else None), row_name = cs_Name s,
      row_topic = Some (cs_Topic s), row_order = cs_OrderIndex s, row_type = cs_Type s,
      row_max = (if cs_MaxClients s > 0 then Some (cs_MaxClients s) else None), row_created = t,
      row_password = pw, row_creator = (if cs_CreatedBy s \<noteq> 0 then Some (cs_CreatedBy s) else None),
      row_power = cs_NeededJoinPower s, row_bitrate = cs_OpusBitrate s, row_fec = cs_OpusFEC s,
      row_dtx = cs_OpusDTX s, row_stereo = cs_OpusStereo s, row_slow = 0, row_description = [],
      row_inherit = False\<rparr>"

definition spec_channel :: "channel_spec \<Rightarrow> string option \<Rightarrow> channel_id \<Rightarrow> time \<Rightarrow> channel" where
  "spec_channel s pw i t =
     \<lparr>ch_ChannelID = i, ch_ParentID = cs_ParentID s, ch_Name = cs_Name s, ch_Topic = cs_Topic s,
      ch_OrderIndex = cs_OrderIndex s, ch_ChannelType = cs_Type s, ch_MaxClients = cs_MaxClients s,
      ch_ClientCount = 0, ch_CreatedAt = t, ch_PasswordHash = coalesce pw [],
      ch_NeededJoinPower = cs_NeededJoinPower s, ch_HasIcon = False, ch_HasPassword = False,
      ch_OpusBitrate = cs_OpusBitrate s, ch_OpusFEC = cs_OpusFEC s, ch_OpusDTX = cs_OpusDTX s,
      ch_OpusStereo = cs_OpusStereo s, ch_SlowModeSeconds = 0, ch_Description = [],
      ch_InheritPermissions = False\<rparr>"

definition hash_password :: "create_env \<Rightarrow> channel_spec \<Rightarrow> cm_error + string option" where
  "hash_password e s =
     (if cs_Password s = [] then Inr None
      else (case ce_hash e (cs_Password s) of None \<Rightarrow> Inl CErrDatabase | Some h \<Rightarrow> Inr (Some h)))"

definition create_inserted :: "create_env \<Rightarrow> channel_spec \<Rightarrow> string option \<Rightarrow> channel_id \<Rightarrow> time \<Rightarrow> cmgr \<Rightarrow> cmgr" where
  "create_inserted e s pw i t cm =
     (let cm1 = cm\<lparr>cm_db := fmupd i (insert_row s pw t) (cm_db cm),
                   cm_state := AddChannel (Some (spec_channel s pw i t)) (cm_state cm)\<rparr>;
          cm2 = assignChannelAdmin e (cs_CreatedBy s) i cm1;
          cm3 = reconcileCleanupWatcherLocked i cm2
      in if cs_ParentID s \<noteq> 0 then reconcileCleanupWatcherLocked (cs_ParentID s) cm3 else cm3)"

definition CreateChannel :: "create_env \<Rightarrow> channel_spec \<Rightarrow> cmgr \<Rightarrow> cmgr \<times> (cm_error + channel_id)" where
  "CreateChannel e s cm =
     (case Validate s of
        Some err \<Rightarrow> (cm, Inl err)
      | None \<Rightarrow>
          (case (if cs_ParentID s \<noteq> 0 then channelExists (ce_exists_fails e) (cs_ParentID s) cm else None) of
             Some err \<Rightarrow> (cm, Inl err)
           | None \<Rightarrow>
               (case hash_password e s of
                  Inl err \<Rightarrow> (cm, Inl err)
                | Inr pw \<Rightarrow>
                    if cs_MaxClients s > 0 \<and> \<not> fits_int32 (cs_MaxClients s) then (cm, Inl CErrInvalidSpec)
                    else
                      (case ce_insert e of
                         None \<Rightarrow> (cm, Inl CErrDatabase)
                       | Some (i, t) \<Rightarrow> (create_inserted e s pw i t cm, Inr i)))))"

text \<open>The row loop of \<open>LoadIntoState\<close>; \<open>fails n\<close>: reading row \<open>n\<close> fails, \<open>n\<close> past the end: iteration fails.\<close>

fun load_rows ::
  "(nat \<Rightarrow> bool) \<Rightarrow> (channel_id \<times> channel_row) list \<Rightarrow> nat \<Rightarrow> channel_id list \<Rightarrow> cmgr \<Rightarrow>
   cmgr \<times> nat \<times> (cm_error + channel_id list)" where
  "load_rows fails [] n temps cm = (cm, n, if fails n then Inl CErrDatabase else Inr temps)"
| "load_rows fails ((i, r) # rows) n temps cm =
     (if fails n then (cm, n, Inl CErrDatabase)
      else
        (case ParseChannelType (row_type r) of
           Inl e \<Rightarrow> (cm, n, Inl e)
         | Inr t \<Rightarrow>
             load_rows fails rows (n + 1)
               (if t = ChannelTypeTemporary then temps @ [i] else temps)
               (cm\<lparr>cm_state := AddChannel (Some (scan_row i r)) (cm_state cm)\<rparr>)))"

definition LoadIntoState :: "bool \<Rightarrow> (nat \<Rightarrow> bool) \<Rightarrow> cmgr \<Rightarrow> cmgr \<times> nat \<times> cm_error option" where
  "LoadIntoState query_fails fails cm =
     (if query_fails then (cm, 0, Some CErrDatabase)
      else
        (case load_rows fails (map (\<lambda>i. (i, the (fmlookup (cm_db cm) i))) (fm_ids (cm_db cm))) 0 [] cm of
           (cm1, n, Inl e) \<Rightarrow> (cm1, n, Some e)
         | (cm1, n, Inr temps) \<Rightarrow> (fold reconcileCleanupWatcherLocked temps cm1, n, None)))"

subsection \<open>Deleting a subtree\<close>

definition delete_finish :: "channel_id \<Rightarrow> channel_id list \<Rightarrow> channel_id \<Rightarrow> cmgr \<Rightarrow> cmgr \<times> delete_result" where
  "delete_finish ch ids parent cm =
     (let cm1 = fold cancelCleanupLocked ids cm;
          (m, rr) = RemoveChannels ids (cm_state cm1);
          cm2 = cm1\<lparr>cm_state := m\<rparr>;
          cm3 = (if parent \<noteq> 0 then reconcileCleanupWatcherLocked parent cm2 else cm2)
      in (cm3, \<lparr>dr_RootID = ch, dr_ChannelIDs = ids, dr_SubscriberIDs = rr_SubscriberIDs rr,
                dr_Members = rr_Members rr\<rparr>))"

definition delete_exec :: "db_faults \<Rightarrow> channel_id \<Rightarrow> cmgr \<Rightarrow> cmgr \<times> cm_error option" where
  "delete_exec f ch cm =
     (let cm1 = (if df_delete f = ExecLost then cm else cm\<lparr>cm_db := db_delete ch (cm_db cm)\<rparr>)
      in if df_delete f \<noteq> ExecOk then
           (case loadChannelSubtree (df_confirm f) ch cm1 of
              Inl e \<Rightarrow> (cm1, Some e)
            | Inr (remaining, _) \<Rightarrow> (cm1, if remaining \<noteq> [] then Some CErrDatabase else None))
         else (cm1, if df_rows f then Some CErrDatabase else None))"

definition deleteChannelLocked :: "db_faults \<Rightarrow> channel_id \<Rightarrow> cmgr \<Rightarrow> cmgr \<times> (cm_error + delete_result)" where
  "deleteChannelLocked f ch cm =
     (let stateParent = (case GetChannel ch (cm_state cm) of Some x \<Rightarrow> ch_ParentID x | None \<Rightarrow> 0)
      in case loadChannelSubtree (df_subtree f) ch cm of
           Inl e \<Rightarrow> (cm, Inl e)
         | Inr (dbIDs, rootParent) \<Rightarrow>
             let stateIDs = stateChannelSubtreeIDs (cm_state cm) ch
             in if dbIDs = [] \<and> stateIDs = [] then (cm, Inl CErrChannelNotFound)
                else
                  (case reconcileStateOnlyDescendants f dbIDs stateIDs cm of
                     (cm1, Inl e) \<Rightarrow> (cm1, Inl e)
                   | (cm1, Inr missing) \<Rightarrow>
                       if dbIDs = [] \<and> missing = [] then (cm1, Inl CErrChannelNotFound)
                       else
                         (case delete_exec f ch cm1 of
                            (cm2, Some e) \<Rightarrow> (cm2, Inl e)
                          | (cm2, None) \<Rightarrow>
                              (case delete_finish ch (mergeChannelIDs [dbIDs, missing])
                                  (if dbIDs = [] then stateParent else rootParent) cm2 of
                                 (cm3, result) \<Rightarrow> (cm3, Inr result)))))"

definition DeleteChannelSubtree :: "db_faults \<Rightarrow> channel_id \<Rightarrow> cmgr \<Rightarrow> cmgr \<times> (cm_error + delete_result)" where
  "DeleteChannelSubtree f ch cm = deleteChannelLocked f ch cm"

definition DeleteChannel :: "db_faults \<Rightarrow> channel_id \<Rightarrow> cmgr \<Rightarrow> cmgr \<times> cm_error option" where
  "DeleteChannel f ch cm =
     (case DeleteChannelSubtree f ch cm of (cm', Inl e) \<Rightarrow> (cm', Some e) | (cm', Inr _) \<Rightarrow> (cm', None))"

subsection \<open>Changing a channel\<close>

definition SetChannelType :: "db_faults \<Rightarrow> channel_id \<Rightarrow> int \<Rightarrow> cmgr \<Rightarrow> cmgr \<times> cm_error option" where
  "SetChannelType f ch t cm =
     (if \<not> ChannelType_Valid t then (cm, Some CErrInvalidSpec)
      else if df_begin f then (cm, Some CErrDatabase)
      else if df_read f then (cm, Some CErrDatabase)
      else
        (case fmlookup (cm_db cm) ch of
           None \<Rightarrow> (cm, Some CErrChannelNotFound)
         | Some r \<Rightarrow>
             (case ParseChannelType (row_type r) of
                Inl e \<Rightarrow> (cm, Some e)
              | Inr current \<Rightarrow>
                  if current \<noteq> t \<and> df_exec f then (cm, Some CErrDatabase)
                  else if current \<noteq> t \<and> df_rows f then (cm, Some CErrDatabase)
                  else
                    let written = cm\<lparr>cm_db := fmupd ch (r\<lparr>row_type := t\<rparr>) (cm_db cm)\<rparr>;
                        cm1 = (if df_commit f = ExecLost then cm else written)
                    in if df_commit f \<noteq> ExecOk then
                         (case reconcilePersistedChannel f ch cm1 of
                            (cm2, Inl e) \<Rightarrow> (cancelCleanupLocked ch cm2, Some CErrCommit)
                          | (cm2, Inr x) \<Rightarrow>
                              (reconcileCleanupWatcherLocked ch cm2,
                               if ch_ChannelType x \<noteq> t then Some CErrCommit else None))
                       else
                         (case mirrorChannelUpdate f ch (no_update\<lparr>u_ChannelType := Some t\<rparr>) cm1 of
                            (cm2, Inl e) \<Rightarrow> (cancelCleanupLocked ch cm2, Some e)
                          | (cm2, Inr _) \<Rightarrow> (reconcileCleanupWatcherLocked ch cm2, None)))))"

definition update_checks :: "cm_update \<Rightarrow> bool" where
  "update_checks u \<longleftrightarrow>
     (\<forall>v \<in> set_option (cu_OpusBitrate u). 0 \<le> v) \<and> (\<forall>v \<in> set_option (cu_MaxClients u). 0 \<le> v) \<and>
     (\<forall>v \<in> set_option (cu_NeededJoinPower u). 0 \<le> v) \<and> (\<forall>v \<in> set_option (cu_SlowModeSeconds u). 0 \<le> v)"

definition update_empty :: "cm_update \<Rightarrow> bool" where
  "update_empty u \<longleftrightarrow>
     cu_Topic u = None \<and> cu_MaxClients u = None \<and> cu_OpusBitrate u = None \<and> cu_OpusFEC u = None \<and>
     cu_OpusDTX u = None \<and> cu_OpusStereo u = None \<and> cu_SlowModeSeconds u = None \<and> cu_Description u = None \<and>
     cu_NeededJoinPower u = None \<and> cu_OrderIndex u = None \<and> cu_ParentID u = None \<and> cu_InheritPermissions u = None"

text \<open>The \<open>UPDATE\<close> statement built from the non-nil fields; 0 is stored as NULL for parent and limit.\<close>

definition patch_row :: "cm_update \<Rightarrow> channel_row \<Rightarrow> channel_row" where
  "patch_row u r =
     r\<lparr>row_topic := (case cu_Topic u of None \<Rightarrow> row_topic r | Some v \<Rightarrow> Some v),
       row_max := (case cu_MaxClients u of None \<Rightarrow> row_max r | Some v \<Rightarrow> if v > 0 then Some v else None),
       row_bitrate := orelse (cu_OpusBitrate u) (row_bitrate r),
       row_fec := orelse (cu_OpusFEC u) (row_fec r),
       row_dtx := orelse (cu_OpusDTX u) (row_dtx r),
       row_stereo := orelse (cu_OpusStereo u) (row_stereo r),
       row_slow := orelse (cu_SlowModeSeconds u) (row_slow r),
       row_description := orelse (cu_Description u) (row_description r),
       row_power := orelse (cu_NeededJoinPower u) (row_power r),
       row_order := orelse (cu_OrderIndex u) (row_order r),
       row_parent := (case cu_ParentID u of None \<Rightarrow> row_parent r | Some v \<Rightarrow> if v = 0 then None else Some v),
       row_inherit := orelse (cu_InheritPermissions u) (row_inherit r)\<rparr>"

definition mirror_update :: "cm_update \<Rightarrow> channel_update" where
  "mirror_update u =
     no_update\<lparr>u_ParentID := cu_ParentID u, u_Topic := cu_Topic u, u_OrderIndex := cu_OrderIndex u,
       u_MaxClients := cu_MaxClients u, u_NeededJoinPower := cu_NeededJoinPower u,
       u_OpusBitrate := cu_OpusBitrate u, u_OpusFEC := cu_OpusFEC u, u_OpusDTX := cu_OpusDTX u,
       u_OpusStereo := cu_OpusStereo u, u_SlowModeSeconds := cu_SlowModeSeconds u,
       u_Description := cu_Description u, u_InheritPermissions := cu_InheritPermissions u\<rparr>"

definition field_matches :: "'a option \<Rightarrow> 'a \<Rightarrow> bool" where
  "field_matches u v \<longleftrightarrow> u = None \<or> u = Some v"

definition channelMatchesUpdate :: "channel \<Rightarrow> cm_update \<Rightarrow> bool" where
  "channelMatchesUpdate x u \<longleftrightarrow>
     field_matches (cu_ParentID u) (ch_ParentID x) \<and> field_matches (cu_Topic u) (ch_Topic x) \<and>
     field_matches (cu_OrderIndex u) (ch_OrderIndex x) \<and> field_matches (cu_MaxClients u) (ch_MaxClients x) \<and>
     field_matches (cu_NeededJoinPower u) (ch_NeededJoinPower x) \<and>
     field_matches (cu_OpusBitrate u) (ch_OpusBitrate x) \<and> field_matches (cu_OpusFEC u) (ch_OpusFEC x) \<and>
     field_matches (cu_OpusDTX u) (ch_OpusDTX x) \<and> field_matches (cu_OpusStereo u) (ch_OpusStereo x) \<and>
     field_matches (cu_SlowModeSeconds u) (ch_SlowModeSeconds x) \<and>
     field_matches (cu_Description u) (ch_Description x) \<and>
     field_matches (cu_InheritPermissions u) (ch_InheritPermissions x)"

definition move_error :: "move_verdict \<Rightarrow> cm_error option" where
  "move_error v =
     (case v of MoveOk \<Rightarrow> None | MoveNotFound \<Rightarrow> Some CErrChannelNotFound | MoveDBError \<Rightarrow> Some CErrDatabase
      | _ \<Rightarrow> Some CErrInvalidMove)"

text \<open>What follows the commit: mirror the change, or after a failed commit reload what is stored.\<close>

definition update_committed :: "db_faults \<Rightarrow> channel_id \<Rightarrow> cm_update \<Rightarrow> channel_id \<Rightarrow> cmgr \<Rightarrow> cmgr \<times> cm_error option" where
  "update_committed f ch u oldParent cm =
     (case mirrorChannelUpdate f ch (mirror_update u) cm of
        (cm1, Inl e) \<Rightarrow> (cm1, Some e)
      | (cm1, Inr reloaded) \<Rightarrow>
          let cm2 = (if reloaded then reconcileCleanupWatcherLocked ch cm1 else cm1)
          in case cu_ParentID u of
               None \<Rightarrow> (cm2, None)
             | Some p \<Rightarrow>
                 let cm3 = (if oldParent \<noteq> 0 \<and> oldParent \<noteq> p then reconcileCleanupWatcherLocked oldParent cm2 else cm2);
                     cm4 = (if p \<noteq> 0 then reconcileCleanupWatcherLocked p cm3 else cm3)
                 in (cm4, None))"

definition update_unsure :: "db_faults \<Rightarrow> channel_id \<Rightarrow> cm_update \<Rightarrow> channel_id \<Rightarrow> cmgr \<Rightarrow> cmgr \<times> cm_error option" where
  "update_unsure f ch u oldParent cm =
     (case reconcilePersistedChannel f ch cm of
        (cm1, Inl e) \<Rightarrow> (cm1, Some CErrCommit)
      | (cm1, Inr x) \<Rightarrow>
          let cm2 = reconcileCleanupWatcherLocked ch cm1;
              cm3 = (case cu_ParentID u of
                       None \<Rightarrow> cm2
                     | Some p \<Rightarrow>
                         fold reconcileCleanupWatcherLocked (mergeChannelIDs [[oldParent, p, ch_ParentID x]]) cm2)
          in (cm3, if channelMatchesUpdate x u then None else Some CErrCommit))"

definition cm_UpdateChannel :: "db_faults \<Rightarrow> channel_id \<Rightarrow> cm_update \<Rightarrow> cmgr \<Rightarrow> cmgr \<times> cm_error option" where
  "cm_UpdateChannel f ch u cm =
     (if \<not> update_checks u then (cm, Some CErrInvalidSpec)
      else if update_empty u then (cm, None)
      else
        let oldParent = (case cu_ParentID u of
               None \<Rightarrow> 0
             | Some _ \<Rightarrow> (case GetChannel ch (cm_state cm) of Some x \<Rightarrow> ch_ParentID x | None \<Rightarrow> 0))
        in if df_begin f then (cm, Some CErrDatabase)
           else
             (case (case cu_ParentID u of
                      None \<Rightarrow> None
                    | Some p \<Rightarrow> move_error (validateMoveTx (db_parents (cm_db cm)) (df_read f) (df_walk f) ch p)) of
                Some e \<Rightarrow> (cm, Some e)
              | None \<Rightarrow>
                  if df_exec f then (cm, Some CErrDatabase)
                  else if df_rows f then (cm, Some CErrDatabase)
                  else
                    (case fmlookup (cm_db cm) ch of
                       None \<Rightarrow> (cm, Some CErrChannelNotFound)
                     | Some r \<Rightarrow>
                         let written = cm\<lparr>cm_db := fmupd ch (patch_row u r) (cm_db cm)\<rparr>
                         in (case df_commit f of
                               ExecOk \<Rightarrow> update_committed f ch u oldParent written
                             | ExecLost \<Rightarrow> update_unsure f ch u oldParent cm
                             | ExecUnsure \<Rightarrow> update_unsure f ch u oldParent written))))"

subsection \<open>Clients\<close>

text \<open>Returns the channel the client stood in.\<close>

definition cm_MoveClient :: "client_id \<Rightarrow> channel_id \<Rightarrow> cmgr \<Rightarrow> cmgr \<times> channel_id \<times> cm_error option" where
  "cm_MoveClient cid target cm =
     (case ClientChannelState cid (cm_state cm) of
        None \<Rightarrow> (cm, 0, Some (CErrState ErrClientNotFound))
      | Some (old, _) \<Rightarrow>
          (case MoveClient cid target (cm_state cm) of
             (m, Some e) \<Rightarrow> (cm\<lparr>cm_state := m\<rparr>, old, Some (CErrState e))
           | (m, None) \<Rightarrow>
               let cm1 = cancelCleanupLocked target (cm\<lparr>cm_state := m\<rparr>);
                   cm2 = (if old \<noteq> 0 \<and> old \<noteq> target then reconcileCleanupWatcherLocked old cm1 else cm1)
               in (cm2, old, None)))"

definition LeaveClient :: "client_id \<Rightarrow> cmgr \<Rightarrow> cmgr \<times> channel_id \<times> cm_error option" where
  "LeaveClient cid cm =
     (case ClientChannelState cid (cm_state cm) of
        None \<Rightarrow> (cm, 0, Some (CErrState ErrClientNotFound))
      | Some (old, _) \<Rightarrow>
          if old = 0 then (cm, 0, Some (CErrState ErrNotInChannel))
          else
            (case LeaveChannel cid (cm_state cm) of
               (m, Some e) \<Rightarrow> (cm\<lparr>cm_state := m\<rparr>, old, Some (CErrState e))
             | (m, None) \<Rightarrow> (reconcileCleanupWatcherLocked old (cm\<lparr>cm_state := m\<rparr>), old, None)))"

definition cm_RemoveClient :: "client_id \<Rightarrow> cmgr \<Rightarrow> cmgr \<times> (cm_error + client)" where
  "cm_RemoveClient cid cm =
     (case GetClient cid (cm_state cm) of
        None \<Rightarrow> (cm, Inl (CErrState ErrClientNotFound))
      | Some _ \<Rightarrow>
          (case RemoveClient cid (cm_state cm) of
             (m, None) \<Rightarrow> (cm\<lparr>cm_state := m\<rparr>, Inl (CErrState ErrClientNotFound))
           | (m, Some removed) \<Rightarrow>
               let cm1 = cm\<lparr>cm_state := m\<rparr>
               in (if c_ChannelID removed \<noteq> 0 then reconcileCleanupWatcherLocked (c_ChannelID removed) cm1 else cm1,
                   Inr removed)))"

text \<open>The operation is a parameter; None stands for a nil function.\<close>

definition WithChannelLifecycle :: "channel_id \<Rightarrow> (cmgr \<Rightarrow> 'r) option \<Rightarrow> cmgr \<Rightarrow> cm_error + 'r" where
  "WithChannelLifecycle ch operation cm =
     (case operation of
        None \<Rightarrow> Inl CErrInvalidSpec
      | Some h \<Rightarrow> if GetChannel ch (cm_state cm) = None then Inl CErrChannelNotFound else Inr (h cm))"

subsection \<open>The cleanup callback\<close>

definition cleanupCallback :: "db_faults \<Rightarrow> channel_id \<Rightarrow> nat \<Rightarrow> cmgr \<Rightarrow> cmgr" where
  "cleanupCallback f ch g cm =
     (if fmlookup (cm_timers cm) ch \<noteq> Some g then cm
      else
        let cm1 = cm\<lparr>cm_timers := fmdrop ch (cm_timers cm)\<rparr>
        in if \<not> cleanup_due (cm_state cm1) ch then cm1
           else
             (case deleteChannelLocked f ch cm1 of
                (cm2, Inl e) \<Rightarrow> if e = CErrChannelNotFound then cm2 else reconcileCleanupWatcherLocked ch cm2
              | (cm2, Inr result) \<Rightarrow>
                  if dr_RootID result = 0 then cm2 else cm2\<lparr>cm_notified := cm_notified cm2 @ [result]\<rparr>))"

end
