(* ===== verification/Channel_Lifecycle.thy ===== *)
theory Channel_Lifecycle
  imports Channel_Manager
begin

text \<open>
  Correctness of the channel manager: the table stays a forest, the in-memory channels mirror the
  table, and a cleanup timer is pending exactly for the empty temporary leaf channels.
\<close>

subsection \<open>The invariant\<close>

text \<open>Foreign key, ids and stored types of the table, and no parent cycle.\<close>

definition db_wf :: "(channel_id, channel_row) fmap \<Rightarrow> bool" where
  "db_wf db \<longleftrightarrow>
     (\<forall>i r. fmlookup db i = Some r \<longrightarrow>
        0 < i \<and> ChannelType_Valid (row_type r) \<and>
        (\<forall>p. row_parent r = Some p \<longrightarrow> (\<exists>q. fmlookup db p = Some q))) \<and>
     acyclic (parent_rel (db_parents db))"

text \<open>
  The fields of a channel that the table determines.  A limit of 0 or less means unlimited and is
  stored as NULL.
\<close>

definition persisted_view :: "channel \<Rightarrow> channel" where
  "persisted_view x =
     x\<lparr>ch_ClientCount := 0, ch_HasIcon := False, ch_HasPassword := False, ch_MaxClients := max 0 (ch_MaxClients x)\<rparr>"

definition synced :: "(channel_id, channel_row) fmap \<Rightarrow> manager \<Rightarrow> bool" where
  "synced db m \<longleftrightarrow>
     (\<forall>i. map_option persisted_view (fmlookup (channels m) i) =
          map_option (\<lambda>r. persisted_view (scan_row i r)) (fmlookup db i))"

definition cm_core :: "cmgr \<Rightarrow> bool" where
  "cm_core cm \<longleftrightarrow> mgr_inv (cm_state cm) \<and> db_wf (cm_db cm) \<and> synced (cm_db cm) (cm_state cm)"

definition timers_ok_except :: "channel_id set \<Rightarrow> cmgr \<Rightarrow> bool" where
  "timers_ok_except R cm \<longleftrightarrow>
     (\<forall>ch. ch \<notin> R \<longrightarrow> ((\<exists>g. fmlookup (cm_timers cm) ch = Some g) \<longleftrightarrow> cleanup_due (cm_state cm) ch))"

definition gens_ok :: "cmgr \<Rightarrow> bool" where
  "gens_ok cm \<longleftrightarrow> (\<forall>ch g. fmlookup (cm_timers cm) ch = Some g \<longrightarrow> g \<le> cm_nextCleanupGeneration cm)"

definition cm_inv :: "cmgr \<Rightarrow> bool" where
  "cm_inv cm \<longleftrightarrow> cm_core cm \<and> timers_ok_except {} cm \<and> gens_ok cm"

lemma cm_coreD: "cm_core cm \<Longrightarrow> mgr_inv (cm_state cm)" "cm_core cm \<Longrightarrow> db_wf (cm_db cm)"
    "cm_core cm \<Longrightarrow> synced (cm_db cm) (cm_state cm)"
  by (simp_all add: cm_core_def)

lemma db_wfD:
  assumes "db_wf db" "fmlookup db i = Some r"
  shows "0 < i" "ChannelType_Valid (row_type r)" "row_parent r = Some p \<Longrightarrow> \<exists>q. fmlookup db p = Some q"
  using assms unfolding db_wf_def by blast+

lemma db_wf_acyclic: "db_wf db \<Longrightarrow> acyclic (parent_rel (db_parents db))"
  by (simp add: db_wf_def)

lemma ParseChannelType_valid: "ChannelType_Valid t \<Longrightarrow> ParseChannelType t = Inr t"
  by (auto simp: ChannelType_Valid_def ParseChannelType_def)

subsection \<open>The cleanup condition\<close>

text \<open>Parent and type of each channel: what the cleanup condition reads of the channel table.\<close>

definition tree :: "manager \<Rightarrow> channel_id \<Rightarrow> (channel_id \<times> int) option" where
  "tree m i = map_option (\<lambda>x. (ch_ParentID x, ch_ChannelType x)) (fmlookup (channels m) i)"

definition occupied :: "manager \<Rightarrow> channel_id set" where
  "occupied m = ran (a_where (abs m))"

lemma set_fm_ids [simp]: "set (fm_ids m) = {i. \<exists>x. fmlookup m i = Some x}"
  unfolding fm_ids_def by (auto simp: fmlookup_dom_iff)

lemma set_state_edges:
  assumes "mgr_inv m"
  shows "set (state_edges m) = {(i, p). \<exists>t. tree m i = Some (p, t)}"
proof -
  have key: "fmlookup (channels m) i = Some x \<Longrightarrow> ch_ChannelID x = i" for i x
    using mgr_invD(1) [OF assms] by (simp add: inv_keys_def)
  show ?thesis
    by (auto simp: state_edges_def tree_def key image_iff split: option.splits) (use key in force)+
qed

lemma a_where_iff:
  "a_where (abs m) cid = Some ch \<longleftrightarrow> ch \<noteq> 0 \<and> (\<exists>c. fmlookup (clients m) cid = Some c \<and> c_ChannelID c = ch)"
  by (auto simp: abs_fields split: option.split)

lemma occupied_iff:
  assumes "mgr_inv m" "ch \<noteq> 0"
  shows "ch \<in> occupied m \<longleftrightarrow> ChannelMembers ch m \<noteq> {||}"
proof -
  note mem = mgr_invD(2) [OF assms(1), unfolded inv_members_def]
  have "ch \<in> occupied m \<longleftrightarrow> (\<exists>cid. cid |\<in>| fmset_get (membership m) ch)"
    using mem assms(2) by (simp add: occupied_def ran_def a_where_iff)
  also have "\<dots> \<longleftrightarrow> ChannelMembers ch m \<noteq> {||}"
  proof -
    have "ffilter (\<lambda>cid. fmlookup (clients m) cid \<noteq> None) (fmset_get (membership m) ch) = fmset_get (membership m) ch"
      using mem by (intro fset_eqI) auto
    then have "ChannelMembers ch m = {||} \<longleftrightarrow> fmset_get (membership m) ch = {||}"
      by (simp add: ChannelMembers_def)
    then show ?thesis by blast
  qed
  finally show ?thesis .
qed

lemma cleanup_due_iff:
  assumes "mgr_inv m"
  shows "cleanup_due m ch \<longleftrightarrow>
    (\<exists>p. tree m ch = Some (p, ChannelTypeTemporary)) \<and> ch \<notin> occupied m \<and>
    (\<forall>i t. tree m i = Some (ch, t) \<longrightarrow> i = ch)"
proof (cases "fmlookup (channels m) ch")
  case None
  then show ?thesis by (simp add: cleanup_due_def GetChannel_def tree_def)
next
  case (Some x)
  have "ch \<noteq> 0" using mgr_invD(1) [OF assms] Some by (auto simp: inv_keys_def)
  moreover have "ch \<in> fst ` set (state_edges m)"
    using Some by (force simp: set_state_edges [OF assms] tree_def)
  ultimately show ?thesis
    using Some occupied_iff [OF assms, of ch] subtreeIDs_single [of ch "state_edges m"]
    by (auto simp: cleanup_due_def GetChannel_def tree_def stateChannelSubtreeIDs_def set_state_edges [OF assms])
qed

lemma due_cong:
  assumes "mgr_inv m" "mgr_inv m'"
    and "map_option snd (tree m' ch) = map_option snd (tree m ch)" "ch \<in> occupied m' \<longleftrightarrow> ch \<in> occupied m"
    and "\<And>i. i \<noteq> ch \<Longrightarrow> map_option fst (tree m' i) = Some ch \<longleftrightarrow> map_option fst (tree m i) = Some ch"
  shows "cleanup_due m' ch \<longleftrightarrow> cleanup_due m ch"
proof -
  have due: "cleanup_due m ch \<longleftrightarrow> map_option snd (tree m ch) = Some ChannelTypeTemporary \<and> ch \<notin> occupied m \<and>
      (\<forall>i. i \<noteq> ch \<longrightarrow> map_option fst (tree m i) \<noteq> Some ch)" if "mgr_inv m" for m
    using cleanup_due_iff [OF that, of ch] by auto
  show ?thesis unfolding due [OF assms(1)] due [OF assms(2)] using assms(3-) by simp
qed

lemma tree_synced:
  assumes "synced db m"
  shows "tree m i = map_option (\<lambda>r. (coalesce (row_parent r) 0, row_type r)) (fmlookup db i)"
proof -
  have "map_option (\<lambda>x. (ch_ParentID x, ch_ChannelType x)) (map_option persisted_view (fmlookup (channels m) i)) =
      map_option (\<lambda>x. (ch_ParentID x, ch_ChannelType x)) (map_option (\<lambda>r. persisted_view (scan_row i r)) (fmlookup db i))"
    using assms by (simp add: synced_def)
  then show ?thesis
    by (simp add: tree_def option.map_comp comp_def persisted_view_def scan_row_def)
qed

lemma synced_present: "synced db m \<Longrightarrow> (\<exists>x. fmlookup (channels m) i = Some x) \<longleftrightarrow> (\<exists>r. fmlookup db i = Some r)"
  using tree_synced [of db m i]
  by (cases "fmlookup db i"; cases "fmlookup (channels m) i") (simp_all add: tree_def)

subsection \<open>Timers\<close>

lemma reconcile_frame [simp]:
  "cm_db (reconcileCleanupWatcherLocked ch cm) = cm_db cm"
  "cm_state (reconcileCleanupWatcherLocked ch cm) = cm_state cm"
  "cm_notified (reconcileCleanupWatcherLocked ch cm) = cm_notified cm"
  by (simp_all add: reconcileCleanupWatcherLocked_def startCleanupWatcherLocked_def cancelCleanupLocked_def)

lemma cancel_frame [simp]:
  "cm_db (cancelCleanupLocked ch cm) = cm_db cm" "cm_state (cancelCleanupLocked ch cm) = cm_state cm"
  "cm_notified (cancelCleanupLocked ch cm) = cm_notified cm"
  "fmlookup (cm_timers (cancelCleanupLocked ch cm)) i = (if i = ch then None else fmlookup (cm_timers cm) i)"
  by (simp_all add: cancelCleanupLocked_def)

lemma reconcile_timers:
  "(\<exists>g. fmlookup (cm_timers (reconcileCleanupWatcherLocked ch cm)) i = Some g) \<longleftrightarrow>
     (if i = ch then cleanup_due (cm_state cm) ch else (\<exists>g. fmlookup (cm_timers cm) i = Some g))"
  by (auto simp: reconcileCleanupWatcherLocked_def startCleanupWatcherLocked_def cancelCleanupLocked_def)

lemma fold_reconcile_frame [simp]:
  "cm_db (fold reconcileCleanupWatcherLocked chs cm) = cm_db cm"
  "cm_state (fold reconcileCleanupWatcherLocked chs cm) = cm_state cm"
  "cm_notified (fold reconcileCleanupWatcherLocked chs cm) = cm_notified cm"
  by (induction chs arbitrary: cm) simp_all

lemma fold_cancel_frame [simp]:
  "cm_db (fold cancelCleanupLocked chs cm) = cm_db cm"
  "cm_state (fold cancelCleanupLocked chs cm) = cm_state cm"
  "cm_notified (fold cancelCleanupLocked chs cm) = cm_notified cm"
  "fmlookup (cm_timers (fold cancelCleanupLocked chs cm)) i = (if i \<in> set chs then None else fmlookup (cm_timers cm) i)"
  by (induction chs arbitrary: cm) simp_all

lemma reconcile_ok:
  "timers_ok_except R cm \<Longrightarrow> timers_ok_except (R - {ch}) (reconcileCleanupWatcherLocked ch cm)"
  by (auto simp: timers_ok_except_def reconcile_timers)

lemma fold_reconcile_ok:
  "timers_ok_except R cm \<Longrightarrow> timers_ok_except (R - set chs) (fold reconcileCleanupWatcherLocked chs cm)"
proof (induction chs arbitrary: R cm)
  case Nil
  then show ?case by simp
next
  case (Cons ch chs)
  from Cons.IH [OF reconcile_ok [OF Cons.prems, of ch]] show ?case
    by (simp add: Diff_insert2 [symmetric])
qed

lemma cancel_ok:
  "timers_ok_except R cm \<Longrightarrow> \<not> cleanup_due (cm_state cm) ch \<Longrightarrow>
   timers_ok_except (R - {ch}) (cancelCleanupLocked ch cm)"
  by (auto simp: timers_ok_except_def)

lemma timers_ok_mono: "timers_ok_except R cm \<Longrightarrow> R \<subseteq> S \<Longrightarrow> timers_ok_except S cm"
  by (auto simp: timers_ok_except_def)

lemma timers_ok_state:
  assumes "timers_ok_except S cm" "cm_timers cm' = cm_timers cm"
    and "\<And>i. i \<notin> R \<Longrightarrow> cleanup_due (cm_state cm') i = cleanup_due (cm_state cm) i" "S \<subseteq> R"
  shows "timers_ok_except R cm'"
  using assms by (auto simp: timers_ok_except_def)

lemma gens_ok_steps:
  "gens_ok cm \<Longrightarrow> gens_ok (reconcileCleanupWatcherLocked ch cm)"
  "gens_ok cm \<Longrightarrow> gens_ok (cancelCleanupLocked ch cm)"
  by (auto simp: gens_ok_def reconcileCleanupWatcherLocked_def startCleanupWatcherLocked_def
      cancelCleanupLocked_def le_SucI split: if_splits)

lemma gens_ok_fold:
  "gens_ok cm \<Longrightarrow> gens_ok (fold reconcileCleanupWatcherLocked chs cm)"
  "gens_ok cm \<Longrightarrow> gens_ok (fold cancelCleanupLocked chs cm)"
  by (induction chs arbitrary: cm) (simp_all add: gens_ok_steps)

lemma gens_ok_cong:
  "cm_timers cm' = cm_timers cm \<Longrightarrow> cm_nextCleanupGeneration cm' = cm_nextCleanupGeneration cm \<Longrightarrow>
   gens_ok cm' = gens_ok cm"
  by (simp add: gens_ok_def)

subsection \<open>Client operations\<close>

text \<open>The persisted part of the channels is untouched by client operations.\<close>

lemma count_view:
  "map_option persisted_view (fmlookup (dec_count ch chs) i) = map_option persisted_view (fmlookup chs i)"
  "map_option persisted_view (fmlookup (inc_count ch chs) i) = map_option persisted_view (fmlookup chs i)"
  by (auto simp: dec_count_def inc_count_def persisted_view_def split: option.splits)

lemma leave_members_view:
  "map_option persisted_view (fmlookup (channels (leave_members cid ch m)) i) =
   map_option persisted_view (fmlookup (channels m) i)"
  by (simp add: leave_members_def count_view split: option.splits)

lemma client_ops_view:
  "map_option persisted_view (fmlookup (channels (fst (MoveClient cid ch m))) i) = map_option persisted_view (fmlookup (channels m) i)"
  "map_option persisted_view (fmlookup (channels (fst (LeaveChannel cid m))) i) = map_option persisted_view (fmlookup (channels m) i)"
  "map_option persisted_view (fmlookup (channels (fst (RemoveClient cid m))) i) = map_option persisted_view (fmlookup (channels m) i)"
  by (simp_all add: MoveClient_def LeaveChannel_def RemoveClient_def Let_def enter_channel_def dropSubsLocked_def
      count_view leave_members_view split: option.splits)

lemma synced_cong:
  "(\<And>i. map_option persisted_view (fmlookup (channels m') i) = map_option persisted_view (fmlookup (channels m) i)) \<Longrightarrow>
   synced db m' = synced db m"
  by (simp add: synced_def)

lemmas client_ops_synced = client_ops_view [THEN synced_cong]

lemma tree_same: "synced db m \<Longrightarrow> synced db m' \<Longrightarrow> tree m' = tree m"
  by (simp add: tree_synced fun_eq_iff)

text \<open>A client operation changes the cleanup condition at the channels it empties or fills only.\<close>

lemma due_moved:
  assumes "mgr_inv m" "mgr_inv m'" "synced db m" "synced db m'"
    and "\<And>i. i \<notin> R \<Longrightarrow> i \<in> occupied m' \<longleftrightarrow> i \<in> occupied m" "i \<notin> R"
  shows "cleanup_due m' i = cleanup_due m i"
  using assms by (intro due_cong) (simp_all add: tree_same [OF assms(3,4)])

lemma due_not_occupied: "mgr_inv m \<Longrightarrow> ch \<in> occupied m \<Longrightarrow> \<not> cleanup_due m ch"
  by (simp add: cleanup_due_iff)

lemma occupied_upd:
  assumes "a_where (abs m') = (a_where (abs m))(cid := v)" "i \<notin> set_option v" "i \<notin> set_option (a_where (abs m) cid)"
  shows "i \<in> occupied m' \<longleftrightarrow> i \<in> occupied m"
  using assms by (auto simp: occupied_def ran_def split: if_splits)

definition client_place :: "manager \<Rightarrow> client_id \<Rightarrow> channel_id" where
  "client_place m cid = coalesce (a_where (abs m) cid) 0"

lemma client_place_eq: "fmlookup (clients m) cid = Some c \<Longrightarrow> client_place m cid = c_ChannelID c"
  by (simp add: client_place_def abs_fields coalesce_def)

lemma cm_MoveClient_cases:
  assumes "mgr_inv (cm_state cm)"
  obtains (fail) e where "fst (cm_MoveClient cid target cm) = cm" "snd (snd (cm_MoveClient cid target cm)) = Some e"
  | (moved) c x m where "fmlookup (clients (cm_state cm)) cid = Some c"
      "fmlookup (channels (cm_state cm)) target = Some x"
      "MoveClient cid target (cm_state cm) = (m, None)" "a_where (abs m) cid = Some target"
      "fst (cm_MoveClient cid target cm) =
        (let cm1 = cancelCleanupLocked target (cm\<lparr>cm_state := m\<rparr>)
         in if c_ChannelID c \<noteq> 0 \<and> c_ChannelID c \<noteq> target
            then reconcileCleanupWatcherLocked (c_ChannelID c) cm1 else cm1)"
      "snd (cm_MoveClient cid target cm) = (c_ChannelID c, None)"
proof (cases "fmlookup (clients (cm_state cm)) cid")
  case None
  then show thesis using fail by (simp add: cm_MoveClient_def ClientChannelState_def)
next
  case (Some c)
  show thesis
  proof (cases "fmlookup (channels (cm_state cm)) target")
    case None
    with Some have "MoveClient cid target (cm_state cm) = (cm_state cm, Some ErrChannelNotFound)"
      by (simp add: MoveClient_def)
    with Some show thesis using fail by (simp add: cm_MoveClient_def ClientChannelState_def)
  next
    case x: (Some x)
    obtain m where m: "MoveClient cid target (cm_state cm) = (m, None)"
      using Some x by (cases "MoveClient cid target (cm_state cm)")
        (auto simp: MoveClient_def Let_def split: if_splits)
    have "a_where (abs m) cid = Some target"
      using abs_place(2) [OF assms Some x] m by simp
    with Some m x show thesis using moved by (simp add: cm_MoveClient_def ClientChannelState_def Let_def)
  qed
qed

lemma cm_inv_state_step:
  assumes "cm_inv cm" "mgr_inv m" "synced (cm_db cm) m"
    and "\<And>i. i \<notin> R \<Longrightarrow> i \<in> occupied m \<longleftrightarrow> i \<in> occupied (cm_state cm)"
  shows "cm_core (cm\<lparr>cm_state := m\<rparr>)" "timers_ok_except R (cm\<lparr>cm_state := m\<rparr>)" "gens_ok (cm\<lparr>cm_state := m\<rparr>)"
proof -
  have core: "cm_core cm" and t: "timers_ok_except {} cm" and g: "gens_ok cm"
    using assms(1) by (simp_all add: cm_inv_def)
  show "cm_core (cm\<lparr>cm_state := m\<rparr>)" using core assms by (simp add: cm_core_def)
  show "timers_ok_except R (cm\<lparr>cm_state := m\<rparr>)"
    using due_moved [OF cm_coreD(1) [OF core] assms(2) cm_coreD(3) [OF core] assms(3) assms(4)]
    by (intro timers_ok_state [OF t]) simp_all
  show "gens_ok (cm\<lparr>cm_state := m\<rparr>)" using g by (simp add: gens_ok_def)
qed

lemma cm_core_timers [simp]:
  "cm_core (reconcileCleanupWatcherLocked ch cm) = cm_core cm" "cm_core (cancelCleanupLocked ch cm) = cm_core cm"
  "cm_core (fold reconcileCleanupWatcherLocked chs cm) = cm_core cm" "cm_core (fold cancelCleanupLocked chs cm) = cm_core cm"
  by (simp_all add: cm_core_def)

lemma zero_not_due: "mgr_inv m \<Longrightarrow> \<not> cleanup_due m 0"
proof -
  assume "mgr_inv m"
  then have "fmlookup (channels m) 0 = None"
    using mgr_invD(1) [of m] unfolding inv_keys_def by (metis not_None_eq)
  then show ?thesis by (simp add: cleanup_due_def GetChannel_def)
qed

lemma zero_no_timer: "cm_inv cm \<Longrightarrow> fmlookup (cm_timers cm) 0 = None"
  using zero_not_due [of "cm_state cm"] by (auto simp: cm_inv_def cm_core_def timers_ok_except_def)

lemma timers_ok_zero:
  "mgr_inv (cm_state cm) \<Longrightarrow> fmlookup (cm_timers cm) 0 = None \<Longrightarrow> timers_ok_except R cm \<Longrightarrow> timers_ok_except (R - {0}) cm"
  using zero_not_due [of "cm_state cm"] by (auto simp: timers_ok_except_def)

lemma cm_MoveClient_inv:
  assumes "cm_inv cm"
  shows "cm_inv (fst (cm_MoveClient cid target cm))"
proof -
  have core: "cm_core cm" using assms by (simp add: cm_inv_def)
  show ?thesis
  proof (cases rule: cm_MoveClient_cases [OF cm_coreD(1) [OF core], of cid target, case_names fail moved])
    case (fail e)
    with assms show ?thesis by simp
  next
    case (moved c x m)
    let ?R = "{target, c_ChannelID c}"
    have m: "mgr_inv m" "synced (cm_db cm) m"
      using MoveClient_inv [OF cm_coreD(1) [OF core], of cid target] client_ops_synced(1) [of "cm_db cm" cid target]
        cm_coreD(3) [OF core] moved(3) by (metis fst_conv)+
    have "a_where (abs m) = (a_where (abs (cm_state cm)))(cid \<mapsto> target)"
      using abs_place(2) [OF cm_coreD(1) [OF core] moved(1,2)] moved(3) by simp
    then have occ: "i \<notin> ?R \<Longrightarrow> i \<in> occupied m \<longleftrightarrow> i \<in> occupied (cm_state cm)" for i
      using moved(1) by (intro occupied_upd) (auto simp: a_where_iff)
    note st = cm_inv_state_step [where R = ?R, OF assms m occ]
    have busy: "target \<in> occupied m" using moved(4) by (auto simp: occupied_def ran_def)
    then have "\<not> cleanup_due m target" by (rule due_not_occupied [OF m(1)])
    then have t1: "timers_ok_except (?R - {target}) (cancelCleanupLocked target (cm\<lparr>cm_state := m\<rparr>))"
      by (intro cancel_ok [OF st(2)]) simp_all
    show ?thesis
    proof (cases "c_ChannelID c \<noteq> 0 \<and> c_ChannelID c \<noteq> target")
      case True
      have "timers_ok_except (?R - {target} - {c_ChannelID c}) (fst (cm_MoveClient cid target cm))"
        using reconcile_ok [OF t1, of "c_ChannelID c"] True by (simp add: moved(5) Let_def)
      with True st show ?thesis
        by (simp add: cm_inv_def moved(5) Let_def gens_ok_steps Diff_insert2 [symmetric])
    next
      case False
      have "timers_ok_except (?R - {target} - {0}) (cancelCleanupLocked target (cm\<lparr>cm_state := m\<rparr>))"
        using m(1) zero_no_timer [OF assms] by (intro timers_ok_zero t1) simp_all
      moreover have "?R - {target} - {0} = {}" using False by auto
      ultimately have "timers_ok_except {} (cancelCleanupLocked target (cm\<lparr>cm_state := m\<rparr>))" by (simp only:)
      with False st show ?thesis by (auto simp: cm_inv_def moved(5) Let_def gens_ok_steps)
    qed
  qed
qed

text \<open>Emptying one channel and reconciling it.\<close>

lemma emptied_inv:
  assumes "cm_inv cm" "mgr_inv m" "synced (cm_db cm) m"
    and "a_where (abs m) = (a_where (abs (cm_state cm)))(cid := None)"
    and "fmlookup (clients (cm_state cm)) cid = Some c" "c_ChannelID c \<noteq> 0"
  shows "cm_inv (reconcileCleanupWatcherLocked (c_ChannelID c) (cm\<lparr>cm_state := m\<rparr>))"
proof -
  have "i \<notin> {c_ChannelID c} \<Longrightarrow> i \<in> occupied m \<longleftrightarrow> i \<in> occupied (cm_state cm)" for i
    using assms(5) by (intro occupied_upd [OF assms(4)]) (auto simp: a_where_iff)
  note st = cm_inv_state_step [where R = "{c_ChannelID c}", OF assms(1-3) this]
  from reconcile_ok [OF st(2), of "c_ChannelID c"] st show ?thesis
    by (simp add: cm_inv_def gens_ok_steps)
qed

lemma LeaveClient_inv:
  assumes "cm_inv cm"
  shows "cm_inv (fst (LeaveClient cid cm))"
proof (cases "\<exists>c. fmlookup (clients (cm_state cm)) cid = Some c \<and> c_ChannelID c \<noteq> 0")
  case True
  have core: "cm_core cm" using assms by (simp add: cm_inv_def)
  from True obtain c where c: "fmlookup (clients (cm_state cm)) cid = Some c" "c_ChannelID c \<noteq> 0" by blast
  let ?m = "departed cid c (cm_state cm)"
  have lc: "LeaveChannel cid (cm_state cm) = (?m, None)" using LeaveChannel_departed [OF c] .
  have "mgr_inv ?m" "synced (cm_db cm) ?m"
    using departed_inv [OF cm_coreD(1) [OF core] c] client_ops_synced(2) [of "cm_db cm" cid "cm_state cm"]
      cm_coreD(3) [OF core] lc by simp_all
  moreover have "a_where (abs ?m) = (a_where (abs (cm_state cm)))(cid := None)"
    using abs_departed [OF c(1)] by simp
  ultimately have "cm_inv (reconcileCleanupWatcherLocked (c_ChannelID c) (cm\<lparr>cm_state := ?m\<rparr>))"
    using emptied_inv [OF assms] c by blast
  then show ?thesis using c lc by (simp add: LeaveClient_def ClientChannelState_def)
next
  case False
  with assms show ?thesis by (auto simp: LeaveClient_def ClientChannelState_def split: option.splits)
qed

lemma cm_RemoveClient_inv:
  assumes "cm_inv cm"
  shows "cm_inv (fst (cm_RemoveClient cid cm))"
proof (cases "fmlookup (clients (cm_state cm)) cid")
  case None
  with assms show ?thesis by (simp add: cm_RemoveClient_def GetClient_def)
next
  case (Some c)
  have core: "cm_core cm" using assms by (simp add: cm_inv_def)
  define m where "m = fst (RemoveClient cid (cm_state cm))"
  have rc: "RemoveClient cid (cm_state cm) = (m, Some c)"
    using Some by (simp add: m_def RemoveClient_def Let_def)
  have m: "mgr_inv m" "synced (cm_db cm) m"
    using RemoveClient_inv [OF cm_coreD(1) [OF core], of cid] client_ops_synced(3) [of "cm_db cm" cid "cm_state cm"]
      cm_coreD(3) [OF core] by (simp_all add: m_def)
  have aw: "a_where (abs m) = (a_where (abs (cm_state cm)))(cid := None)"
    using abs_RemoveClient [OF cm_coreD(1) [OF core], of cid] by (simp add: m_def)
  show ?thesis
  proof (cases "c_ChannelID c = 0")
    case True
    have "i \<notin> {} \<Longrightarrow> i \<in> occupied m \<longleftrightarrow> i \<in> occupied (cm_state cm)" for i
      using Some True by (intro occupied_upd [OF aw]) (auto simp: a_where_iff)
    from cm_inv_state_step [where R = "{}", OF assms m this] True Some rc show ?thesis
      by (simp add: cm_RemoveClient_def GetClient_def cm_inv_def)
  next
    case False
    from emptied_inv [OF assms m aw Some False] False Some rc show ?thesis
      by (simp add: cm_RemoveClient_def GetClient_def)
  qed
qed

lemma AddClient_cm_inv:
  assumes "cm_inv cm" "fmlookup (clients (cm_state cm)) (c_ClientID c) = None" "c_ChannelID c = 0" "\<not> c_IsSpeaking c"
  shows "cm_inv (cm\<lparr>cm_state := AddClient (Some c) (cm_state cm)\<rparr>)"
proof -
  let ?m = "AddClient (Some c) (cm_state cm)"
  have core: "cm_core cm" using assms(1) by (simp add: cm_inv_def)
  have "mgr_inv ?m" using AddClient_inv [OF cm_coreD(1) [OF core] assms(2-)] .
  moreover have "synced (cm_db cm) ?m" using cm_coreD(3) [OF core] by (simp add: AddClient_def synced_def)
  moreover have "i \<notin> {} \<Longrightarrow> i \<in> occupied ?m \<longleftrightarrow> i \<in> occupied (cm_state cm)" for i
    using abs_adding_ops(1) [OF assms(2,3)] by (simp add: occupied_def)
  ultimately show ?thesis using cm_inv_state_step [OF assms(1), of ?m "{}"] by (simp add: cm_inv_def)
qed

lemma reconcile_inv: "cm_inv cm \<Longrightarrow> cm_inv (reconcileCleanupWatcherLocked ch cm)"
  using reconcile_ok [of "{}" cm ch] by (simp add: cm_inv_def gens_ok_steps)

lemma fold_reconcile_inv: "cm_inv cm \<Longrightarrow> cm_inv (fold reconcileCleanupWatcherLocked chs cm)"
  by (induction chs arbitrary: cm) (simp_all add: reconcile_inv)

subsection \<open>Creating a channel\<close>

lemma db_wf_insert:
  assumes "db_wf db" "0 < i" "fmlookup db i = None" "ChannelType_Valid (row_type r)"
    and "\<And>p. row_parent r = Some p \<Longrightarrow> \<exists>q. fmlookup db p = Some q"
  shows "db_wf (fmupd i r db)"
  unfolding db_wf_def
proof (intro conjI allI impI)
  fix j s
  assume j: "fmlookup (fmupd i r db) j = Some s"
  show "0 < j" "ChannelType_Valid (row_type s)"
    using j assms db_wfD [OF assms(1), of j s] by (auto split: if_splits)
  show "\<exists>q. fmlookup (fmupd i r db) p = Some q" if "row_parent s = Some p" for p
    using j that assms(5) db_wfD(3) [OF assms(1), of j s p] by (auto split: if_splits)
next
  let ?P = "parent_rel (db_parents db)"
  have new: "parent_rel (db_parents (fmupd i r db)) \<subseteq> ?P \<union> (\<lambda>p. (i, p)) ` set_option (row_parent r)"
    by (auto simp: parent_rel_def db_parents_def split: if_splits)
  have out: "(p, i) \<notin> ?P\<^sup>*" if "row_parent r = Some p" for p
  proof
    assume path: "(p, i) \<in> ?P\<^sup>*"
    have "p \<noteq> i" using assms(3,5) that by auto
    with path obtain y where "(y, i) \<in> ?P" by (meson rtranclE)
    then obtain s where "fmlookup db y = Some s" "row_parent s = Some i"
      by (auto simp: parent_rel_def db_parents_def)
    from db_wfD(3) [OF assms(1) this] assms(3) show False by simp
  qed
  show "acyclic (parent_rel (db_parents (fmupd i r db)))"
  proof (cases "row_parent r")
    case None
    with new acyclic_subset [OF db_wf_acyclic [OF assms(1)]] show ?thesis by simp
  next
    case (Some p)
    have "acyclic (insert (i, p) ?P)" using out [OF Some] db_wf_acyclic [OF assms(1)] by (simp add: acyclic_insert)
    then show ?thesis using new Some by (elim acyclic_subset) auto
  qed
qed

lemma synced_insert:
  assumes "synced db m" "persisted_view x = persisted_view (scan_row i r)" "ch_ChannelID x = i"
  shows "synced (fmupd i r db) (AddChannel (Some x) m)"
  using assms by (auto simp: synced_def AddChannel_def)

lemma spec_channel_scan: "persisted_view (spec_channel s pw i t) = persisted_view (scan_row i (insert_row s pw t))"
  by (simp add: persisted_view_def spec_channel_def scan_row_def insert_row_def coalesce_def)

lemma due_added:
  assumes "mgr_inv m" "mgr_inv (AddChannel (Some x) m)" "fmlookup (channels m) (ch_ChannelID x) = None"
    and "ch \<notin> {ch_ChannelID x, ch_ParentID x}"
  shows "cleanup_due (AddChannel (Some x) m) ch = cleanup_due m ch"
  using assms(3,4) abs_adding_ops(2) [of x m]
  by (intro due_cong [OF assms(1,2)]) (auto simp: tree_def AddChannel_def occupied_def)

lemma assignChannelAdmin_frame [simp]:
  "cm_db (assignChannelAdmin e u i cm) = cm_db cm" "cm_state (assignChannelAdmin e u i cm) = cm_state cm"
  "cm_timers (assignChannelAdmin e u i cm) = cm_timers cm"
  "cm_nextCleanupGeneration (assignChannelAdmin e u i cm) = cm_nextCleanupGeneration cm"
  by (simp_all add: assignChannelAdmin_def)

lemma create_inserted_inv:
  assumes inv: "cm_inv cm" and i: "0 < i" "fmlookup (cm_db cm) i = None" and ty: "ChannelType_Valid (cs_Type s)"
    and par: "cs_ParentID s = 0 \<or> (\<exists>q. fmlookup (cm_db cm) (cs_ParentID s) = Some q)"
  shows "cm_inv (create_inserted e s pw i t cm)"
proof -
  let ?x = "spec_channel s pw i t"
  let ?m = "AddChannel (Some ?x) (cm_state cm)"
  define cm1 where "cm1 = cm\<lparr>cm_db := fmupd i (insert_row s pw t) (cm_db cm), cm_state := ?m\<rparr>"
  have core: "cm_core cm" using inv by (simp add: cm_inv_def)
  have absent: "fmlookup (channels (cm_state cm)) i = None"
    using synced_present [OF cm_coreD(3) [OF core], of i] i(2) by simp
  have xi: "ch_ChannelID ?x = i" "ch_ParentID ?x = cs_ParentID s" "ch_ClientCount ?x = 0" by (simp_all add: spec_channel_def)
  have m: "mgr_inv ?m" using AddChannel_inv [OF cm_coreD(1) [OF core], of ?x] absent xi i(1) by simp
  have "db_wf (cm_db cm1)"
    using db_wf_insert [OF cm_coreD(2) [OF core] i(1,2), of "insert_row s pw t"] ty par
    by (auto simp: cm1_def insert_row_def split: if_splits)
  moreover have "synced (cm_db cm1) (cm_state cm1)"
    using synced_insert [OF cm_coreD(3) [OF core] spec_channel_scan xi(1)] by (simp add: cm1_def)
  ultimately have core1: "cm_core cm1" using m by (simp add: cm_core_def cm1_def)
  have t1: "timers_ok_except {i, cs_ParentID s} cm1"
  proof (rule timers_ok_state)
    show "timers_ok_except {} cm" using inv by (simp add: cm_inv_def)
    show "cleanup_due (cm_state cm1) j = cleanup_due (cm_state cm) j" if "j \<notin> {i, cs_ParentID s}" for j
      using due_added [OF cm_coreD(1) [OF core] m, of j] absent xi that by (simp add: cm1_def)
  qed (simp_all add: cm1_def)
  have g1: "gens_ok cm1" using inv by (simp add: cm1_def cm_inv_def gens_ok_def)
  define cm2 where "cm2 = assignChannelAdmin e (cs_CreatedBy s) i cm1"
  have st2: "cm_core cm2" "timers_ok_except {i, cs_ParentID s} cm2" "gens_ok cm2"
    using core1 t1 g1 by (simp_all add: cm2_def cm_core_def timers_ok_except_def gens_ok_def)
  have eq: "create_inserted e s pw i t cm =
      (if cs_ParentID s \<noteq> 0 then reconcileCleanupWatcherLocked (cs_ParentID s) (reconcileCleanupWatcherLocked i cm2)
       else reconcileCleanupWatcherLocked i cm2)"
    by (simp add: create_inserted_def Let_def cm2_def cm1_def)
  show ?thesis
  proof (cases "cs_ParentID s = 0")
    case True
    have "timers_ok_except ({i, cs_ParentID s} - {0}) cm2"
      using cm_coreD(1) [OF st2(1)] zero_no_timer [OF inv] by (intro timers_ok_zero st2(2)) (simp_all add: cm2_def cm1_def)
    from reconcile_ok [OF this, of i] True i(1) st2 show ?thesis
      by (simp add: eq cm_inv_def gens_ok_steps insert_Diff_if)
  next
    case False
    from reconcile_ok [OF reconcile_ok [OF st2(2), of i], of "cs_ParentID s"] st2 False show ?thesis
      by (simp add: eq cm_inv_def gens_ok_steps Diff_insert2 [symmetric])
  qed
qed

lemma CreateChannel_inv:
  assumes "cm_inv cm"
    and fresh: "case ce_insert e of None \<Rightarrow> True | Some (i, _) \<Rightarrow> 0 < i \<and> fmlookup (cm_db cm) i = None"
  shows "cm_inv (fst (CreateChannel e s cm))"
proof -
  have ok: "cm_inv (create_inserted e s pw i t cm)"
    if "Validate s = None" "ce_insert e = Some (i, t)"
      "(if cs_ParentID s \<noteq> 0 then channelExists (ce_exists_fails e) (cs_ParentID s) cm else None) = None" for pw i t
  proof (rule create_inserted_inv [OF assms(1)])
    show "0 < i" "fmlookup (cm_db cm) i = None" using fresh that(2) by auto
    show "ChannelType_Valid (cs_Type s)" using that(1) by (auto simp: Validate_def split: if_splits)
    show "cs_ParentID s = 0 \<or> (\<exists>q. fmlookup (cm_db cm) (cs_ParentID s) = Some q)"
      using that(3) by (auto simp: channelExists_def split: if_splits)
  qed
  show ?thesis
  proof (cases "Validate s")
    case None
    show ?thesis
      unfolding CreateChannel_def None option.case
      by (cases "if cs_ParentID s \<noteq> 0 then channelExists (ce_exists_fails e) (cs_ParentID s) cm else None")
         (auto simp: assms(1) split: sum.split option.split intro: ok [OF None])
  qed (simp add: CreateChannel_def assms(1))
qed

subsection \<open>Changing a channel\<close>

definition shift_set :: "channel_id \<Rightarrow> channel_row \<Rightarrow> channel_row \<Rightarrow> channel_id set" where
  "shift_set ch r r' =
     (if row_type r' = row_type r then {} else {ch}) \<union>
     (if coalesce (row_parent r') 0 = coalesce (row_parent r) 0 then {}
      else {coalesce (row_parent r) 0, coalesce (row_parent r') 0})"

lemma UpdateChannel_known:
  "fmlookup (channels m) ch = Some x \<Longrightarrow>
   UpdateChannel ch u m = (m\<lparr>channels := fmupd ch (patch_channel u x) (channels m)\<rparr>, True)"
  by (simp add: UpdateChannel_def)

lemma synced_at:
  assumes "synced db m" "fmlookup db ch = Some r"
  obtains x where "fmlookup (channels m) ch = Some x" "persisted_view x = persisted_view (scan_row ch r)"
  using assms by (force simp: synced_def dest: spec [of _ ch])

text \<open>One row and its mirror change together; the timers to look at again are those of \<open>shift_set\<close>.\<close>

lemma patched_step:
  assumes inv: "cm_inv cm" and r: "fmlookup (cm_db cm) ch = Some r" and x: "fmlookup (channels (cm_state cm)) ch = Some x"
    and view: "persisted_view (patch_channel u x) = persisted_view (scan_row ch r')"
    and wf: "db_wf (fmupd ch r' (cm_db cm))"
  defines "cm1 \<equiv> cm\<lparr>cm_db := fmupd ch r' (cm_db cm), cm_state := fst (UpdateChannel ch u (cm_state cm))\<rparr>"
  shows "cm_core cm1" "timers_ok_except (shift_set ch r r') cm1" "gens_ok cm1"
proof -
  have core: "cm_core cm" using inv by (simp add: cm_inv_def)
  let ?m = "fst (UpdateChannel ch u (cm_state cm))"
  have m: "mgr_inv ?m" by (rule UpdateChannel_inv [OF cm_coreD(1) [OF core]])
  have sync: "synced (fmupd ch r' (cm_db cm)) ?m"
    using cm_coreD(3) [OF core] x view by (simp add: synced_def UpdateChannel_known)
  show "cm_core cm1" using m sync wf by (simp add: cm_core_def cm1_def)
  show "gens_ok cm1" using inv by (simp add: cm1_def cm_inv_def gens_ok_def)
  have t0: "tree (cm_state cm) i = map_option (\<lambda>r. (coalesce (row_parent r) 0, row_type r)) (fmlookup (cm_db cm) i)" for i
    by (rule tree_synced [OF cm_coreD(3) [OF core]])
  have t1: "tree ?m i = map_option (\<lambda>r. (coalesce (row_parent r) 0, row_type r)) (fmlookup (fmupd ch r' (cm_db cm)) i)" for i
    by (rule tree_synced [OF sync])
  have occ: "occupied ?m = occupied (cm_state cm)" using abs_adding_ops(3) by (simp add: occupied_def)
  have "cleanup_due ?m i = cleanup_due (cm_state cm) i" if "i \<notin> shift_set ch r r'" for i
  proof (rule due_cong [OF cm_coreD(1) [OF core] m])
    show "map_option snd (tree ?m i) = map_option snd (tree (cm_state cm) i)"
      using that r by (auto simp: t0 t1 shift_set_def split: if_splits)
    show "(i \<in> occupied ?m) = (i \<in> occupied (cm_state cm))" by (simp add: occ)
    show "(map_option fst (tree ?m j) = Some i) = (map_option fst (tree (cm_state cm) j) = Some i)" for j
    proof (cases "j = ch")
      case True
      with that r show ?thesis by (simp add: t0 t1 shift_set_def split: if_splits)
    qed (simp add: t0 t1)
  qed
  then show "timers_ok_except (shift_set ch r r') cm1"
    using inv by - (rule timers_ok_state [of "{}" cm], simp_all add: cm1_def cm_inv_def)
qed

lemma persisted_created: "persisted_view x = persisted_view (scan_row i r) \<Longrightarrow> ch_CreatedAt x = row_created r \<and> ch_ChannelID x = i"
  by (cases x) (simp add: persisted_view_def scan_row_def)

lemma view_reload:
  assumes "persisted_view x = persisted_view (scan_row ch r)" "row_created r' = row_created r"
  shows "persisted_view (patch_channel (persisted_update (scan_row ch r')) x) = persisted_view (scan_row ch r')"
  using assms persisted_created [OF assms(1)]
  by (simp add: persisted_view_def patch_channel_def persisted_update_def orelse_def) (simp add: scan_row_def)

lemma view_type:
  assumes "persisted_view x = persisted_view (scan_row ch r)"
  shows "persisted_view (patch_channel (no_update\<lparr>u_ChannelType := Some t\<rparr>) x) =
    persisted_view (scan_row ch (r\<lparr>row_type := t\<rparr>))"
  using assms by (cases x) (simp add: persisted_view_def patch_channel_def no_update_def orelse_def scan_row_def)

lemma view_patch:
  assumes "persisted_view x = persisted_view (scan_row ch r)"
  shows "persisted_view (patch_channel (mirror_update u) x) = persisted_view (scan_row ch (patch_row u r))"
  using assms
  by (cases x) (simp add: persisted_view_def patch_channel_def mirror_update_def no_update_def orelse_def
      scan_row_def patch_row_def coalesce_def split: option.split)

lemma db_wf_update:
  assumes "db_wf db" "fmlookup db ch = Some r" "ChannelType_Valid (row_type r')"
    and "\<And>p. row_parent r' = Some p \<Longrightarrow> \<exists>q. fmlookup db p = Some q"
    and "acyclic (parent_rel ((db_parents db)(ch := Some (row_parent r'))))"
  shows "db_wf (fmupd ch r' db)"
proof -
  have "db_parents (fmupd ch r' db) = (db_parents db)(ch := Some (row_parent r'))"
    by (auto simp: db_parents_def)
  moreover have "0 < i \<and> ChannelType_Valid (row_type s) \<and> (\<forall>p. row_parent s = Some p \<longrightarrow> (\<exists>q. fmlookup (fmupd ch r' db) p = Some q))"
    if "fmlookup (fmupd ch r' db) i = Some s" for i s
    using that assms(2-4) db_wfD [OF assms(1), of i] by (auto split: if_splits)
  ultimately show ?thesis using assms(5) unfolding db_wf_def by simp
qed

lemma db_parents_same: "fmlookup db ch = Some r \<Longrightarrow> row_parent r' = row_parent r \<Longrightarrow>
    (db_parents db)(ch := Some (row_parent r')) = db_parents db"
  by (auto simp: db_parents_def)

text \<open>The parents involved in a change, as the operations know them.\<close>

lemma synced_parent:
  assumes "synced db m" "fmlookup db ch = Some r" "fmlookup (channels m) ch = Some x"
  shows "ch_ParentID x = coalesce (row_parent r) 0"
  using tree_synced [OF assms(1), of ch] assms(2,3) by (simp add: tree_def)

lemma mirrorPersisted_known:
  assumes "fmlookup (channels (cm_state cm)) i = Some x"
  shows "mirrorPersistedChannel (scan_row i r) cm =
    cm\<lparr>cm_state := fst (UpdateChannel i (persisted_update (scan_row i r)) (cm_state cm))\<rparr>"
  using assms by (simp add: mirrorPersistedChannel_def UpdateChannel_known scan_row_def)

lemma loadChannelState_ok:
  "fmlookup (cm_db cm) i = Some r \<Longrightarrow> ChannelType_Valid (row_type r) \<Longrightarrow> \<not> fails \<Longrightarrow>
   loadChannelState fails i cm = Inr (scan_row i r)"
  by (simp add: loadChannelState_def ParseChannelType_valid)

text \<open>Reloading a row after a failed commit, whichever version of the row was stored.\<close>

lemma reload_step:
  assumes inv: "cm_inv cm" and r: "fmlookup (cm_db cm) ch = Some r" and ok: "\<not> df_load f ch"
    and wf: "db_wf (fmupd ch r' (cm_db cm))" and cr: "row_created r' = row_created r"
  obtains cm1 where
    "reconcilePersistedChannel f ch (cm\<lparr>cm_db := fmupd ch r' (cm_db cm)\<rparr>) = (cm1, Inr (scan_row ch r'))"
    "cm_core cm1" "timers_ok_except (shift_set ch r r') cm1" "gens_ok cm1" "cm_timers cm1 = cm_timers cm"
proof -
  have core: "cm_core cm" using inv by (simp add: cm_inv_def)
  obtain x where x: "fmlookup (channels (cm_state cm)) ch = Some x" "persisted_view x = persisted_view (scan_row ch r)"
    using synced_at [OF cm_coreD(3) [OF core] r] by blast
  have "ChannelType_Valid (row_type r')" using db_wfD(2) [OF wf, of ch r'] by simp
  then have "reconcilePersistedChannel f ch (cm\<lparr>cm_db := fmupd ch r' (cm_db cm)\<rparr>) =
      (cm\<lparr>cm_db := fmupd ch r' (cm_db cm), cm_state := fst (UpdateChannel ch (persisted_update (scan_row ch r')) (cm_state cm))\<rparr>,
       Inr (scan_row ch r'))"
    using ok x(1) by (simp add: reconcilePersistedChannel_def loadChannelState_ok mirrorPersisted_known)
  from that [OF this patched_step [OF inv r x(1) view_reload [OF x(2) cr] wf]] show thesis by simp
qed

lemma fmupd_lookup_same: "fmlookup m k = Some v \<Longrightarrow> fmupd k v m = m"
  by (rule fmap_ext) auto

lemma cm_db_same: "fmlookup (cm_db cm) ch = Some r \<Longrightarrow> cm\<lparr>cm_db := fmupd ch r (cm_db cm)\<rparr> = cm"
  by (simp add: fmupd_lookup_same)

lemma SetChannelType_inv:
  assumes inv: "cm_inv cm" and single: "df_commit f = ExecOk \<or> \<not> df_load f ch"
  shows "cm_inv (fst (SetChannelType f ch t cm))"
proof (cases "fst (SetChannelType f ch t cm) = cm")
  case True
  with inv show ?thesis by simp
next
  case False
  have core: "cm_core cm" using inv by (simp add: cm_inv_def)
  from False obtain r where r: "fmlookup (cm_db cm) ch = Some r" and t: "ChannelType_Valid t"
    by (auto simp: SetChannelType_def split: if_splits option.splits)
  have ty: "ParseChannelType (row_type r) = Inr (row_type r)"
    using db_wfD(2) [OF cm_coreD(2) [OF core] r] by (rule ParseChannelType_valid)
  obtain x where x: "fmlookup (channels (cm_state cm)) ch = Some x" "persisted_view x = persisted_view (scan_row ch r)"
    using synced_at [OF cm_coreD(3) [OF core] r] by blast
  have wf: "db_wf (fmupd ch (r\<lparr>row_type := s\<rparr>) (cm_db cm))" if "ChannelType_Valid s" for s
    using that db_wfD(3) [OF cm_coreD(2) [OF core] r] db_wf_acyclic [OF cm_coreD(2) [OF core]]
      db_parents_same [OF r, of "r\<lparr>row_type := s\<rparr>"]
    by (intro db_wf_update [OF cm_coreD(2) [OF core] r]) simp_all
  have shift: "shift_set ch r (r\<lparr>row_type := s\<rparr>) \<subseteq> {ch}" for s by (simp add: shift_set_def)
  have done1: "cm_inv (reconcileCleanupWatcherLocked ch cm1)"
    if "cm_core cm1" "timers_ok_except (shift_set ch r (r\<lparr>row_type := s\<rparr>)) cm1" "gens_ok cm1" for cm1 s
    using that reconcile_ok [OF timers_ok_mono [OF that(2) shift], of ch] by (simp add: cm_inv_def gens_ok_steps)
  show ?thesis
  proof (cases "df_commit f = ExecOk")
    case True
    let ?cm1 = "cm\<lparr>cm_db := fmupd ch (r\<lparr>row_type := t\<rparr>) (cm_db cm),
      cm_state := fst (UpdateChannel ch (no_update\<lparr>u_ChannelType := Some t\<rparr>) (cm_state cm))\<rparr>"
    have "fst (SetChannelType f ch t cm) = reconcileCleanupWatcherLocked ch ?cm1"
      using False True t r ty x(1)
      by (simp add: SetChannelType_def Let_def mirrorChannelUpdate_def UpdateChannel_known split: if_splits)
    with done1 [OF patched_step [OF inv r x(1) view_type [OF x(2)] wf [OF t]]] show ?thesis by simp
  next
    case failed: False
    with single have ok: "\<not> df_load f ch" by blast
    define s where "s = (if df_commit f = ExecLost then row_type r else t)"
    have s: "ChannelType_Valid s" using t db_wfD(2) [OF cm_coreD(2) [OF core] r] by (simp add: s_def)
    obtain cm1 where cm1: "reconcilePersistedChannel f ch (cm\<lparr>cm_db := fmupd ch (r\<lparr>row_type := s\<rparr>) (cm_db cm)\<rparr>) =
        (cm1, Inr (scan_row ch (r\<lparr>row_type := s\<rparr>)))"
      and st: "cm_core cm1" "timers_ok_except (shift_set ch r (r\<lparr>row_type := s\<rparr>)) cm1" "gens_ok cm1"
      using reload_step [OF inv r ok wf [OF s]] by (metis channel_row.select_convs(7) channel_row.surjective channel_row.update_convs(5))
    have "(if df_commit f = ExecLost then cm else cm\<lparr>cm_db := fmupd ch (r\<lparr>row_type := t\<rparr>) (cm_db cm)\<rparr>) =
        cm\<lparr>cm_db := fmupd ch (r\<lparr>row_type := s\<rparr>) (cm_db cm)\<rparr>"
      using r by (simp add: s_def cm_db_same)
    with cm1 have "fst (SetChannelType f ch t cm) = reconcileCleanupWatcherLocked ch cm1"
      using False failed t r ty by (simp add: SetChannelType_def Let_def split: if_splits)
    with done1 [OF st] show ?thesis by simp
  qed
qed

lemma move_error_None: "move_error v = None \<longleftrightarrow> v = MoveOk"
  by (cases v) (simp_all add: move_error_def)

lemma patch_row_frame [simp]: "row_type (patch_row u r) = row_type r" "row_created (patch_row u r) = row_created r"
  by (simp_all add: patch_row_def)

lemma patch_row_parent:
  "row_parent (patch_row u r) = (case cu_ParentID u of None \<Rightarrow> row_parent r | Some v \<Rightarrow> if v = 0 then None else Some v)"
  by (simp add: patch_row_def)

text \<open>Past the cycle guard the written row keeps the table a forest.\<close>

lemma patch_row_wf:
  assumes wf: "db_wf db" and r: "fmlookup db ch = Some r"
    and guard: "\<And>p. cu_ParentID u = Some p \<Longrightarrow> validateMoveTx (db_parents db) lf fl ch p = MoveOk"
  shows "db_wf (fmupd ch (patch_row u r) db)"
proof (rule db_wf_update [OF wf r])
  show "ChannelType_Valid (row_type (patch_row u r))" using db_wfD(2) [OF wf r] by simp
  show "\<exists>q. fmlookup db p = Some q" if "row_parent (patch_row u r) = Some p" for p
  proof (cases "cu_ParentID u")
    case None
    with that db_wfD(3) [OF wf r] show ?thesis by (simp add: patch_row_parent)
  next
    case (Some v)
    with that have "v = p" "p \<noteq> 0" by (auto simp: patch_row_parent split: if_splits)
    with validateMoveTx_sound [OF db_wf_acyclic [OF wf] guard [OF Some]] show ?thesis by (auto simp: db_parents_def)
  qed
  show "acyclic (parent_rel ((db_parents db)(ch := Some (row_parent (patch_row u r)))))"
  proof (cases "cu_ParentID u")
    case None
    then show ?thesis using db_parents_same [OF r, of "patch_row u r"] db_wf_acyclic [OF wf] by (simp add: patch_row_parent)
  next
    case (Some v)
    with validateMoveTx_sound [OF db_wf_acyclic [OF wf] guard [OF Some]] show ?thesis by (simp add: patch_row_parent)
  qed
qed

lemma shift_patch:
  "shift_set ch r (patch_row u r) \<subseteq>
     (case cu_ParentID u of None \<Rightarrow> {} | Some p \<Rightarrow> if p = coalesce (row_parent r) 0 then {} else {coalesce (row_parent r) 0, p})"
  by (auto simp: shift_set_def patch_row_parent coalesce_def split: option.splits if_splits)

definition old_parent :: "channel_id \<Rightarrow> cm_update \<Rightarrow> cmgr \<Rightarrow> channel_id" where
  "old_parent ch u cm =
     (case cu_ParentID u of
        None \<Rightarrow> 0
      | Some _ \<Rightarrow> (case GetChannel ch (cm_state cm) of Some x \<Rightarrow> ch_ParentID x | None \<Rightarrow> 0))"

lemma cm_UpdateChannel_cases:
  obtains (unchanged) "fst (cm_UpdateChannel f ch u cm) = cm"
  | (stored) r where "fmlookup (cm_db cm) ch = Some r"
      "\<And>p. cu_ParentID u = Some p \<Longrightarrow> validateMoveTx (db_parents (cm_db cm)) (df_read f) (df_walk f) ch p = MoveOk"
      "cm_UpdateChannel f ch u cm =
        (let written = cm\<lparr>cm_db := fmupd ch (patch_row u r) (cm_db cm)\<rparr>
         in case df_commit f of
              ExecOk \<Rightarrow> update_committed f ch u (old_parent ch u cm) written
            | ExecLost \<Rightarrow> update_unsure f ch u (old_parent ch u cm) cm
            | ExecUnsure \<Rightarrow> update_unsure f ch u (old_parent ch u cm) written)"
proof -
  let ?g = "case cu_ParentID u of None \<Rightarrow> None
    | Some p \<Rightarrow> move_error (validateMoveTx (db_parents (cm_db cm)) (df_read f) (df_walk f) ch p)"
  show thesis
  proof (cases "\<not> update_checks u \<or> update_empty u \<or> df_begin f \<or> ?g \<noteq> None \<or> df_exec f \<or> df_rows f \<or> fmlookup (cm_db cm) ch = None")
    case True
    then have "fst (cm_UpdateChannel f ch u cm) = cm"
      unfolding cm_UpdateChannel_def Let_def by (cases ?g; cases "fmlookup (cm_db cm) ch") auto
    then show thesis by (rule unchanged)
  next
    case False
    then obtain r where r: "fmlookup (cm_db cm) ch = Some r" by auto
    have g: "?g = None" using False by blast
    then have "validateMoveTx (db_parents (cm_db cm)) (df_read f) (df_walk f) ch p = MoveOk"
      if "cu_ParentID u = Some p" for p
      using that by (simp add: move_error_None)
    moreover have "cm_UpdateChannel f ch u cm =
        (let written = cm\<lparr>cm_db := fmupd ch (patch_row u r) (cm_db cm)\<rparr>
         in case df_commit f of
              ExecOk \<Rightarrow> update_committed f ch u (old_parent ch u cm) written
            | ExecLost \<Rightarrow> update_unsure f ch u (old_parent ch u cm) cm
            | ExecUnsure \<Rightarrow> update_unsure f ch u (old_parent ch u cm) written)"
      using False r unfolding cm_UpdateChannel_def g old_parent_def by (simp add: Let_def)
    ultimately show thesis using r by (intro stored)
  qed
qed

lemma update_committed_inv:
  assumes inv: "cm_inv cm" and r: "fmlookup (cm_db cm) ch = Some r"
    and wf: "db_wf (fmupd ch (patch_row u r) (cm_db cm))"
  shows "cm_inv (fst (update_committed f ch u (old_parent ch u cm) (cm\<lparr>cm_db := fmupd ch (patch_row u r) (cm_db cm)\<rparr>)))"
proof -
  have core: "cm_core cm" using inv by (simp add: cm_inv_def)
  obtain x where x: "fmlookup (channels (cm_state cm)) ch = Some x" "persisted_view x = persisted_view (scan_row ch r)"
    using synced_at [OF cm_coreD(3) [OF core] r] by blast
  define cm1 where "cm1 = cm\<lparr>cm_db := fmupd ch (patch_row u r) (cm_db cm),
    cm_state := fst (UpdateChannel ch (mirror_update u) (cm_state cm))\<rparr>"
  have st: "cm_core cm1" "timers_ok_except (shift_set ch r (patch_row u r)) cm1" "gens_ok cm1"
    using patched_step [OF inv r x(1) view_patch [OF x(2)] wf] by (simp_all add: cm1_def)
  have mir: "mirrorChannelUpdate f ch (mirror_update u) (cm\<lparr>cm_db := fmupd ch (patch_row u r) (cm_db cm)\<rparr>) = (cm1, Inr False)"
    using x(1) by (simp add: mirrorChannelUpdate_def UpdateChannel_known cm1_def)
  show ?thesis
  proof (cases "cu_ParentID u")
    case None
    with timers_ok_mono [OF st(2) shift_patch] have "timers_ok_except {} cm1" by simp
    with None st mir show ?thesis by (simp add: update_committed_def cm_inv_def)
  next
    case (Some p)
    have old: "old_parent ch u cm = coalesce (row_parent r) 0"
      using Some x(1) synced_parent [OF cm_coreD(3) [OF core] r x(1)] by (simp add: old_parent_def GetChannel_def)
    let ?o = "coalesce (row_parent r) 0"
    have "timers_ok_except ((if p = ?o then {} else {?o, p}) - {0}) cm1"
      using timers_ok_mono [OF st(2) shift_patch] Some cm_coreD(1) [OF st(1)] zero_no_timer [OF inv]
      by (intro timers_ok_zero) (simp_all add: cm1_def)
    from reconcile_ok [OF this, of ?o] reconcile_ok [OF reconcile_ok [OF this, of ?o], of p] reconcile_ok [OF this, of p] this
    have "timers_ok_except {} (fst (update_committed f ch u ?o (cm\<lparr>cm_db := fmupd ch (patch_row u r) (cm_db cm)\<rparr>)))"
      using Some mir by (auto simp: update_committed_def Let_def elim!: timers_ok_mono)
    with Some st mir show ?thesis
      by (simp add: old update_committed_def cm_inv_def Let_def gens_ok_steps)
  qed
qed

lemma update_unsure_inv:
  assumes inv: "cm_inv cm" and r: "fmlookup (cm_db cm) ch = Some r" and ok: "\<not> df_load f ch"
    and r': "r' = r \<or> r' = patch_row u r" and wf: "db_wf (fmupd ch r' (cm_db cm))"
  shows "cm_inv (fst (update_unsure f ch u (old_parent ch u cm) (cm\<lparr>cm_db := fmupd ch r' (cm_db cm)\<rparr>)))"
proof -
  have core: "cm_core cm" using inv by (simp add: cm_inv_def)
  obtain x where x: "fmlookup (channels (cm_state cm)) ch = Some x"
    using synced_at [OF cm_coreD(3) [OF core] r] by blast
  have cr: "row_created r' = row_created r" using r' by auto
  obtain cm1 where cm1: "reconcilePersistedChannel f ch (cm\<lparr>cm_db := fmupd ch r' (cm_db cm)\<rparr>) = (cm1, Inr (scan_row ch r'))"
    and st: "cm_core cm1" "timers_ok_except (shift_set ch r r') cm1" "gens_ok cm1" and tm: "cm_timers cm1 = cm_timers cm"
    using reload_step [OF inv r ok wf cr] by blast
  let ?o = "coalesce (row_parent r) 0" and ?n = "coalesce (row_parent r') 0"
  have shift: "shift_set ch r r' \<subseteq> (if cu_ParentID u = None then {} else {?o, ?n})"
    using r' shift_patch [of ch r u] by (auto simp: shift_set_def patch_row_parent split: option.splits)
  show ?thesis
  proof (cases "cu_ParentID u")
    case None
    with timers_ok_mono [OF st(2) shift] have "cm_inv cm1" using st by (simp add: cm_inv_def)
    then show ?thesis using None cm1 by (simp add: update_unsure_def Let_def reconcile_inv)
  next
    case (Some p)
    have old: "old_parent ch u cm = ?o"
      using Some x synced_parent [OF cm_coreD(3) [OF core] r x] by (simp add: old_parent_def GetChannel_def)
    let ?ids = "mergeChannelIDs [[?o, p, ?n]]"
    have "timers_ok_except ({?o, ?n} - {0}) cm1"
      using timers_ok_mono [OF st(2) shift] Some cm_coreD(1) [OF st(1)] zero_no_timer [OF inv] tm
      by (intro timers_ok_zero) simp_all
    from fold_reconcile_ok [OF reconcile_ok [OF this, of ch], of ?ids]
    have t: "timers_ok_except ({?o, ?n} - {0} - {ch} - set ?ids) (fold reconcileCleanupWatcherLocked ?ids (reconcileCleanupWatcherLocked ch cm1))" .
    have pos: "0 \<le> coalesce (row_parent s) 0" if "db_wf db" "fmlookup db ch = Some s" for db s
    proof (cases "row_parent s")
      case (Some q)
      with db_wfD(3) [OF that Some] db_wfD(1) [OF that(1)] show ?thesis by (force simp: coalesce_def)
    qed (simp add: coalesce_def)
    have "{?o, ?n} - {0} - {ch} - set ?ids = {}"
      using pos [OF cm_coreD(2) [OF core] r] pos [OF wf, of r'] by (auto simp: set_mergeChannelIDs)
    with t have "timers_ok_except {} (fold reconcileCleanupWatcherLocked ?ids (reconcileCleanupWatcherLocked ch cm1))"
      by (simp only:)
    moreover have "ch_ParentID (scan_row ch r') = ?n" by (simp add: scan_row_def)
    ultimately show ?thesis
      using Some cm1 st old
      by (simp add: update_unsure_def Let_def cm_inv_def gens_ok_fold gens_ok_steps)
  qed
qed

lemma cm_UpdateChannel_inv:
  assumes inv: "cm_inv cm" and single: "df_commit f = ExecOk \<or> \<not> df_load f ch"
  shows "cm_inv (fst (cm_UpdateChannel f ch u cm))"
proof (cases rule: cm_UpdateChannel_cases [of f ch u cm])
  case unchanged
  with inv show ?thesis by simp
next
  case (stored r)
  have wf0: "db_wf (cm_db cm)" using inv by (simp add: cm_inv_def cm_core_def)
  have wf: "db_wf (fmupd ch (patch_row u r) (cm_db cm))" by (rule patch_row_wf [OF wf0 stored(1,2)])
  show ?thesis
  proof (cases "df_commit f")
    case ExecOk
    with stored(3) update_committed_inv [OF inv stored(1) wf] show ?thesis by simp
  next
    case ExecLost
    with single have "\<not> df_load f ch" by simp
    from update_unsure_inv [OF inv stored(1) this, of r u] wf0 stored(1) ExecLost stored(3)
    show ?thesis by (simp add: fmupd_lookup_same)
  next
    case ExecUnsure
    with single have "\<not> df_load f ch" by simp
    from update_unsure_inv [OF inv stored(1) this _ wf] ExecUnsure stored(3) show ?thesis by simp
  qed
qed

subsection \<open>Deleting a subtree\<close>

lemma set_db_edges: "set (db_edges db) = {(i, p). \<exists>r. fmlookup db i = Some r \<and> p = coalesce (row_parent r) i}"
  by (force simp: db_edges_def)

definition db_desc :: "(channel_id, channel_row) fmap \<Rightarrow> channel_id \<Rightarrow> channel_id set" where
  "db_desc db ch = {i. (i, ch) \<in> (parent_rel (db_parents db))\<^sup>*} \<inter> {i. \<exists>r. fmlookup db i = Some r}"

lemma child_rel_db:
  assumes "db_wf db"
  shows "child_rel (db_edges db) = (parent_rel (db_parents db))\<inverse> \<union> {(i, i) |i. \<exists>r. fmlookup db i = Some r \<and> row_parent r = None}"
proof -
  have "row_parent r = Some p \<Longrightarrow> fmlookup db i = Some r \<Longrightarrow> p \<noteq> 0" for i r p
    using db_wfD(3) [OF assms, of i r p] db_wfD(1) [OF assms, of p] by force
  then show ?thesis
    by (force simp: child_rel_def set_db_edges parent_rel_def db_parents_def coalesce_def split: option.splits)
qed

lemma set_db_subtree:
  assumes "db_wf db"
  shows "set (db_subtree db ch) = (if fmlookup db ch = None then {} else db_desc db ch)"
proof -
  have "(child_rel (db_edges db))\<^sup>* = ((parent_rel (db_parents db))\<inverse>)\<^sup>*"
    unfolding child_rel_db [OF assms]
    by (intro rtrancl_subset) auto
  then have "(ch, i) \<in> (child_rel (db_edges db))\<^sup>* \<longleftrightarrow> (i, ch) \<in> (parent_rel (db_parents db))\<^sup>*" for i
    by (simp add: rtrancl_converse)
  moreover have "fst ` set (db_edges db) = {i. \<exists>r. fmlookup db i = Some r}"
    by (force simp: set_db_edges)
  ultimately show ?thesis
    by (auto simp: db_subtree_def set_subtreeIDs db_desc_def split: option.split)
qed

lemma db_desc_closed:
  assumes "fmlookup db i = Some r" "row_parent r = Some p" "p \<in> db_desc db ch" "p \<noteq> 0"
  shows "i \<in> db_desc db ch"
proof -
  have "(i, p) \<in> parent_rel (db_parents db)" using assms by (simp add: parent_rel_def db_parents_def)
  with assms show ?thesis by (auto simp: db_desc_def intro: converse_rtrancl_into_rtrancl)
qed

lemma db_desc_parent:
  assumes "db_wf db" "i \<in> db_desc db ch" "i \<noteq> ch" "fmlookup db i = Some r"
  obtains p where "row_parent r = Some p" "p \<in> db_desc db ch"
proof -
  have "(i, ch) \<in> (parent_rel (db_parents db))\<^sup>*" using assms(2) by (simp add: db_desc_def)
  then obtain p where p: "(i, p) \<in> parent_rel (db_parents db)" "(p, ch) \<in> (parent_rel (db_parents db))\<^sup>*"
    using assms(3) by (blast elim: converse_rtranclE)
  then have "row_parent r = Some p" using assms(4) by (simp add: parent_rel_def db_parents_def)
  with p(2) db_wfD(3) [OF assms(1,4)] that show thesis by (simp add: db_desc_def)
qed

lemma db_delete_lookup:
  assumes "db_wf db" "fmlookup db ch \<noteq> None"
  shows "fmlookup (db_delete ch db) i = (if i \<in> db_desc db ch then None else fmlookup db i)"
  using set_db_subtree [OF assms(1), of ch] assms(2) by (simp add: db_delete_def)

lemma db_delete_wf:
  assumes wf: "db_wf db" and ch: "fmlookup db ch \<noteq> None"
  shows "db_wf (db_delete ch db)"
  unfolding db_wf_def
proof (intro conjI allI impI)
  fix i r
  assume "fmlookup (db_delete ch db) i = Some r"
  then have i: "fmlookup db i = Some r" "i \<notin> db_desc db ch"
    by (auto simp: db_delete_lookup [OF wf ch] split: if_splits)
  show "0 < i" "ChannelType_Valid (row_type r)" using db_wfD(1,2) [OF wf i(1)] .
  show "\<exists>q. fmlookup (db_delete ch db) p = Some q" if p: "row_parent r = Some p" for p
  proof -
    obtain q where q: "fmlookup db p = Some q" using db_wfD(3) [OF wf i(1) p] by blast
    have "p \<noteq> 0" using db_wfD(1) [OF wf q] by simp
    with db_desc_closed [OF i(1) p] i(2) q show ?thesis by (auto simp: db_delete_lookup [OF wf ch])
  qed
next
  have "parent_rel (db_parents (db_delete ch db)) \<subseteq> parent_rel (db_parents db)"
    by (auto simp: parent_rel_def db_parents_def db_delete_lookup [OF wf ch] split: if_splits)
  then show "acyclic (parent_rel (db_parents (db_delete ch db)))"
    by (rule acyclic_subset [OF db_wf_acyclic [OF wf]])
qed

lemma removeChannels_loop_channels:
  "fmlookup (channels (fst (removeChannels_loop chs m a r))) i = (if i \<in> set chs then None else fmlookup (channels m) i)"
  by (induction chs arbitrary: m a r) (auto simp: removeChannelLocked_fields)

lemma RemoveChannels_channels:
  "fmlookup (channels (fst (RemoveChannels chs m))) i = (if i \<in> set chs then None else fmlookup (channels m) i)"
  using removeChannels_loop_channels [of chs m "{||}" "{||}" i] by (simp add: RemoveChannels_def case_prod_beta)

text \<open>Two managers that differ at most in fields the cleanup condition and the table do not see.\<close>

definition same_view :: "cmgr \<Rightarrow> cmgr \<Rightarrow> bool" where
  "same_view cm cm' \<longleftrightarrow>
     cm_db cm' = cm_db cm \<and> cm_timers cm' = cm_timers cm \<and>
     cm_nextCleanupGeneration cm' = cm_nextCleanupGeneration cm \<and> cm_notified cm' = cm_notified cm \<and>
     abs (cm_state cm') = abs (cm_state cm) \<and> membership (cm_state cm') = membership (cm_state cm) \<and>
     subsByChannel (cm_state cm') = subsByChannel (cm_state cm)"

lemma same_view_trans: "same_view a b \<Longrightarrow> same_view b c \<Longrightarrow> same_view a c"
  by (simp add: same_view_def)

lemma same_view_inv:
  assumes "cm_core cm" "cm_core cm'" "same_view cm cm'" "timers_ok_except R cm" "gens_ok cm"
  shows "timers_ok_except R cm'" "gens_ok cm'"
proof -
  have due: "cleanup_due (cm_state cm') i = cleanup_due (cm_state cm) i" for i
    by (rule due_moved [where R = "{}", OF cm_coreD(1) [OF assms(1)] cm_coreD(1) [OF assms(2)] cm_coreD(3) [OF assms(1)]])
       (use cm_coreD(3) [OF assms(2)] assms(3) in \<open>simp_all add: same_view_def occupied_def\<close>)
  show "timers_ok_except R cm'"
    by (rule timers_ok_state [OF assms(4)]) (use assms(3) due in \<open>simp_all add: same_view_def\<close>)
  show "gens_ok cm'" using assms(3,5) by (simp add: gens_ok_def same_view_def)
qed

lemma mirror_same_view:
  assumes "cm_core cm" "fmlookup (cm_db cm) i = Some r"
  shows "cm_core (mirrorPersistedChannel (scan_row i r) cm)" "same_view cm (mirrorPersistedChannel (scan_row i r) cm)"
proof -
  obtain x where x: "fmlookup (channels (cm_state cm)) i = Some x" "persisted_view x = persisted_view (scan_row i r)"
    using synced_at [OF cm_coreD(3) [OF assms(1)] assms(2)] by blast
  let ?u = "persisted_update (scan_row i r)"
  have "synced (cm_db cm) (fst (UpdateChannel i ?u (cm_state cm)))"
    using cm_coreD(3) [OF assms(1)] assms(2) x view_reload [OF x(2) refl]
    by (simp add: synced_def UpdateChannel_known)
  with UpdateChannel_inv [OF cm_coreD(1) [OF assms(1)]] cm_coreD(2) [OF assms(1)]
  show "cm_core (mirrorPersistedChannel (scan_row i r) cm)"
    by (simp add: mirrorPersisted_known [OF x(1)] cm_core_def)
  show "same_view cm (mirrorPersistedChannel (scan_row i r) cm)"
    by (simp add: mirrorPersisted_known [OF x(1)] same_view_def abs_adding_ops) (simp add: UpdateChannel_known [OF x(1)])
qed

lemma state_only_loop_core:
  assumes "cm_core cm" "\<And>i. i \<in> set is \<Longrightarrow> \<exists>r. fmlookup (cm_db cm) i = Some r"
  shows "cm_core (fst (state_only_loop f dbIDs is cm missing tids)) \<and>
    same_view cm (fst (state_only_loop f dbIDs is cm missing tids)) \<and>
    (case snd (state_only_loop f dbIDs is cm missing tids) of
       Inl e \<Rightarrow> e \<noteq> CErrChannelNotFound | Inr p \<Rightarrow> fst p = missing)"
  using assms
proof (induction "is" arbitrary: cm missing tids)
  case Nil
  then show ?case by (simp add: same_view_def)
next
  case (Cons i "is")
  obtain r where r: "fmlookup (cm_db cm) i = Some r" using Cons.prems(2) [of i] by auto
  note mir = mirror_same_view [OF Cons.prems(1) r]
  have ty: "ParseChannelType (row_type r) = Inr (row_type r)"
    using db_wfD(2) [OF cm_coreD(2) [OF Cons.prems(1)] r] by (rule ParseChannelType_valid)
  show ?case
  proof (cases "i \<in> set dbIDs \<or> df_load f i")
    case True
    with Cons r show ?thesis by (auto simp: loadChannelState_def same_view_def)
  next
    case False
    have IH: "\<exists>q. fmlookup (cm_db (mirrorPersistedChannel (scan_row i r) cm)) j = Some q" if "j \<in> set is" for j
      using mir(2) Cons.prems(2) that by (simp add: same_view_def)
    from False r ty Cons.IH [OF mir(1) IH] same_view_trans [OF mir(2)] show ?thesis
      by (simp add: loadChannelState_def)
  qed
qed

lemma reconcileStateOnly_core:
  assumes "cm_core cm" "\<And>i. i \<in> set stateIDs \<Longrightarrow> \<exists>r. fmlookup (cm_db cm) i = Some r"
    and "timers_ok_except R cm" "gens_ok cm"
  obtains cm1 res where "reconcileStateOnlyDescendants f dbIDs stateIDs cm = (cm1, res)"
    "cm_core cm1" "timers_ok_except R cm1" "gens_ok cm1" "cm_db cm1 = cm_db cm" "cm_notified cm1 = cm_notified cm"
    "abs (cm_state cm1) = abs (cm_state cm)" "membership (cm_state cm1) = membership (cm_state cm)"
    "subsByChannel (cm_state cm1) = subsByChannel (cm_state cm)"
    "res = Inr [] \<or> (\<exists>e. res = Inl e \<and> e \<noteq> CErrChannelNotFound)"
proof -
  obtain cm0 p where lp: "state_only_loop f dbIDs stateIDs cm [] [] = (cm0, p)" by fastforce
  with state_only_loop_core [OF assms(1,2), of stateIDs f dbIDs "[]" "[]"]
  have c0: "cm_core cm0" "same_view cm cm0" and
    p: "case p of Inl e \<Rightarrow> e \<noteq> CErrChannelNotFound | Inr q \<Rightarrow> fst q = []" by auto
  note t0 = same_view_inv [OF assms(1) c0 assms(3,4)]
  show thesis
  proof (cases p)
    case (Inl e)
    with lp p c0 t0 show thesis
      by (intro that [of cm0 "Inl e"]) (simp_all add: reconcileStateOnlyDescendants_def same_view_def)
  next
    case (Inr q)
    then obtain tids where q: "p = Inr ([], tids)" using p by (cases q) auto
    let ?cm1 = "fold reconcileCleanupWatcherLocked (mergeChannelIDs [tids]) cm0"
    have "timers_ok_except R ?cm1"
      using fold_reconcile_ok [OF t0(1), of "mergeChannelIDs [tids]"] by (rule timers_ok_mono) auto
    with lp q c0 t0 show thesis
      by (intro that [of ?cm1 "Inr []"]) (simp_all add: reconcileStateOnlyDescendants_def same_view_def gens_ok_fold)
  qed
qed

lemma stateIDs_live:
  assumes "cm_core cm" "i \<in> set (stateChannelSubtreeIDs (cm_state cm) ch)"
  shows "\<exists>r. fmlookup (cm_db cm) i = Some r"
proof -
  have "i \<in> fst ` set (state_edges (cm_state cm))"
    using assms(2) by (simp add: stateChannelSubtreeIDs_def set_subtreeIDs)
  then obtain p t where "tree (cm_state cm) i = Some (p, t)"
    by (auto simp: set_state_edges [OF cm_coreD(1) [OF assms(1)]])
  then show ?thesis using tree_synced [OF cm_coreD(3) [OF assms(1)], of i] by auto
qed

text \<open>Removing the rows of a subtree and the same channels of the state.\<close>

lemma sorted_db_subtree: "sorted (db_subtree db ch)" "distinct (db_subtree db ch)"
  by (auto simp: db_subtree_def distinct_subtreeIDs split: option.split)

lemma merge_db_subtree:
  assumes "db_wf db" "fmlookup db ch \<noteq> None"
  shows "mergeChannelIDs [db_subtree db ch, []] = db_subtree db ch"
proof -
  have "filter (\<lambda>i. i > 0) (db_subtree db ch) = db_subtree db ch"
    using assms set_db_subtree [OF assms(1), of ch] db_wfD(1) [OF assms(1)]
    by (intro filter_True) (auto simp: db_desc_def)
  then show ?thesis
    using sorted_db_subtree [of db ch] by (simp add: mergeChannelIDs_def sorted_list_of_set.idem_if_sorted_distinct)
qed

lemma due_removed:
  assumes core: "cm_core cm" and ch: "fmlookup (cm_db cm) ch = Some r"
    and m: "m = fst (RemoveChannels ids (cm_state cm))" "mgr_inv m"
    and ids: "set ids = db_desc (cm_db cm) ch"
    and i: "i \<notin> set ids" "i \<noteq> coalesce (row_parent r) 0"
  shows "cleanup_due m i = cleanup_due (cm_state cm) i"
proof (rule due_cong [OF cm_coreD(1) [OF core] m(2)])
  note wf = cm_coreD(2) [OF core]
  have t: "tree m j = (if j \<in> set ids then None else tree (cm_state cm) j)" for j
    by (simp add: tree_def m(1) RemoveChannels_channels)
  show "map_option snd (tree m i) = map_option snd (tree (cm_state cm) i)" using i by (simp add: t)
  show "(i \<in> occupied m) = (i \<in> occupied (cm_state cm))"
    using abs_RemoveChannels [OF cm_coreD(1) [OF core], of ids] i
    by (fastforce simp: occupied_def ran_def m(1) split: option.splits if_splits)
  show "(map_option fst (tree m j) = Some i) = (map_option fst (tree (cm_state cm) j) = Some i)" for j
  proof (cases "j \<in> set ids")
    case True
    then obtain s where s: "fmlookup (cm_db cm) j = Some s" using ids by (auto simp: db_desc_def)
    have "coalesce (row_parent s) 0 \<noteq> i"
    proof (cases "j = ch")
      case True
      with s ch i show ?thesis by auto
    next
      case False
      obtain p where "row_parent s = Some p" "p \<in> db_desc (cm_db cm) ch"
        using db_desc_parent [OF wf _ False s] True ids by blast
      with i ids show ?thesis by (auto simp: coalesce_def)
    qed
    with s True show ?thesis by (simp add: t tree_synced [OF cm_coreD(3) [OF core]])
  qed (simp add: t)
qed

lemma delete_finish_step:
  assumes core: "cm_core cm" and ch: "fmlookup (cm_db cm) ch = Some r"
    and tm: "timers_ok_except R cm" "fmlookup (cm_timers cm) 0 = None" "gens_ok cm"
  defines "ids \<equiv> db_subtree (cm_db cm) ch"
  defines "res \<equiv> delete_finish ch ids (coalesce (row_parent r) 0) (cm\<lparr>cm_db := db_delete ch (cm_db cm)\<rparr>)"
  shows "cm_core (fst res)" "timers_ok_except (R - set ids) (fst res)" "gens_ok (fst res)"
    "cm_db (fst res) = db_delete ch (cm_db cm)" "cm_state (fst res) = fst (RemoveChannels ids (cm_state cm))"
    "snd res = \<lparr>dr_RootID = ch, dr_ChannelIDs = ids,
       dr_SubscriberIDs = rr_SubscriberIDs (snd (RemoveChannels ids (cm_state cm))),
       dr_Members = rr_Members (snd (RemoveChannels ids (cm_state cm)))\<rparr>"
    "cm_notified (fst res) = cm_notified cm"
proof -
  note wf = cm_coreD(2) [OF core]
  let ?m = "fst (RemoveChannels ids (cm_state cm))" and ?p = "coalesce (row_parent r) 0"
  define cm1 where "cm1 = fold cancelCleanupLocked ids (cm\<lparr>cm_db := db_delete ch (cm_db cm)\<rparr>)"
  define cm2 where "cm2 = cm1\<lparr>cm_state := ?m\<rparr>"
  have sids: "set ids = db_desc (cm_db cm) ch" using set_db_subtree [OF wf, of ch] ch by (simp add: ids_def)
  have res: "res = (if ?p \<noteq> 0 then reconcileCleanupWatcherLocked ?p cm2 else cm2,
      \<lparr>dr_RootID = ch, dr_ChannelIDs = ids, dr_SubscriberIDs = rr_SubscriberIDs (snd (RemoveChannels ids (cm_state cm))),
       dr_Members = rr_Members (snd (RemoveChannels ids (cm_state cm)))\<rparr>)"
    by (simp add: res_def delete_finish_def Let_def cm2_def cm1_def case_prod_beta)
  have m: "mgr_inv ?m" by (rule RemoveChannels_inv [OF cm_coreD(1) [OF core]])
  have "synced (db_delete ch (cm_db cm)) ?m"
    using cm_coreD(3) [OF core] ch sids
    by (simp add: synced_def RemoveChannels_channels db_delete_lookup [OF wf])
  then have core2: "cm_core cm2" using m db_delete_wf [OF wf, of ch] ch by (simp add: cm_core_def cm2_def cm1_def)
  have t2: "timers_ok_except ((R - set ids) \<union> {?p}) cm2"
    unfolding timers_ok_except_def
  proof (intro allI impI)
    fix i
    assume i: "i \<notin> R - set ids \<union> {?p}"
    show "(\<exists>g. fmlookup (cm_timers cm2) i = Some g) = cleanup_due (cm_state cm2) i"
    proof (cases "i \<in> set ids")
      case True
      then have "GetChannel i ?m = None" by (simp add: GetChannel_def RemoveChannels_channels)
      with True show ?thesis by (simp add: cm2_def cm1_def cleanup_due_def)
    next
      case False
      with i tm(1) due_removed [OF core ch refl m sids False] show ?thesis
        by (simp add: cm2_def cm1_def timers_ok_except_def)
    qed
  qed
  have g2: "gens_ok cm2"
  proof -
    have "gens_ok (cm\<lparr>cm_db := db_delete ch (cm_db cm)\<rparr>)" using tm(3) by (simp add: gens_ok_def)
    then have "gens_ok cm1" unfolding cm1_def by (rule gens_ok_fold)
    then show ?thesis by (simp add: cm2_def gens_ok_def)
  qed
  show "cm_core (fst res)" using core2 by (simp add: res)
  show "gens_ok (fst res)" using g2 by (simp add: res gens_ok_steps)
  show "timers_ok_except (R - set ids) (fst res)"
  proof (cases "?p = 0")
    case True
    have "timers_ok_except (R - set ids \<union> {?p} - {0}) cm2"
      using core2 tm(2) t2 by (intro timers_ok_zero) (simp_all add: cm_core_def cm2_def cm1_def)
    then show ?thesis using True by (simp add: res) (erule timers_ok_mono, auto)
  next
    case False
    from reconcile_ok [OF t2, of ?p] show ?thesis
      using False by (simp add: res) (erule timers_ok_mono, auto)
  qed
  show "cm_db (fst res) = db_delete ch (cm_db cm)" "cm_state (fst res) = ?m" "cm_notified (fst res) = cm_notified cm"
    by (simp_all add: res cm2_def cm1_def)
  show "snd res = \<lparr>dr_RootID = ch, dr_ChannelIDs = ids,
       dr_SubscriberIDs = rr_SubscriberIDs (snd (RemoveChannels ids (cm_state cm))),
       dr_Members = rr_Members (snd (RemoveChannels ids (cm_state cm)))\<rparr>"
    by (simp add: res)
qed

text \<open>
  Faults of a delete that leave table and state apart: a lost answer followed by a failed
  confirmation, and a failing row count after the statement was executed.
\<close>

definition delete_faults_ok :: "db_faults \<Rightarrow> bool" where
  "delete_faults_ok f \<longleftrightarrow>
     \<not> (df_delete f = ExecUnsure \<and> df_confirm f) \<and> \<not> (df_delete f = ExecOk \<and> df_rows f)"

lemma delete_exec_cases:
  assumes "cm_core cm" "fmlookup (cm_db cm) ch \<noteq> None" "delete_faults_ok f"
  obtains (kept) e where "delete_exec f ch cm = (cm, Some e)" "e \<noteq> CErrChannelNotFound"
  | (gone) "delete_exec f ch cm = (cm\<lparr>cm_db := db_delete ch (cm_db cm)\<rparr>, None)"
proof -
  have here: "db_subtree (cm_db cm) ch \<noteq> []"
    using set_db_subtree [OF cm_coreD(2) [OF assms(1)], of ch] assms(2) by (force simp: db_desc_def)
  have none: "db_subtree (db_delete ch (cm_db cm)) ch = []"
    using assms(2) db_delete_lookup [OF cm_coreD(2) [OF assms(1)], of ch ch]
    by (force simp: db_subtree_def db_desc_def)
  show thesis
  proof (cases "df_delete f")
    case ExecOk
    with assms(3) show thesis using gone by (simp add: delete_exec_def delete_faults_ok_def)
  next
    case ExecLost
    with here show thesis
      using kept by (cases "df_confirm f") (simp_all add: delete_exec_def loadChannelSubtree_def)
  next
    case ExecUnsure
    with assms(3) none show thesis using gone by (simp add: delete_exec_def delete_faults_ok_def loadChannelSubtree_def)
  qed
qed

text \<open>The effect of a subtree deletion when table and state agree beforehand.\<close>

definition subtree_gone :: "channel_id \<Rightarrow> cmgr \<Rightarrow> cmgr \<Rightarrow> delete_result \<Rightarrow> bool" where
  "subtree_gone ch cm cm' res \<longleftrightarrow>
     (\<forall>i. fmlookup (cm_db cm') i = (if i \<in> db_desc (cm_db cm) ch then None else fmlookup (cm_db cm) i)) \<and>
     abs (cm_state cm') = abs_step (OpRemoveChannels (db_subtree (cm_db cm) ch)) (abs (cm_state cm)) \<and>
     dr_RootID res = ch \<and> dr_ChannelIDs res = db_subtree (cm_db cm) ch \<and>
     set (map (\<lambda>r. (rm_ChannelID r, rm_ClientID r)) (dr_Members res)) =
       {(i, cid). i \<in> db_desc (cm_db cm) ch \<and> cid |\<in>| fmset_get (membership (cm_state cm)) i} \<and>
     set (dr_SubscriberIDs res) =
       {cid. \<exists>i. i \<in> db_desc (cm_db cm) ch \<and> cid |\<in>| fmset_get (subsByChannel (cm_state cm)) i}"

lemma RemoveChannels_reported:
  "set (map (\<lambda>r. (rm_ChannelID r, rm_ClientID r)) (rr_Members (snd (RemoveChannels chs m)))) =
     {(ch, cid). ch \<in> set chs \<and> cid |\<in>| fmset_get (membership m) ch}"
  "set (rr_SubscriberIDs (snd (RemoveChannels chs m))) =
     {cid. \<exists>ch. ch \<in> set chs \<and> cid |\<in>| fmset_get (subsByChannel m) ch}"
  using removeChannels_loop_collects [of chs m "{||}" "{||}"]
  by (auto simp: RemoveChannels_def case_prod_beta image_iff)

lemma deleteChannelLocked_spec:
  assumes core: "cm_core cm" and tm: "timers_ok_except R cm" "fmlookup (cm_timers cm) 0 = None" "0 \<notin> R" "gens_ok cm"
    and ok: "delete_faults_ok f"
  obtains (fail) cm' e where "deleteChannelLocked f ch cm = (cm', Inl e)" "cm_core cm'" "timers_ok_except R cm'" "gens_ok cm'"
      "cm_db cm' = cm_db cm" "abs (cm_state cm') = abs (cm_state cm)" "cm_notified cm' = cm_notified cm"
      "e = CErrChannelNotFound \<Longrightarrow> fmlookup (cm_db cm) ch = None"
  | (removed) cm' res where "deleteChannelLocked f ch cm = (cm', Inr res)" "cm_core cm'"
      "timers_ok_except (R - db_desc (cm_db cm) ch) cm'" "gens_ok cm'" "fmlookup (cm_db cm) ch \<noteq> None"
      "subtree_gone ch cm cm' res" "cm_notified cm' = cm_notified cm"
proof -
  note wf = cm_coreD(2) [OF core]
  let ?db = "cm_db cm" and ?ids = "db_subtree (cm_db cm) ch" and ?sids = "stateChannelSubtreeIDs (cm_state cm) ch"
  let ?p = "case fmlookup ?db ch of None \<Rightarrow> 0 | Some r \<Rightarrow> coalesce (row_parent r) 0"
  obtain cm1 res1 where rs: "reconcileStateOnlyDescendants f ?ids ?sids cm = (cm1, res1)"
    and c1: "cm_core cm1" "timers_ok_except R cm1" "gens_ok cm1" "cm_db cm1 = ?db" "cm_notified cm1 = cm_notified cm"
      "abs (cm_state cm1) = abs (cm_state cm)" "membership (cm_state cm1) = membership (cm_state cm)"
      "subsByChannel (cm_state cm1) = subsByChannel (cm_state cm)"
    and res1: "res1 = Inr [] \<or> (\<exists>e. res1 = Inl e \<and> e \<noteq> CErrChannelNotFound)"
    by (rule reconcileStateOnly_core [OF core stateIDs_live [OF core, of _ ch] tm(1,4), of ?sids f ?ids])
  show thesis
  proof (cases "df_subtree f \<or> (?ids = [] \<and> ?sids = [])")
    case True
    then have "deleteChannelLocked f ch cm = (cm, Inl (if df_subtree f then CErrDatabase else CErrChannelNotFound))"
      by (auto simp: deleteChannelLocked_def loadChannelSubtree_def Let_def)
    moreover have "?ids = [] \<Longrightarrow> fmlookup ?db ch = None"
      using set_db_subtree [OF wf, of ch] by (force simp: db_desc_def split: if_splits)
    ultimately show thesis using fail core tm True by (auto split: if_splits)
  next
    case False
    show thesis
    proof (cases "fmlookup ?db ch")
      case None
      then have ids: "?ids = []" by (simp add: db_subtree_def)
      have "deleteChannelLocked f ch cm = (cm1, Inl (case res1 of Inl e \<Rightarrow> e | Inr _ \<Rightarrow> CErrChannelNotFound))"
        using False ids rs res1 by (auto simp: deleteChannelLocked_def loadChannelSubtree_def Let_def)
      with fail c1 None show thesis by metis
    next
      case (Some r)
      have ids: "?ids \<noteq> []" using set_db_subtree [OF wf, of ch] Some by (force simp: db_desc_def)
      show thesis
      proof (cases "\<exists>e. res1 = Inl e")
        case True
        then obtain e where "res1 = Inl e" "e \<noteq> CErrChannelNotFound" using res1 by auto
        then have "deleteChannelLocked f ch cm = (cm1, Inl e)"
          using False rs by (simp add: deleteChannelLocked_def loadChannelSubtree_def Let_def)
        with fail c1 \<open>e \<noteq> CErrChannelNotFound\<close> show thesis by blast
      next
        case False2: False
        then have "res1 = Inr []" using res1 by auto
        then have eq: "deleteChannelLocked f ch cm =
            (case delete_exec f ch cm1 of
               (cm2, Some e) \<Rightarrow> (cm2, Inl e)
             | (cm2, None) \<Rightarrow> (case delete_finish ch ?ids (coalesce (row_parent r) 0) cm2 of (cm3, result) \<Rightarrow> (cm3, Inr result)))"
          using False rs ids Some merge_db_subtree [OF wf, of ch]
          by (simp add: deleteChannelLocked_def loadChannelSubtree_def Let_def)
        have here: "fmlookup (cm_db cm1) ch \<noteq> None" using Some c1(4) by simp
        show thesis
        proof (cases rule: delete_exec_cases [OF c1(1) here ok])
          case (1 e)
          with eq have "deleteChannelLocked f ch cm = (cm1, Inl e)" by simp
          with fail c1 1(2) show thesis by blast
        next
          case 2
          have "fmlookup (cm_timers cm1) 0 = None"
            using c1(1,2) tm(3) zero_not_due [of "cm_state cm1"] by (auto simp: timers_ok_except_def cm_core_def)
          note fin = delete_finish_step [OF c1(1) _ c1(2) this c1(3), of ch r, unfolded c1(4), OF Some]
          obtain cm3 res where df: "delete_finish ch ?ids (coalesce (row_parent r) 0) (cm1\<lparr>cm_db := db_delete ch ?db\<rparr>) = (cm3, res)"
            by fastforce
          have "deleteChannelLocked f ch cm = (cm3, Inr res)" using eq 2 df c1(4) by simp
          moreover have "subtree_gone ch cm cm3 res"
            unfolding subtree_gone_def
            using fin(4-6) df db_delete_lookup [OF wf, of ch] Some abs_RemoveChannels [OF cm_coreD(1) [OF c1(1)], of ?ids] c1(6)
              RemoveChannels_reported [of ?ids "cm_state cm1"] set_db_subtree [OF wf, of ch] c1(7,8)
            by (simp del: abs_step.simps)
          ultimately show thesis
            using removed fin(1-3,7) df Some set_db_subtree [OF wf, of ch] c1(5) by simp
        qed
      qed
    qed
  qed
qed

lemma DeleteChannelSubtree_inv:
  assumes inv: "cm_inv cm" and ok: "delete_faults_ok f"
  shows "cm_inv (fst (DeleteChannelSubtree f ch cm))"
proof -
  have c: "cm_core cm" "timers_ok_except {} cm" "gens_ok cm" using inv by (simp_all add: cm_inv_def)
  show ?thesis
    by (rule deleteChannelLocked_spec [OF c(1,2) zero_no_timer [OF inv] _ c(3) ok, of ch])
       (simp_all add: DeleteChannelSubtree_def cm_inv_def)
qed

subsection \<open>The cleanup callback\<close>

lemma due_desc:
  assumes "cm_core cm" "cleanup_due (cm_state cm) ch"
  shows "db_desc (cm_db cm) ch = {ch}" "fmlookup (cm_db cm) ch \<noteq> None"
proof -
  note t = tree_synced [OF cm_coreD(3) [OF assms(1)]]
  from assms(2) obtain p where "tree (cm_state cm) ch = Some (p, ChannelTypeTemporary)"
    and leaf: "\<And>i t. tree (cm_state cm) i = Some (ch, t) \<Longrightarrow> i = ch"
    by (auto simp: cleanup_due_iff [OF cm_coreD(1) [OF assms(1)]])
  then show here: "fmlookup (cm_db cm) ch \<noteq> None" using t [of ch] by auto
  show "db_desc (cm_db cm) ch = {ch}"
  proof (intro equalityI subsetI)
    fix i assume "i \<in> db_desc (cm_db cm) ch"
    then have "(i, ch) \<in> (parent_rel (db_parents (cm_db cm)))\<^sup>*" by (simp add: db_desc_def)
    then show "i \<in> {ch}"
    proof (induction rule: converse_rtrancl_induct)
      case base
      show ?case by simp
    next
      case (step y z)
      then have "map_option fst (tree (cm_state cm) y) = Some ch"
        by (auto simp: t parent_rel_def db_parents_def coalesce_def)
      with leaf show ?case by auto
    qed
  next
    fix i assume "i \<in> {ch}"
    with here show "i \<in> db_desc (cm_db cm) ch" by (auto simp: db_desc_def)
  qed
qed

lemma cleanupCallback_cases:
  assumes inv: "cm_inv cm" and ok: "delete_faults_ok f"
  obtains (stale) "cleanupCallback f ch g cm = cm" "fmlookup (cm_timers cm) ch \<noteq> Some g"
  | (kept) cm' where "cleanupCallback f ch g cm = cm'" "cm_inv cm'" "cleanup_due (cm_state cm) ch"
      "cm_db cm' = cm_db cm" "abs (cm_state cm') = abs (cm_state cm)" "cm_notified cm' = cm_notified cm"
      "\<exists>g'. fmlookup (cm_timers cm') ch = Some g'"
  | (cleaned) cm' res where "cleanupCallback f ch g cm = cm'" "cm_inv cm'" "cleanup_due (cm_state cm) ch"
      "fmlookup (cm_timers cm) ch = Some g" "subtree_gone ch cm cm' res" "db_desc (cm_db cm) ch = {ch}"
      "cm_notified cm' = cm_notified cm @ [res]"
proof (cases "fmlookup (cm_timers cm) ch = Some g")
  case False
  then show thesis using stale by (simp add: cleanupCallback_def)
next
  case True
  define cm1 where "cm1 = cm\<lparr>cm_timers := fmdrop ch (cm_timers cm)\<rparr>"
  have due: "cleanup_due (cm_state cm) ch" using inv True by (auto simp: cm_inv_def timers_ok_except_def)
  have c1: "cm_core cm1" "timers_ok_except {ch} cm1" "gens_ok cm1" "fmlookup (cm_timers cm1) 0 = None"
    using inv zero_no_timer [OF inv] by (auto simp: cm1_def cm_inv_def cm_core_def timers_ok_except_def gens_ok_def)
  have ch: "ch \<noteq> 0" using due zero_not_due [of "cm_state cm"] inv by (auto simp: cm_inv_def cm_core_def)
  note one = due_desc [of cm, OF _ due]
  have core: "cm_core cm" using inv by (simp add: cm_inv_def)
  have eq: "cleanupCallback f ch g cm =
      (case deleteChannelLocked f ch cm1 of
         (cm2, Inl e) \<Rightarrow> if e = CErrChannelNotFound then cm2 else reconcileCleanupWatcherLocked ch cm2
       | (cm2, Inr result) \<Rightarrow>
           if dr_RootID result = 0 then cm2 else cm2\<lparr>cm_notified := cm_notified cm2 @ [result]\<rparr>)"
    using True due by (simp add: cleanupCallback_def cm1_def)
  have same: "cm_db cm1 = cm_db cm" "cm_state cm1 = cm_state cm" "cm_notified cm1 = cm_notified cm"
    by (simp_all add: cm1_def)
  show thesis
  proof (cases rule: deleteChannelLocked_spec [OF c1(1,2,4) _ c1(3) ok, of ch, case_names zero fail removed])
    case zero
    with ch show ?case by simp
  next
    case (fail cm2 e)
    have ne: "e \<noteq> CErrChannelNotFound" using fail(8) one(2) [OF core] same by auto
    let ?cm' = "reconcileCleanupWatcherLocked ch cm2"
    have "cm_inv ?cm'" using fail reconcile_ok [OF fail(3), of ch] by (simp add: cm_inv_def gens_ok_steps)
    moreover have "cleanup_due (cm_state cm2) ch"
      using due due_moved [where R = "{}", OF cm_coreD(1) [OF core] cm_coreD(1) [OF fail(2)] cm_coreD(3) [OF core], of ch]
        cm_coreD(3) [OF fail(2)] fail(5,6) same by (simp add: occupied_def)
    then have "\<exists>g'. fmlookup (cm_timers ?cm') ch = Some g'" by (simp add: reconcile_timers)
    ultimately show thesis using kept [of ?cm'] fail ne eq same due by simp
  next
    case (removed cm2 res)
    let ?cm' = "cm2\<lparr>cm_notified := cm_notified cm2 @ [res]\<rparr>"
    have root: "dr_RootID res = ch" using removed(6) by (simp add: subtree_gone_def)
    have "cm_inv ?cm'"
      using removed one(1) [OF core] same by (simp add: cm_inv_def cm_core_def timers_ok_except_def gens_ok_def)
    moreover have "subtree_gone ch cm ?cm' res" using removed(6) same by (simp add: subtree_gone_def)
    ultimately show thesis
      using cleaned [of ?cm' res] removed ch eq same due one(1) [OF core] True root by simp
  qed
qed

lemma cleanupCallback_inv: "cm_inv cm \<Longrightarrow> delete_faults_ok f \<Longrightarrow> cm_inv (cleanupCallback f ch g cm)"
  by (rule cleanupCallback_cases [of cm f ch g]) simp_all

subsection \<open>Runs of the channel manager\<close>

datatype cm_op =
    CmConnect client
  | CmCreate create_env channel_spec
  | CmDelete db_faults channel_id
  | CmSetType db_faults channel_id int
  | CmUpdate db_faults channel_id cm_update
  | CmMove client_id channel_id
  | CmLeave client_id
  | CmRemove client_id
  | CmClientLeft channel_id
  | CmSetDelay int
  | CmFire db_faults channel_id nat

fun cm_step :: "cm_op \<Rightarrow> cmgr \<Rightarrow> cmgr" where
  "cm_step (CmConnect c) cm = cm\<lparr>cm_state := AddClient (Some c) (cm_state cm)\<rparr>"
| "cm_step (CmCreate e s) cm = fst (CreateChannel e s cm)"
| "cm_step (CmDelete f ch) cm = fst (DeleteChannelSubtree f ch cm)"
| "cm_step (CmSetType f ch t) cm = fst (SetChannelType f ch t cm)"
| "cm_step (CmUpdate f ch u) cm = fst (cm_UpdateChannel f ch u cm)"
| "cm_step (CmMove cid ch) cm = fst (cm_MoveClient cid ch cm)"
| "cm_step (CmLeave cid) cm = fst (LeaveClient cid cm)"
| "cm_step (CmRemove cid) cm = fst (cm_RemoveClient cid cm)"
| "cm_step (CmClientLeft ch) cm = OnClientLeftChannel ch cm"
| "cm_step (CmSetDelay d) cm = SetCleanupDelay d cm"
| "cm_step (CmFire f ch g) cm = cleanupCallback f ch g cm"

text \<open>
  What is asked of the environment: the id sequence of the table returns positive unused ids, a
  failed commit is followed by a reload that works, and a delete has no faults that leave table and
  state apart (\<open>delete_faults_ok\<close>).
\<close>

fun cm_op_ok :: "cm_op \<Rightarrow> cmgr \<Rightarrow> bool" where
  "cm_op_ok (CmConnect c) cm \<longleftrightarrow> mgr_op_ok (OpAddClient c) (cm_state cm)"
| "cm_op_ok (CmCreate e s) cm \<longleftrightarrow> (case ce_insert e of None \<Rightarrow> True | Some (i, _) \<Rightarrow> 0 < i \<and> fmlookup (cm_db cm) i = None)"
| "cm_op_ok (CmDelete f ch) cm \<longleftrightarrow> delete_faults_ok f"
| "cm_op_ok (CmSetType f ch t) cm \<longleftrightarrow> df_commit f = ExecOk \<or> \<not> df_load f ch"
| "cm_op_ok (CmUpdate f ch u) cm \<longleftrightarrow> df_commit f = ExecOk \<or> \<not> df_load f ch"
| "cm_op_ok (CmFire f ch g) cm \<longleftrightarrow> delete_faults_ok f"
| "cm_op_ok _ cm \<longleftrightarrow> True"

lemma SetCleanupDelay_inv: "cm_inv (SetCleanupDelay d cm) = cm_inv cm"
  by (simp add: SetCleanupDelay_def cm_inv_def cm_core_def timers_ok_except_def gens_ok_def)

lemma cm_New_inv: "db_wf fmempty \<and> cm_inv (cm_New fmempty state_New)"
  by (simp add: cm_inv_def cm_core_def cm_New_def state_New_inv db_wf_def synced_def timers_ok_except_def gens_ok_def
      parent_rel_def db_parents_def cleanup_due_def GetChannel_def acyclic_def) (simp add: state_New_def)

interpretation chan: invariant_system cm_step cm_op_ok cm_inv "cm_New fmempty state_New"
proof
  show "cm_inv (cm_New fmempty state_New)" using cm_New_inv by simp
  show "cm_inv (cm_step p cm)" if "cm_inv cm" "cm_op_ok p cm" for p cm
    using that
    by (cases p) (simp_all add: AddClient_cm_inv CreateChannel_inv DeleteChannelSubtree_inv SetChannelType_inv
        cm_UpdateChannel_inv cm_MoveClient_inv LeaveClient_inv cm_RemoveClient_inv reconcile_inv OnClientLeftChannel_def
        SetCleanupDelay_inv cleanupCallback_inv)
qed

subsection \<open>Loading the table at startup\<close>

lemma load_rows_ok:
  assumes "mgr_inv (cm_state cm)" "distinct (map fst rows)"
    and "\<And>i r. (i, r) \<in> set rows \<Longrightarrow> 0 < i \<and> ChannelType_Valid (row_type r) \<and> fmlookup (channels (cm_state cm)) i = None"
    and "\<And>n. \<not> fails n"
  shows "\<exists>m. load_rows fails rows n temps cm =
      (cm\<lparr>cm_state := m\<rparr>, n + length rows,
       Inr (temps @ map fst (filter (\<lambda>(i, r). row_type r = ChannelTypeTemporary) rows))) \<and>
    mgr_inv m \<and> a_where (abs m) = a_where (abs (cm_state cm)) \<and>
    (\<forall>i. fmlookup (channels m) i =
      (case map_of rows i of Some r \<Rightarrow> Some (scan_row i r) | None \<Rightarrow> fmlookup (channels (cm_state cm)) i))"
  using assms
proof (induction rows arbitrary: n temps cm)
  case Nil
  then show ?case by (intro exI [of _ "cm_state cm"]) simp
next
  case (Cons p rows)
  obtain i r where p: "p = (i, r)" by fastforce
  let ?x = "scan_row i r" and ?cm = "cm\<lparr>cm_state := AddChannel (Some (scan_row i r)) (cm_state cm)\<rparr>"
  have i: "0 < i" "ChannelType_Valid (row_type r)" "fmlookup (channels (cm_state cm)) i = None"
    using Cons.prems(3) [of i r] by (simp_all add: p)
  have m1: "mgr_inv (cm_state ?cm)"
    using AddChannel_inv [OF Cons.prems(1), of ?x] i by (simp add: scan_row_def)
  have fresh: "0 < j \<and> ChannelType_Valid (row_type q) \<and> fmlookup (channels (cm_state ?cm)) j = None"
    if "(j, q) \<in> set rows" for j q
  proof -
    have "j \<noteq> i" using Cons.prems(2) that by (force simp: p)
    with Cons.prems(3) [of j q] that show ?thesis by (simp add: AddChannel_def scan_row_def)
  qed
  have "a_where (abs (cm_state ?cm)) = a_where (abs (cm_state cm))" using abs_adding_ops(2) by simp
  moreover have "map_of rows i = None" using Cons.prems(2) by (auto simp: p map_of_eq_None_iff)
  ultimately show ?case
    using Cons.IH [of ?cm "n + 1" "if row_type r = ChannelTypeTemporary then temps @ [i] else temps", OF m1 _ fresh Cons.prems(4)]
      Cons.prems(2,4) i ParseChannelType_valid [OF i(2)]
    by (auto simp: p AddChannel_def scan_row_def split: option.split)
qed

lemma LoadIntoState_inv:
  assumes "db_wf db" "\<And>n. \<not> fails n"
  shows "cm_inv (fst (LoadIntoState False fails (cm_New db state_New)))"
    "snd (snd (LoadIntoState False fails (cm_New db state_New))) = None"
proof -
  let ?cm = "cm_New db state_New" and ?rows = "map (\<lambda>i. (i, the (fmlookup db i))) (fm_ids db)"
  have rows: "map_of ?rows i = fmlookup db i" for i
    by (cases "fmlookup db i") (auto simp: map_of_eq_None_iff map_of_map_restrict restrict_map_def o_def)
  have dist: "distinct (map fst ?rows)" by (simp add: comp_def fm_ids_def sorted_list_of_fset.rep_eq)
  have wfr: "0 < i \<and> ChannelType_Valid (row_type r) \<and> fmlookup (channels (cm_state ?cm)) i = None"
    if "(i, r) \<in> set ?rows" for i r
    using that db_wfD(1,2) [OF assms(1)] by (auto simp: cm_New_def state_New_def)
  let ?temps = "map fst (filter (\<lambda>(i, r). row_type r = ChannelTypeTemporary) ?rows)"
  have s0: "mgr_inv (cm_state ?cm)" by (simp add: cm_New_def state_New_inv)
  obtain m where m: "load_rows fails ?rows 0 [] ?cm = (?cm\<lparr>cm_state := m\<rparr>, 0 + length ?rows, Inr ([] @ ?temps))"
    "mgr_inv m" "a_where (abs m) = a_where (abs (cm_state ?cm))"
    "\<And>i. fmlookup (channels m) i =
      (case map_of ?rows i of Some r \<Rightarrow> Some (scan_row i r) | None \<Rightarrow> fmlookup (channels (cm_state ?cm)) i)"
    using load_rows_ok [where fails = fails and n = 0 and temps = "[]", OF _ dist wfr assms(2)] s0 by blast
  define cm1 where "cm1 = ?cm\<lparr>cm_state := m\<rparr>"
  have sync: "synced db m"
    by (auto simp: synced_def m(4) rows cm_New_def state_New_def split: option.split)
  have core: "cm_core cm1" using m(2) sync assms(1) by (simp add: cm1_def cm_core_def cm_New_def)
  have g1: "gens_ok cm1" by (simp add: gens_ok_def cm1_def cm_New_def)
  have "timers_ok_except (set ?temps) cm1"
    unfolding timers_ok_except_def
  proof (intro allI impI)
    fix ch assume ch: "ch \<notin> set ?temps"
    have "\<not> cleanup_due m ch"
    proof
      assume "cleanup_due m ch"
      then obtain r where "fmlookup db ch = Some r" "row_type r = ChannelTypeTemporary"
        by (auto simp: cleanup_due_iff [OF m(2)] tree_synced [OF sync])
      then have "(ch, r) \<in> set (filter (\<lambda>(i, r). row_type r = ChannelTypeTemporary) ?rows)" by force
      then have "ch \<in> set ?temps" by (force simp only: set_map image_iff fst_conv)
      with ch show False by blast
    qed
    then show "(\<exists>g. fmlookup (cm_timers cm1) ch = Some g) = cleanup_due (cm_state cm1) ch"
      by (simp add: cm1_def cm_New_def)
  qed
  from fold_reconcile_ok [OF this, of ?temps] have "cm_inv (fold reconcileCleanupWatcherLocked ?temps cm1)"
    using core gens_ok_fold(1) [OF g1] by (simp add: cm_inv_def)
  moreover have "LoadIntoState False fails ?cm = (fold reconcileCleanupWatcherLocked ?temps cm1, length ?rows, None)"
    using m(1) by (simp add: LoadIntoState_def cm1_def) (simp add: cm_New_def)
  ultimately show "cm_inv (fst (LoadIntoState False fails ?cm))" "snd (snd (LoadIntoState False fails ?cm)) = None" by simp_all
qed

text \<open>Against a working database nothing stops a deletion.\<close>

lemma state_only_no_faults:
  assumes "cm_core cm" "\<And>i. i \<in> set is \<Longrightarrow> \<exists>r. fmlookup (cm_db cm) i = Some r"
  shows "\<exists>p. snd (state_only_loop no_faults dbIDs is cm missing tids) = Inr p"
  using assms
proof (induction "is" arbitrary: cm missing tids)
  case Nil
  then show ?case by simp
next
  case (Cons i "is")
  obtain r where r: "fmlookup (cm_db cm) i = Some r" using Cons.prems(2) [of i] by auto
  note mir = mirror_same_view [OF Cons.prems(1) r]
  have ty: "ParseChannelType (row_type r) = Inr (row_type r)"
    using db_wfD(2) [OF cm_coreD(2) [OF Cons.prems(1)] r] by (rule ParseChannelType_valid)
  have IH: "\<exists>q. fmlookup (cm_db (mirrorPersistedChannel (scan_row i r) cm)) j = Some q" if "j \<in> set is" for j
    using mir(2) Cons.prems(2) that by (simp add: same_view_def)
  from Cons.IH [OF mir(1) IH] Cons.IH [OF Cons.prems(1)] Cons.prems(2) r ty show ?case
    by (simp add: loadChannelState_def) (simp add: no_faults_def)
qed

lemma delete_no_faults:
  assumes core: "cm_core cm" and ch: "fmlookup (cm_db cm) ch \<noteq> None"
  shows "\<exists>res. snd (deleteChannelLocked no_faults ch cm) = Inr res"
proof -
  let ?ids = "db_subtree (cm_db cm) ch" and ?sids = "stateChannelSubtreeIDs (cm_state cm) ch"
  have "?ids \<noteq> []" using set_db_subtree [OF cm_coreD(2) [OF core], of ch] ch by (force simp: db_desc_def)
  moreover obtain p where "snd (state_only_loop no_faults ?ids ?sids cm [] []) = Inr p"
    using state_only_no_faults [OF core stateIDs_live [OF core, of _ ch]] by blast
  then obtain cm1 mi where "reconcileStateOnlyDescendants no_faults ?ids ?sids cm = (cm1, Inr mi)"
    by (cases p; cases "state_only_loop no_faults ?ids ?sids cm [] []") (simp add: reconcileStateOnlyDescendants_def)
  moreover have "snd (delete_exec no_faults ch cm1) = None" by (simp add: delete_exec_def no_faults_def)
  ultimately show ?thesis
    by (cases "delete_exec no_faults ch cm1")
       (auto simp: deleteChannelLocked_def loadChannelSubtree_def Let_def no_faults_def [THEN arg_cong, of df_subtree] split: prod.split)
qed

lemma cleanup_no_faults:
  assumes inv: "cm_inv cm" and due: "cleanup_due (cm_state cm) ch" and g: "fmlookup (cm_timers cm) ch = Some g"
  shows "fmlookup (cm_db (cleanupCallback no_faults ch g cm)) ch = None"
proof -
  have ok: "delete_faults_ok no_faults" by (simp add: delete_faults_ok_def no_faults_def)
  have core: "cm_core cm" using inv by (simp add: cm_inv_def)
  let ?cm1 = "cm\<lparr>cm_timers := fmdrop ch (cm_timers cm)\<rparr>"
  have "cm_core ?cm1" using core by (simp add: cm_core_def)
  then obtain res where res: "snd (deleteChannelLocked no_faults ch ?cm1) = Inr res"
    using delete_no_faults [of ?cm1 ch] due_desc(2) [OF core due] by auto
  obtain cm2 where dl: "deleteChannelLocked no_faults ch ?cm1 = (cm2, Inr res)"
    using res by (cases "deleteChannelLocked no_faults ch ?cm1") simp
  have root: "dr_RootID res = ch \<and> fmlookup (cm_db cm2) ch = None"
  proof (rule deleteChannelLocked_spec [of ?cm1 "{ch}" no_faults ch])
    show "cm_core ?cm1" by fact
    show "timers_ok_except {ch} ?cm1" "gens_ok ?cm1" "fmlookup (cm_timers ?cm1) 0 = None"
      using inv zero_no_timer [OF inv] by (auto simp: cm_inv_def timers_ok_except_def gens_ok_def)
    show "0 \<notin> {ch}" using due zero_not_due [OF cm_coreD(1) [OF core]] by auto
    show "delete_faults_ok no_faults" by fact
    show ?thesis if "deleteChannelLocked no_faults ch ?cm1 = (cm', Inl e)" for cm' e using that dl by simp
    show ?thesis if "deleteChannelLocked no_faults ch ?cm1 = (cm', Inr res')" "subtree_gone ch ?cm1 cm' res'" for cm' res'
      using that dl due_desc(1) [OF core due] by (auto simp: subtree_gone_def)
  qed
  then show ?thesis using g due dl by (auto simp: cleanupCallback_def)
qed

subsection \<open>Correctness of the channel manager\<close>

lemma singleton_list:
  assumes "distinct xs" "set xs = {a}"
  shows "xs = [a]"
proof -
  have "length xs = 1" using distinct_card [OF assms(1)] assms(2) by simp
  then obtain x where "xs = [x]" by (auto simp: length_Suc_conv)
  with assms(2) show ?thesis by simp
qed

text \<open>A server with one temporary channel and one connected client, used by the examples.\<close>

definition ex_env :: "channel_id \<Rightarrow> create_env" where
  "ex_env i = \<lparr>ce_exists_fails = False, ce_hash = (\<lambda>_. None), ce_insert = Some (i, 0), ce_group = True, ce_assign = True\<rparr>"

definition ex_spec :: channel_spec where
  "ex_spec = \<lparr>cs_Name = ''x'', cs_Topic = [], cs_ParentID = 0, cs_OrderIndex = 0, cs_Type = ChannelTypeTemporary,
     cs_MaxClients = 0, cs_Password = [], cs_NeededJoinPower = 0, cs_CreatedBy = 9, cs_OpusBitrate = 0,
     cs_OpusFEC = False, cs_OpusDTX = False, cs_OpusStereo = False\<rparr>"

definition ex_cm_ops :: "cm_op list" where
  "ex_cm_ops = [CmCreate (ex_env 1) ex_spec, CmConnect ex_client]"

definition ex_cm :: cmgr where
  "ex_cm = run_ops cm_step ex_cm_ops (cm_New fmempty state_New)"

definition ex_upd :: cm_update where
  "ex_upd = \<lparr>cu_Topic = Some ''t'', cu_MaxClients = None, cu_OpusBitrate = None, cu_OpusFEC = None, cu_OpusDTX = None,
     cu_OpusStereo = None, cu_SlowModeSeconds = None, cu_Description = None, cu_NeededJoinPower = None,
     cu_OrderIndex = None, cu_ParentID = None, cu_InheritPermissions = None\<rparr>"

lemma ex_CreateChannel:
  "fst (CreateChannel (ex_env 1) ex_spec cm) = create_inserted (ex_env 1) ex_spec None 1 0 cm"
  by (simp add: CreateChannel_def Validate_def ex_spec_def ex_env_def ChannelType_Valid_def hash_password_def)

lemma ex_cm_ops_ok: "ops_ok cm_step cm_op_ok ex_cm_ops (cm_New fmempty state_New)"
  by (simp add: ex_cm_ops_def ex_CreateChannel create_inserted_def Let_def AddChannel_def)
     (simp add: ex_env_def cm_New_def state_New_def ex_client_def)

lemma ex_cm_inv: "cm_inv ex_cm"
  unfolding ex_cm_def by (rule chan.run_start_inv [OF ex_cm_ops_ok])

lemma ex_cm_parts:
  "cm_db ex_cm = fmupd 1 (insert_row ex_spec None 0) fmempty"
  "channels (cm_state ex_cm) = fmupd 1 (spec_channel ex_spec None 1 0) fmempty"
  "clients (cm_state ex_cm) = fmupd ''a'' ex_client fmempty"
  by (simp_all add: ex_cm_def ex_cm_ops_def ex_CreateChannel create_inserted_def Let_def AddChannel_def AddClient_def
      cm_New_def state_New_def ex_client_def) (simp_all add: ex_spec_def spec_channel_def)

lemma ex_cm_due: "cleanup_due (cm_state ex_cm) 1"
proof -
  have "mgr_inv (cm_state ex_cm)" using ex_cm_inv by (simp add: cm_inv_def cm_core_def)
  then show ?thesis
    by (simp add: cleanup_due_iff tree_def occupied_def ran_def a_where_iff ex_cm_parts)
       (simp add: spec_channel_def ex_spec_def ex_client_def)
qed



text \<open>A cleanup that removes a channel removes it alone and displaces nobody.\<close>

lemma cleaned_alone:
  assumes core: "cm_core cm" and due: "cleanup_due (cm_state cm) ch" and desc: "db_desc (cm_db cm) ch = {ch}" and gone: "subtree_gone ch cm cm' res"
  shows "db_subtree (cm_db cm) ch = [ch]" "ch \<notin> occupied (cm_state cm)" "a_where (abs (cm_state cm')) = a_where (abs (cm_state cm))"
proof -
  have "set (db_subtree (cm_db cm) ch) = {ch}"
    using set_db_subtree [OF cm_coreD(2) [OF core], of ch] desc due_desc(2) [OF core due] by simp
  then show sub: "db_subtree (cm_db cm) ch = [ch]" by (rule singleton_list [OF sorted_db_subtree(2)])
  show free: "ch \<notin> occupied (cm_state cm)" using due cleanup_due_iff [OF cm_coreD(1) [OF core]] by blast
  show "a_where (abs (cm_state cm')) = a_where (abs (cm_state cm))"
    using gone sub free by (auto simp: subtree_gone_def occupied_def ran_def fun_eq_iff split: option.split)
qed

text \<open>C18: whenever a cleanup callback is delivered, it either leaves the table and everybody's place as they
  were, or its token was the pending one, the channel was a temporary channel without members and
  sub-channels, and exactly that channel is gone from table and state; it displaces nobody, and the
  deletion is announced exactly once.\<close>

theorem cleanupCallback_only_empty_leaves:
  assumes "cm_inv cm" "delete_faults_ok f"
  shows "(cm_db (cleanupCallback f ch g cm) = cm_db cm \<and>
      abs (cm_state (cleanupCallback f ch g cm)) = abs (cm_state cm) \<and>
      cm_notified (cleanupCallback f ch g cm) = cm_notified cm) \<or>
    (fmlookup (cm_timers cm) ch = Some g \<and> cleanup_due (cm_state cm) ch \<and>
     (\<forall>i. fmlookup (cm_db (cleanupCallback f ch g cm)) i = (if i = ch then None else fmlookup (cm_db cm) i)) \<and>
     a_where (abs (cm_state (cleanupCallback f ch g cm))) = a_where (abs (cm_state cm)) \<and>
     (\<exists>res. cm_notified (cleanupCallback f ch g cm) = cm_notified cm @ [res] \<and>
        dr_ChannelIDs res = [ch] \<and> dr_Members res = []))"
proof (cases rule: cleanupCallback_cases [OF assms, of ch g])
  case (3 cm' res)
  have core: "cm_core cm" using assms(1) by (simp add: cm_inv_def)
  note alone = cleaned_alone [OF core 3(3,6,5)]
  note sub = alone(1) and free = alone(2)
  have "fmset_get (membership (cm_state cm)) ch = {||}"
  proof (rule ccontr)
    assume "fmset_get (membership (cm_state cm)) ch \<noteq> {||}"
    then obtain cid where "cid |\<in>| fmset_get (membership (cm_state cm)) ch" by blast
    then have "a_where (abs (cm_state cm)) cid = Some ch"
      using mgr_invD(2) [OF cm_coreD(1) [OF core]] unfolding inv_members_def a_where_iff by blast
    with free show False by (auto simp: occupied_def ran_def)
  qed
  moreover have "set (map (\<lambda>r. (rm_ChannelID r, rm_ClientID r)) (dr_Members res)) =
      {(i, cid). i \<in> {ch} \<and> cid |\<in>| fmset_get (membership (cm_state cm)) i}"
    using 3(5) unfolding subtree_gone_def 3(6) by blast
  moreover have "{(i, cid). i \<in> {ch} \<and> cid |\<in>| fmset_get (membership (cm_state cm)) i} = {}"
    using calculation(1) by auto
  ultimately have "set (map (\<lambda>r. (rm_ChannelID r, rm_ClientID r)) (dr_Members res)) = {}" by (simp only:)
  then have mem: "dr_Members res = []" by simp
  show ?thesis using 3 sub mem alone(3) by (auto simp: subtree_gone_def)
qed (simp_all)

theorem cleanupCallback_only_empty_leaves_witness:
  "cm_inv ex_cm \<and> delete_faults_ok no_faults \<and>
   (\<exists>g res. fmlookup (cm_timers ex_cm) 1 = Some g \<and>
      cm_notified (cleanupCallback no_faults 1 g ex_cm) = cm_notified ex_cm @ [res] \<and>
      dr_ChannelIDs res = [1] \<and> dr_Members res = [])"
proof -
  have ok: "delete_faults_ok no_faults" by (simp add: delete_faults_ok_def no_faults_def)
  obtain g where g: "fmlookup (cm_timers ex_cm) 1 = Some g"
    using ex_cm_inv ex_cm_due by (auto simp: cm_inv_def timers_ok_except_def)
  have "cm_db (cleanupCallback no_faults 1 g ex_cm) \<noteq> cm_db ex_cm"
  proof
    assume "cm_db (cleanupCallback no_faults 1 g ex_cm) = cm_db ex_cm"
    with cleanup_no_faults [OF ex_cm_inv ex_cm_due g] show False by (simp add: ex_cm_parts)
  qed
  with cleanupCallback_only_empty_leaves [OF ex_cm_inv ok, of 1 g] ok ex_cm_inv g show ?thesis by blast
qed

text \<open>Cleanup makes progress: an empty temporary channel without sub-channels has a pending timer, and
  when its callback runs against a working database the channel is removed from table and state.\<close>

theorem cleanup_progress:
  assumes "cm_inv cm" "cleanup_due (cm_state cm) ch"
  shows "\<exists>g. fmlookup (cm_timers cm) ch = Some g \<and>
    fmlookup (cm_db (cleanupCallback no_faults ch g cm)) ch = None \<and>
    GetChannel ch (cm_state (cleanupCallback no_faults ch g cm)) = None"
proof -
  obtain g where g: "fmlookup (cm_timers cm) ch = Some g"
    using assms by (auto simp: cm_inv_def timers_ok_except_def)
  have ok: "delete_faults_ok no_faults" by (simp add: delete_faults_ok_def no_faults_def)
  let ?cm1 = "cm\<lparr>cm_timers := fmdrop ch (cm_timers cm)\<rparr>"
  have core: "cm_core cm" using assms(1) by (simp add: cm_inv_def)
  have core': "cm_core (cleanupCallback no_faults ch g cm)"
    using cleanupCallback_inv [OF assms(1) ok] by (simp add: cm_inv_def)
  have gone: "fmlookup (cm_db (cleanupCallback no_faults ch g cm)) ch = None"
    using cleanup_no_faults [OF assms g] .
  with synced_present [OF cm_coreD(3) [OF core'], of ch] g show ?thesis
    by (auto simp: GetChannel_def)
qed

theorem cleanup_progress_witness:
  "cm_inv ex_cm \<and> cleanup_due (cm_state ex_cm) 1 \<and>
   (\<exists>g. fmlookup (cm_timers ex_cm) 1 = Some g \<and> fmlookup (cm_db (cleanupCallback no_faults 1 g ex_cm)) 1 = None)"
  using ex_cm_inv ex_cm_due cleanup_progress [OF ex_cm_inv ex_cm_due] by blast

text \<open>A join and the cleanup of the joined channel are linearised: once a move has succeeded the client is
  in the target channel, and no callback, whatever token it carries, has any effect on that channel.\<close>

theorem move_defeats_cleanup:
  assumes "cm_inv cm" "snd (snd (cm_MoveClient cid target cm)) = None"
  shows "a_where (abs (cm_state (fst (cm_MoveClient cid target cm)))) cid = Some target \<and>
    cleanupCallback f target g (fst (cm_MoveClient cid target cm)) = fst (cm_MoveClient cid target cm)"
proof -
  have "mgr_inv (cm_state cm)" using assms(1) by (simp add: cm_inv_def cm_core_def)
  then show ?thesis
  proof (cases rule: cm_MoveClient_cases [of cm cid target])
    case (fail e)
    with assms(2) show ?thesis by simp
  next
    case (moved c x m)
    let ?cm1 = "cancelCleanupLocked target (cm\<lparr>cm_state := m\<rparr>)"
    have "fmlookup (cm_timers (fst (cm_MoveClient cid target cm))) target = None"
    proof (cases "c_ChannelID c \<noteq> 0 \<and> c_ChannelID c \<noteq> target")
      case True
      with reconcile_timers [of "c_ChannelID c" ?cm1 target] show ?thesis
        by (auto simp: moved(5) Let_def)
    qed (auto simp: moved(5) Let_def)
    with moved show ?thesis by (simp add: cleanupCallback_def Let_def)
  qed
qed

theorem move_defeats_cleanup_witness:
  "snd (snd (cm_MoveClient ''a'' 1 ex_cm)) = None \<and>
   cleanupCallback no_faults 1 1 (fst (cm_MoveClient ''a'' 1 ex_cm)) = fst (cm_MoveClient ''a'' 1 ex_cm)"
proof -
  have "snd (snd (cm_MoveClient ''a'' 1 ex_cm)) = None"
    by (simp add: cm_MoveClient_def ClientChannelState_def MoveClient_def ex_cm_parts ex_client_def)
  with move_defeats_cleanup [OF ex_cm_inv, of "''a''" 1 no_faults 1] show ?thesis by blast
qed



text \<open>Loading a well-formed table into an empty state succeeds and establishes the invariant: the state
  mirrors the table and every temporary channel without sub-channels has its cleanup timer.\<close>

theorem LoadIntoState_establishes:
  assumes "db_wf db" "\<And>n. \<not> fails n"
  shows "snd (snd (LoadIntoState False fails (cm_New db state_New))) = None \<and>
    cm_inv (fst (LoadIntoState False fails (cm_New db state_New)))"
  using LoadIntoState_inv [OF assms] by simp

theorem LoadIntoState_establishes_witness:
  "cm_inv (fst (LoadIntoState False (\<lambda>_. False) (cm_New (cm_db ex_cm) state_New)))"
proof -
  have "db_wf (cm_db ex_cm)" using ex_cm_inv by (simp add: cm_inv_def cm_core_def)
  from LoadIntoState_establishes [OF this, of "\<lambda>_. False"] show ?thesis by simp
qed

lemma patch_row_matches:
  assumes "update_checks u"
  shows "channelMatchesUpdate (scan_row ch (patch_row u r)) u"
  unfolding channelMatchesUpdate_def
proof (intro conjI)
  show "field_matches (cu_MaxClients u) (ch_MaxClients (scan_row ch (patch_row u r)))"
    using assms by (cases "cu_MaxClients u")
      (auto simp: field_matches_def scan_row_def patch_row_def coalesce_def update_checks_def)
qed (simp_all add: field_matches_def scan_row_def patch_row_def coalesce_def orelse_def split: option.split)

lemma mirrorChannelUpdate_db: "cm_db (fst (mirrorChannelUpdate f ch u cm)) = cm_db cm"
  by (cases "UpdateChannel ch u (cm_state cm)"; cases "snd (UpdateChannel ch u (cm_state cm))";
      cases "loadChannelState (df_load f ch) ch cm") (simp_all add: mirrorChannelUpdate_def Let_def)

lemma update_committed_frame: "cm_db (fst (update_committed f ch u q cm)) = cm_db cm"
  using mirrorChannelUpdate_db [of f ch "mirror_update u" cm]
  by (cases "mirrorChannelUpdate f ch (mirror_update u) cm"; cases "snd (mirrorChannelUpdate f ch (mirror_update u) cm)";
      cases "cu_ParentID u") (simp_all add: update_committed_def Let_def)

lemma update_unsure_frame:
  "cm_db (fst (update_unsure f ch u q cm)) = cm_db cm"
  by (simp add: update_unsure_def reconcilePersistedChannel_def mirrorPersistedChannel_def Let_def
      split: prod.split sum.split option.split bool.split)

lemma update_unsure_None:
  assumes "snd (update_unsure f ch u q cm) = None"
  shows "\<exists>r. fmlookup (cm_db cm) ch = Some r \<and> channelMatchesUpdate (scan_row ch r) u"
  using assms
  by (auto simp: update_unsure_def reconcilePersistedChannel_def loadChannelState_def Let_def
      split: prod.splits sum.splits option.splits if_splits)

text \<open>An update that reports success is stored: the row then carries every requested value, also when the
  commit answered with an error and the outcome had to be read back.\<close>

theorem UpdateChannel_success_is_stored:
  assumes "snd (cm_UpdateChannel f ch u cm) = None" "\<not> update_empty u"
  shows "\<exists>r. fmlookup (cm_db (fst (cm_UpdateChannel f ch u cm))) ch = Some r \<and> channelMatchesUpdate (scan_row ch r) u"
proof -
  have checks: "update_checks u" using assms(1) by (auto simp: cm_UpdateChannel_def split: if_splits)
  let ?g = "case cu_ParentID u of None \<Rightarrow> None
    | Some p \<Rightarrow> move_error (validateMoveTx (db_parents (cm_db cm)) (df_read f) (df_walk f) ch p)"
  have go: "\<not> df_begin f" "?g = None" "\<not> df_exec f" "\<not> df_rows f" and "fmlookup (cm_db cm) ch \<noteq> None"
    using assms checks unfolding cm_UpdateChannel_def Let_def
    by (cases ?g; cases "fmlookup (cm_db cm) ch"; simp split: if_splits)+
  then obtain r where r: "fmlookup (cm_db cm) ch = Some r" by auto
  let ?w = "cm\<lparr>cm_db := fmupd ch (patch_row u r) (cm_db cm)\<rparr>"
  have eq: "cm_UpdateChannel f ch u cm =
      (case df_commit f of
         ExecOk \<Rightarrow> update_committed f ch u (old_parent ch u cm) ?w
       | ExecLost \<Rightarrow> update_unsure f ch u (old_parent ch u cm) cm
       | ExecUnsure \<Rightarrow> update_unsure f ch u (old_parent ch u cm) ?w)"
    using assms(2) checks go r unfolding cm_UpdateChannel_def go(2) old_parent_def by (simp add: Let_def)
  show ?thesis
  proof (cases "df_commit f")
    case ExecOk
    then show ?thesis using patch_row_matches [OF checks] by (simp add: eq update_committed_frame)
  next
    case ExecLost
    then show ?thesis using assms(1) update_unsure_None by (simp add: eq update_unsure_frame)
  next
    case ExecUnsure
    then show ?thesis using patch_row_matches [OF checks] by (simp add: eq update_unsure_frame)
  qed
qed

theorem UpdateChannel_success_is_stored_witness:
  "\<exists>r. fmlookup (cm_db (fst (cm_UpdateChannel (no_faults\<lparr>df_commit := ExecUnsure\<rparr>) 1 ex_upd ex_cm))) 1 = Some r \<and>
     channelMatchesUpdate (scan_row 1 r) ex_upd"
proof (rule UpdateChannel_success_is_stored)
  show "\<not> update_empty ex_upd" by (simp add: update_empty_def ex_upd_def)
  have "\<exists>x. fmlookup (channels (cm_state ex_cm)) 1 = Some x" by (simp add: ex_cm_parts)
  show "snd (cm_UpdateChannel (no_faults\<lparr>df_commit := ExecUnsure\<rparr>) 1 ex_upd ex_cm) = None"
    by (simp add: cm_UpdateChannel_def update_checks_def update_empty_def ex_upd_def no_faults_def ex_cm_parts
        update_unsure_def reconcilePersistedChannel_def loadChannelState_def Let_def)
       (simp add: channelMatchesUpdate_def field_matches_def scan_row_def patch_row_def orelse_def coalesce_def
        insert_row_def ex_spec_def ParseChannelType_def)
qed

end
