(* ===== verification/Perm_Loader.thy ===== *)
theory Perm_Loader
  imports Permissions Channel_Manager
begin

text \<open>
  Loading permissions from the database (\<^verbatim>\<open>internal/permissions/loader.go\<close>): the per-tier queries, the
  merge over the channel inheritance chain, and the cache with its generation check.

  The loading code asks queries and may see each of them fail; \<open>ask\<close> is the function from queries to
  replies.  \<open>answer\<close> evaluates a query on the tables.  A load runs its queries one after the other
  without a transaction, so each query may see a different state of the tables: the cache results
  below speak about the history of table states and give every query a version of its own.
\<close>

subsection \<open>Tables and queries\<close>

record perm_row =
  pr_key :: string
  pr_value :: int
  pr_grant :: int
  pr_skip :: bool
  pr_negate :: bool

record perm_db =
  pd_permissions :: "(int, perm_row) fmap"
  pd_server_group_members :: "(user_id \<times> int) list"
  pd_server_group_permissions :: "(int \<times> int) list"
  pd_client_permissions :: "(user_id \<times> channel_id option \<times> int) list"
  pd_channel_group_members :: "(user_id \<times> channel_id \<times> int) list"
  pd_channel_group_permissions :: "(int \<times> int) list"
  pd_channel_client_permissions :: "(user_id \<times> channel_id \<times> int) list"
  pd_channel_permissions :: "(channel_id \<times> int) list"
  pd_channels :: "(channel_id, channel_row) fmap"

datatype db_query =
    QServerGroups user_id
  | QServerGroupPerms int
  | QClientPerms user_id
  | QClientChannelPerms user_id channel_id
  | QChannelChain channel_id
  | QChannelPerms channel_id
  | QChannelGroups user_id channel_id
  | QChannelGroupPerms int
  | QChannelClientPerms user_id channel_id

datatype db_reply = RIds "int list" | RRows "perm_row list" | RError

text \<open>\<open>JOIN permissions p ON p.id = permission_id\<close>.\<close>

definition join_perms :: "perm_db \<Rightarrow> int list \<Rightarrow> perm_row list" where
  "join_perms db ids = List.map_filter (fmlookup (pd_permissions db)) ids"

definition perm_maxChannelDepth :: nat where "perm_maxChannelDepth = 64"

text \<open>The recursive query: a row, then the row of its parent while the row inherits and the depth allows.\<close>

fun db_chain :: "nat \<Rightarrow> (channel_id, channel_row) fmap \<Rightarrow> channel_id \<Rightarrow> channel_id list" where
  "db_chain 0 chs i = (case fmlookup chs i of None \<Rightarrow> [] | Some r \<Rightarrow> [i])"
| "db_chain (Suc n) chs i =
     (case fmlookup chs i of
        None \<Rightarrow> []
      | Some r \<Rightarrow>
          i # (if row_inherit r then (case row_parent r of None \<Rightarrow> [] | Some p \<Rightarrow> db_chain n chs p) else []))"

fun answer :: "perm_db \<Rightarrow> db_query \<Rightarrow> db_reply" where
  "answer db (QServerGroups u) = RIds (sort (map snd (filter (\<lambda>(a, g). a = u) (pd_server_group_members db))))"
| "answer db (QServerGroupPerms g) = RRows (join_perms db (map snd (filter (\<lambda>(a, p). a = g) (pd_server_group_permissions db))))"
| "answer db (QClientPerms u) =
     RRows (join_perms db (map (\<lambda>(a, c, p). p) (filter (\<lambda>(a, c, p). a = u \<and> c = None) (pd_client_permissions db))))"
| "answer db (QClientChannelPerms u ch) =
     RRows (join_perms db (map (\<lambda>(a, c, p). p) (filter (\<lambda>(a, c, p). a = u \<and> c = Some ch) (pd_client_permissions db))))"
| "answer db (QChannelChain ch) = RIds (db_chain perm_maxChannelDepth (pd_channels db) ch)"
| "answer db (QChannelPerms ch) = RRows (join_perms db (map snd (filter (\<lambda>(c, p). c = ch) (pd_channel_permissions db))))"
| "answer db (QChannelGroups u ch) =
     RIds (sort (map (\<lambda>(a, c, g). g) (filter (\<lambda>(a, c, g). a = u \<and> c = ch) (pd_channel_group_members db))))"
| "answer db (QChannelGroupPerms g) = RRows (join_perms db (map snd (filter (\<lambda>(a, p). a = g) (pd_channel_group_permissions db))))"
| "answer db (QChannelClientPerms u ch) =
     RRows (join_perms db (map (\<lambda>(a, c, p). p) (filter (\<lambda>(a, c, p). a = u \<and> c = ch) (pd_channel_client_permissions db))))"

subsection \<open>Loading\<close>

text \<open>The left result names the query that failed.\<close>

type_synonym 'a load = "db_query + 'a"

definition ebind :: "'a load \<Rightarrow> ('a \<Rightarrow> 'b load) \<Rightarrow> 'b load" where
  "ebind x f = (case x of Inl e \<Rightarrow> Inl e | Inr a \<Rightarrow> f a)"

definition ask_ids :: "(db_query \<Rightarrow> db_reply) \<Rightarrow> db_query \<Rightarrow> int list load" where
  "ask_ids ask q = (case ask q of RIds l \<Rightarrow> Inr l | _ \<Rightarrow> Inl q)"

definition row_permission :: "perm_row \<Rightarrow> permission" where
  "row_permission r =
     \<lparr>Key = pr_key r, PType = inferType (pr_key r), Value = pr_value r, Grant = pr_grant r, Skip = pr_skip r, Negate = pr_negate r\<rparr>"

definition loadPermissionRows :: "(db_query \<Rightarrow> db_reply) \<Rightarrow> db_query \<Rightarrow> PermissionSet load" where
  "loadPermissionRows ask q =
     (case ask q of
        RRows rows \<Rightarrow> Inr (fold (\<lambda>r s. fmupd (pr_key r) (Some (row_permission r)) s) rows NewPermissionSet)
      | _ \<Rightarrow> Inl q)"

text \<open>One operation per query of the source.\<close>

definition LoadServerGroupsForUser :: "(db_query \<Rightarrow> db_reply) \<Rightarrow> user_id \<Rightarrow> int list load" where
  "LoadServerGroupsForUser ask u = ask_ids ask (QServerGroups u)"

definition LoadChannelGroupsForUser :: "(db_query \<Rightarrow> db_reply) \<Rightarrow> user_id \<Rightarrow> channel_id \<Rightarrow> int list load" where
  "LoadChannelGroupsForUser ask u ch = ask_ids ask (QChannelGroups u ch)"

text \<open>The query with \<open>LIMIT 1\<close>: the first id, and 0 when there is no row or the query fails.\<close>

definition LoadChannelGroupForUser :: "(db_query \<Rightarrow> db_reply) \<Rightarrow> user_id \<Rightarrow> channel_id \<Rightarrow> int" where
  "LoadChannelGroupForUser ask u ch = (case ask (QChannelGroups u ch) of RIds (g # _) \<Rightarrow> g | _ \<Rightarrow> 0)"

definition loadServerGroupPermissions :: "(db_query \<Rightarrow> db_reply) \<Rightarrow> int \<Rightarrow> PermissionSet load" where
  "loadServerGroupPermissions ask g = loadPermissionRows ask (QServerGroupPerms g)"

definition loadChannelGroupPermissions :: "(db_query \<Rightarrow> db_reply) \<Rightarrow> int \<Rightarrow> PermissionSet load" where
  "loadChannelGroupPermissions ask g = loadPermissionRows ask (QChannelGroupPerms g)"

definition loadClientPermissions :: "(db_query \<Rightarrow> db_reply) \<Rightarrow> user_id \<Rightarrow> PermissionSet load" where
  "loadClientPermissions ask u = loadPermissionRows ask (QClientPerms u)"

definition loadClientPermissionsForChannel :: "(db_query \<Rightarrow> db_reply) \<Rightarrow> user_id \<Rightarrow> channel_id \<Rightarrow> PermissionSet load" where
  "loadClientPermissionsForChannel ask u ch = loadPermissionRows ask (QClientChannelPerms u ch)"

definition loadChannelClientPermissions :: "(db_query \<Rightarrow> db_reply) \<Rightarrow> user_id \<Rightarrow> channel_id \<Rightarrow> PermissionSet load" where
  "loadChannelClientPermissions ask u ch = loadPermissionRows ask (QChannelClientPerms u ch)"

definition loadChannelPermissions :: "(db_query \<Rightarrow> db_reply) \<Rightarrow> channel_id \<Rightarrow> PermissionSet load" where
  "loadChannelPermissions ask ch = loadPermissionRows ask (QChannelPerms ch)"

definition channelPermissionChain :: "(db_query \<Rightarrow> db_reply) \<Rightarrow> channel_id \<Rightarrow> channel_id list load" where
  "channelPermissionChain ask ch = ask_ids ask (QChannelChain ch)"

text \<open>The loops over group ids.\<close>

fun load_sets :: "(int \<Rightarrow> PermissionSet load) \<Rightarrow> int list \<Rightarrow> PermissionSet list load" where
  "load_sets ld [] = Inr []"
| "load_sets ld (g # gs) = ebind (ld g) (\<lambda>s. ebind (load_sets ld gs) (\<lambda>ss. Inr (s # ss)))"

text \<open>The override merge: a key already merged (from a nearer channel) is skipped.\<close>

fun chain_merge :: "(db_query \<Rightarrow> db_reply) \<Rightarrow> channel_id list \<Rightarrow> PermissionSet \<Rightarrow> PermissionSet load" where
  "chain_merge ask [] merged = Inr merged"
| "chain_merge ask (i # ids) merged =
     ebind (loadChannelPermissions ask i) (\<lambda>s.
       chain_merge ask ids (fmfilter (\<lambda>k. fmlookup s k \<noteq> Some None) s ++\<^sub>f merged))"

definition loadChannelPermissionChain :: "(db_query \<Rightarrow> db_reply) \<Rightarrow> channel_id \<Rightarrow> PermissionSet load" where
  "loadChannelPermissionChain ask ch =
     ebind (channelPermissionChain ask ch) (\<lambda>chain.
       if chain = [] then loadChannelPermissions ask ch else chain_merge ask chain NewPermissionSet)"

definition loadFromDB :: "(db_query \<Rightarrow> db_reply) \<Rightarrow> user_id \<Rightarrow> channel_id \<Rightarrow> TieredPermissions load" where
  "loadFromDB ask u ch =
     ebind (LoadServerGroupsForUser ask u) (\<lambda>gids.
     ebind (load_sets (loadServerGroupPermissions ask) gids) (\<lambda>groupSets.
     ebind (loadClientPermissions ask u) (\<lambda>clientServerSet.
     ebind (loadClientPermissionsForChannel ask u ch) (\<lambda>channelSpecificSet.
     ebind (loadChannelPermissionChain ask ch) (\<lambda>channelSet.
     ebind (LoadChannelGroupsForUser ask u ch) (\<lambda>cgids.
     ebind (load_sets (loadChannelGroupPermissions ask) cgids) (\<lambda>channelGroupSets.
     ebind (loadChannelClientPermissions ask u ch) (\<lambda>channelClientSet.
       Inr (tp_Set TierChannelClient (Some channelClientSet)
           (tp_Set TierChannelGroup (Some (MergeSet (map Some channelGroupSets)))
           (tp_Set TierChannel (Some channelSet)
           (tp_Set TierChannelSpecific (Some channelSpecificSet)
           (tp_Set TierClientSpecific (Some clientServerSet)
           (tp_Set TierServerGroup (Some (MergeSet (map Some groupSets))) NewTieredPermissions))))))))))))))"

subsection \<open>The channel tier\<close>

text \<open>The entry of the nearest channel that has one.\<close>

fun nearest_entry :: "('c \<Rightarrow> ('k, 'p) fmap) \<Rightarrow> 'c list \<Rightarrow> 'k \<Rightarrow> 'p option" where
  "nearest_entry own [] k = None"
| "nearest_entry own (i # ids) k = (case fmlookup (own i) k of Some p \<Rightarrow> Some p | None \<Rightarrow> nearest_entry own ids k)"

text \<open>The set a channel carries itself.\<close>

definition own_set :: "perm_db \<Rightarrow> channel_id \<Rightarrow> PermissionSet" where
  "own_set db i =
     fold (\<lambda>r s. fmupd (pr_key r) (Some (row_permission r)) s)
       (join_perms db (map snd (filter (\<lambda>(c, p). c = i) (pd_channel_permissions db)))) NewPermissionSet"

lemma rows_never_nil: "fmlookup s k \<noteq> Some None \<Longrightarrow> fmlookup (fold (\<lambda>r s. fmupd (pr_key r) (Some (row_permission r)) s) rows s) k \<noteq> Some None"
  by (induction rows arbitrary: s) simp_all

lemma own_set_never_nil: "fmlookup (own_set db i) k \<noteq> Some None"
  unfolding own_set_def by (rule rows_never_nil) (simp add: NewPermissionSet_def)

lemma loadChannelPermissions_answer: "loadChannelPermissions (answer db) i = Inr (own_set db i)"
  by (simp add: loadChannelPermissions_def loadPermissionRows_def own_set_def)

lemma chain_merge_nearest:
  "\<exists>s. chain_merge (answer db) ids m = Inr s \<and>
     (\<forall>k. fmlookup s k = (case fmlookup m k of Some p \<Rightarrow> Some p | None \<Rightarrow> nearest_entry (own_set db) ids k))"
proof (induction ids arbitrary: m)
  case Nil
  then show ?case by (auto split: option.splits)
next
  case (Cons i ids)
  let ?own = "fmfilter (\<lambda>k. fmlookup (own_set db i) k \<noteq> Some None) (own_set db i)"
  have own: "?own = own_set db i" by (rule fmap_ext) (simp add: own_set_never_nil)
  obtain s where "chain_merge (answer db) ids (own_set db i ++\<^sub>f m) = Inr s"
    "\<forall>k. fmlookup s k = (case fmlookup (own_set db i ++\<^sub>f m) k of Some p \<Rightarrow> Some p | None \<Rightarrow> nearest_entry (own_set db) ids k)"
    using Cons.IH by blast
  then show ?case
    by (auto simp: loadChannelPermissions_answer ebind_def own map_add_def split: option.splits)
qed

lemma channel_tier_nearest:
  assumes "db_chain perm_maxChannelDepth (pd_channels db) ch = chain" "chain \<noteq> []"
  shows "\<exists>s. loadChannelPermissionChain (answer db) ch = Inr s \<and> (\<forall>k. fmlookup s k = nearest_entry (own_set db) chain k)"
  using assms chain_merge_nearest [of db chain NewPermissionSet]
  by (simp add: loadChannelPermissionChain_def channelPermissionChain_def ask_ids_def ebind_def NewPermissionSet_def)

subsection \<open>Cache\<close>

record cache_entry =
  ce_tp :: TieredPermissions
  ce_expires :: time

record group_entry =
  ge_set :: PermissionSet
  ge_expires :: time

record loader =
  ld_cache :: "(user_id \<times> channel_id, cache_entry) fmap"
  ld_generation :: nat
  ld_groups :: "(int, group_entry) fmap"

definition maxCachedGroups :: nat where "maxCachedGroups = 1024"
definition cacheTTL :: time where "cacheTTL = 5000000000"

definition NewLoader :: loader where
  "NewLoader = \<lparr>ld_cache = fmempty, ld_generation = 0, ld_groups = fmempty\<rparr>"

definition Invalidate :: "user_id \<Rightarrow> channel_id \<Rightarrow> loader \<Rightarrow> loader" where
  "Invalidate u ch l = l\<lparr>ld_generation := ld_generation l + 1, ld_cache := fmdrop (u, ch) (ld_cache l)\<rparr>"

definition InvalidateAll :: "loader \<Rightarrow> loader" where
  "InvalidateAll l = l\<lparr>ld_generation := ld_generation l + 1, ld_cache := fmempty, ld_groups := fmempty\<rparr>"

text \<open>The two sections of \<open>LoadForClient\<close>: the read of the cache, and the store unless a mutation crossed.\<close>

definition load_cached :: "user_id \<Rightarrow> channel_id \<Rightarrow> time \<Rightarrow> loader \<Rightarrow> TieredPermissions option" where
  "load_cached u ch now l =
     (case fmlookup (ld_cache l) (u, ch) of Some e \<Rightarrow> if now < ce_expires e then Some (ce_tp e) else None | None \<Rightarrow> None)"

definition load_store :: "user_id \<Rightarrow> channel_id \<Rightarrow> nat \<Rightarrow> TieredPermissions \<Rightarrow> time \<Rightarrow> loader \<Rightarrow> loader option" where
  "load_store u ch g tp now l =
     (if g \<noteq> ld_generation l then None
      else Some (l\<lparr>ld_cache := fmupd (u, ch) \<lparr>ce_tp = tp, ce_expires = now + cacheTTL\<rparr> (ld_cache l)\<rparr>))"

text \<open>The two sections of \<open>LoadGroupPermissions\<close>.\<close>

definition group_cached :: "int \<Rightarrow> time \<Rightarrow> loader \<Rightarrow> PermissionSet option" where
  "group_cached g now l =
     (case fmlookup (ld_groups l) g of Some e \<Rightarrow> if now < ge_expires e then Some (ge_set e) else None | None \<Rightarrow> None)"

definition group_store :: "int \<Rightarrow> nat \<Rightarrow> PermissionSet \<Rightarrow> time \<Rightarrow> loader \<Rightarrow> loader option" where
  "group_store g gen s now l =
     (if gen \<noteq> ld_generation l then None
      else
        let groups = (if fcard (fmdom (ld_groups l)) \<ge> maxCachedGroups then fmempty else ld_groups l)
        in Some (l\<lparr>ld_groups := fmupd g \<lparr>ge_set = s, ge_expires = now + cacheTTL\<rparr> groups\<rparr>))"


text \<open>The two operations when nothing interleaves with them, so that the store always finds its generation.\<close>

definition LoadForClient ::
  "(db_query \<Rightarrow> db_reply) \<Rightarrow> time \<Rightarrow> user_id \<Rightarrow> channel_id \<Rightarrow> loader \<Rightarrow> TieredPermissions load \<times> loader" where
  "LoadForClient ask now u ch l =
     (case load_cached u ch now l of
        Some tp \<Rightarrow> (Inr tp, l)
      | None \<Rightarrow>
          (case loadFromDB ask u ch of
             Inl e \<Rightarrow> (Inl e, l)
           | Inr tp \<Rightarrow> (Inr tp, the (load_store u ch (ld_generation l) tp now l))))"

definition LoadGroupPermissions :: "(db_query \<Rightarrow> db_reply) \<Rightarrow> time \<Rightarrow> int \<Rightarrow> loader \<Rightarrow> PermissionSet load \<times> loader" where
  "LoadGroupPermissions ask now g l =
     (case group_cached g now l of
        Some s \<Rightarrow> (Inr s, l)
      | None \<Rightarrow>
          (case loadServerGroupPermissions ask g of
             Inl e \<Rightarrow> (Inl e, l)
           | Inr s \<Rightarrow> (Inr s, the (group_store g (ld_generation l) s now l))))"

subsection \<open>Loads, mutations and invalidations interleaved\<close>

text \<open>
  The system keeps the history of the tables (newest first; version \<open>n\<close> is the \<open>n\<close>-th state), for each
  cache entry the version of the tables at the last invalidation that covered it, the loads between
  their two sections, and what loads have returned with the mark of their entry at that time.  A load
  whose store fails starts over, which is a new \<open>LBegin\<close>; one that ends because a query failed or its
  context is done is an \<open>LDrop\<close>.  The generation is a 64-bit counter in the code and unbounded here.
\<close>

datatype load_task = LoadTask user_id channel_id nat nat | GroupTask int nat nat

datatype load_return = LoadRet user_id channel_id TieredPermissions nat | GroupRet int PermissionSet nat

record load_sys =
  ls_ld :: loader
  ls_hist :: "perm_db list"
  ls_mark :: "user_id \<times> channel_id \<Rightarrow> nat"
  ls_gmark :: nat
  ls_tasks :: "load_task list"
  ls_rets :: "load_return list"

definition load_start :: "perm_db \<Rightarrow> load_sys" where
  "load_start db = \<lparr>ls_ld = NewLoader, ls_hist = [db], ls_mark = (\<lambda>_. 0), ls_gmark = 0, ls_tasks = [], ls_rets = []\<rparr>"

definition version :: "perm_db list \<Rightarrow> nat \<Rightarrow> perm_db" where
  "version hist n = hist ! (length hist - n)"

text \<open>Each query sees the version \<open>view\<close> gives it.\<close>

definition ask_at :: "perm_db list \<Rightarrow> (db_query \<Rightarrow> nat) \<Rightarrow> db_query \<Rightarrow> db_reply" where
  "ask_at hist view q = answer (version hist (view q)) q"

datatype load_op =
    LMutate perm_db
  | LInvalidate user_id channel_id
  | LInvalidateAll
  | LBegin user_id channel_id time
  | LFinish user_id channel_id nat nat "db_query \<Rightarrow> nat" time
  | LGBegin int time
  | LGFinish int nat nat "db_query \<Rightarrow> nat" time
  | LDrop load_task

fun load_step :: "load_op \<Rightarrow> load_sys \<Rightarrow> load_sys" where
  "load_step (LMutate db) y = y\<lparr>ls_hist := db # ls_hist y\<rparr>"
| "load_step (LInvalidate u ch) y =
     y\<lparr>ls_ld := Invalidate u ch (ls_ld y), ls_mark := (ls_mark y)((u, ch) := length (ls_hist y))\<rparr>"
| "load_step LInvalidateAll y =
     y\<lparr>ls_ld := InvalidateAll (ls_ld y), ls_mark := (\<lambda>_. length (ls_hist y)), ls_gmark := length (ls_hist y)\<rparr>"
| "load_step (LBegin u ch now) y =
     (case load_cached u ch now (ls_ld y) of
        Some tp \<Rightarrow> y\<lparr>ls_rets := LoadRet u ch tp (ls_mark y (u, ch)) # ls_rets y\<rparr>
      | None \<Rightarrow> y\<lparr>ls_tasks := LoadTask u ch (ld_generation (ls_ld y)) (length (ls_hist y)) # ls_tasks y\<rparr>)"
| "load_step (LFinish u ch g from view now) y =
     (if LoadTask u ch g from \<notin> set (ls_tasks y) then y
      else
        let y1 = y\<lparr>ls_tasks := remove1 (LoadTask u ch g from) (ls_tasks y)\<rparr>
        in (case loadFromDB (ask_at (ls_hist y) view) u ch of
              Inl _ \<Rightarrow> y1
            | Inr tp \<Rightarrow>
                (case load_store u ch g tp now (ls_ld y) of
                   None \<Rightarrow> y1
                 | Some l \<Rightarrow> y1\<lparr>ls_ld := l, ls_rets := LoadRet u ch tp (ls_mark y (u, ch)) # ls_rets y\<rparr>)))"
| "load_step (LGBegin gr now) y =
     (case group_cached gr now (ls_ld y) of
        Some s \<Rightarrow> y\<lparr>ls_rets := GroupRet gr s (ls_gmark y) # ls_rets y\<rparr>
      | None \<Rightarrow> y\<lparr>ls_tasks := GroupTask gr (ld_generation (ls_ld y)) (length (ls_hist y)) # ls_tasks y\<rparr>)"
| "load_step (LGFinish gr g from view now) y =
     (if GroupTask gr g from \<notin> set (ls_tasks y) then y
      else
        let y1 = y\<lparr>ls_tasks := remove1 (GroupTask gr g from) (ls_tasks y)\<rparr>
        in (case loadServerGroupPermissions (ask_at (ls_hist y) view) gr of
              Inl _ \<Rightarrow> y1
            | Inr s \<Rightarrow>
                (case group_store gr g s now (ls_ld y) of
                   None \<Rightarrow> y1
                 | Some l \<Rightarrow> y1\<lparr>ls_ld := l, ls_rets := GroupRet gr s (ls_gmark y) # ls_rets y\<rparr>)))"
| "load_step (LDrop t) y = y\<lparr>ls_tasks := remove1 t (ls_tasks y)\<rparr>"

text \<open>The queries of a load run after its first section and before its second.\<close>

fun load_ok :: "load_op \<Rightarrow> load_sys \<Rightarrow> bool" where
  "load_ok (LFinish u ch g from view now) y = (\<forall>q. from \<le> view q \<and> view q \<le> length (ls_hist y))"
| "load_ok (LGFinish gr g from view now) y = (\<forall>q. from \<le> view q \<and> view q \<le> length (ls_hist y))"
| "load_ok _ y = True"

text \<open>Assembled from table states of version \<open>n\<close> or later.\<close>

definition fresh_load :: "nat \<Rightarrow> perm_db list \<Rightarrow> user_id \<Rightarrow> channel_id \<Rightarrow> TieredPermissions \<Rightarrow> bool" where
  "fresh_load n hist u ch tp \<longleftrightarrow>
     (\<exists>view. (\<forall>q. n \<le> view q \<and> 0 < view q \<and> view q \<le> length hist) \<and> loadFromDB (ask_at hist view) u ch = Inr tp)"

definition fresh_group :: "nat \<Rightarrow> perm_db list \<Rightarrow> int \<Rightarrow> PermissionSet \<Rightarrow> bool" where
  "fresh_group n hist g s \<longleftrightarrow>
     (\<exists>view. (\<forall>q. n \<le> view q \<and> 0 < view q \<and> view q \<le> length hist) \<and> loadServerGroupPermissions (ask_at hist view) g = Inr s)"

fun ret_fresh :: "perm_db list \<Rightarrow> load_return \<Rightarrow> bool" where
  "ret_fresh hist (LoadRet u ch tp n) = fresh_load n hist u ch tp"
| "ret_fresh hist (GroupRet g s n) = fresh_group n hist g s"

fun task_fine :: "load_sys \<Rightarrow> load_task \<Rightarrow> bool" where
  "task_fine y (LoadTask u ch g from) \<longleftrightarrow>
     0 < from \<and> from \<le> length (ls_hist y) \<and> g \<le> ld_generation (ls_ld y) \<and> (g = ld_generation (ls_ld y) \<longrightarrow> ls_mark y (u, ch) \<le> from)"
| "task_fine y (GroupTask gr g from) \<longleftrightarrow>
     0 < from \<and> from \<le> length (ls_hist y) \<and> g \<le> ld_generation (ls_ld y) \<and> (g = ld_generation (ls_ld y) \<longrightarrow> ls_gmark y \<le> from)"

definition load_inv :: "load_sys \<Rightarrow> bool" where
  "load_inv y \<longleftrightarrow>
     ls_hist y \<noteq> [] \<and>
     (\<forall>k. ls_mark y k \<le> length (ls_hist y)) \<and> ls_gmark y \<le> length (ls_hist y) \<and>
     (\<forall>u ch e. fmlookup (ld_cache (ls_ld y)) (u, ch) = Some e \<longrightarrow> fresh_load (ls_mark y (u, ch)) (ls_hist y) u ch (ce_tp e)) \<and>
     (\<forall>g e. fmlookup (ld_groups (ls_ld y)) g = Some e \<longrightarrow> fresh_group (ls_gmark y) (ls_hist y) g (ge_set e)) \<and>
     (\<forall>t \<in> set (ls_tasks y). task_fine y t) \<and>
     (\<forall>x \<in> set (ls_rets y). ret_fresh (ls_hist y) x) \<and>
     fcard (fmdom (ld_groups (ls_ld y))) \<le> maxCachedGroups"

lemma version_Cons [simp]: "0 < n \<Longrightarrow> n \<le> length hist \<Longrightarrow> version (db # hist) n = version hist n"
  by (simp add: version_def Suc_diff_le)

lemma ask_at_Cons: "\<forall>q. 0 < view q \<and> view q \<le> length hist \<Longrightarrow> ask_at (db # hist) view = ask_at hist view"
  by (rule ext) (simp add: ask_at_def)

lemma fresh_load_Cons: "fresh_load n hist u ch tp \<Longrightarrow> fresh_load n (db # hist) u ch tp"
  unfolding fresh_load_def using ask_at_Cons [of _ hist db] by (metis le_SucI length_Cons)

lemma fresh_group_Cons: "fresh_group n hist g s \<Longrightarrow> fresh_group n (db # hist) g s"
  unfolding fresh_group_def using ask_at_Cons [of _ hist db] by (metis le_SucI length_Cons)

lemma ret_fresh_Cons: "ret_fresh hist x \<Longrightarrow> ret_fresh (db # hist) x"
  by (cases x) (simp_all add: fresh_load_Cons fresh_group_Cons)

lemma fresh_loadI:
  assumes "loadFromDB (ask_at hist view) u ch = Inr tp" "\<forall>q. from \<le> view q \<and> view q \<le> length hist" "n \<le> from" "0 < from"
  shows "fresh_load n hist u ch tp"
  unfolding fresh_load_def using assms by (metis le_trans less_le_trans)

lemma fresh_groupI:
  assumes "loadServerGroupPermissions (ask_at hist view) g = Inr s" "\<forall>q. from \<le> view q \<and> view q \<le> length hist" "n \<le> from" "0 < from"
  shows "fresh_group n hist g s"
  unfolding fresh_group_def using assms by (metis le_trans less_le_trans)


lemma load_invI:
  assumes "ls_hist y \<noteq> []" "\<And>k. ls_mark y k \<le> length (ls_hist y)" "ls_gmark y \<le> length (ls_hist y)"
    "\<And>u ch e. fmlookup (ld_cache (ls_ld y)) (u, ch) = Some e \<Longrightarrow> fresh_load (ls_mark y (u, ch)) (ls_hist y) u ch (ce_tp e)"
    "\<And>g e. fmlookup (ld_groups (ls_ld y)) g = Some e \<Longrightarrow> fresh_group (ls_gmark y) (ls_hist y) g (ge_set e)"
    "\<And>t. t \<in> set (ls_tasks y) \<Longrightarrow> task_fine y t" "\<And>x. x \<in> set (ls_rets y) \<Longrightarrow> ret_fresh (ls_hist y) x"
    "fcard (fmdom (ld_groups (ls_ld y))) \<le> maxCachedGroups"
  shows "load_inv y"
  unfolding load_inv_def using assms by blast

lemma load_invD:
  assumes "load_inv y"
  shows "ls_hist y \<noteq> []" "ls_mark y k \<le> length (ls_hist y)" "ls_gmark y \<le> length (ls_hist y)"
    "fmlookup (ld_cache (ls_ld y)) (u, ch) = Some e \<Longrightarrow> fresh_load (ls_mark y (u, ch)) (ls_hist y) u ch (ce_tp e)"
    "fmlookup (ld_groups (ls_ld y)) g = Some e' \<Longrightarrow> fresh_group (ls_gmark y) (ls_hist y) g (ge_set e')"
    "t \<in> set (ls_tasks y) \<Longrightarrow> task_fine y t" "x \<in> set (ls_rets y) \<Longrightarrow> ret_fresh (ls_hist y) x"
    "fcard (fmdom (ld_groups (ls_ld y))) \<le> maxCachedGroups"
  using assms unfolding load_inv_def by blast+

text \<open>A later invalidation or table state keeps the claims about running loads.\<close>

lemma task_fine_later:
  assumes "task_fine y t" "length (ls_hist y) \<le> length (ls_hist z)"
    and "ld_generation (ls_ld z) = ld_generation (ls_ld y) \<and> ls_mark z = ls_mark y \<and> ls_gmark z = ls_gmark y \<or>
      ld_generation (ls_ld z) > ld_generation (ls_ld y)"
  shows "task_fine z t"
  using assms by (cases t) auto

lemma load_cached_fresh:
  assumes "load_inv y" "load_cached u ch now (ls_ld y) = Some tp"
  shows "fresh_load (ls_mark y (u, ch)) (ls_hist y) u ch tp"
  using assms(2) load_invD(4) [OF assms(1), of u ch] by (auto simp: load_cached_def split: option.splits if_splits)

lemma group_cached_fresh:
  assumes "load_inv y" "group_cached g now (ls_ld y) = Some s"
  shows "fresh_group (ls_gmark y) (ls_hist y) g s"
  using assms(2) load_invD(5) [OF assms(1), of g] by (auto simp: group_cached_def split: option.splits if_splits)

lemma new_task_fine:
  assumes "load_inv y"
  shows "task_fine y (LoadTask u ch (ld_generation (ls_ld y)) (length (ls_hist y)))"
    "task_fine y (GroupTask g (ld_generation (ls_ld y)) (length (ls_hist y)))"
  using load_invD(1-3) [OF assms] by simp_all

text \<open>What a change that keeps the history and the marks has to show.\<close>

lemma load_inv_keep:
  assumes inv: "load_inv y"
    and same: "ls_hist z = ls_hist y" "ls_mark z = ls_mark y" "ls_gmark z = ls_gmark y" "ld_generation (ls_ld z) = ld_generation (ls_ld y)"
    and cache: "\<And>u ch e. fmlookup (ld_cache (ls_ld z)) (u, ch) = Some e \<Longrightarrow>
      fmlookup (ld_cache (ls_ld y)) (u, ch) = Some e \<or> fresh_load (ls_mark y (u, ch)) (ls_hist y) u ch (ce_tp e)"
    and groups: "\<And>g e. fmlookup (ld_groups (ls_ld z)) g = Some e \<Longrightarrow>
      fmlookup (ld_groups (ls_ld y)) g = Some e \<or> fresh_group (ls_gmark y) (ls_hist y) g (ge_set e)"
    and tasks: "\<And>t. t \<in> set (ls_tasks z) \<Longrightarrow> task_fine y t" and rets: "\<And>x. x \<in> set (ls_rets z) \<Longrightarrow> ret_fresh (ls_hist y) x"
    and card: "fcard (fmdom (ld_groups (ls_ld z))) \<le> maxCachedGroups"
  shows "load_inv z"
proof (rule load_invI)
  show "task_fine z t" if "t \<in> set (ls_tasks z)" for t
    by (rule task_fine_later [OF tasks [OF that]]) (simp_all add: same)
  show "fresh_load (ls_mark z (u, ch)) (ls_hist z) u ch (ce_tp e)" if "fmlookup (ld_cache (ls_ld z)) (u, ch) = Some e" for u ch e
    using cache [OF that] load_invD(4) [OF inv, of u ch e] same by metis
  show "fresh_group (ls_gmark z) (ls_hist z) g (ge_set e)" if "fmlookup (ld_groups (ls_ld z)) g = Some e" for g e
    using groups [OF that] load_invD(5) [OF inv, of g e] same by metis
  show "ret_fresh (ls_hist z) x" if "x \<in> set (ls_rets z)" for x using rets [OF that] same by simp
qed (simp_all add: same load_invD(1-3) [OF inv] card)

lemma remove_task_inv:
  assumes "load_inv y"
  shows "load_inv (y\<lparr>ls_tasks := remove1 t (ls_tasks y)\<rparr>)"
  by (rule load_inv_keep [OF assms])
    (auto intro: load_invD(6,7) [OF assms] load_invD(8) [OF assms] dest: subsetD [OF set_remove1_subset])

lemma add_task_inv:
  assumes "load_inv y" "task_fine y t"
  shows "load_inv (y\<lparr>ls_tasks := t # ls_tasks y\<rparr>)"
  by (rule load_inv_keep [OF assms(1)]) (auto intro: load_invD(6,7) [OF assms(1)] load_invD(8) [OF assms(1)] assms(2))

lemma add_ret_inv:
  assumes "load_inv y" "ret_fresh (ls_hist y) x"
  shows "load_inv (y\<lparr>ls_rets := x # ls_rets y\<rparr>)"
  by (rule load_inv_keep [OF assms(1)]) (auto intro: load_invD(6,7) [OF assms(1)] load_invD(8) [OF assms(1)] assms(2))

lemma cache_inv:
  assumes "load_inv y" "fresh_load (ls_mark y (u, ch)) (ls_hist y) u ch tp" "load_store u ch g tp now (ls_ld y) = Some l"
  shows "load_inv (y\<lparr>ls_ld := l\<rparr>)"
proof -
  have l: "l = ls_ld y\<lparr>ld_cache := fmupd (u, ch) \<lparr>ce_tp = tp, ce_expires = now + cacheTTL\<rparr> (ld_cache (ls_ld y))\<rparr>"
    using assms(3) by (simp add: load_store_def split: if_splits)
  show ?thesis
    by (rule load_inv_keep [OF assms(1)])
      (auto simp: l assms(2) split: if_splits intro: load_invD(6,7) [OF assms(1)] load_invD(8) [OF assms(1)])
qed

lemma group_cache_inv:
  assumes "load_inv y" "fresh_group (ls_gmark y) (ls_hist y) gr s" "group_store gr g s now (ls_ld y) = Some l"
  shows "load_inv (y\<lparr>ls_ld := l\<rparr>)"
proof -
  define gs where "gs = (if fcard (fmdom (ld_groups (ls_ld y))) \<ge> maxCachedGroups then fmempty else ld_groups (ls_ld y))"
  have l: "l = ls_ld y\<lparr>ld_groups := fmupd gr \<lparr>ge_set = s, ge_expires = now + cacheTTL\<rparr> gs\<rparr>"
    using assms(3) by (simp add: group_store_def gs_def Let_def split: if_splits)
  have gs: "fmlookup gs k = Some e \<Longrightarrow> fmlookup (ld_groups (ls_ld y)) k = Some e" for k e
    by (simp add: gs_def split: if_splits)
  have "fcard (finsert gr (fmdom gs)) \<le> Suc (fcard (fmdom gs))" by (simp add: fcard_finsert_if)
  also have "\<dots> \<le> maxCachedGroups" by (simp add: gs_def maxCachedGroups_def fcard_fempty)
  finally have card: "fcard (finsert gr (fmdom gs)) \<le> maxCachedGroups" .
  show ?thesis
    by (rule load_inv_keep [OF assms(1)])
      (auto simp: l assms(2) card split: if_splits intro: load_invD(6,7) [OF assms(1)] dest: gs)
qed

lemma store_gen: "load_store u ch g tp now l = Some l' \<Longrightarrow> g = ld_generation l" "group_store gr g s now l = Some l' \<Longrightarrow> g = ld_generation l"
  by (simp_all add: load_store_def group_store_def split: if_splits)

lemma load_step_inv:
  assumes inv: "load_inv y" and ok: "load_ok p y"
  shows "load_inv (load_step p y)"
proof (cases p)
  case (LMutate db)
  have "load_inv (y\<lparr>ls_hist := db # ls_hist y\<rparr>)"
  proof (rule load_invI)
    fix t assume "t \<in> set (ls_tasks (y\<lparr>ls_hist := db # ls_hist y\<rparr>))"
    then have "task_fine y t" using load_invD(6) [OF inv] by simp
    then show "task_fine (y\<lparr>ls_hist := db # ls_hist y\<rparr>) t" by (rule task_fine_later) simp_all
  qed (auto intro: le_SucI load_invD(2,3,8) [OF inv] fresh_load_Cons [OF load_invD(4) [OF inv]] fresh_group_Cons [OF load_invD(5) [OF inv]]
      ret_fresh_Cons [OF load_invD(7) [OF inv]])
  with LMutate show ?thesis by simp
next
  case (LInvalidate u ch)
  let ?z = "load_step p y"
  show ?thesis
  proof (rule load_invI)
    fix t assume "t \<in> set (ls_tasks ?z)"
    then have "task_fine y t" using load_invD(6) [OF inv] LInvalidate by simp
    then show "task_fine ?z t" by (rule task_fine_later) (simp_all add: LInvalidate Invalidate_def)
  qed (auto simp: LInvalidate Invalidate_def load_invD(1-3) [OF inv] split: if_splits
      intro: load_invD(4,5,7) [OF inv] load_invD(8) [OF inv])
next
  case LInvalidateAll
  let ?z = "load_step p y"
  show ?thesis
  proof (rule load_invI)
    fix t assume "t \<in> set (ls_tasks ?z)"
    then have "task_fine y t" using load_invD(6) [OF inv] LInvalidateAll by simp
    then show "task_fine ?z t" by (rule task_fine_later) (simp_all add: LInvalidateAll InvalidateAll_def)
  qed (auto simp: LInvalidateAll InvalidateAll_def fcard_fempty load_invD(1-3) [OF inv] intro: load_invD(7) [OF inv])
next
  case (LBegin u ch now)
  then show ?thesis
    using add_ret_inv [OF inv] load_cached_fresh [OF inv] add_task_inv [OF inv new_task_fine(1) [OF inv]] by (auto split: option.splits)
next
  case (LGBegin g now)
  then show ?thesis
    using add_ret_inv [OF inv] group_cached_fresh [OF inv] add_task_inv [OF inv new_task_fine(2) [OF inv]] by (auto split: option.splits)
next
  case (LDrop t)
  then show ?thesis using remove_task_inv [OF inv] by simp
next
  case (LFinish u ch g vs view now)
  let ?t = "LoadTask u ch g vs" and ?y = "y\<lparr>ls_tasks := remove1 (LoadTask u ch g vs) (ls_tasks y)\<rparr>"
  have y1: "load_inv ?y" by (rule remove_task_inv [OF inv])
  have "load_inv (?y\<lparr>ls_ld := l, ls_rets := LoadRet u ch tp (ls_mark y (u, ch)) # ls_rets y\<rparr>)"
    if t: "?t \<in> set (ls_tasks y)" and db: "loadFromDB (ask_at (ls_hist y) view) u ch = Inr tp" and st: "load_store u ch g tp now (ls_ld y) = Some l" for tp l
  proof -
    have "ls_mark y (u, ch) \<le> vs" "0 < vs" using load_invD(6) [OF inv t] store_gen(1) [OF st] by simp_all
    then have fr: "fresh_load (ls_mark y (u, ch)) (ls_hist y) u ch tp" using ok LFinish by (intro fresh_loadI [OF db]) simp_all
    have "load_inv (?y\<lparr>ls_ld := l\<rparr>)" by (rule cache_inv [OF y1, of u ch tp g now]) (use fr st in simp_all)
    then show ?thesis using add_ret_inv [of "?y\<lparr>ls_ld := l\<rparr>" "LoadRet u ch tp (ls_mark y (u, ch))"] fr by simp
  qed
  with LFinish y1 inv show ?thesis by (auto simp: Let_def split: sum.splits option.splits)
next
  case (LGFinish gr g vs view now)
  let ?t = "GroupTask gr g vs" and ?y = "y\<lparr>ls_tasks := remove1 (GroupTask gr g vs) (ls_tasks y)\<rparr>"
  have y1: "load_inv ?y" by (rule remove_task_inv [OF inv])
  have "load_inv (?y\<lparr>ls_ld := l, ls_rets := GroupRet gr s (ls_gmark y) # ls_rets y\<rparr>)"
    if t: "?t \<in> set (ls_tasks y)" and db: "loadServerGroupPermissions (ask_at (ls_hist y) view) gr = Inr s"
      and st: "group_store gr g s now (ls_ld y) = Some l" for s l
  proof -
    have "ls_gmark y \<le> vs" "0 < vs" using load_invD(6) [OF inv t] store_gen(2) [OF st] by simp_all
    then have fr: "fresh_group (ls_gmark y) (ls_hist y) gr s" using ok LGFinish by (intro fresh_groupI [OF db]) simp_all
    have "load_inv (?y\<lparr>ls_ld := l\<rparr>)" by (rule group_cache_inv [OF y1, of gr s g now]) (use fr st in simp_all)
    then show ?thesis using add_ret_inv [of "?y\<lparr>ls_ld := l\<rparr>" "GroupRet gr s (ls_gmark y)"] fr by simp
  qed
  with LGFinish y1 inv show ?thesis by (auto simp: Let_def split: sum.splits option.splits)
qed

lemma load_start_inv: "load_inv (load_start db)"
  by (simp add: load_inv_def load_start_def NewLoader_def fcard_fempty)

interpretation pl: invariant_system load_step load_ok load_inv "load_start db"
  by unfold_locales (simp_all add: load_start_inv load_step_inv)

subsection \<open>No stale result after an invalidation\<close>

fun ret_mark :: "load_return \<Rightarrow> nat" where
  "ret_mark (LoadRet u ch tp n) = n"
| "ret_mark (GroupRet g s n) = n"

fun mark_of :: "load_sys \<Rightarrow> load_return \<Rightarrow> nat" where
  "mark_of y (LoadRet u ch tp n) = ls_mark y (u, ch)"
| "mark_of y (GroupRet g s n) = ls_gmark y"

text \<open>The returned value is assembled from table states of version \<open>n\<close> or later.\<close>

fun fresh_since :: "nat \<Rightarrow> perm_db list \<Rightarrow> load_return \<Rightarrow> bool" where
  "fresh_since n hist (LoadRet u ch tp m) = fresh_load n hist u ch tp"
| "fresh_since n hist (GroupRet g s m) = fresh_group n hist g s"

text \<open>Which results an invalidation is about.\<close>

fun covers :: "load_op \<Rightarrow> load_return \<Rightarrow> bool" where
  "covers LInvalidateAll x = True"
| "covers (LInvalidate u ch) (LoadRet u' ch' tp n) = (u' = u \<and> ch' = ch)"
| "covers _ x = False"

lemma fresh_since_mono: "ret_fresh hist x \<Longrightarrow> n \<le> ret_mark x \<Longrightarrow> fresh_since n hist x"
  by (cases x) (auto simp: fresh_load_def fresh_group_def intro: le_trans)

lemma load_step_marks: "load_inv y \<Longrightarrow> mark_of y x \<le> mark_of (load_step p y) x"
  by (cases p; cases x) (auto simp: Let_def load_invD(2,3) split: option.splits sum.splits)

lemma load_step_rets: "\<exists>news. ls_rets (load_step p y) = news @ ls_rets y \<and> (\<forall>x \<in> set news. ret_mark x = mark_of y x)"
proof (cases "ls_rets (load_step p y) = ls_rets y")
  case False
  then obtain x where "ls_rets (load_step p y) = x # ls_rets y" "ret_mark x = mark_of y x"
    by (cases p) (auto simp: Let_def split: option.splits sum.splits if_splits)
  then show ?thesis by (intro exI [of _ "[x]"]) simp
qed simp

lemma load_run_rets:
  assumes "load_inv y" "ops_ok load_step load_ok ps y"
  shows "\<exists>news. ls_rets (run_ops load_step ps y) = news @ ls_rets y \<and> (\<forall>x \<in> set news. mark_of y x \<le> ret_mark x)"
  using assms
proof (induction ps arbitrary: y)
  case (Cons p ps)
  then have inv: "load_inv (load_step p y)" by (auto intro: load_step_inv)
  obtain n1 where n1: "ls_rets (load_step p y) = n1 @ ls_rets y" "\<forall>x \<in> set n1. ret_mark x = mark_of y x"
    using load_step_rets by blast
  obtain n2 where n2: "ls_rets (run_ops load_step ps (load_step p y)) = n2 @ ls_rets (load_step p y)"
    "\<forall>x \<in> set n2. mark_of (load_step p y) x \<le> ret_mark x"
    using Cons.IH [OF inv] Cons.prems by auto
  have "\<forall>x \<in> set (n2 @ n1). mark_of y x \<le> ret_mark x"
    using n1(2) n2(2) by (auto intro: le_trans [OF load_step_marks [OF Cons.prems(1)]])
  then show ?case using n1(1) n2(1) by (intro exI [of _ "n2 @ n1"]) simp
qed simp

lemma covers_mark: "covers p x \<Longrightarrow> mark_of (load_step p y) x = length (ls_hist y)"
  by (cases p; cases x) auto

text \<open>C4: Whatever interleaving of database writes, cache invalidations and loads has happened, every result
  a load returns after an invalidation that covers it is assembled only from table states no older
  than the ones at the invalidation; this includes loads that were already running and had queried
  the older tables, and it includes results served from the cache.\<close>

theorem loader_never_stale:
  assumes "ops_ok load_step load_ok ps (load_start db)" "y = run_ops load_step ps (load_start db)"
    and "load_ok p y" "ops_ok load_step load_ok qs (load_step p y)" "z = run_ops load_step qs (load_step p y)"
  shows "\<exists>news. ls_rets z = news @ ls_rets (load_step p y) \<and> (\<forall>x \<in> set news. covers p x \<longrightarrow> fresh_since (length (ls_hist y)) (ls_hist z) x)"
proof -
  have y: "load_inv (load_step p y)" using assms(1-3) pl.run_start_inv load_step_inv by blast
  have z: "load_inv z" using pl.run_inv [OF y assms(4)] assms(5) by simp
  obtain news where n: "ls_rets z = news @ ls_rets (load_step p y)" "\<forall>x \<in> set news. mark_of (load_step p y) x \<le> ret_mark x"
    using load_run_rets [OF y assms(4)] assms(5) by blast
  have "fresh_since (length (ls_hist y)) (ls_hist z) x" if "x \<in> set news" "covers p x" for x
    using fresh_since_mono [of "ls_hist z" x] load_invD(7) [OF z, of x] n that covers_mark [OF that(2), of y] by auto
  then show ?thesis using n(1) by blast
qed

text \<open>A load that queried the tables before a write is dropped at its store and repeated.\<close>

definition loader_demo_db :: "int \<Rightarrow> perm_db" where
  "loader_demo_db v =
     \<lparr>pd_permissions = fmap_of_list [(1, \<lparr>pr_key = ''b_x'', pr_value = v, pr_grant = 0, pr_skip = False, pr_negate = False\<rparr>)],
      pd_server_group_members = [(7, 3)], pd_server_group_permissions = [(3, 1)], pd_client_permissions = [],
      pd_channel_group_members = [], pd_channel_group_permissions = [], pd_channel_client_permissions = [],
      pd_channel_permissions = [], pd_channels = fmempty\<rparr>"

definition loader_demo_after :: "load_op list" where
  "loader_demo_after = [LFinish 7 5 0 1 (\<lambda>_. 1) 10, LBegin 7 5 20, LFinish 7 5 1 2 (\<lambda>_. 2) 30, LBegin 7 5 40]"

theorem loader_never_stale_witness:
  "let y = run_ops load_step [LBegin 7 5 0, LMutate (loader_demo_db 0)] (load_start (loader_demo_db 1));
       z = run_ops load_step loader_demo_after (load_step LInvalidateAll y)
   in ls_rets (load_step LInvalidateAll y) = [] \<and> length (ls_rets z) = 2 \<and> list_all (fresh_since 2 (ls_hist z)) (ls_rets z)"
proof -
  define y where "y = run_ops load_step [LBegin 7 5 0, LMutate (loader_demo_db 0)] (load_start (loader_demo_db 1))"
  define z where "z = run_ops load_step loader_demo_after (load_step LInvalidateAll y)"
  have none: "ls_rets (load_step LInvalidateAll y) = []" unfolding y_def by code_simp
  have two: "length (ls_rets z) = 2" unfolding z_def y_def by code_simp
  have hist: "length (ls_hist y) = 2" unfolding y_def by code_simp
  have ok: "ops_ok load_step load_ok loader_demo_after (load_step LInvalidateAll y)"
    by (simp add: loader_demo_after_def y_def load_start_def load_cached_def NewLoader_def InvalidateAll_def Let_def split: sum.splits option.splits)
  have "list_all (fresh_since 2 (ls_hist z)) (ls_rets z)"
    using loader_never_stale [OF _ y_def _ ok z_def] none hist by (auto simp: list_all_iff)
  with none two show ?thesis unfolding y_def z_def Let_def by blast
qed

text \<open>The cache of group permission sets never holds more than 1024 groups.\<close>

theorem group_cache_bounded:
  assumes "ops_ok load_step load_ok ps (load_start db)"
  shows "fcard (fmdom (ld_groups (ls_ld (run_ops load_step ps (load_start db))))) \<le> maxCachedGroups"
  by (rule load_invD(8) [OF pl.run_start_inv [OF assms]])

end
