(* ===== verification/Server_Client.thy ===== *)
theory Server_Client
  imports Netproto_Frame
begin

text \<open>
  A control-channel connection (\<open>Client\<close> in \<^verbatim>\<open>internal/server/tcp.go\<close>): identity, pending challenge, rules
  gate and activity statistics.  Every method holds the client's lock for its whole body.
\<close>

text \<open>The codes of error frames.\<close>

datatype err_code = errCodeUnknown | errCodeMalformed | errCodeNotAuthenticated | errCodePermissionDenied | errCodeUnavailable
  | errCodeNotFound | errCodeConflict

record tcp_client =
  tc_ID :: client_id
  tc_Username :: string
  tc_UniqueID :: string
  tc_UserID :: user_id
  tc_authed :: bool
  tc_admin :: bool
  tc_rulesPending :: bool
  tc_lastActive :: "time option"
  tc_bytesIn :: int
  tc_bytesOut :: int
  tc_lastPingAt :: "time option"
  tc_rttNs :: int
  tc_rttKnown :: bool
  tc_challenge :: "byte list option"
  tc_challengeUID :: string
  tc_challengeNick :: string
  tc_challengeExp :: "time option"
  tc_x25519Key :: string

definition new_client :: "client_id \<Rightarrow> time \<Rightarrow> tcp_client" where
  "new_client i now =
     \<lparr>tc_ID = i, tc_Username = [], tc_UniqueID = [], tc_UserID = 0, tc_authed = False, tc_admin = False,
      tc_rulesPending = False, tc_lastActive = Some now, tc_bytesIn = 0, tc_bytesOut = 0, tc_lastPingAt = None,
      tc_rttNs = 0, tc_rttKnown = False, tc_challenge = None, tc_challengeUID = [], tc_challengeNick = [],
      tc_challengeExp = None, tc_x25519Key = []\<rparr>"

definition setIdentity :: "string \<Rightarrow> string \<Rightarrow> user_id \<Rightarrow> bool \<Rightarrow> tcp_client \<Rightarrow> tcp_client" where
  "setIdentity uniqueID nickname uid admin c =
     c\<lparr>tc_UniqueID := uniqueID, tc_Username := nickname, tc_UserID := uid, tc_admin := admin, tc_authed := True\<rparr>"

definition promote :: "user_id \<Rightarrow> bool \<Rightarrow> tcp_client \<Rightarrow> tcp_client" where
  "promote uid admin c = c\<lparr>tc_UserID := uid, tc_admin := tc_admin c \<or> admin\<rparr>"

definition setX25519 :: "string \<Rightarrow> tcp_client \<Rightarrow> tcp_client" where
  "setX25519 key c = c\<lparr>tc_x25519Key := key\<rparr>"

definition noteReceived :: "time \<Rightarrow> int \<Rightarrow> tcp_client \<Rightarrow> tcp_client" where
  "noteReceived now n c = c\<lparr>tc_lastActive := Some now, tc_bytesIn := tc_bytesIn c + n\<rparr>"

definition noteSent :: "int \<Rightarrow> tcp_client \<Rightarrow> tcp_client" where
  "noteSent n c = c\<lparr>tc_bytesOut := tc_bytesOut c + n\<rparr>"

definition notePingSent :: "time \<Rightarrow> tcp_client \<Rightarrow> tcp_client" where
  "notePingSent now c = c\<lparr>tc_lastPingAt := Some now\<rparr>"

text \<open>Go's integer division truncates; both operands are durations of at least 0 here.\<close>

definition ewmaRTT :: "int \<Rightarrow> int \<Rightarrow> bool \<Rightarrow> int" where
  "ewmaRTT prev sample known = (if \<not> known then sample else prev * 7 div 8 + sample div 8)"

definition notePong :: "time \<Rightarrow> tcp_client \<Rightarrow> tcp_client" where
  "notePong now c =
     (case tc_lastPingAt c of
        None \<Rightarrow> c
      | Some t \<Rightarrow> c\<lparr>tc_rttNs := ewmaRTT (tc_rttNs c) (now - t) (tc_rttKnown c), tc_rttKnown := True\<rparr>)"

definition setChallenge :: "string \<Rightarrow> string \<Rightarrow> byte list \<Rightarrow> time \<Rightarrow> tcp_client \<Rightarrow> tcp_client" where
  "setChallenge uniqueID nickname challenge expires c =
     c\<lparr>tc_challengeUID := uniqueID, tc_challengeNick := nickname, tc_challenge := Some challenge, tc_challengeExp := Some expires\<rparr>"

text \<open>The zero time is before every present time, so an unset expiry counts as expired.\<close>

definition takeChallenge :: "time \<Rightarrow> string \<Rightarrow> tcp_client \<Rightarrow> (byte list \<times> string) option \<times> tcp_client" where
  "takeChallenge now uniqueID c =
     (case tc_challenge c of
        None \<Rightarrow> (None, c)
      | Some ch \<Rightarrow>
          if (case tc_challengeExp c of None \<Rightarrow> True | Some t \<Rightarrow> now > t) then (None, c)
          else if uniqueID \<noteq> [] \<and> tc_challengeUID c \<noteq> uniqueID then (None, c)
          else (Some (ch, tc_challengeNick c),
                c\<lparr>tc_challenge := None, tc_challengeUID := [], tc_challengeNick := [], tc_challengeExp := None\<rparr>))"

definition setRulesPending :: "bool \<Rightarrow> tcp_client \<Rightarrow> tcp_client" where
  "setRulesPending b c = c\<lparr>tc_rulesPending := b\<rparr>"

lemma takeChallenge_single_use:
  "takeChallenge now u c = (Some (ch, nick), c') \<Longrightarrow>
     tc_challenge c = Some ch \<and> tc_challengeNick c = nick \<and> (u \<noteq> [] \<longrightarrow> tc_challengeUID c = u) \<and>
     (\<exists>t. tc_challengeExp c = Some t \<and> now \<le> t) \<and> tc_challenge c' = None"
  by (auto simp: takeChallenge_def split: option.splits if_splits)

lemma takeChallenge_cases:
  obtains "takeChallenge now u c = (None, c)"
  | ch where "tc_challenge c = Some ch" "takeChallenge now u c = (Some (ch, tc_challengeNick c),
      c\<lparr>tc_challenge := None, tc_challengeUID := [], tc_challengeNick := [], tc_challengeExp := None\<rparr>)"
proof (cases "tc_challenge c")
  case None
  then show thesis using that(1) by (simp add: takeChallenge_def)
next
  case (Some ch)
  then have "takeChallenge now u c = (None, c) \<or> takeChallenge now u c = (Some (ch, tc_challengeNick c),
      c\<lparr>tc_challenge := None, tc_challengeUID := [], tc_challengeNick := [], tc_challengeExp := None\<rparr>)"
    unfolding takeChallenge_def by (simp only: option.case split: if_split option.split) blast
  then show thesis using that Some by blast
qed

lemma takeChallenge_fields [simp]:
  "tc_authed (snd (takeChallenge now u c)) = tc_authed c" "tc_UserID (snd (takeChallenge now u c)) = tc_UserID c"
  "tc_admin (snd (takeChallenge now u c)) = tc_admin c" "tc_UniqueID (snd (takeChallenge now u c)) = tc_UniqueID c"
  "tc_ID (snd (takeChallenge now u c)) = tc_ID c" "tc_rulesPending (snd (takeChallenge now u c)) = tc_rulesPending c"
  by (rule takeChallenge_cases [of now u c]; simp)+

text \<open>The smoothed round trip time stays within the range of its samples.\<close>

lemma ewmaRTT_bounds: "0 \<le> prev \<Longrightarrow> 0 \<le> s \<Longrightarrow> prev \<le> b \<Longrightarrow> s \<le> b \<Longrightarrow> 0 \<le> ewmaRTT prev s k \<and> ewmaRTT prev s k \<le> b"
  by (auto simp: ewmaRTT_def)

end
