(* ===== verification/Perm_Checker.thy ===== *)
theory Perm_Checker
  imports Perm_Loader Server_Client
begin

text \<open>
  The permission middleware (\<^verbatim>\<open>internal/server/perms.go\<close>) and the checks other handlers build from it:
  \<open>permCheckerInChannel\<close> and \<open>uploadQuotaMB\<close> (\<^verbatim>\<open>files.go\<close>), \<open>checkPowerOver\<close> (\<^verbatim>\<open>handlers.go\<close>), \<open>subscribeAllowed\<close>
  (\<^verbatim>\<open>subscriptions.go\<close>), \<open>canTalk\<close> and \<open>canPublishVideo\<close> (\<^verbatim>\<open>voice.go\<close>), \<open>grantCapOk\<close>, \<open>ClientIsBot\<close> and
  \<open>guestGroupSet\<close> (\<^verbatim>\<open>groups.go\<close>).

  A check loads through the cache, so it takes the loader and returns it updated.
\<close>

record perm_deps =
  pd_wired :: bool
  pd_ask :: "db_query \<Rightarrow> db_reply"
  pd_now :: time
  pd_guestGroup :: int
  pd_state :: "manager option"

record permChecker =
  pc_tp :: TieredPermissions
  pc_admin :: bool
  pc_guest :: bool

datatype perm_error = PermsUnavailable | PermsLoadFailed db_query

definition guestGroupSet :: "perm_deps \<Rightarrow> loader \<Rightarrow> (perm_error + PermissionSet option) \<times> loader" where
  "guestGroupSet d l =
     (if \<not> pd_wired d \<or> pd_guestGroup d = 0 then (Inr None, l)
      else
        (case LoadGroupPermissions (pd_ask d) (pd_now d) (pd_guestGroup d) l of
           (Inl e, l') \<Rightarrow> (Inl (PermsLoadFailed e), l')
         | (Inr s, l') \<Rightarrow> (Inr (Some s), l')))"

definition client_channel :: "perm_deps \<Rightarrow> tcp_client \<Rightarrow> channel_id" where
  "client_channel d c =
     (case pd_state d of
        None \<Rightarrow> 0
      | Some m \<Rightarrow> (case GetClient (tc_ID c) m of None \<Rightarrow> 0 | Some sc \<Rightarrow> c_ChannelID sc))"

text \<open>The tiers of the virtual guest identity: the channel tier of its channel, then the Guest group.\<close>

definition guest_channel_tier :: "perm_deps \<Rightarrow> channel_id \<Rightarrow> loader \<Rightarrow> (perm_error + TieredPermissions) \<times> loader" where
  "guest_channel_tier d ch l =
     (if ch = 0 then (Inr NewTieredPermissions, l)
      else
        (case LoadForClient (pd_ask d) (pd_now d) 0 ch l of
           (Inl e, l') \<Rightarrow> (Inl (PermsLoadFailed e), l')
         | (Inr loaded, l') \<Rightarrow>
             (Inr (case tp_Get loaded TierChannel of
                     (s, True) \<Rightarrow> tp_Set TierChannel s NewTieredPermissions
                   | _ \<Rightarrow> NewTieredPermissions), l')))"

definition permCheckerFor :: "perm_deps \<Rightarrow> tcp_client \<Rightarrow> loader \<Rightarrow> (perm_error + permChecker) \<times> loader" where
  "permCheckerFor d c l =
     (if \<not> pd_wired d then (Inl PermsUnavailable, l)
      else if tc_UserID c = 0 then
        (case guest_channel_tier d (client_channel d c) l of
           (Inl e, l1) \<Rightarrow> (Inl e, l1)
         | (Inr tp, l1) \<Rightarrow>
             (case guestGroupSet d l1 of
                (Inl e, l2) \<Rightarrow> (Inl e, l2)
              | (Inr so, l2) \<Rightarrow>
                  (Inr \<lparr>pc_tp = (case so of None \<Rightarrow> tp | Some s \<Rightarrow> tp_Set TierServerGroup (Some s) tp),
                        pc_admin = False, pc_guest = True\<rparr>, l2)))
      else
        (case LoadForClient (pd_ask d) (pd_now d) (tc_UserID c) (client_channel d c) l of
           (Inl e, l') \<Rightarrow> (Inl (PermsLoadFailed e), l')
         | (Inr tp, l') \<Rightarrow> (Inr \<lparr>pc_tp = tp, pc_admin = tc_admin c, pc_guest = False\<rparr>, l')))"

subsection \<open>Decisions\<close>

definition granted :: "permChecker \<Rightarrow> PermissionKey \<Rightarrow> bool" where
  "granted p key = (pc_admin p \<or> (case ResolveBool (pc_tp p) key of Inl _ \<Rightarrow> False | Inr (ok, _) \<Rightarrow> ok))"

definition powerAtLeast :: "permChecker \<Rightarrow> PermissionKey \<Rightarrow> int \<Rightarrow> bool" where
  "powerAtLeast p key needed = (pc_admin p \<or> (case IsGranted (pc_tp p) key needed of Inl _ \<Rightarrow> False | Inr (ok, _) \<Rightarrow> ok))"

definition neededPower :: "permChecker \<Rightarrow> PermissionKey \<Rightarrow> int" where
  "neededPower p key = (case ResolveInt (pc_tp p) key of Inl _ \<Rightarrow> 0 | Inr (v, _) \<Rightarrow> v)"

definition own_power :: "permChecker \<Rightarrow> PermissionKey \<Rightarrow> int" where
  "own_power p key = (case ResolveInt (pc_tp p) key of Inl _ \<Rightarrow> 0 | Inr (v, _) \<Rightarrow> v)"

definition notNegated :: "permChecker \<Rightarrow> PermissionKey \<Rightarrow> bool" where
  "notNegated p key =
     (if pc_admin p then True
      else (case Resolve (pc_tp p) key of Inl ErrPermissionNotSet \<Rightarrow> True | Inr (perm, _) \<Rightarrow> \<not> Negate perm))"

definition allowedByDefault :: "permChecker \<Rightarrow> PermissionKey \<Rightarrow> bool" where
  "allowedByDefault p key =
     (if pc_admin p then True
      else
        (case Resolve (pc_tp p) key of
           Inl ErrPermissionNotSet \<Rightarrow> True
         | Inr (perm, _) \<Rightarrow> \<not> Negate perm \<and> Value perm \<noteq> 0))"

definition joinAllowed :: "permChecker \<Rightarrow> int \<Rightarrow> bool" where
  "joinAllowed p needed = (pc_admin p \<or> own_power p ''i_channel_join_power'' \<ge> needed)"

definition talkAllowed :: "permChecker \<Rightarrow> bool" where
  "talkAllowed p =
     (if pc_admin p then True
      else notNegated p PermissionKeyClientTalkPower \<and>
        own_power p PermissionKeyClientTalkPower \<ge> neededPower p ''i_client_needed_talk_power'')"

definition whisperAllowed :: "permChecker \<Rightarrow> bool" where
  "whisperAllowed p = (if pc_guest p then False else notNegated p ''i_client_whisper_power'')"

definition videoPublishAllowed :: "permChecker \<Rightarrow> bool" where
  "videoPublishAllowed p =
     (if pc_admin p then True
      else
        (case Resolve (pc_tp p) ''b_client_video_publish'' of
           Inl ErrPermissionNotSet \<Rightarrow> True
         | Inr (perm, _) \<Rightarrow> \<not> Negate perm \<and> Value perm \<noteq> 0))"

definition ftUploadAllowed :: "permChecker \<Rightarrow> bool" where
  "ftUploadAllowed p = (if pc_guest p then False else notNegated p ''i_ft_file_upload_power'')"

definition ftDownloadAllowed :: "permChecker \<Rightarrow> bool" where
  "ftDownloadAllowed p = notNegated p ''i_ft_file_download_power''"

subsection \<open>Checks built from them\<close>

definition permCheckerInChannel :: "perm_deps \<Rightarrow> tcp_client \<Rightarrow> channel_id \<Rightarrow> loader \<Rightarrow> (perm_error + permChecker) \<times> loader" where
  "permCheckerInChannel d c ch l =
     (if tc_UserID c = 0 then permCheckerFor d c l
      else if \<not> pd_wired d then (Inl PermsUnavailable, l)
      else
        (case LoadForClient (pd_ask d) (pd_now d) (tc_UserID c) ch l of
           (Inl e, l') \<Rightarrow> (Inl (PermsLoadFailed e), l')
         | (Inr tp, l') \<Rightarrow> (Inr \<lparr>pc_tp = tp, pc_admin = tc_admin c, pc_guest = False\<rparr>, l')))"

definition uploadQuotaMB :: "permChecker \<Rightarrow> int" where
  "uploadQuotaMB p = (if pc_admin p then 0 else own_power p ''i_ft_quota_mb_upload_per_client'')"

definition ClientIsBot :: "perm_deps \<Rightarrow> tcp_client \<Rightarrow> loader \<Rightarrow> bool \<times> loader" where
  "ClientIsBot d c l =
     (if tc_UserID c = 0 \<or> \<not> pd_wired d then (False, l)
      else
        (case LoadForClient (pd_ask d) (pd_now d) (tc_UserID c) 0 l of
           (Inl _, l') \<Rightarrow> (False, l')
         | (Inr tp, l') \<Rightarrow>
             ((case Resolve tp ''b_client_is_bot'' of Inl _ \<Rightarrow> False | Inr (perm, _) \<Rightarrow> \<not> Negate perm \<and> Value perm \<noteq> 0), l')))"

datatype power_error = PowerPerms perm_error | PowerTargetAdmin | PowerInsufficient PermissionKey

definition checkPowerOver ::
  "perm_deps \<Rightarrow> tcp_client \<Rightarrow> tcp_client \<Rightarrow> PermissionKey \<Rightarrow> PermissionKey \<Rightarrow> loader \<Rightarrow> (power_error + unit) \<times> loader" where
  "checkPowerOver d caller target powerKey neededKey l =
     (case permCheckerFor d caller l of
        (Inl e, l1) \<Rightarrow> (Inl (PowerPerms e), l1)
      | (Inr callerPC, l1) \<Rightarrow>
          (case permCheckerFor d target l1 of
             (Inl e, l2) \<Rightarrow> (Inl (PowerPerms e), l2)
           | (Inr targetPC, l2) \<Rightarrow>
               (if \<not> pc_admin callerPC \<and> pc_admin targetPC then (Inl PowerTargetAdmin, l2)
                else if \<not> powerAtLeast callerPC powerKey (neededPower targetPC neededKey)
                then (Inl (PowerInsufficient powerKey), l2)
                else (Inr (), l2))))"

definition subscribe_decision :: "TieredPermissions \<Rightarrow> bool" where
  "subscribe_decision tp =
     (let pc = \<lparr>pc_tp = tp, pc_admin = False, pc_guest = False\<rparr>
      in powerAtLeast pc ''i_channel_subscribe_power'' (neededPower pc ''i_channel_needed_subscribe_power''))"

definition subscribeAllowed :: "perm_deps \<Rightarrow> tcp_client \<Rightarrow> channel_id \<Rightarrow> loader \<Rightarrow> bool \<times> loader" where
  "subscribeAllowed d c ch l =
     (if tc_admin c then (True, l)
      else if \<not> pd_wired d then (False, l)
      else if tc_UserID c = 0 then
        (case guestGroupSet d l of
           (Inl _, l') \<Rightarrow> (False, l')
         | (Inr so, l') \<Rightarrow>
             (subscribe_decision (case so of None \<Rightarrow> NewTieredPermissions | Some s \<Rightarrow> tp_Set TierServerGroup (Some s) NewTieredPermissions), l'))
      else
        (case LoadForClient (pd_ask d) (pd_now d) (tc_UserID c) ch l of
           (Inl _, l') \<Rightarrow> (False, l')
         | (Inr tp, l') \<Rightarrow> (subscribe_decision tp, l')))"

text \<open>The voice gates; \<open>co\<close> is the registered connection of the client id, if any.\<close>

definition canTalk :: "perm_deps \<Rightarrow> tcp_client option \<Rightarrow> loader \<Rightarrow> bool \<times> loader" where
  "canTalk d co l =
     (case co of
        None \<Rightarrow> (False, l)
      | Some c \<Rightarrow> (case permCheckerFor d c l of (Inl _, l') \<Rightarrow> (False, l') | (Inr pc, l') \<Rightarrow> (talkAllowed pc, l')))"

definition canPublishVideo :: "perm_deps \<Rightarrow> tcp_client option \<Rightarrow> loader \<Rightarrow> bool \<times> loader" where
  "canPublishVideo d co l =
     (case co of
        None \<Rightarrow> (False, l)
      | Some c \<Rightarrow> (case permCheckerFor d c l of (Inl _, l') \<Rightarrow> (False, l') | (Inr pc, l') \<Rightarrow> (videoPublishAllowed pc, l')))"

definition grantCapOk :: "permChecker \<Rightarrow> PermissionKey \<Rightarrow> int \<Rightarrow> int \<Rightarrow> bool" where
  "grantCapOk p key v g =
     (if pc_admin p \<or> granted p ''b_permission_modify_power_ignore'' then True
      else (case Resolve (pc_tp p) key of Inl _ \<Rightarrow> False | Inr (own, _) \<Rightarrow> Grant own \<ge> v \<and> Grant own \<ge> g))"

subsection \<open>What the decisions look at\<close>

text \<open>The entry that wins: the one of the first tier, in evaluation order, that holds the key.\<close>

definition winner :: "TieredPermissions \<Rightarrow> PermissionKey \<Rightarrow> permission option" where
  "winner tp key =
     (case List.find (\<lambda>t. tier_entry tp key t \<noteq> None) tierOrder of None \<Rightarrow> None | Some t \<Rightarrow> tier_entry tp key t)"

text \<open>The power an entry is worth: 0 when it is missing or negated.\<close>

definition worth :: "permission option \<Rightarrow> int" where
  "worth e = (case e of None \<Rightarrow> 0 | Some p \<Rightarrow> if Negate p then 0 else Value p)"

definition denied :: "permission option \<Rightarrow> bool" where
  "denied e = (case e of None \<Rightarrow> False | Some p \<Rightarrow> Negate p)"

lemma find_first: "pre @ t # post = ts \<Longrightarrow> \<forall>u \<in> set pre. \<not> P u \<Longrightarrow> P t \<Longrightarrow> List.find P ts = Some t"
  by (induction pre arbitrary: ts) auto

lemma Resolve_winner:
  "Resolve tp key = (case winner tp key of
     None \<Rightarrow> Inl ErrPermissionNotSet
   | Some p \<Rightarrow> Inr (p\<lparr>Value := effective_value p\<rparr>, the (List.find (\<lambda>t. tier_entry tp key t \<noteq> None) tierOrder)))"
proof (cases "Resolve tp key")
  case (Inl e)
  then have "\<forall>t. tier_entry tp key t = None" by (simp add: Resolve_def resolve_tiers_Inl tierOrder_all)
  then have "List.find (\<lambda>t. tier_entry tp key t \<noteq> None) tierOrder = None" by (simp add: find_None_iff)
  with Inl show ?thesis by (cases e) (simp add: winner_def)
next
  case (Inr x)
  obtain r t where x: "x = (r, t)" by (cases x)
  from Inr obtain pre post p where p: "tierOrder = pre @ t # post" "\<forall>u \<in> set pre. tier_entry tp key u = None"
      "tier_entry tp key t = Some p" "r = p\<lparr>Value := effective_value p\<rparr>"
    unfolding x Resolve_def resolve_tiers_Inr by blast
  have "List.find (\<lambda>t. tier_entry tp key t \<noteq> None) tierOrder = Some t"
    by (rule find_first [OF p(1) [symmetric]]) (simp_all add: p)
  with Inr x p show ?thesis by (simp add: winner_def)
qed

lemmas decision_defs = granted_def powerAtLeast_def neededPower_def own_power_def notNegated_def allowedByDefault_def
  joinAllowed_def talkAllowed_def whisperAllowed_def videoPublishAllowed_def ftUploadAllowed_def ftDownloadAllowed_def
  ResolveBool_def ResolveInt_def IsGranted_def

lemma neededPower_worth: "neededPower p key = worth (winner (pc_tp p) key)" "own_power p key = worth (winner (pc_tp p) key)"
  by (simp_all add: decision_defs Resolve_winner worth_def effective_value_def split: option.split)

lemma notNegated_denied: "notNegated p key \<longleftrightarrow> pc_admin p \<or> \<not> denied (winner (pc_tp p) key)"
  by (simp add: decision_defs Resolve_winner denied_def split: option.split resolve_error.split)

lemma powerAtLeast_worth:
  "powerAtLeast p key n \<longleftrightarrow> pc_admin p \<or> (winner (pc_tp p) key \<noteq> None \<and> n \<le> worth (winner (pc_tp p) key))"
  by (auto simp: decision_defs Resolve_winner worth_def effective_value_def split: option.split)

lemma granted_worth: "granted p key \<longleftrightarrow> pc_admin p \<or> worth (winner (pc_tp p) key) \<noteq> 0"
  by (auto simp: decision_defs Resolve_winner worth_def effective_value_def split: option.split)

lemma allowedByDefault_worth:
  "allowedByDefault p key \<longleftrightarrow> pc_admin p \<or> winner (pc_tp p) key = None \<or> worth (winner (pc_tp p) key) \<noteq> 0"
  by (auto simp: decision_defs Resolve_winner worth_def effective_value_def split: option.split resolve_error.split)

lemma winner_worth_denied: "denied (winner tp key) \<Longrightarrow> worth (winner tp key) = 0"
  by (auto simp: denied_def worth_def split: option.splits)

text \<open>What a caller who is not a server admin may do, for every set of tiers.  A boolean needs a
  winning entry that is neither negated nor zero; a privileged power needs a winning entry worth at
  least the needed power; joining and talking count a missing power as 0, and talking is also refused
  by a negated entry; video is open unless the winning entry denies it; whispering and the file
  powers are open unless negated, and guests may neither whisper nor upload.\<close>

theorem checker_decisions:
  assumes "\<not> pc_admin p"
  shows "(granted p key \<longleftrightarrow> worth (winner (pc_tp p) key) \<noteq> 0) \<and>
    (powerAtLeast p key n \<longleftrightarrow> winner (pc_tp p) key \<noteq> None \<and> n \<le> worth (winner (pc_tp p) key)) \<and>
    (joinAllowed p n \<longleftrightarrow> n \<le> worth (winner (pc_tp p) ''i_channel_join_power'')) \<and>
    (talkAllowed p \<longleftrightarrow> \<not> denied (winner (pc_tp p) ''i_client_talk_power'') \<and>
      worth (winner (pc_tp p) ''i_client_needed_talk_power'') \<le> worth (winner (pc_tp p) ''i_client_talk_power'')) \<and>
    (videoPublishAllowed p \<longleftrightarrow>
      winner (pc_tp p) ''b_client_video_publish'' = None \<or> worth (winner (pc_tp p) ''b_client_video_publish'') \<noteq> 0) \<and>
    (whisperAllowed p \<longleftrightarrow> \<not> pc_guest p \<and> \<not> denied (winner (pc_tp p) ''i_client_whisper_power'')) \<and>
    (ftUploadAllowed p \<longleftrightarrow> \<not> pc_guest p \<and> \<not> denied (winner (pc_tp p) ''i_ft_file_upload_power'')) \<and>
    (ftDownloadAllowed p \<longleftrightarrow> \<not> denied (winner (pc_tp p) ''i_ft_file_download_power''))"
  using assms allowedByDefault_worth [of p "''b_client_video_publish''"]
  by (simp add: granted_worth powerAtLeast_worth joinAllowed_def talkAllowed_def neededPower_worth notNegated_denied
      whisperAllowed_def ftUploadAllowed_def ftDownloadAllowed_def PermissionKeyClientTalkPower_def
      videoPublishAllowed_def allowedByDefault_def)

definition talk_denied_tp :: TieredPermissions where
  "talk_denied_tp =
     tp_Set TierChannel (Some (fmap_of_list [(''i_client_talk_power'',
       Some \<lparr>Key = ''i_client_talk_power'', PType = PermissionTypeInteger, Value = 75, Grant = 0, Skip = False, Negate = True\<rparr>)])) NewTieredPermissions"

theorem checker_decisions_witness:
  "\<not> talkAllowed \<lparr>pc_tp = talk_denied_tp, pc_admin = False, pc_guest = False\<rparr> \<and>
   joinAllowed \<lparr>pc_tp = talk_denied_tp, pc_admin = False, pc_guest = False\<rparr> 0"
proof -
  have "denied (winner talk_denied_tp ''i_client_talk_power'')" "worth (winner talk_denied_tp ''i_channel_join_power'') = 0"
    by code_simp+
  then show ?thesis
    using checker_decisions [of "\<lparr>pc_tp = talk_denied_tp, pc_admin = False, pc_guest = False\<rparr>" _ 0] by simp
qed

subsection \<open>Whose tiers they look at\<close>

lemma tier_entry_new [simp]: "tier_entry NewTieredPermissions key t = None"
  by (simp add: tier_entry_def NewTieredPermissions_def)

lemma tier_entry_other: "tier_entry (tp_Set u s tp) key t = Some y \<Longrightarrow> t = u \<or> tier_entry tp key t = Some y"
  by (auto simp: tier_entry_def tp_Set_def split: if_splits)

lemma guest_channel_tier_only:
  "guest_channel_tier d ch l = (Inr tp, l') \<Longrightarrow> tier_entry tp key t \<noteq> None \<Longrightarrow> t = TierChannel"
  by (auto simp: guest_channel_tier_def tp_Get_def split: if_splits prod.splits sum.splits option.splits dest!: tier_entry_other)

lemma permCheckerFor_guest:
  assumes "permCheckerFor d c l = (Inr pc, l')" "tc_UserID c = 0"
  shows "\<not> pc_admin pc" "pc_guest pc" "tier_entry (pc_tp pc) key t \<noteq> None \<Longrightarrow> t = TierChannel \<or> t = TierServerGroup"
proof -
  obtain tp so l1 where "guest_channel_tier d (client_channel d c) l = (Inr tp, l1)" "guestGroupSet d l1 = (Inr so, l')"
    "pc = \<lparr>pc_tp = (case so of None \<Rightarrow> tp | Some s \<Rightarrow> tp_Set TierServerGroup (Some s) tp), pc_admin = False, pc_guest = True\<rparr>"
    using assms by (auto simp: permCheckerFor_def split: if_splits prod.splits sum.splits)
  then show "\<not> pc_admin pc" "pc_guest pc" "tier_entry (pc_tp pc) key t \<noteq> None \<Longrightarrow> t = TierChannel \<or> t = TierServerGroup"
    using guest_channel_tier_only [of d "client_channel d c" l tp l1 key t]
    by (auto split: option.splits dest!: tier_entry_other)
qed

lemma permCheckerFor_user:
  assumes "permCheckerFor d c l = (Inr pc, l')" "tc_UserID c \<noteq> 0"
  shows "pc_admin pc = tc_admin c" "\<not> pc_guest pc" "pd_wired d" "fst (LoadForClient (pd_ask d) (pd_now d) (tc_UserID c) (client_channel d c) l) = Inr (pc_tp pc)"
  using assms by (auto simp: permCheckerFor_def split: if_splits prod.splits sum.splits)


definition checker_demo_deps :: perm_deps where
  "checker_demo_deps = \<lparr>pd_wired = True, pd_ask = answer (loader_demo_db 1), pd_now = 0, pd_guestGroup = 3, pd_state = None\<rparr>"

lemma run_Inr: "\<not> isl (fst r) \<Longrightarrow> r = (Inr (projr (fst r)), snd r)"
  by (cases r) (auto simp: isl_def)


text \<open>A query on the tables never fails by itself, so a load on them succeeds.\<close>

lemma loadPermissionRows_answer:
  "\<exists>s. loadServerGroupPermissions (answer db) g = Inr s" "\<exists>s. loadChannelGroupPermissions (answer db) g = Inr s"
  "\<exists>s. loadClientPermissions (answer db) u = Inr s" "\<exists>s. loadClientPermissionsForChannel (answer db) u ch = Inr s"
  "\<exists>s. loadChannelClientPermissions (answer db) u ch = Inr s"
  by (simp_all add: loadServerGroupPermissions_def loadChannelGroupPermissions_def loadClientPermissions_def
      loadClientPermissionsForChannel_def loadChannelClientPermissions_def loadPermissionRows_def)

lemma load_sets_total: "(\<And>g. \<exists>s. f g = Inr s) \<Longrightarrow> \<exists>ss. load_sets f gs = Inr ss"
proof (induction gs)
  case (Cons g gs)
  then obtain s ss where "f g = Inr s" "load_sets f gs = Inr ss" by blast
  then show ?case by (simp add: ebind_def)
qed simp

lemma loadChannelPermissionChain_total: "\<exists>s. loadChannelPermissionChain (answer db) ch = Inr s"
  using channel_tier_nearest [of db ch "db_chain perm_maxChannelDepth (pd_channels db) ch"]
  by (cases "db_chain perm_maxChannelDepth (pd_channels db) ch")
     (auto simp: loadChannelPermissionChain_def channelPermissionChain_def ask_ids_def ebind_def loadChannelPermissions_answer)

lemma loadFromDB_total: "\<exists>tp. loadFromDB (answer db) u ch = Inr tp"
proof -
  obtain gs where 1: "LoadServerGroupsForUser (answer db) u = Inr gs" by (simp add: LoadServerGroupsForUser_def ask_ids_def)
  obtain cgs where 2: "LoadChannelGroupsForUser (answer db) u ch = Inr cgs" by (simp add: LoadChannelGroupsForUser_def ask_ids_def)
  obtain ss where 3: "load_sets (loadServerGroupPermissions (answer db)) gs = Inr ss"
    using load_sets_total loadPermissionRows_answer(1) by blast
  obtain ts where 4: "load_sets (loadChannelGroupPermissions (answer db)) cgs = Inr ts"
    using load_sets_total loadPermissionRows_answer(2) by blast
  obtain a b e where 5: "loadClientPermissions (answer db) u = Inr a" "loadClientPermissionsForChannel (answer db) u ch = Inr b"
    "loadChannelClientPermissions (answer db) u ch = Inr e" using loadPermissionRows_answer(3-5) by blast
  obtain s where 6: "loadChannelPermissionChain (answer db) ch = Inr s" using loadChannelPermissionChain_total by blast
  show ?thesis by (simp add: loadFromDB_def ebind_def 1 2 3 4 5 6)
qed

text \<open>Once a write has invalidated the cache, the next check of a registered user is decided by the tables
  as they are now, whatever the cache held before.\<close>

theorem revocation_effective:
  assumes "pd_wired d" "pd_ask d = answer db" "tc_UserID c \<noteq> 0"
  shows "\<exists>pc tp. fst (permCheckerFor d c (InvalidateAll l)) = Inr pc \<and>
    loadFromDB (answer db) (tc_UserID c) (client_channel d c) = Inr tp \<and>
    pc = \<lparr>pc_tp = tp, pc_admin = tc_admin c, pc_guest = False\<rparr>"
proof -
  obtain tp where "loadFromDB (answer db) (tc_UserID c) (client_channel d c) = Inr tp" using loadFromDB_total by blast
  then show ?thesis
    using assms by (simp add: permCheckerFor_def LoadForClient_def load_cached_def InvalidateAll_def)
qed

theorem revocation_effective_witness:
  "\<exists>pc tp. fst (permCheckerFor checker_demo_deps (setIdentity ''u'' ''u'' 7 False (new_client ''c'' 0)) (InvalidateAll NewLoader)) = Inr pc \<and>
     loadFromDB (answer (loader_demo_db 1)) 7 0 = Inr tp \<and> pc_tp pc = tp"
  using revocation_effective [of checker_demo_deps "loader_demo_db 1" "setIdentity ''u'' ''u'' 7 False (new_client ''c'' 0)" NewLoader]
  by (auto simp: checker_demo_deps_def setIdentity_def client_channel_def)

text \<open>Acting on another client is allowed only to a server admin, or to a caller who holds the power
  in some tier, against a target who is not a server admin, with a power of at least what the
  target's tiers need.\<close>

theorem checkPowerOver_sound:
  assumes "checkPowerOver d caller target pk nk l = (Inr (), l')"
  shows "\<exists>cp tp l1. permCheckerFor d caller l = (Inr cp, l1) \<and> permCheckerFor d target l1 = (Inr tp, l') \<and>
    (tc_admin caller \<and> tc_UserID caller \<noteq> 0 \<or>
     \<not> pc_admin tp \<and> winner (pc_tp cp) pk \<noteq> None \<and> worth (winner (pc_tp tp) nk) \<le> worth (winner (pc_tp cp) pk))"
proof -
  obtain cp tp l1 where p: "permCheckerFor d caller l = (Inr cp, l1)" "permCheckerFor d target l1 = (Inr tp, l')"
    "pc_admin cp \<or> \<not> pc_admin tp" "powerAtLeast cp pk (neededPower tp nk)"
    using assms by (auto simp: checkPowerOver_def split: prod.splits sum.splits if_splits)
  have "pc_admin cp \<Longrightarrow> tc_admin caller \<and> tc_UserID caller \<noteq> 0"
    using permCheckerFor_guest(1) [OF p(1)] permCheckerFor_user(1) [OF p(1)] by blast
  with p show ?thesis by (auto simp: powerAtLeast_worth neededPower_worth)
qed

theorem checkPowerOver_sound_witness:
  "\<exists>cp (tp :: permChecker) l1. permCheckerFor checker_demo_deps (setIdentity ''u'' ''u'' 7 False (new_client ''c'' 0)) NewLoader = (Inr cp, l1) \<and>
     winner (pc_tp cp) ''b_x'' \<noteq> None \<and> worth (winner (pc_tp tp) ''i_need'') \<le> worth (winner (pc_tp cp) ''b_x'')"
proof -
  let ?c = "setIdentity ''u'' ''u'' 7 False (new_client ''c'' 0)" and ?t = "setIdentity ''v'' ''v'' 8 False (new_client ''d'' 0)"
  let ?r = "checkPowerOver checker_demo_deps ?c ?t ''b_x'' ''i_need'' NewLoader"
  have "fst ?r = Inr ()" by code_simp
  then have "?r = (Inr (), snd ?r)" by (metis prod.collapse)
  from checkPowerOver_sound [OF this] show ?thesis
  proof (elim exE conjE)
    fix cp and tp :: permChecker and l1
    assume p: "permCheckerFor checker_demo_deps ?c NewLoader = (Inr cp, l1)"
      and q: "tc_admin ?c \<and> tc_UserID ?c \<noteq> 0 \<or> \<not> pc_admin tp \<and> winner (pc_tp cp) ''b_x'' \<noteq> None \<and>
        worth (winner (pc_tp tp) ''i_need'') \<le> worth (winner (pc_tp cp) ''b_x'')"
    have "\<not> tc_admin ?c" by (simp add: setIdentity_def)
    with q have "winner (pc_tp cp) ''b_x'' \<noteq> None" "worth (winner (pc_tp tp) ''i_need'') \<le> worth (winner (pc_tp cp) ''b_x'')" by simp_all
    with p show ?thesis by (intro exI conjI)
  qed
qed

text \<open>
  An unset power is refused, but an explicitly negated one counts as 0 and meets the default needed
  power 0: the negation that should deny a privileged action allows it.
\<close>

lemma negated_power_passes:
  assumes "denied (winner (pc_tp p) key)"
  shows "powerAtLeast p key 0"
proof -
  have "winner (pc_tp p) key \<noteq> None" using assms by (cases "winner (pc_tp p) key") (simp_all add: denied_def)
  then show ?thesis using winner_worth_denied [OF assms] by (simp add: powerAtLeast_worth)
qed

text \<open>A guest's subscription check never looks at the channel: its needed subscribe power is not consulted.\<close>

lemma guest_subscribe_ignores_channel:
  "tc_UserID c = 0 \<Longrightarrow> subscribeAllowed d c ch l = subscribeAllowed d c ch' l"
  by (simp add: subscribeAllowed_def)

text \<open>A guest is judged by the channel tier of the channel it stands in, also for an action in another channel.\<close>

lemma guest_judged_where_it_stands:
  "tc_UserID c = 0 \<Longrightarrow> permCheckerInChannel d c ch l = permCheckerFor d c l"
  by (simp add: permCheckerInChannel_def)

end
