(* ===== verification/Perm_Store.thy ===== *)
theory Perm_Store
  imports Perm_Checker
begin

text \<open>
  The write path of the permission tables (\<^verbatim>\<open>internal/store/groups.go\<close>): replacing, removing, listing and
  copying the entries of one target on one tier, and group memberships.

  A target is addressed by the columns its tier uses.  Statements may fail one by one; outside a
  transaction the statements before the failing one stay in effect, so the operations return the
  tables also with an error.
\<close>

datatype PermTier = PermTierServerGroup | PermTierClient | PermTierChannelClient | PermTierChannel | PermTierChannelGroup

record PermTarget =
  pt_GroupID :: int
  pt_UserID :: user_id
  pt_ChannelID :: channel_id

datatype addr = AServerGroup int | AClient user_id | AChannelClient user_id channel_id | AChannel channel_id | AChannelGroup int

fun addr_of :: "PermTier \<Rightarrow> PermTarget \<Rightarrow> addr" where
  "addr_of PermTierServerGroup t = AServerGroup (pt_GroupID t)"
| "addr_of PermTierChannelGroup t = AChannelGroup (pt_GroupID t)"
| "addr_of PermTierClient t = AClient (pt_UserID t)"
| "addr_of PermTierChannelClient t = AChannelClient (pt_UserID t) (pt_ChannelID t)"
| "addr_of PermTierChannel t = AChannel (pt_ChannelID t)"

text \<open>The permission ids a junction table links to a target.\<close>

fun links :: "perm_db \<Rightarrow> addr \<Rightarrow> int list" where
  "links db (AServerGroup g) = map snd (filter (\<lambda>(a, p). a = g) (pd_server_group_permissions db))"
| "links db (AChannelGroup g) = map snd (filter (\<lambda>(a, p). a = g) (pd_channel_group_permissions db))"
| "links db (AClient u) = map (\<lambda>(a, c, p). p) (filter (\<lambda>(a, c, p). a = u \<and> c = None) (pd_client_permissions db))"
| "links db (AChannelClient u ch) =
     map (\<lambda>(a, c, p). p) (filter (\<lambda>(a, c, p). a = u \<and> c = ch) (pd_channel_client_permissions db))"
| "links db (AChannel ch) = map snd (filter (\<lambda>(c, p). c = ch) (pd_channel_permissions db))"

text \<open>The deletes: the links of the target to rows of the key.\<close>

fun drop_links :: "addr \<Rightarrow> (int \<Rightarrow> bool) \<Rightarrow> perm_db \<Rightarrow> perm_db" where
  "drop_links (AServerGroup g) P db =
     db\<lparr>pd_server_group_permissions := filter (\<lambda>(a, p). \<not> (a = g \<and> P p)) (pd_server_group_permissions db)\<rparr>"
| "drop_links (AChannelGroup g) P db =
     db\<lparr>pd_channel_group_permissions := filter (\<lambda>(a, p). \<not> (a = g \<and> P p)) (pd_channel_group_permissions db)\<rparr>"
| "drop_links (AClient u) P db =
     db\<lparr>pd_client_permissions := filter (\<lambda>(a, c, p). \<not> (a = u \<and> c = None \<and> P p)) (pd_client_permissions db)\<rparr>"
| "drop_links (AChannelClient u ch) P db =
     db\<lparr>pd_channel_client_permissions := filter (\<lambda>(a, c, p). \<not> (a = u \<and> c = ch \<and> P p)) (pd_channel_client_permissions db)\<rparr>"
| "drop_links (AChannel ch) P db =
     db\<lparr>pd_channel_permissions := filter (\<lambda>(c, p). \<not> (c = ch \<and> P p)) (pd_channel_permissions db)\<rparr>"

text \<open>\<open>INSERT ... ON CONFLICT DO NOTHING\<close>.\<close>

definition add_once :: "'a \<Rightarrow> 'a list \<Rightarrow> 'a list" where
  "add_once x xs = (if x \<in> set xs then xs else xs @ [x])"

fun add_link :: "addr \<Rightarrow> int \<Rightarrow> perm_db \<Rightarrow> perm_db" where
  "add_link (AServerGroup g) i db = db\<lparr>pd_server_group_permissions := add_once (g, i) (pd_server_group_permissions db)\<rparr>"
| "add_link (AChannelGroup g) i db = db\<lparr>pd_channel_group_permissions := add_once (g, i) (pd_channel_group_permissions db)\<rparr>"
| "add_link (AClient u) i db = db\<lparr>pd_client_permissions := add_once (u, None, i) (pd_client_permissions db)\<rparr>"
| "add_link (AChannelClient u ch) i db = db\<lparr>pd_channel_client_permissions := add_once (u, ch, i) (pd_channel_client_permissions db)\<rparr>"
| "add_link (AChannel ch) i db = db\<lparr>pd_channel_permissions := add_once (ch, i) (pd_channel_permissions db)\<rparr>"

text \<open>The subquery over the keys.\<close>

definition of_key :: "perm_db \<Rightarrow> string \<Rightarrow> int \<Rightarrow> bool" where
  "of_key db key i = (case fmlookup (pd_permissions db) i of None \<Rightarrow> False | Some r \<Rightarrow> pr_key r = key)"

datatype store_error = SFind | SCreate | SReplace | SSet | SUnset | SList | SBegin | SCommit | SAssign

text \<open>Which statements fail, and the id the sequence gives to a new row.\<close>

record store_env =
  se_fails :: "store_error \<Rightarrow> bool"
  se_newid :: int

definition upsertPermissionRow :: "store_env \<Rightarrow> perm_row \<Rightarrow> perm_db \<Rightarrow> (store_error + int) \<times> perm_db" where
  "upsertPermissionRow e row db =
     (if se_fails e SFind then (Inl SFind, db)
      else
        (case List.find (\<lambda>i. fmlookup (pd_permissions db) i = Some row) (sorted_list_of_fset (fmdom (pd_permissions db))) of
           Some i \<Rightarrow> (Inr i, db)
         | None \<Rightarrow>
             if se_fails e SCreate then (Inl SCreate, db)
             else (Inr (se_newid e), db\<lparr>pd_permissions := fmupd (se_newid e) row (pd_permissions db)\<rparr>)))"

definition setPermissionWith :: "store_env \<Rightarrow> addr \<Rightarrow> perm_row \<Rightarrow> perm_db \<Rightarrow> (store_error + unit) \<times> perm_db" where
  "setPermissionWith e a row db =
     (case upsertPermissionRow e row db of
        (Inl err, db1) \<Rightarrow> (Inl err, db1)
      | (Inr i, db1) \<Rightarrow>
          if se_fails e SReplace then (Inl SReplace, db1)
          else
            let db2 = drop_links a (of_key db1 (pr_key row)) db1
            in if se_fails e SSet then (Inl SSet, db2) else (Inr (), add_link a i db2))"

definition SetPermission :: "store_env \<Rightarrow> PermTier \<Rightarrow> PermTarget \<Rightarrow> perm_row \<Rightarrow> perm_db \<Rightarrow> (store_error + unit) \<times> perm_db" where
  "SetPermission e tier t row db = setPermissionWith e (addr_of tier t) row db"

definition entry_rows :: "perm_db \<Rightarrow> addr \<Rightarrow> perm_row list" where
  "entry_rows db a = join_perms db (links db a)"

definition ListPermissions :: "store_env \<Rightarrow> PermTier \<Rightarrow> PermTarget \<Rightarrow> perm_db \<Rightarrow> store_error + perm_row list" where
  "ListPermissions e tier t db =
     (if se_fails e SList then Inl SList else Inr (sort_key pr_key (entry_rows db (addr_of tier t))))"

definition unsetPermissionWith :: "store_env \<Rightarrow> addr \<Rightarrow> string \<Rightarrow> perm_db \<Rightarrow> (store_error + unit) \<times> perm_db" where
  "unsetPermissionWith e a key db =
     (if se_fails e SUnset then (Inl SUnset, db) else (Inr (), drop_links a (of_key db key) db))"

definition UnsetPermission :: "store_env \<Rightarrow> PermTier \<Rightarrow> PermTarget \<Rightarrow> string \<Rightarrow> perm_db \<Rightarrow> (store_error + unit) \<times> perm_db" where
  "UnsetPermission e tier t key db = unsetPermissionWith e (addr_of tier t) key db"

text \<open>The loops of the copy; each statement has its own environment.\<close>

fun unset_loop :: "addr \<Rightarrow> (store_env \<times> string) list \<Rightarrow> perm_db \<Rightarrow> (store_error + unit) \<times> perm_db" where
  "unset_loop a [] db = (Inr (), db)"
| "unset_loop a ((e, key) # ks) db =
     (case unsetPermissionWith e a key db of (Inl err, db1) \<Rightarrow> (Inl err, db1) | (Inr _, db1) \<Rightarrow> unset_loop a ks db1)"

fun set_loop :: "addr \<Rightarrow> (store_env \<times> perm_row) list \<Rightarrow> perm_db \<Rightarrow> (store_error + unit) \<times> perm_db" where
  "set_loop a [] db = (Inr (), db)"
| "set_loop a ((e, row) # rs) db =
     (case setPermissionWith e a row db of (Inl err, db1) \<Rightarrow> (Inl err, db1) | (Inr _, db1) \<Rightarrow> set_loop a rs db1)"

text \<open>A transaction: every error leaves the tables as they were.\<close>

definition CopyPermissions ::
  "store_env \<Rightarrow> PermTier \<Rightarrow> PermTarget \<Rightarrow> (store_env \<times> string) list \<Rightarrow> (store_env \<times> perm_row) list \<Rightarrow> perm_db \<Rightarrow>
   (store_error + unit) \<times> perm_db" where
  "CopyPermissions e tier t remove entries db =
     (if se_fails e SBegin then (Inl SBegin, db)
      else
        (case unset_loop (addr_of tier t) remove db of
           (Inl err, _) \<Rightarrow> (Inl err, db)
         | (Inr _, db1) \<Rightarrow>
             (case set_loop (addr_of tier t) entries db1 of
                (Inl err, _) \<Rightarrow> (Inl err, db)
              | (Inr _, db2) \<Rightarrow> if se_fails e SCommit then (Inl SCommit, db) else (Inr (), db2))))"

text \<open>Memberships.  Expiry times are kept by the reaper and do not enter the permission queries.\<close>

definition AssignServerGroup :: "store_env \<Rightarrow> int \<Rightarrow> user_id \<Rightarrow> perm_db \<Rightarrow> (store_error + unit) \<times> perm_db" where
  "AssignServerGroup e g u db =
     (if se_fails e SAssign then (Inl SAssign, db)
      else (Inr (), db\<lparr>pd_server_group_members := add_once (u, g) (pd_server_group_members db)\<rparr>))"

definition UnassignServerGroup :: "store_env \<Rightarrow> int \<Rightarrow> user_id \<Rightarrow> perm_db \<Rightarrow> (store_error + unit) \<times> perm_db" where
  "UnassignServerGroup e g u db =
     (if se_fails e SAssign then (Inl SAssign, db)
      else (Inr (), db\<lparr>pd_server_group_members := filter (\<lambda>(a, b). \<not> (a = u \<and> b = g)) (pd_server_group_members db)\<rparr>))"

definition assignChannelGroupTx :: "int \<Rightarrow> user_id \<Rightarrow> channel_id \<Rightarrow> perm_db \<Rightarrow> perm_db" where
  "assignChannelGroupTx g u ch db =
     db\<lparr>pd_channel_group_members :=
       add_once (u, ch, g) (filter (\<lambda>(a, c, b). \<not> (a = u \<and> c = ch)) (pd_channel_group_members db))\<rparr>"

definition AssignChannelGroup :: "store_env \<Rightarrow> int \<Rightarrow> user_id \<Rightarrow> channel_id \<Rightarrow> perm_db \<Rightarrow> (store_error + unit) \<times> perm_db" where
  "AssignChannelGroup e g u ch db =
     (if se_fails e SBegin then (Inl SBegin, db)
      else if se_fails e SAssign then (Inl SAssign, db)
      else if se_fails e SCommit then (Inl SCommit, db)
      else (Inr (), assignChannelGroupTx g u ch db))"

definition UnassignChannelGroup :: "store_env \<Rightarrow> user_id \<Rightarrow> channel_id \<Rightarrow> perm_db \<Rightarrow> (store_error + unit) \<times> perm_db" where
  "UnassignChannelGroup e u ch db =
     (if se_fails e SAssign then (Inl SAssign, db)
      else (Inr (), db\<lparr>pd_channel_group_members := filter (\<lambda>(a, c, b). \<not> (a = u \<and> c = ch)) (pd_channel_group_members db)\<rparr>))"

definition UserGroupIDs :: "user_id \<Rightarrow> perm_db \<Rightarrow> int list" where
  "UserGroupIDs u db = map snd (filter (\<lambda>(a, g). a = u) (pd_server_group_members db))"

subsection \<open>Links and rows\<close>

text \<open>The foreign keys: every link has its row.  At most one entry per key on each target.\<close>

definition fk_ok :: "perm_db \<Rightarrow> bool" where
  "fk_ok db \<longleftrightarrow> (\<forall>a. \<forall>i \<in> set (links db a). i |\<in>| fmdom (pd_permissions db))"

definition one_per_key :: "perm_db \<Rightarrow> bool" where
  "one_per_key db \<longleftrightarrow> (\<forall>a. distinct (map pr_key (entry_rows db a)))"

text \<open>The entry of a target for a key.\<close>

definition entry_of :: "perm_db \<Rightarrow> addr \<Rightarrow> string \<Rightarrow> perm_row option" where
  "entry_of db a key = List.find (\<lambda>r. pr_key r = key) (entry_rows db a)"

lemma links_drop: "links (drop_links a P db) b = (if a = b then filter (\<lambda>i. \<not> P i) (links db b) else links db b)"
proof (cases a; cases b)
qed (auto simp: filter_map intro!: arg_cong [where f = "map _"] filter_cong)

lemma links_add: "links (add_link a i db) b = (if a = b then add_once i (links db b) else links db b)"
  by (cases a; cases b) (force simp: add_once_def image_iff)+

lemma perms_drop [simp]: "pd_permissions (drop_links a P db) = pd_permissions db"
  by (cases a) simp_all

lemma perms_add [simp]: "pd_permissions (add_link a i db) = pd_permissions db"
  by (cases a) simp_all

lemma links_perms [simp]: "links (db\<lparr>pd_permissions := p\<rparr>) a = links db a"
  by (cases a) simp_all

lemma drop_frame [simp]:
  "pd_server_group_members (drop_links a P db) = pd_server_group_members db" "pd_channel_group_members (drop_links a P db) = pd_channel_group_members db"
  "pd_channels (drop_links a P db) = pd_channels db"
  by (cases a; simp)+

lemma add_frame [simp]:
  "pd_server_group_members (add_link a i db) = pd_server_group_members db" "pd_channel_group_members (add_link a i db) = pd_channel_group_members db"
  "pd_channels (add_link a i db) = pd_channels db"
  by (cases a; simp)+

lemma join_perms_append: "join_perms db (xs @ ys) = join_perms db xs @ join_perms db ys"
  by (induction xs) (auto simp: join_perms_def map_filter_simps split: option.splits)

lemma join_perms_drop [simp]: "join_perms (drop_links a P db) xs = join_perms db xs"
  by (simp add: join_perms_def)

lemma join_perms_cong: "pd_permissions db = pd_permissions db' \<Longrightarrow> join_perms db xs = join_perms db' xs"
  by (simp add: join_perms_def)

lemma join_perms_filter: "join_perms db (filter (\<lambda>i. \<not> of_key db key i) xs) = filter (\<lambda>r. pr_key r \<noteq> key) (join_perms db xs)"
  by (induction xs) (auto simp: join_perms_def map_filter_def of_key_def split: option.splits)

lemma join_perms_new:
  "\<forall>i \<in> set xs. i |\<in>| fmdom (pd_permissions db) \<Longrightarrow> n |\<notin>| fmdom (pd_permissions db) \<Longrightarrow>
   join_perms (db\<lparr>pd_permissions := fmupd n row (pd_permissions db)\<rparr>) xs = join_perms db xs"
  by (induction xs) (auto simp: join_perms_def map_filter_def)

lemma upsert_cases:
  assumes "upsertPermissionRow e row db = (Inr i, db1)"
  obtains "db1 = db" "fmlookup (pd_permissions db) i = Some row"
  | "i = se_newid e" "db1 = db\<lparr>pd_permissions := fmupd i row (pd_permissions db)\<rparr>"
  using assms by (auto simp: upsertPermissionRow_def find_Some_iff split: if_splits option.splits)

lemma upsert_rows:
  assumes "upsertPermissionRow e row db = (Inr i, db1)" "fk_ok db" "se_newid e |\<notin>| fmdom (pd_permissions db)"
  shows "fmlookup (pd_permissions db1) i = Some row" "links db1 b = links db b" "entry_rows db1 b = entry_rows db b" "fk_ok db1"
    "pd_server_group_members db1 = pd_server_group_members db" "pd_channel_group_members db1 = pd_channel_group_members db" "pd_channels db1 = pd_channels db"
proof -
  show l: "fmlookup (pd_permissions db1) i = Some row" by (rule upsert_cases [OF assms(1)]) simp_all
  show k: "links db1 b = links db b" for b by (rule upsert_cases [OF assms(1)]) simp_all
  show "entry_rows db1 b = entry_rows db b"
    by (rule upsert_cases [OF assms(1)]) (use assms(2,3) in \<open>simp_all add: entry_rows_def join_perms_new fk_ok_def\<close>)
  show "fk_ok db1" by (rule upsert_cases [OF assms(1)]) (use assms(2) in \<open>auto simp: fk_ok_def\<close>)
  show "pd_server_group_members db1 = pd_server_group_members db" "pd_channel_group_members db1 = pd_channel_group_members db" "pd_channels db1 = pd_channels db"
    by (rule upsert_cases [OF assms(1)]; simp)+
qed

text \<open>What a successful replacement leaves: the other rows of the target, then the new one.\<close>

lemma setPermissionWith_rows:
  assumes "setPermissionWith e a row db = (Inr u, db')" "fk_ok db" "se_newid e |\<notin>| fmdom (pd_permissions db)"
  shows "entry_rows db' b = (if b = a then filter (\<lambda>r. pr_key r \<noteq> pr_key row) (entry_rows db b) @ [row] else entry_rows db b)"
    and "fk_ok db'" and "pd_server_group_members db' = pd_server_group_members db"
    and "pd_channel_group_members db' = pd_channel_group_members db" and "pd_channels db' = pd_channels db"
proof -
  obtain i db1 where up: "upsertPermissionRow e row db = (Inr i, db1)"
    and db': "db' = add_link a i (drop_links a (of_key db1 (pr_key row)) db1)"
    using assms(1) by (auto simp: setPermissionWith_def Let_def split: prod.splits sum.splits if_splits)
  note r = upsert_rows [OF up assms(2,3)]
  have new: "of_key db1 (pr_key row) i" using r(1) by (simp add: of_key_def)
  have pd: "pd_permissions db' = pd_permissions db1" by (simp add: db')
  have links': "links db' b = (if b = a then filter (\<lambda>j. \<not> of_key db1 (pr_key row) j) (links db1 b) @ [i] else links db1 b)" for b
    using new by (auto simp: db' links_add links_drop add_once_def)
  have one: "join_perms db1 [i] = [row]" using r(1) by (simp add: join_perms_def map_filter_def)
  show "entry_rows db' b = (if b = a then filter (\<lambda>r. pr_key r \<noteq> pr_key row) (entry_rows db b) @ [row] else entry_rows db b)"
    using r(2,3) one
    by (simp add: entry_rows_def links' join_perms_cong [OF pd] join_perms_append join_perms_filter)
  show "fk_ok db'" using r(1,4) by (auto simp: fk_ok_def links' pd intro: fmdomI split: if_splits)
  show "pd_server_group_members db' = pd_server_group_members db" "pd_channel_group_members db' = pd_channel_group_members db" "pd_channels db' = pd_channels db"
    using r(5-7) by (simp_all add: db')
qed

lemma unsetPermissionWith_rows:
  assumes "unsetPermissionWith e a key db = (Inr u, db')"
  shows "entry_rows db' b = (if b = a then filter (\<lambda>r. pr_key r \<noteq> key) (entry_rows db b) else entry_rows db b)"
    and "fk_ok db \<Longrightarrow> fk_ok db'" and "pd_permissions db' = pd_permissions db"
    and "pd_server_group_members db' = pd_server_group_members db"
    and "pd_channel_group_members db' = pd_channel_group_members db" and "pd_channels db' = pd_channels db"
proof -
  have db': "db' = drop_links a (of_key db key) db" using assms by (simp add: unsetPermissionWith_def split: if_splits)
  have pd: "pd_permissions db' = pd_permissions db" by (simp add: db')
  show "entry_rows db' b = (if b = a then filter (\<lambda>r. pr_key r \<noteq> key) (entry_rows db b) else entry_rows db b)"
    by (simp add: entry_rows_def db' links_drop join_perms_filter)
  show "fk_ok db \<Longrightarrow> fk_ok db'" by (auto simp: fk_ok_def db' links_drop split: if_splits)
  show "pd_permissions db' = pd_permissions db" by (rule pd)
  show "pd_server_group_members db' = pd_server_group_members db" "pd_channel_group_members db' = pd_channel_group_members db" "pd_channels db' = pd_channels db"
    by (simp_all add: db')
qed

text \<open>On the level of entries: a map update, and a map removal.\<close>

lemma find_filter_ne: "List.find (\<lambda>r. pr_key r = k) (filter (\<lambda>r. pr_key r \<noteq> k') rs) = (if k = k' then None else List.find (\<lambda>r. pr_key r = k) rs)"
  by (induction rs) auto

lemma find_append: "List.find P (xs @ ys) = (case List.find P xs of None \<Rightarrow> List.find P ys | Some x \<Rightarrow> Some x)"
  by (induction xs) auto

lemma setPermissionWith_entry:
  assumes "setPermissionWith e a row db = (Inr u, db')" "fk_ok db" "se_newid e |\<notin>| fmdom (pd_permissions db)"
  shows "entry_of db' b k = (if b = a \<and> k = pr_key row then Some row else entry_of db b k)"
  using setPermissionWith_rows(1) [OF assms, of b]
  by (auto simp: entry_of_def find_append find_filter_ne split: option.splits)

lemma unsetPermissionWith_entry:
  assumes "unsetPermissionWith e a key db = (Inr u, db')"
  shows "entry_of db' b k = (if b = a \<and> k = key then None else entry_of db b k)"
  using unsetPermissionWith_rows(1) [OF assms, of b] by (auto simp: entry_of_def find_filter_ne)

lemma set_one_per_key:
  assumes "setPermissionWith e a row db = (Inr u, db')" "fk_ok db" "se_newid e |\<notin>| fmdom (pd_permissions db)" "one_per_key db"
  shows "one_per_key db'"
  unfolding one_per_key_def
proof
  fix b
  have "distinct (map pr_key (entry_rows db b))" using assms(4) by (simp add: one_per_key_def)
  then show "distinct (map pr_key (entry_rows db' b))"
    using setPermissionWith_rows(1) [OF assms(1-3), of b] by (auto simp: distinct_map_filter)
qed

lemma unset_one_per_key: "unsetPermissionWith e a key db = (Inr u, db') \<Longrightarrow> one_per_key db \<Longrightarrow> one_per_key db'"
  by (auto simp: one_per_key_def unsetPermissionWith_rows(1) distinct_map_filter)

subsection \<open>Writes and loads\<close>

definition set_of_rows :: "perm_row list \<Rightarrow> PermissionSet" where
  "set_of_rows rows = fold (\<lambda>r s. fmupd (pr_key r) (Some (row_permission r)) s) rows NewPermissionSet"

text \<open>The load of the entries of one target.\<close>

fun load_addr :: "(db_query \<Rightarrow> db_reply) \<Rightarrow> addr \<Rightarrow> PermissionSet load" where
  "load_addr ask (AServerGroup g) = loadServerGroupPermissions ask g"
| "load_addr ask (AChannelGroup g) = loadChannelGroupPermissions ask g"
| "load_addr ask (AClient u) = loadClientPermissions ask u"
| "load_addr ask (AChannelClient u ch) = loadChannelClientPermissions ask u ch"
| "load_addr ask (AChannel ch) = loadChannelPermissions ask ch"

lemma load_addr_rows: "load_addr (answer db) a = Inr (set_of_rows (entry_rows db a))"
  by (cases a) (simp_all add: loadServerGroupPermissions_def loadChannelGroupPermissions_def loadClientPermissions_def
      loadChannelClientPermissions_def loadChannelPermissions_def loadPermissionRows_def set_of_rows_def entry_rows_def)

lemma set_of_rows_last: "fmlookup (set_of_rows (rs @ [r])) k = (if k = pr_key r then Some (Some (row_permission r)) else fmlookup (set_of_rows rs) k)"
  by (simp add: set_of_rows_def)

lemma set_of_rows_filter: "k \<noteq> key \<Longrightarrow> fmlookup (set_of_rows (filter (\<lambda>r. pr_key r \<noteq> key) rs)) k = fmlookup (set_of_rows rs) k"
  by (induction rs rule: rev_induct) (auto simp: set_of_rows_last)

lemma set_of_rows_none: "\<forall>r \<in> set rs. pr_key r \<noteq> k \<Longrightarrow> fmlookup (set_of_rows rs) k = None"
  by (induction rs rule: rev_induct) (auto simp: set_of_rows_last set_of_rows_def NewPermissionSet_def)

text \<open>Writing a permission and loading the target again gives the written entry for the key and the
  previous one for every other key; removing it gives none for the key; no other target's entries
  change.\<close>

theorem SetPermission_then_load:
  assumes "fk_ok db" "se_newid e |\<notin>| fmdom (pd_permissions db)"
    and "SetPermission e tier t row db = (Inr (), db1)" "UnsetPermission e' tier t (pr_key row) db1 = (Inr (), db2)"
    and "load_addr (answer db) b = Inr s"
  shows "\<exists>s1 s2. load_addr (answer db1) b = Inr s1 \<and> load_addr (answer db2) b = Inr s2 \<and>
    (\<forall>k. fmlookup s1 k = (if b = addr_of tier t \<and> k = pr_key row then Some (Some (row_permission row)) else fmlookup s k) \<and>
         fmlookup s2 k = (if b = addr_of tier t \<and> k = pr_key row then None else fmlookup s k))"
proof -
  note st = assms(3,4) [unfolded SetPermission_def UnsetPermission_def]
  have r1: "entry_rows db1 b = (if b = addr_of tier t then filter (\<lambda>r. pr_key r \<noteq> pr_key row) (entry_rows db b) @ [row] else entry_rows db b)"
    by (rule setPermissionWith_rows(1) [OF st(1) assms(1,2)])
  have r2: "entry_rows db2 b = (if b = addr_of tier t then filter (\<lambda>r. pr_key r \<noteq> pr_key row) (entry_rows db1 b) else entry_rows db1 b)"
    by (rule unsetPermissionWith_rows(1) [OF st(2)])
  have s: "s = set_of_rows (entry_rows db b)" using assms(5) by (simp add: load_addr_rows)
  show ?thesis
  proof (cases "b = addr_of tier t")
    case True
    with r1 r2 have "entry_rows db1 b = filter (\<lambda>r. pr_key r \<noteq> pr_key row) (entry_rows db b) @ [row]"
      "entry_rows db2 b = filter (\<lambda>r. pr_key r \<noteq> pr_key row) (entry_rows db b)" by simp_all
    then show ?thesis using True by (simp add: load_addr_rows s set_of_rows_last set_of_rows_filter set_of_rows_none)
  next
    case False
    with r1 r2 show ?thesis by (simp add: load_addr_rows s)
  qed
qed

definition store_ok :: store_env where
  "store_ok = \<lparr>se_fails = (\<lambda>_. False), se_newid = 2\<rparr>"

definition store_demo_row :: perm_row where
  "store_demo_row = \<lparr>pr_key = ''b_x'', pr_value = 5, pr_grant = 0, pr_skip = False, pr_negate = False\<rparr>"

lemma store_demo_fk: "fk_ok (loader_demo_db 1)"
proof -
  have "i |\<in>| fmdom (pd_permissions (loader_demo_db 1))" if "i \<in> set (links (loader_demo_db 1) a)" for a i
    using that by (cases a) (auto simp: loader_demo_db_def split: if_splits)
  then show ?thesis by (simp add: fk_ok_def)
qed

theorem SetPermission_then_load_witness:
  "let t = \<lparr>pt_GroupID = 3, pt_UserID = 0, pt_ChannelID = 0\<rparr>;
       db1 = snd (SetPermission store_ok PermTierServerGroup t store_demo_row (loader_demo_db 1))
   in \<exists>s1. load_addr (answer db1) (AServerGroup 3) = Inr s1 \<and> fmlookup s1 ''b_x'' = Some (Some (row_permission store_demo_row))"
proof -
  define t where "t = \<lparr>pt_GroupID = 3, pt_UserID = 0, pt_ChannelID = 0\<rparr>"
  define db1 where "db1 = snd (SetPermission store_ok PermTierServerGroup t store_demo_row (loader_demo_db 1))"
  define db2 where "db2 = snd (UnsetPermission store_ok PermTierServerGroup t ''b_x'' db1)"
  have new: "se_newid store_ok |\<notin>| fmdom (pd_permissions (loader_demo_db 1))" by (simp add: store_ok_def loader_demo_db_def)
  have "fst (SetPermission store_ok PermTierServerGroup t store_demo_row (loader_demo_db 1)) = Inr ()"
    unfolding t_def by code_simp
  then have 1: "SetPermission store_ok PermTierServerGroup t store_demo_row (loader_demo_db 1) = (Inr (), db1)"
    unfolding db1_def by (metis prod.collapse)
  have key: "pr_key store_demo_row = ''b_x''" by (simp add: store_demo_row_def)
  have 2: "UnsetPermission store_ok PermTierServerGroup t (pr_key store_demo_row) db1 = (Inr (), db2)"
    unfolding db2_def key by (simp add: UnsetPermission_def unsetPermissionWith_def store_ok_def)
  obtain s1 where "load_addr (answer db1) (AServerGroup 3) = Inr s1"
      "\<forall>k. fmlookup s1 k = (if AServerGroup 3 = addr_of PermTierServerGroup t \<and> k = pr_key store_demo_row
         then Some (Some (row_permission store_demo_row)) else fmlookup (set_of_rows (entry_rows (loader_demo_db 1) (AServerGroup 3))) k)"
    using SetPermission_then_load [OF store_demo_fk new 1 2 load_addr_rows, of "AServerGroup 3"] by blast
  then show ?thesis unfolding Let_def db1_def [unfolded t_def, symmetric] by (simp add: t_def key)
qed

text \<open>
  Outside a transaction the replacement is not atomic: when the last statement fails, the operation
  reports an error and the entry that was there before is gone.
\<close>

lemma failed_set_drops_entry:
  assumes "fst (setPermissionWith e a row db) = Inl SSet"
  shows "entry_of (snd (setPermissionWith e a row db)) a (pr_key row) = None"
proof -
  obtain i db1 where "upsertPermissionRow e row db = (Inr i, db1)" "snd (setPermissionWith e a row db) = drop_links a (of_key db1 (pr_key row)) db1"
    using assms by (auto simp: setPermissionWith_def upsertPermissionRow_def Let_def split: prod.splits sum.splits if_splits option.splits)
  then show ?thesis by (simp add: entry_of_def entry_rows_def links_drop join_perms_filter find_None_iff)
qed

text \<open>The copy is atomic: an error leaves the tables unchanged.\<close>

lemma CopyPermissions_atomic: "fst (CopyPermissions e tier t remove entries db) = Inl err \<Longrightarrow> snd (CopyPermissions e tier t remove entries db) = db"
  by (auto simp: CopyPermissions_def split: if_splits prod.splits sum.splits)

text \<open>At most one channel group per user and channel, if there was at most one before.\<close>

lemma AssignChannelGroup_single:
  "AssignChannelGroup e g u ch db = (Inr (), db') \<Longrightarrow>
   filter (\<lambda>(a, c, b). a = u \<and> c = ch) (pd_channel_group_members db') = [(u, ch, g)]"
  by (auto simp: AssignChannelGroup_def assignChannelGroupTx_def add_once_def filter_empty_conv split: if_splits)

end
