(* ===== verification/Perm_Admin.thy ===== *)
theory Perm_Admin
  imports Perm_Store
begin

text \<open>
  The handlers that change permissions (\<^verbatim>\<open>internal/server/groups.go\<close>): setting, unsetting and copying
  entries, applying a built-in template, assigning groups.  Each runs the permission check, caps the
  write by the caller's own grants, writes under \<open>permWriteMu\<close> and invalidates the cache.

  A message that does not decode is \<open>None\<close>.  The result is the error code of the reply, or the users the
  cache invalidation is announced to.
\<close>

record perm_env =
  pe_wired :: bool
  pe_groups :: bool
  pe_faults :: "db_query \<Rightarrow> bool"
  pe_now :: time
  pe_guestGroup :: int
  pe_state :: "manager option"
  pe_users :: "(string, user_id) fmap"
  pe_list1 :: store_env
  pe_list2 :: store_env
  pe_stmt :: "nat \<Rightarrow> store_env"
  pe_order :: "perm_row list \<Rightarrow> perm_row list"

record perm_sys =
  py_db :: perm_db
  py_loader :: loader

datatype perm_result = PRefused err_code | PApplied "string fset"

definition env_deps :: "perm_env \<Rightarrow> perm_db \<Rightarrow> perm_deps" where
  "env_deps e db =
     \<lparr>pd_wired = pe_wired e, pd_ask = (\<lambda>q. if pe_faults e q then RError else answer db q), pd_now = pe_now e,
      pd_guestGroup = pe_guestGroup e, pd_state = pe_state e\<rparr>"

subsection \<open>Addressing\<close>

record PermAddress =
  pm_Tier :: string
  pm_GroupID :: int
  pm_UniqueID :: string
  pm_ChannelID :: channel_id

definition permTarget :: "perm_env \<Rightarrow> PermAddress \<Rightarrow> (PermTier \<times> PermTarget) option" where
  "permTarget e m =
     (let t = \<lparr>pt_GroupID = 0, pt_UserID = 0, pt_ChannelID = 0\<rparr>
      in if pm_Tier m = ''server_group'' \<or> pm_Tier m = ''channel_group'' then
           (if pm_GroupID m = 0 then None
            else Some (if pm_Tier m = ''server_group'' then PermTierServerGroup else PermTierChannelGroup, t\<lparr>pt_GroupID := pm_GroupID m\<rparr>))
         else if pm_Tier m = ''client'' then
           (if pm_UniqueID m = [] then None
            else map_option (\<lambda>u. (PermTierClient, t\<lparr>pt_UserID := u\<rparr>)) (fmlookup (pe_users e) (pm_UniqueID m)))
         else if pm_Tier m = ''channel_client'' then
           (if pm_UniqueID m = [] \<or> pm_ChannelID m = 0 then None
            else map_option (\<lambda>u. (PermTierChannelClient, t\<lparr>pt_UserID := u, pt_ChannelID := pm_ChannelID m\<rparr>))
                   (fmlookup (pe_users e) (pm_UniqueID m)))
         else if pm_Tier m = ''channel'' then
           (if pm_ChannelID m = 0 then None else Some (PermTierChannel, t\<lparr>pt_ChannelID := pm_ChannelID m\<rparr>))
         else None)"

text \<open>\<open>strconv.ParseInt(id, 10, 64)\<close>.\<close>

fun digits_value :: "string \<Rightarrow> int \<Rightarrow> int option" where
  "digits_value [] acc = Some acc"
| "digits_value (c # cs) acc =
     (if CHR ''0'' \<le> c \<and> c \<le> CHR ''9'' then digits_value cs (acc * 10 + (int (of_char c) - 48)) else None)"

definition ParseInt :: "string \<Rightarrow> int option" where
  "ParseInt s =
     (let neg = (s \<noteq> [] \<and> hd s = CHR ''-'');
          body = (if s \<noteq> [] \<and> (hd s = CHR ''-'' \<or> hd s = CHR ''+'') then tl s else s)
      in if body = [] then None
         else (case digits_value body 0 of
                 None \<Rightarrow> None
               | Some v \<Rightarrow> let w = (if neg then - v else v) in if - (2 ^ 63) \<le> w \<and> w < 2 ^ 63 then Some w else None))"

definition permCopyTarget :: "perm_env \<Rightarrow> string \<Rightarrow> string \<Rightarrow> channel_id \<Rightarrow> (PermTier \<times> PermTarget) option" where
  "permCopyTarget e kind i ch =
     (let t = \<lparr>pt_GroupID = 0, pt_UserID = 0, pt_ChannelID = 0\<rparr>
      in if kind = ''servergroup'' \<or> kind = ''channelgroup'' then
           (case ParseInt i of
              None \<Rightarrow> None
            | Some g \<Rightarrow>
                if g = 0 then None
                else Some (if kind = ''channelgroup'' then PermTierChannelGroup else PermTierServerGroup, t\<lparr>pt_GroupID := g\<rparr>))
         else if kind = ''client'' then
           (if i = [] then None
            else
              (case fmlookup (pe_users e) i of
                 None \<Rightarrow> None
               | Some u \<Rightarrow>
                   if ch \<noteq> 0 then Some (PermTierChannelClient, t\<lparr>pt_UserID := u, pt_ChannelID := ch\<rparr>)
                   else Some (PermTierClient, t\<lparr>pt_UserID := u\<rparr>)))
         else None)"

subsection \<open>Audience\<close>

text \<open>The unique id of a user id.\<close>

definition unique_ids :: "perm_env \<Rightarrow> user_id \<Rightarrow> string fset" where
  "unique_ids e u = ffilter (\<lambda>n. fmlookup (pe_users e) n = Some u) (fmdom (pe_users e))"

definition occupiedChannels :: "perm_env \<Rightarrow> channel_id fset" where
  "occupiedChannels e =
     (case pe_state e of None \<Rightarrow> {||} | Some m \<Rightarrow> ffilter (\<lambda>c. c \<noteq> 0) (c_ChannelID |`| ListClients m))"

definition permAudience :: "perm_env \<Rightarrow> PermTier \<Rightarrow> PermTarget \<Rightarrow> perm_db \<Rightarrow> string fset" where
  "permAudience e tier t db =
     (case tier of
        PermTierServerGroup \<Rightarrow>
          ffUnion (fset_of_list (map (\<lambda>(u, g). if g = pt_GroupID t then unique_ids e u else {||}) (pd_server_group_members db)))
      | PermTierChannelGroup \<Rightarrow>
          ffUnion (fset_of_list (map (\<lambda>(u, c, g). if g = pt_GroupID t \<and> c |\<in>| occupiedChannels e then unique_ids e u else {||})
            (pd_channel_group_members db)))
      | PermTierChannel \<Rightarrow> (case pe_state e of None \<Rightarrow> {||} | Some m \<Rightarrow> c_UniqueID |`| ChannelMembers (pt_ChannelID t) m)
      | _ \<Rightarrow> unique_ids e (pt_UserID t))"

subsection \<open>Writes\<close>

definition current_map :: "perm_row list \<Rightarrow> (string, perm_row) fmap" where
  "current_map rows = fold (\<lambda>r m. fmupd (pr_key r) r m) rows fmempty"

text \<open>Admins skip the lookup.\<close>

definition currentPerms ::
  "perm_env \<Rightarrow> permChecker \<Rightarrow> PermTier \<Rightarrow> PermTarget \<Rightarrow> perm_db \<Rightarrow> store_error + (string, perm_row) fmap" where
  "currentPerms e pc tier t db =
     (if pc_admin pc then Inr fmempty
      else (case ListPermissions (pe_list1 e) tier t db of Inl err \<Rightarrow> Inl err | Inr rows \<Rightarrow> Inr (current_map rows)))"

definition grantCapOkWrite :: "permChecker \<Rightarrow> (string, perm_row) fmap \<Rightarrow> PermissionKey \<Rightarrow> int \<Rightarrow> int \<Rightarrow> bool" where
  "grantCapOkWrite pc current key v g =
     (if \<not> grantCapOk pc key v g then False
      else (case fmlookup current key of Some r \<Rightarrow> grantCapOk pc key (pr_value r) (pr_grant r) | None \<Rightarrow> True))"

text \<open>The writes of a handler run one after the other, each with the environment of its position.\<close>

definition with_envs :: "perm_env \<Rightarrow> nat \<Rightarrow> 'a list \<Rightarrow> (store_env \<times> 'a) list" where
  "with_envs e n xs = map (\<lambda>(i, x). (pe_stmt e i, x)) (enumerate n xs)"

definition handlePermSet ::
  "perm_env \<Rightarrow> tcp_client \<Rightarrow> (PermAddress \<times> perm_row) option \<Rightarrow> perm_sys \<Rightarrow> perm_result \<times> perm_sys" where
  "handlePermSet e c msg y =
     (case msg of
        None \<Rightarrow> (PRefused errCodeMalformed, y)
      | Some (m, row) \<Rightarrow>
          if \<not> pe_groups e then (PRefused errCodeUnavailable, y)
          else
            (case permCheckerFor (env_deps e (py_db y)) c (py_loader y) of
               (Inl _, l) \<Rightarrow> (PRefused errCodeUnavailable, y\<lparr>py_loader := l\<rparr>)
             | (Inr pc, l) \<Rightarrow>
                 let y1 = y\<lparr>py_loader := l\<rparr>
                 in if \<not> granted pc ''b_permission_manage'' then (PRefused errCodePermissionDenied, y1)
                    else
                      (case permTarget e m of
                         None \<Rightarrow> (PRefused errCodeMalformed, y1)
                       | Some (tier, t) \<Rightarrow>
                           (case currentPerms e pc tier t (py_db y) of
                              Inl _ \<Rightarrow> (PRefused errCodeUnavailable, y1)
                            | Inr current \<Rightarrow>
                                if \<not> grantCapOkWrite pc current (pr_key row) (pr_value row) (pr_grant row)
                                then (PRefused errCodePermissionDenied, y1)
                                else
                                  (case SetPermission (pe_stmt e 0) tier t row (py_db y) of
                                     (Inl _, db) \<Rightarrow> (PRefused errCodeUnavailable, y1\<lparr>py_db := db\<rparr>)
                                   | (Inr _, db) \<Rightarrow>
                                       (PApplied (permAudience e tier t db), \<lparr>py_db = db, py_loader = InvalidateAll l\<rparr>))))))"

definition handlePermUnset ::
  "perm_env \<Rightarrow> tcp_client \<Rightarrow> (PermAddress \<times> PermissionKey) option \<Rightarrow> perm_sys \<Rightarrow> perm_result \<times> perm_sys" where
  "handlePermUnset e c msg y =
     (case msg of
        None \<Rightarrow> (PRefused errCodeMalformed, y)
      | Some (m, key) \<Rightarrow>
          if \<not> pe_groups e then (PRefused errCodeUnavailable, y)
          else
            (case permCheckerFor (env_deps e (py_db y)) c (py_loader y) of
               (Inl _, l) \<Rightarrow> (PRefused errCodeUnavailable, y\<lparr>py_loader := l\<rparr>)
             | (Inr pc, l) \<Rightarrow>
                 let y1 = y\<lparr>py_loader := l\<rparr>
                 in if \<not> granted pc ''b_permission_manage'' then (PRefused errCodePermissionDenied, y1)
                    else
                      (case permTarget e m of
                         None \<Rightarrow> (PRefused errCodeMalformed, y1)
                       | Some (tier, t) \<Rightarrow>
                           (case currentPerms e pc tier t (py_db y) of
                              Inl _ \<Rightarrow> (PRefused errCodeUnavailable, y1)
                            | Inr current \<Rightarrow>
                                if \<not> grantCapOkWrite pc current key 0 0 then (PRefused errCodePermissionDenied, y1)
                                else
                                  (case UnsetPermission (pe_stmt e 0) tier t key (py_db y) of
                                     (Inl _, db) \<Rightarrow> (PRefused errCodeUnavailable, y1\<lparr>py_db := db\<rparr>)
                                   | (Inr _, db) \<Rightarrow>
                                       (PApplied (permAudience e tier t db), \<lparr>py_db = db, py_loader = InvalidateAll l\<rparr>))))))"

text \<open>The copy: \<open>pe_order\<close> is the order in which the map of current entries is visited.\<close>

definition doPermCopyLocked ::
  "perm_env \<Rightarrow> permChecker \<Rightarrow> PermTier \<times> PermTarget \<Rightarrow> PermTier \<times> PermTarget \<Rightarrow> bool \<Rightarrow> perm_db \<Rightarrow> (err_code + unit) \<times> perm_db" where
  "doPermCopyLocked e pc from_t to_t replace db =
     (case ListPermissions (pe_list1 e) (fst from_t) (snd from_t) db of
        Inl _ \<Rightarrow> (Inl errCodeUnavailable, db)
      | Inr src \<Rightarrow>
          (case ListPermissions (pe_list2 e) (fst to_t) (snd to_t) db of
             Inl _ \<Rightarrow> (Inl errCodeUnavailable, db)
           | Inr dst \<Rightarrow>
               let current = current_map dst
               in if \<exists>r \<in> set src. \<not> grantCapOkWrite pc current (pr_key r) (pr_value r) (pr_grant r)
                  then (Inl errCodePermissionDenied, db)
                  else
                    let obsolete = (if replace then pe_order e (filter (\<lambda>r. pr_key r \<notin> pr_key ` set src) dst) else [])
                    in if \<exists>r \<in> set obsolete. \<not> grantCapOk pc (pr_key r) (pr_value r) (pr_grant r)
                       then (Inl errCodePermissionDenied, db)
                       else
                         (case CopyPermissions (pe_list1 e) (fst to_t) (snd to_t)
                                 (with_envs e 0 (map pr_key obsolete)) (with_envs e (length obsolete) src) db of
                            (Inl _, db1) \<Rightarrow> (Inl errCodeUnavailable, db1)
                          | (Inr _, db1) \<Rightarrow> (Inr (), db1))))"

record PermCopy =
  pm_FromKind :: string
  pm_FromID :: string
  pm_ToKind :: string
  pm_ToID :: string
  pm_CopyChannelID :: channel_id
  pm_Replace :: bool

definition handlePermCopy :: "perm_env \<Rightarrow> tcp_client \<Rightarrow> PermCopy option \<Rightarrow> perm_sys \<Rightarrow> perm_result \<times> perm_sys" where
  "handlePermCopy e c msg y =
     (case msg of
        None \<Rightarrow> (PRefused errCodeMalformed, y)
      | Some m \<Rightarrow>
          if \<not> pe_groups e then (PRefused errCodeUnavailable, y)
          else
            (case permCheckerFor (env_deps e (py_db y)) c (py_loader y) of
               (Inl _, l) \<Rightarrow> (PRefused errCodeUnavailable, y\<lparr>py_loader := l\<rparr>)
             | (Inr pc, l) \<Rightarrow>
                 let y1 = y\<lparr>py_loader := l\<rparr>
                 in if \<not> granted pc ''b_permission_manage'' then (PRefused errCodePermissionDenied, y1)
                    else
                      (case permCopyTarget e (pm_FromKind m) (pm_FromID m) (pm_CopyChannelID m) of
                         None \<Rightarrow> (PRefused errCodeMalformed, y1)
                       | Some from_t \<Rightarrow>
                           (case permCopyTarget e (pm_ToKind m) (pm_ToID m) (pm_CopyChannelID m) of
                              None \<Rightarrow> (PRefused errCodeMalformed, y1)
                            | Some to_t \<Rightarrow>
                                if from_t = to_t then (PRefused errCodeMalformed, y1)
                                else
                                  (case doPermCopyLocked e pc from_t to_t (pm_Replace m) (py_db y) of
                                     (Inl code, db) \<Rightarrow> (PRefused code, y1\<lparr>py_db := db\<rparr>)
                                   | (Inr _, db) \<Rightarrow>
                                       (PApplied (permAudience e (fst to_t) (snd to_t) db),
                                        \<lparr>py_db = db, py_loader = InvalidateAll l\<rparr>))))))"

subsection \<open>Templates\<close>

definition tmpl_row :: "PermissionKey \<Rightarrow> int \<Rightarrow> int \<Rightarrow> bool \<Rightarrow> perm_row" where
  "tmpl_row key v g n = \<lparr>pr_key = key, pr_value = v, pr_grant = g, pr_skip = False, pr_negate = n\<rparr>"

definition permTemplates :: "(string \<times> perm_row list) list" where
  "permTemplates =
    [(''guest'',
     [tmpl_row ''i_ft_file_upload_power'' 0 0 True,
      tmpl_row ''b_client_avatar_upload'' 0 0 True]),
     (''member'',
     [tmpl_row ''b_client_poke'' 1 0 False,
      tmpl_row ''b_channel_create_temporary'' 1 0 False]),
     (''moderator'',
     [tmpl_row ''b_client_poke'' 1 0 False,
      tmpl_row ''b_channel_create_temporary'' 1 0 False,
      tmpl_row ''b_chat_delete_any'' 1 0 False,
      tmpl_row ''b_chat_mention_all'' 1 0 False,
      tmpl_row ''b_chat_slowmode_bypass'' 1 0 False,
      tmpl_row ''b_chat_filter_manage'' 1 0 False,
      tmpl_row ''b_channel_modify'' 1 0 False,
      tmpl_row ''b_channel_delete'' 1 0 False,
      tmpl_row ''b_client_priority_speaker'' 1 0 False,
      tmpl_row ''b_ft_delete'' 1 0 False,
      tmpl_row ''b_client_ban'' 1 0 False,
      tmpl_row ''i_client_ban_power'' 50 0 False,
      tmpl_row ''i_client_kick_from_channel_power'' 50 0 False,
      tmpl_row ''i_client_kick_from_server_power'' 50 0 False,
      tmpl_row ''i_client_move_power'' 50 0 False]),
     (''admin'',
     [tmpl_row ''b_client_poke'' 1 1 False,
      tmpl_row ''b_channel_create_temporary'' 1 1 False,
      tmpl_row ''b_channel_create_semi_permanent'' 1 1 False,
      tmpl_row ''b_channel_create_permanent'' 1 1 False,
      tmpl_row ''b_chat_delete_any'' 1 1 False,
      tmpl_row ''b_chat_mention_all'' 1 1 False,
      tmpl_row ''b_chat_slowmode_bypass'' 1 1 False,
      tmpl_row ''b_chat_filter_manage'' 1 1 False,
      tmpl_row ''b_channel_modify'' 1 1 False,
      tmpl_row ''b_channel_delete'' 1 1 False,
      tmpl_row ''b_client_priority_speaker'' 1 1 False,
      tmpl_row ''b_ft_delete'' 1 1 False,
      tmpl_row ''b_client_ban'' 1 1 False,
      tmpl_row ''i_client_ban_power'' 75 75 False,
      tmpl_row ''i_client_kick_from_channel_power'' 75 75 False,
      tmpl_row ''i_client_kick_from_server_power'' 75 75 False,
      tmpl_row ''i_client_move_power'' 75 75 False,
      tmpl_row ''b_client_remoteaddress_view'' 1 1 False,
      tmpl_row ''b_virtualserver_recording'' 1 1 False,
      tmpl_row ''b_emoji_manage'' 1 1 False,
      tmpl_row ''b_permission_manage'' 1 1 False,
      tmpl_row ''b_permission_modify_power_ignore'' 1 1 False,
      tmpl_row ''b_server_group_manage'' 1 1 False,
      tmpl_row ''b_channel_group_manage'' 1 1 False,
      tmpl_row ''b_audit_view'' 1 1 False])]"

text \<open>The map of a template is visited in some order, once for the checks and once for the writes.\<close>

definition handlePermTemplateApply ::
  "perm_env \<Rightarrow> tcp_client \<Rightarrow> (string \<times> PermAddress) option \<Rightarrow> perm_sys \<Rightarrow> perm_result \<times> perm_sys" where
  "handlePermTemplateApply e c msg y =
     (case msg of
        None \<Rightarrow> (PRefused errCodeMalformed, y)
      | Some (name, m) \<Rightarrow>
          (case map_of permTemplates name of
             None \<Rightarrow> (PRefused errCodeMalformed, y)
           | Some tmpl \<Rightarrow>
               if \<not> pe_groups e then (PRefused errCodeUnavailable, y)
               else
                 (case permCheckerFor (env_deps e (py_db y)) c (py_loader y) of
                    (Inl _, l) \<Rightarrow> (PRefused errCodeUnavailable, y\<lparr>py_loader := l\<rparr>)
                  | (Inr pc, l) \<Rightarrow>
                      let y1 = y\<lparr>py_loader := l\<rparr>
                      in if \<not> granted pc ''b_permission_manage'' then (PRefused errCodePermissionDenied, y1)
                         else
                           (case permTarget e (m\<lparr>pm_ChannelID := 0\<rparr>) of
                              None \<Rightarrow> (PRefused errCodeMalformed, y1)
                            | Some (tier, t) \<Rightarrow>
                                if tier \<noteq> PermTierServerGroup \<and> tier \<noteq> PermTierClient then (PRefused errCodeMalformed, y1)
                                else
                                  (case currentPerms e pc tier t (py_db y) of
                                     Inl _ \<Rightarrow> (PRefused errCodeUnavailable, y1)
                                   | Inr current \<Rightarrow>
                                       if \<exists>r \<in> set tmpl. \<not> grantCapOkWrite pc current (pr_key r) (pr_value r) (pr_grant r)
                                       then (PRefused errCodePermissionDenied, y1)
                                       else
                                         (case set_loop (addr_of tier t) (with_envs e 0 (pe_order e tmpl)) (py_db y) of
                                            (Inl _, db) \<Rightarrow> (PRefused errCodeUnavailable, y1\<lparr>py_db := db\<rparr>)
                                          | (Inr _, db) \<Rightarrow>
                                              (PApplied (permAudience e tier t db),
                                               \<lparr>py_db = db, py_loader = InvalidateAll l\<rparr>)))))))"

subsection \<open>Group memberships\<close>

definition groupManageKey :: "string \<Rightarrow> PermissionKey" where
  "groupManageKey gt = (if gt = ''channel'' then ''b_channel_group_manage'' else ''b_server_group_manage'')"

record GroupUnassign =
  ga_Type :: string
  ga_GroupID :: int
  ga_UniqueID :: string
  ga_ChannelID :: channel_id

definition handleGroupUnassign :: "perm_env \<Rightarrow> tcp_client \<Rightarrow> GroupUnassign option \<Rightarrow> perm_sys \<Rightarrow> perm_result \<times> perm_sys" where
  "handleGroupUnassign e c msg y =
     (case msg of
        None \<Rightarrow> (PRefused errCodeMalformed, y)
      | Some m \<Rightarrow>
          (case permCheckerFor (env_deps e (py_db y)) c (py_loader y) of
             (Inl _, l) \<Rightarrow> (PRefused errCodeUnavailable, y\<lparr>py_loader := l\<rparr>)
           | (Inr pc, l) \<Rightarrow>
               let y1 = y\<lparr>py_loader := l\<rparr>
               in if \<not> granted pc (groupManageKey (ga_Type m)) then (PRefused errCodePermissionDenied, y1)
                  else if \<not> pe_groups e then (PRefused errCodeUnavailable, y1)
                  else
                    (case fmlookup (pe_users e) (ga_UniqueID m) of
                       None \<Rightarrow> (PRefused errCodeNotFound, y1)
                     | Some u \<Rightarrow>
                         (case (if ga_Type m = ''channel'' then UnassignChannelGroup (pe_stmt e 0) u (ga_ChannelID m) (py_db y)
                                else UnassignServerGroup (pe_stmt e 0) (ga_GroupID m) u (py_db y)) of
                            (Inl _, db) \<Rightarrow> (PRefused errCodeUnavailable, y1\<lparr>py_db := db\<rparr>)
                          | (Inr _, db) \<Rightarrow> (PApplied {|ga_UniqueID m|}, \<lparr>py_db = db, py_loader = InvalidateAll l\<rparr>)))))"

subsection \<open>The grant cap\<close>

text \<open>The entry is within the caller's own grant for its key.\<close>

definition within_grant :: "permChecker \<Rightarrow> PermissionKey \<Rightarrow> perm_row \<Rightarrow> bool" where
  "within_grant pc key r =
     (case winner (pc_tp pc) key of None \<Rightarrow> False | Some own \<Rightarrow> pr_value r \<le> Grant own \<and> pr_grant r \<le> Grant own)"

text \<open>Callers the cap does not apply to.\<close>

definition uncapped :: "permChecker \<Rightarrow> bool" where
  "uncapped pc \<longleftrightarrow> pc_admin pc \<or> granted pc ''b_permission_modify_power_ignore''"

lemma grantCapOk_within: "\<not> uncapped pc \<Longrightarrow> grantCapOk pc key (pr_value r) (pr_grant r) \<longleftrightarrow> within_grant pc key r"
  by (auto simp: grantCapOk_def uncapped_def within_grant_def Resolve_winner split: option.split)

text \<open>Every entry that differs between two states of the tables is within the grant before and after.\<close>

definition capped_change :: "permChecker \<Rightarrow> perm_db \<Rightarrow> perm_db \<Rightarrow> bool" where
  "capped_change pc db db' \<longleftrightarrow>
     (\<forall>a k. entry_of db' a k = entry_of db a k \<or>
        (\<forall>r. (entry_of db a k = Some r \<longrightarrow> within_grant pc k r) \<and> (entry_of db' a k = Some r \<longrightarrow> within_grant pc k r)))"

lemma capped_change_refl: "capped_change pc db db"
  by (simp add: capped_change_def)

lemma capped_change_trans: "capped_change pc db db1 \<Longrightarrow> capped_change pc db1 db2 \<Longrightarrow> capped_change pc db db2"
  unfolding capped_change_def by metis

lemma upsert_entry:
  assumes "upsertPermissionRow en row db = (res, db1)" "fk_ok db" "se_newid en |\<notin>| fmdom (pd_permissions db)"
  shows "entry_of db1 a k = entry_of db a k" "fk_ok db1" "fmdom (pd_permissions db1) |\<subseteq>| finsert (se_newid en) (fmdom (pd_permissions db))"
proof -
  have "(\<exists>err. res = Inl err \<and> db1 = db) \<or> (\<exists>i. res = Inr i)"
    using assms(1) by (auto simp: upsertPermissionRow_def split: if_splits option.splits)
  moreover have "fmdom (pd_permissions db1) |\<subseteq>| finsert (se_newid en) (fmdom (pd_permissions db))"
    using assms(1) by (auto simp: upsertPermissionRow_def split: if_splits option.splits)
  ultimately show "entry_of db1 a k = entry_of db a k" "fk_ok db1" "fmdom (pd_permissions db1) |\<subseteq>| finsert (se_newid en) (fmdom (pd_permissions db))"
    using upsert_rows(3,4) [OF _ assms(2,3)] assms by (auto simp: entry_of_def)
qed

lemma drop_entry:
  "entry_of (drop_links a (of_key db key) db) b k = (if b = a \<and> k = key then None else entry_of db b k)"
  "fk_ok db \<Longrightarrow> fk_ok (drop_links a (of_key db key) db)"
  by (auto simp: entry_of_def entry_rows_def links_drop join_perms_filter find_filter_ne fk_ok_def split: if_splits)

text \<open>One write of a row within the grant over an entry within the grant, whether or not it succeeds.\<close>

lemma set_capped:
  assumes "setPermissionWith en a row db = (res, db')" "fk_ok db" "se_newid en |\<notin>| fmdom (pd_permissions db)"
    and "within_grant pc (pr_key row) row" "\<And>r. entry_of db a (pr_key row) = Some r \<Longrightarrow> within_grant pc (pr_key row) r"
  shows "capped_change pc db db'" "fk_ok db'" "fmdom (pd_permissions db') |\<subseteq>| finsert (se_newid en) (fmdom (pd_permissions db))"
    and "\<And>k r. entry_of db' a k = Some r \<Longrightarrow> entry_of db a k = Some r \<or> within_grant pc k r"
proof -
  obtain ures db1 where up: "upsertPermissionRow en row db = (ures, db1)" by fastforce
  note u = upsert_entry [OF up assms(2,3)]
  consider "db' = db1" | "db' = drop_links a (of_key db1 (pr_key row)) db1" | i where "ures = Inr i" "res = Inr ()"
    using assms(1) up by (auto simp: setPermissionWith_def Let_def split: sum.splits if_splits)
  then have "capped_change pc db db' \<and> fk_ok db' \<and> (\<forall>k r. entry_of db' a k = Some r \<longrightarrow> entry_of db a k = Some r \<or> within_grant pc k r)"
  proof cases
    case 1
    then show ?thesis using u by (simp add: capped_change_def)
  next
    case 2
    then show ?thesis using u(1,2) assms(5) drop_entry(1) [of a db1 "pr_key row"] drop_entry(2) by (simp add: capped_change_def)
  next
    case 3
    then have ok: "setPermissionWith en a row db = (Inr (), db')" using assms(1) by simp
    show ?thesis
      using setPermissionWith_entry [OF ok assms(2,3)] setPermissionWith_rows(2) [OF ok assms(2,3)] assms(4,5)
      by (auto simp: capped_change_def)
  qed
  moreover have "pd_permissions db' = pd_permissions db1"
    using assms(1) up by (auto simp: setPermissionWith_def Let_def split: sum.splits if_splits)
  ultimately show "capped_change pc db db'" "fk_ok db'" "fmdom (pd_permissions db') |\<subseteq>| finsert (se_newid en) (fmdom (pd_permissions db))"
    and "\<And>k r. entry_of db' a k = Some r \<Longrightarrow> entry_of db a k = Some r \<or> within_grant pc k r"
    using u(3) by auto
qed

lemma unset_capped:
  assumes "unsetPermissionWith en a key db = (res, db')" "fk_ok db"
    and "\<And>r. entry_of db a key = Some r \<Longrightarrow> within_grant pc key r"
  shows "capped_change pc db db'" "fk_ok db'" "pd_permissions db' = pd_permissions db"
    and "\<And>k r. entry_of db' a k = Some r \<Longrightarrow> entry_of db a k = Some r"
  using assms drop_entry(1) [of a db key] drop_entry(2)
  by (auto simp: unsetPermissionWith_def capped_change_def split: if_splits)

text \<open>A batch of writes: the ids the sequence hands out are new and pairwise different.\<close>

fun fresh_ids :: "(store_env \<times> 'a) list \<Rightarrow> perm_db \<Rightarrow> bool" where
  "fresh_ids es db \<longleftrightarrow> distinct (map (se_newid \<circ> fst) es) \<and> (\<forall>(en, _) \<in> set es. se_newid en |\<notin>| fmdom (pd_permissions db))"

lemma set_loop_capped:
  assumes "set_loop a es db = (res, db')" "fk_ok db" "fresh_ids es db"
    and "\<forall>(_, row) \<in> set es. within_grant pc (pr_key row) row \<and> (\<forall>r. entry_of db a (pr_key row) = Some r \<longrightarrow> within_grant pc (pr_key row) r)"
  shows "capped_change pc db db' \<and> fk_ok db'"
  using assms
proof (induction es arbitrary: db)
  case Nil
  then show ?case by (simp add: capped_change_refl)
next
  case (Cons x es)
  obtain en row where x: "x = (en, row)" by fastforce
  obtain r1 db1 where st: "setPermissionWith en a row db = (r1, db1)" by fastforce
  have fresh: "se_newid en |\<notin>| fmdom (pd_permissions db)" using Cons.prems(3) by (simp add: x)
  have row: "within_grant pc (pr_key row) row" and old: "\<And>r. entry_of db a (pr_key row) = Some r \<Longrightarrow> within_grant pc (pr_key row) r"
    using Cons.prems(4) by (auto simp: x)
  note s = set_capped [OF st Cons.prems(2) fresh row old]
  show ?case
  proof (cases r1)
    case (Inl err)
    then show ?thesis using Cons.prems(1) st s by (simp add: x)
  next
    case (Inr u)
    have "\<forall>(en', _) \<in> set es. se_newid en' \<noteq> se_newid en" using Cons.prems(3) by (force simp: x)
    then have "fresh_ids es db1" using Cons.prems(3) s(3) by (auto simp: x dest!: fsubsetD)
    moreover have "\<forall>(_, row) \<in> set es. within_grant pc (pr_key row) row \<and> (\<forall>r. entry_of db1 a (pr_key row) = Some r \<longrightarrow> within_grant pc (pr_key row) r)"
    proof clarify
      fix en' row' assume m: "(en', row') \<in> set es"
      have h: "within_grant pc (pr_key row') row'" "\<forall>r. entry_of db a (pr_key row') = Some r \<longrightarrow> within_grant pc (pr_key row') r"
        using Cons.prems(4) m by (auto simp: x)
      show "within_grant pc (pr_key row') row' \<and> (\<forall>r. entry_of db1 a (pr_key row') = Some r \<longrightarrow> within_grant pc (pr_key row') r)"
        using h s(4) [of "pr_key row'"] by blast
    qed
    ultimately have "capped_change pc db1 db' \<and> fk_ok db'"
      using Cons.IH [of db1] Cons.prems(1) st Inr s(2) by (simp add: x)
    then show ?thesis using capped_change_trans [OF s(1)] by blast
  qed
qed

lemma unset_loop_capped:
  assumes "unset_loop a es db = (res, db')" "fk_ok db"
    and "\<forall>(_, key) \<in> set es. \<forall>r. entry_of db a key = Some r \<longrightarrow> within_grant pc key r"
  shows "capped_change pc db db' \<and> fk_ok db' \<and> pd_permissions db' = pd_permissions db \<and>
    (\<forall>k r. entry_of db' a k = Some r \<longrightarrow> entry_of db a k = Some r)"
  using assms
proof (induction es arbitrary: db)
  case Nil
  then show ?case by (simp add: capped_change_refl)
next
  case (Cons x es)
  obtain en key where x: "x = (en, key)" by fastforce
  obtain r1 db1 where st: "unsetPermissionWith en a key db = (r1, db1)" by fastforce
  have old: "\<And>r. entry_of db a key = Some r \<Longrightarrow> within_grant pc key r" using Cons.prems(3) by (auto simp: x)
  note s = unset_capped [OF st Cons.prems(2) old]
  show ?case
  proof (cases r1)
    case (Inl err)
    then show ?thesis using Cons.prems(1) st s by (simp add: x)
  next
    case (Inr u)
    have "\<forall>(_, key) \<in> set es. \<forall>r. entry_of db1 a key = Some r \<longrightarrow> within_grant pc key r"
      using Cons.prems(3) s(4) by (auto simp: x)
    then have "capped_change pc db1 db' \<and> fk_ok db' \<and> pd_permissions db' = pd_permissions db1 \<and>
        (\<forall>k r. entry_of db' a k = Some r \<longrightarrow> entry_of db1 a k = Some r)"
      using Cons.IH [of db1] Cons.prems(1) st Inr s(2) by (simp add: x)
    then show ?thesis using capped_change_trans [OF s(1)] s(3,4) by auto
  qed
qed

text \<open>With one entry per key, the handlers' index of the current entries is \<open>entry_of\<close>.\<close>

lemma find_distinct: "distinct (map f xs) \<Longrightarrow> List.find (\<lambda>x. f x = k) xs = Some x \<longleftrightarrow> x \<in> set xs \<and> f x = k"
  by (induction xs) (auto intro: rev_image_eqI)

lemma current_map_find: "distinct (map pr_key rows) \<Longrightarrow> fmlookup (current_map rows) k = List.find (\<lambda>r. pr_key r = k) rows"
proof (induction rows rule: rev_induct)
  case Nil
  then show ?case by (simp add: current_map_def)
next
  case (snoc r rows)
  have "pr_key r \<notin> pr_key ` set rows" using snoc.prems by simp
  then have "\<forall>x \<in> set rows. pr_key x \<noteq> pr_key r" by (metis imageI)
  then have "List.find (\<lambda>x. pr_key x = pr_key r) rows = None" by (simp add: find_None_iff)
  moreover have "current_map (rows @ [r]) = fmupd (pr_key r) r (current_map rows)" by (simp add: current_map_def)
  ultimately show ?case using snoc by (auto simp: find_append split: option.split)
qed

lemma listed_entry:
  assumes "one_per_key db" "ListPermissions en tier t db = Inr rows"
  shows "distinct (map pr_key rows)" "set rows = set (entry_rows db (addr_of tier t))"
    "fmlookup (current_map rows) k = entry_of db (addr_of tier t) k"
    "r \<in> set rows \<Longrightarrow> entry_of db (addr_of tier t) (pr_key r) = Some r"
proof -
  have rows: "rows = sort_key pr_key (entry_rows db (addr_of tier t))"
    using assms(2) by (simp add: ListPermissions_def split: if_splits)
  have d: "distinct (map pr_key (entry_rows db (addr_of tier t)))" using assms(1) by (simp add: one_per_key_def)
  show set: "set rows = set (entry_rows db (addr_of tier t))" by (simp add: rows)
  have "mset (map pr_key rows) = mset (map pr_key (entry_rows db (addr_of tier t)))" by (simp add: rows)
  then show d': "distinct (map pr_key rows)" using d mset_eq_imp_distinct_iff by blast
  have "List.find (\<lambda>r. pr_key r = k) rows = Some r \<longleftrightarrow> entry_of db (addr_of tier t) k = Some r" for r k
    by (simp add: entry_of_def find_distinct [OF d] find_distinct [OF d'] set)
  then show "fmlookup (current_map rows) k = entry_of db (addr_of tier t) k"
    unfolding current_map_find [OF d'] by (metis not_Some_eq)
  show "r \<in> set rows \<Longrightarrow> entry_of db (addr_of tier t) (pr_key r) = Some r"
    by (simp add: entry_of_def find_distinct [OF d] set)
qed

text \<open>What the check of one write establishes.\<close>

lemma checked_write:
  assumes "one_per_key db" "\<not> uncapped pc" "currentPerms e pc tier t db = Inr current"
    and "grantCapOkWrite pc current (pr_key row) (pr_value row) (pr_grant row)"
  shows "within_grant pc (pr_key row) row"
    "entry_of db (addr_of tier t) (pr_key row) = Some r \<Longrightarrow> within_grant pc (pr_key row) r"
proof -
  obtain rows where rows: "ListPermissions (pe_list1 e) tier t db = Inr rows" "current = current_map rows"
    using assms(2,3) by (auto simp: currentPerms_def uncapped_def split: sum.splits if_splits)
  have cur: "fmlookup current (pr_key row) = entry_of db (addr_of tier t) (pr_key row)"
    using listed_entry(3) [OF assms(1) rows(1)] rows(2) by simp
  show "within_grant pc (pr_key row) row"
    using assms(4) grantCapOk_within [OF assms(2)] by (simp add: grantCapOkWrite_def split: if_splits)
  show "entry_of db (addr_of tier t) (pr_key row) = Some r \<Longrightarrow> within_grant pc (pr_key row) r"
    using assms(4) cur grantCapOk_within [OF assms(2), of _ r] by (simp add: grantCapOkWrite_def split: if_splits)
qed

lemma checked_unset:
  assumes "one_per_key db" "\<not> uncapped pc" "currentPerms e pc tier t db = Inr current" "grantCapOkWrite pc current key 0 0"
    and "entry_of db (addr_of tier t) key = Some r"
  shows "within_grant pc key r"
  using checked_write(2) [OF assms(1-3), of "tmpl_row key 0 0 False" r] assms(4,5) by (simp add: tmpl_row_def)

subsection \<open>Every handler respects the cap\<close>

datatype perm_op =
    OpSet perm_env tcp_client "(PermAddress \<times> perm_row) option"
  | OpUnset perm_env tcp_client "(PermAddress \<times> PermissionKey) option"
  | OpCopy perm_env tcp_client "PermCopy option"
  | OpTemplate perm_env tcp_client "(string \<times> PermAddress) option"

fun perm_step :: "perm_op \<Rightarrow> perm_sys \<Rightarrow> perm_result \<times> perm_sys" where
  "perm_step (OpSet e c m) y = handlePermSet e c m y"
| "perm_step (OpUnset e c m) y = handlePermUnset e c m y"
| "perm_step (OpCopy e c m) y = handlePermCopy e c m y"
| "perm_step (OpTemplate e c m) y = handlePermTemplateApply e c m y"

fun op_env :: "perm_op \<Rightarrow> perm_env" where
  "op_env (OpSet e c m) = e"
| "op_env (OpUnset e c m) = e"
| "op_env (OpCopy e c m) = e"
| "op_env (OpTemplate e c m) = e"

fun op_client :: "perm_op \<Rightarrow> tcp_client" where
  "op_client (OpSet e c m) = c"
| "op_client (OpUnset e c m) = c"
| "op_client (OpCopy e c m) = c"
| "op_client (OpTemplate e c m) = c"

text \<open>The sequence never reuses an id, and a map is visited completely.\<close>

definition env_fair :: "perm_env \<Rightarrow> perm_db \<Rightarrow> bool" where
  "env_fair e db \<longleftrightarrow>
     inj (\<lambda>i. se_newid (pe_stmt e i)) \<and> (\<forall>i. se_newid (pe_stmt e i) |\<notin>| fmdom (pd_permissions db)) \<and>
     (\<forall>rs. mset (pe_order e rs) = mset rs)"

lemma env_fair_fresh:
  assumes "env_fair e db"
  shows "fresh_ids (with_envs e n xs) db" "set (pe_order e rs) = set rs" "se_newid (pe_stmt e 0) |\<notin>| fmdom (pd_permissions db)"
proof -
  have "map (se_newid \<circ> fst) (with_envs e n xs) = map (\<lambda>i. se_newid (pe_stmt e i)) (map fst (enumerate n xs))"
    unfolding with_envs_def by (simp only: map_map comp_def split_beta fst_conv)
  moreover have "inj_on (\<lambda>i. se_newid (pe_stmt e i)) (set (map fst (enumerate n xs)))"
    using assms inj_on_subset by (fastforce simp: env_fair_def)
  ultimately have "distinct (map (se_newid \<circ> fst) (with_envs e n xs))" by (simp add: distinct_map)
  then show "fresh_ids (with_envs e n xs) db" using assms by (auto simp: with_envs_def env_fair_def)
  show "set (pe_order e rs) = set rs" using assms by (metis env_fair_def mset_eq_setD)
  show "se_newid (pe_stmt e 0) |\<notin>| fmdom (pd_permissions db)" using assms by (simp add: env_fair_def)
qed

lemma with_envs_map_snd: "map snd (with_envs e n xs) = xs"
  using map_snd_enumerate [of n xs] by (simp add: with_envs_def split_beta comp_def)

lemma with_envs_snd: "(en, x) \<in> set (with_envs e n xs) \<Longrightarrow> x \<in> set xs"
  using imageI [of "(en, x)" "set (with_envs e n xs)" snd] with_envs_map_snd [of e n xs] by (metis set_map snd_conv)

lemma handlePermSet_capped:
  assumes "fk_ok (py_db y)" "one_per_key (py_db y)" "env_fair e (py_db y)" "\<not> uncapped pc"
    and "permCheckerFor (env_deps e (py_db y)) c (py_loader y) = (Inr pc, l)"
  shows "capped_change pc (py_db y) (py_db (snd (handlePermSet e c m y)))"
proof -
  have "capped_change pc (py_db y) db"
    if "currentPerms e pc tier t (py_db y) = Inr current" "grantCapOkWrite pc current (pr_key row) (pr_value row) (pr_grant row)"
      "SetPermission (pe_stmt e 0) tier t row (py_db y) = (res, db)" for tier t current row res db
    using set_capped(1) [OF that(3) [unfolded SetPermission_def] assms(1) env_fair_fresh(3) [OF assms(3)]]
      checked_write [OF assms(2,4) that(1,2)] by blast
  then show ?thesis
    using assms(5) by (auto simp: handlePermSet_def Let_def capped_change_refl split: option.splits sum.splits prod.splits)
qed

lemma handlePermUnset_capped:
  assumes "fk_ok (py_db y)" "one_per_key (py_db y)" "\<not> uncapped pc"
    and "permCheckerFor (env_deps e (py_db y)) c (py_loader y) = (Inr pc, l)"
  shows "capped_change pc (py_db y) (py_db (snd (handlePermUnset e c m y)))"
proof -
  have "capped_change pc (py_db y) db"
    if "currentPerms e pc tier t (py_db y) = Inr current" "grantCapOkWrite pc current key 0 0"
      "UnsetPermission (pe_stmt e 0) tier t key (py_db y) = (res, db)" for tier t current key res db
    using unset_capped(1) [OF that(3) [unfolded UnsetPermission_def] assms(1)] checked_unset [OF assms(2,3) that(1,2)] by blast
  then show ?thesis
    using assms(4) by (auto simp: handlePermUnset_def Let_def capped_change_refl split: option.splits sum.splits prod.splits)
qed

lemma handlePermTemplateApply_capped:
  assumes "fk_ok (py_db y)" "one_per_key (py_db y)" "env_fair e (py_db y)" "\<not> uncapped pc"
    and "permCheckerFor (env_deps e (py_db y)) c (py_loader y) = (Inr pc, l)"
  shows "capped_change pc (py_db y) (py_db (snd (handlePermTemplateApply e c m y)))"
proof -
  have "capped_change pc (py_db y) db"
    if cur: "currentPerms e pc tier t (py_db y) = Inr current" and ok: "\<forall>r \<in> set tmpl. grantCapOkWrite pc current (pr_key r) (pr_value r) (pr_grant r)"
      and loop: "set_loop (addr_of tier t) (with_envs e 0 (pe_order e tmpl)) (py_db y) = (res, db)" for tier t current tmpl res db
  proof -
    have "\<forall>(_, row) \<in> set (with_envs e 0 (pe_order e tmpl)). within_grant pc (pr_key row) row \<and>
        (\<forall>r. entry_of (py_db y) (addr_of tier t) (pr_key row) = Some r \<longrightarrow> within_grant pc (pr_key row) r)"
      using ok checked_write [OF assms(2,4) cur] env_fair_fresh(2) [OF assms(3)] by (auto dest!: with_envs_snd)
    then show ?thesis
      using set_loop_capped [OF loop assms(1) env_fair_fresh(1) [OF assms(3)]] by blast
  qed
  then show ?thesis
    using assms(5) by (auto simp: handlePermTemplateApply_def Let_def capped_change_refl split: option.splits sum.splits prod.splits)
qed

lemma doPermCopyLocked_capped:
  assumes "fk_ok db" "one_per_key db" "env_fair e db" "\<not> uncapped pc" "doPermCopyLocked e pc ft tt replace db = (res, db')"
  shows "capped_change pc db db'"
proof (cases "db' = db")
  case False
  let ?a = "addr_of (fst tt) (snd tt)"
  obtain src dst where l1: "ListPermissions (pe_list1 e) (fst ft) (snd ft) db = Inr src"
    and l2: "ListPermissions (pe_list2 e) (fst tt) (snd tt) db = Inr dst"
    using assms(5) False by (auto simp: doPermCopyLocked_def split: sum.splits)
  define obsolete where "obsolete = (if replace then pe_order e (filter (\<lambda>r. pr_key r \<notin> pr_key ` set src) dst) else [])"
  have ok1: "\<forall>r \<in> set src. grantCapOkWrite pc (current_map dst) (pr_key r) (pr_value r) (pr_grant r)"
    and ok2: "\<forall>r \<in> set obsolete. grantCapOk pc (pr_key r) (pr_value r) (pr_grant r)"
    and cp: "snd (CopyPermissions (pe_list1 e) (fst tt) (snd tt) (with_envs e 0 (map pr_key obsolete)) (with_envs e (length obsolete) src) db) = db'"
    using assms(5) False l1 l2
    by (auto simp: doPermCopyLocked_def Let_def obsolete_def split: sum.splits prod.splits if_splits)
  obtain db1 db2 r2 where u: "unset_loop ?a (with_envs e 0 (map pr_key obsolete)) db = (Inr (), db1)"
    and s: "set_loop ?a (with_envs e (length obsolete) src) db1 = (r2, db2)" and db': "db' = db2"
    using cp False by (auto simp: CopyPermissions_def split: prod.splits sum.splits if_splits)
  have obs: "r \<in> set obsolete \<Longrightarrow> entry_of db ?a (pr_key r) = Some r" for r
    using listed_entry(4) [OF assms(2) l2] env_fair_fresh(2) [OF assms(3)] by (auto simp: obsolete_def split: if_splits)
  have "\<forall>(_, key) \<in> set (with_envs e 0 (map pr_key obsolete)). \<forall>r. entry_of db ?a key = Some r \<longrightarrow> within_grant pc key r"
    using ok2 obs grantCapOk_within [OF assms(4)] by (auto dest!: with_envs_snd)
  then have 1: "capped_change pc db db1" "fk_ok db1" "pd_permissions db1 = pd_permissions db"
      "\<And>k r. entry_of db1 ?a k = Some r \<Longrightarrow> entry_of db ?a k = Some r"
    using unset_loop_capped [OF u assms(1)] by auto
  have row: "within_grant pc (pr_key r) r" if "r \<in> set src" for r
    using ok1 that grantCapOk_within [OF assms(4)] by (auto simp: grantCapOkWrite_def split: if_splits)
  have old: "within_grant pc (pr_key r) r'" if "r \<in> set src" "entry_of db ?a (pr_key r) = Some r'" for r r'
    using ok1 that listed_entry(3) [OF assms(2) l2, of "pr_key r"] grantCapOk_within [OF assms(4)]
    by (auto simp: grantCapOkWrite_def split: if_splits)
  have "\<forall>(_, row) \<in> set (with_envs e (length obsolete) src). within_grant pc (pr_key row) row \<and>
      (\<forall>r. entry_of db1 ?a (pr_key row) = Some r \<longrightarrow> within_grant pc (pr_key row) r)"
    using row old 1(4) by (auto dest!: with_envs_snd)
  moreover have "fresh_ids (with_envs e (length obsolete) src) db1" using env_fair_fresh(1) [OF assms(3), of "length obsolete" src] 1(3) by simp
  ultimately have "capped_change pc db1 db2" using set_loop_capped [OF s 1(2)] by blast
  then show ?thesis using capped_change_trans [OF 1(1)] db' by blast
qed (simp add: capped_change_refl)

lemma handlePermCopy_capped:
  assumes "fk_ok (py_db y)" "one_per_key (py_db y)" "env_fair e (py_db y)" "\<not> uncapped pc"
    and "permCheckerFor (env_deps e (py_db y)) c (py_loader y) = (Inr pc, l)"
  shows "capped_change pc (py_db y) (py_db (snd (handlePermCopy e c m y)))"
  using doPermCopyLocked_capped [OF assms(1-4)] assms(5)
  by (auto simp: handlePermCopy_def Let_def capped_change_refl split: option.splits sum.splits prod.splits)

text \<open>C3: No permission handler lets a caller reach beyond its own grants.  For a caller that is neither
  a server admin nor holds the right to ignore the cap, every permission entry that is different after
  a set, unset, copy or template handler has a value and grant within the caller's own grant for that
  key, and so had the entry it replaced or removed; this also holds when the handler fails half way.\<close>

theorem grant_cap_enforced:
  assumes "fk_ok (py_db y)" "one_per_key (py_db y)" "env_fair (op_env p) (py_db y)"
    and "permCheckerFor (env_deps (op_env p) (py_db y)) (op_client p) (py_loader y) = (Inr pc, l)" "\<not> uncapped pc"
  shows "capped_change pc (py_db y) (py_db (snd (perm_step p y)))"
  using assms handlePermSet_capped handlePermUnset_capped handlePermCopy_capped handlePermTemplateApply_capped
  by (cases p) auto

definition admin_demo_db :: perm_db where
  "admin_demo_db =
     \<lparr>pd_permissions = fmap_of_list [(1, tmpl_row ''b_permission_manage'' 1 0 False), (2, tmpl_row ''b_x'' 5 5 False)],
      pd_server_group_members = [(7, 3)], pd_server_group_permissions = [(3, 1), (3, 2)], pd_client_permissions = [],
      pd_channel_group_members = [], pd_channel_group_permissions = [], pd_channel_client_permissions = [],
      pd_channel_permissions = [], pd_channels = fmempty\<rparr>"

definition admin_demo_env :: perm_env where
  "admin_demo_env =
     \<lparr>pe_wired = True, pe_groups = True, pe_faults = (\<lambda>_. False), pe_now = 0, pe_guestGroup = 0, pe_state = None,
      pe_users = fmap_of_list [(''bob'', 9)], pe_list1 = store_ok, pe_list2 = store_ok,
      pe_stmt = (\<lambda>i. store_ok\<lparr>se_newid := 10 + int i\<rparr>), pe_order = (\<lambda>rs. rs)\<rparr>"

definition admin_demo_client :: tcp_client where
  "admin_demo_client = setIdentity ''alice'' ''alice'' 7 False (new_client ''c1'' 0)"

definition admin_demo_sys :: perm_sys where
  "admin_demo_sys = \<lparr>py_db = admin_demo_db, py_loader = NewLoader\<rparr>"

definition admin_demo_op :: perm_op where
  "admin_demo_op = OpSet admin_demo_env admin_demo_client
     (Some (\<lparr>pm_Tier = ''client'', pm_GroupID = 0, pm_UniqueID = ''bob'', pm_ChannelID = 0\<rparr>, tmpl_row ''b_x'' 3 2 False))"

lemma admin_demo_wf: "fk_ok admin_demo_db" "one_per_key admin_demo_db" "env_fair admin_demo_env admin_demo_db"
proof -
  have "i |\<in>| fmdom (pd_permissions admin_demo_db)" if "i \<in> set (links admin_demo_db a)" for a i
    using that by (cases a) (auto simp: admin_demo_db_def split: if_splits)
  then show "fk_ok admin_demo_db" by (simp add: fk_ok_def)
  have "distinct (map pr_key (entry_rows admin_demo_db a))" for a
    by (cases a) (simp_all add: entry_rows_def admin_demo_db_def join_perms_def map_filter_simps tmpl_row_def)
  then show "one_per_key admin_demo_db" by (simp add: one_per_key_def)
  show "env_fair admin_demo_env admin_demo_db"
    by (auto simp: env_fair_def admin_demo_env_def admin_demo_db_def inj_def)
qed

theorem grant_cap_enforced_witness:
  "entry_of (py_db (snd (perm_step admin_demo_op admin_demo_sys))) (AClient 9) ''b_x'' = Some (tmpl_row ''b_x'' 3 2 False) \<and>
   (\<exists>pc. \<not> uncapped pc \<and> capped_change pc admin_demo_db (py_db (snd (perm_step admin_demo_op admin_demo_sys))))"
proof -
  let ?r = "permCheckerFor (env_deps admin_demo_env admin_demo_db) admin_demo_client NewLoader"
  have "\<not> isl (fst ?r)" by code_simp
  then have r: "?r = (Inr (projr (fst ?r)), snd ?r)" by (cases ?r) (auto simp: isl_def)
  have u: "\<not> uncapped (projr (fst ?r))" by code_simp
  have "capped_change (projr (fst ?r)) admin_demo_db (py_db (snd (perm_step admin_demo_op admin_demo_sys)))"
    using grant_cap_enforced [of admin_demo_sys admin_demo_op "projr (fst ?r)" "snd ?r"] admin_demo_wf r u
    by (simp add: admin_demo_sys_def admin_demo_op_def)
  moreover have "entry_of (py_db (snd (perm_step admin_demo_op admin_demo_sys))) (AClient 9) ''b_x'' = Some (tmpl_row ''b_x'' 3 2 False)"
    by code_simp
  ultimately show ?thesis using u by blast
qed

text \<open>Without the right to manage permissions nothing is written.\<close>

lemma manage_required:
  assumes "permCheckerFor (env_deps (op_env p) (py_db y)) (op_client p) (py_loader y) = (Inr pc, l)" "\<not> granted pc ''b_permission_manage''"
  shows "py_db (snd (perm_step p y)) = py_db y"
  using assms
  by (cases p) (auto simp: handlePermSet_def handlePermUnset_def handlePermCopy_def handlePermTemplateApply_def Let_def
      split: option.splits)

text \<open>A write that is reported as applied has emptied both caches.\<close>

lemma applied_flushes:
  assumes "fst (perm_step p y) = PApplied aud"
  shows "\<exists>l. py_loader (snd (perm_step p y)) = InvalidateAll l"
proof (cases p)
  case (OpSet e c m)
  with assms have "fst (handlePermSet e c m y) = PApplied aud" by simp
  then have "\<exists>l. py_loader (snd (handlePermSet e c m y)) = InvalidateAll l"
    unfolding handlePermSet_def Let_def by (auto split: option.splits prod.splits sum.splits if_splits)
  with OpSet show ?thesis by simp
next
  case (OpUnset e c m)
  with assms have "fst (handlePermUnset e c m y) = PApplied aud" by simp
  then have "\<exists>l. py_loader (snd (handlePermUnset e c m y)) = InvalidateAll l"
    unfolding handlePermUnset_def Let_def by (auto split: option.splits prod.splits sum.splits if_splits)
  with OpUnset show ?thesis by simp
next
  case (OpCopy e c m)
  with assms have "fst (handlePermCopy e c m y) = PApplied aud" by simp
  then have "\<exists>l. py_loader (snd (handlePermCopy e c m y)) = InvalidateAll l"
    unfolding handlePermCopy_def Let_def by (auto split: option.splits prod.splits sum.splits if_splits)
  with OpCopy show ?thesis by simp
next
  case (OpTemplate e c m)
  obtain y' where "handlePermTemplateApply e c m y = (PApplied aud, y')" using OpTemplate assms by (cases "perm_step p y") auto
  then have "\<exists>l. py_loader y' = InvalidateAll l"
    unfolding handlePermTemplateApply_def Let_def
    by (simp split: option.split_asm prod.split_asm sum.split_asm if_split_asm) (metis perm_sys.select_convs(2))+
  with \<open>handlePermTemplateApply e c m y = (PApplied aud, y')\<close> OpTemplate show ?thesis by simp
qed

text \<open>
  A write on a channel changes the channel tier of every channel that inherits from it, but the
  audience of the invalidation is the channel's own members: a client in an inheriting sub-channel is
  not told.
\<close>

lemma channel_audience_is_members:
  "pe_state e = Some m \<Longrightarrow> permAudience e PermTierChannel t db = c_UniqueID |`| ChannelMembers (pt_ChannelID t) m"
  by (simp add: permAudience_def)

end
