(* ===== verification/Go_Text.thy ===== *)
theory Go_Text
  imports Netproto_Frame
begin

text \<open>
  The text functions of Go's standard library that the modelled code parses and prints with: decimal numbers
  (\<^verbatim>\<open>strconv\<close>, \<^verbatim>\<open>fmt\<close>), splitting (\<^verbatim>\<open>strings\<close>) and the padded base64 encoding (\<^verbatim>\<open>encoding/base64\<close>).  Strings are
  lists of bytes, written as characters.
\<close>

subsection \<open>Decimal numbers\<close>

text \<open>\<open>%d\<close> on a natural number.\<close>

fun dec :: "nat \<Rightarrow> string" where
  "dec n = (if n < 10 then [char_of (48 + n)] else dec (n div 10) @ [char_of (48 + n mod 10)])"

declare dec.simps [simp del]

definition is_digit :: "char \<Rightarrow> bool" where
  "is_digit c \<longleftrightarrow> 48 \<le> (of_char c :: nat) \<and> (of_char c :: nat) \<le> 57"

definition undec :: "string \<Rightarrow> nat" where
  "undec s = foldl (\<lambda>acc c. 10 * acc + (of_char c - 48)) 0 s"

text \<open>\<open>strconv.ParseUint\<close> in base 10 with a bit size, and \<open>strconv.Atoi\<close> with its optional sign.\<close>

definition ParseUint :: "string \<Rightarrow> nat \<Rightarrow> nat option" where
  "ParseUint s bits = (if s = [] \<or> \<not> list_all is_digit s then None else if undec s \<ge> 2 ^ bits then None else Some (undec s))"

definition Atoi :: "string \<Rightarrow> int option" where
  "Atoi s =
     (let neg = (s \<noteq> [] \<and> hd s = CHR ''-''); body = (if s \<noteq> [] \<and> hd s \<in> {CHR ''-'', CHR ''+''} then tl s else s)
      in if body = [] \<or> \<not> list_all is_digit body then None
         else let v = (if neg then - int (undec body) else int (undec body))
              in if - (2 ^ 63) \<le> v \<and> v < 2 ^ 63 then Some v else None)"

lemma undec_dec [simp]: "undec (dec n) = n"
proof (induction n rule: dec.induct)
  case (1 n)
  then show ?case by (subst dec.simps) (simp add: undec_def)
qed

lemma dec_digits: "list_all is_digit (dec n)"
proof (induction n rule: dec.induct)
  case (1 n)
  have "is_digit (char_of (48 + m))" if "m < 10" for m :: nat using that by (simp add: is_digit_def)
  with 1 show ?case by (subst dec.simps) simp
qed

lemma dec_not_Nil [simp]: "dec n \<noteq> []"
  by (subst dec.simps) simp

lemma ParseUint_dec: "n < 2 ^ bits \<Longrightarrow> ParseUint (dec n) bits = Some n"
  by (simp add: ParseUint_def dec_digits)

lemma digit_hd: "list_all is_digit s \<Longrightarrow> s \<noteq> [] \<Longrightarrow> hd s \<noteq> CHR ''-'' \<and> hd s \<noteq> CHR ''+''"
  by (cases s) (auto simp: is_digit_def)

lemma Atoi_dec: "n < 2 ^ 63 \<Longrightarrow> Atoi (dec n) = Some (int n)"
  using digit_hd [OF dec_digits dec_not_Nil, of n] by (simp add: Atoi_def dec_digits)

lemma digits_avoid: "list_all is_digit s \<Longrightarrow> \<not> is_digit c \<Longrightarrow> c \<notin> set s"
  by (auto simp: list_all_iff)

lemma dec_inj: "dec m = dec n \<Longrightarrow> m = n"
  by (metis undec_dec)

subsection \<open>Splitting\<close>

text \<open>\<open>strings.Split\<close> at a one-byte separator, and \<open>strings.SplitN\<close> into at most two parts (None: no separator).\<close>

fun Split :: "char \<Rightarrow> string \<Rightarrow> string list" where
  "Split c [] = [[]]"
| "Split c (x # xs) = (if x = c then [] # Split c xs else (case Split c xs of [] \<Rightarrow> [[x]] | y # ys \<Rightarrow> (x # y) # ys))"

definition SplitN2 :: "char \<Rightarrow> string \<Rightarrow> (string \<times> string) option" where
  "SplitN2 c s = (if c \<in> set s then Some (takeWhile (\<lambda>x. x \<noteq> c) s, tl (dropWhile (\<lambda>x. x \<noteq> c) s)) else None)"

definition HasPrefix :: "string \<Rightarrow> string \<Rightarrow> bool" where
  "HasPrefix s p \<longleftrightarrow> take (length p) s = p"

definition TrimPrefix :: "string \<Rightarrow> string \<Rightarrow> string" where
  "TrimPrefix s p = (if HasPrefix s p then drop (length p) s else s)"

lemma Split_not_Nil [simp]: "Split c s \<noteq> []"
  by (induction s) (auto split: list.split)

lemma Split_here: "c \<notin> set a \<Longrightarrow> Split c (a @ c # b) = a # Split c b"
  by (induction a) auto

lemma Split_none: "c \<notin> set a \<Longrightarrow> Split c a = [a]"
  by (induction a) auto

lemma SplitN2_here: "c \<notin> set a \<Longrightarrow> SplitN2 c (a @ c # b) = Some (a, b)"
  unfolding SplitN2_def by (induction a) auto

subsection \<open>Base64\<close>

text \<open>The alphabet \<open>A-Z a-z 0-9 + /\<close> and its inverse.\<close>

definition b64_char :: "nat \<Rightarrow> char" where
  "b64_char n =
     char_of (if n < 26 then n + 65 else if n < 52 then n + 71 else if n < 62 then n - 4 else if n = 62 then 43 else 47)"

definition b64_value :: "char \<Rightarrow> nat option" where
  "b64_value c =
     (let k = (of_char c :: nat)
      in if 65 \<le> k \<and> k \<le> 90 then Some (k - 65) else if 97 \<le> k \<and> k \<le> 122 then Some (k - 71)
         else if 48 \<le> k \<and> k \<le> 57 then Some (k + 4) else if k = 43 then Some 62 else if k = 47 then Some 63 else None)"

definition b64_pad :: char where "b64_pad = CHR ''=''"

fun EncodeToString :: "byte list \<Rightarrow> string" where
  "EncodeToString [] = []"
| "EncodeToString [a] = [b64_char (unat a div 4), b64_char (unat a mod 4 * 16), b64_pad, b64_pad]"
| "EncodeToString [a, b] =
     [b64_char (unat a div 4), b64_char (unat a mod 4 * 16 + unat b div 16), b64_char (unat b mod 16 * 4), b64_pad]"
| "EncodeToString (a # b # c # rest) =
     [b64_char (unat a div 4), b64_char (unat a mod 4 * 16 + unat b div 16), b64_char (unat b mod 16 * 4 + unat c div 64),
      b64_char (unat c mod 64)] @ EncodeToString rest"

text \<open>
  The decoder skips line breaks, takes four characters at a time, allows padding in the last group only and does not insist on
  zero trailing bits.
\<close>

fun b64_groups :: "string \<Rightarrow> byte list option" where
  "b64_groups [] = Some []"
| "b64_groups (p # q # r # s # rest) =
     (case (b64_value p, b64_value q) of
        (Some w, Some x) \<Rightarrow>
          if r = b64_pad then (if s = b64_pad \<and> rest = [] then Some [of_nat (w * 4 + x div 16)] else None)
          else
            (case b64_value r of
               None \<Rightarrow> None
             | Some y \<Rightarrow>
                 if s = b64_pad then (if rest = [] then Some [of_nat (w * 4 + x div 16), of_nat (x mod 16 * 16 + y div 4)] else None)
                 else
                   (case b64_value s of
                      None \<Rightarrow> None
                    | Some z \<Rightarrow>
                        (case b64_groups rest of
                           None \<Rightarrow> None
                         | Some bs \<Rightarrow> Some ([of_nat (w * 4 + x div 16), of_nat (x mod 16 * 16 + y div 4), of_nat (y mod 4 * 64 + z)] @ bs))))
      | _ \<Rightarrow> None)"
| "b64_groups _ = None"

definition DecodeString :: "string \<Rightarrow> byte list option" where
  "DecodeString s = b64_groups (filter (\<lambda>c. c \<noteq> CHR 0x0A \<and> c \<noteq> CHR 0x0D) s)"

lemma of_char_b64:
  "n < 64 \<Longrightarrow> (of_char (b64_char n) :: nat) =
     (if n < 26 then n + 65 else if n < 52 then n + 71 else if n < 62 then n - 4 else if n = 62 then 43 else 47)"
  by (simp add: b64_char_def)

lemma b64_char_facts:
  assumes "n < 64"
  shows "b64_value (b64_char n) = Some n" "b64_char n \<noteq> b64_pad" "b64_char n \<noteq> CHR 0x0A" "b64_char n \<noteq> CHR 0x0D" "b64_char n \<noteq> CHR ''$''"
proof -
  have avoid: "b64_char n \<noteq> c" if "(of_char c :: nat) \<in> {61, 10, 13, 36}" for c
  proof
    assume "b64_char n = c"
    with of_char_b64 [OF assms] that show False by (auto split: if_splits)
  qed
  show "b64_value (b64_char n) = Some n" using assms by (auto simp: b64_value_def of_char_b64 Let_def)
  show "b64_char n \<noteq> b64_pad" "b64_char n \<noteq> CHR 0x0A" "b64_char n \<noteq> CHR 0x0D" "b64_char n \<noteq> CHR ''$''"
    by (rule avoid, simp add: b64_pad_def)+
qed

lemma byte_lt: "unat (a :: byte) < 256"
  using unsigned_less [of a] by simp

lemma byte_parts:
  "unat (a :: byte) div 4 < 64" "unat a div 16 < 16" "unat a div 64 < 4" "unat a div 16 div 16 = 0" "unat a div 16 mod 16 = unat a div 16"
  "unat a div 64 div 4 = 0" "unat a div 64 mod 4 = unat a div 64"
  using byte_lt [of a] by auto

lemma sextets:
  "unat (a :: byte) div 4 < 64" "unat a mod 4 * 16 < 64" "unat a mod 4 * 16 + unat (b :: byte) div 16 < 64"
  "unat b mod 16 * 4 < 64" "unat b mod 16 * 4 + unat (c :: byte) div 64 < 64" "unat c mod 64 < 64"
proof -
  have m: "unat a mod 4 < 4" "unat b mod 16 < 16" by simp_all
  show "unat a div 4 < 64" "unat a mod 4 * 16 < 64" "unat a mod 4 * 16 + unat b div 16 < 64"
    "unat b mod 16 * 4 < 64" "unat b mod 16 * 4 + unat c div 64 < 64" "unat c mod 64 < 64"
    using m byte_parts(1) [of a] byte_parts(2) [of b] byte_parts(3) [of c] by linarith+
qed

lemma b64_groups_encode: "b64_groups (EncodeToString bs) = Some bs"
  by (induction bs rule: EncodeToString.induct)
    (simp_all add: b64_char_facts sextets byte_parts del: of_nat_add of_nat_mult)

lemma encode_chars: "set (EncodeToString bs) \<inter> {CHR 0x0A, CHR 0x0D, CHR ''$''} = {}"
proof (induction bs rule: EncodeToString.induct)
  case (4 a b c rest)
  then show ?case using b64_char_facts(3-5) [OF sextets(1)] b64_char_facts(3-5) [OF sextets(3)] b64_char_facts(3-5) [OF sextets(5)]
      b64_char_facts(3-5) [OF sextets(6)] by simp
qed (use b64_char_facts(3-5) [OF sextets(1)] b64_char_facts(3-5) [OF sextets(2)] b64_char_facts(3-5) [OF sextets(3)]
    b64_char_facts(3-5) [OF sextets(4)] in \<open>simp_all add: b64_pad_def\<close>)

lemma Decode_Encode [simp]: "DecodeString (EncodeToString bs) = Some bs"
proof -
  have "filter (\<lambda>c. c \<noteq> CHR 0x0A \<and> c \<noteq> CHR 0x0D) (EncodeToString bs) = EncodeToString bs"
    using encode_chars [of bs] by (auto simp: filter_id_conv)
  then show ?thesis by (simp add: DecodeString_def b64_groups_encode)
qed

lemma encode_length: "length (EncodeToString bs) = 4 * ((length bs + 2) div 3)"
proof (induction bs rule: EncodeToString.induct)
  case (4 a b c rest)
  have "(length (a # b # c # rest) + 2) div 3 = (length rest + 2) div 3 + 1" using div_add_self2 [of 3 "length rest + 2"] by simp
  with 4 show ?case by simp
qed simp_all

lemma encode_no_dollar: "CHR ''$'' \<notin> set (EncodeToString bs)"
  using encode_chars [of bs] by blast

subsection \<open>White space and hexadecimal\<close>

text \<open>
  \<open>strings.TrimSpace\<close> removes the encodings of the Unicode white space
  characters at both ends; the length of such an encoding at the front, and at the end of a reversed string.
\<close>

fun space_front :: "nat list \<Rightarrow> nat" where
  "space_front (a # rest) =
     (if a \<in> {9, 10, 11, 12, 13, 32} then 1
      else (case rest of
              [] \<Rightarrow> 0
            | b # rest2 \<Rightarrow>
                if a = 0xC2 \<and> b \<in> {0x85, 0xA0} then 2
                else (case rest2 of
                        [] \<Rightarrow> 0
                      | c # _ \<Rightarrow>
                          if a = 0xE1 \<and> b = 0x9A \<and> c = 0x80 \<or>
                             a = 0xE2 \<and> b = 0x80 \<and> (0x80 \<le> c \<and> c \<le> 0x8A \<or> c \<in> {0xA8, 0xA9, 0xAF}) \<or>
                             a = 0xE2 \<and> b = 0x81 \<and> c = 0x9F \<or>
                             a = 0xE3 \<and> b = 0x80 \<and> c = 0x80
                          then 3 else 0)))"
| "space_front [] = 0"

definition space_back :: "nat list \<Rightarrow> nat" where
  "space_back r =
     (if space_front (take 1 r) = 1 then 1
      else if space_front (rev (take 2 r)) = 2 then 2
      else if space_front (rev (take 3 r)) = 3 then 3 else 0)"

function trim_with :: "(nat list \<Rightarrow> nat) \<Rightarrow> string \<Rightarrow> string" where
  "trim_with f s = (if s = [] \<or> f (map of_char s) = 0 then s else trim_with f (drop (f (map of_char s)) s))"
  by pat_completeness auto

termination trim_with
  by (relation "measure (\<lambda>(f, s). length s)") auto

declare trim_with.simps [simp del]

definition TrimSpace :: "string \<Rightarrow> string" where
  "TrimSpace s = rev (trim_with space_back (rev (trim_with space_front s)))"

definition hex_digit :: "nat \<Rightarrow> char" where
  "hex_digit n = (if n < 10 then char_of (48 + n) else char_of (87 + n))"

definition hex_encode :: "byte list \<Rightarrow> string" where
  "hex_encode bs = concat (map (\<lambda>b. [hex_digit (unat b div 16), hex_digit (unat b mod 16)]) bs)"

text \<open>A string that begins and ends with printable ASCII is not trimmed.\<close>

definition solid :: "char \<Rightarrow> bool" where
  "solid c \<longleftrightarrow> 32 < (of_char c :: nat) \<and> (of_char c :: nat) < 128"

lemma space_front_solid: "solid c \<Longrightarrow> space_front (of_char c # xs) = 0"
  by (auto simp: solid_def split: list.split)

lemma space_back_solid: "solid c \<Longrightarrow> space_back (of_char c # xs) = 0"
  by (cases xs; cases "tl xs") (auto simp: space_back_def solid_def)

lemma TrimSpace_solid:
  assumes "s \<noteq> []" "solid (hd s)" "solid (last s)"
  shows "TrimSpace s = s"
proof -
  obtain x xs where s: "s = x # xs" using assms(1) by (cases s) auto
  have f: "trim_with space_front s = s"
    using space_front_solid [of x "map of_char xs"] assms(2) by (simp add: s trim_with.simps)
  obtain y ys where r: "rev s = y # ys" "y = last s" using assms(1) by (cases s rule: rev_cases) auto
  have "trim_with space_back (rev s) = rev s"
    using space_back_solid [of y "map of_char ys"] assms(3) by (simp add: r trim_with.simps)
  then show ?thesis by (simp add: TrimSpace_def f)
qed

lemma solid_simps [simp]: "is_digit c \<Longrightarrow> solid c" "solid b64_pad" "n < 64 \<Longrightarrow> solid (b64_char n)"
  by (auto simp: is_digit_def solid_def b64_pad_def of_char_b64)

end
