(* ===== verification/Auth_Password.thy ===== *)
theory Auth_Password
  imports Go_Text
begin

text \<open>
  Password hashes (\<^verbatim>\<open>internal/auth/password.go\<close>): the self-describing encoding of an Argon2id hash, its parser, and hashing and
  verifying with it.  Argon2id itself is the parameter \<open>idkey\<close> (password, salt, time, memory, threads, key length).
\<close>

type_synonym argon = "byte list \<Rightarrow> byte list \<Rightarrow> nat \<Rightarrow> nat \<Rightarrow> nat \<Rightarrow> nat \<Rightarrow> byte list"

datatype pw_error = PwEmpty | PwTooLong | PwSalt | PwMalformed | PwMismatch

definition argonTime :: nat where "argonTime = 3"
definition argonMemory :: nat where "argonMemory = 65536"
definition argonThreads :: nat where "argonThreads = 4"
definition argonKeyLen :: nat where "argonKeyLen = 32"
definition argonSaltLen :: nat where "argonSaltLen = 16"
definition argon2idVersion :: nat where "argon2idVersion = 19"
definition MaxPasswordBytes :: nat where "MaxPasswordBytes = 256"
definition argonMaxEncodedLength :: nat where "argonMaxEncodedLength = 1024"
definition argonMaxMemory :: nat where "argonMaxMemory = 262144"
definition argonMaxTime :: nat where "argonMaxTime = 10"
definition argonMaxThreads :: nat where "argonMaxThreads = 16"
definition argonMaxSaltLength :: nat where "argonMaxSaltLength = 64"
definition argonMaxHashLength :: nat where "argonMaxHashLength = 64"

lemmas argon_defs = argonTime_def argonMemory_def argonThreads_def argonKeyLen_def argonSaltLen_def argon2idVersion_def
  MaxPasswordBytes_def argonMaxEncodedLength_def argonMaxMemory_def argonMaxTime_def argonMaxThreads_def argonMaxSaltLength_def
  argonMaxHashLength_def

definition str_bytes :: "string \<Rightarrow> byte list" where
  "str_bytes s = map of_char s"

definition encodeHash :: "byte list \<Rightarrow> byte list \<Rightarrow> string" where
  "encodeHash salt hash =
     ''argon2id$v='' @ dec argon2idVersion @ ''$m='' @ dec argonMemory @ '',t='' @ dec argonTime @ '',p='' @ dec argonThreads @
     ''$'' @ EncodeToString salt @ ''$'' @ EncodeToString hash"

text \<open>The random salt comes from the environment (\<open>None\<close>: the source failed).\<close>

definition HashPassword :: "argon \<Rightarrow> byte list option \<Rightarrow> string \<Rightarrow> pw_error + string" where
  "HashPassword idkey salt password =
     (if password = [] then Inl PwEmpty
      else if length password > MaxPasswordBytes then Inl PwTooLong
      else (case salt of
              None \<Rightarrow> Inl PwSalt
            | Some s \<Rightarrow> Inr (encodeHash s (idkey (str_bytes password) s argonTime argonMemory argonThreads argonKeyLen))))"

definition parseArgonParameter :: "string \<Rightarrow> nat \<Rightarrow> nat option" where
  "parseArgonParameter s bits = ParseUint s bits"

text \<open>One parameter of the segment; the value must be positive and at most its limit.\<close>

record argon_params =
  ap_seen :: "string list"
  ap_m :: nat
  ap_t :: nat
  ap_p :: nat

definition bounded_param :: "string \<Rightarrow> nat \<Rightarrow> nat \<Rightarrow> nat option" where
  "bounded_param s bits limit =
     (case parseArgonParameter s bits of None \<Rightarrow> None | Some v \<Rightarrow> if v = 0 \<or> v > limit then None else Some v)"

definition parse_field :: "string \<Rightarrow> argon_params \<Rightarrow> argon_params option" where
  "parse_field field st =
     (case SplitN2 CHR ''='' field of
        None \<Rightarrow> None
      | Some (k, v) \<Rightarrow>
          if k \<in> set (ap_seen st) then None
          else
            let st1 = st\<lparr>ap_seen := k # ap_seen st\<rparr>
            in if k = ''m'' then map_option (\<lambda>n. st1\<lparr>ap_m := n\<rparr>) (bounded_param v 32 argonMaxMemory)
               else if k = ''t'' then map_option (\<lambda>n. st1\<lparr>ap_t := n\<rparr>) (bounded_param v 32 argonMaxTime)
               else if k = ''p'' then map_option (\<lambda>n. st1\<lparr>ap_p := n\<rparr>) (bounded_param v 8 argonMaxThreads)
               else None)"

fun parse_fields :: "string list \<Rightarrow> argon_params \<Rightarrow> argon_params option" where
  "parse_fields [] st = Some st"
| "parse_fields (f # fs) st = (case parse_field f st of None \<Rightarrow> None | Some st1 \<Rightarrow> parse_fields fs st1)"

definition parseParams :: "string \<Rightarrow> (nat \<times> nat \<times> nat) option" where
  "parseParams s =
     (case parse_fields (Split CHR '','' s) \<lparr>ap_seen = [], ap_m = 0, ap_t = 0, ap_p = 0\<rparr> of
        None \<Rightarrow> None
      | Some st \<Rightarrow> if ap_m st = 0 \<or> ap_t st = 0 \<or> ap_p st = 0 then None else Some (ap_m st, ap_t st, ap_p st))"

record parsed_hash =
  ph_salt :: "byte list"
  ph_hash :: "byte list"
  ph_memory :: nat
  ph_time :: nat
  ph_threads :: nat

definition version_ok :: "string \<Rightarrow> bool" where
  "version_ok part =
     (let vField = TrimPrefix part ''v=''
      in vField \<noteq> part \<and> Atoi vField = Some (int argon2idVersion))"

definition parseEncodedHash :: "string \<Rightarrow> parsed_hash option" where
  "parseEncodedHash encoded =
     (if length encoded > argonMaxEncodedLength then None
      else
        (case Split CHR ''$'' encoded of
           [p0, p1, p2, p3, p4] \<Rightarrow>
             if p0 \<noteq> ''argon2id'' then None
             else if \<not> version_ok p1 then None
             else
               (case parseParams p2 of
                  None \<Rightarrow> None
                | Some (m, t, p) \<Rightarrow>
                    (case DecodeString p3 of
                       None \<Rightarrow> None
                     | Some salt \<Rightarrow>
                         if salt = [] \<or> length salt > argonMaxSaltLength then None
                         else
                           (case DecodeString p4 of
                              None \<Rightarrow> None
                            | Some hash \<Rightarrow>
                                if hash = [] \<or> length hash > argonMaxHashLength then None
                                else Some \<lparr>ph_salt = salt, ph_hash = hash, ph_memory = m, ph_time = t, ph_threads = p\<rparr>)))
         | _ \<Rightarrow> None))"

text \<open>The conversion of the hash length to 32 bits cannot fail for a parsed hash (at most 64 bytes).  None: the password matches.\<close>

definition VerifyPassword :: "argon \<Rightarrow> string \<Rightarrow> string \<Rightarrow> pw_error option" where
  "VerifyPassword idkey password encodedHash =
     (if length password > MaxPasswordBytes then Some PwTooLong
      else
        (case parseEncodedHash encodedHash of
           None \<Rightarrow> Some PwMalformed
         | Some h \<Rightarrow>
             if length (ph_hash h) \<ge> 2 ^ 32 then Some PwMalformed
             else if ph_hash h \<noteq> idkey (str_bytes password) (ph_salt h) (ph_time h) (ph_memory h) (ph_threads h) (length (ph_hash h))
             then Some PwMismatch else None))"

definition makeDummyPasswordHash :: "argon \<Rightarrow> string" where
  "makeDummyPasswordHash idkey =
     (let salt = str_bytes ''noxa-dummy-salt''
      in encodeHash salt (idkey (str_bytes ''noxa-dummy-password'') salt argonTime argonMemory argonThreads argonKeyLen))"

subsection \<open>What the parser accepts\<close>

lemma bounded_paramD: "bounded_param s bits limit = Some v \<Longrightarrow> 0 < v \<and> v \<le> limit"
  by (auto simp: bounded_param_def split: option.splits if_splits)

definition params_ok :: "argon_params \<Rightarrow> bool" where
  "params_ok st \<longleftrightarrow> ap_m st \<le> argonMaxMemory \<and> ap_t st \<le> argonMaxTime \<and> ap_p st \<le> argonMaxThreads"

lemma parse_field_ok: "parse_field f st = Some st' \<Longrightarrow> params_ok st \<Longrightarrow> params_ok st'"
  by (auto simp: parse_field_def params_ok_def Let_def split: option.splits if_splits dest!: bounded_paramD)

lemma parse_fields_ok: "parse_fields fs st = Some st' \<Longrightarrow> params_ok st \<Longrightarrow> params_ok st'"
  by (induction fs arbitrary: st) (auto split: option.splits dest: parse_field_ok)

lemma parseParams_bounds:
  assumes "parseParams s = Some (m, t, p)"
  shows "0 < m \<and> m \<le> argonMaxMemory \<and> 0 < t \<and> t \<le> argonMaxTime \<and> 0 < p \<and> p \<le> argonMaxThreads"
  using assms parse_fields_ok by (fastforce simp: parseParams_def params_ok_def split: option.splits if_splits)


subsection \<open>Printing and parsing\<close>

lemma digits_free: "CHR ''$'' \<notin> set (dec n)" "CHR '','' \<notin> set (dec n)" "CHR ''='' \<notin> set (dec n)"
  by (rule digits_avoid [OF dec_digits], simp add: is_digit_def)+

lemma version_encoded: "version_ok (''v='' @ dec argon2idVersion)"
  by (simp add: version_ok_def TrimPrefix_def HasPrefix_def Let_def Atoi_dec argon2idVersion_def)

lemma field_encoded:
  "parse_field (k # CHR ''='' # dec n) st =
     (if [k] \<in> set (ap_seen st) then None
      else if k = CHR ''m'' then map_option (\<lambda>v. st\<lparr>ap_seen := [k] # ap_seen st, ap_m := v\<rparr>) (bounded_param (dec n) 32 argonMaxMemory)
      else if k = CHR ''t'' then map_option (\<lambda>v. st\<lparr>ap_seen := [k] # ap_seen st, ap_t := v\<rparr>) (bounded_param (dec n) 32 argonMaxTime)
      else if k = CHR ''p'' then map_option (\<lambda>v. st\<lparr>ap_seen := [k] # ap_seen st, ap_p := v\<rparr>) (bounded_param (dec n) 8 argonMaxThreads)
      else None)" if "k \<noteq> CHR ''=''"
  using SplitN2_here [of "CHR ''=''" "[k]" "dec n"] that by (simp add: parse_field_def Let_def)

lemma bounded_dec: "0 < n \<Longrightarrow> n \<le> limit \<Longrightarrow> n < 2 ^ bits \<Longrightarrow> bounded_param (dec n) bits limit = Some n"
  by (simp add: bounded_param_def parseArgonParameter_def ParseUint_dec)

lemma params_encoded:
  "parseParams (''m='' @ dec argonMemory @ '',t='' @ dec argonTime @ '',p='' @ dec argonThreads) = Some (argonMemory, argonTime, argonThreads)"
proof -
  have s: "Split CHR '','' (''m='' @ dec argonMemory @ '',t='' @ dec argonTime @ '',p='' @ dec argonThreads) =
    [''m='' @ dec argonMemory, ''t='' @ dec argonTime, ''p='' @ dec argonThreads]"
    using Split_here [of "CHR '',''" "''m='' @ dec argonMemory" "''t='' @ dec argonTime @ '',p='' @ dec argonThreads"]
      Split_here [of "CHR '',''" "''t='' @ dec argonTime" "''p='' @ dec argonThreads"] Split_none [of "CHR '',''" "''p='' @ dec argonThreads"]
    by (simp add: digits_free)
  show ?thesis
    unfolding parseParams_def s by (simp add: field_encoded bounded_dec argon_defs)
qed

lemma parse_encoded:
  assumes "salt \<noteq> []" "length salt \<le> argonMaxSaltLength" "hash \<noteq> []" "length hash \<le> argonMaxHashLength"
  shows "parseEncodedHash (encodeHash salt hash) =
    Some \<lparr>ph_salt = salt, ph_hash = hash, ph_memory = argonMemory, ph_time = argonTime, ph_threads = argonThreads\<rparr>"
proof -
  let ?v = "''v='' @ dec argon2idVersion" and ?p = "''m='' @ dec argonMemory @ '',t='' @ dec argonTime @ '',p='' @ dec argonThreads"
  have e: "encodeHash salt hash = ''argon2id'' @ CHR ''$'' # ?v @ CHR ''$'' # ?p @ CHR ''$'' # EncodeToString salt @ CHR ''$'' # EncodeToString hash"
    by (simp add: encodeHash_def)
  have f: "CHR ''$'' \<notin> set ''argon2id''" "CHR ''$'' \<notin> set ?v" "CHR ''$'' \<notin> set ?p" by (simp_all add: digits_free)
  have s: "Split CHR ''$'' (encodeHash salt hash) = [''argon2id'', ?v, ?p, EncodeToString salt, EncodeToString hash]"
    unfolding e by (simp only: Split_here [OF f(1)] Split_here [OF f(2)] Split_here [OF f(3)] Split_here [OF encode_no_dollar] Split_none [OF encode_no_dollar])
  have d: "length (dec argon2idVersion) = 2" "length (dec argonMemory) = 5" "length (dec argonTime) = 1" "length (dec argonThreads) = 1"
    by (simp_all add: argon_defs dec.simps)
  have "(length salt + 2) div 3 \<le> 22" "(length hash + 2) div 3 \<le> 22" using assms by (simp_all add: argon_defs)
  then have len: "\<not> length (encodeHash salt hash) > argonMaxEncodedLength"
    unfolding e using d by (simp add: encode_length argonMaxEncodedLength_def)
  show ?thesis
    unfolding parseEncodedHash_def s using len version_encoded params_encoded assms by simp
qed

lemma verify_hashed:
  assumes "HashPassword idkey (Some salt) password = Inr e" "length salt = argonSaltLen"
    "\<And>pw s t m p n. length (idkey pw s t m p n) = n" "length other \<le> MaxPasswordBytes"
  shows "VerifyPassword idkey other e =
    (if idkey (str_bytes other) salt argonTime argonMemory argonThreads argonKeyLen =
        idkey (str_bytes password) salt argonTime argonMemory argonThreads argonKeyLen
     then None else Some PwMismatch)"
proof -
  let ?h = "idkey (str_bytes password) salt argonTime argonMemory argonThreads argonKeyLen"
  have e: "e = encodeHash salt ?h" using assms(1) by (auto simp: HashPassword_def split: if_splits)
  have ne: "salt \<noteq> []" "?h \<noteq> []"
  proof -
    show "salt \<noteq> []" using assms(2) by (auto simp: argonSaltLen_def)
    show "?h \<noteq> []" using assms(3) [of "str_bytes password" salt argonTime argonMemory argonThreads argonKeyLen]
      by (metis argonKeyLen_def list.size(3) zero_neq_numeral)
  qed
  have "parseEncodedHash e = Some \<lparr>ph_salt = salt, ph_hash = ?h, ph_memory = argonMemory, ph_time = argonTime, ph_threads = argonThreads\<rparr>"
    unfolding e by (rule parse_encoded [OF ne(1) _ ne(2)]) (simp_all add: assms(2,3) argon_defs)
  then show ?thesis using assms(3,4) by (auto simp: VerifyPassword_def argonKeyLen_def)
qed

lemma verify_own:
  assumes "HashPassword idkey (Some salt) password = Inr e" "length salt = argonSaltLen" "\<And>pw s t m p n. length (idkey pw s t m p n) = n"
  shows "VerifyPassword idkey password e = None"
  using verify_hashed [OF assms, of password] assms(1) by (auto simp: HashPassword_def split: if_splits)

text \<open>A hashed password verifies, and only a password with the same derived key does: for every password that \<open>HashPassword\<close> accepts
  (not empty, at most 256 bytes), the printed hash parses back to its salt, key and parameters, and verification against it compares
  the derived keys.  The hypothesis is that Argon2id returns a key of the requested length.\<close>

theorem hash_then_verify:
  assumes "HashPassword idkey (Some salt) password = Inr e" "length salt = argonSaltLen"
    "\<And>pw s t m p n. length (idkey pw s t m p n) = n"
  shows "VerifyPassword idkey password e = None \<and>
    (length other \<le> MaxPasswordBytes \<longrightarrow>
       VerifyPassword idkey other e =
         (if idkey (str_bytes other) salt argonTime argonMemory argonThreads argonKeyLen =
             idkey (str_bytes password) salt argonTime argonMemory argonThreads argonKeyLen
          then None else Some PwMismatch))"
  using verify_own [OF assms] verify_hashed [OF assms] by blast

definition demo_idkey :: argon where
  "demo_idkey pw s t m p n = take n (pw @ s @ replicate n 0)"

theorem hash_then_verify_witness:
  "VerifyPassword demo_idkey ''hunter2'' (encodeHash (replicate 16 1) (demo_idkey (str_bytes ''hunter2'') (replicate 16 1) argonTime argonMemory argonThreads argonKeyLen)) = None"
  using hash_then_verify [of demo_idkey "replicate 16 1" "''hunter2''"]
  by (simp add: HashPassword_def MaxPasswordBytes_def argonSaltLen_def demo_idkey_def)


end
