(* ===== verification/Auth_Service.thy ===== *)
theory Auth_Service
  imports Auth_Password
begin

text \<open>
  Accounts, credentials and bans (\<^verbatim>\<open>internal/auth/identity.go\<close>, \<^verbatim>\<open>internal/auth/service.go\<close>) and the server
  rules (\<^verbatim>\<open>internal/rules/rules.go\<close>).

  The primitives of PEM, base64, SHA-256, Ed25519 and Argon2id are the fields of \<open>auth_crypto\<close>.  A query
  that fails is a flag of the environment.
\<close>

subsection \<open>Identities\<close>

record auth_crypto =
  ac_pem :: "string \<Rightarrow> (string \<times> byte list) option"
  ac_sha256 :: "byte list \<Rightarrow> byte list"
  ac_b64 :: "byte list \<Rightarrow> string"
  ac_ed25519 :: "byte list \<Rightarrow> byte list \<Rightarrow> byte list \<Rightarrow> bool"
  ac_verifyPassword :: "string \<Rightarrow> string \<Rightarrow> bool"
  ac_hashPassword :: "string \<Rightarrow> string option"

definition LoadPublicKey :: "auth_crypto \<Rightarrow> string \<Rightarrow> byte list option" where
  "LoadPublicKey cr pem =
     (case ac_pem cr pem of
        None \<Rightarrow> None
      | Some (t, bs) \<Rightarrow> if t \<noteq> ''PUBLIC KEY'' then None else if length bs \<noteq> 32 then None else Some bs)"

definition UniqueIDFromPublicKey :: "auth_crypto \<Rightarrow> string \<Rightarrow> string option" where
  "UniqueIDFromPublicKey cr pem =
     (case LoadPublicKey cr pem of
        None \<Rightarrow> None
      | Some pub \<Rightarrow> Some (ac_b64 cr (str_bytes (ac_b64 cr (ac_sha256 cr pub)))))"

definition VerifyChallenge :: "auth_crypto \<Rightarrow> string \<Rightarrow> byte list \<Rightarrow> byte list \<Rightarrow> bool" where
  "VerifyChallenge cr pem challenge signature =
     (case LoadPublicKey cr pem of
        None \<Rightarrow> False
      | Some pub \<Rightarrow> challenge \<noteq> [] \<and> signature \<noteq> [] \<and> ac_ed25519 cr pub challenge signature)"

subsection \<open>Tables\<close>

record user_row =
  ur_id :: user_id
  ur_unique :: string
  ur_nick :: "string option"
  ur_admin :: bool
  ur_hash :: "string option"
  ur_pub :: "string option"

record ban_row =
  br_id :: int
  br_type :: int
  br_value :: string
  br_reason :: "string option"
  br_channel :: "channel_id option"
  br_expires :: "time option"

record auth_db =
  ad_users :: "user_row list"
  ad_bans :: "ban_row list"

record User =
  usr_ID :: user_id
  usr_UniqueID :: string
  usr_Nickname :: string
  usr_IsAdmin :: bool

datatype auth_error = ErrUserNotFound | ErrUserExists | ErrPasswordTooShort | ErrPasswordTooLong | ErrAuthInternal

definition scan_user :: "user_row \<Rightarrow> User" where
  "scan_user r =
     \<lparr>usr_ID = ur_id r, usr_UniqueID = ur_unique r, usr_Nickname = (case ur_nick r of None \<Rightarrow> [] | Some n \<Rightarrow> n), usr_IsAdmin = ur_admin r\<rparr>"

subsection \<open>Registration\<close>

definition minRegistrationPasswordBytes :: nat where "minRegistrationPasswordBytes = 12"

definition validateRegistrationPassword :: "string \<Rightarrow> auth_error option" where
  "validateRegistrationPassword pw =
     (if length pw < minRegistrationPasswordBytes then Some ErrPasswordTooShort
      else if length pw > MaxPasswordBytes then Some ErrPasswordTooLong
      else None)"

text \<open>The generated key pair and the id of the new row come from the environment (\<open>None\<close>: generation failed).\<close>

definition RegisterUser ::
  "auth_crypto \<Rightarrow> string option \<Rightarrow> user_id \<Rightarrow> bool \<Rightarrow> string \<Rightarrow> string \<Rightarrow> auth_db \<Rightarrow> (auth_error + string) \<times> auth_db" where
  "RegisterUser cr keygen newid fails nickname password db =
     (case validateRegistrationPassword password of
        Some err \<Rightarrow> (Inl err, db)
      | None \<Rightarrow>
          (case keygen of
             None \<Rightarrow> (Inl ErrAuthInternal, db)
           | Some pubPEM \<Rightarrow>
               (case UniqueIDFromPublicKey cr pubPEM of
                  None \<Rightarrow> (Inl ErrAuthInternal, db)
                | Some uniqueID \<Rightarrow>
                    (case ac_hashPassword cr password of
                       None \<Rightarrow> (Inl ErrAuthInternal, db)
                     | Some hash \<Rightarrow>
                         if fails then (Inl ErrAuthInternal, db)
                         else if \<exists>r \<in> set (ad_users db). ur_unique r = uniqueID \<or> ur_nick r = Some nickname then (Inl ErrUserExists, db)
                         else (Inr uniqueID,
                           db\<lparr>ad_users := ad_users db @
                             [\<lparr>ur_id = newid, ur_unique = uniqueID, ur_nick = Some nickname, ur_admin = False,
                               ur_hash = Some hash, ur_pub = Some pubPEM\<rparr>]\<rparr>)))))"

subsection \<open>Lookups\<close>

definition user_by :: "(user_row \<Rightarrow> bool) \<Rightarrow> bool \<Rightarrow> auth_db \<Rightarrow> auth_error + user_row" where
  "user_by P fails db =
     (if fails then Inl ErrAuthInternal
      else (case List.find P (ad_users db) of None \<Rightarrow> Inl ErrUserNotFound | Some r \<Rightarrow> Inr r))"

definition LookupUser :: "bool \<Rightarrow> string \<Rightarrow> auth_db \<Rightarrow> auth_error + User" where
  "LookupUser fails uniqueID db = map_sum id scan_user (user_by (\<lambda>r. ur_unique r = uniqueID) fails db)"

definition LookupUserByPublicKey :: "bool \<Rightarrow> string \<Rightarrow> auth_db \<Rightarrow> auth_error + User" where
  "LookupUserByPublicKey fails pem db = map_sum id scan_user (user_by (\<lambda>r. ur_pub r = Some pem) fails db)"

definition BindPublicKey :: "bool \<Rightarrow> user_id \<Rightarrow> string \<Rightarrow> auth_db \<Rightarrow> auth_db" where
  "BindPublicKey fails uid pem db =
     (if fails then db
      else db\<lparr>ad_users := map (\<lambda>r. if ur_id r = uid then r\<lparr>ur_pub := Some pem\<rparr> else r) (ad_users db)\<rparr>)"

definition ban_matches :: "time \<Rightarrow> string \<Rightarrow> string \<Rightarrow> ban_row \<Rightarrow> bool" where
  "ban_matches now uniqueID ip b \<longleftrightarrow>
     br_channel b = None \<and> (br_type b = 1 \<and> br_value b = uniqueID \<or> br_type b = 0 \<and> br_value b = ip) \<and>
     (case br_expires b of None \<Rightarrow> True | Some t \<Rightarrow> now < t)"

definition LookupActiveBan :: "bool \<Rightarrow> time \<Rightarrow> string \<Rightarrow> string \<Rightarrow> auth_db \<Rightarrow> auth_error + ban_row option" where
  "LookupActiveBan fails now uniqueID ip db =
     (if fails then Inl ErrAuthInternal
      else Inr (List.find (ban_matches now uniqueID ip) (sort_key br_id (ad_bans db))))"

subsection \<open>Credentials\<close>

definition verifyCredential :: "auth_crypto \<Rightarrow> string \<Rightarrow> string \<Rightarrow> bool" where
  "verifyCredential cr password hash = (if hash = [] then False else ac_verifyPassword cr password hash)"

text \<open>A NULL password hash cannot be scanned into the string and is a query error.\<close>

definition AuthenticatePassword :: "auth_crypto \<Rightarrow> bool \<Rightarrow> string \<Rightarrow> string \<Rightarrow> auth_db \<Rightarrow> auth_error + bool" where
  "AuthenticatePassword cr fails uniqueID password db =
     (case user_by (\<lambda>r. ur_unique r = uniqueID) fails db of
        Inl e \<Rightarrow> Inl e
      | Inr r \<Rightarrow> (case ur_hash r of None \<Rightarrow> Inl ErrAuthInternal | Some h \<Rightarrow> Inr (verifyCredential cr password h)))"

definition AuthenticateChallenge :: "auth_crypto \<Rightarrow> bool \<Rightarrow> string \<Rightarrow> byte list \<Rightarrow> byte list \<Rightarrow> auth_db \<Rightarrow> auth_error + bool" where
  "AuthenticateChallenge cr fails uniqueID challenge signature db =
     (case user_by (\<lambda>r. ur_unique r = uniqueID) fails db of
        Inl e \<Rightarrow> Inl e
      | Inr r \<Rightarrow>
          (case ur_pub r of
             None \<Rightarrow> Inl ErrAuthInternal
           | Some pem \<Rightarrow> Inr (if pem = [] then False else VerifyChallenge cr pem challenge signature)))"

definition AuthenticateNickname :: "auth_crypto \<Rightarrow> bool \<Rightarrow> string \<Rightarrow> string \<Rightarrow> auth_db \<Rightarrow> auth_error + User option" where
  "AuthenticateNickname cr fails nickname password db =
     (case user_by (\<lambda>r. ur_nick r = Some nickname) fails db of
        Inl e \<Rightarrow> Inl e
      | Inr r \<Rightarrow>
          Inr (if verifyCredential cr password (case ur_hash r of None \<Rightarrow> [] | Some h \<Rightarrow> h) then Some (scan_user r) else None))"

text \<open>Rows with the identifier as unique id come before those with it as nickname.\<close>

definition lookupCredentialByIdentifier :: "bool \<Rightarrow> string \<Rightarrow> auth_db \<Rightarrow> auth_error + user_row" where
  "lookupCredentialByIdentifier fails ident db =
     (if fails then Inl ErrAuthInternal
      else
        (case filter (\<lambda>r. ur_unique r = ident) (ad_users db) @ filter (\<lambda>r. ur_unique r \<noteq> ident \<and> ur_nick r = Some ident) (ad_users db) of
           [] \<Rightarrow> Inl ErrUserNotFound
         | r # _ \<Rightarrow> Inr r))"

definition AuthenticateIdentifier :: "auth_crypto \<Rightarrow> bool \<Rightarrow> string \<Rightarrow> string \<Rightarrow> auth_db \<Rightarrow> auth_error + User option" where
  "AuthenticateIdentifier cr fails ident password db =
     (case lookupCredentialByIdentifier fails ident db of
        Inl e \<Rightarrow> Inl e
      | Inr r \<Rightarrow>
          Inr (if verifyCredential cr password (case ur_hash r of None \<Rightarrow> [] | Some h \<Rightarrow> h) then Some (scan_user r) else None))"

subsection \<open>Server rules\<close>

record rules_db =
  rd_text :: string
  rd_accepted :: "(user_id, string) fmap"

definition rules_Hash :: "auth_crypto \<Rightarrow> string \<Rightarrow> string" where
  "rules_Hash cr text = (if TrimSpace text = [] then [] else hex_encode (ac_sha256 cr (str_bytes text)))"

definition rules_Text :: "auth_crypto \<Rightarrow> bool \<Rightarrow> rules_db \<Rightarrow> (string \<times> string) option" where
  "rules_Text cr fails d = (if fails then None else Some (rd_text d, rules_Hash cr (rd_text d)))"

definition rules_Set :: "bool \<Rightarrow> string \<Rightarrow> rules_db \<Rightarrow> rules_db option" where
  "rules_Set fails text d = (if fails then None else Some (d\<lparr>rd_text := text\<rparr>))"

definition rules_Pending :: "auth_crypto \<Rightarrow> bool \<Rightarrow> bool \<Rightarrow> user_id \<Rightarrow> rules_db \<Rightarrow> (string \<times> string \<times> bool) option" where
  "rules_Pending cr f1 f2 uid d =
     (case rules_Text cr f1 d of
        None \<Rightarrow> None
      | Some (text, hash) \<Rightarrow>
          if hash = [] then Some ([], [], False)
          else if f2 then None
          else (case fmlookup (rd_accepted d) uid of
                  None \<Rightarrow> Some (text, hash, True)
                | Some accepted \<Rightarrow> Some (text, hash, accepted \<noteq> hash)))"

definition rules_Accept :: "auth_crypto \<Rightarrow> bool \<Rightarrow> bool \<Rightarrow> user_id \<Rightarrow> string \<Rightarrow> rules_db \<Rightarrow> rules_db option" where
  "rules_Accept cr f1 f2 uid hash d =
     (case rules_Text cr f1 d of
        None \<Rightarrow> None
      | Some (_, current) \<Rightarrow>
          if current = [] then None
          else if hash \<noteq> current then None
          else if f2 then None
          else Some (d\<lparr>rd_accepted := fmupd uid current (rd_accepted d)\<rparr>))"

subsection \<open>What they establish\<close>

lemma user_by_Inr: "user_by P fails db = Inr r \<Longrightarrow> r \<in> set (ad_users db) \<and> P r"
  by (auto simp: user_by_def find_Some_iff split: if_splits option.splits)

lemma AuthenticateIdentifier_sound:
  assumes "AuthenticateIdentifier cr fails ident password db = Inr (Some u)"
  shows "\<exists>r h. r \<in> set (ad_users db) \<and> (ur_unique r = ident \<or> ur_nick r = Some ident) \<and> ur_hash r = Some h \<and>
    ac_verifyPassword cr password h \<and> u = scan_user r"
proof -
  obtain r where r: "lookupCredentialByIdentifier fails ident db = Inr r" "u = scan_user r"
    "verifyCredential cr password (case ur_hash r of None \<Rightarrow> [] | Some h \<Rightarrow> h)"
    using assms by (auto simp: AuthenticateIdentifier_def split: sum.splits if_splits)
  have "r \<in> set (filter (\<lambda>r. ur_unique r = ident) (ad_users db) @ filter (\<lambda>r. ur_unique r \<noteq> ident \<and> ur_nick r = Some ident) (ad_users db))"
    using r(1) unfolding lookupCredentialByIdentifier_def by (auto split: if_splits list.splits simp del: set_append)
  then show ?thesis using r(2,3) by (auto simp: verifyCredential_def split: option.splits if_splits)
qed

lemma AuthenticateChallenge_sound:
  assumes "AuthenticateChallenge cr fails uid ch sg db = Inr True"
  shows "\<exists>r pem. r \<in> set (ad_users db) \<and> ur_unique r = uid \<and> ur_pub r = Some pem \<and> VerifyChallenge cr pem ch sg"
  using assms user_by_Inr by (fastforce simp: AuthenticateChallenge_def split: sum.splits option.splits if_splits)

text \<open>A recorded acceptance is for the wording in force, and only it stops the question.\<close>

lemma rules_accept_pending:
  assumes "rules_Accept cr f1 f2 uid h d = Some d'"
  shows "rules_Pending cr False False uid d' = Some (rd_text d, h, False)" "h = rules_Hash cr (rd_text d)"
  using assms by (auto simp: rules_Accept_def rules_Pending_def rules_Text_def split: option.splits if_splits)

lemma rules_change_asks_again:
  assumes "rules_Pending cr False False uid d = Some (t, h, False)" "rules_Hash cr text \<noteq> rules_Hash cr (rd_text d)" "rules_Hash cr text \<noteq> []"
    "rd_accepted d = rd_accepted d'" "rd_text d' = text" "rules_Hash cr (rd_text d) \<noteq> []"
  shows "rules_Pending cr False False uid d' = Some (text, rules_Hash cr text, True)"
  using assms by (auto simp: rules_Pending_def rules_Text_def split: option.splits if_splits)

text \<open>Toy primitives: a digest is the length of its input, a key is its own signature, a password hash is the password behind a marker.\<close>

definition demo_crypto :: auth_crypto where
  "demo_crypto =
     \<lparr>ac_pem = (\<lambda>s. if s = [] then None else Some (''PUBLIC KEY'', replicate 32 (of_nat (length s)))), ac_sha256 = (\<lambda>bs. [of_nat (length bs)]),
      ac_b64 = (\<lambda>bs. hex_encode bs), ac_ed25519 = (\<lambda>pub ch sg. sg = pub @ ch),
      ac_verifyPassword = (\<lambda>pw h. h = CHR ''$'' # pw), ac_hashPassword = (\<lambda>pw. Some (CHR ''$'' # pw))\<rparr>"

lemma register_opens:
  assumes "RegisterUser cr keygen newid fails nickname password db = (Inr u, db')"
    "\<And>h. ac_hashPassword cr password = Some h \<Longrightarrow> h \<noteq> [] \<and> ac_verifyPassword cr password h"
    "\<And>r. r \<in> set (ad_users db) \<Longrightarrow> ur_unique r \<noteq> nickname"
  shows "AuthenticateIdentifier cr False u password db' = Inr (Some \<lparr>usr_ID = newid, usr_UniqueID = u, usr_Nickname = nickname, usr_IsAdmin = False\<rparr>) \<and>
    AuthenticateIdentifier cr False nickname password db' = Inr (Some \<lparr>usr_ID = newid, usr_UniqueID = u, usr_Nickname = nickname, usr_IsAdmin = False\<rparr>) \<and>
    minRegistrationPasswordBytes \<le> length password \<and> length password \<le> MaxPasswordBytes"
proof -
  obtain pem h where r: "validateRegistrationPassword password = None" "ac_hashPassword cr password = Some h"
    "\<not> (\<exists>r \<in> set (ad_users db). ur_unique r = u \<or> ur_nick r = Some nickname)"
    "ad_users db' = ad_users db @ [\<lparr>ur_id = newid, ur_unique = u, ur_nick = Some nickname, ur_admin = False, ur_hash = Some h, ur_pub = Some pem\<rparr>]"
    using assms(1) by (auto simp: RegisterUser_def split: option.splits if_splits)
  have none: "filter (\<lambda>r. ur_unique r = u) (ad_users db) = []" "filter (\<lambda>r. ur_unique r \<noteq> x \<and> ur_nick r = Some nickname) (ad_users db) = []"
      "filter (\<lambda>r. ur_unique r = nickname) (ad_users db) = []" for x
    using r(3) assms(3) by (auto simp: filter_empty_conv)
  have v: "h \<noteq> []" "ac_verifyPassword cr password h" using assms(2) [OF r(2)] by auto
  show ?thesis
    using r(1) v none
    by (simp add: AuthenticateIdentifier_def lookupCredentialByIdentifier_def r(4) verifyCredential_def scan_user_def
        validateRegistrationPassword_def not_less split: if_splits)
qed

text \<open>The primitives with the password functions of the auth package.\<close>

definition with_argon :: "argon \<Rightarrow> byte list option \<Rightarrow> auth_crypto \<Rightarrow> auth_crypto" where
  "with_argon idkey salt cr =
     cr\<lparr>ac_verifyPassword := (\<lambda>pw h. VerifyPassword idkey pw h = None),
        ac_hashPassword := (\<lambda>pw. case HashPassword idkey salt pw of Inl _ \<Rightarrow> None | Inr h \<Rightarrow> Some h)\<rparr>"

lemma HashPassword_not_Nil: "HashPassword idkey salt pw = Inr h \<Longrightarrow> h \<noteq> []"
  by (auto simp: HashPassword_def encodeHash_def split: if_splits option.splits)

lemma with_argon_hash: "ac_hashPassword (with_argon idkey salt cr) pw = Some h \<longleftrightarrow> HashPassword idkey salt pw = Inr h"
  by (simp add: with_argon_def split: sum.split)

text \<open>C35: A registered user can log in: right after a registration, the password it was made with opens the account under its unique id
  and under its nickname (unless the nickname is the unique id of another account, which takes precedence).  The password is within
  the length bounds.  Passwords are hashed, printed, parsed and verified by the code of the auth package; the hypothesis on Argon2id is
  that it returns a key of the requested length.\<close>

theorem register_then_login:
  assumes "RegisterUser (with_argon idkey (Some salt) cr) keygen newid fails nickname password db = (Inr u, db')"
    "length salt = argonSaltLen" "\<And>pw s t m p n. length (idkey pw s t m p n) = n"
    "\<And>r. r \<in> set (ad_users db) \<Longrightarrow> ur_unique r \<noteq> nickname"
  shows "AuthenticateIdentifier (with_argon idkey (Some salt) cr) False u password db' =
      Inr (Some \<lparr>usr_ID = newid, usr_UniqueID = u, usr_Nickname = nickname, usr_IsAdmin = False\<rparr>) \<and>
    AuthenticateIdentifier (with_argon idkey (Some salt) cr) False nickname password db' =
      Inr (Some \<lparr>usr_ID = newid, usr_UniqueID = u, usr_Nickname = nickname, usr_IsAdmin = False\<rparr>) \<and>
    minRegistrationPasswordBytes \<le> length password \<and> length password \<le> MaxPasswordBytes"
proof (rule register_opens [OF assms(1) _ assms(4)])
  fix h assume "ac_hashPassword (with_argon idkey (Some salt) cr) password = Some h"
  then have "HashPassword idkey (Some salt) password = Inr h" by (simp only: with_argon_hash)
  moreover from verify_own [OF this assms(2,3)] have "VerifyPassword idkey password h = None" .
  ultimately show "h \<noteq> [] \<and> ac_verifyPassword (with_argon idkey (Some salt) cr) password h"
    using HashPassword_not_Nil by (auto simp: with_argon_def)
qed

definition demo_argon :: auth_crypto where
  "demo_argon = with_argon demo_idkey (Some (replicate 16 1)) demo_crypto"

lemma demo_register:
  "RegisterUser demo_argon (Some ''pem'') 9 False ''bob'' ''correct horse'' \<lparr>ad_users = [], ad_bans = []\<rparr> =
     (Inr (the (UniqueIDFromPublicKey demo_argon ''pem'')),
      snd (RegisterUser demo_argon (Some ''pem'') 9 False ''bob'' ''correct horse'' \<lparr>ad_users = [], ad_bans = []\<rparr>))"
  by (simp add: RegisterUser_def validateRegistrationPassword_def minRegistrationPasswordBytes_def MaxPasswordBytes_def demo_argon_def
      with_argon_def demo_crypto_def HashPassword_def UniqueIDFromPublicKey_def LoadPublicKey_def)

theorem register_then_login_witness:
  "AuthenticateIdentifier demo_argon False ''bob'' ''correct horse''
     (snd (RegisterUser demo_argon (Some ''pem'') 9 False ''bob'' ''correct horse'' \<lparr>ad_users = [], ad_bans = []\<rparr>)) =
   Inr (Some \<lparr>usr_ID = 9, usr_UniqueID = the (UniqueIDFromPublicKey demo_argon ''pem''), usr_Nickname = ''bob'', usr_IsAdmin = False\<rparr>)"
  using register_then_login [OF demo_register [unfolded demo_argon_def]] by (simp add: demo_argon_def argonSaltLen_def demo_idkey_def)

end
