(* ===== verification/Login_Limiter.thy ===== *)
theory Login_Limiter
  imports Noxa_Prelude
begin

text \<open>
  The login-failure limiter (\<^verbatim>\<open>internal/auth/limiter.go\<close>): bounded per-scope failure counts,
  lockouts, and reservations of the expensive password verification.

  A Go \<open>time.Time\<close> is an option: None is the zero time, which lies before every clock reading.  The
  clock reading of an operation is its argument \<open>now\<close>.  Every method runs under the limiter's mutex
  and is one step.  \<open>makeRoomLocked\<close> scans the map in an arbitrary order: \<open>ord\<close> is the order of
  each scan and may depend on the map.
\<close>

type_synonym scope = string
type_synonym gotime = "time option"

definition time_after :: "gotime \<Rightarrow> time \<Rightarrow> bool" where
  "time_after t now = (case t of None \<Rightarrow> False | Some u \<Rightarrow> now < u)"

definition time_before :: "gotime \<Rightarrow> gotime \<Rightarrow> bool" where
  "time_before a b = (case b of None \<Rightarrow> False | Some v \<Rightarrow> (case a of None \<Rightarrow> True | Some u \<Rightarrow> u < v))"

record login_entry =
  le_failures :: int
  le_lastFailure :: gotime
  le_lockedUntil :: gotime
  le_inFlight :: bool

definition zero_entry :: login_entry where
  "zero_entry = \<lparr>le_failures = 0, le_lastFailure = None, le_lockedUntil = None, le_inFlight = False\<rparr>"

type_synonym entries = "(scope, login_entry) fmap"

record limiter =
  ll_maxFailures :: int
  ll_lockoutDuration :: int
  ll_failureTTL :: int
  ll_maxEntries :: int
  ll_maxConcurrentKDF :: int
  ll_entries :: entries
  ll_inFlight :: int
  ll_overflowUntil :: gotime

text \<open>An attempt; \<open>la_done\<close> is the state of its \<open>sync.Once\<close>.\<close>

record login_attempt =
  la_scopes :: "scope list"
  la_done :: bool

record limiter_config =
  lc_MaxFailures :: int
  lc_LockoutDuration :: int
  lc_FailureTTL :: int
  lc_MaxEntries :: int
  lc_MaxConcurrentKDF :: int

definition or_default :: "int \<Rightarrow> int \<Rightarrow> int" where
  "or_default v d = (if v \<le> 0 then d else v)"

definition NewLoginFailureLimiter :: "limiter_config \<Rightarrow> limiter" where
  "NewLoginFailureLimiter c =
     \<lparr>ll_maxFailures = or_default (lc_MaxFailures c) 5,
      ll_lockoutDuration = or_default (lc_LockoutDuration c) 300000000000,
      ll_failureTTL = or_default (lc_FailureTTL c) 300000000000,
      ll_maxEntries = or_default (lc_MaxEntries c) 4096,
      ll_maxConcurrentKDF = or_default (lc_MaxConcurrentKDF c) 8,
      ll_entries = fmempty, ll_inFlight = 0, ll_overflowUntil = None\<rparr>"

fun unique_loop :: "scope list \<Rightarrow> scope list \<Rightarrow> scope list" where
  "unique_loop seen [] = []"
| "unique_loop seen (s # ss) =
     (if s = [] then unique_loop seen ss
      else if s \<in> set seen then unique_loop seen ss
      else s # unique_loop (s # seen) ss)"

definition uniqueLoginScopes :: "scope list \<Rightarrow> scope list" where
  "uniqueLoginScopes ss = unique_loop [] ss"

text \<open>An entry that may not be dropped: a verification is running or a lockout is active.\<close>

definition pinned :: "time \<Rightarrow> login_entry \<Rightarrow> bool" where
  "pinned now e \<longleftrightarrow> le_inFlight e \<or> time_after (le_lockedUntil e) now"

definition evictableCapacityLocked :: "time \<Rightarrow> limiter \<Rightarrow> int" where
  "evictableCapacityLocked now l =
     ll_maxEntries l - int (fcard (fmdom (ll_entries l))) +
     int (fcard (fmdom (fmfilter (\<lambda>s. \<not> pinned now (the (fmlookup (ll_entries l) s))) (ll_entries l))))"

definition clearOverflowWhenEvictableLocked :: "time \<Rightarrow> limiter \<Rightarrow> limiter" where
  "clearOverflowWhenEvictableLocked now l =
     (if evictableCapacityLocked now l > 0 \<or> \<not> time_after (ll_overflowUntil l) now
      then l\<lparr>ll_overflowUntil := None\<rparr> else l)"

definition expired :: "time \<Rightarrow> int \<Rightarrow> login_entry \<Rightarrow> bool" where
  "expired now ttl e \<longleftrightarrow>
     \<not> pinned now e \<and>
     (le_lockedUntil e \<noteq> None \<or>
      (case le_lastFailure e of None \<Rightarrow> True | Some t \<Rightarrow> t \<le> now \<and> now - t \<ge> ttl))"

definition pruneExpiredLocked :: "time \<Rightarrow> limiter \<Rightarrow> limiter" where
  "pruneExpiredLocked now l =
     clearOverflowWhenEvictableLocked now
       (l\<lparr>ll_entries := fmfilter (\<lambda>s. \<not> expired now (ll_failureTTL l) (the (fmlookup (ll_entries l) s))) (ll_entries l)\<rparr>)"

definition scopesAvailableLocked :: "scope list \<Rightarrow> scope list \<Rightarrow> time \<Rightarrow> limiter \<Rightarrow> limiter \<times> bool" where
  "scopesAvailableLocked scopes protectedScopes now l =
     (if \<exists>s \<in> set scopes. case fmlookup (ll_entries l) s of Some e \<Rightarrow> pinned now e | None \<Rightarrow> False then (l, False)
      else
        let newScopes = int (length (filter (\<lambda>s. fmlookup (ll_entries l) s = None) scopes));
            available = ll_maxEntries l - int (fcard (fmdom (ll_entries l))) +
              int (fcard (fmdom (fmfilter (\<lambda>s. s \<notin> set protectedScopes \<and> \<not> pinned now (the (fmlookup (ll_entries l) s))) (ll_entries l))))
        in if newScopes = 0 then (l, True)
           else if available \<ge> newScopes then (l\<lparr>ll_overflowUntil := None\<rparr>, True)
           else (l\<lparr>ll_overflowUntil := Some (now + ll_lockoutDuration l)\<rparr>, False))"

text \<open>The scan for the oldest entry that may be dropped.\<close>

fun oldest_scan ::
  "time \<Rightarrow> scope list \<Rightarrow> entries \<Rightarrow> scope list \<Rightarrow> (scope \<times> gotime) option \<Rightarrow> (scope \<times> gotime) option" where
  "oldest_scan now protectedScopes es [] best = best"
| "oldest_scan now protectedScopes es (s # ss) best =
     oldest_scan now protectedScopes es ss
       (case fmlookup es s of
          None \<Rightarrow> best
        | Some e \<Rightarrow>
            if s \<in> set protectedScopes then best
            else if pinned now e then best
            else
              (case best of
                 None \<Rightarrow> Some (s, le_lastFailure e)
               | Some (_, t) \<Rightarrow> if time_before (le_lastFailure e) t then Some (s, le_lastFailure e) else best))"

lemma oldest_scan_in:
  assumes "oldest_scan now prot es ss best = Some (s, t)"
  shows "best = Some (s, t) \<or> (s \<notin> set prot \<and> (\<exists>e. fmlookup es s = Some e \<and> \<not> pinned now e))"
  using assms
proof (induction ss arbitrary: best)
  case Nil
  then show ?case by simp
next
  case (Cons a ss)
  from Cons.IH [OF Cons.prems [unfolded oldest_scan.simps]] show ?case
    by (auto split: option.splits if_splits prod.splits)
qed

function make_room_loop ::
  "(entries \<Rightarrow> scope list) \<Rightarrow> time \<Rightarrow> int \<Rightarrow> int \<Rightarrow> scope list \<Rightarrow> entries \<Rightarrow> entries \<times> bool" where
  "make_room_loop ord now limit needed protectedScopes es =
     (if int (fcard (fmdom es)) + needed > limit then
        (case oldest_scan now protectedScopes es (ord es) None of
           None \<Rightarrow> (es, False)
         | Some (s, _) \<Rightarrow> make_room_loop ord now limit needed protectedScopes (fmdrop s es))
      else (es, True))"
  by pat_completeness auto

termination make_room_loop
proof (relation "measure (\<lambda>(ord, now, limit, needed, prot, es). fcard (fmdom es))", goal_cases)
  case 1
  show ?case by simp
next
  case (2 ord now limit needed prot es p s t)
  then obtain e where "fmlookup es s = Some e"
    using oldest_scan_in [of now prot es "ord es" None s t] by auto
  then have "s |\<in>| fmdom es" by (simp add: fmlookup_dom_iff)
  then show ?case using fcard_Suc_fminus1 [of s "fmdom es"] by simp
qed

declare make_room_loop.simps [simp del]

definition makeRoomLocked ::
  "(entries \<Rightarrow> scope list) \<Rightarrow> time \<Rightarrow> int \<Rightarrow> scope list \<Rightarrow> limiter \<Rightarrow> limiter \<times> bool" where
  "makeRoomLocked ord now needed protectedScopes l =
     (case make_room_loop ord now (ll_maxEntries l) needed protectedScopes (ll_entries l) of
        (es, True) \<Rightarrow> (l\<lparr>ll_entries := es\<rparr>, True)
      | (es, False) \<Rightarrow> (l\<lparr>ll_entries := es, ll_overflowUntil := Some (now + ll_lockoutDuration l)\<rparr>, False))"

definition mark_inflight :: "scope \<Rightarrow> entries \<Rightarrow> entries" where
  "mark_inflight s es =
     fmupd s ((case fmlookup es s of Some e \<Rightarrow> e | None \<Rightarrow> zero_entry)\<lparr>le_inFlight := True\<rparr>) es"

text \<open>None: refused.  An attempt without scopes has no limiter behind it.\<close>

definition Reserve ::
  "(entries \<Rightarrow> scope list) \<Rightarrow> time \<Rightarrow> scope list \<Rightarrow> limiter \<Rightarrow> limiter \<times> login_attempt option" where
  "Reserve ord now scopes0 l0 =
     (let scopes = uniqueLoginScopes scopes0
      in if scopes = [] then (l0, Some \<lparr>la_scopes = [], la_done = False\<rparr>)
         else
           let l = pruneExpiredLocked now l0
           in if ll_inFlight l \<ge> ll_maxConcurrentKDF l then (l, None)
              else
                (case scopesAvailableLocked scopes scopes now l of
                   (l1, False) \<Rightarrow> (l1, None)
                 | (l1, True) \<Rightarrow>
                     (case makeRoomLocked ord now
                         (int (length (filter (\<lambda>s. fmlookup (ll_entries l1) s = None) scopes))) scopes l1 of
                        (l2, False) \<Rightarrow> (l2, None)
                      | (l2, True) \<Rightarrow>
                          (l2\<lparr>ll_entries := fold mark_inflight scopes (ll_entries l2), ll_inFlight := ll_inFlight l2 + 1\<rparr>,
                           Some \<lparr>la_scopes = scopes, la_done = False\<rparr>))))"

datatype attempt_result = AttemptSuccess "scope list" | AttemptFailure | AttemptCancel

definition count_failure :: "int \<Rightarrow> int \<Rightarrow> time \<Rightarrow> login_entry \<Rightarrow> login_entry" where
  "count_failure maxFailures lockout now e =
     (if le_failures e + 1 \<ge> maxFailures
      then e\<lparr>le_failures := 0, le_lastFailure := Some now, le_lockedUntil := Some (now + lockout)\<rparr>
      else e\<lparr>le_failures := le_failures e + 1, le_lastFailure := Some now\<rparr>)"

definition finish_scope :: "limiter \<Rightarrow> time \<Rightarrow> attempt_result \<Rightarrow> scope \<Rightarrow> entries \<Rightarrow> entries" where
  "finish_scope l now result s es =
     (case fmlookup es s of
        None \<Rightarrow> es
      | Some e0 \<Rightarrow>
          if \<not> le_inFlight e0 then es
          else
            let e = e0\<lparr>le_inFlight := False\<rparr>;
                keep = (if le_failures e = 0 \<and> le_lockedUntil e = None then fmdrop s es else fmupd s e es)
            in (case result of
                  AttemptSuccess ok \<Rightarrow> if s \<in> set ok then fmdrop s es else keep
                | AttemptFailure \<Rightarrow> fmupd s (count_failure (ll_maxFailures l) (ll_lockoutDuration l) now e) es
                | AttemptCancel \<Rightarrow> keep))"

definition finish :: "time \<Rightarrow> attempt_result \<Rightarrow> login_attempt \<Rightarrow> limiter \<Rightarrow> limiter \<times> login_attempt" where
  "finish now result a l0 =
     (if la_done a then (l0, a)
      else if la_scopes a = [] then (l0, a\<lparr>la_done := True\<rparr>)
      else
        let l = pruneExpiredLocked now l0;
            finished = (\<exists>s \<in> set (la_scopes a). case fmlookup (ll_entries l) s of Some e \<Rightarrow> le_inFlight e | None \<Rightarrow> False);
            l1 = l\<lparr>ll_entries := fold (finish_scope l now result) (la_scopes a) (ll_entries l)\<rparr>
        in (if finished then clearOverflowWhenEvictableLocked now (l1\<lparr>ll_inFlight := ll_inFlight l1 - 1\<rparr>) else l1,
            a\<lparr>la_done := True\<rparr>))"

definition Succeed :: "time \<Rightarrow> scope list \<Rightarrow> login_attempt \<Rightarrow> limiter \<Rightarrow> limiter \<times> login_attempt" where
  "Succeed now successScopes = finish now (AttemptSuccess (uniqueLoginScopes successScopes))"

definition Fail :: "time \<Rightarrow> login_attempt \<Rightarrow> limiter \<Rightarrow> limiter \<times> login_attempt" where
  "Fail now = finish now AttemptFailure"

definition Cancel :: "time \<Rightarrow> login_attempt \<Rightarrow> limiter \<Rightarrow> limiter \<times> login_attempt" where
  "Cancel now = finish now AttemptCancel"

definition Allowed :: "time \<Rightarrow> scope \<Rightarrow> limiter \<Rightarrow> limiter \<times> bool" where
  "Allowed now s l0 =
     (if s = [] then (l0, True)
      else
        let l = pruneExpiredLocked now l0
        in if ll_inFlight l < ll_maxConcurrentKDF l then scopesAvailableLocked [s] [s] now l else (l, False))"

definition recordFailureLocked :: "(entries \<Rightarrow> scope list) \<Rightarrow> time \<Rightarrow> scope \<Rightarrow> limiter \<Rightarrow> limiter" where
  "recordFailureLocked ord now s l =
     (case (case fmlookup (ll_entries l) s of
              Some e \<Rightarrow> (l, Some e)
            | None \<Rightarrow>
                (case makeRoomLocked ord now 1 [] l of
                   (l1, True) \<Rightarrow> (l1, Some zero_entry)
                 | (l1, False) \<Rightarrow> (l1, None))) of
        (l1, None) \<Rightarrow> l1
      | (l1, Some e) \<Rightarrow>
          if le_inFlight e then l1
          else l1\<lparr>ll_entries := fmupd s (count_failure (ll_maxFailures l1) (ll_lockoutDuration l1) now e) (ll_entries l1)\<rparr>)"

definition RecordFailure :: "(entries \<Rightarrow> scope list) \<Rightarrow> time \<Rightarrow> scope list \<Rightarrow> limiter \<Rightarrow> limiter" where
  "RecordFailure ord now scopes0 l0 =
     (let scopes = uniqueLoginScopes scopes0
      in if scopes = [] then l0
         else clearOverflowWhenEvictableLocked now (fold (recordFailureLocked ord now) scopes (pruneExpiredLocked now l0)))"

definition clear_scope :: "scope \<Rightarrow> entries \<Rightarrow> entries" where
  "clear_scope s es =
     (case fmlookup es s of Some e \<Rightarrow> if le_inFlight e then es else fmdrop s es | None \<Rightarrow> es)"

definition Clear :: "time \<Rightarrow> scope list \<Rightarrow> limiter \<Rightarrow> limiter" where
  "Clear now scopes0 l =
     (let scopes = uniqueLoginScopes scopes0
      in if scopes = [] then l
         else clearOverflowWhenEvictableLocked now (l\<lparr>ll_entries := fold clear_scope scopes (ll_entries l)\<rparr>))"

subsection \<open>What the helpers keep\<close>

text \<open>The scopes under verification.\<close>

definition flying :: "entries \<Rightarrow> scope set" where
  "flying es = {s. \<exists>e. fmlookup es s = Some e \<and> le_inFlight e}"

text \<open>No entry is invented, and an entry that is pinned at \<open>now\<close> is kept as it is.\<close>

definition shrinks :: "time \<Rightarrow> entries \<Rightarrow> entries \<Rightarrow> bool" where
  "shrinks now es es' \<longleftrightarrow>
     (\<forall>s e. fmlookup es' s = Some e \<longrightarrow> fmlookup es s = Some e) \<and>
     (\<forall>s e. fmlookup es s = Some e \<longrightarrow> pinned now e \<longrightarrow> fmlookup es' s = Some e)"

lemma shrinks_refl [simp]: "shrinks now es es"
  by (simp add: shrinks_def)

lemma shrinks_trans: "shrinks now a b \<Longrightarrow> shrinks now b c \<Longrightarrow> shrinks now a c"
  unfolding shrinks_def by blast

lemma shrinksD:
  "shrinks now es es' \<Longrightarrow> fmlookup es' s = Some e \<Longrightarrow> fmlookup es s = Some e"
  "shrinks now es es' \<Longrightarrow> fmlookup es s = Some e \<Longrightarrow> pinned now e \<Longrightarrow> fmlookup es' s = Some e"
  unfolding shrinks_def by blast+

lemma shrinks_flying:
  assumes "shrinks now es es'"
  shows "flying es' = flying es"
proof (intro equalityI subsetI)
  fix s assume "s \<in> flying es'"
  then show "s \<in> flying es" using shrinksD(1) [OF assms] by (auto simp: flying_def)
next
  fix s assume "s \<in> flying es"
  then obtain e where "fmlookup es s = Some e" "le_inFlight e" by (auto simp: flying_def)
  with shrinksD(2) [OF assms, of s e] show "s \<in> flying es'" by (simp add: flying_def pinned_def)
qed

lemma shrinks_card:
  assumes "shrinks now es es'"
  shows "fcard (fmdom es') \<le> fcard (fmdom es)"
proof (rule fcard_mono)
  show "fmdom es' |\<subseteq>| fmdom es"
    using assms unfolding shrinks_def by (metis fmlookup_dom_iff fsubsetI)
qed

lemma clearOverflow_frame [simp]:
  "ll_entries (clearOverflowWhenEvictableLocked now l) = ll_entries l"
  "ll_inFlight (clearOverflowWhenEvictableLocked now l) = ll_inFlight l"
  "ll_maxFailures (clearOverflowWhenEvictableLocked now l) = ll_maxFailures l"
  "ll_lockoutDuration (clearOverflowWhenEvictableLocked now l) = ll_lockoutDuration l"
  "ll_maxEntries (clearOverflowWhenEvictableLocked now l) = ll_maxEntries l"
  "ll_maxConcurrentKDF (clearOverflowWhenEvictableLocked now l) = ll_maxConcurrentKDF l"
  by (simp_all add: clearOverflowWhenEvictableLocked_def)

lemma prune_frame [simp]:
  "ll_inFlight (pruneExpiredLocked now l) = ll_inFlight l"
  "ll_maxFailures (pruneExpiredLocked now l) = ll_maxFailures l"
  "ll_lockoutDuration (pruneExpiredLocked now l) = ll_lockoutDuration l"
  "ll_maxEntries (pruneExpiredLocked now l) = ll_maxEntries l"
  "ll_maxConcurrentKDF (pruneExpiredLocked now l) = ll_maxConcurrentKDF l"
  by (simp_all add: pruneExpiredLocked_def)

lemma prune_shrinks: "shrinks now (ll_entries l) (ll_entries (pruneExpiredLocked now l))"
  by (auto simp: pruneExpiredLocked_def shrinks_def expired_def split: if_splits)

text \<open>After pruning, an entry with a lockout date is pinned.\<close>

lemma prune_unpinned:
  "fmlookup (ll_entries (pruneExpiredLocked now l)) s = Some e \<Longrightarrow> \<not> pinned now e \<Longrightarrow> le_lockedUntil e = None"
  by (auto simp: pruneExpiredLocked_def expired_def split: if_splits)

lemma make_room_loop_props:
  assumes "make_room_loop ord now limit needed prot es = (es', b)"
  shows "shrinks now es es' \<and> (\<forall>s. s \<in> set prot \<longrightarrow> fmlookup es' s = fmlookup es s) \<and>
    (b \<longrightarrow> int (fcard (fmdom es')) + needed \<le> limit)"
  using assms
proof (induction ord now limit needed prot es rule: make_room_loop.induct)
  case (1 ord now limit needed prot es)
  show ?case
  proof (cases "int (fcard (fmdom es)) + needed > limit")
    case False
    with 1(2) show ?thesis by (simp add: make_room_loop.simps [of _ _ _ _ _ es])
  next
    case True
    show ?thesis
    proof (cases "oldest_scan now prot es (ord es) None")
      case None
      with True 1(2) show ?thesis by (simp add: make_room_loop.simps [of _ _ _ _ _ es])
    next
      case (Some q)
      obtain s t where q: "q = (s, t)" by fastforce
      with oldest_scan_in [of now prot es "ord es" None s t] Some obtain e where
        e: "s \<notin> set prot" "fmlookup es s = Some e" "\<not> pinned now e" by auto
      have step: "make_room_loop ord now limit needed prot (fmdrop s es) = (es', b)"
        using 1(2) True Some q by (simp add: make_room_loop.simps [of _ _ _ _ _ es])
      have "shrinks now es (fmdrop s es)" using e by (auto simp: shrinks_def)
      with 1(1) [OF True Some q [symmetric] step] e show ?thesis
        by (auto intro: shrinks_trans split: if_splits)
    qed
  qed
qed

lemma makeRoom_props:
  assumes "makeRoomLocked ord now needed prot l = (l', b)"
  shows "shrinks now (ll_entries l) (ll_entries l')" "s \<in> set prot \<Longrightarrow> fmlookup (ll_entries l') s = fmlookup (ll_entries l) s"
    "b \<Longrightarrow> int (fcard (fmdom (ll_entries l'))) + needed \<le> ll_maxEntries l"
    "ll_inFlight l' = ll_inFlight l" "ll_maxFailures l' = ll_maxFailures l" "ll_lockoutDuration l' = ll_lockoutDuration l"
    "ll_maxEntries l' = ll_maxEntries l" "ll_maxConcurrentKDF l' = ll_maxConcurrentKDF l"
proof -
  obtain es c where mr: "make_room_loop ord now (ll_maxEntries l) needed prot (ll_entries l) = (es, c)" by fastforce
  have l': "ll_entries l' = es" "b = c" "ll_inFlight l' = ll_inFlight l" "ll_maxFailures l' = ll_maxFailures l"
    "ll_lockoutDuration l' = ll_lockoutDuration l" "ll_maxEntries l' = ll_maxEntries l" "ll_maxConcurrentKDF l' = ll_maxConcurrentKDF l"
    using assms mr by (cases c; simp add: makeRoomLocked_def; fastforce)+
  note p = make_room_loop_props [OF mr]
  show "shrinks now (ll_entries l) (ll_entries l')" using p l' by simp
  show "s \<in> set prot \<Longrightarrow> fmlookup (ll_entries l') s = fmlookup (ll_entries l) s" using p l' by simp
  show "b \<Longrightarrow> int (fcard (fmdom (ll_entries l'))) + needed \<le> ll_maxEntries l" using p l' by simp
qed (use assms in \<open>auto simp: makeRoomLocked_def split: prod.splits bool.splits\<close>)

lemma unique_loop_props:
  "set (unique_loop seen ss) = {s \<in> set ss. s \<noteq> []} - set seen" "distinct (unique_loop seen ss)"
proof -
  show eq: "set (unique_loop seen ss) = {s \<in> set ss. s \<noteq> []} - set seen" for seen
    by (induction ss arbitrary: seen) auto
  show "distinct (unique_loop seen ss)"
  proof (induction ss arbitrary: seen)
    case (Cons a ss)
    have "set (unique_loop (a # seen) ss) = {s \<in> set ss. s \<noteq> []} - set (a # seen)"
      by (induction ss arbitrary: seen a) auto
    with Cons show ?case by simp
  qed simp
qed

lemma unique_props [simp]:
  "set (uniqueLoginScopes ss) = {s \<in> set ss. s \<noteq> []}" "distinct (uniqueLoginScopes ss)"
  by (simp_all add: uniqueLoginScopes_def unique_loop_props)

lemma scopesAvailable_props:
  assumes "scopesAvailableLocked scopes prot now l = (l', b)"
  shows "ll_entries l' = ll_entries l" "ll_inFlight l' = ll_inFlight l" "ll_maxFailures l' = ll_maxFailures l"
    "ll_lockoutDuration l' = ll_lockoutDuration l" "ll_maxEntries l' = ll_maxEntries l"
    "ll_maxConcurrentKDF l' = ll_maxConcurrentKDF l"
    "b \<Longrightarrow> s \<in> set scopes \<Longrightarrow> fmlookup (ll_entries l) s = Some e \<Longrightarrow> \<not> pinned now e"
  using assms by (auto simp: scopesAvailableLocked_def Let_def split: if_splits)

text \<open>The entry-wise loops.\<close>

lemma fold_mark_lookup:
  "fmlookup (fold mark_inflight ss es) s =
     (if s \<in> set ss then Some ((case fmlookup es s of Some e \<Rightarrow> e | None \<Rightarrow> zero_entry)\<lparr>le_inFlight := True\<rparr>)
      else fmlookup es s)"
  by (induction ss arbitrary: es) (auto simp: mark_inflight_def split: option.splits)

lemma fold_mark_card:
  assumes "distinct ss"
  shows "fcard (fmdom (fold mark_inflight ss es)) =
    fcard (fmdom es) + length (filter (\<lambda>s. fmlookup es s = None) ss)"
  using assms
proof (induction ss arbitrary: es)
  case Nil
  then show ?case by simp
next
  case (Cons a ss)
  have "filter (\<lambda>s. fmlookup (mark_inflight a es) s = None) ss = filter (\<lambda>s. fmlookup es s = None) ss"
    using Cons.prems by (intro filter_cong) (auto simp: mark_inflight_def)
  moreover have "fcard (fmdom (mark_inflight a es)) = fcard (fmdom es) + (if fmlookup es a = None then 1 else 0)"
    by (auto simp: mark_inflight_def finsert_absorb fmlookup_dom_iff fcard_finsert_disjoint fmdom_notI)
  ultimately show ?case using Cons.IH [of "mark_inflight a es"] Cons.prems by simp
qed

lemma finish_scope_cong:
  assumes "fmlookup es s = fmlookup es' s"
  shows "fmlookup (finish_scope l now res s es) s = fmlookup (finish_scope l now res s es') s"
  using assms by (cases "fmlookup es' s"; cases res) (auto simp: finish_scope_def Let_def)

lemma fold_finish_lookup:
  assumes "distinct ss"
  shows "fmlookup (fold (finish_scope l now res) ss es) s =
    (if s \<in> set ss then fmlookup (finish_scope l now res s es) s else fmlookup es s)"
  using assms
proof (induction ss arbitrary: es)
  case Nil
  then show ?case by simp
next
  case (Cons a ss)
  have other: "fmlookup (finish_scope l now res a es) x = fmlookup es x" if "x \<noteq> a" for x
    using that by (auto simp: finish_scope_def Let_def split: option.splits attempt_result.splits)
  have "fmlookup (finish_scope l now res s (finish_scope l now res a es)) s = fmlookup (finish_scope l now res s es) s"
    if "s \<noteq> a"
    by (rule finish_scope_cong) (rule other [OF that])
  with Cons other show ?case by auto
qed

lemma fold_clear_lookup:
  "fmlookup (fold clear_scope ss es) s =
     (if s \<in> set ss then fmlookup (clear_scope s es) s else fmlookup es s)"
proof (induction ss arbitrary: es)
  case Nil
  then show ?case by simp
next
  case (Cons a ss)
  have "fmlookup (clear_scope a es) x = fmlookup es x" if "x \<noteq> a" for x
    using that by (auto simp: clear_scope_def split: option.splits)
  with Cons show ?case by (auto simp: clear_scope_def split: option.splits)
qed

lemma finish_scope_lookup:
  "fmlookup es s = Some e \<Longrightarrow> le_inFlight e \<Longrightarrow> fmlookup (finish_scope l now res s es) s = Some e' \<Longrightarrow>
   \<not> le_inFlight e' \<and> (e' = e\<lparr>le_inFlight := False\<rparr> \<or>
     e' = count_failure (ll_maxFailures l) (ll_lockoutDuration l) now (e\<lparr>le_inFlight := False\<rparr>))"
  by (auto simp: finish_scope_def Let_def count_failure_def split: if_splits attempt_result.splits)

lemma finish_scope_other: "\<not> (\<exists>e. fmlookup es s = Some e \<and> le_inFlight e) \<Longrightarrow> finish_scope l now res s es = es"
  by (auto simp: finish_scope_def split: option.splits)

lemma dom_card_mono:
  assumes "\<And>s e. fmlookup es' s = Some e \<Longrightarrow> \<exists>e. fmlookup es s = Some e"
  shows "fcard (fmdom es') \<le> fcard (fmdom es)"
  using assms by (intro fcard_mono fsubsetI) (metis fmlookup_dom_iff)

subsection \<open>The limiter and its attempts\<close>

record llsys =
  sy_lim :: limiter
  sy_atts :: "login_attempt list"

definition active :: "login_attempt \<Rightarrow> bool" where
  "active a \<longleftrightarrow> \<not> la_done a \<and> la_scopes a \<noteq> []"

definition owned :: "login_attempt list \<Rightarrow> scope list" where
  "owned as = concat (map la_scopes (filter active as))"

definition entries_ok :: "int \<Rightarrow> entries \<Rightarrow> bool" where
  "entries_ok maxf es \<longleftrightarrow>
     (\<forall>s e. fmlookup es s = Some e \<longrightarrow>
        0 \<le> le_failures e \<and> le_failures e < maxf \<and> (le_inFlight e \<longrightarrow> le_lockedUntil e = None))"

text \<open>
  The map stays within its capacity; the number of running verifications is the number of open
  attempts and within its bound; the scopes under verification are exactly the scopes of the open
  attempts, and no two of those share one.
\<close>

definition lim_ok :: "limiter \<Rightarrow> bool" where
  "lim_ok l \<longleftrightarrow>
     0 < ll_maxFailures l \<and> 0 < ll_lockoutDuration l \<and>
     int (fcard (fmdom (ll_entries l))) \<le> ll_maxEntries l \<and>
     entries_ok (ll_maxFailures l) (ll_entries l)"

definition ll_inv :: "llsys \<Rightarrow> bool" where
  "ll_inv y \<longleftrightarrow>
     lim_ok (sy_lim y) \<and>
     ll_inFlight (sy_lim y) = int (length (filter active (sy_atts y))) \<and>
     ll_inFlight (sy_lim y) \<le> ll_maxConcurrentKDF (sy_lim y) \<and>
     distinct (owned (sy_atts y)) \<and> set (owned (sy_atts y)) = flying (ll_entries (sy_lim y))"

datatype ll_op =
    LReserve "entries \<Rightarrow> scope list" time "scope list"
  | LFinish time nat attempt_result
  | LAllowed time scope
  | LRecordFailure "entries \<Rightarrow> scope list" time "scope list"
  | LClear time "scope list"

fun ll_step :: "ll_op \<Rightarrow> llsys \<Rightarrow> llsys" where
  "ll_step (LReserve ord now ss) y =
     (case Reserve ord now ss (sy_lim y) of
        (l, None) \<Rightarrow> y\<lparr>sy_lim := l\<rparr>
      | (l, Some a) \<Rightarrow> y\<lparr>sy_lim := l, sy_atts := sy_atts y @ [a]\<rparr>)"
| "ll_step (LFinish now i res) y =
     (if i < length (sy_atts y) then
        (case finish now res (sy_atts y ! i) (sy_lim y) of
           (l, a) \<Rightarrow> y\<lparr>sy_lim := l, sy_atts := (sy_atts y)[i := a]\<rparr>)
      else y)"
| "ll_step (LAllowed now s) y = y\<lparr>sy_lim := fst (Allowed now s (sy_lim y))\<rparr>"
| "ll_step (LRecordFailure ord now ss) y = y\<lparr>sy_lim := RecordFailure ord now ss (sy_lim y)\<rparr>"
| "ll_step (LClear now ss) y = y\<lparr>sy_lim := Clear now ss (sy_lim y)\<rparr>"

lemma entries_ok_shrinks: "entries_ok maxf es \<Longrightarrow> shrinks now es es' \<Longrightarrow> entries_ok maxf es'"
  unfolding entries_ok_def shrinks_def by blast

lemma count_failure_ok:
  assumes "0 \<le> le_failures e" "0 < maxf"
  shows "0 \<le> le_failures (count_failure maxf lo now e)" "le_failures (count_failure maxf lo now e) < maxf"
    "le_inFlight (count_failure maxf lo now e) = le_inFlight e"
  using assms by (auto simp: count_failure_def)

lemma owned_append: "owned (as @ [a]) = owned as @ (if active a then la_scopes a else [])"
  by (simp add: owned_def)

lemma owned_update:
  assumes "i < length as" "active (as ! i)" "\<not> active b"
  shows "distinct (owned as) \<Longrightarrow> distinct (owned (as[i := b]))"
    "distinct (owned as) \<Longrightarrow> set (owned (as[i := b])) = set (owned as) - set (la_scopes (as ! i))"
    "length (filter active (as[i := b])) = length (filter active as) - 1"
    "distinct (owned as) \<Longrightarrow> distinct (la_scopes (as ! i))" "set (la_scopes (as ! i)) \<subseteq> set (owned as)"
    "0 < length (filter active as)"
proof -
  obtain xs ys where split: "as = xs @ (as ! i) # ys" "length xs = i"
    using assms(1) id_take_nth_drop [OF assms(1)] that [of "take i as" "drop (Suc i) as"] by simp
  have new: "as[i := b] = xs @ b # ys" by (metis split list_update_length)
  have o: "owned as = owned xs @ la_scopes (as ! i) @ owned ys"
    using assms(2) by (subst split(1)) (simp add: owned_def)
  have o': "owned (as[i := b]) = owned xs @ owned ys" unfolding new using assms(3) by (simp add: owned_def)
  have f: "filter active as = filter active xs @ (as ! i) # filter active ys"
    using assms(2) by (subst split(1)) simp
  show "distinct (owned as) \<Longrightarrow> distinct (owned (as[i := b]))" by (auto simp: o o')
  show "distinct (owned as) \<Longrightarrow> set (owned (as[i := b])) = set (owned as) - set (la_scopes (as ! i))" by (auto simp: o o')
  show "length (filter active (as[i := b])) = length (filter active as) - 1"
    unfolding new f using assms(3) by simp
  show "distinct (owned as) \<Longrightarrow> distinct (la_scopes (as ! i))" "set (la_scopes (as ! i)) \<subseteq> set (owned as)" by (auto simp: o)
  show "0 < length (filter active as)" by (simp add: f)
qed

lemma owned_same:
  assumes "i < length as" "\<not> active (as ! i)" "\<not> active b"
  shows "owned (as[i := b]) = owned as" "length (filter active (as[i := b])) = length (filter active as)"
proof -
  obtain xs ys where split: "as = xs @ (as ! i) # ys" "length xs = i"
    using assms(1) id_take_nth_drop [OF assms(1)] that [of "take i as" "drop (Suc i) as"] by simp
  have new: "as[i := b] = xs @ b # ys" by (metis split list_update_length)
  have f: "filter active as = filter active xs @ filter active ys"
    using assms(2) by (subst split(1)) simp
  show "owned (as[i := b]) = owned as"
    unfolding new owned_def f using assms(3) by simp
  show "length (filter active (as[i := b])) = length (filter active as)"
    unfolding new f using assms(3) by simp
qed

text \<open>The limits, the running verifications and their scopes are the same.\<close>

definition lim_frame :: "limiter \<Rightarrow> limiter \<Rightarrow> bool" where
  "lim_frame l l' \<longleftrightarrow>
     ll_inFlight l' = ll_inFlight l \<and> ll_maxFailures l' = ll_maxFailures l \<and>
     ll_lockoutDuration l' = ll_lockoutDuration l \<and> ll_maxEntries l' = ll_maxEntries l \<and>
     ll_maxConcurrentKDF l' = ll_maxConcurrentKDF l \<and> flying (ll_entries l') = flying (ll_entries l)"

lemma lim_frame_refl [simp]: "lim_frame l l"
  by (simp add: lim_frame_def)

lemma lim_frame_trans: "lim_frame a b \<Longrightarrow> lim_frame b c \<Longrightarrow> lim_frame a c"
  by (simp add: lim_frame_def)

lemma ll_inv_frame:
  "ll_inv y \<Longrightarrow> lim_ok l' \<Longrightarrow> lim_frame (sy_lim y) l' \<Longrightarrow> ll_inv (y\<lparr>sy_lim := l'\<rparr>)"
  by (simp add: ll_inv_def lim_frame_def)

lemma lim_ok_shrinks:
  assumes "lim_ok l" "shrinks now (ll_entries l) (ll_entries l')"
    "ll_maxFailures l' = ll_maxFailures l" "ll_lockoutDuration l' = ll_lockoutDuration l" "ll_maxEntries l' = ll_maxEntries l"
  shows "lim_ok l'"
  using assms shrinks_card [OF assms(2)] entries_ok_shrinks [OF _ assms(2), of "ll_maxFailures l"]
  by (auto simp: lim_ok_def)

lemma prune_ok: "lim_ok l \<Longrightarrow> lim_ok (pruneExpiredLocked now l)"
  by (erule lim_ok_shrinks [OF _ prune_shrinks]) simp_all

lemma prune_lim_frame: "lim_frame l (pruneExpiredLocked now l)"
  by (simp add: lim_frame_def shrinks_flying [OF prune_shrinks])

lemma clearOverflow_ok [simp]: "lim_ok (clearOverflowWhenEvictableLocked now l) = lim_ok l"
  by (simp add: lim_ok_def)

lemma clearOverflow_lim_frame [simp]:
  "lim_frame l0 (clearOverflowWhenEvictableLocked now l) = lim_frame l0 l"
  by (simp add: lim_frame_def)

lemma available_ok:
  assumes "scopesAvailableLocked scopes prot now l = (l', b)" "lim_ok l"
  shows "lim_ok l'" "lim_frame l l'"
  using assms(2) scopesAvailable_props [OF assms(1)] by (simp_all add: lim_ok_def lim_frame_def)

lemma makeRoom_ok:
  assumes "makeRoomLocked ord now needed prot l = (l', b)" "lim_ok l"
  shows "lim_ok l'" "lim_frame l l'"
  using lim_ok_shrinks [OF assms(2) makeRoom_props(1) [OF assms(1)]] makeRoom_props [OF assms(1)]
    shrinks_flying [OF makeRoom_props(1) [OF assms(1)]]
  by (simp_all add: lim_frame_def)

lemma Allowed_ok:
  assumes "lim_ok l"
  shows "lim_ok (fst (Allowed now s l))" "lim_frame l (fst (Allowed now s l))"
proof -
  obtain l' b where sa: "scopesAvailableLocked [s] [s] now (pruneExpiredLocked now l) = (l', b)" by fastforce
  note a = available_ok [OF sa prune_ok [OF assms]]
  have "lim_frame l l'" by (rule lim_frame_trans [OF prune_lim_frame a(2)])
  with a sa assms prune_ok [OF assms] prune_lim_frame [of l now]
  show "lim_ok (fst (Allowed now s l))" "lim_frame l (fst (Allowed now s l))"
    by (simp_all add: Allowed_def Let_def lim_frame_def)
qed

lemma entry_update_ok:
  assumes ok: "lim_ok l" and e: "fmlookup (ll_entries l) s = None \<Longrightarrow> int (fcard (fmdom (ll_entries l))) + 1 \<le> ll_maxEntries l"
    "\<And>e. fmlookup (ll_entries l) s = Some e \<Longrightarrow> \<not> le_inFlight e"
    and e': "0 \<le> le_failures e'" "le_failures e' < ll_maxFailures l" "\<not> le_inFlight e'"
  shows "lim_ok (l\<lparr>ll_entries := fmupd s e' (ll_entries l)\<rparr>)" "lim_frame l (l\<lparr>ll_entries := fmupd s e' (ll_entries l)\<rparr>)"
proof -
  have "int (fcard (finsert s (fmdom (ll_entries l)))) \<le> ll_maxEntries l"
  proof (cases "fmlookup (ll_entries l) s")
    case None
    with e(1) show ?thesis by (simp add: fcard_finsert_disjoint fmdom_notI)
  next
    case (Some x)
    then have "s |\<in>| fmdom (ll_entries l)" by (simp add: fmlookup_dom_iff)
    with ok show ?thesis by (simp add: lim_ok_def finsert_absorb)
  qed
  with ok e' show "lim_ok (l\<lparr>ll_entries := fmupd s e' (ll_entries l)\<rparr>)"
    by (auto simp: lim_ok_def entries_ok_def)
  have "flying (fmupd s e' (ll_entries l)) = flying (ll_entries l)"
    using e' e(2) by (auto simp: flying_def)
  then show "lim_frame l (l\<lparr>ll_entries := fmupd s e' (ll_entries l)\<rparr>)" by (simp add: lim_frame_def)
qed

lemma recordFailure_unfold:
  assumes "recordFailureLocked ord now s l = l'"
  obtains (stay) l1 where "l' = l1" "l1 = l \<or> (fmlookup (ll_entries l) s = None \<and> makeRoomLocked ord now 1 [] l = (l1, False))"
  | (update) l1 e where "l' = l1\<lparr>ll_entries := fmupd s (count_failure (ll_maxFailures l1) (ll_lockoutDuration l1) now e) (ll_entries l1)\<rparr>"
      "\<not> le_inFlight e"
      "(fmlookup (ll_entries l) s = Some e \<and> l1 = l) \<or>
       (fmlookup (ll_entries l) s = None \<and> e = zero_entry \<and> makeRoomLocked ord now 1 [] l = (l1, True))"
proof (cases "fmlookup (ll_entries l) s")
  case None
  obtain l1 b where mr: "makeRoomLocked ord now 1 [] l = (l1, b)" by fastforce
  show thesis
  proof (cases b)
    case True
    have "l' = l1\<lparr>ll_entries := fmupd s (count_failure (ll_maxFailures l1) (ll_lockoutDuration l1) now zero_entry) (ll_entries l1)\<rparr>"
      using assms mr None True by (simp add: recordFailureLocked_def zero_entry_def)
    then show thesis by (rule update) (use mr None True in \<open>simp_all add: zero_entry_def\<close>)
  next
    case False
    with assms mr None show thesis by (intro stay [of l1]) (simp_all add: recordFailureLocked_def)
  qed
next
  case (Some e)
  show thesis
  proof (cases "le_inFlight e")
    case True
    with assms Some show thesis by (intro stay [of l]) (simp_all add: recordFailureLocked_def)
  next
    case False
    with assms Some show thesis by (intro update [of l e]) (simp_all add: recordFailureLocked_def)
  qed
qed

lemma recordFailure_ok:
  assumes ok: "lim_ok l"
  shows "lim_ok (recordFailureLocked ord now s l) \<and> lim_frame l (recordFailureLocked ord now s l)"
proof (cases rule: recordFailure_unfold [OF refl, of ord now s l, case_names stay update])
  case (stay l1)
  from stay(2) have "lim_ok l1 \<and> lim_frame l l1"
    using ok makeRoom_ok [of ord now 1 "[]" l l1 False] by auto
  then show ?thesis by (simp only: stay(1))
next
  case (update l1 e)
  have fr: "lim_ok l1" "lim_frame l l1" using update(3) ok makeRoom_ok [of ord now 1 "[]" l l1 True] by auto
  have none: "fmlookup (ll_entries l1) s = None \<Longrightarrow> int (fcard (fmdom (ll_entries l1))) + 1 \<le> ll_maxEntries l1"
    using update(3) makeRoom_props(3,7) [of ord now 1 "[]" l l1 True] by auto
  have some: "\<not> le_inFlight x" if "fmlookup (ll_entries l1) s = Some x" for x
    using update(2,3) that makeRoom_props(1) [of ord now 1 "[]" l l1 True] shrinksD(1) [of now "ll_entries l" "ll_entries l1" s x]
    by auto
  have fe: "0 \<le> le_failures e" "0 < ll_maxFailures l1"
    using update(3) ok fr by (auto simp: lim_ok_def entries_ok_def zero_entry_def)
  note cf = count_failure_ok [OF fe, of "ll_lockoutDuration l1" now]
  have "\<not> le_inFlight (count_failure (ll_maxFailures l1) (ll_lockoutDuration l1) now e)" using cf(3) update(2) by simp
  note up = entry_update_ok [OF fr(1) none some cf(1) cf(2) this]
  show ?thesis unfolding update(1) using up(1) lim_frame_trans [OF fr(2) up(2)] by simp
qed

lemma fold_record_ok:
  "lim_ok l \<Longrightarrow> lim_ok (fold (recordFailureLocked ord now) ss l) \<and> lim_frame l (fold (recordFailureLocked ord now) ss l)"
proof (induction ss arbitrary: l)
  case Nil
  then show ?case by (simp add: lim_frame_def)
next
  case (Cons a ss)
  note r = recordFailure_ok [OF Cons.prems, of ord now a]
  from Cons.IH [of "recordFailureLocked ord now a l"] r show ?case by (auto intro: lim_frame_trans)
qed

lemma RecordFailure_ok:
  assumes "lim_ok l"
  shows "lim_ok (RecordFailure ord now ss l)" "lim_frame l (RecordFailure ord now ss l)"
proof -
  let ?l = "fold (recordFailureLocked ord now) (uniqueLoginScopes ss) (pruneExpiredLocked now l)"
  note f = fold_record_ok [OF prune_ok [OF assms], of ord now "uniqueLoginScopes ss" now]
  have "lim_frame l ?l" using lim_frame_trans [OF prune_lim_frame] f by blast
  with f assms show "lim_ok (RecordFailure ord now ss l)" "lim_frame l (RecordFailure ord now ss l)"
    by (simp_all add: RecordFailure_def Let_def)
qed

lemma Clear_ok:
  assumes "lim_ok l"
  shows "lim_ok (Clear now ss l)" "lim_frame l (Clear now ss l)"
proof -
  let ?es = "fold clear_scope (uniqueLoginScopes ss) (ll_entries l)"
  have sub: "fmlookup (ll_entries l) s = Some e" if "fmlookup ?es s = Some e" for s e
    using that by (auto simp: fold_clear_lookup clear_scope_def split: if_splits option.splits)
  have keep: "fmlookup ?es s = Some e" if "fmlookup (ll_entries l) s = Some e" "le_inFlight e" for s e
    using that by (auto simp: fold_clear_lookup clear_scope_def)
  have "flying ?es = flying (ll_entries l)" using sub keep unfolding flying_def by blast
  moreover have "fcard (fmdom ?es) \<le> fcard (fmdom (ll_entries l))" using sub by (intro dom_card_mono) blast
  moreover have "entries_ok (ll_maxFailures l) ?es" using assms sub unfolding lim_ok_def entries_ok_def by blast
  ultimately show "lim_ok (Clear now ss l)" "lim_frame l (Clear now ss l)"
    using assms by (auto simp: Clear_def Let_def lim_ok_def lim_frame_def)
qed

text \<open>What a call of \<open>Reserve\<close> does, by its outcome.\<close>

lemma Reserve_cases:
  assumes "Reserve ord now ss l = (l', r)"
  obtains (trivial) "uniqueLoginScopes ss = []" "l' = l" "r = Some \<lparr>la_scopes = [], la_done = False\<rparr>"
  | (refused) "uniqueLoginScopes ss \<noteq> []" "r = None"
      "l' = pruneExpiredLocked now l \<or>
       (\<exists>b. scopesAvailableLocked (uniqueLoginScopes ss) (uniqueLoginScopes ss) now (pruneExpiredLocked now l) = (l', b)) \<or>
       (\<exists>l1 n b. scopesAvailableLocked (uniqueLoginScopes ss) (uniqueLoginScopes ss) now (pruneExpiredLocked now l) = (l1, b) \<and>
          makeRoomLocked ord now n (uniqueLoginScopes ss) l1 = (l', False))"
  | (granted) l1 l2 where "uniqueLoginScopes ss \<noteq> []" "ll_inFlight l < ll_maxConcurrentKDF l"
      "scopesAvailableLocked (uniqueLoginScopes ss) (uniqueLoginScopes ss) now (pruneExpiredLocked now l) = (l1, True)"
      "makeRoomLocked ord now (int (length (filter (\<lambda>s. fmlookup (ll_entries l1) s = None) (uniqueLoginScopes ss))))
         (uniqueLoginScopes ss) l1 = (l2, True)"
      "l' = l2\<lparr>ll_entries := fold mark_inflight (uniqueLoginScopes ss) (ll_entries l2), ll_inFlight := ll_inFlight l2 + 1\<rparr>"
      "r = Some \<lparr>la_scopes = uniqueLoginScopes ss, la_done = False\<rparr>"
proof (cases "uniqueLoginScopes ss = []")
  case True
  with assms show thesis by (intro trivial) (simp_all add: Reserve_def Let_def)
next
  case ne: False
  let ?ss = "uniqueLoginScopes ss"
  obtain l1 b where sa: "scopesAvailableLocked ?ss ?ss now (pruneExpiredLocked now l) = (l1, b)" by fastforce
  let ?n = "int (length (filter (\<lambda>s. fmlookup (ll_entries l1) s = None) ?ss))"
  obtain l2 c where mr: "makeRoomLocked ord now ?n ?ss l1 = (l2, c)" by fastforce
  show thesis
  proof (cases "ll_inFlight l < ll_maxConcurrentKDF l")
    case False
    then have "l' = pruneExpiredLocked now l" "r = None" using assms ne by (simp_all add: Reserve_def Let_def)
    with ne show thesis by (intro refused) simp_all
  next
    case lt: True
    show thesis
    proof (cases "b \<and> c")
      case True
      then have bc: "b = True" "c = True" by simp_all
      have "l' = l2\<lparr>ll_entries := fold mark_inflight ?ss (ll_entries l2), ll_inFlight := ll_inFlight l2 + 1\<rparr>"
        "r = Some \<lparr>la_scopes = ?ss, la_done = False\<rparr>"
        using assms ne lt sa mr by (simp_all add: Reserve_def Let_def bc)
      then show thesis by (rule granted [OF ne lt sa [unfolded bc] mr [unfolded bc]])
    next
      case False
      then consider "b = False" | "b = True" "c = False" by auto
      then show thesis
      proof cases
        case 1
        then have "l' = l1" "r = None" using assms ne lt sa by (simp_all add: Reserve_def Let_def)
        with ne sa show thesis by (intro refused) auto
      next
        case 2
        then have "l' = l2" "r = None" using assms ne lt sa mr by (simp_all add: Reserve_def Let_def)
        moreover have "makeRoomLocked ord now ?n ?ss l1 = (l2, False)" using mr 2 by simp
        ultimately show thesis using ne sa by (intro refused) blast+
      qed
    qed
  qed
qed

lemma Reserve_refused_ok:
  assumes "Reserve ord now ss l = (l', None)" "lim_ok l"
  shows "lim_ok l' \<and> lim_frame l l'"
proof (cases rule: Reserve_cases [OF assms(1), case_names trivial refused granted])
  case refused
  note p = prune_ok [OF assms(2), of now]
  have fr: "lim_frame l x" if "lim_frame (pruneExpiredLocked now l) x" for x
    by (rule lim_frame_trans [OF prune_lim_frame that])
  from refused(3) consider "l' = pruneExpiredLocked now l"
    | b where "scopesAvailableLocked (uniqueLoginScopes ss) (uniqueLoginScopes ss) now (pruneExpiredLocked now l) = (l', b)"
    | l1 n b where "scopesAvailableLocked (uniqueLoginScopes ss) (uniqueLoginScopes ss) now (pruneExpiredLocked now l) = (l1, b)"
        "makeRoomLocked ord now n (uniqueLoginScopes ss) l1 = (l', False)"
    by blast
  then show ?thesis
  proof cases
    case 1
    with p show ?thesis by (simp add: prune_lim_frame)
  next
    case 2
    with available_ok [OF 2 p] fr show ?thesis by blast
  next
    case 3
    note a = available_ok [OF 3(1) p]
    from makeRoom_ok [OF 3(2) a(1)] lim_frame_trans [OF a(2)] fr show ?thesis by blast
  qed
qed auto

lemma Reserve_granted_props:
  assumes sa: "scopesAvailableLocked ss ss now (pruneExpiredLocked now l) = (l1, True)"
    and mr: "makeRoomLocked ord now (int (length (filter (\<lambda>s. fmlookup (ll_entries l1) s = None) ss))) ss l1 = (l2, True)"
    and ok: "lim_ok l" and d: "distinct ss"
  shows "lim_ok (l2\<lparr>ll_entries := fold mark_inflight ss (ll_entries l2), ll_inFlight := n\<rparr>)"
    "flying (fold mark_inflight ss (ll_entries l2)) = flying (ll_entries l) \<union> set ss"
    "set ss \<inter> flying (ll_entries l) = {}"
    "lim_frame l l2"
proof -
  let ?p = "pruneExpiredLocked now l"
  note pa = available_ok [OF sa prune_ok [OF ok]]
  note pm = makeRoom_ok [OF mr pa(1)]
  show fr: "lim_frame l l2" by (rule lim_frame_trans [OF lim_frame_trans [OF prune_lim_frame pa(2)] pm(2)])
  have same: "fmlookup (ll_entries l2) s = fmlookup (ll_entries ?p) s" if "s \<in> set ss" for s
    using makeRoom_props(2) [OF mr that] scopesAvailable_props(1) [OF sa] by simp
  have unp: "\<not> pinned now e \<and> le_lockedUntil e = None" if "s \<in> set ss" "fmlookup (ll_entries l2) s = Some e" for s e
    using scopesAvailable_props(7) [OF sa] prune_unpinned [of now l s e] same that by auto
  have fl2: "flying (ll_entries l2) = flying (ll_entries l)" using fr by (simp add: lim_frame_def)
  show "set ss \<inter> flying (ll_entries l) = {}"
    using unp unfolding fl2 [symmetric] by (auto simp: flying_def pinned_def)
  show "flying (fold mark_inflight ss (ll_entries l2)) = flying (ll_entries l) \<union> set ss"
    unfolding fl2 [symmetric] by (auto simp: flying_def fold_mark_lookup split: if_splits)
  have "filter (\<lambda>s. fmlookup (ll_entries l2) s = None) ss = filter (\<lambda>s. fmlookup (ll_entries l1) s = None) ss"
    using same scopesAvailable_props(1) [OF sa] by (intro filter_cong) auto
  with makeRoom_props(3) [OF mr] fold_mark_card [OF d, of "ll_entries l2"] makeRoom_props(7) [OF mr]
  have card: "int (fcard (fmdom (fold mark_inflight ss (ll_entries l2)))) \<le> ll_maxEntries l2" by simp
  have "entries_ok (ll_maxFailures l2) (fold mark_inflight ss (ll_entries l2))"
    unfolding entries_ok_def
  proof (intro allI impI)
    fix s e assume e: "fmlookup (fold mark_inflight ss (ll_entries l2)) s = Some e"
    show "0 \<le> le_failures e \<and> le_failures e < ll_maxFailures l2 \<and> (le_inFlight e \<longrightarrow> le_lockedUntil e = None)"
      using e pm(1) unp [of s]
      by (cases "fmlookup (ll_entries l2) s") (auto simp: fold_mark_lookup lim_ok_def entries_ok_def zero_entry_def split: if_splits)
  qed
  with card pm(1) show "lim_ok (l2\<lparr>ll_entries := fold mark_inflight ss (ll_entries l2), ll_inFlight := n\<rparr>)"
    by (simp add: lim_ok_def)
qed

lemma Reserve_step_inv:
  assumes inv: "ll_inv y"
  shows "ll_inv (ll_step (LReserve ord now ss) y)"
proof -
  obtain l' r where res: "Reserve ord now ss (sy_lim y) = (l', r)" by fastforce
  have ok: "lim_ok (sy_lim y)" using inv by (simp add: ll_inv_def)
  show ?thesis
  proof (cases rule: Reserve_cases [OF res, case_names trivial refused granted])
    case trivial
    then show ?thesis using inv res by (simp add: ll_inv_def owned_append active_def)
  next
    case refused
    then show ?thesis using Reserve_refused_ok [OF res [unfolded refused(2)] ok] inv res
      by (simp add: ll_inv_frame)
  next
    case (granted l1 l2)
    note g = Reserve_granted_props [OF granted(3,4) ok unique_props(2)]
    have act: "active \<lparr>la_scopes = uniqueLoginScopes ss, la_done = False\<rparr>" using granted(1) by (simp add: active_def)
    have fr: "ll_inFlight l2 = ll_inFlight (sy_lim y)" "ll_maxConcurrentKDF l2 = ll_maxConcurrentKDF (sy_lim y)"
      using g(4) by (simp_all add: lim_frame_def)
    have own: "set (owned (sy_atts y)) = flying (ll_entries (sy_lim y))" "distinct (owned (sy_atts y))"
      using inv by (simp_all add: ll_inv_def)
    have "ll_step (LReserve ord now ss) y =
      y\<lparr>sy_lim := l', sy_atts := sy_atts y @ [\<lparr>la_scopes = uniqueLoginScopes ss, la_done = False\<rparr>]\<rparr>"
      using res granted(6) by simp
    moreover have "lim_ok l'" unfolding granted(5) by (rule g(1))
    moreover have "set (owned (sy_atts y) @ uniqueLoginScopes ss) = flying (ll_entries l')"
      using g(2) own(1) by (simp add: granted(5) Un_commute)
    moreover have "distinct (owned (sy_atts y) @ uniqueLoginScopes ss)"
      using g(3) own by (simp add: Int_commute)
    ultimately show ?thesis using inv fr granted(2)
      by (simp add: ll_inv_def owned_append act granted(5))
  qed
qed

lemma finish_props:
  assumes ok: "lim_ok l" and a: "active a" "distinct (la_scopes a)" "set (la_scopes a) \<subseteq> flying (ll_entries l)"
    and fin: "finish now res a l = (l', a')"
  shows "lim_ok l'" "flying (ll_entries l') = flying (ll_entries l) - set (la_scopes a)"
    "ll_inFlight l' = ll_inFlight l - 1" "ll_maxConcurrentKDF l' = ll_maxConcurrentKDF l"
    "a' = a\<lparr>la_done := True\<rparr>" "ll_maxFailures l' = ll_maxFailures l"
    "\<And>s. s \<notin> set (la_scopes a) \<Longrightarrow> fmlookup (ll_entries l') s = fmlookup (ll_entries (pruneExpiredLocked now l)) s"
proof -
  let ?p = "pruneExpiredLocked now l" and ?ss = "la_scopes a"
  let ?es = "fold (finish_scope ?p now res) ?ss (ll_entries ?p)"
  have pfl: "flying (ll_entries ?p) = flying (ll_entries l)" by (rule shrinks_flying [OF prune_shrinks])
  have fl: "\<exists>e. fmlookup (ll_entries ?p) s = Some e \<and> le_inFlight e" if "s \<in> set ?ss" for s
    using that a(3) unfolding pfl [symmetric] by (auto simp: flying_def)
  have ne: "\<not> la_done a" "?ss \<noteq> []" using a(1) by (simp_all add: active_def)
  then obtain s where s: "s \<in> set ?ss" by (cases ?ss) auto
  with fl [OF s] have fi: "\<exists>s \<in> set ?ss. case fmlookup (ll_entries ?p) s of Some e \<Rightarrow> le_inFlight e | None \<Rightarrow> False"
    by (intro bexI [of _ s]) auto
  have l': "l' = clearOverflowWhenEvictableLocked now (?p\<lparr>ll_entries := ?es, ll_inFlight := ll_inFlight ?p - 1\<rparr>)"
    "a' = a\<lparr>la_done := True\<rparr>"
    using fin ne fi by (simp_all add: finish_def Let_def)
  note look = fold_finish_lookup [OF a(2), of ?p now res "ll_entries ?p"]
  show "a' = a\<lparr>la_done := True\<rparr>" by (rule l'(2))
  show "ll_inFlight l' = ll_inFlight l - 1" "ll_maxConcurrentKDF l' = ll_maxConcurrentKDF l" "ll_maxFailures l' = ll_maxFailures l"
    by (simp_all add: l'(1))
  show "s \<notin> set ?ss \<Longrightarrow> fmlookup (ll_entries l') s = fmlookup (ll_entries ?p) s" for s
    by (simp add: l'(1) look)
  have new: "\<exists>e0. fmlookup (ll_entries ?p) s = Some e0 \<and> (s \<in> set ?ss \<longrightarrow> \<not> le_inFlight e \<and>
      (e = e0\<lparr>le_inFlight := False\<rparr> \<or> e = count_failure (ll_maxFailures ?p) (ll_lockoutDuration ?p) now (e0\<lparr>le_inFlight := False\<rparr>))) \<and>
      (s \<notin> set ?ss \<longrightarrow> e = e0)"
    if "fmlookup ?es s = Some e" for s e
  proof (cases "s \<in> set ?ss")
    case True
    with fl obtain e0 where "fmlookup (ll_entries ?p) s = Some e0" "le_inFlight e0" by blast
    with finish_scope_lookup [of "ll_entries ?p" s e0 ?p now res e] that True show ?thesis by (simp add: look)
  next
    case False
    with that show ?thesis by (simp add: look)
  qed
  have "flying ?es = flying (ll_entries ?p) - set ?ss"
  proof (intro equalityI subsetI)
    fix s assume "s \<in> flying ?es"
    then obtain e where e: "fmlookup ?es s = Some e" "le_inFlight e" by (auto simp: flying_def)
    from new [OF e(1)] e(2) show "s \<in> flying (ll_entries ?p) - set ?ss" by (auto simp: flying_def)
  next
    fix s assume "s \<in> flying (ll_entries ?p) - set ?ss"
    then show "s \<in> flying ?es" by (auto simp: flying_def look)
  qed
  then show "flying (ll_entries l') = flying (ll_entries l) - set ?ss" by (simp add: l'(1) pfl)
  have pok: "lim_ok ?p" by (rule prune_ok [OF ok])
  have "fcard (fmdom ?es) \<le> fcard (fmdom (ll_entries ?p))"
    by (rule dom_card_mono) (use new in blast)
  moreover have "entries_ok (ll_maxFailures ?p) ?es"
    unfolding entries_ok_def
  proof (intro allI impI)
    fix s e assume "fmlookup ?es s = Some e"
    from new [OF this] obtain e0 where e0: "fmlookup (ll_entries ?p) s = Some e0"
      "s \<in> set ?ss \<longrightarrow> \<not> le_inFlight e \<and>
        (e = e0\<lparr>le_inFlight := False\<rparr> \<or> e = count_failure (ll_maxFailures ?p) (ll_lockoutDuration ?p) now (e0\<lparr>le_inFlight := False\<rparr>))"
      "s \<notin> set ?ss \<longrightarrow> e = e0" by blast
    have b: "0 \<le> le_failures e0" "le_failures e0 < ll_maxFailures ?p" "le_inFlight e0 \<longrightarrow> le_lockedUntil e0 = None" "0 < ll_maxFailures ?p"
      using pok e0(1) by (auto simp: lim_ok_def entries_ok_def)
    then show "0 \<le> le_failures e \<and> le_failures e < ll_maxFailures ?p \<and> (le_inFlight e \<longrightarrow> le_lockedUntil e = None)"
      using e0(2,3) count_failure_ok [of "e0\<lparr>le_inFlight := False\<rparr>" "ll_maxFailures ?p" "ll_lockoutDuration ?p" now]
      by (cases "s \<in> set ?ss") auto
  qed
  ultimately show "lim_ok l'" using pok by (simp add: l'(1) lim_ok_def)
qed

lemma Finish_step_inv:
  assumes inv: "ll_inv y"
  shows "ll_inv (ll_step (LFinish now i res) y)"
proof (cases "i < length (sy_atts y)")
  case False
  with inv show ?thesis by simp
next
  case i: True
  let ?a = "sy_atts y ! i"
  obtain l' a' where fin: "finish now res ?a (sy_lim y) = (l', a')" by fastforce
  have st: "ll_step (LFinish now i res) y = y\<lparr>sy_lim := l', sy_atts := (sy_atts y)[i := a']\<rparr>" using i fin by simp
  have own: "set (owned (sy_atts y)) = flying (ll_entries (sy_lim y))" "distinct (owned (sy_atts y))" "lim_ok (sy_lim y)"
    using inv by (simp_all add: ll_inv_def)
  show ?thesis
  proof (cases "active ?a")
    case True
    note u = owned_update [OF i True, of a']
    have nact: "\<not> active (?a\<lparr>la_done := True\<rparr>)" by (simp add: active_def)
    note u = owned_update [OF i True nact]
    have sub: "set (la_scopes ?a) \<subseteq> flying (ll_entries (sy_lim y))" using u(5) own(1) by simp
    note f = finish_props [OF own(3) True u(4) [OF own(2)] sub fin]
    show ?thesis unfolding st f(5) using f(1-4) u(1) [OF own(2)] u(2) [OF own(2)] u(3,6) own inv
      by (simp add: ll_inv_def of_nat_diff Suc_le_eq)
  next
    case False
    then have "l' = sy_lim y" "\<not> active a'" using fin by (auto simp: finish_def active_def split: if_splits)
    with owned_same [OF i False, of a'] inv show ?thesis unfolding st by (simp add: ll_inv_def)
  qed
qed

lemma ll_step_inv:
  assumes "ll_inv y"
  shows "ll_inv (ll_step p y)"
proof (cases p)
  case (LReserve ord now ss)
  then show ?thesis using Reserve_step_inv [OF assms] by simp
next
  case (LFinish now i res)
  then show ?thesis using Finish_step_inv [OF assms] by simp
next
  case (LAllowed now s)
  then show ?thesis using Allowed_ok assms by (simp add: ll_inv_frame ll_inv_def [of y])
next
  case (LRecordFailure ord now ss)
  then show ?thesis using RecordFailure_ok assms by (simp add: ll_inv_frame ll_inv_def [of y])
next
  case (LClear now ss)
  then show ?thesis using Clear_ok assms by (simp add: ll_inv_frame ll_inv_def [of y])
qed

definition ll_start :: "limiter_config \<Rightarrow> llsys" where
  "ll_start c = \<lparr>sy_lim = NewLoginFailureLimiter c, sy_atts = []\<rparr>"

lemma ll_start_inv: "ll_inv (ll_start c)"
  by (simp add: ll_start_def ll_inv_def NewLoginFailureLimiter_def lim_ok_def entries_ok_def or_default_def
      owned_def flying_def fcard_fempty)

interpretation ll: invariant_system ll_step "\<lambda>p y. True" ll_inv "ll_start c"
  by unfold_locales (simp_all add: ll_start_inv ll_step_inv)

lemma ops_ok_True [simp]: "ops_ok step (\<lambda>p y. True) ps s"
  by (induction ps arbitrary: s) auto

subsection \<open>Lockouts hold\<close>

definition locked :: "scope \<Rightarrow> time \<Rightarrow> entries \<Rightarrow> bool" where
  "locked s t es =
     (case fmlookup es s of
        None \<Rightarrow> False
      | Some e \<Rightarrow> (case le_lockedUntil e of None \<Rightarrow> False | Some u \<Rightarrow> t \<le> u))"

lemma lockedE:
  assumes "locked s t es"
  obtains e u where "fmlookup es s = Some e" "le_lockedUntil e = Some u" "t \<le> u"
  using assms by (auto simp: locked_def split: option.splits)

lemma locked_pinned: "locked s t es \<Longrightarrow> now < t \<Longrightarrow> \<exists>e. fmlookup es s = Some e \<and> pinned now e"
  by (auto simp: pinned_def time_after_def elim!: lockedE)

lemma locked_shrinks:
  assumes "locked s t es" "now < t" "shrinks now es es'"
  shows "fmlookup es' s = fmlookup es s" "locked s t es'"
proof -
  from locked_pinned [OF assms(1,2)] show "fmlookup es' s = fmlookup es s"
    using shrinksD(2) [OF assms(3)] by auto
  with assms(1) show "locked s t es'" by (simp add: locked_def)
qed

lemma locked_unavailable:
  assumes "locked s t (ll_entries l)" "now < t" "s \<in> set ss"
  shows "snd (scopesAvailableLocked ss prot now l) = False"
proof -
  obtain l' b where sa: "scopesAvailableLocked ss prot now l = (l', b)" by fastforce
  from locked_pinned [OF assms(1,2)] obtain e where "fmlookup (ll_entries l) s = Some e" "pinned now e" by blast
  with scopesAvailable_props(7) [OF sa _ assms(3)] sa show ?thesis by (cases b) auto
qed

lemma locked_not_flying: "lim_ok l \<Longrightarrow> locked s t (ll_entries l) \<Longrightarrow> s \<notin> flying (ll_entries l)"
  by (auto simp: lim_ok_def entries_ok_def flying_def elim!: lockedE)

lemma locked_prune: "locked s t (ll_entries l) \<Longrightarrow> now < t \<Longrightarrow> locked s t (ll_entries (pruneExpiredLocked now l))"
  by (rule locked_shrinks(2) [OF _ _ prune_shrinks])

lemma locked_available:
  "locked s t (ll_entries l) \<Longrightarrow> scopesAvailableLocked ss prot now l = (l', b) \<Longrightarrow> locked s t (ll_entries l')"
  by (simp add: scopesAvailable_props(1))

lemma locked_makeRoom:
  "locked s t (ll_entries l) \<Longrightarrow> now < t \<Longrightarrow> makeRoomLocked ord now n prot l = (l', b) \<Longrightarrow> locked s t (ll_entries l')"
  by (rule locked_shrinks(2) [OF _ _ makeRoom_props(1)])

lemma Reserve_locked_refused:
  assumes "locked s t (ll_entries l)" "now < t" "s \<in> set ss" "s \<noteq> []"
  shows "snd (Reserve ord now ss l) = None"
proof -
  obtain l' r where res: "Reserve ord now ss l = (l', r)" by fastforce
  have "s \<in> set (uniqueLoginScopes ss)" using assms by simp
  note no = locked_unavailable [OF locked_prune [OF assms(1,2)] assms(2) this, of "uniqueLoginScopes ss"]
  show ?thesis
  proof (cases rule: Reserve_cases [OF res, case_names trivial refused granted])
    case trivial
    with assms(3,4) have "s \<in> {}" by (metis (mono_tags, lifting) mem_Collect_eq set_empty unique_props(1))
    then show ?thesis by simp
  next
    case refused
    with res show ?thesis by simp
  next
    case granted
    with no show ?thesis by simp
  qed
qed

lemma locked_Reserve:
  assumes l: "locked s t (ll_entries l)" and now: "now < t" and res: "Reserve ord now ss l = (l', r)"
  shows "locked s t (ll_entries l')"
proof (cases rule: Reserve_cases [OF res, case_names trivial refused granted])
  case trivial
  with l show ?thesis by simp
next
  case refused
  note p = locked_prune [OF l now]
  from refused(3) p locked_available [OF p] locked_makeRoom [OF locked_available [OF p] now] show ?thesis by blast
next
  case (granted l1 l2)
  note p = locked_prune [OF l now]
  have "s \<notin> set (uniqueLoginScopes ss)"
    using locked_unavailable [OF p now, of "uniqueLoginScopes ss" "uniqueLoginScopes ss"] granted(3) by auto
  moreover have "locked s t (ll_entries l2)" by (rule locked_makeRoom [OF locked_available [OF p granted(3)] now granted(4)])
  ultimately show ?thesis by (auto simp: granted(5) locked_def fold_mark_lookup)
qed

lemma locked_record:
  assumes l: "locked s t (ll_entries l)" and now: "now < t" "t \<le> now + ll_lockoutDuration l"
  shows "locked s t (ll_entries (recordFailureLocked ord now x l))"
proof (cases rule: recordFailure_unfold [OF refl, of ord now x l, case_names stay update])
  case (stay l1)
  then show ?thesis using l locked_makeRoom [OF l now(1), of ord 1 "[]" l1 False] by auto
next
  case (update l1 e)
  have l1: "locked s t (ll_entries l1)" "ll_lockoutDuration l1 = ll_lockoutDuration l"
    using update(3) l locked_makeRoom [OF l now(1), of ord 1 "[]" l1 True] makeRoom_props(6) [of ord now 1 "[]" l l1 True] by auto
  show ?thesis
  proof (cases "s = x")
    case True
    with update(3) l have e: "fmlookup (ll_entries l) s = Some e" by (auto simp: locked_def)
    with l l1(2) now True show ?thesis by (auto simp: update(1) locked_def count_failure_def split: option.splits)
  next
    case False
    with l1(1) show ?thesis by (simp add: update(1) locked_def)
  qed
qed

lemma locked_fold_record:
  assumes "locked s t (ll_entries l)" "now < t" "t \<le> now + ll_lockoutDuration l" "lim_ok l"
  shows "locked s t (ll_entries (fold (recordFailureLocked ord now) ss l))"
  using assms
proof (induction ss arbitrary: l)
  case Nil
  then show ?case by simp
next
  case (Cons a ss)
  note fr = recordFailure_ok [OF Cons.prems(4), of ord now a]
  show ?case using Cons.IH [OF locked_record [OF Cons.prems(1-3)]] Cons.prems fr by (simp add: lim_frame_def)
qed

lemma locked_RecordFailure:
  assumes "locked s t (ll_entries l)" "now < t" "t \<le> now + ll_lockoutDuration l" "lim_ok l"
  shows "locked s t (ll_entries (RecordFailure ord now ss l))"
  using assms locked_fold_record [OF locked_prune [OF assms(1,2)] assms(2) _ prune_ok [OF assms(4)], of ord "uniqueLoginScopes ss"]
  by (simp add: RecordFailure_def Let_def)

lemma locked_Allowed:
  assumes "locked s t (ll_entries l)" "now < t"
  shows "locked s t (ll_entries (fst (Allowed now x l)))"
proof -
  obtain l' b where sa: "scopesAvailableLocked [x] [x] now (pruneExpiredLocked now l) = (l', b)" by fastforce
  from locked_available [OF locked_prune [OF assms] sa] locked_prune [OF assms] sa assms(1) show ?thesis
    by (simp add: Allowed_def Let_def)
qed

fun op_time :: "ll_op \<Rightarrow> time" where
  "op_time (LReserve ord now ss) = now"
| "op_time (LFinish now i res) = now"
| "op_time (LAllowed now s) = now"
| "op_time (LRecordFailure ord now ss) = now"
| "op_time (LClear now ss) = now"

fun op_clears :: "scope \<Rightarrow> ll_op \<Rightarrow> bool" where
  "op_clears s (LClear now ss) = (s \<in> set ss)"
| "op_clears s _ = False"

lemma locked_step:
  assumes inv: "ll_inv y" and l: "locked s t (ll_entries (sy_lim y))"
    and now: "op_time p < t" "t \<le> op_time p + ll_lockoutDuration (sy_lim y)" and nc: "\<not> op_clears s p"
  shows "locked s t (ll_entries (sy_lim (ll_step p y)))"
proof (cases p)
  case (LReserve ord n ss)
  obtain l' r where res: "Reserve ord n ss (sy_lim y) = (l', r)" by fastforce
  from locked_Reserve [OF l _ res] now LReserve res show ?thesis by (cases r) simp_all
next
  case (LFinish n i res)
  show ?thesis
  proof (cases "i < length (sy_atts y) \<and> active (sy_atts y ! i)")
    case True
    let ?a = "sy_atts y ! i"
    obtain l' a' where fin: "finish n res ?a (sy_lim y) = (l', a')" by fastforce
    have own: "set (owned (sy_atts y)) = flying (ll_entries (sy_lim y))" "distinct (owned (sy_atts y))" "lim_ok (sy_lim y)"
      using inv by (simp_all add: ll_inv_def)
    note u = owned_update [OF conjunct1 [OF True] conjunct2 [OF True], of "?a\<lparr>la_done := True\<rparr>"]
    have sub: "set (la_scopes ?a) \<subseteq> flying (ll_entries (sy_lim y))" "distinct (la_scopes ?a)"
      using u own by (simp_all add: active_def)
    then have "s \<notin> set (la_scopes ?a)" using locked_not_flying [OF own(3) l] by blast
    from finish_props(7) [OF own(3) conjunct2 [OF True] sub(2,1) fin this]
    have "fmlookup (ll_entries l') s = fmlookup (ll_entries (pruneExpiredLocked n (sy_lim y))) s" .
    with locked_prune [OF l, of n] now LFinish True fin show ?thesis by (simp add: locked_def)
  next
    case False
    then have "sy_lim (ll_step p y) = sy_lim y" using LFinish by (auto simp: finish_def active_def split: prod.splits)
    with l show ?thesis by simp
  qed
next
  case (LAllowed n x)
  with locked_Allowed [OF l] now show ?thesis by simp
next
  case (LRecordFailure ord n ss)
  with locked_RecordFailure [OF l] now inv show ?thesis by (simp add: ll_inv_def)
next
  case (LClear n ss)
  with nc have "s \<notin> set ss" by simp
  with LClear l show ?thesis by (simp add: Clear_def Let_def locked_def fold_clear_lookup)
qed

lemma lockout_kept: "ll_inv y \<Longrightarrow> ll_lockoutDuration (sy_lim (ll_step p y)) = ll_lockoutDuration (sy_lim y)"
proof (cases p)
  case (LReserve ord n ss)
  assume inv: "ll_inv y"
  then have ok: "lim_ok (sy_lim y)" by (simp add: ll_inv_def)
  obtain l' r where res: "Reserve ord n ss (sy_lim y) = (l', r)" by fastforce
  have "ll_lockoutDuration l' = ll_lockoutDuration (sy_lim y)"
  proof (cases r)
    case None
    with Reserve_refused_ok [OF _ ok, of ord n ss l'] res show ?thesis by (simp add: lim_frame_def)
  next
    case (Some a)
    show ?thesis
    proof (cases rule: Reserve_cases [OF res, case_names trivial refused granted])
      case (granted l1 l2)
      with makeRoom_props(6) [OF granted(4)] scopesAvailable_props(4) [OF granted(3)] show ?thesis by simp
    qed (use Some in simp_all)
  qed
  then show ?thesis using LReserve res by (cases r) simp_all
next
  case (LFinish n i res)
  then show ?thesis by (auto simp: finish_def Let_def split: prod.splits)
next
  case (LAllowed n x)
  assume "ll_inv y"
  with LAllowed Allowed_ok(2) [of "sy_lim y" n x] show ?thesis by (simp add: ll_inv_def lim_frame_def)
next
  case (LRecordFailure ord n ss)
  assume "ll_inv y"
  with LRecordFailure RecordFailure_ok(2) [of "sy_lim y" ord n ss] show ?thesis by (simp add: ll_inv_def lim_frame_def)
next
  case (LClear n ss)
  then show ?thesis by (simp add: Clear_def Let_def)
qed

lemma locked_run:
  assumes "ll_inv y" "locked s t (ll_entries (sy_lim y))"
    "\<And>p. p \<in> set ps \<Longrightarrow> op_time p < t \<and> t \<le> op_time p + ll_lockoutDuration (sy_lim y) \<and> \<not> op_clears s p"
  shows "locked s t (ll_entries (sy_lim (run_ops ll_step ps y)))"
  using assms
proof (induction ps arbitrary: y)
  case Nil
  then show ?case by simp
next
  case (Cons p ps)
  have p: "op_time p < t" "t \<le> op_time p + ll_lockoutDuration (sy_lim y)" "\<not> op_clears s p"
    using Cons.prems(3) [of p] by simp_all
  show ?case
    using Cons.IH [OF ll_step_inv [OF Cons.prems(1)] locked_step [OF Cons.prems(1,2) p]] Cons.prems(3)
    by (simp add: lockout_kept [OF Cons.prems(1)])
qed

subsection \<open>Failures lock\<close>

text \<open>A login that reserves the scope, verifies, and fails; None when the reservation is refused.\<close>

definition failed_login :: "(entries \<Rightarrow> scope list) \<Rightarrow> scope \<Rightarrow> time \<times> time \<Rightarrow> limiter \<Rightarrow> limiter option" where
  "failed_login ord s t l =
     (case Reserve ord (fst t) [s] l of
        (l1, None) \<Rightarrow> None
      | (l1, Some a) \<Rightarrow> Some (fst (Fail (snd t) a l1)))"

fun failed_logins :: "(entries \<Rightarrow> scope list) \<Rightarrow> scope \<Rightarrow> (time \<times> time) list \<Rightarrow> limiter \<Rightarrow> limiter option" where
  "failed_logins ord s [] l = Some l"
| "failed_logins ord s (t # ts) l =
     (case failed_login ord s t l of None \<Rightarrow> None | Some l1 \<Rightarrow> failed_logins ord s ts l1)"

text \<open>Each reservation comes after the previous failure and before that failure is forgotten.\<close>

fun spaced :: "int \<Rightarrow> time \<Rightarrow> (time \<times> time) list \<Rightarrow> bool" where
  "spaced ttl prev [] = True"
| "spaced ttl prev (t # ts) = (prev \<le> fst t \<and> fst t - prev < ttl \<and> spaced ttl (snd t) ts)"

lemma prune_lookup:
  "fmlookup (ll_entries (pruneExpiredLocked now l)) s =
     (case fmlookup (ll_entries l) s of None \<Rightarrow> None | Some e \<Rightarrow> if expired now (ll_failureTTL l) e then None else Some e)"
  by (auto simp: pruneExpiredLocked_def split: option.splits)

lemma available_single:
  assumes "\<And>e. fmlookup (ll_entries l) s = Some e \<Longrightarrow> \<not> pinned now e"
    "fmlookup (ll_entries l) s = None \<Longrightarrow> int (fcard (fmdom (ll_entries l))) < ll_maxEntries l"
  shows "\<exists>x. scopesAvailableLocked [s] [s] now l = (l\<lparr>ll_overflowUntil := x\<rparr>, True)"
proof (cases "fmlookup (ll_entries l) s")
  case (Some e)
  then show ?thesis using assms by (intro exI [of _ "ll_overflowUntil l"]) (simp add: scopesAvailableLocked_def)
next
  case None
  then show ?thesis using assms(2) by (intro exI [of _ None]) (simp add: scopesAvailableLocked_def)
qed

lemma makeRoom_enough:
  "int (fcard (fmdom (ll_entries l))) + n \<le> ll_maxEntries l \<Longrightarrow> makeRoomLocked ord now n prot l = (l, True)"
  by (simp add: makeRoomLocked_def make_room_loop.simps)

lemma Reserve_single:
  fixes l :: limiter and t1 :: time
  defines "p \<equiv> pruneExpiredLocked t1 l"
  assumes ok: "lim_ok l" and few: "ll_inFlight l < ll_maxConcurrentKDF l" and s: "s \<noteq> []"
    and un: "\<And>e. fmlookup (ll_entries p) s = Some e \<Longrightarrow> \<not> pinned t1 e"
    and room: "fmlookup (ll_entries p) s = None \<Longrightarrow> int (fcard (fmdom (ll_entries p))) < ll_maxEntries l"
  shows "\<exists>x. Reserve ord t1 [s] l =
    (p\<lparr>ll_overflowUntil := x, ll_entries := mark_inflight s (ll_entries p), ll_inFlight := ll_inFlight l + 1\<rparr>,
     Some \<lparr>la_scopes = [s], la_done = False\<rparr>)"
proof -
  have lim: "ll_maxEntries p = ll_maxEntries l" "ll_inFlight p = ll_inFlight l" "ll_maxConcurrentKDF p = ll_maxConcurrentKDF l"
    by (simp_all add: p_def)
  obtain x where sa: "scopesAvailableLocked [s] [s] t1 p = (p\<lparr>ll_overflowUntil := x\<rparr>, True)"
    using available_single [of p s t1] un room lim(1) by auto
  have u: "uniqueLoginScopes [s] = [s]" using s by (simp add: uniqueLoginScopes_def)
  have card: "int (fcard (fmdom (ll_entries p))) + int (length (filter (\<lambda>s. fmlookup (ll_entries p) s = None) [s])) \<le> ll_maxEntries p"
    using room prune_ok [OF ok, of t1] lim by (auto simp: p_def [symmetric] lim_ok_def)
  then have mr: "makeRoomLocked ord t1 (int (length (filter (\<lambda>s. fmlookup (ll_entries p) s = None) [s]))) [s] (p\<lparr>ll_overflowUntil := x\<rparr>) =
    (p\<lparr>ll_overflowUntil := x\<rparr>, True)" by (intro makeRoom_enough) simp
  show ?thesis using few sa mr unfolding Reserve_def u Let_def p_def [symmetric]
    by (intro exI [of _ x], cases "fmlookup (ll_entries p) s") (simp_all add: lim)
qed

lemma Fail_single:
  assumes e: "fmlookup (ll_entries l) s = Some e" "le_inFlight e"
  shows "fmlookup (ll_entries (fst (Fail t2 \<lparr>la_scopes = [s], la_done = False\<rparr> l))) s =
      Some (count_failure (ll_maxFailures l) (ll_lockoutDuration l) t2 (e\<lparr>le_inFlight := False\<rparr>))"
    "ll_inFlight (fst (Fail t2 \<lparr>la_scopes = [s], la_done = False\<rparr> l)) = ll_inFlight l - 1"
    "ll_failureTTL (fst (Fail t2 \<lparr>la_scopes = [s], la_done = False\<rparr> l)) = ll_failureTTL l"
    "ll_maxFailures (fst (Fail t2 \<lparr>la_scopes = [s], la_done = False\<rparr> l)) = ll_maxFailures l"
    "ll_lockoutDuration (fst (Fail t2 \<lparr>la_scopes = [s], la_done = False\<rparr> l)) = ll_lockoutDuration l"
    "ll_maxConcurrentKDF (fst (Fail t2 \<lparr>la_scopes = [s], la_done = False\<rparr> l)) = ll_maxConcurrentKDF l"
proof -
  have "fmlookup (ll_entries (pruneExpiredLocked t2 l)) s = Some e"
    using e by (simp add: prune_lookup expired_def pinned_def)
  with e(2) show "fmlookup (ll_entries (fst (Fail t2 \<lparr>la_scopes = [s], la_done = False\<rparr> l))) s =
      Some (count_failure (ll_maxFailures l) (ll_lockoutDuration l) t2 (e\<lparr>le_inFlight := False\<rparr>))"
    "ll_inFlight (fst (Fail t2 \<lparr>la_scopes = [s], la_done = False\<rparr> l)) = ll_inFlight l - 1"
    by (simp_all add: Fail_def finish_def Let_def finish_scope_def)
qed (simp_all add: Fail_def finish_def Let_def pruneExpiredLocked_def clearOverflowWhenEvictableLocked_def)

text \<open>One failed login of a scope that is neither locked nor under verification.\<close>

lemma failed_login_step:
  fixes l :: limiter
  assumes ok: "lim_ok l" and few: "ll_inFlight l < ll_maxConcurrentKDF l" and s: "s \<noteq> []"
    and e: "(fmlookup (ll_entries l) s = None \<and> e = zero_entry \<and> int (fcard (fmdom (ll_entries l))) < ll_maxEntries l) \<or>
      (fmlookup (ll_entries l) s = Some e \<and> \<not> le_inFlight e \<and> le_lockedUntil e = None \<and> \<not> expired t1 (ll_failureTTL l) e)"
  obtains l' where "failed_login ord s (t1, t2) l = Some l'"
    "fmlookup (ll_entries l') s = Some (count_failure (ll_maxFailures l) (ll_lockoutDuration l) t2 e)"
    "ll_inFlight l' = ll_inFlight l" "ll_failureTTL l' = ll_failureTTL l" "ll_maxFailures l' = ll_maxFailures l"
    "ll_lockoutDuration l' = ll_lockoutDuration l" "ll_maxConcurrentKDF l' = ll_maxConcurrentKDF l"
proof -
  let ?p = "pruneExpiredLocked t1 l" and ?a = "\<lparr>la_scopes = [s], la_done = False\<rparr>"
  have "fcard (fmdom (ll_entries ?p)) \<le> fcard (fmdom (ll_entries l))" by (rule shrinks_card [OF prune_shrinks])
  then obtain x where res: "Reserve ord t1 [s] l =
      (?p\<lparr>ll_overflowUntil := x, ll_entries := mark_inflight s (ll_entries ?p), ll_inFlight := ll_inFlight l + 1\<rparr>, Some ?a)"
    using Reserve_single [OF ok few s, of t1 ord] e by (force simp: prune_lookup pinned_def time_after_def split: if_splits)
  let ?l1 = "?p\<lparr>ll_overflowUntil := x, ll_entries := mark_inflight s (ll_entries ?p), ll_inFlight := ll_inFlight l + 1\<rparr>"
  have e1: "fmlookup (ll_entries ?l1) s = Some (e\<lparr>le_inFlight := True\<rparr>)" "le_inFlight (e\<lparr>le_inFlight := True\<rparr>)"
    using e by (auto simp: prune_lookup mark_inflight_def)
  have "\<not> le_inFlight e" using e by (auto simp: zero_entry_def)
  then have e2: "e\<lparr>le_inFlight := True, le_inFlight := False\<rparr> = e" by (cases e) simp
  have ttl: "ll_failureTTL ?p = ll_failureTTL l" by (simp add: pruneExpiredLocked_def clearOverflowWhenEvictableLocked_def)
  note f = Fail_single [OF e1, of t2]
  show thesis
    by (rule that [of "fst (Fail t2 ?a ?l1)"])
      (use res f e2 ttl in \<open>simp_all add: failed_login_def\<close>)
qed

lemma failed_login_ok:
  assumes "lim_ok l" "failed_login ord s t l = Some l'"
  shows "lim_ok l'"
proof -
  obtain l1 a where res: "Reserve ord (fst t) [s] l = (l1, Some a)" and l': "l' = fst (Fail (snd t) a l1)"
    using assms(2) by (auto simp: failed_login_def split: prod.splits option.splits)
  show ?thesis
  proof (cases rule: Reserve_cases [OF res, case_names trivial refused granted])
    case trivial
    then show ?thesis using assms(1) by (simp add: l' Fail_def finish_def)
  next
    case refused
    then show ?thesis by simp
  next
    case (granted l1' l2)
    note g = Reserve_granted_props [OF granted(3,4) assms(1) unique_props(2)]
    have a: "active a" "distinct (la_scopes a)" using granted(1,6) by (simp_all add: active_def)
    have "set (la_scopes a) \<subseteq> flying (ll_entries l1)" using g(2) granted(5,6) by simp
    moreover have "lim_ok l1" using g(1) granted(5) by simp
    ultimately show ?thesis using finish_props(1) [OF _ a] unfolding l' Fail_def by (metis prod.collapse)
  qed
qed

lemma failed_logins_lock:
  assumes "lim_ok l" "ll_inFlight l < ll_maxConcurrentKDF l" "s \<noteq> []"
    "fmlookup (ll_entries l) s = Some e" "\<not> le_inFlight e" "le_lockedUntil e = None" "le_lastFailure e = Some prev"
    "spaced (ll_failureTTL l) prev ts" "ts \<noteq> []" "int (length ts) = ll_maxFailures l - le_failures e"
  shows "\<exists>l'. failed_logins ord s ts l = Some l' \<and> fmlookup (ll_entries l') s =
    Some \<lparr>le_failures = 0, le_lastFailure = Some (snd (last ts)),
      le_lockedUntil = Some (snd (last ts) + ll_lockoutDuration l), le_inFlight = False\<rparr>"
  using assms
proof (induction ts arbitrary: l e prev)
  case Nil
  then show ?case by simp
next
  case (Cons t ts)
  obtain t1 t2 where t: "t = (t1, t2)" by fastforce
  have nexp: "\<not> expired t1 (ll_failureTTL l) e"
    using Cons.prems(6,7,8) by (simp add: expired_def t)
  obtain l' where l': "failed_login ord s (t1, t2) l = Some l'"
    "fmlookup (ll_entries l') s = Some (count_failure (ll_maxFailures l) (ll_lockoutDuration l) t2 e)"
    "ll_inFlight l' = ll_inFlight l" "ll_failureTTL l' = ll_failureTTL l" "ll_maxFailures l' = ll_maxFailures l"
    "ll_lockoutDuration l' = ll_lockoutDuration l" "ll_maxConcurrentKDF l' = ll_maxConcurrentKDF l"
    using failed_login_step [OF Cons.prems(1-3), of e t1 ord t2] Cons.prems(4-6) nexp by blast
  show ?case
  proof (cases "ts = []")
    case True
    with Cons.prems(10) have "le_failures e + 1 = ll_maxFailures l" by simp
    then have "count_failure (ll_maxFailures l) (ll_lockoutDuration l) t2 e =
      \<lparr>le_failures = 0, le_lastFailure = Some t2, le_lockedUntil = Some (t2 + ll_lockoutDuration l), le_inFlight = False\<rparr>"
      using Cons.prems(5) by (cases e) (simp add: count_failure_def)
    with True l' t show ?thesis by simp
  next
    case False
    let ?e = "e\<lparr>le_failures := le_failures e + 1, le_lastFailure := Some t2\<rparr>"
    have "0 < int (length ts)" using False by simp
    then have "le_failures e + 1 < ll_maxFailures l" using Cons.prems(10) by (simp only: length_Cons)
    then have "fmlookup (ll_entries l') s = Some ?e" using l'(2) by (simp add: count_failure_def)
    from Cons.IH [OF failed_login_ok [OF Cons.prems(1) l'(1)] _ Cons.prems(3) this] l' Cons.prems False
    show ?thesis by (simp add: t)
  qed
qed

subsection \<open>Properties\<close>

text \<open>C21: in every run of the limiter from its constructor (reservations, finished, failed and cancelled
  attempts, compatibility checks, recorded failures, clears, with arbitrary clock readings and map
  iteration orders) the map stays within \<open>maxEntries\<close>; the number of running verifications is the
  number of open attempts and at most \<open>maxConcurrentKDF\<close>; the scopes marked in flight are exactly
  those of the open attempts, and no two open attempts share a scope.\<close>

theorem limiter_runs_consistent:
  fixes ps :: "ll_op list" and c :: limiter_config
  defines "y \<equiv> run_ops ll_step ps (ll_start c)"
  shows "ll_inv y \<and>
    int (fcard (fmdom (ll_entries (sy_lim y)))) \<le> ll_maxEntries (sy_lim y) \<and>
    int (length (filter active (sy_atts y))) \<le> ll_maxConcurrentKDF (sy_lim y) \<and>
    distinct (owned (sy_atts y)) \<and> set (owned (sy_atts y)) = flying (ll_entries (sy_lim y))"
proof -
  have "ll_inv y" unfolding y_def by (rule ll.run_start_inv) simp
  then show ?thesis by (simp add: ll_inv_def lim_ok_def)
qed

text \<open>C22: an active lockout cannot be bypassed.  When a scope is locked until \<open>t\<close> in a reachable state,
  then after any further operations with clock readings in the lockout window (none of them an
  explicit clear of that scope) every reservation that names the scope before \<open>t\<close> is refused, and
  \<open>Allowed\<close> says no, whatever the capacity pressure was in between.\<close>

theorem lockout_enforced:
  fixes c :: limiter_config
  assumes "locked s t (ll_entries (sy_lim (run_ops ll_step ps (ll_start c))))" and "s \<noteq> []" and "s \<in> set ss" and "now < t"
    and "\<And>q. q \<in> set qs \<Longrightarrow> op_time q < t \<and>
      t \<le> op_time q + ll_lockoutDuration (sy_lim (run_ops ll_step ps (ll_start c))) \<and> \<not> op_clears s q"
  shows "snd (Reserve ord now ss (sy_lim (run_ops ll_step (ps @ qs) (ll_start c)))) = None \<and>
    \<not> snd (Allowed now s (sy_lim (run_ops ll_step (ps @ qs) (ll_start c))))"
proof -
  let ?y = "run_ops ll_step ps (ll_start c)"
  have "ll_inv ?y" by (rule ll.run_start_inv) simp
  from locked_run [OF this assms(1,5)] have l: "locked s t (ll_entries (sy_lim (run_ops ll_step (ps @ qs) (ll_start c))))"
    by (simp add: run_ops_append)
  from locked_unavailable [OF locked_prune [OF l assms(4)] assms(4), of "[s]" "[s]"]
  show ?thesis using Reserve_locked_refused [OF l assms(4,3,2)] assms(2) by (simp add: Allowed_def Let_def)
qed

theorem lockout_enforced_witness:
  fixes c :: limiter_config
  defines "c \<equiv> \<lparr>lc_MaxFailures = 1, lc_LockoutDuration = 100, lc_FailureTTL = 100, lc_MaxEntries = 2, lc_MaxConcurrentKDF = 1\<rparr>"
  shows "snd (Reserve (\<lambda>es. []) 60 [''a''] (sy_lim (run_ops ll_step
      ([LRecordFailure (\<lambda>es. []) 0 [''a'']] @ [LReserve (\<lambda>es. []) 50 [''b''], LRecordFailure (\<lambda>es. []) 55 [''c'']]) (ll_start c)))) = None \<and>
    \<not> snd (Allowed 60 ''a'' (sy_lim (run_ops ll_step
      ([LRecordFailure (\<lambda>es. []) 0 [''a'']] @ [LReserve (\<lambda>es. []) 50 [''b''], LRecordFailure (\<lambda>es. []) 55 [''c'']]) (ll_start c))))"
proof (rule lockout_enforced [of "''a''" 100])
  have y: "ll_entries (sy_lim (run_ops ll_step [LRecordFailure (\<lambda>es. []) 0 [''a'']] (ll_start c))) =
      fmupd ''a'' \<lparr>le_failures = 0, le_lastFailure = Some 0, le_lockedUntil = Some 100, le_inFlight = False\<rparr> fmempty"
    "ll_lockoutDuration (sy_lim (run_ops ll_step [LRecordFailure (\<lambda>es. []) 0 [''a'']] (ll_start c))) = 100"
    by (simp_all add: ll_start_def c_def NewLoginFailureLimiter_def or_default_def RecordFailure_def uniqueLoginScopes_def
        recordFailureLocked_def pruneExpiredLocked_def clearOverflowWhenEvictableLocked_def makeRoomLocked_def
        make_room_loop.simps fcard_fempty count_failure_def zero_entry_def)
  show "locked ''a'' 100 (ll_entries (sy_lim (run_ops ll_step [LRecordFailure (\<lambda>es. []) 0 [''a'']] (ll_start c))))"
    unfolding y by (simp add: locked_def)
  show "op_time q < 100 \<and> 100 \<le> op_time q + ll_lockoutDuration (sy_lim (run_ops ll_step [LRecordFailure (\<lambda>es. []) 0 [''a'']] (ll_start c))) \<and>
      \<not> op_clears ''a'' q" if "q \<in> set [LReserve (\<lambda>es. []) 50 [''b''], LRecordFailure (\<lambda>es. []) 55 [''c'']]" for q
    using that unfolding y by auto
qed simp_all

text \<open>C23: failures lock.  In a reachable state with a free verification slot and room for one entry, for a
  scope with no history, \<open>maxFailures\<close> failed logins in a row, each reserved before the previous
  failure is forgotten, are all admitted and leave the scope locked for \<open>lockoutDuration\<close> after the
  last failure.\<close>

theorem repeated_failures_lock:
  fixes ps :: "ll_op list" and c :: limiter_config
  defines "l \<equiv> sy_lim (run_ops ll_step ps (ll_start c))"
  assumes "ll_inFlight l < ll_maxConcurrentKDF l" and "int (fcard (fmdom (ll_entries l))) < ll_maxEntries l"
    and "s \<noteq> []" and "fmlookup (ll_entries l) s = None"
    and "int (length ts) = ll_maxFailures l" and "spaced (ll_failureTTL l) (fst (hd ts)) ts"
  shows "\<exists>l'. failed_logins ord s ts l = Some l' \<and> fmlookup (ll_entries l') s =
    Some \<lparr>le_failures = 0, le_lastFailure = Some (snd (last ts)),
      le_lockedUntil = Some (snd (last ts) + ll_lockoutDuration l), le_inFlight = False\<rparr>"
proof -
  have "ll_inv (run_ops ll_step ps (ll_start c))" by (rule ll.run_start_inv) simp
  then have ok: "lim_ok l" by (simp add: ll_inv_def l_def)
  then have "0 < ll_maxFailures l" by (simp add: lim_ok_def)
  with assms(6) obtain t1 t2 us where ts: "ts = (t1, t2) # us" by (cases ts) auto
  obtain l' where l': "failed_login ord s (t1, t2) l = Some l'"
    "fmlookup (ll_entries l') s = Some (count_failure (ll_maxFailures l) (ll_lockoutDuration l) t2 zero_entry)"
    "ll_inFlight l' = ll_inFlight l" "ll_failureTTL l' = ll_failureTTL l" "ll_maxFailures l' = ll_maxFailures l"
    "ll_lockoutDuration l' = ll_lockoutDuration l" "ll_maxConcurrentKDF l' = ll_maxConcurrentKDF l"
    using failed_login_step [OF ok assms(2,4), of zero_entry t1 ord t2] assms(3,5) by blast
  show ?thesis
  proof (cases "us = []")
    case True
    with assms(6) ts have "ll_maxFailures l = 1" by simp
    with l' True show ?thesis by (simp add: ts count_failure_def zero_entry_def)
  next
    case False
    then have "0 < int (length us)" by simp
    then have "1 < ll_maxFailures l" using assms(6) unfolding ts by (simp only: length_Cons)
    then have "fmlookup (ll_entries l') s = Some (zero_entry\<lparr>le_failures := 1, le_lastFailure := Some t2\<rparr>)"
      using l'(2) by (simp add: count_failure_def zero_entry_def)
    from failed_logins_lock [OF failed_login_ok [OF ok l'(1)] _ assms(4) this, of t2 us ord] l' assms False
    show ?thesis by (simp add: ts zero_entry_def)
  qed
qed

theorem repeated_failures_lock_witness:
  fixes c :: limiter_config
  defines "c \<equiv> \<lparr>lc_MaxFailures = 2, lc_LockoutDuration = 100, lc_FailureTTL = 50, lc_MaxEntries = 2, lc_MaxConcurrentKDF = 1\<rparr>"
  shows "\<exists>l'. failed_logins (\<lambda>es. []) ''a'' [(0, 1), (40, 41)] (sy_lim (run_ops ll_step [] (ll_start c))) = Some l' \<and>
    fmlookup (ll_entries l') ''a'' =
    Some \<lparr>le_failures = 0, le_lastFailure = Some (snd (last [(0, 1), (40, 41) :: time \<times> time])),
      le_lockedUntil = Some (snd (last [(0, 1), (40, 41) :: time \<times> time]) + ll_lockoutDuration (sy_lim (run_ops ll_step [] (ll_start c)))), le_inFlight = False\<rparr>"
  by (rule repeated_failures_lock) (simp_all add: c_def ll_start_def NewLoginFailureLimiter_def or_default_def fcard_fempty)

end
