(* ===== verification/Server_Auth.thy ===== *)
theory Server_Auth
  imports Auth_Service Login_Limiter Perm_Checker Perm_Store
begin

text \<open>
  The login handshake of a control connection (\<^verbatim>\<open>internal/server/handlers.go\<close>), the default group
  (\<^verbatim>\<open>internal/server/groups.go\<close>) and the gates of the dispatcher (\<^verbatim>\<open>internal/server/tcp.go\<close>).

  A handler runs on the record \<open>auth_world\<close>: the connection and the shared components it touches.  What it
  learns from outside is its argument \<open>auth_in\<close>: the clock readings in program order, which queries and which
  writes fail, the random challenge and guest id.  A handler returns whether its error is nil; what it writes
  and the calls into the broadcaster, the spool and the PII store are appended to \<open>aw_out\<close> in order.  Logging,
  metrics and the byte counters of the connection are left out.
\<close>

subsection \<open>State and environment\<close>

datatype auth_query = AQBan | AQCredential | AQKey | AQUser | AQUserAgain | AQBind | AQPubUser | AQGroups | AQAssign
  | AQRules | AQAccepted | AQRulesAgain | AQAccept

record auth_in =
  ai_now :: "nat \<Rightarrow> time"
  ai_ord :: "entries \<Rightarrow> scope list"
  ai_fails :: "auth_query \<Rightarrow> bool"
  ai_pfails :: "db_query \<Rightarrow> bool"
  ai_write :: "nat \<Rightarrow> bool"
  ai_challenge :: "byte list option"
  ai_guestID :: string
  ai_announce :: bool

record auth_deps =
  dp_auth :: bool
  dp_crypto :: auth_crypto
  dp_serverHash :: string
  dp_verifyServer :: "(string \<Rightarrow> string \<Rightarrow> bool) option"
  dp_lastIP :: bool
  dp_groups :: bool
  dp_memberGroup :: int
  dp_guestGroup :: int
  dp_perms :: bool
  dp_state :: bool
  dp_broadcast :: bool
  dp_rules :: bool

datatype auth_out =
    OError err_code
  | OAuthFail string
  | OChallenge "byte list"
  | OAuthOK client_id string string bool
  | OLastIP user_id string
  | ORegister client_id
  | OSnapshot
  | OSubscriptions
  | OAnnouncement
  | OSpooled user_id
  | ORules string string
  | OJoined client_id string string
  | OPong

text \<open>\<open>aw_host\<close> is the host part of the remote address \<open>aw_addr\<close>, if it can be split; \<open>aw_taken\<close> the names of the
  other authenticated connections.\<close>

record auth_world =
  aw_client :: tcp_client
  aw_host :: "string option"
  aw_addr :: string
  aw_taken :: "string list"
  aw_lim :: limiter
  aw_users :: auth_db
  aw_rules :: rules_db
  aw_perm :: perm_db
  aw_loader :: loader
  aw_mgr :: manager
  aw_out :: "auth_out list"

record Authenticate =
  am_Username :: string
  am_Password :: string
  am_ServerPassword :: string
  am_Nickname :: string
  am_Anonymous :: bool
  am_PublicKey :: string
  am_X25519PublicKey :: string

record AuthSignature =
  sm_UniqueID :: string
  sm_PublicKey :: string
  sm_Signature :: "byte list"
  sm_X25519PublicKey :: string

definition remoteIP :: "auth_world \<Rightarrow> string" where
  "remoteIP w = (case aw_host w of None \<Rightarrow> aw_addr w | Some h \<Rightarrow> h)"

definition emit :: "auth_out \<Rightarrow> auth_world \<Rightarrow> auth_world" where
  "emit x w = w\<lparr>aw_out := aw_out w @ [x]\<rparr>"

definition writeMessage :: "auth_in \<Rightarrow> nat \<Rightarrow> auth_out \<Rightarrow> auth_world \<Rightarrow> bool \<times> auth_world" where
  "writeMessage i k x w = (ai_write i k, emit x w)"

definition authFail :: "auth_in \<Rightarrow> string \<Rightarrow> auth_world \<Rightarrow> bool \<times> auth_world" where
  "authFail i reason = writeMessage i 0 (OAuthFail reason)"

definition sendErrorFor :: "auth_in \<Rightarrow> err_code \<Rightarrow> auth_world \<Rightarrow> bool \<times> auth_world" where
  "sendErrorFor i code = writeMessage i 0 (OError code)"

definition with_client :: "(tcp_client \<Rightarrow> tcp_client) \<Rightarrow> auth_world \<Rightarrow> auth_world" where
  "with_client f w = w\<lparr>aw_client := f (aw_client w)\<rparr>"

subsection \<open>Limiter scopes\<close>

text \<open>\<open>strings.ToLower\<close> on the ASCII sources the server builds.\<close>

definition lower :: "char \<Rightarrow> char" where
  "lower c = (let n = (of_char c :: nat) in if 65 \<le> n \<and> n \<le> 90 then char_of (n + 32) else c)"

definition LoginFailureScope :: "auth_crypto \<Rightarrow> string \<Rightarrow> string \<Rightarrow> scope" where
  "LoginFailureScope cr source who =
     hex_encode (ac_sha256 cr (str_bytes (map lower (TrimSpace source) @ [CHR 0x00] @ who)))"

text \<open>
  A reservation with its deferred \<open>Cancel\<close>: a refusal is answered at once, otherwise the body runs with the
  attempt, hands it back, and what it has not finished is cancelled.
\<close>

definition with_attempt ::
  "auth_in \<Rightarrow> nat \<Rightarrow> scope list \<Rightarrow> (login_attempt \<Rightarrow> auth_world \<Rightarrow> login_attempt \<times> bool \<times> auth_world) \<Rightarrow> auth_world \<Rightarrow> bool \<times> auth_world" where
  "with_attempt i k scopes body w =
     (case Reserve (ai_ord i) (ai_now i k) scopes (aw_lim w) of
        (l, None) \<Rightarrow> authFail i ''too many failed logins, try again later'' (w\<lparr>aw_lim := l\<rparr>)
      | (l, Some a) \<Rightarrow>
          (case body a (w\<lparr>aw_lim := l\<rparr>) of
             (a', r, w') \<Rightarrow> (r, w'\<lparr>aw_lim := fst (Cancel (ai_now i (k + 2)) a' (aw_lim w'))\<rparr>)))"

text \<open>The three ways a body ends: it fails the attempt and answers, it succeeds and goes on, it leaves it to \<open>Cancel\<close>.\<close>

definition fail_with :: "auth_in \<Rightarrow> nat \<Rightarrow> string \<Rightarrow> login_attempt \<Rightarrow> auth_world \<Rightarrow> login_attempt \<times> bool \<times> auth_world" where
  "fail_with i k reason a w =
     (case Fail (ai_now i (k + 1)) a (aw_lim w) of (l, a') \<Rightarrow> (a', authFail i reason (w\<lparr>aw_lim := l\<rparr>)))"

definition succeed_with ::
  "auth_in \<Rightarrow> nat \<Rightarrow> scope list \<Rightarrow> (auth_world \<Rightarrow> bool \<times> auth_world) \<Rightarrow> login_attempt \<Rightarrow> auth_world \<Rightarrow> login_attempt \<times> bool \<times> auth_world" where
  "succeed_with i k ok cont a w =
     (case Succeed (ai_now i (k + 1)) ok a (aw_lim w) of (l, a') \<Rightarrow> (a', cont (w\<lparr>aw_lim := l\<rparr>)))"

definition leave_with :: "auth_in \<Rightarrow> string \<Rightarrow> login_attempt \<Rightarrow> auth_world \<Rightarrow> login_attempt \<times> bool \<times> auth_world" where
  "leave_with i reason a w = (a, authFail i reason w)"

subsection \<open>Bans and names\<close>

definition banRejectReason :: "auth_deps \<Rightarrow> auth_in \<Rightarrow> string \<Rightarrow> auth_world \<Rightarrow> auth_error + string" where
  "banRejectReason d i uniqueID w =
     (case LookupActiveBan (ai_fails i AQBan) (ai_now i 0) uniqueID (remoteIP w) (aw_users w) of
        Inl e \<Rightarrow> Inl e
      | Inr None \<Rightarrow> Inr []
      | Inr (Some b) \<Rightarrow>
          Inr (case br_reason b of None \<Rightarrow> ''banned'' | Some r \<Rightarrow> if r = [] then ''banned'' else ''banned: '' @ r))"

text \<open>The names tried are \<open>nickname#2\<close>, \<open>nickname#3\<close> and so on.\<close>

definition nick_candidate :: "string \<Rightarrow> nat \<Rightarrow> string" where
  "nick_candidate nickname n = nickname @ ''#'' @ dec n"

lemma nick_candidate_inj: "nick_candidate s m = nick_candidate s n \<Longrightarrow> m = n"
  by (metis nick_candidate_def append_same_eq same_append_eq undec_dec)

lemma finite_candidates: "finite {j. nick_candidate s j \<in> set taken}"
proof (rule finite_imageD [of "nick_candidate s"])
  show "finite (nick_candidate s ` {j. nick_candidate s j \<in> set taken})" by (rule finite_subset [of _ "set taken"]) auto
  show "inj_on (nick_candidate s) {j. nick_candidate s j \<in> set taken}" by (auto intro: inj_onI nick_candidate_inj)
qed

function dedupe_loop :: "string list \<Rightarrow> string \<Rightarrow> nat \<Rightarrow> string" where
  "dedupe_loop taken nickname n =
     (if nick_candidate nickname n \<notin> set taken then nick_candidate nickname n else dedupe_loop taken nickname (n + 1))"
  by pat_completeness auto

termination dedupe_loop
proof (relation "measure (\<lambda>(taken, s, n). card {j. j \<ge> n \<and> nick_candidate s j \<in> set taken})", goal_cases)
  case 1
  show ?case by simp
next
  case (2 taken s n)
  have "finite {j. j \<ge> n \<and> nick_candidate s j \<in> set taken}"
    by (rule finite_subset [OF _ finite_candidates [of s taken]]) auto
  moreover have "{j. j \<ge> n + 1 \<and> nick_candidate s j \<in> set taken} \<subset> {j. j \<ge> n \<and> nick_candidate s j \<in> set taken}"
    (is "?A \<subset> ?B")
  proof
    show "?A \<subseteq> ?B" by auto
    show "?A \<noteq> ?B" using 2 by (metis (mono_tags, lifting) mem_Collect_eq not_less_eq_eq order_refl Suc_eq_plus1)
  qed
  ultimately show ?case by (simp add: psubset_card_mono)
qed

declare dedupe_loop.simps [simp del]

definition dedupeNickname :: "string \<Rightarrow> auth_world \<Rightarrow> string" where
  "dedupeNickname nickname w =
     (if nickname \<notin> set (aw_taken w) then nickname else dedupe_loop (aw_taken w) nickname 2)"

subsection \<open>The shared tail of every login\<close>

definition perm_deps_of :: "auth_deps \<Rightarrow> auth_in \<Rightarrow> auth_world \<Rightarrow> perm_deps" where
  "perm_deps_of d i w =
     \<lparr>pd_wired = dp_perms d, pd_ask = (\<lambda>q. if ai_pfails i q then RError else answer (aw_perm w) q), pd_now = ai_now i 10,
      pd_guestGroup = dp_guestGroup d, pd_state = (if dp_state d then Some (aw_mgr w) else None)\<rparr>"

definition assignDefaultGroup :: "auth_deps \<Rightarrow> auth_in \<Rightarrow> auth_world \<Rightarrow> auth_world" where
  "assignDefaultGroup d i w =
     (if \<not> dp_groups d \<or> tc_UserID (aw_client w) = 0 \<or> dp_memberGroup d = 0 then w
      else if ai_fails i AQGroups \<or> UserGroupIDs (tc_UserID (aw_client w)) (aw_perm w) \<noteq> [] then w
      else w\<lparr>aw_perm :=
        snd (AssignServerGroup \<lparr>se_fails = (\<lambda>_. ai_fails i AQAssign), se_newid = 0\<rparr> (dp_memberGroup d) (tc_UserID (aw_client w)) (aw_perm w))\<rparr>)"

record authIdentity =
  id_uniqueID :: string
  id_nickname :: string
  id_userID :: user_id
  id_admin :: bool
  id_guest :: bool

definition state_client :: "auth_in \<Rightarrow> authIdentity \<Rightarrow> tcp_client \<Rightarrow> bool \<Rightarrow> client" where
  "state_client i x c isbot =
     \<lparr>c_ClientID = tc_ID c, c_UniqueID = id_uniqueID x, c_Nickname = id_nickname x, c_ChannelID = 0, c_IsSpeaking = False,
      c_PrioritySpeaker = False, c_Status = [], c_StatusMessage = [], c_E2EPublicKey = [], c_IsBot = isbot,
      c_ConnectedAt = ai_now i 8, c_Conn = Some 0, c_Metadata = fmempty\<rparr>"

definition register_state :: "auth_deps \<Rightarrow> auth_in \<Rightarrow> authIdentity \<Rightarrow> auth_world \<Rightarrow> auth_world" where
  "register_state d i x w =
     (if \<not> dp_state d then w
      else
        (case ClientIsBot (perm_deps_of d i w) (aw_client w) (aw_loader w) of
           (isbot, l) \<Rightarrow>
             let m = AddClient (Some (state_client i x (aw_client w) isbot)) (aw_mgr w);
                 key = tc_x25519Key (aw_client w)
             in w\<lparr>aw_loader := l, aw_mgr := (if key \<noteq> [] then SetE2EPublicKey (tc_ID (aw_client w)) key m else m)\<rparr>))"

definition sendPendingRules :: "auth_deps \<Rightarrow> auth_in \<Rightarrow> bool \<Rightarrow> auth_world \<Rightarrow> auth_world" where
  "sendPendingRules d i guest w =
     (if \<not> dp_rules d then w
      else
        (case (if guest then map_option (\<lambda>(t, h). (t, h, h \<noteq> [])) (rules_Text (dp_crypto d) (ai_fails i AQRules) (aw_rules w))
               else rules_Pending (dp_crypto d) (ai_fails i AQRules) (ai_fails i AQAccepted) (tc_UserID (aw_client w)) (aw_rules w)) of
           None \<Rightarrow> w
         | Some (text, hash, pending) \<Rightarrow>
             if \<not> pending then w else emit (ORules text hash) (with_client (setRulesPending True) w)))"

text \<open>The identity and the registrations, up to the reply.\<close>

definition enter :: "auth_deps \<Rightarrow> auth_in \<Rightarrow> authIdentity \<Rightarrow> auth_world \<Rightarrow> auth_world" where
  "enter d i x w0 =
     (let w1 = with_client (setIdentity (id_uniqueID x) (id_nickname x) (id_userID x) (id_admin x)) w0;
          w2 = (if \<not> id_guest x \<and> dp_lastIP d then (case aw_host w1 of Some h \<Rightarrow> emit (OLastIP (id_userID x) h) w1 | None \<Rightarrow> w1) else w1);
          w3 = (if \<not> id_guest x then assignDefaultGroup d i w2 else w2);
          w4 = register_state d i x w3
      in if dp_broadcast d then emit (ORegister (tc_ID (aw_client w4))) w4 else w4)"

definition finishAuth :: "auth_deps \<Rightarrow> auth_in \<Rightarrow> authIdentity \<Rightarrow> auth_world \<Rightarrow> bool \<times> auth_world" where
  "finishAuth d i x w0 =
     (let w = enter d i x w0; cid = tc_ID (aw_client w)
      in (case writeMessage i 1 (OAuthOK cid (id_uniqueID x) (id_nickname x) (id_admin x)) w of
            (False, w1) \<Rightarrow> (False, w1)
          | (True, w1) \<Rightarrow>
              (case (if dp_state d then writeMessage i 2 OSnapshot w1 else (True, w1)) of
                 (False, w2) \<Rightarrow> (False, w2)
               | (True, w2) \<Rightarrow>
                   (case writeMessage i 3 OSubscriptions w2 of
                      (False, w3) \<Rightarrow> (False, w3)
                    | (True, w3) \<Rightarrow>
                        let w4 = (if ai_announce i then emit OAnnouncement w3 else w3);
                            w5 = (if \<not> id_guest x then emit (OSpooled (id_userID x)) w4 else w4);
                            w6 = sendPendingRules d i (id_guest x) w5
                        in (True, if dp_broadcast d then emit (OJoined cid (id_uniqueID x) (id_nickname x)) w6 else w6)))))"

definition completeAuthForUser :: "auth_deps \<Rightarrow> auth_in \<Rightarrow> User \<Rightarrow> auth_world \<Rightarrow> bool \<times> auth_world" where
  "completeAuthForUser d i u =
     finishAuth d i \<lparr>id_uniqueID = usr_UniqueID u, id_nickname = (if usr_Nickname u = [] then usr_UniqueID u else usr_Nickname u),
       id_userID = usr_ID u, id_admin = usr_IsAdmin u, id_guest = False\<rparr>"

definition completeAuth :: "auth_deps \<Rightarrow> auth_in \<Rightarrow> string \<Rightarrow> auth_world \<Rightarrow> bool \<times> auth_world" where
  "completeAuth d i uniqueID w =
     (case LookupUser (ai_fails i AQUserAgain) uniqueID (aw_users w) of
        Inl ErrUserNotFound \<Rightarrow> authFail i ''invalid credentials'' w
      | Inl _ \<Rightarrow> authFail i ''internal error'' w
      | Inr u \<Rightarrow> completeAuthForUser d i u w)"

definition completeGuestAuth :: "auth_deps \<Rightarrow> auth_in \<Rightarrow> string \<Rightarrow> string \<Rightarrow> auth_world \<Rightarrow> bool \<times> auth_world" where
  "completeGuestAuth d i uniqueID nickname w =
     finishAuth d i \<lparr>id_uniqueID = uniqueID, id_nickname = dedupeNickname (if nickname = [] then ''guest'' else nickname) w,
       id_userID = 0, id_admin = False, id_guest = True\<rparr> w"

subsection \<open>Handlers\<close>

definition verifyServerPassword :: "auth_deps \<Rightarrow> string \<Rightarrow> bool" where
  "verifyServerPassword d password =
     (case dp_verifyServer d of
        Some v \<Rightarrow> v password (dp_serverHash d)
      | None \<Rightarrow> ac_verifyPassword (dp_crypto d) password (dp_serverHash d))"

definition capture_key :: "string \<Rightarrow> auth_world \<Rightarrow> auth_world" where
  "capture_key key w = (if key \<noteq> [] then with_client (setX25519 key) w else w)"

definition authChallengeTTL :: int where "authChallengeTTL = 30000000000"

text \<open>The login proper, once bans and the server password are out of the way.\<close>

definition passwordLogin :: "auth_deps \<Rightarrow> auth_in \<Rightarrow> Authenticate \<Rightarrow> scope list \<Rightarrow> scope \<Rightarrow> auth_world \<Rightarrow> bool \<times> auth_world" where
  "passwordLogin d i msg scopes principalScope =
     with_attempt i 4 scopes (\<lambda>a w.
       (case AuthenticateIdentifier (dp_crypto d) (ai_fails i AQCredential) (am_Username msg) (am_Password msg) (aw_users w) of
          Inl ErrUserNotFound \<Rightarrow> fail_with i 4 ''invalid credentials'' a w
        | Inl _ \<Rightarrow> leave_with i ''internal error'' a w
        | Inr None \<Rightarrow> fail_with i 4 ''invalid credentials'' a w
        | Inr (Some u) \<Rightarrow>
            succeed_with i 4 [principalScope] (completeAuthForUser d i u) a
              (if am_PublicKey msg \<noteq> []
               then w\<lparr>aw_users := BindPublicKey (ai_fails i AQBind) (usr_ID u) (am_PublicKey msg) (aw_users w)\<rparr> else w)))"

definition issueChallenge :: "auth_in \<Rightarrow> Authenticate \<Rightarrow> auth_world \<Rightarrow> bool \<times> auth_world" where
  "issueChallenge i msg w =
     (case ai_challenge i of
        None \<Rightarrow> authFail i ''internal error'' w
      | Some ch \<Rightarrow>
          writeMessage i 0 (OChallenge ch)
            (with_client (setChallenge (am_Username msg) (am_Nickname msg) ch (ai_now i 7 + authChallengeTTL)) w))"

definition accountStage :: "auth_deps \<Rightarrow> auth_in \<Rightarrow> Authenticate \<Rightarrow> auth_world \<Rightarrow> bool \<times> auth_world" where
  "accountStage d i msg w =
     (let sourceScope = LoginFailureScope (dp_crypto d) (''tcp:'' @ remoteIP w) [];
          principalScope = LoginFailureScope (dp_crypto d) [] (am_Username msg)
      in if am_Anonymous msg \<and> am_Password msg \<noteq> [] then
           authFail i ''anonymous login takes no password''
             (w\<lparr>aw_lim := RecordFailure (ai_ord i) (ai_now i 3) [sourceScope, principalScope] (aw_lim w)\<rparr>)
         else if am_Anonymous msg \<and> am_Username msg = [] \<and> am_Password msg = [] then
           completeGuestAuth d i (''guest:'' @ ai_guestID i) (am_Nickname msg) w
         else if am_Password msg = [] then
           (case Reserve (ai_ord i) (ai_now i 4) [sourceScope, principalScope] (aw_lim w) of
              (l, None) \<Rightarrow> authFail i ''too many failed logins, try again later'' (w\<lparr>aw_lim := l\<rparr>)
            | (l, Some a) \<Rightarrow> issueChallenge i msg (w\<lparr>aw_lim := fst (Cancel (ai_now i 5) a l)\<rparr>))
         else passwordLogin d i msg [sourceScope, principalScope] principalScope w)"

definition serverPasswordStage :: "auth_deps \<Rightarrow> auth_in \<Rightarrow> Authenticate \<Rightarrow> auth_world \<Rightarrow> bool \<times> auth_world" where
  "serverPasswordStage d i msg w =
     (if dp_serverHash d = [] then accountStage d i msg w
      else
        let serverScope = LoginFailureScope (dp_crypto d) (''tcp-server-password:'' @ remoteIP w) []
        in with_attempt i 1 [serverScope] (\<lambda>a w.
             if \<not> verifyServerPassword d (am_ServerPassword msg) then fail_with i 1 ''invalid server password'' a w
             else succeed_with i 1 [serverScope] (accountStage d i msg) a w) w)"

definition handleAuthenticate :: "auth_deps \<Rightarrow> auth_in \<Rightarrow> Authenticate option \<Rightarrow> auth_world \<Rightarrow> bool \<times> auth_world" where
  "handleAuthenticate d i decoded w0 =
     (case decoded of
        None \<Rightarrow> sendErrorFor i errCodeMalformed w0
      | Some msg \<Rightarrow>
          if tc_authed (aw_client w0) then sendErrorFor i errCodeMalformed w0
          else
            let w = capture_key (am_X25519PublicKey msg) w0
            in if \<not> dp_auth d then sendErrorFor i errCodeUnavailable w
               else
                 (case banRejectReason d i (am_Username msg) w of
                    Inl _ \<Rightarrow> authFail i ''internal error'' w
                  | Inr reason \<Rightarrow>
                      if reason \<noteq> [] then authFail i reason w else serverPasswordStage d i msg w))"

definition takeChallengeW :: "auth_in \<Rightarrow> string \<Rightarrow> auth_world \<Rightarrow> (byte list \<times> string) option \<times> auth_world" where
  "takeChallengeW i uniqueID w =
     (case takeChallenge (ai_now i 9) uniqueID (aw_client w) of (r, c) \<Rightarrow> (r, w\<lparr>aw_client := c\<rparr>))"

text \<open>After the signature of a presented key has been verified.\<close>

definition keyLogin ::
  "auth_deps \<Rightarrow> auth_in \<Rightarrow> string \<Rightarrow> string \<Rightarrow> string \<Rightarrow> scope \<Rightarrow> login_attempt \<Rightarrow> auth_world \<Rightarrow> login_attempt \<times> bool \<times> auth_world" where
  "keyLogin d i publicKey uniqueID nickname principalScope a w =
     (case LookupUser (ai_fails i AQUser) uniqueID (aw_users w) of
        Inr _ \<Rightarrow> succeed_with i 4 [principalScope] (completeAuth d i uniqueID) a w
      | Inl ErrUserNotFound \<Rightarrow>
          (case LookupUserByPublicKey (ai_fails i AQPubUser) publicKey (aw_users w) of
             Inr u \<Rightarrow> succeed_with i 4 [principalScope] (completeAuthForUser d i u) a w
           | Inl ErrUserNotFound \<Rightarrow> succeed_with i 4 [principalScope] (completeGuestAuth d i uniqueID nickname) a w
           | Inl _ \<Rightarrow> leave_with i ''internal error'' a w)
      | Inl _ \<Rightarrow> leave_with i ''internal error'' a w)"

definition handleGuestSignature :: "auth_deps \<Rightarrow> auth_in \<Rightarrow> AuthSignature \<Rightarrow> auth_world \<Rightarrow> bool \<times> auth_world" where
  "handleGuestSignature d i msg w =
     (let sourceScope = LoginFailureScope (dp_crypto d) (''tcp:'' @ remoteIP w) []
      in (case UniqueIDFromPublicKey (dp_crypto d) (sm_PublicKey msg) of
            None \<Rightarrow>
              with_attempt i 1 [sourceScope, LoginFailureScope (dp_crypto d) [] (sm_PublicKey msg)]
                (fail_with i 1 ''invalid public key'') w
          | Some uniqueID \<Rightarrow>
              let principalScope = LoginFailureScope (dp_crypto d) [] uniqueID
              in (case banRejectReason d i uniqueID w of
                    Inl _ \<Rightarrow> authFail i ''internal error'' w
                  | Inr reason \<Rightarrow>
                      if reason \<noteq> [] then authFail i reason w
                      else
                        with_attempt i 4 [sourceScope, principalScope] (\<lambda>a w.
                          (case takeChallengeW i [] w of
                             (None, w1) \<Rightarrow> fail_with i 4 ''no pending challenge'' a w1
                           | (Some (challenge, nickname), w1) \<Rightarrow>
                               if \<not> VerifyChallenge (dp_crypto d) (sm_PublicKey msg) challenge (sm_Signature msg)
                               then fail_with i 4 ''invalid credentials'' a w1
                               else keyLogin d i (sm_PublicKey msg) uniqueID nickname principalScope a w1)) w)))"

definition accountSignature :: "auth_deps \<Rightarrow> auth_in \<Rightarrow> AuthSignature \<Rightarrow> auth_world \<Rightarrow> bool \<times> auth_world" where
  "accountSignature d i msg w =
     (let sourceScope = LoginFailureScope (dp_crypto d) (''tcp:'' @ remoteIP w) [];
          principalScope = LoginFailureScope (dp_crypto d) [] (sm_UniqueID msg)
      in with_attempt i 4 [sourceScope, principalScope] (\<lambda>a w.
           (case takeChallengeW i (sm_UniqueID msg) w of
              (None, w1) \<Rightarrow> fail_with i 4 ''no pending challenge'' a w1
            | (Some (challenge, _), w1) \<Rightarrow>
                (case AuthenticateChallenge (dp_crypto d) (ai_fails i AQKey) (sm_UniqueID msg) challenge (sm_Signature msg) (aw_users w1) of
                   Inl ErrUserNotFound \<Rightarrow> fail_with i 4 ''invalid credentials'' a w1
                 | Inl _ \<Rightarrow> leave_with i ''internal error'' a w1
                 | Inr False \<Rightarrow> fail_with i 4 ''invalid credentials'' a w1
                 | Inr True \<Rightarrow> succeed_with i 4 [principalScope] (completeAuth d i (sm_UniqueID msg)) a w1))) w)"

definition handleAuthSignature :: "auth_deps \<Rightarrow> auth_in \<Rightarrow> AuthSignature option \<Rightarrow> auth_world \<Rightarrow> bool \<times> auth_world" where
  "handleAuthSignature d i decoded w0 =
     (case decoded of
        None \<Rightarrow> sendErrorFor i errCodeMalformed w0
      | Some msg \<Rightarrow>
          if tc_authed (aw_client w0) then sendErrorFor i errCodeMalformed w0
          else
            let w = capture_key (sm_X25519PublicKey msg) w0
            in if \<not> dp_auth d then sendErrorFor i errCodeUnavailable w
               else if sm_PublicKey msg \<noteq> [] then handleGuestSignature d i msg w
               else accountSignature d i msg w)"

definition handleServerRulesAccept :: "auth_deps \<Rightarrow> auth_in \<Rightarrow> string option \<Rightarrow> auth_world \<Rightarrow> bool \<times> auth_world" where
  "handleServerRulesAccept d i decoded w =
     (case decoded of
        None \<Rightarrow> sendErrorFor i errCodeMalformed w
      | Some h \<Rightarrow>
          if \<not> dp_rules d then sendErrorFor i errCodeUnavailable w
          else
            (case rules_Text (dp_crypto d) (ai_fails i AQRules) (aw_rules w) of
               None \<Rightarrow> sendErrorFor i errCodeUnavailable w
             | Some (text, hash) \<Rightarrow>
                 if hash = [] \<or> h \<noteq> hash then
                   (case sendErrorFor i errCodeMalformed w of
                      (False, w1) \<Rightarrow> (False, w1)
                    | (True, w1) \<Rightarrow> writeMessage i 1 (ORules text hash) (with_client (setRulesPending (hash \<noteq> [])) w1))
                 else
                   let uid = tc_UserID (aw_client w);
                       fin = (\<lambda>w. writeMessage i 1 (ORules [] []) (with_client (setRulesPending False) w))
                   in if uid = 0 then fin w
                      else (case rules_Accept (dp_crypto d) (ai_fails i AQRulesAgain) (ai_fails i AQAccept) uid h (aw_rules w) of
                              None \<Rightarrow> sendErrorFor i errCodeUnavailable w
                            | Some r \<Rightarrow> fin (w\<lparr>aw_rules := r\<rparr>))))"

subsection \<open>Dispatch\<close>

text \<open>
  A decoded frame; \<open>None\<close> is a payload that does not decode.  The handlers of the other message types are the
  argument \<open>other\<close>.
\<close>

datatype auth_frame = FAuthenticate "Authenticate option" | FAuthSignature "AuthSignature option" | FRulesAccept "string option"
  | FPing | FPong | FOther nat

fun allowedWhileRulesPending :: "auth_frame \<Rightarrow> bool" where
  "allowedWhileRulesPending (FRulesAccept _) = True"
| "allowedWhileRulesPending FPing = True"
| "allowedWhileRulesPending FPong = True"
| "allowedWhileRulesPending _ = False"

fun beforeAuth :: "auth_frame \<Rightarrow> bool" where
  "beforeAuth (FAuthenticate _) = True"
| "beforeAuth (FAuthSignature _) = True"
| "beforeAuth FPing = True"
| "beforeAuth _ = False"

definition dispatch ::
  "auth_deps \<Rightarrow> (nat \<Rightarrow> auth_in \<Rightarrow> auth_world \<Rightarrow> bool \<times> auth_world) \<Rightarrow> auth_in \<Rightarrow> auth_frame \<Rightarrow> auth_world \<Rightarrow> bool \<times> auth_world" where
  "dispatch d other i f w =
     (if \<not> tc_authed (aw_client w) \<and> \<not> beforeAuth f then sendErrorFor i errCodeNotAuthenticated w
      else if tc_rulesPending (aw_client w) \<and> \<not> allowedWhileRulesPending f then sendErrorFor i errCodePermissionDenied w
      else (case f of
              FAuthenticate m \<Rightarrow> handleAuthenticate d i m w
            | FAuthSignature m \<Rightarrow> handleAuthSignature d i m w
            | FRulesAccept m \<Rightarrow> handleServerRulesAccept d i m w
            | FPing \<Rightarrow> writeMessage i 0 OPong w
            | FPong \<Rightarrow> (True, with_client (notePong (ai_now i 0)) w)
            | FOther t \<Rightarrow> other t i w))"

subsection \<open>What the parts keep\<close>

lemma emit_simps [simp]:
  "aw_client (emit x w) = aw_client w" "aw_lim (emit x w) = aw_lim w" "aw_users (emit x w) = aw_users w" "aw_rules (emit x w) = aw_rules w"
  "aw_perm (emit x w) = aw_perm w" "aw_taken (emit x w) = aw_taken w" "aw_host (emit x w) = aw_host w" "aw_addr (emit x w) = aw_addr w"
  "aw_mgr (emit x w) = aw_mgr w" "aw_loader (emit x w) = aw_loader w"
  by (simp_all add: emit_def)

lemma with_client_simps [simp]:
  "aw_client (with_client f w) = f (aw_client w)" "aw_lim (with_client f w) = aw_lim w" "aw_users (with_client f w) = aw_users w"
  "aw_rules (with_client f w) = aw_rules w" "aw_host (with_client f w) = aw_host w" "aw_addr (with_client f w) = aw_addr w"
  by (simp_all add: with_client_def)

lemma reply_simps [simp]:
  "snd (writeMessage i k x w) = emit x w" "fst (writeMessage i k x w) = ai_write i k"
  "snd (authFail i reason w) = emit (OAuthFail reason) w" "snd (sendErrorFor i code w) = emit (OError code) w"
  by (simp_all add: writeMessage_def authFail_def sendErrorFor_def)

lemma capture_key_simps [simp]:
  "aw_lim (capture_key k w) = aw_lim w" "aw_users (capture_key k w) = aw_users w" "remoteIP (capture_key k w) = remoteIP w"
  "aw_rules (capture_key k w) = aw_rules w"
  "tc_authed (aw_client (capture_key k w)) = tc_authed (aw_client w)"
  "tc_challenge (aw_client (capture_key k w)) = tc_challenge (aw_client w)"
  "tc_challengeUID (aw_client (capture_key k w)) = tc_challengeUID (aw_client w)"
  "tc_challengeExp (aw_client (capture_key k w)) = tc_challengeExp (aw_client w)"
  "tc_rulesPending (aw_client (capture_key k w)) = tc_rulesPending (aw_client w)"
  by (simp_all add: capture_key_def setX25519_def remoteIP_def split: option.split)

lemma assignDefaultGroup_simps [simp]:
  "aw_client (assignDefaultGroup d i w) = aw_client w" "aw_lim (assignDefaultGroup d i w) = aw_lim w"
  "aw_users (assignDefaultGroup d i w) = aw_users w" "aw_rules (assignDefaultGroup d i w) = aw_rules w"
  by (simp_all add: assignDefaultGroup_def)

lemma register_state_simps [simp]:
  "aw_client (register_state d i x w) = aw_client w" "aw_lim (register_state d i x w) = aw_lim w"
  "aw_users (register_state d i x w) = aw_users w" "aw_rules (register_state d i x w) = aw_rules w"
  by (simp_all add: register_state_def Let_def split: prod.split)

lemma enter_simps [simp]:
  "aw_client (enter d i x w) = setIdentity (id_uniqueID x) (id_nickname x) (id_userID x) (id_admin x) (aw_client w)"
  "aw_lim (enter d i x w) = aw_lim w" "aw_users (enter d i x w) = aw_users w" "aw_rules (enter d i x w) = aw_rules w"
  by (simp_all add: enter_def Let_def split: option.split)

lemma sendPendingRules_simps [simp]:
  "aw_lim (sendPendingRules d i g w) = aw_lim w" "aw_users (sendPendingRules d i g w) = aw_users w"
  "aw_rules (sendPendingRules d i g w) = aw_rules w"
  by (simp_all add: sendPendingRules_def split: option.split)

text \<open>The connection after a login: the identity is the given one, the challenge is as before.\<close>

definition entered :: "authIdentity \<Rightarrow> tcp_client \<Rightarrow> tcp_client \<Rightarrow> bool" where
  "entered x c c' \<longleftrightarrow>
     c' = (setIdentity (id_uniqueID x) (id_nickname x) (id_userID x) (id_admin x) c)\<lparr>tc_rulesPending := tc_rulesPending c'\<rparr>"

lemma enteredD:
  assumes "entered x c c'"
  shows "tc_authed c'" "tc_UniqueID c' = id_uniqueID x" "tc_UserID c' = id_userID x" "tc_admin c' = id_admin x"
    "tc_Username c' = id_nickname x" "tc_challenge c' = tc_challenge c" "tc_ID c' = tc_ID c"
proof -
  define e where "e = setIdentity (id_uniqueID x) (id_nickname x) (id_userID x) (id_admin x) c"
  have c': "c' = e\<lparr>tc_rulesPending := tc_rulesPending c'\<rparr>" using assms unfolding entered_def e_def .
  show "tc_authed c'" "tc_UniqueID c' = id_uniqueID x" "tc_UserID c' = id_userID x" "tc_admin c' = id_admin x"
    "tc_Username c' = id_nickname x" "tc_challenge c' = tc_challenge c" "tc_ID c' = tc_ID c"
    by (subst c'; simp add: e_def setIdentity_def)+
qed

lemma sendPendingRules_client:
  "aw_client (sendPendingRules d i g w) = (aw_client w)\<lparr>tc_rulesPending := tc_rulesPending (aw_client (sendPendingRules d i g w))\<rparr>"
  by (simp add: sendPendingRules_def setRulesPending_def split: option.split)

lemma finishAuth_keeps:
  "aw_lim (snd (finishAuth d i x w)) = aw_lim w" "aw_users (snd (finishAuth d i x w)) = aw_users w"
  "aw_rules (snd (finishAuth d i x w)) = aw_rules w"
  by (simp_all add: finishAuth_def Let_def writeMessage_def split: bool.split)

lemma entered_rules:
  assumes "aw_client w = setIdentity (id_uniqueID x) (id_nickname x) (id_userID x) (id_admin x) c"
  shows "entered x c (aw_client (sendPendingRules d i g w))"
  using sendPendingRules_client [of d i g w] assms by (simp add: entered_def)

lemma entered_identity: "entered x c (setIdentity (id_uniqueID x) (id_nickname x) (id_userID x) (id_admin x) c)"
  by (simp add: entered_def setIdentity_def)

lemma finishAuth_entered: "entered x (aw_client w) (aw_client (snd (finishAuth d i x w)))"
  unfolding finishAuth_def Let_def writeMessage_def by (auto split: bool.split intro!: entered_rules entered_identity)

lemma authFail_client [simp]: "aw_client (snd (authFail i s w)) = aw_client w"
  by simp

subsection \<open>Every reservation is given back\<close>

text \<open>
  The limiter went from \<open>l\<close> to \<open>l'\<close> by operations of the limiter system that leave no new open attempt; and the
  same for the stretch in which one attempt is at hand.
\<close>

definition lim_run :: "limiter \<Rightarrow> limiter \<Rightarrow> bool" where
  "lim_run l l' \<longleftrightarrow>
     (\<forall>as. \<exists>ops bs. run_ops ll_step ops \<lparr>sy_lim = l, sy_atts = as\<rparr> = \<lparr>sy_lim = l', sy_atts = as @ bs\<rparr> \<and> (\<forall>b \<in> set bs. \<not> active b))"

definition att_run :: "limiter \<Rightarrow> login_attempt \<Rightarrow> limiter \<Rightarrow> login_attempt \<Rightarrow> bool" where
  "att_run l a l' a' \<longleftrightarrow>
     (\<forall>as. \<exists>ops bs. run_ops ll_step ops \<lparr>sy_lim = l, sy_atts = as @ [a]\<rparr> = \<lparr>sy_lim = l', sy_atts = as @ a' # bs\<rparr> \<and> (\<forall>b \<in> set bs. \<not> active b))"

lemma lim_runI:
  assumes "\<And>as. \<exists>bs. run_ops ll_step (ops as) \<lparr>sy_lim = l, sy_atts = as\<rparr> = \<lparr>sy_lim = l', sy_atts = as @ bs\<rparr> \<and> (\<forall>b \<in> set bs. \<not> active b)"
  shows "lim_run l l'"
  unfolding lim_run_def using assms by blast

lemma lim_run_refl [simp, intro]: "lim_run l l"
  by (rule lim_runI [of "\<lambda>as. []"]) simp

lemma lim_run_trans:
  assumes "lim_run a b" "lim_run b c"
  shows "lim_run a c"
  unfolding lim_run_def
proof
  fix as
  obtain ops1 bs where 1: "run_ops ll_step ops1 \<lparr>sy_lim = a, sy_atts = as\<rparr> = \<lparr>sy_lim = b, sy_atts = as @ bs\<rparr>" "\<forall>x \<in> set bs. \<not> active x"
    using assms(1) unfolding lim_run_def by blast
  obtain ops2 cs where 2: "run_ops ll_step ops2 \<lparr>sy_lim = b, sy_atts = as @ bs\<rparr> = \<lparr>sy_lim = c, sy_atts = (as @ bs) @ cs\<rparr>" "\<forall>x \<in> set cs. \<not> active x"
    using assms(2) unfolding lim_run_def by blast
  have "run_ops ll_step (ops1 @ ops2) \<lparr>sy_lim = a, sy_atts = as\<rparr> = \<lparr>sy_lim = c, sy_atts = as @ (bs @ cs)\<rparr>"
    using 1(1) 2(1) by (simp add: run_ops_append)
  then show "\<exists>ops bs. run_ops ll_step ops \<lparr>sy_lim = a, sy_atts = as\<rparr> = \<lparr>sy_lim = c, sy_atts = as @ bs\<rparr> \<and> (\<forall>b\<in>set bs. \<not> active b)"
    using 1(2) 2(2) by (intro exI [of _ "ops1 @ ops2"] exI [of _ "bs @ cs"]) auto
qed

lemma lim_run_RecordFailure: "lim_run l (RecordFailure ord now ss l)"
  by (rule lim_runI [of "\<lambda>as. [LRecordFailure ord now ss]"]) simp

lemma lim_run_refused: "Reserve ord now ss l = (l', None) \<Longrightarrow> lim_run l l'"
  by (rule lim_runI [of "\<lambda>as. [LReserve ord now ss]"]) simp

lemma att_run_refl [intro]: "att_run l a l a"
  unfolding att_run_def by (intro allI exI [of _ "[]"]) simp

lemma att_run_finish:
  assumes "finish now res a l = (l', a')"
  shows "att_run l a l' a'"
  unfolding att_run_def
proof
  fix as
  have "run_ops ll_step [ll_op.LFinish now (length as) res] \<lparr>sy_lim = l, sy_atts = as @ [a]\<rparr> = \<lparr>sy_lim = l', sy_atts = as @ a' # []\<rparr>"
    using assms by simp
  then show "\<exists>ops bs. run_ops ll_step ops \<lparr>sy_lim = l, sy_atts = as @ [a]\<rparr> = \<lparr>sy_lim = l', sy_atts = as @ a' # bs\<rparr> \<and> (\<forall>b\<in>set bs. \<not> active b)"
    by (intro exI [of _ "[ll_op.LFinish now (length as) res]"] exI [of _ "[]"]) simp
qed

lemma att_run_then:
  assumes "att_run l a l1 a1" "lim_run l1 l2"
  shows "att_run l a l2 a1"
  unfolding att_run_def
proof
  fix as
  obtain ops1 bs where 1: "run_ops ll_step ops1 \<lparr>sy_lim = l, sy_atts = as @ [a]\<rparr> = \<lparr>sy_lim = l1, sy_atts = as @ a1 # bs\<rparr>" "\<forall>x \<in> set bs. \<not> active x"
    using assms(1) unfolding att_run_def by blast
  obtain ops2 cs where 2: "run_ops ll_step ops2 \<lparr>sy_lim = l1, sy_atts = as @ a1 # bs\<rparr> = \<lparr>sy_lim = l2, sy_atts = (as @ a1 # bs) @ cs\<rparr>" "\<forall>x \<in> set cs. \<not> active x"
    using assms(2) unfolding lim_run_def by blast
  have "run_ops ll_step (ops1 @ ops2) \<lparr>sy_lim = l, sy_atts = as @ [a]\<rparr> = \<lparr>sy_lim = l2, sy_atts = as @ a1 # (bs @ cs)\<rparr>"
    using 1(1) 2(1) by (simp add: run_ops_append)
  then show "\<exists>ops bs. run_ops ll_step ops \<lparr>sy_lim = l, sy_atts = as @ [a]\<rparr> = \<lparr>sy_lim = l2, sy_atts = as @ a1 # bs\<rparr> \<and> (\<forall>b\<in>set bs. \<not> active b)"
    using 1(2) 2(2) by (intro exI [of _ "ops1 @ ops2"] exI [of _ "bs @ cs"]) auto
qed

lemma finish_done: "finish now res a l = (l', a') \<Longrightarrow> la_done a'"
  by (auto simp: finish_def Let_def split: if_splits)

lemma reserve_cancel_run:
  assumes "Reserve ord now ss l = (l1, Some a)" "att_run l1 a l2 a'" "Cancel now' a' l2 = (l3, a'')"
  shows "lim_run l l3"
  unfolding lim_run_def
proof
  fix as
  obtain ops bs where 1: "run_ops ll_step ops \<lparr>sy_lim = l1, sy_atts = as @ [a]\<rparr> = \<lparr>sy_lim = l2, sy_atts = as @ a' # bs\<rparr>" "\<forall>x \<in> set bs. \<not> active x"
    using assms(2) unfolding att_run_def by blast
  let ?ops = "LReserve ord now ss # ops @ [ll_op.LFinish now' (length as) AttemptCancel]"
  have "run_ops ll_step ?ops \<lparr>sy_lim = l, sy_atts = as\<rparr> = \<lparr>sy_lim = l3, sy_atts = as @ (a'' # bs)\<rparr>"
    using assms(1,3) 1(1) by (simp add: run_ops_append Cancel_def)
  moreover have "\<not> active a''" using finish_done assms(3) by (auto simp: Cancel_def active_def)
  ultimately show "\<exists>ops bs. run_ops ll_step ops \<lparr>sy_lim = l, sy_atts = as\<rparr> = \<lparr>sy_lim = l3, sy_atts = as @ bs\<rparr> \<and> (\<forall>b\<in>set bs. \<not> active b)"
    using 1(2) by (intro exI [of _ ?ops] exI [of _ "a'' # bs"]) auto
qed

lemma with_attempt_run:
  assumes "\<And>a v a' r v'. body a v = (a', r, v') \<Longrightarrow> att_run (aw_lim v) a (aw_lim v') a'"
  shows "lim_run (aw_lim w) (aw_lim (snd (with_attempt i k scopes body w)))"
proof -
  obtain l1 oa where r: "Reserve (ai_ord i) (ai_now i k) scopes (aw_lim w) = (l1, oa)" by fastforce
  show ?thesis
  proof (cases oa)
    case None
    with r show ?thesis by (simp add: with_attempt_def lim_run_refused)
  next
    case (Some a)
    obtain a' ret w' where b: "body a (w\<lparr>aw_lim := l1\<rparr>) = (a', ret, w')" by (rule prod_cases3)
    obtain l3 a'' where c: "Cancel (ai_now i (k + 2)) a' (aw_lim w') = (l3, a'')" by fastforce
    have "att_run l1 a (aw_lim w') a'" using assms [OF b] by simp
    from reserve_cancel_run [OF _ this c] r Some b c show ?thesis by (simp add: with_attempt_def)
  qed
qed

lemma fail_with_run: "fail_with i k reason a v = (a', r, v') \<Longrightarrow> att_run (aw_lim v) a (aw_lim v') a'"
  by (auto simp: fail_with_def Fail_def authFail_def writeMessage_def intro: att_run_finish split: prod.splits)

lemma succeed_with_run:
  assumes "\<And>v. lim_run (aw_lim v) (aw_lim (snd (cont v)))" "succeed_with i k ok cont a v = (a', r, v')"
  shows "att_run (aw_lim v) a (aw_lim v') a'"
proof -
  obtain l1 a1 where f: "Succeed (ai_now i (k + 1)) ok a (aw_lim v) = (l1, a1)" by fastforce
  with assms(2) have "a1 = a'" "v' = snd (cont (v\<lparr>aw_lim := l1\<rparr>))" by (auto simp: succeed_with_def)
  moreover have "att_run (aw_lim v) a l1 a1" using f by (simp add: Succeed_def att_run_finish)
  ultimately show ?thesis using att_run_then assms(1) [of "v\<lparr>aw_lim := l1\<rparr>"] by simp
qed

lemma leave_with_run: "leave_with i reason a v = (a', r, v') \<Longrightarrow> att_run (aw_lim v) a (aw_lim v') a'"
  by (auto simp: leave_with_def authFail_def writeMessage_def)

lemmas body_runs = fail_with_run leave_with_run

lemma complete_run:
  "lim_run (aw_lim v) (aw_lim (snd (completeAuthForUser d i u v)))"
  "lim_run (aw_lim v) (aw_lim (snd (completeGuestAuth d i s n v)))"
  "lim_run (aw_lim v) (aw_lim (snd (completeAuth d i s v)))"
  by (auto simp: completeAuthForUser_def completeGuestAuth_def completeAuth_def finishAuth_keeps split: sum.split auth_error.split)

lemma passwordLogin_run: "lim_run (aw_lim w) (aw_lim (snd (passwordLogin d i msg scopes p w)))"
  unfolding passwordLogin_def
proof (rule with_attempt_run)
  fix a v a' r v'
  assume b: "(case AuthenticateIdentifier (dp_crypto d) (ai_fails i AQCredential) (am_Username msg) (am_Password msg) (aw_users v) of
      Inl ErrUserNotFound \<Rightarrow> fail_with i 4 ''invalid credentials'' a v | Inl _ \<Rightarrow> leave_with i ''internal error'' a v
    | Inr None \<Rightarrow> fail_with i 4 ''invalid credentials'' a v
    | Inr (Some u) \<Rightarrow> succeed_with i 4 [p] (completeAuthForUser d i u) a
        (if am_PublicKey msg \<noteq> [] then v\<lparr>aw_users := BindPublicKey (ai_fails i AQBind) (usr_ID u) (am_PublicKey msg) (aw_users v)\<rparr> else v)) = (a', r, v')"
  show "att_run (aw_lim v) a (aw_lim v') a'"
    using b by (auto split: sum.splits auth_error.splits option.splits if_splits dest: body_runs succeed_with_run [OF complete_run(1)])
qed

lemma accountStage_run: "lim_run (aw_lim w) (aw_lim (snd (accountStage d i msg w)))"
proof -
  let ?ss = "[LoginFailureScope (dp_crypto d) (''tcp:'' @ remoteIP w) [], LoginFailureScope (dp_crypto d) [] (am_Username msg)]"
  have "lim_run (aw_lim w) (fst (Cancel (ai_now i 5) a l))" if "Reserve (ai_ord i) (ai_now i 4) ?ss (aw_lim w) = (l, Some a)" for l a
    using reserve_cancel_run [OF that att_run_refl] by (metis prod.collapse)
  then show ?thesis
    unfolding accountStage_def Let_def
    by (auto simp: issueChallenge_def passwordLogin_run complete_run lim_run_RecordFailure
        split: prod.split option.split dest: lim_run_refused)
qed

lemma serverPasswordStage_run: "lim_run (aw_lim w) (aw_lim (snd (serverPasswordStage d i msg w)))"
  unfolding serverPasswordStage_def Let_def
  by (auto simp: accountStage_run intro!: with_attempt_run split: if_splits dest: body_runs succeed_with_run [OF accountStage_run])

lemma takeChallengeW_lim: "takeChallengeW i u w = (x, w') \<Longrightarrow> aw_lim w' = aw_lim w \<and> aw_users w' = aw_users w"
  by (auto simp: takeChallengeW_def split: prod.splits)

lemma keyLogin_run:
  assumes "keyLogin d i pk u n p a v = (a', r, v')"
  shows "att_run (aw_lim v) a (aw_lim v') a'"
  using assms unfolding keyLogin_def
  by (auto split: sum.splits auth_error.splits dest: body_runs succeed_with_run [OF complete_run(1)]
      succeed_with_run [OF complete_run(2)] succeed_with_run [OF complete_run(3)])

lemma handleGuestSignature_run: "lim_run (aw_lim w) (aw_lim (snd (handleGuestSignature d i msg w)))"
  unfolding handleGuestSignature_def Let_def
  by (auto split: option.splits sum.splits prod.splits if_splits intro!: with_attempt_run
      dest!: takeChallengeW_lim body_runs keyLogin_run)

lemma accountSignature_run: "lim_run (aw_lim w) (aw_lim (snd (accountSignature d i msg w)))"
  unfolding accountSignature_def Let_def
  by (auto split: option.splits sum.splits auth_error.splits bool.splits prod.splits if_splits intro!: with_attempt_run
      dest!: takeChallengeW_lim body_runs succeed_with_run [OF complete_run(3)])

lemma handlers_run:
  "lim_run (aw_lim w) (aw_lim (snd (handleAuthenticate d i ma w)))"
  "lim_run (aw_lim w) (aw_lim (snd (handleAuthSignature d i ms w)))"
  "lim_run (aw_lim w) (aw_lim (snd (handleServerRulesAccept d i mr w)))"
proof -
  show "lim_run (aw_lim w) (aw_lim (snd (handleAuthenticate d i ma w)))"
    using serverPasswordStage_run [of "capture_key k w" d i m for k m]
    by (auto simp: handleAuthenticate_def Let_def split: option.split sum.split)
  show "lim_run (aw_lim w) (aw_lim (snd (handleAuthSignature d i ms w)))"
    using handleGuestSignature_run [of "capture_key k w" d i m for k m] accountSignature_run [of "capture_key k w" d i m for k m]
    by (auto simp: handleAuthSignature_def Let_def split: option.split sum.split)
  show "lim_run (aw_lim w) (aw_lim (snd (handleServerRulesAccept d i mr w)))"
    by (auto simp: handleServerRulesAccept_def Let_def writeMessage_def sendErrorFor_def split: option.split bool.split)
qed

text \<open>A run of the limiter system that leaves no attempt open keeps its invariant, slots and all.\<close>

lemma lim_run_inv:
  assumes "lim_run l l'" "ll_inv \<lparr>sy_lim = l, sy_atts = as\<rparr>"
  shows "ll_inv \<lparr>sy_lim = l', sy_atts = as\<rparr>" "ll_inFlight l' = ll_inFlight l"
proof -
  obtain ops bs where r: "run_ops ll_step ops \<lparr>sy_lim = l, sy_atts = as\<rparr> = \<lparr>sy_lim = l', sy_atts = as @ bs\<rparr>" "\<forall>b \<in> set bs. \<not> active b"
    using assms(1) unfolding lim_run_def by blast
  have "ll_inv (run_ops ll_step ops \<lparr>sy_lim = l, sy_atts = as\<rparr>)" by (rule ll.run_inv [OF assms(2)]) simp
  moreover have "filter active bs = []" using r(2) by (simp add: filter_empty_conv)
  ultimately show "ll_inv \<lparr>sy_lim = l', sy_atts = as\<rparr>" using r(1) by (simp add: ll_inv_def owned_def)
  then show "ll_inFlight l' = ll_inFlight l" using assms(2) by (simp add: ll_inv_def)
qed

subsection \<open>A login is proved\<close>

definition is_account :: "user_row \<Rightarrow> tcp_client \<Rightarrow> bool" where
  "is_account row c \<longleftrightarrow> tc_UniqueID c = ur_unique row \<and> tc_UserID c = ur_id row \<and> tc_admin c = ur_admin row"

definition is_guest :: "string \<Rightarrow> tcp_client \<Rightarrow> bool" where
  "is_guest u c \<longleftrightarrow> tc_UniqueID c = u \<and> tc_UserID c = 0 \<and> \<not> tc_admin c"

text \<open>A challenge is pending for the presented id (or no id is presented) and has not expired.\<close>

definition pending_challenge :: "auth_in \<Rightarrow> string \<Rightarrow> tcp_client \<Rightarrow> byte list \<Rightarrow> bool" where
  "pending_challenge i u c ch \<longleftrightarrow>
     tc_challenge c = Some ch \<and> (u \<noteq> [] \<longrightarrow> tc_challengeUID c = u) \<and> (\<exists>t. tc_challengeExp c = Some t \<and> ai_now i 9 \<le> t)"

inductive authenticated :: "auth_deps \<Rightarrow> auth_in \<Rightarrow> auth_frame \<Rightarrow> auth_world \<Rightarrow> tcp_client \<Rightarrow> bool" for d i f w where
  by_password: "f = FAuthenticate (Some msg) \<Longrightarrow> row \<in> set (ad_users (aw_users w)) \<Longrightarrow>
    ur_unique row = am_Username msg \<or> ur_nick row = Some (am_Username msg) \<Longrightarrow> ur_hash row = Some h \<Longrightarrow>
    ac_verifyPassword (dp_crypto d) (am_Password msg) h \<Longrightarrow> is_account row c \<Longrightarrow> authenticated d i f w c"
| anonymous: "f = FAuthenticate (Some msg) \<Longrightarrow> am_Anonymous msg \<Longrightarrow> is_guest (''guest:'' @ ai_guestID i) c \<Longrightarrow> authenticated d i f w c"
| by_signature: "f = FAuthSignature (Some msg) \<Longrightarrow> pending_challenge i (sm_UniqueID msg) (aw_client w) ch \<Longrightarrow>
    row \<in> set (ad_users (aw_users w)) \<Longrightarrow> ur_unique row = sm_UniqueID msg \<Longrightarrow> ur_pub row = Some pem \<Longrightarrow>
    VerifyChallenge (dp_crypto d) pem ch (sm_Signature msg) \<Longrightarrow>
    row' \<in> set (ad_users (aw_users w)) \<Longrightarrow> ur_unique row' = sm_UniqueID msg \<Longrightarrow> is_account row' c \<Longrightarrow> authenticated d i f w c"
| by_key: "f = FAuthSignature (Some msg) \<Longrightarrow> pending_challenge i [] (aw_client w) ch \<Longrightarrow>
    UniqueIDFromPublicKey (dp_crypto d) (sm_PublicKey msg) = Some u \<Longrightarrow>
    VerifyChallenge (dp_crypto d) (sm_PublicKey msg) ch (sm_Signature msg) \<Longrightarrow>
    row \<in> set (ad_users (aw_users w)) \<Longrightarrow> ur_unique row = u \<or> ur_pub row = Some (sm_PublicKey msg) \<Longrightarrow> is_account row c \<Longrightarrow>
    authenticated d i f w c"
| by_guest_key: "f = FAuthSignature (Some msg) \<Longrightarrow> pending_challenge i [] (aw_client w) ch \<Longrightarrow>
    UniqueIDFromPublicKey (dp_crypto d) (sm_PublicKey msg) = Some u \<Longrightarrow>
    VerifyChallenge (dp_crypto d) (sm_PublicKey msg) ch (sm_Signature msg) \<Longrightarrow>
    (\<forall>row \<in> set (ad_users (aw_users w)). ur_unique row \<noteq> u \<and> ur_pub row \<noteq> Some (sm_PublicKey msg)) \<Longrightarrow> is_guest u c \<Longrightarrow>
    authenticated d i f w c"

inductive_cases authenticatedE: "authenticated d i f w c"

lemma authenticated_transfer:
  assumes "authenticated d i f w c" "aw_users w' = aw_users w" "tc_challenge (aw_client w') = tc_challenge (aw_client w)"
    "tc_challengeUID (aw_client w') = tc_challengeUID (aw_client w)" "tc_challengeExp (aw_client w') = tc_challengeExp (aw_client w)"
  shows "authenticated d i f w' c"
proof -
  have p: "pending_challenge i u (aw_client w') ch = pending_challenge i u (aw_client w) ch" for u ch
    by (simp add: pending_challenge_def assms)
  from assms(1) show ?thesis
  proof (cases rule: authenticated.cases)
    case (by_guest_key msg ch u)
    then show ?thesis by (intro authenticated.by_guest_key [of f msg i w' ch d u]) (simp_all add: p assms(2))
  qed (auto intro: authenticated.intros simp: p assms(2))
qed

lemma with_attempt_rule:
  assumes "\<And>l. Q (emit (OAuthFail ''too many failed logins, try again later'') (w\<lparr>aw_lim := l\<rparr>))"
    "\<And>a l a' r w' l'. body a (w\<lparr>aw_lim := l\<rparr>) = (a', r, w') \<Longrightarrow> Q (w'\<lparr>aw_lim := l'\<rparr>)"
  shows "Q (snd (with_attempt i k scopes body w))"
proof -
  obtain l oa where r: "Reserve (ai_ord i) (ai_now i k) scopes (aw_lim w) = (l, oa)" by fastforce
  show ?thesis
  proof (cases oa)
    case None
    with r assms(1) show ?thesis by (simp add: with_attempt_def)
  next
    case (Some a)
    obtain a' ret w' where b: "body a (w\<lparr>aw_lim := l\<rparr>) = (a', ret, w')" by (rule prod_cases3)
    with r Some assms(2) [OF b] show ?thesis by (simp add: with_attempt_def)
  qed
qed

lemma attempt_ends:
  "fail_with i k reason a w = (a', r, w') \<Longrightarrow> aw_client w' = aw_client w"
  "leave_with i reason a w = (a', r, w') \<Longrightarrow> aw_client w' = aw_client w"
  by (auto simp: fail_with_def leave_with_def authFail_def writeMessage_def split: prod.splits)

lemma succeed_withD: "succeed_with i k ok cont a w = (a', r, w') \<Longrightarrow> \<exists>l. cont (w\<lparr>aw_lim := l\<rparr>) = (r, w')"
  by (auto simp: succeed_with_def split: prod.splits)

text \<open>What the ends of a login make of the connection.\<close>

definition became :: "(tcp_client \<Rightarrow> bool) \<Rightarrow> tcp_client \<Rightarrow> tcp_client \<Rightarrow> bool" where
  "became P c c' \<longleftrightarrow> tc_authed c' \<and> P c' \<and> tc_challenge c' = tc_challenge c"

lemma completeAuthForUser_became:
  "became (is_account row) (aw_client w) (aw_client (snd (completeAuthForUser d i (scan_user row) w)))"
  using enteredD [OF finishAuth_entered] by (simp add: became_def completeAuthForUser_def is_account_def scan_user_def)

lemma completeGuestAuth_became: "became (is_guest u) (aw_client w) (aw_client (snd (completeGuestAuth d i u n w)))"
  using enteredD [OF finishAuth_entered] by (simp add: became_def completeGuestAuth_def is_guest_def)

lemma LookupUser_Inr:
  "LookupUser fails u db = Inr x \<Longrightarrow> \<exists>row \<in> set (ad_users db). ur_unique row = u \<and> x = scan_user row"
  "LookupUserByPublicKey fails pk db = Inr x \<Longrightarrow> \<exists>row \<in> set (ad_users db). ur_pub row = Some pk \<and> x = scan_user row"
  by (auto simp: LookupUser_def LookupUserByPublicKey_def map_sum_def split: sum.splits dest!: user_by_Inr)

lemma LookupUser_missing:
  "LookupUser fails u db = Inl ErrUserNotFound \<Longrightarrow> row \<in> set (ad_users db) \<Longrightarrow> ur_unique row \<noteq> u"
  "LookupUserByPublicKey fails pk db = Inl ErrUserNotFound \<Longrightarrow> row \<in> set (ad_users db) \<Longrightarrow> ur_pub row \<noteq> Some pk"
  by (auto simp: LookupUser_def LookupUserByPublicKey_def user_by_def find_None_iff map_sum_def split: sum.splits if_splits option.splits)

lemma completeAuth_became:
  "aw_client (snd (completeAuth d i u w)) = aw_client w \<or>
   (\<exists>row \<in> set (ad_users (aw_users w)). ur_unique row = u \<and> became (is_account row) (aw_client w) (aw_client (snd (completeAuth d i u w))))"
proof (cases "LookupUser (ai_fails i AQUserAgain) u (aw_users w)")
  case (Inl e)
  then show ?thesis by (cases e) (simp_all add: completeAuth_def)
next
  case (Inr x)
  then obtain row where "row \<in> set (ad_users (aw_users w))" "ur_unique row = u" "x = scan_user row" using LookupUser_Inr(1) by blast
  then show ?thesis using Inr completeAuthForUser_became [of row w d i] by (auto simp: completeAuth_def)
qed

text \<open>A stage either leaves the connection alone (up to a new challenge) or logs it in for a reason.\<close>

lemma passwordLogin_sound:
  "aw_client (snd (passwordLogin d i msg scopes p w)) = aw_client w \<or>
   authenticated d i (FAuthenticate (Some msg)) w (aw_client (snd (passwordLogin d i msg scopes p w)))"
  unfolding passwordLogin_def
proof (rule with_attempt_rule [where Q = "\<lambda>v. aw_client v = aw_client w \<or> authenticated d i (FAuthenticate (Some msg)) w (aw_client v)"], goal_cases)
  case (1 l)
  then show ?case by simp
next
  case (2 a l a' r w' l')
  show ?case
  proof (cases "\<exists>u. AuthenticateIdentifier (dp_crypto d) (ai_fails i AQCredential) (am_Username msg) (am_Password msg) (aw_users w) = Inr (Some u)")
    case False
    with 2 show ?thesis by (auto dest!: attempt_ends split: sum.splits auth_error.splits option.splits)
  next
    case True
    then obtain u where u: "AuthenticateIdentifier (dp_crypto d) (ai_fails i AQCredential) (am_Username msg) (am_Password msg) (aw_users w) = Inr (Some u)" ..
    from AuthenticateIdentifier_sound [OF u] obtain row h where row: "row \<in> set (ad_users (aw_users w))"
      "ur_unique row = am_Username msg \<or> ur_nick row = Some (am_Username msg)"
      "ur_hash row = Some h" "ac_verifyPassword (dp_crypto d) (am_Password msg) h" "u = scan_user row" by blast
    obtain v where "completeAuthForUser d i u v = (r, w')" using 2 u by (auto dest!: succeed_withD)
    then have "is_account row (aw_client w')" using completeAuthForUser_became [of row v d i] row(5) by (simp add: became_def)
    then show ?thesis using by_password [OF refl row(1-4)] by simp
  qed
qed

lemma accountStage_sound:
  "tc_authed (aw_client (snd (accountStage d i msg w))) = tc_authed (aw_client w) \<or>
   authenticated d i (FAuthenticate (Some msg)) w (aw_client (snd (accountStage d i msg w)))"
proof -
  have g: "authenticated d i (FAuthenticate (Some msg)) w (aw_client (snd (completeGuestAuth d i (''guest:'' @ ai_guestID i) n w)))"
    if "am_Anonymous msg" for n
    using completeGuestAuth_became [of "''guest:'' @ ai_guestID i" w d i n] that by (auto simp: became_def intro: anonymous)
  show ?thesis
    using passwordLogin_sound [of d i msg _ _ w] g
    by (auto simp: accountStage_def Let_def issueChallenge_def setChallenge_def split: prod.split option.split) metis+
qed

lemma serverPasswordStage_passed:
  "aw_client (snd (serverPasswordStage d i msg w)) = aw_client w \<or>
   ((dp_serverHash d = [] \<or> verifyServerPassword d (am_ServerPassword msg)) \<and>
    (\<exists>l l'. snd (serverPasswordStage d i msg w) = (snd (accountStage d i msg (w\<lparr>aw_lim := l\<rparr>)))\<lparr>aw_lim := l'\<rparr>))"
proof (cases "dp_serverHash d = []")
  case True
  then have "snd (serverPasswordStage d i msg w) =
      (snd (accountStage d i msg (w\<lparr>aw_lim := aw_lim w\<rparr>)))\<lparr>aw_lim := aw_lim (snd (accountStage d i msg w))\<rparr>"
    by (simp add: serverPasswordStage_def)
  with True show ?thesis by blast
next
  case False
  let ?Q = "\<lambda>v. aw_client v = aw_client w \<or> (verifyServerPassword d (am_ServerPassword msg) \<and>
    (\<exists>l l'. v = (snd (accountStage d i msg (w\<lparr>aw_lim := l\<rparr>)))\<lparr>aw_lim := l'\<rparr>))"
  have "?Q (snd (serverPasswordStage d i msg w))"
    using False unfolding serverPasswordStage_def Let_def
  proof (simp, intro with_attempt_rule [where Q = ?Q], goal_cases)
    case (2 a l a' r w' l')
    show ?case
    proof (cases "verifyServerPassword d (am_ServerPassword msg)")
      case True
      with 2 obtain l1 where "accountStage d i msg (w\<lparr>aw_lim := l1\<rparr>) = (r, w')" by (auto dest!: succeed_withD)
      then have "w' = snd (accountStage d i msg (w\<lparr>aw_lim := l1\<rparr>))" by simp
      with True show ?thesis by blast
    qed (use 2 in \<open>auto dest: attempt_ends\<close>)
  qed simp
  then show ?thesis by blast
qed

lemma handleAuthenticate_sound:
  "tc_authed (aw_client (snd (handleAuthenticate d i m w))) = tc_authed (aw_client w) \<or>
   authenticated d i (FAuthenticate m) w (aw_client (snd (handleAuthenticate d i m w)))"
proof (cases m)
  case None
  then show ?thesis by (simp add: handleAuthenticate_def)
next
  case (Some msg)
  let ?w = "capture_key (am_X25519PublicKey msg) w"
  have t: "authenticated d i (FAuthenticate (Some msg)) w c" if "authenticated d i (FAuthenticate (Some msg)) (?w\<lparr>aw_lim := l\<rparr>) c" for l c
    using authenticated_transfer [OF that, of w] by simp
  from serverPasswordStage_passed [of d i msg ?w]
  have "tc_authed (aw_client (snd (serverPasswordStage d i msg ?w))) = tc_authed (aw_client w) \<or>
    authenticated d i (FAuthenticate (Some msg)) w (aw_client (snd (serverPasswordStage d i msg ?w)))"
  proof (elim disjE conjE exE)
    fix l l' assume e: "snd (serverPasswordStage d i msg ?w) = (snd (accountStage d i msg (?w\<lparr>aw_lim := l\<rparr>)))\<lparr>aw_lim := l'\<rparr>"
    from accountStage_sound [of d i msg "?w\<lparr>aw_lim := l\<rparr>"] t show ?thesis unfolding e by auto
    from accountStage_sound [of d i msg "?w\<lparr>aw_lim := l\<rparr>"] t show ?thesis unfolding e by auto
  qed simp
  then show ?thesis using Some by (auto simp: handleAuthenticate_def Let_def split: sum.split)
qed

text \<open>Nothing happens to the connection before the server password is accepted.\<close>

lemma handleAuthenticate_passed:
  assumes "tc_authed (aw_client (snd (handleAuthenticate d i m w))) \<noteq> tc_authed (aw_client w) \<or>
    tc_challenge (aw_client (snd (handleAuthenticate d i m w))) \<noteq> tc_challenge (aw_client w)"
  shows "\<exists>msg. m = Some msg \<and> (dp_serverHash d = [] \<or> verifyServerPassword d (am_ServerPassword msg)) \<and>
    banRejectReason d i (am_Username msg) (capture_key (am_X25519PublicKey msg) w) = Inr []"
proof (cases m)
  case None
  with assms show ?thesis by (simp add: handleAuthenticate_def)
next
  case (Some msg)
  let ?w = "capture_key (am_X25519PublicKey msg) w"
  let ?changed = "\<lambda>v. tc_authed (aw_client v) \<noteq> tc_authed (aw_client w) \<or> tc_challenge (aw_client v) \<noteq> tc_challenge (aw_client w)"
  have ch: "?changed (snd (handleAuthenticate d i (Some msg) w))" using assms Some by simp
  then have "banRejectReason d i (am_Username msg) ?w = Inr [] \<and> ?changed (snd (serverPasswordStage d i msg ?w))"
    unfolding handleAuthenticate_def Let_def by (simp split: sum.split_asm if_split_asm)
  with serverPasswordStage_passed [of d i msg ?w] Some show ?thesis by (metis capture_key_simps(5,6))
qed

lemma takeChallengeW_cases:
  assumes "takeChallengeW i u w = (x, w')"
  shows "(x = None \<and> w' = w) \<or>
    (\<exists>ch. x = Some (ch, tc_challengeNick (aw_client w)) \<and> pending_challenge i u (aw_client w) ch \<and> tc_challenge (aw_client w') = None \<and>
      tc_authed (aw_client w') = tc_authed (aw_client w) \<and> aw_users w' = aw_users w)"
proof -
  obtain c where t: "takeChallenge (ai_now i 9) u (aw_client w) = (x, c)" "w' = w\<lparr>aw_client := c\<rparr>"
    using assms by (auto simp: takeChallengeW_def split: prod.splits)
  have a: "tc_authed c = tc_authed (aw_client w)" using takeChallenge_fields(1) [of "ai_now i 9" u "aw_client w"] t(1) by simp
  show ?thesis
  proof (cases x)
    case None
    with t have "c = aw_client w" by (auto simp: takeChallenge_def split: option.splits if_splits)
    with t None show ?thesis by simp
  next
    case (Some q)
    obtain ch n where "q = (ch, n)" by fastforce
    with takeChallenge_single_use [of "ai_now i 9" u "aw_client w" ch n c] t Some a show ?thesis
      by (auto simp: pending_challenge_def)
  qed
qed

text \<open>The connection after a signature: not logged in and no newer challenge, or logged in for a reason and the challenge is used up.\<close>

definition sig_result :: "auth_deps \<Rightarrow> auth_in \<Rightarrow> AuthSignature \<Rightarrow> auth_world \<Rightarrow> auth_world \<Rightarrow> bool" where
  "sig_result d i msg w v \<longleftrightarrow>
     (tc_authed (aw_client v) = tc_authed (aw_client w) \<and> tc_challenge (aw_client v) \<in> {tc_challenge (aw_client w), None}) \<or>
     (authenticated d i (FAuthSignature (Some msg)) w (aw_client v) \<and> tc_challenge (aw_client v) = None)"

lemma sig_result_same: "aw_client v = aw_client w \<Longrightarrow> sig_result d i msg w v"
  by (simp add: sig_result_def)

lemma sig_result_taken:
  "tc_challenge (aw_client v1) = None \<Longrightarrow> tc_authed (aw_client v1) = tc_authed (aw_client w) \<Longrightarrow> aw_client v = aw_client v1 \<Longrightarrow> sig_result d i msg w v"
  by (simp add: sig_result_def)

lemma sig_result_in:
  "authenticated d i (FAuthSignature (Some msg)) w (aw_client v) \<Longrightarrow> became P c (aw_client v) \<Longrightarrow> tc_challenge c = None \<Longrightarrow> sig_result d i msg w v"
  by (simp add: sig_result_def became_def)

lemma accountSignature_sound: "sig_result d i msg w (snd (accountSignature d i msg w))"
  unfolding accountSignature_def Let_def
proof (rule with_attempt_rule [where Q = "sig_result d i msg w"], goal_cases)
  case (1 l)
  then show ?case by (simp add: sig_result_same)
next
  case (2 a l a' r w' l')
  let ?w = "w\<lparr>aw_lim := l\<rparr>"
  obtain x w1 where t: "takeChallengeW i (sm_UniqueID msg) ?w = (x, w1)" by fastforce
  show ?case
  proof (cases x)
    case None
    with 2 t takeChallengeW_cases [OF t] show ?thesis by (auto intro!: sig_result_same dest!: attempt_ends)
  next
    case (Some q)
    with takeChallengeW_cases [OF t] obtain ch n where ch: "q = (ch, n)" "pending_challenge i (sm_UniqueID msg) (aw_client w) ch"
      "tc_challenge (aw_client w1) = None" "tc_authed (aw_client w1) = tc_authed (aw_client w)" "aw_users w1 = aw_users w" by auto
    show ?thesis
    proof (cases "AuthenticateChallenge (dp_crypto d) (ai_fails i AQKey) (sm_UniqueID msg) ch (sm_Signature msg) (aw_users w1) = Inr True")
      case False
      with 2 t Some ch show ?thesis
        by (auto split: sum.splits auth_error.splits bool.splits dest!: attempt_ends intro!: sig_result_taken [of w1])
    next
      case True
      then obtain v where v: "completeAuth d i (sm_UniqueID msg) (w1\<lparr>aw_lim := v\<rparr>) = (r, w')"
        using 2 t Some ch by (auto dest!: succeed_withD)
      from AuthenticateChallenge_sound [OF True] obtain row pem where row: "row \<in> set (ad_users (aw_users w))"
        "ur_unique row = sm_UniqueID msg" "ur_pub row = Some pem" "VerifyChallenge (dp_crypto d) pem ch (sm_Signature msg)" using ch by auto
      from completeAuth_became [of d i "sm_UniqueID msg" "w1\<lparr>aw_lim := v\<rparr>"] v ch(5)
      consider "aw_client w' = aw_client w1"
        | row' where "row' \<in> set (ad_users (aw_users w))" "ur_unique row' = sm_UniqueID msg" "became (is_account row') (aw_client w1) (aw_client w')"
        by auto
      then show ?thesis
      proof cases
        case 1
        with ch show ?thesis by (auto intro!: sig_result_taken [of w1])
      next
        case 2
        with by_signature [OF refl ch(2) row] ch(3) show ?thesis
          by (intro sig_result_in [where P = "is_account row'" and c = "aw_client w1"]) (auto simp: became_def)
      qed
    qed
  qed
qed

lemma keyLogin_cases:
  assumes "keyLogin d i pk u n p a v = (a', r, w')"
  shows "aw_client w' = aw_client v \<or>
    (\<exists>row \<in> set (ad_users (aw_users v)). (ur_unique row = u \<or> ur_pub row = Some pk) \<and> became (is_account row) (aw_client v) (aw_client w')) \<or>
    ((\<forall>row \<in> set (ad_users (aw_users v)). ur_unique row \<noteq> u \<and> ur_pub row \<noteq> Some pk) \<and> became (is_guest u) (aw_client v) (aw_client w'))"
proof -
  have unknown: "LookupUser (ai_fails i AQUser) u (aw_users v) = Inl ErrUserNotFound" if "\<not> aw_client w' = aw_client v"
      "\<nexists>x. LookupUser (ai_fails i AQUser) u (aw_users v) = Inr x"
    using assms that by (auto simp: keyLogin_def split: sum.splits auth_error.splits dest!: attempt_ends)
  consider (known) x where "LookupUser (ai_fails i AQUser) u (aw_users v) = Inr x"
    | (bound) x where "LookupUser (ai_fails i AQUser) u (aw_users v) = Inl ErrUserNotFound" "LookupUserByPublicKey (ai_fails i AQPubUser) pk (aw_users v) = Inr x"
    | (guest) "LookupUser (ai_fails i AQUser) u (aw_users v) = Inl ErrUserNotFound" "LookupUserByPublicKey (ai_fails i AQPubUser) pk (aw_users v) = Inl ErrUserNotFound"
    | (same) "aw_client w' = aw_client v"
    using assms unknown unfolding keyLogin_def
    by (cases "LookupUserByPublicKey (ai_fails i AQPubUser) pk (aw_users v)") (auto split: sum.splits auth_error.splits dest!: attempt_ends)
  then show ?thesis
  proof cases
    case known
    then obtain l where "completeAuth d i u (v\<lparr>aw_lim := l\<rparr>) = (r, w')" using assms by (auto simp: keyLogin_def dest!: succeed_withD)
    with completeAuth_became [of d i u "v\<lparr>aw_lim := l\<rparr>"] show ?thesis by auto
  next
    case (bound x)
    then obtain l where l: "completeAuthForUser d i x (v\<lparr>aw_lim := l\<rparr>) = (r, w')" using assms by (auto simp: keyLogin_def dest!: succeed_withD)
    from LookupUser_Inr(2) [OF bound(2)] obtain row where "row \<in> set (ad_users (aw_users v))" "ur_pub row = Some pk" "x = scan_user row" by blast
    with l completeAuthForUser_became [of row "v\<lparr>aw_lim := l\<rparr>" d i] show ?thesis by auto
  next
    case guest
    then obtain l where "completeGuestAuth d i u n (v\<lparr>aw_lim := l\<rparr>) = (r, w')" using assms by (auto simp: keyLogin_def dest!: succeed_withD)
    with completeGuestAuth_became [of u "v\<lparr>aw_lim := l\<rparr>" d i n] show ?thesis using LookupUser_missing guest by auto
  qed simp
qed

lemma handleGuestSignature_sound: "sig_result d i msg w (snd (handleGuestSignature d i msg w))"
proof (cases "UniqueIDFromPublicKey (dp_crypto d) (sm_PublicKey msg)")
  case None
  then show ?thesis unfolding handleGuestSignature_def Let_def
    by (simp, intro with_attempt_rule [where Q = "sig_result d i msg w"]) (auto intro!: sig_result_same dest: attempt_ends)
next
  case (Some u)
  let ?body = "\<lambda>a w. (case takeChallengeW i [] w of
      (None, w1) \<Rightarrow> fail_with i 4 ''no pending challenge'' a w1
    | (Some (challenge, nickname), w1) \<Rightarrow>
        if \<not> VerifyChallenge (dp_crypto d) (sm_PublicKey msg) challenge (sm_Signature msg)
        then fail_with i 4 ''invalid credentials'' a w1
        else keyLogin d i (sm_PublicKey msg) u nickname (LoginFailureScope (dp_crypto d) [] u) a w1)"
  have body: "sig_result d i msg w (snd (with_attempt i 4 scopes ?body w))" for scopes
  proof (rule with_attempt_rule [where Q = "sig_result d i msg w"], goal_cases)
    case (1 l)
    then show ?case by (simp add: sig_result_same)
  next
    case (2 a l a' r w' l')
    let ?w = "w\<lparr>aw_lim := l\<rparr>"
    obtain x w1 where t: "takeChallengeW i [] ?w = (x, w1)" by fastforce
    show ?case
    proof (cases x)
      case None
      with 2 t takeChallengeW_cases [OF t] show ?thesis by (auto intro!: sig_result_same dest!: attempt_ends)
    next
      case (Some q)
      with takeChallengeW_cases [OF t] obtain ch n where ch: "q = (ch, n)" "pending_challenge i [] (aw_client w) ch"
        "tc_challenge (aw_client w1) = None" "tc_authed (aw_client w1) = tc_authed (aw_client w)" "aw_users w1 = aw_users w" by auto
      show ?thesis
      proof (cases "VerifyChallenge (dp_crypto d) (sm_PublicKey msg) ch (sm_Signature msg)")
        case False
        with 2 t Some ch show ?thesis by (auto dest!: attempt_ends intro!: sig_result_taken [of w1])
      next
        case True
        with 2 t Some ch have "keyLogin d i (sm_PublicKey msg) u n (LoginFailureScope (dp_crypto d) [] u) a w1 = (a', r, w')" by simp
        from keyLogin_cases [OF this] show ?thesis
        proof (elim disjE conjE bexE)
          assume "aw_client w' = aw_client w1"
          with ch show ?thesis by (auto intro!: sig_result_taken [of w1])
        next
          fix row assume row: "row \<in> set (ad_users (aw_users w1))" "ur_unique row = u" "became (is_account row) (aw_client w1) (aw_client w')"
          with by_key [OF refl ch(2) \<open>UniqueIDFromPublicKey (dp_crypto d) (sm_PublicKey msg) = Some u\<close> True] ch(3,5) show ?thesis
            by (intro sig_result_in [where P = "is_account row" and c = "aw_client w1"]) (auto simp: became_def)
        next
          fix row assume row: "row \<in> set (ad_users (aw_users w1))" "ur_pub row = Some (sm_PublicKey msg)" "became (is_account row) (aw_client w1) (aw_client w')"
          with by_key [OF refl ch(2) \<open>UniqueIDFromPublicKey (dp_crypto d) (sm_PublicKey msg) = Some u\<close> True] ch(3,5) show ?thesis
            by (intro sig_result_in [where P = "is_account row" and c = "aw_client w1"]) (auto simp: became_def)
        next
          assume g: "\<forall>row \<in> set (ad_users (aw_users w1)). ur_unique row \<noteq> u \<and> ur_pub row \<noteq> Some (sm_PublicKey msg)" "became (is_guest u) (aw_client w1) (aw_client w')"
          with by_guest_key [OF refl ch(2) \<open>UniqueIDFromPublicKey (dp_crypto d) (sm_PublicKey msg) = Some u\<close> True] ch(3,5) show ?thesis
            by (intro sig_result_in [where P = "is_guest u" and c = "aw_client w1"]) (auto simp: became_def)
        qed
      qed
    qed
  qed
  show ?thesis using body Some unfolding handleGuestSignature_def Let_def by (auto intro!: sig_result_same split: sum.split)
qed

lemma handleAuthSignature_sound:
  "(tc_authed (aw_client (snd (handleAuthSignature d i m w))) = tc_authed (aw_client w) \<and>
    tc_challenge (aw_client (snd (handleAuthSignature d i m w))) \<in> {tc_challenge (aw_client w), None}) \<or>
   (authenticated d i (FAuthSignature m) w (aw_client (snd (handleAuthSignature d i m w))) \<and>
    tc_challenge (aw_client (snd (handleAuthSignature d i m w))) = None)"
proof (cases m)
  case None
  then show ?thesis by (simp add: handleAuthSignature_def)
next
  case (Some msg)
  let ?w = "capture_key (sm_X25519PublicKey msg) w"
  have t: "sig_result d i msg w v" if "sig_result d i msg ?w v" for v
    using that authenticated_transfer [of d i "FAuthSignature (Some msg)" ?w _ w] by (auto simp: sig_result_def)
  have "tc_authed (aw_client w) \<or> sig_result d i msg w (snd (handleAuthSignature d i m w))"
    using t [OF handleGuestSignature_sound] t [OF accountSignature_sound] Some
    by (auto simp: handleAuthSignature_def Let_def sig_result_def [of _ _ _ _ "emit _ _"])
  then show ?thesis using Some by (auto simp: sig_result_def handleAuthSignature_def)
qed

lemma handleServerRulesAccept_client:
  "aw_client (snd (handleServerRulesAccept d i m w)) =
     (aw_client w)\<lparr>tc_rulesPending := tc_rulesPending (aw_client (snd (handleServerRulesAccept d i m w)))\<rparr>"
  by (auto simp: handleServerRulesAccept_def Let_def writeMessage_def sendErrorFor_def setRulesPending_def split: option.split bool.split)

lemma handleServerRulesAccept_fields [simp]:
  "tc_authed (aw_client (snd (handleServerRulesAccept d i m w))) = tc_authed (aw_client w)"
  "tc_challenge (aw_client (snd (handleServerRulesAccept d i m w))) = tc_challenge (aw_client w)"
  by (subst handleServerRulesAccept_client, simp)+

lemma notePong_fields [simp]:
  "tc_authed (notePong t c) = tc_authed c" "tc_challenge (notePong t c) = tc_challenge c" "tc_rulesPending (notePong t c) = tc_rulesPending c"
  by (simp_all add: notePong_def split: option.split)

subsection \<open>A connection's whole life\<close>

text \<open>
  The frames of one connection in order, with arbitrary changes of everything else in between.  A handler that
  returns an error ends the connection.
\<close>

datatype auth_op = ADispatch auth_in auth_frame | AEnv auth_world

fun auth_step ::
  "auth_deps \<Rightarrow> (nat \<Rightarrow> auth_in \<Rightarrow> auth_world \<Rightarrow> bool \<times> auth_world) \<Rightarrow> auth_op \<Rightarrow> auth_op list \<times> bool \<times> auth_world \<Rightarrow> auth_op list \<times> bool \<times> auth_world" where
  "auth_step d other p (hist, up, w) =
     (hist @ [p],
      if \<not> up then (up, w)
      else (case p of ADispatch i f \<Rightarrow> dispatch d other i f w | AEnv v \<Rightarrow> (True, v\<lparr>aw_client := aw_client w\<rparr>)))"

definition server_password_shown :: "auth_deps \<Rightarrow> auth_op list \<Rightarrow> bool" where
  "server_password_shown d hist \<longleftrightarrow>
     dp_serverHash d = [] \<or>
     (\<exists>i msg. ADispatch i (FAuthenticate (Some msg)) \<in> set hist \<and> verifyServerPassword d (am_ServerPassword msg))"

definition auth_inv :: "auth_deps \<Rightarrow> auth_op list \<times> bool \<times> auth_world \<Rightarrow> bool" where
  "auth_inv d s \<longleftrightarrow>
     (case s of (hist, _, w) \<Rightarrow>
        tc_authed (aw_client w) \<or> tc_challenge (aw_client w) \<noteq> None \<longrightarrow> server_password_shown d hist)"

definition auth_start :: "client_id \<Rightarrow> time \<Rightarrow> auth_world \<Rightarrow> auth_op list \<times> bool \<times> auth_world" where
  "auth_start cid now w = ([], True, w\<lparr>aw_client := new_client cid now\<rparr>)"

lemma shown_mono: "server_password_shown d hist \<Longrightarrow> server_password_shown d (hist @ [p])"
  by (auto simp: server_password_shown_def)

lemma dispatch_shown:
  assumes "\<not> tc_authed (aw_client w)" "tc_challenge (aw_client w) = None"
    "tc_authed (aw_client (snd (dispatch d other i f w))) \<or> tc_challenge (aw_client (snd (dispatch d other i f w))) \<noteq> None"
  shows "\<exists>msg. f = FAuthenticate (Some msg) \<and> (dp_serverHash d = [] \<or> verifyServerPassword d (am_ServerPassword msg))"
proof (cases f)
  case (FAuthenticate m)
  then show ?thesis using assms handleAuthenticate_passed [of d i m w] by (auto simp: dispatch_def split: if_splits)
next
  case (FAuthSignature m)
  have "\<not> authenticated d i (FAuthSignature m) w c" for c
    using assms(2) by (auto elim!: authenticatedE simp: pending_challenge_def)
  then show ?thesis using assms handleAuthSignature_sound [of d i m w] FAuthSignature by (auto simp: dispatch_def split: if_splits)
qed (use assms in \<open>auto simp: dispatch_def split: if_splits\<close>)

lemma auth_step_inv:
  assumes "auth_inv d s"
  shows "auth_inv d (auth_step d other p s)"
proof -
  obtain hist up w where s: "s = (hist, up, w)" by (rule prod_cases3)
  have keep: ?thesis if "tc_authed (aw_client w) \<or> tc_challenge (aw_client w) \<noteq> None"
    using assms shown_mono [of d hist p] that by (auto simp: auth_inv_def s split: prod.splits)
  have new: ?thesis if "\<not> tc_authed (aw_client w)" "tc_challenge (aw_client w) = None"
  proof (cases p)
    case (ADispatch i f)
    have "server_password_shown d (hist @ [ADispatch i f])"
      if "tc_authed (aw_client (snd (dispatch d other i f w))) \<or> tc_challenge (aw_client (snd (dispatch d other i f w))) \<noteq> None"
      using dispatch_shown [OF \<open>\<not> tc_authed (aw_client w)\<close> \<open>tc_challenge (aw_client w) = None\<close> that] by (auto simp: server_password_shown_def)
    with that show ?thesis by (auto simp: auth_inv_def s ADispatch split: prod.splits)
  next
    case (AEnv v)
    with that show ?thesis by (auto simp: auth_inv_def s)
  qed
  show ?thesis using keep new by blast
qed

lemma auth_start_inv: "auth_inv d (auth_start cid now w)"
  by (simp add: auth_inv_def auth_start_def new_client_def)

interpretation auth_life: invariant_system "auth_step d other" "\<lambda>p s. True" "auth_inv d" "auth_start cid now w"
  by unfold_locales (simp_all add: auth_step_inv auth_start_inv)

lemma auth_hist: "fst (run_ops (auth_step d other) ops s) = fst s @ ops"
proof (induction ops arbitrary: s)
  case (Cons p ops)
  obtain hist up w where "s = (hist, up, w)" by (rule prod_cases3)
  with Cons show ?case by simp
qed simp

subsection \<open>A server to run\<close>

definition demo_deps :: auth_deps where
  "demo_deps =
     \<lparr>dp_auth = True, dp_crypto = demo_crypto, dp_serverHash = ''$gate'', dp_verifyServer = None, dp_lastIP = True, dp_groups = True,
      dp_memberGroup = 3, dp_guestGroup = 4, dp_perms = True, dp_state = True, dp_broadcast = True, dp_rules = True\<rparr>"

definition demo_in :: auth_in where
  "demo_in =
     \<lparr>ai_now = (\<lambda>k. int k), ai_ord = (\<lambda>es. sorted_list_of_fset (fmdom es)), ai_fails = (\<lambda>_. False), ai_pfails = (\<lambda>_. False),
      ai_write = (\<lambda>_. True), ai_challenge = Some [7], ai_guestID = ''aa'', ai_announce = False\<rparr>"

text \<open>One account, whose unique id is banned; rules that nobody has accepted yet.\<close>

definition demo_users :: auth_db where
  "demo_users =
     \<lparr>ad_users = [\<lparr>ur_id = 5, ur_unique = ''U5'', ur_nick = Some ''eve'', ur_admin = False, ur_hash = Some ''$secret'', ur_pub = None\<rparr>],
      ad_bans = [\<lparr>br_id = 1, br_type = 1, br_value = ''U5'', br_reason = None, br_channel = None, br_expires = None\<rparr>]\<rparr>"

definition demo_perm_db :: perm_db where
  "demo_perm_db =
     \<lparr>pd_permissions = fmempty, pd_server_group_members = [], pd_server_group_permissions = [], pd_client_permissions = [],
      pd_channel_group_members = [], pd_channel_group_permissions = [], pd_channel_client_permissions = [],
      pd_channel_permissions = [], pd_channels = fmempty\<rparr>"

definition demo_world :: auth_world where
  "demo_world =
     \<lparr>aw_client = new_client ''c1'' 0, aw_host = Some ''10.0.0.1'', aw_addr = ''10.0.0.1:9'', aw_taken = [],
      aw_lim = NewLoginFailureLimiter \<lparr>lc_MaxFailures = 0, lc_LockoutDuration = 0, lc_FailureTTL = 0, lc_MaxEntries = 0, lc_MaxConcurrentKDF = 0\<rparr>,
      aw_users = demo_users, aw_rules = \<lparr>rd_text = ''be kind'', rd_accepted = fmempty\<rparr>, aw_perm = demo_perm_db,
      aw_loader = NewLoader, aw_mgr = state_New, aw_out = []\<rparr>"

definition demo_login :: "string \<Rightarrow> auth_frame" where
  "demo_login name =
     FAuthenticate (Some \<lparr>am_Username = name, am_Password = ''secret'', am_ServerPassword = ''gate'', am_Nickname = [],
       am_Anonymous = False, am_PublicKey = [], am_X25519PublicKey = []\<rparr>)"

definition no_other :: "nat \<Rightarrow> auth_in \<Rightarrow> auth_world \<Rightarrow> bool \<times> auth_world" where
  "no_other t i w = (True, w)"

definition demo_seen :: "auth_world \<Rightarrow> bool \<times> string \<times> bool" where
  "demo_seen w = (case aw_client w of c \<Rightarrow> (tc_authed c, tc_UniqueID c, tc_rulesPending c))"

lemma demo_run_eve: "demo_seen (snd (dispatch demo_deps no_other demo_in (demo_login ''eve'') demo_world)) = (True, ''U5'', True)"
  by code_simp

lemma demo_run_by_name:
  "tc_authed (aw_client (snd (dispatch demo_deps no_other demo_in (demo_login ''eve'') demo_world)))"
  "tc_UniqueID (aw_client (snd (dispatch demo_deps no_other demo_in (demo_login ''eve'') demo_world))) = ''U5''"
  "tc_rulesPending (aw_client (snd (dispatch demo_deps no_other demo_in (demo_login ''eve'') demo_world)))"
  using demo_run_eve by (simp_all add: demo_seen_def)

lemma demo_run_by_id:
  "\<not> tc_authed (aw_client (snd (dispatch demo_deps no_other demo_in (demo_login ''U5'') demo_world)))"
  by code_simp

subsection \<open>Claims\<close>

text \<open>C2: A connection that a frame logs in has been authenticated by it: it showed the password of the account it now stands for
  (the account whose unique id or nickname it named), or it asked for an anonymous session, or it signed the unexpired challenge
  pending on this connection with the key stored for the account or with the key it presented, and stands for the account of that
  key or, where there is none, for the guest of that key.  Accounts' admin rights come from their row, guests have none.  A
  challenge that a signature was checked against is used up.\<close>

theorem login_is_proved:
  assumes "\<not> tc_authed (aw_client w)" "tc_authed (aw_client (snd (dispatch d other i f w)))"
  shows "authenticated d i f w (aw_client (snd (dispatch d other i f w))) \<and>
    (\<forall>m. f = FAuthSignature m \<longrightarrow> tc_challenge (aw_client (snd (dispatch d other i f w))) = None)"
proof (cases f)
  case (FAuthenticate m)
  then show ?thesis using assms handleAuthenticate_sound [of d i m w] by (auto simp: dispatch_def split: if_splits)
next
  case (FAuthSignature m)
  then show ?thesis using assms handleAuthSignature_sound [of d i m w] by (auto simp: dispatch_def split: if_splits)
qed (use assms in \<open>auto simp: dispatch_def split: if_splits\<close>)

theorem login_is_proved_witness:
  "authenticated demo_deps demo_in (demo_login ''eve'') demo_world (aw_client (snd (dispatch demo_deps no_other demo_in (demo_login ''eve'') demo_world)))"
  using login_is_proved [OF _ demo_run_by_name(1)] by (simp add: demo_world_def new_client_def)

text \<open>C9: Over the whole life of a connection, whatever frames arrive and whatever else happens in between: once it is logged in, and
  the server has a password, one of its frames was an Authenticate that showed the server password.\<close>

theorem server_password_required:
  assumes "run_ops (auth_step d other) ops (auth_start cid now w) = (hist, up, w')" "tc_authed (aw_client w')" "dp_serverHash d \<noteq> []"
  shows "\<exists>i msg. ADispatch i (FAuthenticate (Some msg)) \<in> set ops \<and> verifyServerPassword d (am_ServerPassword msg)"
proof -
  have "auth_inv d (run_ops (auth_step d other) ops (auth_start cid now w))" by (rule auth_life.run_start_inv) simp
  moreover have "hist = ops" using auth_hist [of d other ops "auth_start cid now w"] assms(1) by (simp add: auth_start_def)
  ultimately show ?thesis using assms by (auto simp: auth_inv_def server_password_shown_def)
qed

lemma demo_start: "auth_start ''c1'' 0 demo_world = ([], True, demo_world)"
  by (simp add: auth_start_def demo_world_def)

theorem server_password_required_witness:
  "\<exists>i msg. ADispatch i (FAuthenticate (Some msg)) \<in> set [ADispatch demo_in (demo_login ''eve'')] \<and>
     verifyServerPassword demo_deps (am_ServerPassword msg)"
proof (rule server_password_required)
  show "run_ops (auth_step demo_deps no_other) [ADispatch demo_in (demo_login ''eve'')] (auth_start ''c1'' 0 demo_world) =
    ([ADispatch demo_in (demo_login ''eve'')], fst (dispatch demo_deps no_other demo_in (demo_login ''eve'') demo_world),
     snd (dispatch demo_deps no_other demo_in (demo_login ''eve'') demo_world))"
    by (simp add: demo_start)
  show "tc_authed (aw_client (snd (dispatch demo_deps no_other demo_in (demo_login ''eve'') demo_world)))" by (rule demo_run_by_name)
  show "dp_serverHash demo_deps \<noteq> []" by (simp add: demo_deps_def)
qed

text \<open>C32: Every frame of the handshake gives back what it reserved: the login limiter keeps its invariant with the attempts that were
  open before, and the number of running verifications is unchanged.\<close>

theorem handshake_releases_slots:
  assumes "ll_inv \<lparr>sy_lim = aw_lim w, sy_atts = as\<rparr>" "\<And>t. f \<noteq> FOther t"
  shows "ll_inv \<lparr>sy_lim = aw_lim (snd (dispatch d other i f w)), sy_atts = as\<rparr> \<and>
    ll_inFlight (aw_lim (snd (dispatch d other i f w))) = ll_inFlight (aw_lim w)"
proof -
  have "lim_run (aw_lim w) (aw_lim (snd (dispatch d other i f w)))"
    using assms(2) by (cases f) (auto simp: dispatch_def handlers_run)
  from lim_run_inv [OF this assms(1)] show ?thesis by (rule conjI)
qed

theorem handshake_releases_slots_witness:
  "ll_inFlight (aw_lim (snd (dispatch demo_deps no_other demo_in (demo_login ''eve'') demo_world))) = ll_inFlight (aw_lim demo_world)"
proof -
  have "ll_inv \<lparr>sy_lim = aw_lim demo_world, sy_atts = []\<rparr>"
    using ll_start_inv by (simp add: demo_world_def ll_start_def)
  from handshake_releases_slots [OF this] show ?thesis by (simp add: demo_login_def)
qed

text \<open>C33: While a session owes an answer to the server rules, a frame other than the answer, Ping and Pong is refused with an error
  and changes nothing, and the gate opens only on an answer that carries the hash of the rules in force (recorded for a registered
  user) or when no rules are in force any more.\<close>

theorem rules_gate:
  assumes "tc_authed (aw_client w)" "tc_rulesPending (aw_client w)"
  shows "(if allowedWhileRulesPending f
     then tc_rulesPending (aw_client (snd (dispatch d other i f w))) \<or>
       (\<exists>h. f = FRulesAccept (Some h) \<and>
          (rules_Hash (dp_crypto d) (rd_text (aw_rules w)) = [] \<or>
           h = rules_Hash (dp_crypto d) (rd_text (aw_rules w)) \<and>
           (tc_UserID (aw_client w) = 0 \<or> fmlookup (rd_accepted (aw_rules (snd (dispatch d other i f w)))) (tc_UserID (aw_client w)) = Some h)))
     else snd (dispatch d other i f w) = emit (OError errCodePermissionDenied) w)"
  using assms
  by (cases f) (auto simp: dispatch_def handleServerRulesAccept_def Let_def rules_Text_def rules_Accept_def setRulesPending_def
      writeMessage_def sendErrorFor_def split: option.splits bool.splits if_splits)

theorem rules_gate_witness:
  "snd (dispatch demo_deps no_other demo_in (FOther 1) (snd (dispatch demo_deps no_other demo_in (demo_login ''eve'') demo_world))) =
     emit (OError errCodePermissionDenied) (snd (dispatch demo_deps no_other demo_in (demo_login ''eve'') demo_world))"
  using rules_gate [OF demo_run_by_name(1) demo_run_by_name(3), of "FOther 1" demo_deps no_other demo_in] by simp


text \<open>What the ban check does guarantee: a frame that names the banned id, or comes from a banned address, changes nothing but the
  encryption key of the connection.\<close>

lemma banned_name_refused:
  assumes "LookupActiveBan (ai_fails i AQBan) (ai_now i 0) (am_Username msg) (remoteIP w) (aw_users w) = Inr (Some b)"
    "\<not> tc_authed (aw_client w)" "dp_auth d"
  shows "\<exists>reason. snd (handleAuthenticate d i (Some msg) w) = emit (OAuthFail reason) (capture_key (am_X25519PublicKey msg) w)"
  using assms by (auto simp: handleAuthenticate_def banRejectReason_def Let_def split: option.split)

end
