(* ===== verification/Chat_Keys.thy ===== *)
theory Chat_Keys
  imports Go_Text
begin

text \<open>
  Chat keys: the ring of key-encryption keys (\<^verbatim>\<open>internal/chatcrypto/chatcrypto.go\<close>), the tables of wrapped key generations
  (\<^verbatim>\<open>internal/store/chatkeys.go\<close>) and the manager that mints, rotates and serves them (\<^verbatim>\<open>internal/server/chatkeys.go\<close>).

  NaCl's secretbox and anonymous box are the parameter \<open>nacl\<close>; what the code relies on of them is \<open>box_ok\<close>.  Randomness and
  the failures of statements are the argument \<open>key_env\<close> of an operation: a statement can fail without effect, or take effect
  and still report an error.  The manager holds the mutex of a scope for the whole of an operation, so an operation is a step.
\<close>

type_synonym key32 = "byte list"
type_synonym scope_id = int

record nacl =
  sb_seal :: "byte list \<Rightarrow> byte list \<Rightarrow> key32 \<Rightarrow> byte list"
  sb_open :: "byte list \<Rightarrow> byte list \<Rightarrow> key32 \<Rightarrow> byte list option"
  sb_anon :: "byte list \<Rightarrow> key32 \<Rightarrow> byte list \<Rightarrow> byte list"

text \<open>A box opens with the nonce and key it was sealed with and is 16 bytes longer than its content.\<close>

definition box_ok :: "nacl \<Rightarrow> bool" where
  "box_ok sb \<longleftrightarrow> (\<forall>m n k. sb_open sb (sb_seal sb m n k) n k = Some m \<and> length (sb_seal sb m n k) = 16 + length m)"

subsection \<open>The ring of key-encryption keys\<close>

definition WrappedLen :: nat where "WrappedLen = 24 + 16 + 32"

record KEKRing =
  kr_keys :: "(nat, key32) fmap"
  kr_newest :: nat

definition decodeKey :: "string \<Rightarrow> key32 option" where
  "decodeKey b64 = (case DecodeString b64 of None \<Rightarrow> None | Some raw \<Rightarrow> if length raw = 32 then Some raw else None)"

definition ring_entry :: "string \<Rightarrow> (nat \<times> string) option" where
  "ring_entry text =
     (case SplitN2 CHR '':'' text of
        None \<Rightarrow> Some (1, text)
      | Some (a, b) \<Rightarrow>
          (case ParseUint (TrimSpace a) 16 of
             None \<Rightarrow> None
           | Some n \<Rightarrow> if n = 0 then None else Some (n, TrimSpace b)))"

definition ring_line :: "string \<Rightarrow> KEKRing \<Rightarrow> KEKRing option" where
  "ring_line line ring =
     (let text = TrimSpace line
      in if text = [] \<or> HasPrefix text ''#'' then Some ring
         else
           (case ring_entry text of
              None \<Rightarrow> None
            | Some (n, body) \<Rightarrow>
                (case decodeKey body of
                   None \<Rightarrow> None
                 | Some key \<Rightarrow>
                     if fmlookup (kr_keys ring) n \<noteq> None then None
                     else Some \<lparr>kr_keys = fmupd n key (kr_keys ring), kr_newest = (if n > kr_newest ring then n else kr_newest ring)\<rparr>)))"

fun ring_lines :: "string list \<Rightarrow> KEKRing \<Rightarrow> KEKRing option" where
  "ring_lines [] ring = Some ring"
| "ring_lines (l # ls) ring = (case ring_line l ring of None \<Rightarrow> None | Some r \<Rightarrow> ring_lines ls r)"

text \<open>The scanner gives up on a line that does not fit its buffer of 64 KiB.\<close>

definition parseRing :: "string \<Rightarrow> KEKRing option" where
  "parseRing text =
     (let ls = Split CHR 0x0A text
      in if \<exists>l \<in> set ls. length l \<ge> 65536 then None
         else (case ring_lines ls \<lparr>kr_keys = fmempty, kr_newest = 0\<rparr> of
                 None \<Rightarrow> None
               | Some r \<Rightarrow> if kr_keys r = fmempty then None else Some r))"

text \<open>The key file, and how creating it can end: a write or sync failure leaves some text behind.\<close>

datatype key_file = NoFile | Unreadable | FileText string
datatype create_result = CreateOk | CreateFails | WriteFails string

definition ring_file_line :: "key32 \<Rightarrow> string" where
  "ring_file_line key = ''1:'' @ EncodeToString key @ [CHR 0x0A]"

definition createRing :: "key32 option \<Rightarrow> create_result \<Rightarrow> KEKRing option \<times> key_file" where
  "createRing random res =
     (case random of
        None \<Rightarrow> (None, NoFile)
      | Some key \<Rightarrow>
          (case res of
             CreateFails \<Rightarrow> (None, NoFile)
           | WriteFails left \<Rightarrow> (None, FileText left)
           | CreateOk \<Rightarrow> (Some \<lparr>kr_keys = fmupd 1 key fmempty, kr_newest = 1\<rparr>, FileText (ring_file_line key))))"

definition LoadKEKRing :: "string \<Rightarrow> string \<Rightarrow> bool \<Rightarrow> key32 option \<Rightarrow> create_result \<Rightarrow> key_file \<Rightarrow> KEKRing option \<times> key_file" where
  "LoadKEKRing path envB64 allowCreate random res file =
     (if TrimSpace envB64 \<noteq> [] then (parseRing envB64, file)
      else if path = [] then (None, file)
      else (case file of
              FileText t \<Rightarrow> (parseRing t, file)
            | Unreadable \<Rightarrow> (None, file)
            | NoFile \<Rightarrow> if \<not> allowCreate then (None, file) else createRing random res))"

definition Wrap :: "nacl \<Rightarrow> KEKRing \<Rightarrow> byte list option \<Rightarrow> key32 \<Rightarrow> (nat \<times> byte list) option" where
  "Wrap sb r nonce key =
     (case fmlookup (kr_keys r) (kr_newest r) of
        None \<Rightarrow> None
      | Some kek \<Rightarrow> (case nonce of None \<Rightarrow> None | Some n \<Rightarrow> Some (kr_newest r, n @ sb_seal sb key n kek)))"

definition Unwrap :: "nacl \<Rightarrow> KEKRing \<Rightarrow> nat \<Rightarrow> byte list \<Rightarrow> key32 option" where
  "Unwrap sb r kekID wrapped =
     (case fmlookup (kr_keys r) kekID of
        None \<Rightarrow> None
      | Some kek \<Rightarrow>
          if length wrapped \<noteq> WrappedLen then None
          else sb_open sb (drop 24 wrapped) (take 24 wrapped) kek)"

subsection \<open>The tables\<close>

record scope_row =
  sr_scope :: scope_id
  sr_id :: nat
  sr_wrapped :: "byte list"
  sr_kek :: nat
  sr_retired :: bool

record key_db =
  kd_rows :: "scope_row list"
  kd_seq :: "(scope_id, nat) fmap"

datatype fault = NoFault | FailBefore | FailAfter

text \<open>The row of the sequence holds the next id; the returned id must fit 32 bits.\<close>

definition next_id :: "scope_id \<Rightarrow> key_db \<Rightarrow> nat" where
  "next_id sc db = (case fmlookup (kd_seq db) sc of None \<Rightarrow> 1 | Some n \<Rightarrow> n)"

definition AllocScopeKeyID :: "fault \<Rightarrow> scope_id \<Rightarrow> key_db \<Rightarrow> nat option \<times> key_db" where
  "AllocScopeKeyID f sc db =
     (if f = FailBefore then (None, db)
      else
        let n = next_id sc db; db1 = db\<lparr>kd_seq := fmupd sc (n + 1) (kd_seq db)\<rparr>
        in if f = FailAfter \<or> n \<ge> 2 ^ 32 then (None, db1) else (Some n, db1))"

definition live_row :: "scope_id \<Rightarrow> scope_row \<Rightarrow> bool" where
  "live_row sc r \<longleftrightarrow> sr_scope r = sc \<and> \<not> sr_retired r"

definition row_at :: "scope_id \<Rightarrow> nat \<Rightarrow> scope_row \<Rightarrow> bool" where
  "row_at sc g r \<longleftrightarrow> sr_scope r = sc \<and> sr_id r = g"

text \<open>A query: an error, no row, or a row whose ids fit their types.\<close>

definition scanScopeKey :: "bool \<Rightarrow> scope_row option \<Rightarrow> unit + scope_row option" where
  "scanScopeKey fails r =
     (if fails then Inl ()
      else (case r of None \<Rightarrow> Inr None | Some x \<Rightarrow> if sr_id x \<ge> 2 ^ 32 \<or> sr_kek x \<ge> 2 ^ 16 then Inl () else Inr (Some x)))"

definition CurrentScopeKey :: "bool \<Rightarrow> scope_id \<Rightarrow> key_db \<Rightarrow> unit + scope_row option" where
  "CurrentScopeKey fails sc db = scanScopeKey fails (List.find (live_row sc) (kd_rows db))"

definition GetScopeKey :: "bool \<Rightarrow> scope_id \<Rightarrow> nat \<Rightarrow> key_db \<Rightarrow> unit + scope_row option" where
  "GetScopeKey fails sc g db = scanScopeKey fails (List.find (row_at sc g) (kd_rows db))"

text \<open>An insert violates the primary key, or the index that allows one live generation per scope.\<close>

definition InsertScopeKey :: "fault \<Rightarrow> scope_row \<Rightarrow> key_db \<Rightarrow> bool \<times> key_db" where
  "InsertScopeKey f r db =
     (if f = FailBefore then (False, db)
      else if (\<exists>x \<in> set (kd_rows db). row_at (sr_scope r) (sr_id r) x) \<or> (\<exists>x \<in> set (kd_rows db). live_row (sr_scope r) x) then (False, db)
      else (f = NoFault, db\<lparr>kd_rows := kd_rows db @ [r]\<rparr>))"

definition retire :: "scope_id \<Rightarrow> scope_row \<Rightarrow> scope_row" where
  "retire sc r = (if sr_scope r = sc then r\<lparr>sr_retired := True\<rparr> else r)"

definition RotateScopeKey :: "fault \<Rightarrow> scope_row \<Rightarrow> key_db \<Rightarrow> bool \<times> key_db" where
  "RotateScopeKey f r db =
     (if f = FailBefore then (False, db)
      else if \<exists>x \<in> set (kd_rows db). row_at (sr_scope r) (sr_id r) x then (False, db)
      else (f = NoFault, db\<lparr>kd_rows := map (retire (sr_scope r)) (kd_rows db) @ [r]\<rparr>))"

subsection \<open>The manager\<close>

definition maxArchivalGenerations :: nat where "maxArchivalGenerations = 64"

record scopeEntry =
  en_loaded :: bool
  en_curID :: nat
  en_curKey :: key32
  en_old :: "(nat, key32) fmap"
  en_oldLRU :: "nat list"

record chat_keys =
  ck_configured :: bool
  ck_ring :: KEKRing
  ck_db :: key_db
  ck_scopes :: "(scope_id, scopeEntry) fmap"

record key_env =
  ke_readFails :: bool
  ke_alloc :: fault
  ke_key :: "key32 option"
  ke_wrapNonce :: "byte list option"
  ke_write :: fault
  ke_nonce :: "byte list option"

datatype key_error = ErrNoScopeKey | ErrUnconfigured | ErrKeyBackend | ErrInvalidPublicKey | ErrCiphertext

definition new_entry :: scopeEntry where
  "new_entry = \<lparr>en_loaded = False, en_curID = 0, en_curKey = [], en_old = fmempty, en_oldLRU = []\<rparr>"

definition entry :: "scope_id \<Rightarrow> chat_keys \<Rightarrow> scopeEntry" where
  "entry sc ck = (case fmlookup (ck_scopes ck) sc of None \<Rightarrow> new_entry | Some e \<Rightarrow> e)"

definition put_entry :: "scope_id \<Rightarrow> scopeEntry \<Rightarrow> chat_keys \<Rightarrow> chat_keys" where
  "put_entry sc e ck = ck\<lparr>ck_scopes := fmupd sc e (ck_scopes ck)\<rparr>"

definition loadLocked :: "nacl \<Rightarrow> key_env \<Rightarrow> scope_id \<Rightarrow> chat_keys \<Rightarrow> key_error + scopeEntry" where
  "loadLocked sb env sc ck =
     (let e = entry sc ck
      in if en_loaded e then Inr e
         else if \<not> ck_configured ck then Inl ErrUnconfigured
         else
           (case CurrentScopeKey (ke_readFails env) sc (ck_db ck) of
              Inl _ \<Rightarrow> Inl ErrKeyBackend
            | Inr None \<Rightarrow> Inr (e\<lparr>en_loaded := True\<rparr>)
            | Inr (Some r) \<Rightarrow>
                (case Unwrap sb (ck_ring ck) (sr_kek r) (sr_wrapped r) of
                   None \<Rightarrow> Inl ErrKeyBackend
                 | Some key \<Rightarrow> Inr (e\<lparr>en_curID := sr_id r, en_curKey := key, en_loaded := True\<rparr>))))"

text \<open>The steps that minting and rotating share: an id from the sequence, a random key, its wrapping.\<close>

definition fresh_generation :: "nacl \<Rightarrow> key_env \<Rightarrow> scope_id \<Rightarrow> chat_keys \<Rightarrow> (scope_row \<times> key32) option \<times> chat_keys" where
  "fresh_generation sb env sc ck =
     (case AllocScopeKeyID (ke_alloc env) sc (ck_db ck) of
        (None, db) \<Rightarrow> (None, ck\<lparr>ck_db := db\<rparr>)
      | (Some g, db) \<Rightarrow>
          (case ke_key env of
             None \<Rightarrow> (None, ck\<lparr>ck_db := db\<rparr>)
           | Some key \<Rightarrow>
               (case Wrap sb (ck_ring ck) (ke_wrapNonce env) key of
                  None \<Rightarrow> (None, ck\<lparr>ck_db := db\<rparr>)
                | Some (kek, wrapped) \<Rightarrow>
                    (Some (\<lparr>sr_scope = sc, sr_id = g, sr_wrapped = wrapped, sr_kek = kek, sr_retired = False\<rparr>, key), ck\<lparr>ck_db := db\<rparr>))))"

definition mintLocked :: "nacl \<Rightarrow> key_env \<Rightarrow> scope_id \<Rightarrow> scopeEntry \<Rightarrow> chat_keys \<Rightarrow> (key_error + nat \<times> key32) \<times> chat_keys" where
  "mintLocked sb env sc e ck =
     (if \<not> ck_configured ck then (Inl ErrUnconfigured, put_entry sc e ck)
      else
        (case fresh_generation sb env sc ck of
           (None, ck1) \<Rightarrow> (Inl ErrKeyBackend, put_entry sc e ck1)
         | (Some (r, key), ck1) \<Rightarrow>
             (case InsertScopeKey (ke_write env) r (ck_db ck1) of
                (False, db) \<Rightarrow> (Inl ErrKeyBackend, put_entry sc e (ck1\<lparr>ck_db := db\<rparr>))
              | (True, db) \<Rightarrow>
                  (Inr (sr_id r, key),
                   put_entry sc (e\<lparr>en_curID := sr_id r, en_curKey := key, en_loaded := True\<rparr>) (ck1\<lparr>ck_db := db\<rparr>)))))"

text \<open>The loop drops from the front until the cache is within its bound.\<close>

definition cacheOldLocked :: "nat \<Rightarrow> key32 \<Rightarrow> scopeEntry \<Rightarrow> scopeEntry" where
  "cacheOldLocked g key e =
     (if g = 0 then e
      else
        let lru = (if fmlookup (en_old e) g = None then en_oldLRU e @ [g] else en_oldLRU e);
            old = fmupd g key (en_old e);
            n = length lru - maxArchivalGenerations
        in e\<lparr>en_oldLRU := drop n lru, en_old := fmdrop_set (set (take n lru)) old\<rparr>)"

definition EnsureScope :: "nacl \<Rightarrow> key_env \<Rightarrow> scope_id \<Rightarrow> chat_keys \<Rightarrow> (key_error + nat \<times> key32) \<times> chat_keys" where
  "EnsureScope sb env sc ck =
     (case loadLocked sb env sc ck of
        Inl err \<Rightarrow> (Inl err, put_entry sc (entry sc ck) ck)
      | Inr e \<Rightarrow>
          if en_curID e \<noteq> 0 then (Inr (en_curID e, en_curKey e), put_entry sc e ck)
          else mintLocked sb env sc e ck)"

definition current :: "nacl \<Rightarrow> key_env \<Rightarrow> scope_id \<Rightarrow> chat_keys \<Rightarrow> (key_error + nat \<times> key32) \<times> chat_keys" where
  "current sb env sc ck =
     (case loadLocked sb env sc ck of
        Inl err \<Rightarrow> (Inl err, put_entry sc (entry sc ck) ck)
      | Inr e \<Rightarrow> (if en_curID e = 0 then Inl ErrNoScopeKey else Inr (en_curID e, en_curKey e), put_entry sc e ck))"

definition key_at :: "nacl \<Rightarrow> key_env \<Rightarrow> scope_id \<Rightarrow> nat \<Rightarrow> chat_keys \<Rightarrow> (key_error + key32) \<times> chat_keys" where
  "key_at sb env sc g ck =
     (if g = 0 then (Inl ErrNoScopeKey, ck)
      else
        (case loadLocked sb env sc ck of
           Inl err \<Rightarrow> (Inl err, put_entry sc (entry sc ck) ck)
         | Inr e \<Rightarrow>
             if en_curID e = g then (Inr (en_curKey e), put_entry sc e ck)
             else
               (case fmlookup (en_old e) g of
                  Some k \<Rightarrow> (Inr k, put_entry sc e ck)
                | None \<Rightarrow>
                    if \<not> ck_configured ck then (Inl ErrUnconfigured, put_entry sc e ck)
                    else
                      (case GetScopeKey (ke_readFails env) sc g (ck_db ck) of
                         Inl _ \<Rightarrow> (Inl ErrKeyBackend, put_entry sc e ck)
                       | Inr None \<Rightarrow> (Inl ErrNoScopeKey, put_entry sc e ck)
                       | Inr (Some r) \<Rightarrow>
                           (case Unwrap sb (ck_ring ck) (sr_kek r) (sr_wrapped r) of
                              None \<Rightarrow> (Inl ErrKeyBackend, put_entry sc e ck)
                            | Some key \<Rightarrow> (Inr key, put_entry sc (cacheOldLocked g key e) ck))))))"

definition rotate_key :: "nacl \<Rightarrow> key_env \<Rightarrow> scope_id \<Rightarrow> chat_keys \<Rightarrow> (key_error + nat \<times> key32) \<times> chat_keys" where
  "rotate_key sb env sc ck =
     (case loadLocked sb env sc ck of
        Inl err \<Rightarrow> (Inl err, put_entry sc (entry sc ck) ck)
      | Inr e \<Rightarrow>
          if en_curID e = 0 then mintLocked sb env sc e ck
          else
            (case fresh_generation sb env sc ck of
               (None, ck1) \<Rightarrow> (Inl ErrKeyBackend, put_entry sc e ck1)
             | (Some (r, key), ck1) \<Rightarrow>
                 (case RotateScopeKey (ke_write env) r (ck_db ck1) of
                    (False, db) \<Rightarrow> (Inl ErrKeyBackend, put_entry sc e (ck1\<lparr>ck_db := db\<rparr>))
                  | (True, db) \<Rightarrow>
                      (Inr (sr_id r, key),
                       put_entry sc ((cacheOldLocked (en_curID e) (en_curKey e) e)\<lparr>en_curID := sr_id r, en_curKey := key\<rparr>)
                         (ck1\<lparr>ck_db := db\<rparr>)))))"

definition sealFor :: "nacl \<Rightarrow> key_env \<Rightarrow> scope_id \<Rightarrow> nat \<Rightarrow> string \<Rightarrow> chat_keys \<Rightarrow> (key_error + scope_id \<times> nat \<times> string) \<times> chat_keys" where
  "sealFor sb env sc g memberPubB64 ck =
     (case DecodeString memberPubB64 of
        None \<Rightarrow> (Inl ErrInvalidPublicKey, ck)
      | Some pub \<Rightarrow>
          if length pub \<noteq> 32 then (Inl ErrInvalidPublicKey, ck)
          else
            (case key_at sb env sc g ck of
               (Inl err, ck1) \<Rightarrow> (Inl err, ck1)
             | (Inr key, ck1) \<Rightarrow>
                 (case ke_nonce env of
                    None \<Rightarrow> (Inl ErrKeyBackend, ck1)
                  | Some rnd \<Rightarrow> (Inr (sc, g, EncodeToString (sb_anon sb key pub rnd)), ck1))))"

definition open_body :: "nacl \<Rightarrow> key_env \<Rightarrow> scope_id \<Rightarrow> nat \<Rightarrow> string \<Rightarrow> chat_keys \<Rightarrow> (key_error + byte list) \<times> chat_keys" where
  "open_body sb env sc g blobB64 ck =
     (case key_at sb env sc g ck of
        (Inl err, ck1) \<Rightarrow> (Inl err, ck1)
      | (Inr key, ck1) \<Rightarrow>
          (case DecodeString blobB64 of
             None \<Rightarrow> (Inl ErrCiphertext, ck1)
           | Some raw \<Rightarrow>
               if length raw < 24 then (Inl ErrCiphertext, ck1)
               else (case sb_open sb (drop 24 raw) (take 24 raw) key of None \<Rightarrow> (Inl ErrCiphertext, ck1) | Some p \<Rightarrow> (Inr p, ck1))))"

definition seal_body :: "nacl \<Rightarrow> key_env \<Rightarrow> scope_id \<Rightarrow> byte list \<Rightarrow> chat_keys \<Rightarrow> (key_error + nat \<times> string) \<times> chat_keys" where
  "seal_body sb env sc plain ck =
     (case current sb env sc ck of
        (Inl err, ck1) \<Rightarrow> (Inl err, ck1)
      | (Inr (g, key), ck1) \<Rightarrow>
          (case ke_nonce env of
             None \<Rightarrow> (Inl ErrKeyBackend, ck1)
           | Some nonce \<Rightarrow> (Inr (g, EncodeToString (nonce @ sb_seal sb plain nonce key)), ck1)))"

subsection \<open>Generations\<close>

text \<open>The key of a generation, as the tables and the ring hold it.\<close>

definition gen_key :: "nacl \<Rightarrow> KEKRing \<Rightarrow> key_db \<Rightarrow> scope_id \<Rightarrow> nat \<Rightarrow> key32 option" where
  "gen_key sb ring db sc g =
     (case List.find (row_at sc g) (kd_rows db) of None \<Rightarrow> None | Some r \<Rightarrow> Unwrap sb ring (sr_kek r) (sr_wrapped r))"

definition ring_ok :: "KEKRing \<Rightarrow> bool" where
  "ring_ok r \<longleftrightarrow> fmlookup (kr_keys r) (kr_newest r) \<noteq> None \<and> (\<forall>n k. fmlookup (kr_keys r) n = Some k \<longrightarrow> n < 2 ^ 16)"

definition row_ok :: "nacl \<Rightarrow> KEKRing \<Rightarrow> key_db \<Rightarrow> scope_row \<Rightarrow> bool" where
  "row_ok sb ring db r \<longleftrightarrow>
     0 < sr_id r \<and> sr_id r < next_id (sr_scope r) db \<and> sr_id r < 2 ^ 32 \<and> sr_kek r < 2 ^ 16 \<and>
     Unwrap sb ring (sr_kek r) (sr_wrapped r) \<noteq> None"

definition db_ok :: "nacl \<Rightarrow> KEKRing \<Rightarrow> key_db \<Rightarrow> bool" where
  "db_ok sb ring db \<longleftrightarrow>
     distinct (map (\<lambda>r. (sr_scope r, sr_id r)) (kd_rows db)) \<and> (\<forall>r \<in> set (kd_rows db). row_ok sb ring db r) \<and>
     (\<forall>sc. length (filter (live_row sc) (kd_rows db)) \<le> 1) \<and> (\<forall>sc. 0 < next_id sc db)"

definition entry_ok :: "nacl \<Rightarrow> KEKRing \<Rightarrow> key_db \<Rightarrow> scope_id \<Rightarrow> scopeEntry \<Rightarrow> bool" where
  "entry_ok sb ring db sc e \<longleftrightarrow>
     (en_curID e \<noteq> 0 \<longrightarrow> gen_key sb ring db sc (en_curID e) = Some (en_curKey e)) \<and>
     (\<forall>g k. fmlookup (en_old e) g = Some k \<longrightarrow> gen_key sb ring db sc g = Some k) \<and>
     distinct (en_oldLRU e) \<and> set (en_oldLRU e) = fset (fmdom (en_old e)) \<and> length (en_oldLRU e) \<le> maxArchivalGenerations"

definition ck_inv :: "nacl \<Rightarrow> chat_keys \<Rightarrow> bool" where
  "ck_inv sb ck \<longleftrightarrow>
     ring_ok (ck_ring ck) \<and> db_ok sb (ck_ring ck) (ck_db ck) \<and>
     (\<forall>sc e. fmlookup (ck_scopes ck) sc = Some e \<longrightarrow> entry_ok sb (ck_ring ck) (ck_db ck) sc e)"

definition env_ok :: "key_env \<Rightarrow> bool" where
  "env_ok env \<longleftrightarrow>
     (\<forall>k. ke_key env = Some k \<longrightarrow> length k = 32) \<and> (\<forall>n. ke_wrapNonce env = Some n \<longrightarrow> length n = 24) \<and>
     (\<forall>n. ke_nonce env = Some n \<longrightarrow> length n = 24)"

text \<open>No generation is lost or changed.\<close>

definition keeps :: "nacl \<Rightarrow> chat_keys \<Rightarrow> chat_keys \<Rightarrow> bool" where
  "keeps sb ck ck' \<longleftrightarrow>
     (\<forall>sc g k. gen_key sb (ck_ring ck) (ck_db ck) sc g = Some k \<longrightarrow> gen_key sb (ck_ring ck') (ck_db ck') sc g = Some k)"

lemma Unwrap_Wrap:
  assumes "box_ok sb" "length key = 32" "\<And>n. nonce = Some n \<Longrightarrow> length n = 24" "Wrap sb r nonce key = Some (kek, w)"
  shows "Unwrap sb r kek w = Some key" "kek = kr_newest r"
  using assms by (auto simp: Wrap_def Unwrap_def box_ok_def WrappedLen_def split: option.splits)

lemma gen_key_mem: "gen_key sb ring db sc g = Some k \<Longrightarrow> \<exists>r \<in> set (kd_rows db). row_at sc g r"
  by (auto simp: gen_key_def find_Some_iff split: option.splits)

lemma find_unique:
  assumes "distinct (map f xs)" "x \<in> set xs" "\<And>y. P y \<longleftrightarrow> f y = f x"
  shows "List.find P xs = Some x"
  using assms by (induction xs) (auto simp: rev_image_eqI)

lemma gen_key_row:
  assumes "db_ok sb ring db" "r \<in> set (kd_rows db)"
  shows "gen_key sb ring db (sr_scope r) (sr_id r) = Unwrap sb ring (sr_kek r) (sr_wrapped r)"
proof -
  have "List.find (row_at (sr_scope r) (sr_id r)) (kd_rows db) = Some r"
    using assms by (intro find_unique [where f = "\<lambda>r. (sr_scope r, sr_id r)"]) (auto simp: db_ok_def row_at_def)
  then show ?thesis by (simp add: gen_key_def)
qed

lemma gen_key_bound: "db_ok sb ring db \<Longrightarrow> gen_key sb ring db sc g = Some k \<Longrightarrow> 0 < g \<and> g < next_id sc db"
  by (fastforce simp: db_ok_def row_ok_def row_at_def dest: gen_key_mem)

lemma entry_ok_mono:
  assumes "entry_ok sb ring db sc e" "\<And>g k. gen_key sb ring db sc g = Some k \<Longrightarrow> gen_key sb ring' db' sc g = Some k"
  shows "entry_ok sb ring' db' sc e"
  using assms by (auto simp: entry_ok_def)

lemma new_entry_ok [simp]: "entry_ok sb ring db sc new_entry"
  by (simp add: entry_ok_def new_entry_def)

lemma entry_inv: "ck_inv sb ck \<Longrightarrow> entry_ok sb (ck_ring ck) (ck_db ck) sc (entry sc ck)"
  by (auto simp: ck_inv_def entry_def split: option.split)

lemma put_entry_inv:
  assumes "ck_inv sb ck" "entry_ok sb (ck_ring ck) (ck_db ck) sc e"
  shows "ck_inv sb (put_entry sc e ck)"
  using assms by (auto simp: ck_inv_def put_entry_def)

lemma put_entry_simps [simp]:
  "ck_db (put_entry sc e ck) = ck_db ck" "ck_ring (put_entry sc e ck) = ck_ring ck" "ck_configured (put_entry sc e ck) = ck_configured ck"
  by (simp_all add: put_entry_def)

lemma keeps_refl [simp]: "keeps sb ck ck"
  by (simp add: keeps_def)

lemma keeps_trans: "keeps sb a b \<Longrightarrow> keeps sb b c \<Longrightarrow> keeps sb a c"
  by (auto simp: keeps_def)

lemma keeps_put [simp]: "keeps sb ck (put_entry sc e ck') = keeps sb ck ck'"
  by (simp add: keeps_def)

lemma loadLocked_ok:
  assumes "ck_inv sb ck" "loadLocked sb env sc ck = Inr e"
  shows "entry_ok sb (ck_ring ck) (ck_db ck) sc e" "en_loaded e"
proof -
  note base = entry_inv [OF assms(1), of sc]
  have db: "db_ok sb (ck_ring ck) (ck_db ck)" using assms(1) by (simp add: ck_inv_def)
  show "en_loaded e" using assms(2) by (auto simp: loadLocked_def Let_def split: if_splits sum.splits option.splits)
  show "entry_ok sb (ck_ring ck) (ck_db ck) sc e"
  proof (cases "en_loaded (entry sc ck)")
    case True
    with assms(2) base show ?thesis by (simp add: loadLocked_def Let_def)
  next
    case False
    show ?thesis
    proof (cases "CurrentScopeKey (ke_readFails env) sc (ck_db ck)")
      case (Inl u)
      with False assms(2) show ?thesis by (auto simp: loadLocked_def Let_def split: if_splits)
    next
      case (Inr r')
      show ?thesis
      proof (cases r')
        case None
        with False Inr assms(2) base show ?thesis by (auto simp: loadLocked_def Let_def entry_ok_def split: if_splits)
      next
        case (Some r)
        with Inr have r: "r \<in> set (kd_rows (ck_db ck))" "sr_scope r = sc"
          by (auto simp: CurrentScopeKey_def scanScopeKey_def find_Some_iff live_row_def split: if_splits option.splits)
        obtain key where k: "Unwrap sb (ck_ring ck) (sr_kek r) (sr_wrapped r) = Some key"
          "e = (entry sc ck)\<lparr>en_curID := sr_id r, en_curKey := key, en_loaded := True\<rparr>"
          using False Inr Some assms(2) by (auto simp: loadLocked_def Let_def split: if_splits option.splits)
        have "gen_key sb (ck_ring ck) (ck_db ck) sc (sr_id r) = Some key" using gen_key_row [OF db r(1)] r(2) k(1) by simp
        with base k(2) show ?thesis by (simp add: entry_ok_def)
      qed
    qed
  qed
qed

lemma cacheOld_ok:
  assumes "entry_ok sb ring db sc e" "g \<noteq> 0 \<Longrightarrow> gen_key sb ring db sc g = Some key"
  shows "entry_ok sb ring db sc (cacheOldLocked g key e)"
proof (cases "g = 0")
  case True
  with assms show ?thesis by (simp add: cacheOldLocked_def)
next
  case False
  define lru where "lru = (if fmlookup (en_old e) g = None then en_oldLRU e @ [g] else en_oldLRU e)"
  define n where "n = length lru - maxArchivalGenerations"
  note ok = assms(1) [unfolded entry_ok_def]
  have l: "distinct lru" "set lru = fset (fmdom (fmupd g key (en_old e)))"
  proof -
    have o: "distinct (en_oldLRU e)" "set (en_oldLRU e) = fset (fmdom (en_old e))" using ok by blast+
    show "distinct lru" using o by (auto simp: lru_def fmdom_notI)
    show "set lru = fset (fmdom (fmupd g key (en_old e)))"
    proof (cases "fmlookup (en_old e) g")
      case (Some k)
      then have "g \<in> fset (fmdom (en_old e))" by (rule fmdomI)
      with Some o(2) show ?thesis by (simp add: lru_def insert_absorb)
    qed (simp add: lru_def o(2))
  qed
  have e': "cacheOldLocked g key e = e\<lparr>en_oldLRU := drop n lru, en_old := fmdrop_set (set (take n lru)) (fmupd g key (en_old e))\<rparr>"
    using False by (simp add: cacheOldLocked_def Let_def lru_def n_def)
  have sets: "set (drop n lru) = set lru - set (take n lru)"
  proof -
    have "set (take n lru) \<inter> set (drop n lru) = {}" using l(1) by (rule set_take_disj_set_drop_if_distinct) simp
    moreover have "set lru = set (take n lru) \<union> set (drop n lru)" by (metis append_take_drop_id set_append)
    ultimately show ?thesis by blast
  qed
  have "length (drop n lru) \<le> maxArchivalGenerations" by (simp add: n_def)
  moreover have "set (drop n lru) = fset (fmdom (fmdrop_set (set (take n lru)) (fmupd g key (en_old e))))"
    unfolding sets l(2) by (simp add: fmdom'_alt_def [symmetric])
  ultimately show ?thesis
    unfolding e' using ok assms(2) False l(1) by (auto simp: entry_ok_def split: if_splits)
qed

subsection \<open>A new generation is new\<close>

lemma AllocScopeKeyID_props:
  assumes "AllocScopeKeyID f sc db = (r, db')"
  shows "kd_rows db' = kd_rows db" "next_id x db \<le> next_id x db'" "r = Some g \<Longrightarrow> g = next_id sc db \<and> next_id sc db' = g + 1 \<and> g < 2 ^ 32"
  using assms by (auto simp: AllocScopeKeyID_def next_id_def Let_def split: if_splits option.splits)

lemma gen_key_rows: "kd_rows db' = kd_rows db \<Longrightarrow> gen_key sb ring db' sc g = gen_key sb ring db sc g"
  by (simp add: gen_key_def)

lemma db_ok_grow:
  assumes "db_ok sb ring db" "kd_rows db' = kd_rows db" "\<And>x. next_id x db \<le> next_id x db'"
  shows "db_ok sb ring db'"
  using assms unfolding db_ok_def row_ok_def by (metis order_less_le_trans)

lemma fresh_generation_props:
  assumes "fresh_generation sb env sc ck = (res, ck1)" "ck_inv sb ck"
  shows "ck_inv sb ck1" "kd_rows (ck_db ck1) = kd_rows (ck_db ck)" "ck_ring ck1 = ck_ring ck" "ck_configured ck1 = ck_configured ck"
    "ck_scopes ck1 = ck_scopes ck" "keeps sb ck ck1"
proof -
  obtain oid db where a: "AllocScopeKeyID (ke_alloc env) sc (ck_db ck) = (oid, db)" by fastforce
  note p = AllocScopeKeyID_props [OF a]
  have c: "ck1 = ck\<lparr>ck_db := db\<rparr>" using assms(1) a by (auto simp: fresh_generation_def split: option.splits)
  show rows: "kd_rows (ck_db ck1) = kd_rows (ck_db ck)" and [simp]: "ck_ring ck1 = ck_ring ck" "ck_configured ck1 = ck_configured ck"
    "ck_scopes ck1 = ck_scopes ck" using c p(1) by simp_all
  show "keeps sb ck ck1" using gen_key_rows [OF rows] by (simp add: keeps_def)
  have "db_ok sb (ck_ring ck) db" using assms(2) db_ok_grow [OF _ p(1) p(2)] unfolding ck_inv_def by blast
  then show "ck_inv sb ck1" using assms(2) gen_key_rows [OF p(1)] by (simp add: ck_inv_def c entry_ok_def)
qed

lemma fresh_generation_row:
  assumes "fresh_generation sb env sc ck = (Some (r, key), ck1)" "ck_inv sb ck" "box_ok sb" "env_ok env"
  shows "row_ok sb (ck_ring ck) (ck_db ck1) r" "sr_scope r = sc" "\<not> sr_retired r" "sr_id r = next_id sc (ck_db ck)"
    "Unwrap sb (ck_ring ck) (sr_kek r) (sr_wrapped r) = Some key" "\<nexists>x. x \<in> set (kd_rows (ck_db ck)) \<and> row_at sc (sr_id r) x" "length key = 32"
proof -
  obtain g db where a: "AllocScopeKeyID (ke_alloc env) sc (ck_db ck) = (Some g, db)" "ck1 = ck\<lparr>ck_db := db\<rparr>"
    "ke_key env = Some key" "Wrap sb (ck_ring ck) (ke_wrapNonce env) key = Some (sr_kek r, sr_wrapped r)"
    "sr_scope r = sc" "sr_id r = g" "\<not> sr_retired r"
    using assms(1) by (auto simp: fresh_generation_def split: option.splits prod.splits)
  have len: "length key = 32" "\<And>n. ke_wrapNonce env = Some n \<Longrightarrow> length n = 24" using assms(4) a(3) by (auto simp: env_ok_def)
  note u = Unwrap_Wrap [OF assms(3) len a(4)]
  note p = AllocScopeKeyID_props(3) [OF a(1) refl]
  show u1: "Unwrap sb (ck_ring ck) (sr_kek r) (sr_wrapped r) = Some key" by (rule u(1))
  show "sr_scope r = sc" "\<not> sr_retired r" "length key = 32" by (fact a(5) a(7) len(1))+
  show "sr_id r = next_id sc (ck_db ck)" using a(6) p by simp
  have inv: "ring_ok (ck_ring ck)" "db_ok sb (ck_ring ck) (ck_db ck)" using assms(2) by (auto simp: ck_inv_def)
  show "row_ok sb (ck_ring ck) (ck_db ck1) r" using inv u1 u(2) a p by (auto simp: row_ok_def ring_ok_def db_ok_def)
  show "\<nexists>x. x \<in> set (kd_rows (ck_db ck)) \<and> row_at sc (sr_id r) x" using inv(2) a p by (auto simp: db_ok_def row_ok_def row_at_def)
qed

lemma find_append_other: "\<not> P r \<Longrightarrow> List.find P (xs @ [r]) = List.find P xs"
  by (induction xs) auto

lemma find_append_same: "List.find P xs = None \<Longrightarrow> P r \<Longrightarrow> List.find P (xs @ [r]) = Some r"
  by (induction xs) (auto split: if_splits)

lemma find_retire: "List.find (row_at sc g) (map (retire x) rows) = map_option (retire x) (List.find (row_at sc g) rows)"
  by (induction rows) (auto simp: retire_def row_at_def)

lemma retire_simps [simp]:
  "sr_scope (retire x r) = sr_scope r" "sr_id (retire x r) = sr_id r" "sr_kek (retire x r) = sr_kek r" "sr_wrapped (retire x r) = sr_wrapped r"
  by (simp_all add: retire_def)

text \<open>Both writes append the new row; a rotation retires the others of the scope first.\<close>

definition with_rows :: "(scope_row \<Rightarrow> scope_row) \<Rightarrow> scope_row \<Rightarrow> key_db \<Rightarrow> key_db" where
  "with_rows f r db = db\<lparr>kd_rows := map f (kd_rows db) @ [r]\<rparr>"

lemma with_rows_gen:
  assumes "f = id \<or> f = retire (sr_scope r)" "\<nexists>x. x \<in> set (kd_rows db) \<and> row_at (sr_scope r) (sr_id r) x"
  shows "gen_key sb ring (with_rows f r db) sc g =
    (if sc = sr_scope r \<and> g = sr_id r then Unwrap sb ring (sr_kek r) (sr_wrapped r) else gen_key sb ring db sc g)"
proof -
  have m: "List.find (row_at sc g) (map f (kd_rows db)) = map_option f (List.find (row_at sc g) (kd_rows db))"
    using assms(1) by (auto simp: find_retire option.map_id)
  have u: "Unwrap sb ring (sr_kek (f x)) (sr_wrapped (f x)) = Unwrap sb ring (sr_kek x) (sr_wrapped x)" for x
    using assms(1) by auto
  show ?thesis
  proof (cases "sc = sr_scope r \<and> g = sr_id r")
    case True
    then have "List.find (row_at sc g) (map f (kd_rows db)) = None" using assms(2) m by (auto simp: find_None_iff)
    from find_append_same [OF this, of r] True show ?thesis by (simp add: gen_key_def with_rows_def row_at_def)
  next
    case False
    then have "\<not> row_at sc g r" by (auto simp: row_at_def)
    then have "List.find (row_at sc g) (map f (kd_rows db) @ [r]) = List.find (row_at sc g) (map f (kd_rows db))" by (rule find_append_other)
    with False show ?thesis by (auto simp add: gen_key_def with_rows_def m u split: option.split)
  qed
qed

lemma with_rows_ok:
  assumes "db_ok sb ring db" "f = id \<or> f = retire (sr_scope r)" "\<nexists>x. x \<in> set (kd_rows db) \<and> row_at (sr_scope r) (sr_id r) x"
    "row_ok sb ring db r" "\<And>x. x \<in> set (kd_rows db) \<Longrightarrow> \<not> live_row (sr_scope r) (f x)"
  shows "db_ok sb ring (with_rows f r db)"
proof -
  have f: "sr_scope (f x) = sr_scope x" "sr_id (f x) = sr_id x" "sr_kek (f x) = sr_kek x" "sr_wrapped (f x) = sr_wrapped x"
    "live_row sc (f x) \<Longrightarrow> live_row sc x" for x sc
    using assms(2) by (auto simp: live_row_def retire_def split: if_splits)
  have n: "next_id sc (with_rows f r db) = next_id sc db" for sc by (simp add: with_rows_def next_id_def)
  have pk: "distinct (map (\<lambda>x. (sr_scope x, sr_id x)) (kd_rows (with_rows f r db)))"
    using assms(1,3) by (auto simp: with_rows_def db_ok_def row_at_def f comp_def)
  have ok: "\<forall>x \<in> set (kd_rows (with_rows f r db)). row_ok sb ring (with_rows f r db) x"
    using assms(1,4) by (auto simp: with_rows_def db_ok_def row_ok_def f next_id_def)
  have one: "length (filter (live_row sc) (kd_rows (with_rows f r db))) \<le> 1" for sc
  proof (cases "live_row sc r")
    case True
    then have "filter (live_row sc) (map f (kd_rows db)) = []" using assms(5) by (auto simp: filter_empty_conv live_row_def)
    then show ?thesis by (simp add: with_rows_def)
  next
    case False
    have "length (filter (live_row sc) (map f xs)) \<le> length (filter (live_row sc) xs)" for xs
      by (induction xs) (auto dest: f(5))
    then show ?thesis using False assms(1) by (simp add: with_rows_def db_ok_def) (meson order_trans)
  qed
  show ?thesis using pk ok one assms(1) unfolding db_ok_def [of _ _ "with_rows f r db"] n by (simp add: db_ok_def)
qed

lemma InsertScopeKey_cases:
  assumes "InsertScopeKey f r db = (b, db')"
  shows "(db' = db \<and> \<not> b) \<or> (db' = with_rows id r db \<and> (\<forall>x \<in> set (kd_rows db). \<not> live_row (sr_scope r) x))"
  using assms by (auto simp: InsertScopeKey_def with_rows_def split: if_splits)

lemma RotateScopeKey_cases:
  assumes "RotateScopeKey f r db = (b, db')"
  shows "(db' = db \<and> \<not> b) \<or> db' = with_rows (retire (sr_scope r)) r db"
  using assms by (auto simp: RotateScopeKey_def with_rows_def split: if_splits)

text \<open>What a write of a fresh row leaves: the invariant, every older generation, and the new one when it took effect.\<close>

lemma write_fresh:
  assumes "ck_inv sb ck" "box_ok sb" "env_ok env" "fresh_generation sb env sc ck = (Some (r, key), ck1)"
    "db' = ck_db ck1 \<or> (db' = with_rows f r (ck_db ck1) \<and> (f = id \<and> (\<forall>x \<in> set (kd_rows (ck_db ck1)). \<not> live_row (sr_scope r) x) \<or> f = retire (sr_scope r)))"
  shows "ck_inv sb (ck1\<lparr>ck_db := db'\<rparr>)" "keeps sb ck (ck1\<lparr>ck_db := db'\<rparr>)"
    "db' \<noteq> ck_db ck1 \<Longrightarrow> gen_key sb (ck_ring ck1) db' sc (sr_id r) = Some key"
    "next_id x db' = next_id x (ck_db ck1)"
proof -
  note p = fresh_generation_props [OF assms(4,1)] and q = fresh_generation_row [OF assms(4,1,2,3)]
  have new: "\<nexists>x. x \<in> set (kd_rows (ck_db ck1)) \<and> row_at (sr_scope r) (sr_id r) x" using q(2,6) p(2) by simp
  have fr: "db' = with_rows f r (ck_db ck1) \<Longrightarrow> db' \<noteq> ck_db ck1 \<Longrightarrow> f = id \<or> f = retire (sr_scope r)" using assms(5) by auto
  have gen: "gen_key sb (ck_ring ck1) db' s g = (if db' \<noteq> ck_db ck1 \<and> s = sc \<and> g = sr_id r then Some key else gen_key sb (ck_ring ck1) (ck_db ck1) s g)" for s g
    using assms(5) with_rows_gen [OF _ new, of f sb "ck_ring ck1" s g] q(2,5) p(3) by auto
  have absent: "gen_key sb (ck_ring ck1) (ck_db ck1) sc (sr_id r) = None"
    using new q(2) by (auto simp: gen_key_def find_None_iff split: option.split dest!: find_Some_iff [THEN iffD1] intro: nth_mem)
  have mono: "gen_key sb (ck_ring ck1) (ck_db ck1) s g = Some k \<Longrightarrow> gen_key sb (ck_ring ck1) db' s g = Some k" for s g k
    using gen absent by (auto split: if_splits)
  show "db' \<noteq> ck_db ck1 \<Longrightarrow> gen_key sb (ck_ring ck1) db' sc (sr_id r) = Some key" using gen by simp
  show "keeps sb ck (ck1\<lparr>ck_db := db'\<rparr>)" using p(6) mono by (auto simp: keeps_def)
  show "next_id x db' = next_id x (ck_db ck1)" using assms(5) by (auto simp: with_rows_def next_id_def)
  have "db_ok sb (ck_ring ck1) db'"
  proof (cases "db' = ck_db ck1")
    case True
    then show ?thesis using p(1) by (simp add: ck_inv_def)
  next
    case False
    with assms(5) have w: "db' = with_rows f r (ck_db ck1)" "f = id \<and> (\<forall>x \<in> set (kd_rows (ck_db ck1)). \<not> live_row (sr_scope r) x) \<or> f = retire (sr_scope r)" by auto
    show ?thesis unfolding w(1)
      by (rule with_rows_ok [OF _ _ new]) (use p(1,3) q(1) w(2) in \<open>auto simp: ck_inv_def live_row_def retire_def\<close>)
  qed
  moreover have "entry_ok sb (ck_ring ck1) db' s e" if "fmlookup (ck_scopes ck1) s = Some e" for s e
    using p(1) that by (intro entry_ok_mono [OF _ mono]) (auto simp: ck_inv_def)
  ultimately show "ck_inv sb (ck1\<lparr>ck_db := db'\<rparr>)" using p(1) by (simp add: ck_inv_def)
qed

subsection \<open>What the operations keep and return\<close>

text \<open>The result of an operation on the manager: the invariant, every older generation, the same ring.\<close>

definition op_ok :: "nacl \<Rightarrow> chat_keys \<Rightarrow> chat_keys \<Rightarrow> bool" where
  "op_ok sb ck ck' \<longleftrightarrow> ck_inv sb ck' \<and> keeps sb ck ck' \<and> ck_ring ck' = ck_ring ck \<and> ck_configured ck' = ck_configured ck"

lemma op_ok_put: "op_ok sb ck ck' \<Longrightarrow> entry_ok sb (ck_ring ck') (ck_db ck') sc e \<Longrightarrow> op_ok sb ck (put_entry sc e ck')"
  by (simp add: op_ok_def put_entry_inv)

lemma op_ok_refl: "ck_inv sb ck \<Longrightarrow> op_ok sb ck ck"
  by (simp add: op_ok_def)

lemma op_ok_entry: "op_ok sb ck ck' \<Longrightarrow> entry_ok sb (ck_ring ck) (ck_db ck) sc e \<Longrightarrow> entry_ok sb (ck_ring ck') (ck_db ck') sc e"
  by (erule entry_ok_mono) (auto simp: op_ok_def keeps_def)

lemma fresh_op_ok: "fresh_generation sb env sc ck = (res, ck1) \<Longrightarrow> ck_inv sb ck \<Longrightarrow> op_ok sb ck ck1"
  using fresh_generation_props [of sb env sc ck res ck1] by (simp add: op_ok_def)

lemma write_op_ok:
  assumes "ck_inv sb ck" "box_ok sb" "env_ok env" "fresh_generation sb env sc ck = (Some (r, key), ck1)"
    "InsertScopeKey flt r (ck_db ck1) = (b, db') \<or> RotateScopeKey flt r (ck_db ck1) = (b, db')"
  shows "op_ok sb ck (ck1\<lparr>ck_db := db'\<rparr>)"
    "b \<Longrightarrow> gen_key sb (ck_ring ck1) db' sc (sr_id r) = Some key \<and> sr_id r = next_id sc (ck_db ck) \<and> sr_scope r = sc"
proof -
  obtain f where f: "db' = ck_db ck1 \<or> (db' = with_rows f r (ck_db ck1) \<and>
      (f = id \<and> (\<forall>x \<in> set (kd_rows (ck_db ck1)). \<not> live_row (sr_scope r) x) \<or> f = retire (sr_scope r)))"
    "b \<longrightarrow> db' = with_rows f r (ck_db ck1)"
    using assms(5) InsertScopeKey_cases [of flt r "ck_db ck1" b db'] RotateScopeKey_cases [of flt r "ck_db ck1" b db'] by blast
  note w = write_fresh [OF assms(1-4) f(1)] and p = fresh_generation_props [OF assms(4,1)]
  show "op_ok sb ck (ck1\<lparr>ck_db := db'\<rparr>)" using w(1,2) p(3,4) by (simp add: op_ok_def)
  have "db' \<noteq> ck_db ck1" if b
  proof
    assume "db' = ck_db ck1"
    with f(2) that have "kd_rows (ck_db ck1) = map f (kd_rows (ck_db ck1)) @ [r]" by (metis key_db.select_convs(1) key_db.surjective key_db.update_convs(1) with_rows_def)
    from arg_cong [OF this, of length] show False by simp
  qed
  then show "b \<Longrightarrow> gen_key sb (ck_ring ck1) db' sc (sr_id r) = Some key \<and> sr_id r = next_id sc (ck_db ck) \<and> sr_scope r = sc"
    using w(3) fresh_generation_row(2,4) [OF assms(4,1,2,3)] by simp
qed

lemma entry_ok_current:
  assumes "entry_ok sb ring db sc e" "gen_key sb ring db sc g = Some key"
  shows "entry_ok sb ring db sc (e\<lparr>en_curID := g, en_curKey := key\<rparr>)"
    "entry_ok sb ring db sc (e\<lparr>en_curID := g, en_curKey := key, en_loaded := True\<rparr>)"
  using assms by (simp_all add: entry_ok_def)

lemma mintLocked_ok:
  assumes "ck_inv sb ck" "box_ok sb" "env_ok env" "entry_ok sb (ck_ring ck) (ck_db ck) sc e" "mintLocked sb env sc e ck = (res, ck')"
  shows "op_ok sb ck ck'" "res = Inr (g, k) \<Longrightarrow> gen_key sb (ck_ring ck') (ck_db ck') sc g = Some k \<and> g = next_id sc (ck_db ck)"
proof -
  have "op_ok sb ck ck' \<and> (\<forall>g k. res = Inr (g, k) \<longrightarrow> gen_key sb (ck_ring ck') (ck_db ck') sc g = Some k \<and> g = next_id sc (ck_db ck))"
  proof (cases "ck_configured ck")
    case False
    with assms(5) have "res = Inl ErrUnconfigured" "ck' = put_entry sc e ck" by (auto simp: mintLocked_def)
    with op_ok_put [OF op_ok_refl [OF assms(1)] assms(4)] show ?thesis by simp
  next
    case True
    obtain o1 ck1 where fr: "fresh_generation sb env sc ck = (o1, ck1)" by fastforce
    show ?thesis
    proof (cases o1)
      case None
      with assms(5) True fr have "res = Inl ErrKeyBackend" "ck' = put_entry sc e ck1" by (auto simp: mintLocked_def)
      with op_ok_put [OF fresh_op_ok [OF fr assms(1)] op_ok_entry [OF fresh_op_ok [OF fr assms(1)] assms(4)]] show ?thesis by simp
    next
      case (Some rk)
      obtain r key where rk: "rk = (r, key)" by fastforce
      obtain b db' where ins: "InsertScopeKey (ke_write env) r (ck_db ck1) = (b, db')" by fastforce
      note w = write_op_ok [OF assms(1-3) fr [unfolded Some rk] disjI1 [OF ins]]
      note en = op_ok_entry [OF w(1) assms(4)]
      show ?thesis
      proof (cases b)
        case False
        with assms(5) True fr Some rk ins have "res = Inl ErrKeyBackend" "ck' = put_entry sc e (ck1\<lparr>ck_db := db'\<rparr>)" by (auto simp: mintLocked_def)
        with op_ok_put [OF w(1) en] show ?thesis by simp
      next
        case b: True
        note g = w(2) [OF b]
        with assms(5) True fr Some rk ins b have res: "res = Inr (sr_id r, key)"
          "ck' = put_entry sc (e\<lparr>en_curID := sr_id r, en_curKey := key, en_loaded := True\<rparr>) (ck1\<lparr>ck_db := db'\<rparr>)" by (auto simp: mintLocked_def)
        have "entry_ok sb (ck_ring ck1) db' sc (e\<lparr>en_curID := sr_id r, en_curKey := key, en_loaded := True\<rparr>)"
          using entry_ok_current(2) [OF en, of "sr_id r" key] g by (elim conjE) simp
        with op_ok_put [OF w(1)] res g show ?thesis by (elim conjE) simp
      qed
    qed
  qed
  then show "op_ok sb ck ck'" "res = Inr (g, k) \<Longrightarrow> gen_key sb (ck_ring ck') (ck_db ck') sc g = Some k \<and> g = next_id sc (ck_db ck)" by blast+
qed

lemma curE:
  assumes "entry_ok sb ring db sc e" "en_curID e \<noteq> 0"
  shows "gen_key sb ring db sc (en_curID e) = Some (en_curKey e)"
  using assms by (simp add: entry_ok_def)

lemma EnsureScope_ok:
  assumes "ck_inv sb ck" "box_ok sb" "env_ok env" "EnsureScope sb env sc ck = (res, ck')"
  shows "op_ok sb ck ck'" "res = Inr (g, k) \<Longrightarrow> gen_key sb (ck_ring ck') (ck_db ck') sc g = Some k"
proof -
  have "op_ok sb ck ck' \<and> (\<forall>g k. res = Inr (g, k) \<longrightarrow> gen_key sb (ck_ring ck') (ck_db ck') sc g = Some k)"
  proof (cases "loadLocked sb env sc ck")
    case (Inl err)
    with assms op_ok_put [OF op_ok_refl [OF assms(1)] entry_inv [OF assms(1)]] show ?thesis by (auto simp: EnsureScope_def)
  next
    case (Inr e)
    note e = loadLocked_ok [OF assms(1) Inr]
    show ?thesis
    proof (cases "en_curID e = 0")
      case True
      with Inr assms(4) have "mintLocked sb env sc e ck = (res, ck')" by (simp add: EnsureScope_def)
      from mintLocked_ok [OF assms(1-3) e(1) this] show ?thesis by blast
    next
      case False
      with Inr assms(4) op_ok_put [OF op_ok_refl [OF assms(1)] e(1)] curE [OF e(1)] show ?thesis by (auto simp: EnsureScope_def)
    qed
  qed
  then show "op_ok sb ck ck'" "res = Inr (g, k) \<Longrightarrow> gen_key sb (ck_ring ck') (ck_db ck') sc g = Some k" by blast+
qed

lemma current_ok:
  assumes "ck_inv sb ck" "current sb env sc ck = (res, ck')"
  shows "op_ok sb ck ck' \<and> ck_db ck' = ck_db ck \<and> (\<forall>g k. res = Inr (g, k) \<longrightarrow> gen_key sb (ck_ring ck') (ck_db ck') sc g = Some k)"
proof (cases "loadLocked sb env sc ck")
  case (Inl err)
  with assms op_ok_put [OF op_ok_refl [OF assms(1)] entry_inv [OF assms(1)]] show ?thesis by (auto simp: current_def)
next
  case (Inr e)
  note e = loadLocked_ok [OF assms(1) Inr]
  with Inr assms(2) op_ok_put [OF op_ok_refl [OF assms(1)] e(1)] curE [OF e(1)] show ?thesis
    by (auto simp: current_def split: if_splits)
qed

lemma key_at_ok:
  assumes "ck_inv sb ck" "key_at sb env sc g ck = (res, ck')"
  shows "op_ok sb ck ck' \<and> ck_db ck' = ck_db ck \<and> (\<forall>k. res = Inr k \<longrightarrow> gen_key sb (ck_ring ck) (ck_db ck) sc g = Some k)"
proof (cases "g = 0")
  case True
  with assms op_ok_refl show ?thesis by (auto simp: key_at_def)
next
  case g: False
  show ?thesis
  proof (cases "loadLocked sb env sc ck")
    case (Inl err)
    with g assms op_ok_put [OF op_ok_refl [OF assms(1)] entry_inv [OF assms(1)]] show ?thesis by (auto simp: key_at_def)
  next
    case (Inr e)
    note e = loadLocked_ok [OF assms(1) Inr]
    note put = op_ok_put [OF op_ok_refl [OF assms(1)]]
    have db: "db_ok sb (ck_ring ck) (ck_db ck)" using assms(1) by (simp add: ck_inv_def)
    have read: "gen_key sb (ck_ring ck) (ck_db ck) sc g = Some k"
      if "GetScopeKey (ke_readFails env) sc g (ck_db ck) = Inr (Some r)" "Unwrap sb (ck_ring ck) (sr_kek r) (sr_wrapped r) = Some k" for r k
      using that by (auto simp: GetScopeKey_def scanScopeKey_def gen_key_def split: if_splits option.splits)
    have old: "fmlookup (en_old e) g = Some k \<Longrightarrow> gen_key sb (ck_ring ck) (ck_db ck) sc g = Some k" for k
      using e(1) by (simp add: entry_ok_def)
    show ?thesis
      using assms(2) g Inr put [OF e(1)] curE [OF e(1)] old read cacheOld_ok [OF e(1)] put
      by (auto simp: key_at_def split: if_splits option.splits sum.splits)
  qed
qed

lemma key_at_complete:
  assumes "ck_inv sb ck" "ck_configured ck" "\<not> ke_readFails env" "gen_key sb (ck_ring ck) (ck_db ck) sc g = Some k"
  shows "fst (key_at sb env sc g ck) = Inr k"
proof -
  have db: "db_ok sb (ck_ring ck) (ck_db ck)" using assms(1) by (simp add: ck_inv_def)
  have g: "g \<noteq> 0" using gen_key_bound [OF db assms(4)] by simp
  have scan: "scanScopeKey False (Some r) = Inr (Some r)" if "r \<in> set (kd_rows (ck_db ck))" for r
    using db that by (auto simp: scanScopeKey_def db_ok_def row_ok_def)
  have "\<exists>e. loadLocked sb env sc ck = Inr e"
  proof (cases "List.find (live_row sc) (kd_rows (ck_db ck))")
    case (Some r)
    then have r: "r \<in> set (kd_rows (ck_db ck))" by (auto simp: find_Some_iff)
    then obtain key where "Unwrap sb (ck_ring ck) (sr_kek r) (sr_wrapped r) = Some key" using db by (auto simp: db_ok_def row_ok_def)
    with Some scan [OF r] assms(2,3) show ?thesis by (simp add: loadLocked_def CurrentScopeKey_def Let_def)
  qed (use assms(2,3) in \<open>simp add: loadLocked_def CurrentScopeKey_def scanScopeKey_def Let_def\<close>)
  then obtain e where e: "loadLocked sb env sc ck = Inr e" ..
  note ok = loadLocked_ok(1) [OF assms(1) e]
  obtain r where r: "List.find (row_at sc g) (kd_rows (ck_db ck)) = Some r" "Unwrap sb (ck_ring ck) (sr_kek r) (sr_wrapped r) = Some k"
    using assms(4) by (auto simp: gen_key_def split: option.splits)
  have "r \<in> set (kd_rows (ck_db ck))" using r(1) by (auto simp: find_Some_iff)
  then have get: "GetScopeKey False sc g (ck_db ck) = Inr (Some r)" using scan r(1) by (simp add: GetScopeKey_def)
  have cur: "en_curID e = g \<Longrightarrow> en_curKey e = k" using ok g assms(4) by (auto simp: entry_ok_def)
  have old: "fmlookup (en_old e) g = Some x \<Longrightarrow> x = k" for x using ok assms(4) by (auto simp: entry_ok_def)
  show ?thesis using g e cur old get r(2) assms(2,3) by (auto simp: key_at_def split: option.split)
qed

lemma rotate_ok:
  assumes "ck_inv sb ck" "box_ok sb" "env_ok env" "rotate_key sb env sc ck = (res, ck')"
  shows "op_ok sb ck ck' \<and> (\<forall>g k. res = Inr (g, k) \<longrightarrow> gen_key sb (ck_ring ck') (ck_db ck') sc g = Some k \<and> g = next_id sc (ck_db ck))"
proof (cases "loadLocked sb env sc ck")
  case (Inl err)
  with assms op_ok_put [OF op_ok_refl [OF assms(1)] entry_inv [OF assms(1)]] show ?thesis by (auto simp: rotate_key_def)
next
  case (Inr e)
  note e = loadLocked_ok [OF assms(1) Inr]
  show ?thesis
  proof (cases "en_curID e = 0")
    case True
    with Inr assms(4) have "mintLocked sb env sc e ck = (res, ck')" by (simp add: rotate_key_def)
    from mintLocked_ok [OF assms(1-3) e(1) this] show ?thesis by blast
  next
    case cur: False
    obtain o1 ck1 where fr: "fresh_generation sb env sc ck = (o1, ck1)" by fastforce
    show ?thesis
    proof (cases o1)
      case None
      with assms(4) Inr cur fr have "res = Inl ErrKeyBackend" "ck' = put_entry sc e ck1" by (auto simp: rotate_key_def)
      with op_ok_put [OF fresh_op_ok [OF fr assms(1)] op_ok_entry [OF fresh_op_ok [OF fr assms(1)] e(1)]] show ?thesis by simp
    next
      case (Some rk)
      obtain r key where rk: "rk = (r, key)" by fastforce
      obtain b db' where rot: "RotateScopeKey (ke_write env) r (ck_db ck1) = (b, db')" by fastforce
      note w = write_op_ok [OF assms(1-3) fr [unfolded Some rk] disjI2 [OF rot]]
      note en = op_ok_entry [OF w(1) e(1)]
      show ?thesis
      proof (cases b)
        case False
        with assms(4) Inr cur fr Some rk rot have "res = Inl ErrKeyBackend" "ck' = put_entry sc e (ck1\<lparr>ck_db := db'\<rparr>)" by (auto simp: rotate_key_def)
        with op_ok_put [OF w(1) en] show ?thesis by simp
      next
        case b: True
        note g = w(2) [OF b]
        let ?e = "(cacheOldLocked (en_curID e) (en_curKey e) e)\<lparr>en_curID := sr_id r, en_curKey := key\<rparr>"
        have res: "res = Inr (sr_id r, key)" "ck' = put_entry sc ?e (ck1\<lparr>ck_db := db'\<rparr>)"
          using assms(4) Inr cur fr Some rk rot b by (auto simp: rotate_key_def)
        have "entry_ok sb (ck_ring ck1) db' sc (cacheOldLocked (en_curID e) (en_curKey e) e)"
          using cacheOld_ok [OF en] curE [OF en] by simp
        from entry_ok_current(1) [OF this conjunct1 [OF g]] have "entry_ok sb (ck_ring ck1) db' sc ?e" .
        with op_ok_put [OF w(1)] res g show ?thesis by (elim conjE) simp
      qed
    qed
  qed
qed

subsection \<open>Runs\<close>

text \<open>
  The operations of the manager in any order, with faults, and restarts: a restart drops the cache and reads the ring again, which
  may have grown.  \<open>ks_sealed\<close> records the bodies sealed so far with their scope and generation, \<open>ks_issued\<close> the generations that minting or rotating has
  returned, newest first.
\<close>

record key_sys =
  ks_ck :: chat_keys
  ks_sealed :: "(scope_id \<times> nat \<times> string \<times> byte list) list"
  ks_issued :: "(scope_id \<times> nat) list"

datatype key_op =
    KEnsure key_env scope_id
  | KCurrent key_env scope_id
  | KAt key_env scope_id nat
  | KRotate key_env scope_id
  | KSeal key_env scope_id "byte list"
  | KSealFor key_env scope_id nat string
  | KOpen key_env scope_id nat string
  | KRestart KEKRing

fun key_step :: "nacl \<Rightarrow> key_op \<Rightarrow> key_sys \<Rightarrow> key_sys" where
  "key_step sb (KEnsure env sc) s = s\<lparr>ks_ck := snd (EnsureScope sb env sc (ks_ck s))\<rparr>"
| "key_step sb (KCurrent env sc) s = s\<lparr>ks_ck := snd (current sb env sc (ks_ck s))\<rparr>"
| "key_step sb (KAt env sc g) s = s\<lparr>ks_ck := snd (key_at sb env sc g (ks_ck s))\<rparr>"
| "key_step sb (KRotate env sc) s =
     (case rotate_key sb env sc (ks_ck s) of
        (Inr (g, _), ck) \<Rightarrow> s\<lparr>ks_ck := ck, ks_issued := (sc, g) # ks_issued s\<rparr>
      | (Inl _, ck) \<Rightarrow> s\<lparr>ks_ck := ck\<rparr>)"
| "key_step sb (KSeal env sc plain) s =
     (case seal_body sb env sc plain (ks_ck s) of
        (Inr (g, blob), ck) \<Rightarrow> s\<lparr>ks_ck := ck, ks_sealed := (sc, g, blob, plain) # ks_sealed s\<rparr>
      | (Inl _, ck) \<Rightarrow> s\<lparr>ks_ck := ck\<rparr>)"
| "key_step sb (KSealFor env sc g pub) s = s\<lparr>ks_ck := snd (sealFor sb env sc g pub (ks_ck s))\<rparr>"
| "key_step sb (KOpen env sc g blob) s = s\<lparr>ks_ck := snd (open_body sb env sc g blob (ks_ck s))\<rparr>"
| "key_step sb (KRestart ring) s = s\<lparr>ks_ck := (ks_ck s)\<lparr>ck_ring := ring, ck_scopes := fmempty\<rparr>\<rparr>"

definition ring_extends :: "KEKRing \<Rightarrow> KEKRing \<Rightarrow> bool" where
  "ring_extends r r' \<longleftrightarrow> (\<forall>n k. fmlookup (kr_keys r) n = Some k \<longrightarrow> fmlookup (kr_keys r') n = Some k)"

fun key_op_ok :: "key_op \<Rightarrow> key_sys \<Rightarrow> bool" where
  "key_op_ok (KEnsure env sc) s = env_ok env"
| "key_op_ok (KCurrent env sc) s = env_ok env"
| "key_op_ok (KAt env sc g) s = env_ok env"
| "key_op_ok (KRotate env sc) s = env_ok env"
| "key_op_ok (KSeal env sc plain) s = env_ok env"
| "key_op_ok (KSealFor env sc g pub) s = env_ok env"
| "key_op_ok (KOpen env sc g blob) s = env_ok env"
| "key_op_ok (KRestart ring) s = (ring_ok ring \<and> ring_extends (ck_ring (ks_ck s)) ring)"

definition key_start :: "KEKRing \<Rightarrow> key_sys" where
  "key_start ring =
     \<lparr>ks_ck = \<lparr>ck_configured = True, ck_ring = ring, ck_db = \<lparr>kd_rows = [], kd_seq = fmempty\<rparr>, ck_scopes = fmempty\<rparr>,
      ks_sealed = [], ks_issued = []\<rparr>"

definition sealed_ok :: "nacl \<Rightarrow> chat_keys \<Rightarrow> scope_id \<times> nat \<times> string \<times> byte list \<Rightarrow> bool" where
  "sealed_ok sb ck x \<longleftrightarrow>
     (case x of (sc, g, blob, plain) \<Rightarrow>
        \<exists>k n. gen_key sb (ck_ring ck) (ck_db ck) sc g = Some k \<and> length n = 24 \<and> blob = EncodeToString (n @ sb_seal sb plain n k))"

text \<open>The ids that rotations returned for a scope, newest first, decrease: none is given out twice.\<close>

definition issued_ok :: "key_sys \<Rightarrow> bool" where
  "issued_ok s \<longleftrightarrow>
     (\<forall>(sc, g) \<in> set (ks_issued s). g < next_id sc (ck_db (ks_ck s))) \<and>
     (\<forall>sc. sorted_wrt (>) (map snd (filter (\<lambda>x. fst x = sc) (ks_issued s))))"

definition key_inv :: "nacl \<Rightarrow> key_sys \<Rightarrow> bool" where
  "key_inv sb s \<longleftrightarrow>
     box_ok sb \<and> ck_inv sb (ks_ck s) \<and> ck_configured (ks_ck s) \<and> (\<forall>x \<in> set (ks_sealed s). sealed_ok sb (ks_ck s) x) \<and> issued_ok s"

lemma sealed_ok_keeps: "sealed_ok sb ck x \<Longrightarrow> keeps sb ck ck' \<Longrightarrow> sealed_ok sb ck' x"
  by (auto simp: sealed_ok_def keeps_def split: prod.splits)

lemma sealFor_ok:
  assumes "ck_inv sb ck"
  shows "op_ok sb ck (snd (sealFor sb env sc g pub ck))" "ck_db (snd (sealFor sb env sc g pub ck)) = ck_db ck"
proof -
  obtain res ck1 where k: "key_at sb env sc g ck = (res, ck1)" by fastforce
  from key_at_ok [OF assms k] op_ok_refl [OF assms]
  show "op_ok sb ck (snd (sealFor sb env sc g pub ck))" "ck_db (snd (sealFor sb env sc g pub ck)) = ck_db ck"
    by (auto simp: sealFor_def k split: option.split sum.split)
qed

lemma open_body_ok:
  assumes "ck_inv sb ck"
  shows "op_ok sb ck (snd (open_body sb env sc g blob ck))" "ck_db (snd (open_body sb env sc g blob ck)) = ck_db ck"
proof -
  obtain res ck1 where k: "key_at sb env sc g ck = (res, ck1)" by fastforce
  from key_at_ok [OF assms k]
  show "op_ok sb ck (snd (open_body sb env sc g blob ck))" "ck_db (snd (open_body sb env sc g blob ck)) = ck_db ck"
    by (auto simp: open_body_def k split: option.split sum.split)
qed

lemma seal_body_ok:
  assumes "ck_inv sb ck" "env_ok env" "seal_body sb env sc plain ck = (res, ck')"
  shows "op_ok sb ck ck'" "ck_db ck' = ck_db ck" "res = Inr (g, blob) \<Longrightarrow> sealed_ok sb ck' (sc, g, blob, plain)"
proof -
  obtain r1 ck1 where c: "current sb env sc ck = (r1, ck1)" by fastforce
  note cur = current_ok [OF assms(1) c]
  have "ck' = ck1" using assms(3) c by (auto simp: seal_body_def split: sum.splits option.splits)
  with cur show "op_ok sb ck ck'" "ck_db ck' = ck_db ck" by auto
  show "sealed_ok sb ck' (sc, g, blob, plain)" if ok: "res = Inr (g, blob)"
  proof -
    obtain key n where "r1 = Inr (g, key)" "ke_nonce env = Some n" "blob = EncodeToString (n @ sb_seal sb plain n key)"
      using assms(3) c ok by (auto simp: seal_body_def split: sum.splits option.splits)
    then show ?thesis using cur \<open>ck' = ck1\<close> assms(2) by (auto simp: sealed_ok_def env_ok_def)
  qed
qed

text \<open>A body that was sealed opens wherever its generation can be read.\<close>

lemma open_sealed:
  assumes "box_ok sb" "ck_inv sb ck" "ck_configured ck" "\<not> ke_readFails env" "sealed_ok sb ck (sc, g, blob, plain)"
  shows "fst (open_body sb env sc g blob ck) = Inr plain"
proof -
  obtain k n where k: "gen_key sb (ck_ring ck) (ck_db ck) sc g = Some k" "length n = 24" "blob = EncodeToString (n @ sb_seal sb plain n k)"
    using assms(5) by (auto simp: sealed_ok_def)
  have "fst (key_at sb env sc g ck) = Inr k" by (rule key_at_complete [OF assms(2-4) k(1)])
  then obtain ck1 where at: "key_at sb env sc g ck = (Inr k, ck1)" by (metis prod.collapse)
  have "sb_open sb (sb_seal sb plain n k) n k = Some plain" using assms(1) by (simp add: box_ok_def)
  with k show ?thesis by (simp add: open_body_def at)
qed

lemma write_seq:
  "InsertScopeKey f r db = (b, db') \<Longrightarrow> kd_seq db' = kd_seq db" "RotateScopeKey f r db = (b, db') \<Longrightarrow> kd_seq db' = kd_seq db"
  by (auto simp: InsertScopeKey_def RotateScopeKey_def split: if_splits)

lemma write_next:
  "InsertScopeKey f r db = (b, db') \<Longrightarrow> next_id x db' = next_id x db" "RotateScopeKey f r db = (b, db') \<Longrightarrow> next_id x db' = next_id x db"
  using write_seq [of f r db b db'] by (simp_all add: next_id_def)

lemma fresh_next: "fresh_generation sb env sc ck = (res, ck1) \<Longrightarrow> next_id x (ck_db ck) \<le> next_id x (ck_db ck1)"
  by (cases "AllocScopeKeyID (ke_alloc env) sc (ck_db ck)")
    (auto simp: fresh_generation_def split: option.splits prod.splits dest: AllocScopeKeyID_props(2))

lemma mint_next:
  assumes "mintLocked sb env sc e ck = (res, ck')"
  shows "next_id x (ck_db ck) \<le> next_id x (ck_db ck')"
proof -
  obtain o1 ck1 where fr: "fresh_generation sb env sc ck = (o1, ck1)" by fastforce
  note n = fresh_next [OF fr, of x]
  show ?thesis
  proof (cases o1)
    case None
    with assms fr n show ?thesis by (auto simp: mintLocked_def split: if_splits bool.splits)
  next
    case (Some rk)
    obtain r key b db' where rk: "rk = (r, key)" "InsertScopeKey (ke_write env) r (ck_db ck1) = (b, db')" by fastforce
    with assms fr Some n write_next(1) [OF rk(2), of x] show ?thesis by (auto simp: mintLocked_def split: if_splits bool.splits)
  qed
qed

lemma ensure_next: "next_id x (ck_db ck) \<le> next_id x (ck_db (snd (EnsureScope sb env sc ck)))"
proof (cases "loadLocked sb env sc ck")
  case (Inr e)
  then show ?thesis using mint_next [of sb env sc e ck _ _ x] by (auto simp: EnsureScope_def) (metis prod.collapse)
qed (simp add: EnsureScope_def)

lemma rotate_next:
  assumes "rotate_key sb env sc ck = (res, ck')"
  shows "next_id x (ck_db ck) \<le> next_id x (ck_db ck')"
proof (cases "loadLocked sb env sc ck")
  case (Inl e)
  with assms show ?thesis by (auto simp: rotate_key_def)
next
  case (Inr e)
  obtain o1 ck1 where fr: "fresh_generation sb env sc ck = (o1, ck1)" by fastforce
  note n = fresh_next [OF fr, of x]
  show ?thesis
  proof (cases o1)
    case None
    with assms fr n Inr mint_next [of sb env sc e ck _ _ x] show ?thesis by (auto simp: rotate_key_def split: if_splits)
  next
    case (Some rk)
    obtain r key b db' where rk: "rk = (r, key)" "RotateScopeKey (ke_write env) r (ck_db ck1) = (b, db')" by fastforce
    with assms fr Some n Inr write_next(2) [OF rk(2), of x] mint_next [of sb env sc e ck _ _ x] show ?thesis
      by (auto simp: rotate_key_def split: if_splits bool.splits)
  qed
qed

lemma key_inv_op:
  assumes "key_inv sb s" "op_ok sb (ks_ck s) ck'" "\<And>x. next_id x (ck_db (ks_ck s)) \<le> next_id x (ck_db ck')"
  shows "key_inv sb (s\<lparr>ks_ck := ck'\<rparr>)"
proof -
  have "\<forall>(sc, g) \<in> set (ks_issued s). g < next_id sc (ck_db ck')"
    using assms(1,3) unfolding key_inv_def issued_ok_def by (fastforce intro: order_less_le_trans)
  moreover have "\<forall>x \<in> set (ks_sealed s). sealed_ok sb ck' x" using assms(1,2) sealed_ok_keeps by (auto simp: key_inv_def op_ok_def)
  ultimately show ?thesis using assms(1,2) by (simp add: key_inv_def op_ok_def issued_ok_def)
qed

lemma same_db_next: "ck_db ck' = ck_db ck \<Longrightarrow> next_id x (ck_db ck) \<le> next_id x (ck_db ck')"
  by simp

lemma Unwrap_extends:
  assumes "ring_extends r r'" "Unwrap sb r n w = Some k"
  shows "Unwrap sb r' n w = Some k"
  using assms by (auto simp: Unwrap_def ring_extends_def split: option.splits)

lemma restart_inv:
  assumes "key_inv sb s" "ring_ok ring" "ring_extends (ck_ring (ks_ck s)) ring"
  shows "key_inv sb (key_step sb (KRestart ring) s)"
proof -
  let ?ck = "(ks_ck s)\<lparr>ck_ring := ring, ck_scopes := fmempty\<rparr>"
  have k: "keeps sb (ks_ck s) ?ck" using Unwrap_extends [OF assms(3)] by (auto simp: keeps_def gen_key_def split: option.splits)
  have "db_ok sb ring (ck_db (ks_ck s))" using assms(1) Unwrap_extends [OF assms(3)] by (fastforce simp: key_inv_def ck_inv_def db_ok_def row_ok_def)
  then have "ck_inv sb ?ck" using assms(2) by (simp add: ck_inv_def)
  with k assms(1) show ?thesis by (auto simp: key_inv_def issued_ok_def intro: sealed_ok_keeps [OF _ k])
qed

lemma rotate_step_inv:
  assumes "key_inv sb s" "env_ok env"
  shows "key_inv sb (key_step sb (KRotate env sc) s)"
proof -
  obtain res ck' where r: "rotate_key sb env sc (ks_ck s) = (res, ck')" by fastforce
  have i: "ck_inv sb (ks_ck s)" "box_ok sb" using assms(1) by (auto simp: key_inv_def)
  note ok = rotate_ok [OF i assms(2) r]
  note base = key_inv_op [OF assms(1) conjunct1 [OF ok] rotate_next [OF r]]
  show ?thesis
  proof (cases res)
    case (Inl e)
    with r base show ?thesis by simp
  next
    case (Inr gk)
    obtain g k where gk: "gk = (g, k)" by fastforce
    with ok Inr have g: "gen_key sb (ck_ring ck') (ck_db ck') sc g = Some k" "g = next_id sc (ck_db (ks_ck s))" by auto
    have "db_ok sb (ck_ring ck') (ck_db ck')" using base by (simp add: key_inv_def ck_inv_def)
    from gen_key_bound [OF this g(1)] have lt: "g < next_id sc (ck_db ck')" by simp
    have "h < g" if "(sc, h) \<in> set (ks_issued s)" for h
      using assms(1) that g(2) by (auto simp: key_inv_def issued_ok_def)
    with base lt have "issued_ok (s\<lparr>ks_ck := ck', ks_issued := (sc, g) # ks_issued s\<rparr>)"
      by (auto simp: key_inv_def issued_ok_def)
    with base r Inr gk show ?thesis by (simp add: key_inv_def)
  qed
qed

lemma key_step_inv:
  assumes "key_inv sb s" "key_op_ok p s"
  shows "key_inv sb (key_step sb p s)"
proof -
  have i: "ck_inv sb (ks_ck s)" "box_ok sb" using assms(1) by (auto simp: key_inv_def)
  show ?thesis
  proof (cases p)
    case (KEnsure env sc)
    obtain res ck' where r: "EnsureScope sb env sc (ks_ck s) = (res, ck')" by fastforce
    with EnsureScope_ok(1) [OF i _ r] assms KEnsure ensure_next [of _ "ks_ck s" sb env sc] show ?thesis by (auto intro: key_inv_op)
  next
    case (KCurrent env sc)
    obtain res ck' where r: "current sb env sc (ks_ck s) = (res, ck')" by fastforce
    with current_ok [OF i(1) r] KCurrent assms(1) show ?thesis by (auto intro: key_inv_op)
  next
    case (KAt env sc g)
    obtain res ck' where r: "key_at sb env sc g (ks_ck s) = (res, ck')" by fastforce
    with key_at_ok [OF i(1) r] KAt assms(1) show ?thesis by (auto intro: key_inv_op)
  next
    case (KRotate env sc)
    with assms rotate_step_inv show ?thesis by simp
  next
    case (KSeal env sc plain)
    obtain res ck' where r: "seal_body sb env sc plain (ks_ck s) = (res, ck')" by fastforce
    note ok = seal_body_ok [OF i(1) _ r]
    have base: "key_inv sb (s\<lparr>ks_ck := ck'\<rparr>)" using ok KSeal assms by (auto intro: key_inv_op)
    show ?thesis
    proof (cases res)
      case (Inr gb)
      obtain g blob where "gb = (g, blob)" by fastforce
      with Inr ok(3) [of g blob] base KSeal r assms(2) show ?thesis by (simp add: key_inv_def issued_ok_def)
    qed (use base KSeal r in simp)
  next
    case (KSealFor env sc g pub)
    with sealFor_ok [OF i(1)] assms(1) show ?thesis by (auto intro: key_inv_op)
  next
    case (KOpen env sc g blob)
    with open_body_ok [OF i(1)] assms(1) show ?thesis by (auto intro: key_inv_op)
  next
    case (KRestart ring)
    with assms restart_inv show ?thesis by simp
  qed
qed

lemma key_start_inv: "box_ok sb \<Longrightarrow> ring_ok ring \<Longrightarrow> key_inv sb (key_start ring)"
  by (simp add: key_inv_def key_start_def ck_inv_def db_ok_def next_id_def issued_ok_def)

text \<open>The invariant of a run is an instance of the generic one, for every secretbox and ring that behave as documented.\<close>

lemma key_system: "box_ok sb \<Longrightarrow> ring_ok ring \<Longrightarrow> invariant_system (key_step sb) key_op_ok (key_inv sb) (key_start ring)"
  by unfold_locales (auto intro: key_start_inv key_step_inv)

lemmas key_run_inv = invariant_system.run_start_inv [OF key_system]

lemma encode_solid: "bs \<noteq> [] \<Longrightarrow> EncodeToString bs \<noteq> [] \<and> solid (last (EncodeToString bs)) \<and> solid (hd (EncodeToString bs))"
proof (induction bs rule: EncodeToString.induct)
  case (4 a b c rest)
  then show ?case by (cases "rest = []") (auto simp: sextets)
qed (auto simp: sextets)

lemma parse_ring_file:
  assumes "length key = 32"
  shows "parseRing (ring_file_line key) = Some \<lparr>kr_keys = fmupd 1 key fmempty, kr_newest = 1\<rparr>"
proof -
  let ?b = "EncodeToString key" and ?l = "''1:'' @ EncodeToString key"
  have b: "?b \<noteq> []" "solid (last ?b)" "solid (hd ?b)" using encode_solid [of key] assms by (cases "key = []", simp, simp)+
  have nl: "CHR 0x0A \<notin> set ?l" using encode_chars [of key] by auto
  then have "Split CHR 0x0A (?l @ CHR 0x0A # []) = ?l # Split CHR 0x0A []" by (rule Split_here)
  then have ls: "Split CHR 0x0A (ring_file_line key) = [?l, []]" by (simp add: ring_file_line_def)
  have t: "TrimSpace ?l = ?l" using b by (intro TrimSpace_solid) (auto simp: solid_def)
  have t1: "TrimSpace ''1'' = ''1''" by (rule TrimSpace_solid) (auto simp: solid_def)
  have t0: "TrimSpace [] = []" by (simp add: TrimSpace_def trim_with.simps)
  have p: "ParseUint ''1'' 16 = Some 1" by (simp add: ParseUint_def is_digit_def undec_def)
  have e: "ring_entry ?l = Some (1, ?b)"
    using SplitN2_here [of "CHR '':''" "''1''" ?b] t1 p TrimSpace_solid [OF b(1,3,2)] by (simp add: ring_entry_def)
  have "ring_line ?l \<lparr>kr_keys = fmempty, kr_newest = 0\<rparr> = Some \<lparr>kr_keys = fmupd 1 key fmempty, kr_newest = 1\<rparr>"
    unfolding ring_line_def Let_def t e using assms by (simp add: HasPrefix_def decodeKey_def)
  moreover have "ring_line [] r = Some r" for r by (simp add: ring_line_def Let_def t0)
  moreover have "(fmupd 1 key fmempty :: (nat, key32) fmap) \<noteq> fmempty" by (metis fmempty_lookup fmupd_lookup option.distinct(1))
  ultimately show ?thesis using encode_length [of key] assms by (simp add: parseRing_def ls Let_def)
qed

subsection \<open>Properties\<close>

text \<open>A secretbox that adds sixteen zero bytes, a ring with one key and an environment without faults, for the examples.\<close>

definition keys_demo_nacl :: nacl where
  "keys_demo_nacl = \<lparr>sb_seal = (\<lambda>m n k. replicate 16 0 @ m), sb_open = (\<lambda>b n k. Some (drop 16 b)), sb_anon = (\<lambda>m p r. m)\<rparr>"

definition keys_demo_ring :: KEKRing where
  "keys_demo_ring = \<lparr>kr_keys = fmupd 1 (replicate 32 1) fmempty, kr_newest = 1\<rparr>"

definition keys_demo_key :: key32 where "keys_demo_key = replicate 32 7"
definition keys_demo_nonce :: "byte list" where "keys_demo_nonce = replicate 24 3"

definition keys_demo_env :: key_env where
  "keys_demo_env = \<lparr>ke_readFails = False, ke_alloc = NoFault, ke_key = Some keys_demo_key, ke_wrapNonce = Some keys_demo_nonce,
     ke_write = NoFault, ke_nonce = Some keys_demo_nonce\<rparr>"

lemma keys_demo_ok [simp]: "box_ok keys_demo_nacl" "ring_ok keys_demo_ring" "env_ok keys_demo_env" "\<not> ke_readFails keys_demo_env"
  by (auto simp: box_ok_def keys_demo_nacl_def ring_ok_def keys_demo_ring_def env_ok_def keys_demo_env_def keys_demo_key_def keys_demo_nonce_def)

lemma keys_demo_wrap: "Wrap keys_demo_nacl keys_demo_ring (Some keys_demo_nonce) keys_demo_key = Some (1, keys_demo_nonce @ sb_seal keys_demo_nacl keys_demo_key keys_demo_nonce (replicate 32 1))"
  by (simp add: Wrap_def keys_demo_ring_def)

definition keys_demo_row :: "nat \<Rightarrow> scope_row" where
  "keys_demo_row g = \<lparr>sr_scope = 5, sr_id = g, sr_wrapped = keys_demo_nonce @ sb_seal keys_demo_nacl keys_demo_key keys_demo_nonce (replicate 32 1), sr_kek = 1, sr_retired = False\<rparr>"

lemma keys_demo_row_id: "sr_id (keys_demo_row g) = g"
  by (simp add: keys_demo_row_def)

lemma keys_demo_fresh:
  assumes "ck_ring ck = keys_demo_ring" "next_id 5 (ck_db ck) = g" "g < 2 ^ 32"
  shows "fresh_generation keys_demo_nacl keys_demo_env 5 ck = (Some (keys_demo_row g, keys_demo_key), ck\<lparr>ck_db := (ck_db ck)\<lparr>kd_seq := fmupd 5 (g + 1) (kd_seq (ck_db ck))\<rparr>\<rparr>)"
  using assms by (simp add: fresh_generation_def AllocScopeKeyID_def Let_def keys_demo_env_def keys_demo_wrap keys_demo_row_def)

definition keys_demo_blob :: string where
  "keys_demo_blob = EncodeToString (keys_demo_nonce @ sb_seal keys_demo_nacl [104, 105] keys_demo_nonce keys_demo_key)"

definition keys_demo_ops :: "key_op list" where
  "keys_demo_ops = [KRotate keys_demo_env 5, KSeal keys_demo_env 5 [104, 105], KRotate keys_demo_env 5, KRestart keys_demo_ring]"

lemma keys_demo_step1:
  "key_step keys_demo_nacl (KRotate keys_demo_env 5) (key_start keys_demo_ring) =
     \<lparr>ks_ck = \<lparr>ck_configured = True, ck_ring = keys_demo_ring, ck_db = \<lparr>kd_rows = [keys_demo_row 1], kd_seq = fmupd 5 2 fmempty\<rparr>,
        ck_scopes = fmupd 5 (new_entry\<lparr>en_curID := 1, en_curKey := keys_demo_key, en_loaded := True\<rparr>) fmempty\<rparr>, ks_sealed = [], ks_issued = [(5, 1)]\<rparr>"
proof -
  let ?ck = "ks_ck (key_start keys_demo_ring)"
  have l: "loadLocked keys_demo_nacl keys_demo_env 5 ?ck = Inr (new_entry\<lparr>en_loaded := True\<rparr>)"
    by (simp add: loadLocked_def key_start_def entry_def new_entry_def CurrentScopeKey_def scanScopeKey_def keys_demo_env_def Let_def)
  have f: "fresh_generation keys_demo_nacl keys_demo_env 5 ?ck =
    (Some (keys_demo_row 1, keys_demo_key), ?ck\<lparr>ck_db := (ck_db ?ck)\<lparr>kd_seq := fmupd 5 2 (kd_seq (ck_db ?ck))\<rparr>\<rparr>)"
    using keys_demo_fresh [of ?ck 1] by (simp add: key_start_def next_id_def) (simp add: numeral_2_eq_2)
  have i: "InsertScopeKey (ke_write keys_demo_env) (keys_demo_row g) \<lparr>kd_rows = [], kd_seq = q\<rparr> = (True, \<lparr>kd_rows = [keys_demo_row g], kd_seq = q\<rparr>)" for q g
    by (simp add: InsertScopeKey_def keys_demo_env_def)
  have "rotate_key keys_demo_nacl keys_demo_env 5 ?ck = (Inr (1, keys_demo_key),
     \<lparr>ck_configured = True, ck_ring = keys_demo_ring, ck_db = \<lparr>kd_rows = [keys_demo_row 1], kd_seq = fmupd 5 2 fmempty\<rparr>,
        ck_scopes = fmupd 5 (new_entry\<lparr>en_curID := 1, en_curKey := keys_demo_key, en_loaded := True\<rparr>) fmempty\<rparr>)"
    unfolding rotate_key_def l sum.case mintLocked_def f
    by (simp add: key_start_def i put_entry_def new_entry_def keys_demo_row_id)
  then show ?thesis by (simp add: key_start_def)
qed

lemma keys_demo_ring_kept: "op_ok sb ck ck' \<Longrightarrow> ck_ring ck' = ck_ring ck"
  by (simp add: op_ok_def)

lemma ring_step: "key_inv sb s \<Longrightarrow> env_ok env \<Longrightarrow> ck_ring (ks_ck (key_step sb (KRotate env sc) s)) = ck_ring (ks_ck s)"
  using rotate_ok [of sb "ks_ck s" env sc] by (cases "rotate_key sb env sc (ks_ck s)") (auto simp: key_inv_def op_ok_def split: sum.splits)

definition keys_demo_mid :: key_sys where
  "keys_demo_mid = key_step keys_demo_nacl (KSeal keys_demo_env 5 [104, 105]) (key_step keys_demo_nacl (KRotate keys_demo_env 5) (key_start keys_demo_ring))"

lemma keys_demo_mid_facts: "ks_sealed keys_demo_mid = [(5, 1, keys_demo_blob, [104, 105])]" "ck_ring (ks_ck keys_demo_mid) = keys_demo_ring" "ks_issued keys_demo_mid = [(5, 1)]"
  unfolding keys_demo_mid_def keys_demo_step1
  by (simp_all add: seal_body_def current_def loadLocked_def entry_def new_entry_def Let_def keys_demo_env_def keys_demo_blob_def)

lemma keys_demo_ops_ok: "ops_ok (key_step keys_demo_nacl) key_op_ok keys_demo_ops (key_start keys_demo_ring)"
proof -
  have "key_inv keys_demo_nacl keys_demo_mid" unfolding keys_demo_mid_def by (intro key_step_inv key_start_inv) simp_all
  from ring_step [OF this, of keys_demo_env 5] show ?thesis
    by (simp add: keys_demo_ops_def ring_extends_def keys_demo_mid_facts(2) keys_demo_mid_def [symmetric] del: key_step.simps)
qed

lemma keys_demo_run: "run_ops (key_step keys_demo_nacl) keys_demo_ops (key_start keys_demo_ring) =
    key_step keys_demo_nacl (KRestart keys_demo_ring) (key_step keys_demo_nacl (KRotate keys_demo_env 5) keys_demo_mid)"
  by (simp add: keys_demo_ops_def keys_demo_mid_def del: key_step.simps)

lemma rotate_sealed: "ks_sealed (key_step sb (KRotate env sc) s) = ks_sealed s"
  by (auto split: prod.split sum.split)

lemma keys_demo_sealed: "(5, 1, keys_demo_blob, [104, 105]) \<in> set (ks_sealed (run_ops (key_step keys_demo_nacl) keys_demo_ops (key_start keys_demo_ring)))"
  unfolding keys_demo_run key_step.simps(8) by (simp add: rotate_sealed keys_demo_mid_facts(1) del: key_step.simps)

text \<open>C5: A chat body that the server has sealed under a scope's key opens to the same bytes under the generation id
  returned with it, whatever happens in between: any sequence of minting, rotating, sealing and opening in any scopes, with
  statements that fail before or after taking effect, evictions from the archival cache, and restarts with a ring that has
  grown.  The only condition is that the read of the key row itself does not fail.\<close>

theorem sealed_opens_forever:
  assumes "box_ok sb" "ring_ok ring" "ops_ok (key_step sb) key_op_ok ops (key_start ring)"
    "(sc, g, blob, plain) \<in> set (ks_sealed (run_ops (key_step sb) ops (key_start ring)))" "\<not> ke_readFails env"
  shows "fst (open_body sb env sc g blob (ks_ck (run_ops (key_step sb) ops (key_start ring)))) = Inr plain"
  using key_run_inv [OF assms(1-3)] assms(4,5) by (auto simp: key_inv_def intro: open_sealed)

theorem sealed_opens_forever_witness:
  "fst (open_body keys_demo_nacl keys_demo_env 5 1 keys_demo_blob (ks_ck (run_ops (key_step keys_demo_nacl) keys_demo_ops (key_start keys_demo_ring)))) = Inr [104, 105]"
  by (rule sealed_opens_forever [OF keys_demo_ok(1,2) keys_demo_ops_ok keys_demo_sealed keys_demo_ok(4)])



text \<open>The key file that the first start creates is read back by every later start as the ring the first start used,
  with creation allowed or not.\<close>

theorem created_ring_reloads:
  assumes "length key = 32" "path \<noteq> []" "TrimSpace envB64 = []" "LoadKEKRing path envB64 True (Some key) CreateOk NoFile = (ring, file)"
  shows "LoadKEKRing path envB64 create random res file = (ring, file) \<and> ring \<noteq> None"
proof -
  have "ring = Some \<lparr>kr_keys = fmupd 1 key fmempty, kr_newest = 1\<rparr>" "file = FileText (ring_file_line key)"
    using assms(2-4) by (auto simp: LoadKEKRing_def createRing_def)
  with parse_ring_file [OF assms(1)] assms(2,3) show ?thesis by (simp add: LoadKEKRing_def)
qed

theorem created_ring_reloads_witness:
  "LoadKEKRing ''k'' [] False None CreateFails (FileText (ring_file_line (replicate 32 9))) =
     (Some \<lparr>kr_keys = fmupd 1 (replicate 32 9) fmempty, kr_newest = 1\<rparr>, FileText (ring_file_line (replicate 32 9)))"
proof -
  have t: "TrimSpace [] = []" by (simp add: TrimSpace_def trim_with.simps)
  have "LoadKEKRing ''k'' [] True (Some (replicate 32 9)) CreateOk NoFile =
    (Some \<lparr>kr_keys = fmupd 1 (replicate 32 9) fmempty, kr_newest = 1\<rparr>, FileText (ring_file_line (replicate 32 9)))"
    by (simp add: LoadKEKRing_def createRing_def t)
  from created_ring_reloads [OF _ _ t this] show ?thesis by simp
qed


text \<open>A scope whose entry is loaded without a generation although the table has a live one.\<close>

definition stuck_scope :: "scope_id \<Rightarrow> chat_keys \<Rightarrow> bool" where
  "stuck_scope sc ck \<longleftrightarrow>
     ck_configured ck \<and> en_loaded (entry sc ck) \<and> en_curID (entry sc ck) = 0 \<and> (\<exists>r \<in> set (kd_rows (ck_db ck)). live_row sc r)"

lemma entry_put [simp]: "entry sc (put_entry sc e ck) = e"
  by (simp add: entry_def put_entry_def)

lemma fresh_rows: "fresh_generation sb env sc ck = (o1, ck1) \<Longrightarrow> kd_rows (ck_db ck1) = kd_rows (ck_db ck) \<and> ck_configured ck1 = ck_configured ck"
  by (cases "AllocScopeKeyID (ke_alloc env) sc (ck_db ck)")
    (auto simp: fresh_generation_def AllocScopeKeyID_props(1) split: option.splits prod.splits)

lemma fresh_scope: "fresh_generation sb env sc ck = (Some (r, key), ck1) \<Longrightarrow> sr_scope r = sc \<and> \<not> sr_retired r"
  by (auto simp: fresh_generation_def split: option.splits prod.splits)

lemma stuck_mint:
  assumes "stuck_scope sc ck" "e = entry sc ck"
  shows "fst (mintLocked sb env sc e ck) = Inl ErrKeyBackend \<and> stuck_scope sc (snd (mintLocked sb env sc e ck))"
proof -
  obtain o1 ck1 where fr: "fresh_generation sb env sc ck = (o1, ck1)" by fastforce
  note k = fresh_rows [OF fr]
  show ?thesis
  proof (cases o1)
    case None
    with assms fr k show ?thesis by (simp add: mintLocked_def stuck_scope_def)
  next
    case (Some rk)
    obtain r key where rk: "rk = (r, key)" by fastforce
    have "\<exists>x \<in> set (kd_rows (ck_db ck1)). live_row (sr_scope r) x"
      using assms(1) k fresh_scope fr Some rk by (auto simp: stuck_scope_def)
    then have "InsertScopeKey (ke_write env) r (ck_db ck1) = (False, ck_db ck1)" by (simp add: InsertScopeKey_def)
    with assms fr k Some rk show ?thesis by (simp add: mintLocked_def stuck_scope_def)
  qed
qed

lemma stuck_ensure:
  assumes "stuck_scope sc ck"
  shows "fst (EnsureScope sb env sc ck) = Inl ErrKeyBackend \<and> stuck_scope sc (snd (EnsureScope sb env sc ck))"
  using stuck_mint [OF assms refl, of sb env] assms by (simp add: EnsureScope_def loadLocked_def stuck_scope_def Let_def)

lemma stuck_forever: "stuck_scope sc ck \<Longrightarrow> stuck_scope sc (foldl (\<lambda>c v. snd (EnsureScope sb v sc c)) ck envs)"
  by (induction envs arbitrary: ck) (simp_all add: stuck_ensure)

lemma ensure_write_effect:
  assumes "EnsureScope sb env sc ck = (Inl err, ck1)" "kd_rows (ck_db ck1) \<noteq> kd_rows (ck_db ck)"
  shows "stuck_scope sc ck1"
proof -
  obtain e where e: "loadLocked sb env sc ck = Inr e" "en_curID e = 0" "mintLocked sb env sc e ck = (Inl err, ck1)"
    using assms by (auto simp: EnsureScope_def split: sum.splits if_splits)
  have l: "en_loaded e" using e(1) by (auto simp: loadLocked_def Let_def split: if_splits sum.splits option.splits)
  obtain o1 ck2 where fr: "fresh_generation sb env sc ck = (o1, ck2)" by fastforce
  note k = fresh_rows [OF fr]
  have conf: "ck_configured ck" using e(3) assms(2) by (auto simp: mintLocked_def split: if_splits)
  obtain r key where o1: "o1 = Some (r, key)"
    using e(3) assms(2) fr k conf by (cases o1) (auto simp: mintLocked_def)
  obtain b db where ins: "InsertScopeKey (ke_write env) r (ck_db ck2) = (b, db)" by fastforce
  have ck1: "ck1 = put_entry sc e (ck2\<lparr>ck_db := db\<rparr>)"
    using e(3) fr o1 ins conf by (cases b) (auto simp: mintLocked_def)
  have "kd_rows db \<noteq> kd_rows (ck_db ck2)" using assms(2) k by (simp add: ck1)
  then have "r \<in> set (kd_rows db)" using ins by (auto simp: InsertScopeKey_def split: if_splits)
  moreover have "live_row sc r" using fresh_scope [OF fr [unfolded o1]] by (simp add: live_row_def)
  ultimately have "\<exists>x \<in> set (kd_rows db). live_row sc x" by blast
  with l e(2) conf k show ?thesis by (simp add: stuck_scope_def ck1)
qed

text \<open>C30: When the insert of a scope's first generation takes effect but reports an error, the entry stays loaded without a
  generation while the table has a live row: every later attempt to establish the scope fails, even with no fault at
  all, until the process restarts and reads the table again.\<close>

theorem lost_mint_blocks_scope:
  assumes "EnsureScope sb env sc ck = (Inl err, ck1)" "kd_rows (ck_db ck1) \<noteq> kd_rows (ck_db ck)"
  shows "fst (EnsureScope sb env' sc (foldl (\<lambda>c v. snd (EnsureScope sb v sc c)) ck1 envs)) = Inl ErrKeyBackend"
  using stuck_ensure [OF stuck_forever [OF ensure_write_effect [OF assms]]] by blast

theorem lost_mint_blocks_scope_witness:
  "fst (EnsureScope keys_demo_nacl keys_demo_env 5 (snd (EnsureScope keys_demo_nacl (keys_demo_env\<lparr>ke_write := FailAfter\<rparr>) 5 (ks_ck (key_start keys_demo_ring))))) =
     Inl ErrKeyBackend"
proof -
  let ?ck = "ks_ck (key_start keys_demo_ring)" and ?env = "keys_demo_env\<lparr>ke_write := FailAfter\<rparr>"
  have "fst (EnsureScope keys_demo_nacl ?env 5 ?ck) = Inl ErrKeyBackend \<and> kd_rows (ck_db (snd (EnsureScope keys_demo_nacl ?env 5 ?ck))) \<noteq> kd_rows (ck_db ?ck)"
    by (simp add: EnsureScope_def loadLocked_def key_start_def entry_def new_entry_def CurrentScopeKey_def scanScopeKey_def keys_demo_env_def Let_def
        mintLocked_def fresh_generation_def AllocScopeKeyID_def next_id_def keys_demo_wrap InsertScopeKey_def)
  then obtain ck1 where "EnsureScope keys_demo_nacl ?env 5 ?ck = (Inl ErrKeyBackend, ck1)" "kd_rows (ck_db ck1) \<noteq> kd_rows (ck_db ?ck)"
    by (metis prod.collapse)
  from lost_mint_blocks_scope [OF this, of keys_demo_env "[]"] this(1) show ?thesis by simp
qed

end
