(* ===== verification/Voice_Router.thy ===== *)
theory Voice_Router
  imports Noxa_Prelude
begin

text \<open>
  The SFU audio/video router (\<^verbatim>\<open>internal/webrtc/router.go\<close>): channel membership, the per-publisher
  output tracks, whisper configurations, media slots and slot claims.

  Go maps are finite maps; a peer connection and a tap's track writer are opaque handles (natural
  numbers).  Creating an output track calls Pion and may fail: the argument \<open>ok\<close> says for which
  (subscriber, publisher, slot) it succeeds.  Loops over a Go map visit the keys in the order
  \<open>sorted_list_of_fset\<close>; each iteration works on its own (subscriber, publisher) pair, so the
  order does not matter (\<open>add_pairs_pair\<close> and \<open>remove_pairs_pair\<close> of \<^verbatim>\<open>Voice_Routing\<close>).  Where the code
  takes the first match of a map iteration the order is an argument.  Each critical section is one definition; calls made after the unlock are results:
  \<open>Renegotiate\<close> for the renegotiation hook and \<open>PLI\<close> for a keyframe request written to a publisher.
\<close>

subsection \<open>Slots\<close>

datatype media_kind = KAudio | KVideo

type_synonym slot = string

definition SlotMic :: slot where "SlotMic = ''mic''"
definition SlotCam :: slot where "SlotCam = ''cam''"
definition SlotScreenAudio :: slot where "SlotScreenAudio = ''screenaudio''"
definition SlotScreen :: slot where "SlotScreen = ''screen''"

definition slotKinds :: "slot \<Rightarrow> media_kind option" where
  "slotKinds s =
     (if s = SlotMic then Some KAudio
      else if s = SlotCam then Some KVideo
      else if s = SlotScreenAudio then Some KAudio
      else if s = SlotScreen then Some KVideo
      else None)"

definition slotSep :: string where "slotSep = ''|''"

definition isDefaultSlot :: "slot \<Rightarrow> bool" where
  "isDefaultSlot s \<longleftrightarrow> s = SlotMic \<or> s = SlotCam"

definition defaultSlot :: "media_kind \<Rightarrow> slot" where
  "defaultSlot k = (case k of KVideo \<Rightarrow> SlotCam | KAudio \<Rightarrow> SlotMic)"

definition publisherStreamID :: "client_id \<Rightarrow> string" where
  "publisherStreamID p = ''noxa-'' @ p"

definition slotTrackID :: "client_id \<Rightarrow> slot \<Rightarrow> string" where
  "slotTrackID p s = (if s = SlotMic then p else p @ slotSep @ s)"

definition slotStreamID :: "client_id \<Rightarrow> slot \<Rightarrow> string" where
  "slotStreamID p s = (if s = SlotMic then publisherStreamID p else publisherStreamID p @ slotSep @ s)"

text \<open>An output track with its sender: its MSID track and stream ids and the peer it was added to.\<close>

record pub_slot =
  ps_track :: string
  ps_stream :: string
  ps_peer :: nat

record pub_track =
  pt_audio :: "(slot, pub_slot) fmap"
  pt_video :: "(slot, pub_slot) fmap"

definition pt_empty :: pub_track where
  "pt_empty = \<lparr>pt_audio = fmempty, pt_video = fmempty\<rparr>"

definition pt_slots :: "media_kind \<Rightarrow> pub_track \<Rightarrow> (slot, pub_slot) fmap" where
  "pt_slots k t = (case k of KVideo \<Rightarrow> pt_video t | KAudio \<Rightarrow> pt_audio t)"

definition pt_set_slots :: "media_kind \<Rightarrow> (slot, pub_slot) fmap \<Rightarrow> pub_track \<Rightarrow> pub_track" where
  "pt_set_slots k m t = (case k of KVideo \<Rightarrow> t\<lparr>pt_video := m\<rparr> | KAudio \<Rightarrow> t\<lparr>pt_audio := m\<rparr>)"

subsection \<open>State\<close>

record whisper_config =
  wh_active :: bool
  wh_clients :: "client_id fset"
  wh_channels :: "channel_id fset"

record router =
  rt_members :: "(channel_id, client_id fset) fmap"
  rt_clientChan :: "(client_id, channel_id) fmap"
  rt_pubTracks :: "(client_id, (client_id, pub_track) fmap) fmap"
  rt_pubPeers :: "(client_id, nat) fmap"
  rt_outputs :: "(client_id, nat) fmap"
  rt_videoOutputs :: "(client_id, nat) fmap"
  rt_rtcpWriters :: "(client_id, nat) fmap"
  rt_videoSources :: "(client_id, (slot, (string, 32 word) fmap) fmap) fmap"
  rt_layerPrefs :: "(client_id, string) fmap"
  rt_keyframeLast :: "(32 word, time) fmap"
  rt_whispers :: "(client_id, whisper_config) fmap"
  rt_whisperPairs :: "(client_id, client_id fset) fmap"
  rt_trackSlots :: "(client_id, (string, slot) fmap) fmap"
  rt_slotClaims :: "(client_id, (string, nat) fmap) fmap"
  rt_slotEpoch :: nat
  rt_echoChannel :: channel_id

definition NewRouter :: router where
  "NewRouter = \<lparr>rt_members = fmempty, rt_clientChan = fmempty, rt_pubTracks = fmempty, rt_pubPeers = fmempty,
     rt_outputs = fmempty, rt_videoOutputs = fmempty, rt_rtcpWriters = fmempty, rt_videoSources = fmempty,
     rt_layerPrefs = fmempty, rt_keyframeLast = fmempty, rt_whispers = fmempty, rt_whisperPairs = fmempty,
     rt_trackSlots = fmempty, rt_slotClaims = fmempty, rt_slotEpoch = 0, rt_echoChannel = 0\<rparr>"

datatype router_out = Renegotiate client_id | PLI client_id "32 word"

definition SetEchoChannel :: "channel_id \<Rightarrow> router \<Rightarrow> router" where
  "SetEchoChannel ch r = r\<lparr>rt_echoChannel := ch\<rparr>"

definition ChannelOf :: "client_id \<Rightarrow> router \<Rightarrow> channel_id option" where
  "ChannelOf c r = fmlookup (rt_clientChan r) c"

text \<open>Reading an inner map that may be missing.\<close>

definition fm_inner :: "('k, ('a, 'b) fmap) fmap \<Rightarrow> 'k \<Rightarrow> ('a, 'b) fmap" where
  "fm_inner m k = (case fmlookup m k of None \<Rightarrow> fmempty | Some x \<Rightarrow> x)"

subsection \<open>Publisher tracks\<close>

definition publisherSlotsLocked :: "client_id \<Rightarrow> router \<Rightarrow> slot list" where
  "publisherSlotsLocked p r =
     [SlotMic, SlotCam] @
     sorted_list_of_fset (ffilter (\<lambda>s. slotKinds s \<noteq> None \<and> \<not> isDefaultSlot s) (fmran (fm_inner (rt_trackSlots r) p)))"

type_synonym add_ok = "client_id \<Rightarrow> client_id \<Rightarrow> slot \<Rightarrow> bool"

definition addSlotLocked :: "add_ok \<Rightarrow> nat \<Rightarrow> client_id \<Rightarrow> client_id \<Rightarrow> slot \<Rightarrow> pub_track \<Rightarrow> pub_track \<times> bool" where
  "addSlotLocked ok pc sub pub s t =
     (case slotKinds s of
        None \<Rightarrow> (t, False)
      | Some k \<Rightarrow>
          if fmlookup (pt_slots k t) s \<noteq> None then (t, False)
          else if \<not> ok sub pub s then (t, False)
          else (pt_set_slots k (fmupd s \<lparr>ps_track = slotTrackID pub s, ps_stream = slotStreamID pub s, ps_peer = pc\<rparr> (pt_slots k t)) t, True))"

definition removeSlotLocked :: "slot \<Rightarrow> pub_track \<Rightarrow> pub_track \<times> bool" where
  "removeSlotLocked s t =
     (case slotKinds s of
        None \<Rightarrow> (t, False)
      | Some k \<Rightarrow> if fmlookup (pt_slots k t) s = None then (t, False) else (pt_set_slots k (fmdrop s (pt_slots k t)) t, True))"

fun add_slots :: "add_ok \<Rightarrow> nat \<Rightarrow> client_id \<Rightarrow> client_id \<Rightarrow> slot list \<Rightarrow> pub_track \<Rightarrow> pub_track \<times> bool" where
  "add_slots ok pc sub pub [] t = (t, False)"
| "add_slots ok pc sub pub (s # ss) t =
     (case addSlotLocked ok pc sub pub s t of
        (t1, c) \<Rightarrow> (case add_slots ok pc sub pub ss t1 of (t2, c2) \<Rightarrow> (t2, c \<or> c2)))"

definition addPublisherLocked :: "add_ok \<Rightarrow> client_id \<Rightarrow> client_id \<Rightarrow> router \<Rightarrow> router \<times> bool" where
  "addPublisherLocked ok sub pub r =
     (case fmlookup (rt_pubPeers r) sub of
        None \<Rightarrow> (r, False)
      | Some pc \<Rightarrow>
          let tracks = fm_inner (rt_pubTracks r) sub;
              t0 = (case fmlookup tracks pub of None \<Rightarrow> pt_empty | Some t \<Rightarrow> t);
              (t, changed) = add_slots ok pc sub pub (publisherSlotsLocked pub r) t0
          in if fmlookup tracks pub = None \<and> \<not> changed
             then (if tracks = fmempty then (r\<lparr>rt_pubTracks := fmdrop sub (rt_pubTracks r)\<rparr>, False) else (r, False))
             else (r\<lparr>rt_pubTracks := fmupd sub (fmupd pub t tracks) (rt_pubTracks r)\<rparr>, changed))"

definition removePublisherLocked :: "client_id \<Rightarrow> client_id \<Rightarrow> router \<Rightarrow> router \<times> bool" where
  "removePublisherLocked sub pub r =
     (case fmlookup (rt_pubTracks r) sub of
        None \<Rightarrow> (r, False)
      | Some tracks \<Rightarrow>
          if fmlookup tracks pub = None then (r, False)
          else if fmdrop pub tracks = fmempty then (r\<lparr>rt_pubTracks := fmdrop sub (rt_pubTracks r)\<rparr>, True)
          else (r\<lparr>rt_pubTracks := fmupd sub (fmdrop pub tracks) (rt_pubTracks r)\<rparr>, True))"

subsection \<open>Membership\<close>

definition leaveChannelLocked :: "channel_id \<Rightarrow> client_id \<Rightarrow> router \<Rightarrow> router" where
  "leaveChannelLocked ch c r =
     r\<lparr>rt_members := fmset_del ch c (rt_members r),
       rt_clientChan := (if fmlookup (rt_clientChan r) c = Some ch then fmdrop c (rt_clientChan r) else rt_clientChan r)\<rparr>"

text \<open>Both directions between \<open>c\<close> and each of \<open>others\<close>; the set collects the changed subscribers.\<close>

fun add_pairs :: "add_ok \<Rightarrow> client_id \<Rightarrow> client_id list \<Rightarrow> router \<Rightarrow> client_id fset \<Rightarrow> router \<times> client_id fset" where
  "add_pairs ok c [] r out = (r, out)"
| "add_pairs ok c (x # xs) r out =
     (if x = c then add_pairs ok c xs r out
      else
        (case addPublisherLocked ok c x r of
           (r1, b1) \<Rightarrow>
             (case addPublisherLocked ok x c r1 of
                (r2, b2) \<Rightarrow>
                  add_pairs ok c xs r2 ((if b2 then finsert x else id) ((if b1 then finsert c else id) out)))))"

fun remove_pairs :: "client_id \<Rightarrow> client_id list \<Rightarrow> router \<Rightarrow> client_id fset \<Rightarrow> router \<times> client_id fset" where
  "remove_pairs c [] r out = (r, out)"
| "remove_pairs c (x # xs) r out =
     (if x = c then remove_pairs c xs r out
      else
        (case removePublisherLocked c x r of
           (r1, b1) \<Rightarrow>
             (case removePublisherLocked x c r1 of
                (r2, b2) \<Rightarrow>
                  remove_pairs c xs r2 ((if b2 then finsert x else id) ((if b1 then finsert c else id) out)))))"

definition removePairsLocked :: "channel_id \<Rightarrow> client_id \<Rightarrow> router \<Rightarrow> router \<times> client_id fset" where
  "removePairsLocked ch c r =
     (case remove_pairs c (sorted_list_of_fset (fmset_get (rt_members r) ch)) r {||} of
        (r1, out) \<Rightarrow> (fst (removePublisherLocked c c r1), out |-| {|c|}))"

definition echo_pair :: "add_ok \<Rightarrow> channel_id \<Rightarrow> client_id \<Rightarrow> router \<Rightarrow> router \<times> bool" where
  "echo_pair ok ch c r =
     (if ch = rt_echoChannel r \<and> rt_echoChannel r \<noteq> 0 then addPublisherLocked ok c c r else (r, False))"

definition videoPublishersLocked :: "channel_id \<Rightarrow> client_id \<Rightarrow> router \<Rightarrow> (client_id \<times> slot) list" where
  "videoPublishersLocked ch exclude r =
     concat (map (\<lambda>p. map (\<lambda>s. (p, s)) (sorted_list_of_fset (fmdom (fm_inner (rt_videoSources r) p))))
       (filter (\<lambda>p. p \<noteq> exclude \<and> p |\<in>| fmset_get (rt_members r) ch) (sorted_list_of_fset (fmdom (rt_videoSources r)))))"

definition layerPrefLocked :: "client_id \<Rightarrow> router \<Rightarrow> string" where
  "layerPrefLocked c r = (case fmlookup (rt_layerPrefs r) c of Some p \<Rightarrow> p | None \<Rightarrow> ''h'')"

definition keyframeRequestWindow :: int where "keyframeRequestWindow = 1000000000"

definition allowKeyframeRequest :: "32 word \<Rightarrow> time \<Rightarrow> router \<Rightarrow> router \<times> bool" where
  "allowKeyframeRequest ssrc now r =
     (if (case fmlookup (rt_keyframeLast r) ssrc of None \<Rightarrow> False | Some t \<Rightarrow> now - t < keyframeRequestWindow) then (r, False)
      else (r\<lparr>rt_keyframeLast := fmupd ssrc now (rt_keyframeLast r)\<rparr>, True))"

text \<open>\<open>ord\<close> is the iteration order over the layers when the wanted one is not published.\<close>

definition keyframe_ssrc :: "((string, 32 word) fmap \<Rightarrow> string list) \<Rightarrow> client_id \<Rightarrow> slot \<Rightarrow> string \<Rightarrow> router \<Rightarrow> 32 word" where
  "keyframe_ssrc ord p s rid r =
     (case fmlookup (fm_inner (rt_videoSources r) p) s of
        None \<Rightarrow> 0
      | Some src \<Rightarrow>
          (case fmlookup src rid of
             Some x \<Rightarrow> x
           | None \<Rightarrow> (case ord src of [] \<Rightarrow> 0 | a # _ \<Rightarrow> (case fmlookup src a of Some x \<Rightarrow> x | None \<Rightarrow> 0))))"

definition RequestKeyframe ::
  "((string, 32 word) fmap \<Rightarrow> string list) \<Rightarrow> time \<Rightarrow> client_id \<Rightarrow> slot \<Rightarrow> string \<Rightarrow> router \<Rightarrow> router \<times> router_out list" where
  "RequestKeyframe ord now p s rid r =
     (let ssrc = keyframe_ssrc ord p s rid r
      in if fmlookup (rt_rtcpWriters r) p = None \<or> ssrc = 0 then (r, [])
         else (case allowKeyframeRequest ssrc now r of (r1, True) \<Rightarrow> (r1, [PLI p ssrc]) | (r1, False) \<Rightarrow> (r1, [])))"

fun request_keyframes ::
  "((string, 32 word) fmap \<Rightarrow> string list) \<Rightarrow> time \<Rightarrow> string \<Rightarrow> (client_id \<times> slot) list \<Rightarrow> router \<Rightarrow> router \<times> router_out list" where
  "request_keyframes ord now rid [] r = (r, [])"
| "request_keyframes ord now rid ((p, s) # refs) r =
     (case RequestKeyframe ord now p s rid r of
        (r1, o1) \<Rightarrow> (case request_keyframes ord now rid refs r1 of (r2, o2) \<Rightarrow> (r2, o1 @ o2)))"

definition hook_outs :: "client_id fset \<Rightarrow> router_out list" where
  "hook_outs S = map Renegotiate (sorted_list_of_fset S)"

text \<open>The critical section of \<open>JoinChannel\<close>.\<close>

definition join_locked :: "add_ok \<Rightarrow> channel_id \<Rightarrow> client_id \<Rightarrow> router \<Rightarrow> router \<times> client_id fset" where
  "join_locked ok ch c r =
     (let r1 = (case fmlookup (rt_clientChan r) c of
                  Some prev \<Rightarrow> if prev \<noteq> ch then fst (removePairsLocked prev c (leaveChannelLocked prev c r)) else r
                | None \<Rightarrow> r);
          r2 = r1\<lparr>rt_members := fmset_add ch c (rt_members r1), rt_clientChan := fmupd c ch (rt_clientChan r1)\<rparr>;
          (r3, ren) = add_pairs ok c (sorted_list_of_fset (fmset_get (rt_members r2) ch)) r2 {||};
          (r4, b) = echo_pair ok ch c r3
      in (r4, if b then finsert c ren else ren))"

definition rt_JoinChannel ::
  "add_ok \<Rightarrow> ((string, 32 word) fmap \<Rightarrow> string list) \<Rightarrow> time \<Rightarrow> channel_id \<Rightarrow> client_id \<Rightarrow> router \<Rightarrow> router \<times> router_out list" where
  "rt_JoinChannel ok ord now ch c r =
     (case join_locked ok ch c r of
        (r1, ren) \<Rightarrow>
          (case request_keyframes ord now (layerPrefLocked c r1) (videoPublishersLocked ch c r1) r1 of
             (r2, outs) \<Rightarrow> (r2, outs @ hook_outs ren)))"

definition leave_locked :: "channel_id \<Rightarrow> client_id \<Rightarrow> router \<Rightarrow> router \<times> client_id fset" where
  "leave_locked ch c r = removePairsLocked ch c (leaveChannelLocked ch c r)"

definition rt_LeaveChannel :: "channel_id \<Rightarrow> client_id \<Rightarrow> router \<Rightarrow> router \<times> router_out list" where
  "rt_LeaveChannel ch c r = (case leave_locked ch c r of (r1, ren) \<Rightarrow> (r1, hook_outs ren))"

definition LeaveAll :: "client_id \<Rightarrow> router \<Rightarrow> router \<times> router_out list" where
  "LeaveAll c r =
     (case fmlookup (rt_clientChan r) c of None \<Rightarrow> (r, []) | Some ch \<Rightarrow> rt_LeaveChannel ch c r)"

subsection \<open>Peers, slots and claims\<close>

definition EnsurePublishers ::
  "add_ok \<Rightarrow> ((string, 32 word) fmap \<Rightarrow> string list) \<Rightarrow> time \<Rightarrow> client_id \<Rightarrow> router \<Rightarrow> router \<times> router_out list" where
  "EnsurePublishers ok ord now c r =
     (case fmlookup (rt_clientChan r) c of
        None \<Rightarrow> (r, [])
      | Some ch \<Rightarrow>
          let (r1, ren) = add_pairs ok c (sorted_list_of_fset (fmset_get (rt_members r) ch)) r {||};
              (r2, b) = echo_pair ok ch c r1;
              (r3, outs) = request_keyframes ord now (layerPrefLocked c r2) (videoPublishersLocked ch c r2) r2
          in (r3, outs @ (if ren \<noteq> {||} \<or> b then [Renegotiate c] else [])))"

definition AttachPeer :: "client_id \<Rightarrow> nat \<Rightarrow> router \<Rightarrow> router" where
  "AttachPeer c pc r = r\<lparr>rt_pubPeers := fmupd c pc (rt_pubPeers r), rt_rtcpWriters := fmupd c pc (rt_rtcpWriters r)\<rparr>"

text \<open>The first critical section of \<open>detachPeer\<close>; the result is the set of subscribers of the client.\<close>

definition subscribers_of :: "client_id \<Rightarrow> router \<Rightarrow> client_id fset" where
  "subscribers_of c r = ffilter (\<lambda>sub. fmlookup (fm_inner (rt_pubTracks r) sub) c \<noteq> None) (fmdom (rt_pubTracks r))"

definition detach_locked :: "client_id \<Rightarrow> bool \<Rightarrow> router \<Rightarrow> router \<times> client_id fset" where
  "detach_locked c leave r =
     (let r1 = r\<lparr>rt_pubPeers := fmdrop c (rt_pubPeers r), rt_outputs := fmdrop c (rt_outputs r),
            rt_videoOutputs := fmdrop c (rt_videoOutputs r), rt_rtcpWriters := fmdrop c (rt_rtcpWriters r),
            rt_whispers := fmdrop c (rt_whispers r),
            rt_whisperPairs := fmset_del_keys (fmdom (rt_whisperPairs r)) c (fmdrop c (rt_whisperPairs r)),
            rt_layerPrefs := fmdrop c (rt_layerPrefs r), rt_videoSources := fmdrop c (rt_videoSources r),
            rt_slotClaims := fmdrop c (rt_slotClaims r),
            rt_trackSlots := (if leave then fmdrop c (rt_trackSlots r) else rt_trackSlots r),
            rt_pubTracks := fmdrop c (rt_pubTracks r)\<rparr>
      in (r1, subscribers_of c r1))"

definition detachPeer :: "client_id \<Rightarrow> bool \<Rightarrow> router \<Rightarrow> router \<times> router_out list" where
  "detachPeer c leave r =
     (let (r1, ren) = detach_locked c leave r;
          ch = fmlookup (rt_clientChan r) c;
          r2 = fold (\<lambda>sub x. fst (removePublisherLocked sub c x)) (sorted_list_of_fset ren) r1
      in (case ch of
            Some k \<Rightarrow>
              if leave then (case rt_LeaveChannel k c r2 of (r3, outs) \<Rightarrow> (r3, hook_outs ren @ outs)) else (r2, hook_outs ren)
          | None \<Rightarrow> (r2, hook_outs ren)))"

definition DetachPeer :: "client_id \<Rightarrow> router \<Rightarrow> router \<times> router_out list" where
  "DetachPeer c r = detachPeer c True r"

definition DetachPeerKeepChannel :: "client_id \<Rightarrow> router \<Rightarrow> router \<times> router_out list" where
  "DetachPeerKeepChannel c r = detachPeer c False r"

definition AddOutput :: "client_id \<Rightarrow> nat \<Rightarrow> router \<Rightarrow> router" where
  "AddOutput c w r = r\<lparr>rt_outputs := fmupd c w (rt_outputs r)\<rparr>"

definition RemoveOutput :: "client_id \<Rightarrow> router \<Rightarrow> router" where
  "RemoveOutput c r = r\<lparr>rt_outputs := fmdrop c (rt_outputs r)\<rparr>"

definition addVideoOutput :: "client_id \<Rightarrow> nat \<Rightarrow> router \<Rightarrow> router" where
  "addVideoOutput c w r = r\<lparr>rt_videoOutputs := fmupd c w (rt_videoOutputs r)\<rparr>"

definition slotDiff :: "slot list \<Rightarrow> slot list \<Rightarrow> slot list \<times> slot list" where
  "slotDiff olds news = (filter (\<lambda>s. s \<notin> set olds) news, filter (\<lambda>s. s \<notin> set news) olds)"

fun remove_slots :: "slot list \<Rightarrow> pub_track \<Rightarrow> pub_track \<times> bool" where
  "remove_slots [] t = (t, False)"
| "remove_slots (s # ss) t =
     (case removeSlotLocked s t of (t1, c) \<Rightarrow> (case remove_slots ss t1 of (t2, c2) \<Rightarrow> (t2, c \<or> c2)))"

text \<open>The change of one subscriber's tracks when the publisher's slots change.\<close>

definition resync_slots ::
  "add_ok \<Rightarrow> (client_id, nat) fmap \<Rightarrow> client_id \<Rightarrow> slot list \<Rightarrow> slot list \<Rightarrow> client_id \<Rightarrow> pub_track \<Rightarrow> pub_track \<times> bool" where
  "resync_slots ok peers pub added removed sub t =
     (let (t1, c1) = (case fmlookup peers sub of None \<Rightarrow> (t, False) | Some pc \<Rightarrow> add_slots ok pc sub pub added t);
          (t2, c2) = remove_slots removed t1
      in (t2, c1 \<or> c2))"

definition SetTrackSlots :: "add_ok \<Rightarrow> client_id \<Rightarrow> (string, slot) fmap \<Rightarrow> router \<Rightarrow> router \<times> router_out list" where
  "SetTrackSlots ok pub slots r =
     (let olds = publisherSlotsLocked pub r;
          declared = fmfilter (\<lambda>t. slotKinds (the (fmlookup slots t)) \<noteq> None) slots;
          r1 = r\<lparr>rt_trackSlots := (if declared = fmempty then fmdrop pub (rt_trackSlots r) else fmupd pub declared (rt_trackSlots r))\<rparr>;
          news = publisherSlotsLocked pub r1;
          (added, removed) = slotDiff olds news;
          sync = resync_slots ok (rt_pubPeers r1) pub added removed;
          ren = ffilter (\<lambda>sub. case fmlookup (fm_inner (rt_pubTracks r1) sub) pub of None \<Rightarrow> False | Some t \<Rightarrow> snd (sync sub t))
                  (fmdom (rt_pubTracks r1))
      in if added = [] \<and> removed = [] then (r1, [])
         else (r1\<lparr>rt_pubTracks := fmmap_keys (\<lambda>sub tracks.
                     case fmlookup tracks pub of None \<Rightarrow> tracks | Some t \<Rightarrow> fmupd pub (fst (sync sub t)) tracks) (rt_pubTracks r1)\<rparr>,
               hook_outs ren))"

definition slotFor :: "client_id \<Rightarrow> string \<Rightarrow> media_kind \<Rightarrow> router \<Rightarrow> slot" where
  "slotFor c trackID kind r =
     (case fmlookup (fm_inner (rt_trackSlots r) c) trackID of
        Some s \<Rightarrow> if slotKinds s = Some kind then s else defaultSlot kind
      | None \<Rightarrow> defaultSlot kind)"

definition claimSlot :: "client_id \<Rightarrow> string \<Rightarrow> router \<Rightarrow> router \<times> nat option" where
  "claimSlot c key r =
     (let claims = fm_inner (rt_slotClaims r) c
      in if fmlookup claims key \<noteq> None then (r, None)
         else let e = rt_slotEpoch r + 1
              in (r\<lparr>rt_slotEpoch := e, rt_slotClaims := fmupd c (fmupd key e claims) (rt_slotClaims r)\<rparr>, Some e))"

definition releaseSlot :: "client_id \<Rightarrow> string \<Rightarrow> nat \<Rightarrow> router \<Rightarrow> router" where
  "releaseSlot c key token r =
     (case fmlookup (rt_slotClaims r) c of
        None \<Rightarrow> r
      | Some claims \<Rightarrow>
          if fmlookup claims key \<noteq> Some token then r
          else if fmdrop key claims = fmempty then r\<lparr>rt_slotClaims := fmdrop c (rt_slotClaims r)\<rparr>
          else r\<lparr>rt_slotClaims := fmupd c (fmdrop key claims) (rt_slotClaims r)\<rparr>)"

subsection \<open>Whispers\<close>

definition whisperTargetsLocked :: "client_id \<Rightarrow> whisper_config \<Rightarrow> router \<Rightarrow> client_id fset" where
  "whisperTargetsLocked c cfg r =
     (wh_clients cfg |\<union>| ffUnion ((\<lambda>ch. fmset_get (rt_members r) ch) |`| wh_channels cfg)) |-| {|c|}"

fun whisper_add :: "add_ok \<Rightarrow> client_id \<Rightarrow> client_id list \<Rightarrow> router \<Rightarrow> client_id fset \<Rightarrow> router \<times> client_id fset" where
  "whisper_add ok c [] r ren = (r, ren)"
| "whisper_add ok c (sub # subs) r ren =
     (case addPublisherLocked ok sub c r of
        (r1, True) \<Rightarrow> whisper_add ok c subs (r1\<lparr>rt_whisperPairs := fmset_add c sub (rt_whisperPairs r1)\<rparr>) (finsert sub ren)
      | (r1, False) \<Rightarrow> whisper_add ok c subs r1 ren)"

definition same_channel :: "client_id \<Rightarrow> client_id \<Rightarrow> router \<Rightarrow> bool" where
  "same_channel a b r \<longleftrightarrow> fmlookup (rt_clientChan r) a \<noteq> None \<and> fmlookup (rt_clientChan r) a = fmlookup (rt_clientChan r) b"

text \<open>The entry of \<open>whisperPairs\<close> may become empty inside the loop and is dropped after it; \<open>fmset_del\<close> drops it at once.\<close>

fun whisper_remove :: "client_id \<Rightarrow> client_id fset \<Rightarrow> client_id list \<Rightarrow> router \<Rightarrow> client_id fset \<Rightarrow> router \<times> client_id fset" where
  "whisper_remove c keep [] r ren = (r, ren)"
| "whisper_remove c keep (sub # subs) r ren =
     (if sub |\<in>| keep \<or> sub |\<notin>| fmset_get (rt_whisperPairs r) c then whisper_remove c keep subs r ren
      else
        let r1 = r\<lparr>rt_whisperPairs := fmset_del c sub (rt_whisperPairs r)\<rparr>
        in if same_channel sub c r1 then whisper_remove c keep subs r1 ren
           else (case removePublisherLocked sub c r1 of
                   (r2, b) \<Rightarrow> whisper_remove c keep subs r2 (if b then finsert sub ren else ren)))"

definition SetWhisper :: "add_ok \<Rightarrow> client_id \<Rightarrow> client_id list \<Rightarrow> channel_id list \<Rightarrow> bool \<Rightarrow> router \<Rightarrow> router \<times> router_out list" where
  "SetWhisper ok c clients channels act r =
     (let cfg = \<lparr>wh_active = act, wh_clients = fset_of_list clients, wh_channels = fset_of_list channels\<rparr>;
          old = fmlookup (rt_whispers r) c;
          r1 = r\<lparr>rt_whispers := fmupd c cfg (rt_whispers r)\<rparr>;
          (r2, ren) = (if act then whisper_add ok c (sorted_list_of_fset (whisperTargetsLocked c cfg r1)) r1 {||} else (r1, {||}));
          (r3, ren') = (case old of
             Some o0 \<Rightarrow>
               if wh_active o0
               then whisper_remove c (if act then whisperTargetsLocked c cfg r2 else {||})
                      (sorted_list_of_fset (whisperTargetsLocked c o0 r2)) r2 ren
               else (r2, ren)
           | None \<Rightarrow> (r2, ren))
      in (r3, hook_outs ren'))"

definition WhisperTargets :: "client_id \<Rightarrow> router \<Rightarrow> client_id fset" where
  "WhisperTargets c r =
     (case fmlookup (rt_whispers r) c of
        Some cfg \<Rightarrow> if wh_active cfg then whisperTargetsLocked c cfg r else {||}
      | None \<Rightarrow> {||})"

subsection \<open>Forwarding\<close>

definition targetSubscribersLocked :: "client_id \<Rightarrow> router \<Rightarrow> client_id list" where
  "targetSubscribersLocked c r =
     (case fmlookup (rt_whispers r) c of
        Some cfg \<Rightarrow> if wh_active cfg then sorted_list_of_fset (whisperTargetsLocked c cfg r) else
          (case fmlookup (rt_clientChan r) c of
             None \<Rightarrow> []
           | Some ch \<Rightarrow> filter (\<lambda>x. \<not> (x = c \<and> ch \<noteq> rt_echoChannel r)) (sorted_list_of_fset (fmset_get (rt_members r) ch)))
      | None \<Rightarrow>
          (case fmlookup (rt_clientChan r) c of
             None \<Rightarrow> []
           | Some ch \<Rightarrow> filter (\<lambda>x. \<not> (x = c \<and> ch \<noteq> rt_echoChannel r)) (sorted_list_of_fset (fmset_get (rt_members r) ch))))"

text \<open>Where a packet is written: a subscriber's output track or a recorder tap.\<close>

datatype writer = WTrack client_id pub_slot | WTap client_id nat

text \<open>The first tap of the sender's channel in the iteration order \<open>ord\<close>; a tap in no channel reads as channel 0.\<close>

definition chan_or_zero :: "client_id \<Rightarrow> router \<Rightarrow> channel_id" where
  "chan_or_zero c r = (case fmlookup (rt_clientChan r) c of None \<Rightarrow> 0 | Some ch \<Rightarrow> ch)"

definition senderTapID :: "(client_id fset \<Rightarrow> client_id list) \<Rightarrow> (client_id, nat) fmap \<Rightarrow> client_id \<Rightarrow> router \<Rightarrow> client_id" where
  "senderTapID ord taps c r =
     (case fmlookup (rt_clientChan r) c of
        None \<Rightarrow> []
      | Some ch \<Rightarrow> (case filter (\<lambda>t. chan_or_zero t r = ch) (ord (fmdom taps)) of [] \<Rightarrow> [] | t # _ \<Rightarrow> t))"

definition tap_writers :: "(client_id fset \<Rightarrow> client_id list) \<Rightarrow> (client_id, nat) fmap \<Rightarrow> client_id \<Rightarrow> router \<Rightarrow> writer list" where
  "tap_writers ord taps c r =
     (let t = senderTapID ord taps c r in case fmlookup taps t of None \<Rightarrow> [] | Some w \<Rightarrow> [WTap t w])"

definition track_writer :: "media_kind \<Rightarrow> client_id \<Rightarrow> slot \<Rightarrow> router \<Rightarrow> client_id \<Rightarrow> writer list" where
  "track_writer kind c s r sub =
     (case fmlookup (fm_inner (rt_pubTracks r) sub) c of
        None \<Rightarrow> []
      | Some t \<Rightarrow> (case fmlookup (pt_slots kind t) s of None \<Rightarrow> [] | Some ps \<Rightarrow> [WTrack sub ps]))"

definition audio_writers :: "(client_id fset \<Rightarrow> client_id list) \<Rightarrow> client_id \<Rightarrow> slot \<Rightarrow> router \<Rightarrow> writer list" where
  "audio_writers ord c s r =
     concat (map (track_writer KAudio c s r) (targetSubscribersLocked c r)) @
     (if s = SlotMic then tap_writers ord (rt_outputs r) c r else [])"

text \<open>The number of successful writes; \<open>err\<close> says which writers fail.\<close>

definition ForwardRTP :: "(writer \<Rightarrow> bool) \<Rightarrow> (client_id fset \<Rightarrow> client_id list) \<Rightarrow> client_id \<Rightarrow> slot \<Rightarrow> router \<Rightarrow> nat" where
  "ForwardRTP err ord c s r = length (filter (\<lambda>w. \<not> err w) (audio_writers ord c s r))"

definition layerFallback :: "string \<Rightarrow> string list" where
  "layerFallback pref =
     (if pref = ''f'' then [''f'', ''h'', ''q'']
      else if pref = ''q'' then [''q'', ''h'', ''f'']
      else [''h'', ''q'', ''f''])"

fun first_layer :: "(string, 32 word) fmap \<Rightarrow> string list \<Rightarrow> string option" where
  "first_layer src [] = None"
| "first_layer src (a # as) = (if fmlookup src a \<noteq> None then Some a else first_layer src as)"

definition acceptLayerLocked :: "client_id \<Rightarrow> client_id \<Rightarrow> slot \<Rightarrow> string \<Rightarrow> router \<Rightarrow> bool" where
  "acceptLayerLocked sub pub s rid r =
     (let src = fm_inner (fm_inner (rt_videoSources r) pub) s
      in if src = fmempty then True
         else if fmlookup src [] \<noteq> None then True
         else (case first_layer src (layerFallback (layerPrefLocked sub r)) of Some a \<Rightarrow> rid = a | None \<Rightarrow> True))"

definition video_writers :: "(client_id fset \<Rightarrow> client_id list) \<Rightarrow> client_id \<Rightarrow> slot \<Rightarrow> string \<Rightarrow> router \<Rightarrow> writer list" where
  "video_writers ord c s rid r =
     concat (map (track_writer KVideo c s r) (filter (\<lambda>sub. acceptLayerLocked sub c s rid r) (targetSubscribersLocked c r))) @
     (if s = SlotCam then tap_writers ord (rt_videoOutputs r) c r else [])"

definition ForwardVideo :: "(writer \<Rightarrow> bool) \<Rightarrow> (client_id fset \<Rightarrow> client_id list) \<Rightarrow> client_id \<Rightarrow> slot \<Rightarrow> string \<Rightarrow> router \<Rightarrow> nat" where
  "ForwardVideo err ord c s rid r = length (filter (\<lambda>w. \<not> err w) (video_writers ord c s rid r))"

definition qualityToRID :: "string \<Rightarrow> string option" where
  "qualityToRID q =
     (if q = ''high'' then Some ''f'' else if q = ''mid'' then Some ''h'' else if q = ''low'' then Some ''q'' else None)"

text \<open>None: the quality name is not known.\<close>

definition SetVideoQuality ::
  "((string, 32 word) fmap \<Rightarrow> string list) \<Rightarrow> time \<Rightarrow> client_id \<Rightarrow> string \<Rightarrow> router \<Rightarrow> (router \<times> router_out list) option" where
  "SetVideoQuality ord now c quality r =
     (case qualityToRID quality of
        None \<Rightarrow> None
      | Some rid \<Rightarrow>
          let r1 = r\<lparr>rt_layerPrefs := fmupd c rid (rt_layerPrefs r)\<rparr>
          in (case fmlookup (rt_clientChan r1) c of
                None \<Rightarrow> Some (r1, [])
              | Some ch \<Rightarrow> Some (request_keyframes ord now rid (videoPublishersLocked ch c r1) r1)))"

text \<open>The owner of an SSRC: the last match of the iteration over publishers \<open>ps\<close>.\<close>

definition owns_ssrc :: "32 word \<Rightarrow> router \<Rightarrow> client_id \<Rightarrow> bool" where
  "owns_ssrc ssrc r p \<longleftrightarrow> (\<exists>s \<in> fset (fmdom (fm_inner (rt_videoSources r) p)). ssrc |\<in>| fmran (fm_inner (fm_inner (rt_videoSources r) p) s))"

definition relayKeyframeRequest :: "(client_id fset \<Rightarrow> client_id list) \<Rightarrow> time \<Rightarrow> 32 word \<Rightarrow> router \<Rightarrow> router \<times> router_out list" where
  "relayKeyframeRequest ord now ssrc r =
     (let owner = fold (\<lambda>p o0. if owns_ssrc ssrc r p then p else o0) (ord (fmdom (rt_videoSources r))) []
      in if owner = [] \<or> fmlookup (rt_rtcpWriters r) owner = None then (r, [])
         else (case allowKeyframeRequest ssrc now r of (r1, True) \<Rightarrow> (r1, [PLI owner ssrc]) | (r1, False) \<Rightarrow> (r1, [])))"

record channel_stats =
  cs_ChannelID :: channel_id
  cs_Members :: nat

record router_stats =
  rs_Channels :: nat
  rs_Clients :: nat
  rs_PerChannel :: "channel_stats list"

definition rt_Stats :: "router \<Rightarrow> router_stats" where
  "rt_Stats r =
     \<lparr>rs_Channels = fcard (fmdom (rt_members r)), rs_Clients = fcard (fmdom (rt_clientChan r)),
      rs_PerChannel = map (\<lambda>ch. \<lparr>cs_ChannelID = ch, cs_Members = fcard (fmset_get (rt_members r) ch)\<rparr>) (sorted_list_of_fset (fmdom (rt_members r)))\<rparr>"

text \<open>\<open>ReadVideoLoop\<close> registers its layer when it starts and removes it when it ends.\<close>

definition registerVideoSource :: "client_id \<Rightarrow> slot \<Rightarrow> string \<Rightarrow> 32 word \<Rightarrow> router \<Rightarrow> router" where
  "registerVideoSource c s rid ssrc r =
     (let bySlot = fm_inner (rt_videoSources r) c; src = fm_inner bySlot s
      in r\<lparr>rt_videoSources := fmupd c (fmupd s (fmupd rid ssrc src) bySlot) (rt_videoSources r)\<rparr>)"

definition unregisterVideoSource :: "client_id \<Rightarrow> slot \<Rightarrow> string \<Rightarrow> 32 word \<Rightarrow> router \<Rightarrow> router" where
  "unregisterVideoSource c s rid ssrc r =
     (case fmlookup (rt_videoSources r) c of
        None \<Rightarrow> r
      | Some bySlot \<Rightarrow>
          let src = fm_inner bySlot s;
              bySlot1 =
                (if (case fmlookup src rid of None \<Rightarrow> 0 | Some x \<Rightarrow> x) = ssrc
                 then (if fmdrop rid src = fmempty then fmdrop s bySlot else fmupd s (fmdrop rid src) bySlot)
                 else bySlot)
          in r\<lparr>rt_videoSources :=
               (if bySlot1 = fmempty then fmdrop c (rt_videoSources r) else fmupd c bySlot1 (rt_videoSources r))\<rparr>)"

end
