(* ===== verification/Voice_Routing.thy ===== *)
theory Voice_Routing
  imports Voice_Router
begin

text \<open>
  What the router guarantees: membership and output tracks stay consistent over every run, audio and
  video reach exactly the intended subscribers, and slot claims are exclusive.
\<close>

named_theorems router_simps \<open>effect of the router's operations on pairs and on the other fields\<close>

subsection \<open>Pairs\<close>

definition pair :: "router \<Rightarrow> client_id \<Rightarrow> client_id \<Rightarrow> pub_track option" where
  "pair r sub pub = fmlookup (fm_inner (rt_pubTracks r) sub) pub"

text \<open>Everything but the output tracks.\<close>

definition rest :: "router \<Rightarrow> router" where
  "rest r = r\<lparr>rt_pubTracks := fmempty\<rparr>"

lemma rest_fields:
  "rt_members (rest r) = rt_members r" "rt_clientChan (rest r) = rt_clientChan r" "rt_pubPeers (rest r) = rt_pubPeers r"
  "rt_outputs (rest r) = rt_outputs r" "rt_whispers (rest r) = rt_whispers r" "rt_whisperPairs (rest r) = rt_whisperPairs r"
  "rt_trackSlots (rest r) = rt_trackSlots r" "rt_slotClaims (rest r) = rt_slotClaims r" "rt_slotEpoch (rest r) = rt_slotEpoch r"
  "rt_echoChannel (rest r) = rt_echoChannel r" "rt_videoSources (rest r) = rt_videoSources r" "rt_layerPrefs (rest r) = rt_layerPrefs r"
  "rt_keyframeLast (rest r) = rt_keyframeLast r" "rt_rtcpWriters (rest r) = rt_rtcpWriters r" "rt_videoOutputs (rest r) = rt_videoOutputs r"
  by (simp_all add: rest_def)

lemma restD:
  assumes "rest a = rest b"
  shows "rt_members a = rt_members b" "rt_clientChan a = rt_clientChan b" "rt_pubPeers a = rt_pubPeers b"
    "rt_outputs a = rt_outputs b" "rt_whispers a = rt_whispers b" "rt_whisperPairs a = rt_whisperPairs b"
    "rt_trackSlots a = rt_trackSlots b" "rt_slotClaims a = rt_slotClaims b" "rt_slotEpoch a = rt_slotEpoch b"
    "rt_echoChannel a = rt_echoChannel b" "rt_videoSources a = rt_videoSources b" "rt_layerPrefs a = rt_layerPrefs b"
    "rt_keyframeLast a = rt_keyframeLast b" "rt_rtcpWriters a = rt_rtcpWriters b" "rt_videoOutputs a = rt_videoOutputs b"
  by (metis assms rest_fields)+

lemma rest_slots: "rest a = rest b \<Longrightarrow> publisherSlotsLocked p a = publisherSlotsLocked p b"
  unfolding publisherSlotsLocked_def by (drule restD(7)) simp

lemma fm_inner_simps [simp]:
  "fm_inner (fmupd k x m) k' = (if k' = k then x else fm_inner m k')"
  "fm_inner (fmdrop k m) k' = (if k' = k then fmempty else fm_inner m k')"
  "fm_inner fmempty k' = fmempty"
  by (auto simp: fm_inner_def)

definition grown :: "add_ok \<Rightarrow> router \<Rightarrow> client_id \<Rightarrow> client_id \<Rightarrow> pub_track option" where
  "grown ok r sub pub =
     (case fmlookup (rt_pubPeers r) sub of
        None \<Rightarrow> pair r sub pub
      | Some pc \<Rightarrow>
          (case add_slots ok pc sub pub (publisherSlotsLocked pub r) (case pair r sub pub of None \<Rightarrow> pt_empty | Some t \<Rightarrow> t) of
             (t, changed) \<Rightarrow> if pair r sub pub = None \<and> \<not> changed then None else Some t))"

lemma addPublisher_rest [simp]: "rest (fst (addPublisherLocked ok sub pub r)) = rest r"
  by (auto simp: addPublisherLocked_def rest_def Let_def split: option.splits prod.splits)

lemma addPublisher_pair:
  "pair (fst (addPublisherLocked ok sub pub r)) s p = (if s = sub \<and> p = pub then grown ok r sub pub else pair r s p)"
  by (auto simp: addPublisherLocked_def grown_def pair_def Let_def split: option.splits prod.splits if_splits)

lemma removePublisher_rest [simp]: "rest (fst (removePublisherLocked sub pub r)) = rest r"
  by (auto simp: removePublisherLocked_def rest_def split: option.splits)

lemma removePublisher_pair:
  "pair (fst (removePublisherLocked sub pub r)) s p = (if s = sub \<and> p = pub then None else pair r s p)"
proof (cases "fmlookup (rt_pubTracks r) sub")
  case None
  then show ?thesis by (auto simp: removePublisherLocked_def pair_def fm_inner_def)
next
  case (Some tracks)
  have inner: "fm_inner (rt_pubTracks r) sub = tracks" using Some by (simp add: fm_inner_def)
  have drop: "fmlookup tracks q = None" if "fmdrop pub tracks = fmempty" "q \<noteq> pub" for q
    using arg_cong [OF that(1), of "\<lambda>m. fmlookup m q"] that(2) by simp
  show ?thesis using Some inner drop [of p] by (auto simp: removePublisherLocked_def pair_def)
qed

text \<open>The loops over members, without the collected set.\<close>

lemma remove_pairs_fst:
  "fst (remove_pairs c xs r out) =
     fold (\<lambda>x r. if x = c then r else fst (removePublisherLocked x c (fst (removePublisherLocked c x r)))) xs r"
  by (induction xs arbitrary: r out) (simp_all add: case_prod_beta)

lemma add_pairs_fst:
  "fst (add_pairs ok c xs r out) =
     fold (\<lambda>x r. if x = c then r else fst (addPublisherLocked ok x c (fst (addPublisherLocked ok c x r)))) xs r"
  by (induction xs arbitrary: r out) (simp_all add: case_prod_beta)

lemma remove_pairs_rest [simp]: "rest (fst (remove_pairs c xs r out)) = rest r"
  unfolding remove_pairs_fst by (induction xs arbitrary: r) simp_all

lemma add_pairs_rest [simp]: "rest (fst (add_pairs ok c xs r out)) = rest r"
  unfolding add_pairs_fst by (induction xs arbitrary: r) simp_all

lemma remove_pairs_pair:
  "pair (fst (remove_pairs c xs r out)) s p =
     (if s \<noteq> p \<and> ((s = c \<and> p \<in> set xs) \<or> (p = c \<and> s \<in> set xs)) then None else pair r s p)"
  unfolding remove_pairs_fst by (induction xs arbitrary: r) (auto simp: removePublisher_pair)

lemma removePairs_rest [simp]: "rest (fst (removePairsLocked ch c r)) = rest r"
  by (simp add: removePairsLocked_def case_prod_beta)

lemma removePairs_pair:
  "pair (fst (removePairsLocked ch c r)) s p =
     (if (s = c \<and> (p = c \<or> p |\<in>| fmset_get (rt_members r) ch)) \<or> (p = c \<and> s |\<in>| fmset_get (rt_members r) ch)
      then None else pair r s p)"
  by (auto simp: removePairsLocked_def case_prod_beta removePublisher_pair remove_pairs_pair)

text \<open>Adding tracks: the value of a pair depends on the other fields and its own previous value only.\<close>

lemma grown_cong':
  assumes "rt_pubPeers a = rt_pubPeers b" "rt_trackSlots a = rt_trackSlots b" "pair a s p = pair b s p"
  shows "grown ok a s p = grown ok b s p"
  unfolding grown_def publisherSlotsLocked_def assms by (rule refl)

lemma grown_cong: "rest a = rest b \<Longrightarrow> pair a s p = pair b s p \<Longrightarrow> grown ok a s p = grown ok b s p"
  by (rule grown_cong') (auto dest: restD)

lemma add_pairs_pair:
  assumes "distinct xs"
  shows "pair (fst (add_pairs ok c xs r out)) s p =
     (if s \<noteq> p \<and> ((s = c \<and> p \<in> set xs) \<or> (p = c \<and> s \<in> set xs)) then grown ok r s p else pair r s p)"
  using assms unfolding add_pairs_fst
proof (induction xs arbitrary: r)
  case Nil
  then show ?case by simp
next
  case (Cons x xs)
  show ?case
  proof (cases "x = c")
    case True
    with Cons show ?thesis by auto
  next
    case False
    let ?r = "fst (addPublisherLocked ok x c (fst (addPublisherLocked ok c x r)))"
    have pr: "pair ?r a b = (if a \<noteq> b \<and> ((a = c \<and> b = x) \<or> (b = c \<and> a = x)) then grown ok r a b else pair r a b)" for a b
      using False by (auto simp: addPublisher_pair intro!: grown_cong)
    have g: "grown ok ?r a b = grown ok r a b" if "a \<noteq> x" "b \<noteq> x" for a b
      by (rule grown_cong) (use that in \<open>simp_all add: pr\<close>)
    from Cons.IH [of ?r] Cons.prems False show ?thesis by (auto simp: pr g)
  qed
qed

subsection \<open>Output tracks\<close>

text \<open>The slots of a kind hold tracks of that kind, labelled with the publisher and the slot, on the subscriber's peer.\<close>

definition slot_typed :: "media_kind \<Rightarrow> client_id \<Rightarrow> nat \<Rightarrow> (slot, pub_slot) fmap \<Rightarrow> bool" where
  "slot_typed k pub pc m \<longleftrightarrow>
     (\<forall>s ps. fmlookup m s = Some ps \<longrightarrow>
        slotKinds s = Some k \<and> ps = \<lparr>ps_track = slotTrackID pub s, ps_stream = slotStreamID pub s, ps_peer = pc\<rparr>)"

definition track_ok :: "client_id \<Rightarrow> nat \<Rightarrow> pub_track \<Rightarrow> bool" where
  "track_ok pub pc t \<longleftrightarrow> slot_typed KAudio pub pc (pt_audio t) \<and> slot_typed KVideo pub pc (pt_video t)"

definition has_slot :: "pub_track \<Rightarrow> slot \<Rightarrow> bool" where
  "has_slot t s = (case slotKinds s of None \<Rightarrow> False | Some k \<Rightarrow> fmlookup (pt_slots k t) s \<noteq> None)"

lemma pt_slots_simps [simp]:
  "pt_slots k (pt_set_slots k' m t) = (if k = k' then m else pt_slots k t)"
  by (cases k; cases k'; simp add: pt_slots_def pt_set_slots_def)

lemma track_ok_alt: "track_ok pub pc t \<longleftrightarrow> (\<forall>k. slot_typed k pub pc (pt_slots k t))"
  unfolding track_ok_def pt_slots_def by (metis media_kind.exhaust media_kind.simps(3,4))

lemma pt_empty_simps [simp]: "pt_slots k pt_empty = fmempty" "track_ok pub pc pt_empty" "\<not> has_slot pt_empty s"
  by (auto simp: pt_slots_def pt_empty_def track_ok_def slot_typed_def has_slot_def split: media_kind.splits option.splits)

lemma addSlot_props:
  assumes "addSlotLocked ok pc sub pub s t = (t', c)"
  shows "track_ok pub pc t \<Longrightarrow> track_ok pub pc t'" "has_slot t x \<Longrightarrow> has_slot t' x" "\<not> c \<Longrightarrow> t' = t"
    "ok sub pub s \<Longrightarrow> slotKinds s \<noteq> None \<Longrightarrow> has_slot t' s" "has_slot t' x \<Longrightarrow> has_slot t x \<or> x = s" "c \<Longrightarrow> \<not> has_slot t s \<and> has_slot t' s"
  using assms
  by (auto simp: addSlotLocked_def track_ok_alt slot_typed_def has_slot_def split: option.splits if_splits)

lemma removeSlot_props:
  assumes "removeSlotLocked s t = (t', c)"
  shows "track_ok pub pc t \<Longrightarrow> track_ok pub pc t'" "has_slot t' x \<longleftrightarrow> has_slot t x \<and> x \<noteq> s" "\<not> c \<Longrightarrow> t' = t"
  using assms
  by (auto simp: removeSlotLocked_def track_ok_alt slot_typed_def has_slot_def split: option.splits if_splits)

definition no_fail :: "add_ok \<Rightarrow> bool" where
  "no_fail ok \<longleftrightarrow> (\<forall>a b s. ok a b s)"

lemma add_slots_props:
  assumes "add_slots ok pc sub pub ss t = (t', c)"
  shows "track_ok pub pc t \<Longrightarrow> track_ok pub pc t'" "has_slot t x \<Longrightarrow> has_slot t' x" "\<not> c \<Longrightarrow> t' = t"
    "no_fail ok \<Longrightarrow> x \<in> set ss \<Longrightarrow> slotKinds x \<noteq> None \<Longrightarrow> has_slot t' x"
    "has_slot t' x \<Longrightarrow> has_slot t x \<or> x \<in> set ss"
proof -
  have "(track_ok pub pc t \<longrightarrow> track_ok pub pc t') \<and> (\<forall>x. has_slot t x \<longrightarrow> has_slot t' x) \<and> (\<not> c \<longrightarrow> t' = t) \<and>
      (no_fail ok \<longrightarrow> (\<forall>x \<in> set ss. slotKinds x \<noteq> None \<longrightarrow> has_slot t' x)) \<and>
      (\<forall>x. has_slot t' x \<longrightarrow> has_slot t x \<or> x \<in> set ss)"
    using assms
  proof (induction ss arbitrary: t t' c)
    case Nil
    then show ?case by simp
  next
    case (Cons s ss)
    obtain t1 c1 where a: "addSlotLocked ok pc sub pub s t = (t1, c1)" by fastforce
    obtain t2 c2 where b: "add_slots ok pc sub pub ss t1 = (t2, c2)" by fastforce
    have e: "t' = t2" "c = (c1 \<or> c2)" using Cons.prems a b by simp_all
    note A = addSlot_props [OF a] and B = Cons.IH [OF b]
    show ?case unfolding e
    proof (intro conjI)
      show "track_ok pub pc t \<longrightarrow> track_ok pub pc t2" using A(1) B by blast
      show "\<forall>x. has_slot t x \<longrightarrow> has_slot t2 x" using A(2) B by blast
      show "\<not> (c1 \<or> c2) \<longrightarrow> t2 = t" using A(3) B by blast
      show "no_fail ok \<longrightarrow> (\<forall>x\<in>set (s # ss). slotKinds x \<noteq> None \<longrightarrow> has_slot t2 x)" using A(4) B by (auto simp: no_fail_def)
      show "\<forall>x. has_slot t2 x \<longrightarrow> has_slot t x \<or> x \<in> set (s # ss)" using A(5) B by (metis list.set_intros)
    qed
  qed
  then show "track_ok pub pc t \<Longrightarrow> track_ok pub pc t'" "has_slot t x \<Longrightarrow> has_slot t' x" "\<not> c \<Longrightarrow> t' = t"
    "no_fail ok \<Longrightarrow> x \<in> set ss \<Longrightarrow> slotKinds x \<noteq> None \<Longrightarrow> has_slot t' x"
    "has_slot t' x \<Longrightarrow> has_slot t x \<or> x \<in> set ss" by blast+
qed

lemma remove_slots_props:
  assumes "remove_slots ss t = (t', c)"
  shows "track_ok pub pc t \<longrightarrow> track_ok pub pc t'" "has_slot t' x \<longleftrightarrow> has_slot t x \<and> x \<notin> set ss"
proof -
  have "(track_ok pub pc t \<longrightarrow> track_ok pub pc t') \<and> (\<forall>x. has_slot t' x \<longleftrightarrow> has_slot t x \<and> x \<notin> set ss)"
    using assms
  proof (induction ss arbitrary: t t' c)
    case Nil
    then show ?case by simp
  next
    case (Cons s ss)
    obtain t1 c1 where a: "removeSlotLocked s t = (t1, c1)" by fastforce
    obtain t2 c2 where b: "remove_slots ss t1 = (t2, c2)" by fastforce
    have e: "t' = t2" using Cons.prems a b by simp
    show ?case unfolding e using removeSlot_props [OF a] Cons.IH [OF b] by auto
  qed
  then show "track_ok pub pc t \<longrightarrow> track_ok pub pc t'" "has_slot t' x \<longleftrightarrow> has_slot t x \<and> x \<notin> set ss" by blast+
qed

lemma publisherSlots_known: "s \<in> set (publisherSlotsLocked p r) \<Longrightarrow> slotKinds s \<noteq> None"
  by (auto simp: publisherSlotsLocked_def slotKinds_def split: if_splits)

lemma publisherSlots_default: "SlotMic \<in> set (publisherSlotsLocked p r)" "SlotCam \<in> set (publisherSlotsLocked p r)"
  by (simp_all add: publisherSlotsLocked_def)

lemma grown_ok:
  assumes "\<And>t. pair r s p = Some t \<Longrightarrow> \<exists>pc. fmlookup (rt_pubPeers r) s = Some pc \<and> track_ok p pc t"
    and "grown ok r s p = Some t"
  shows "\<exists>pc. fmlookup (rt_pubPeers r) s = Some pc \<and> track_ok p pc t"
proof (cases "fmlookup (rt_pubPeers r) s")
  case None
  with assms show ?thesis by (simp add: grown_def)
next
  case (Some pc)
  let ?t0 = "case pair r s p of None \<Rightarrow> pt_empty | Some t \<Rightarrow> t"
  obtain t1 c where a: "add_slots ok pc s p (publisherSlotsLocked p r) ?t0 = (t1, c)" by fastforce
  have "track_ok p pc ?t0" using assms(1) Some by (cases "pair r s p") auto
  from add_slots_props(1) [OF a this] a assms(2) Some show ?thesis by (auto simp: grown_def split: if_splits)
qed

lemma grown_complete:
  assumes "no_fail ok" "fmlookup (rt_pubPeers r) s = Some pc"
  shows "\<exists>t. grown ok r s p = Some t \<and> (\<forall>x \<in> set (publisherSlotsLocked p r). has_slot t x)"
proof -
  let ?t0 = "case pair r s p of None \<Rightarrow> pt_empty | Some t \<Rightarrow> t"
  obtain t1 c where a: "add_slots ok pc s p (publisherSlotsLocked p r) ?t0 = (t1, c)" by fastforce
  have all: "has_slot t1 x" if "x \<in> set (publisherSlotsLocked p r)" for x
    using add_slots_props(4) [OF a assms(1) that publisherSlots_known [OF that]] .
  have "c" if "pair r s p = None"
  proof (rule ccontr)
    assume "\<not> c"
    with add_slots_props(3) [OF a] that have "t1 = pt_empty" by simp
    with all [OF publisherSlots_default(1)] show False by simp
  qed
  with a assms(2) all show ?thesis by (auto simp: grown_def)
qed

lemma grown_keeps: "pair r s p \<noteq> None \<Longrightarrow> grown ok r s p \<noteq> None"
  by (auto simp: grown_def split: option.splits prod.splits)

subsection \<open>The invariant\<close>

definition membership_ok :: "router \<Rightarrow> bool" where
  "membership_ok r \<longleftrightarrow>
     fmset_ok (rt_members r) \<and> (\<forall>c ch. c |\<in>| fmset_get (rt_members r) ch \<longleftrightarrow> fmlookup (rt_clientChan r) c = Some ch)"

definition pairs_ok :: "router \<Rightarrow> bool" where
  "pairs_ok r \<longleftrightarrow> (\<forall>s p t. pair r s p = Some t \<longrightarrow> (\<exists>pc. fmlookup (rt_pubPeers r) s = Some pc \<and> track_ok p pc t))"

text \<open>Every pair is there for a reason: a shared channel, a whisper, or the echo channel.\<close>

definition justified :: "router \<Rightarrow> bool" where
  "justified r \<longleftrightarrow>
     (\<forall>s p. pair r s p \<noteq> None \<longrightarrow> same_channel s p r \<or> (s \<noteq> p \<and> s |\<in>| fmset_get (rt_whisperPairs r) p))"

definition claims_ok :: "router \<Rightarrow> bool" where
  "claims_ok r \<longleftrightarrow>
     (\<forall>c k t. fmlookup (fm_inner (rt_slotClaims r) c) k = Some t \<longrightarrow>
        0 < t \<and> t \<le> rt_slotEpoch r \<and> (\<forall>c' k'. fmlookup (fm_inner (rt_slotClaims r) c') k' = Some t \<longrightarrow> c' = c \<and> k' = k))"

definition rt_inv :: "router \<Rightarrow> bool" where
  "rt_inv r \<longleftrightarrow> membership_ok r \<and> pairs_ok r \<and> justified r \<and> claims_ok r"

lemma membershipD: "membership_ok r \<Longrightarrow> c |\<in>| fmset_get (rt_members r) ch \<longleftrightarrow> fmlookup (rt_clientChan r) c = Some ch"
  by (simp add: membership_ok_def)

lemma pair_peer: "rt_inv r \<Longrightarrow> pair r s p = Some t \<Longrightarrow> \<exists>pc. fmlookup (rt_pubPeers r) s = Some pc \<and> track_ok p pc t"
  unfolding rt_inv_def pairs_ok_def by blast

lemma same_channelI: "fmlookup (rt_clientChan r) a = Some ch \<Longrightarrow> fmlookup (rt_clientChan r) b = Some ch \<Longrightarrow> same_channel a b r"
  by (simp add: same_channel_def)

lemma same_channel_alt: "same_channel a b r \<longleftrightarrow> (\<exists>ch. fmlookup (rt_clientChan r) a = Some ch \<and> fmlookup (rt_clientChan r) b = Some ch)"
  by (auto simp: same_channel_def)

lemma rest_same_channel: "rest a = rest b \<Longrightarrow> same_channel x y a = same_channel x y b"
  unfolding same_channel_def by (drule restD(2)) simp

lemma rest_membership: "rest a = rest b \<Longrightarrow> membership_ok a = membership_ok b"
  unfolding membership_ok_def by (frule restD(1), drule restD(2)) simp

lemma rest_claims: "rest a = rest b \<Longrightarrow> claims_ok a = claims_ok b"
  unfolding claims_ok_def by (frule restD(8), drule restD(9)) simp

text \<open>Removing pairs keeps the invariant; adding pairs does where each added pair is justified.\<close>

lemma inv_remove:
  assumes "rt_inv r" "rest r' = rest r" "\<And>s p. pair r' s p = pair r s p \<or> pair r' s p = None"
  shows "rt_inv r'"
proof -
  have p: "pair r' s p = Some t \<Longrightarrow> pair r s p = Some t" for s p t using assms(3) [of s p] by auto
  have "pairs_ok r'" using assms(1) p unfolding rt_inv_def pairs_ok_def restD(3) [OF assms(2)] by blast
  moreover have "justified r'"
    using assms(1) p unfolding rt_inv_def justified_def restD(6) [OF assms(2)] rest_same_channel [OF assms(2)]
    by (metis not_Some_eq)
  ultimately show ?thesis using assms(1) rest_membership [OF assms(2)] rest_claims [OF assms(2)] by (simp add: rt_inv_def)
qed

lemma inv_grow:
  assumes "rt_inv r" "rest r' = rest r"
    and "\<And>s p. pair r' s p = pair r s p \<or> (pair r' s p = grown ok r s p \<and> (same_channel s p r \<or> (s \<noteq> p \<and> s |\<in>| fmset_get (rt_whisperPairs r) p)))"
  shows "rt_inv r'"
proof -
  have "\<exists>pc. fmlookup (rt_pubPeers r) s = Some pc \<and> track_ok p pc t" if "pair r' s p = Some t" for s p t
  proof (cases "pair r' s p = pair r s p")
    case True
    with that assms(1) show ?thesis by (auto simp: rt_inv_def pairs_ok_def)
  next
    case False
    with assms(3) [of s p] that have "grown ok r s p = Some t" by auto
    moreover have "\<exists>pc. fmlookup (rt_pubPeers r) s = Some pc \<and> track_ok p pc t" if "pair r s p = Some t" for t
      using assms(1) that by (auto simp: rt_inv_def pairs_ok_def)
    ultimately show ?thesis by (metis grown_ok)
  qed
  then have "pairs_ok r'" unfolding pairs_ok_def restD(3) [OF assms(2)] by blast
  moreover have "justified r'"
    using assms(1,3) unfolding rt_inv_def justified_def restD(6) [OF assms(2)] rest_same_channel [OF assms(2)]
    by metis
  ultimately show ?thesis using assms(1) rest_membership [OF assms(2)] rest_claims [OF assms(2)] by (simp add: rt_inv_def)
qed

lemma removePublisher_inv: "rt_inv r \<Longrightarrow> rt_inv (fst (removePublisherLocked s p r))"
  by (erule inv_remove) (auto simp: removePublisher_pair)

subsubsection \<open>Leaving\<close>

lemma leaveChannel_members:
  assumes "membership_ok r"
  shows "membership_ok (leaveChannelLocked ch c r)"
    "fmset_get (rt_members (leaveChannelLocked ch c r)) ch = fmset_get (rt_members r) ch |-| {|c|}"
    "fmlookup (rt_clientChan (leaveChannelLocked ch c r)) x = (if x = c \<and> fmlookup (rt_clientChan r) c = Some ch then None else fmlookup (rt_clientChan r) x)"
  using assms by (auto simp: leaveChannelLocked_def membership_ok_def)

lemma leaveChannel_frame [simp]:
  "pair (leaveChannelLocked ch c r) s p = pair r s p" "rt_pubPeers (leaveChannelLocked ch c r) = rt_pubPeers r"
  "rt_whisperPairs (leaveChannelLocked ch c r) = rt_whisperPairs r" "rt_trackSlots (leaveChannelLocked ch c r) = rt_trackSlots r"
  "claims_ok (leaveChannelLocked ch c r) = claims_ok r" "rt_echoChannel (leaveChannelLocked ch c r) = rt_echoChannel r"
  by (simp_all add: leaveChannelLocked_def pair_def claims_ok_def)

lemma leave_locked_pair:
  assumes "membership_ok r"
  shows "pair (fst (leave_locked ch c r)) s p =
    (if (s = c \<and> (p = c \<or> fmlookup (rt_clientChan r) p = Some ch)) \<or> (p = c \<and> fmlookup (rt_clientChan r) s = Some ch)
     then None else pair r s p)"
  using membershipD [OF assms] by (auto simp: leave_locked_def removePairs_pair leaveChannel_members [OF assms])

lemma leave_locked_rest: "rest (fst (leave_locked ch c r)) = rest (leaveChannelLocked ch c r)"
  by (simp add: leave_locked_def)

lemma leave_locked_fields:
  assumes "membership_ok r"
  shows "fmlookup (rt_clientChan (fst (leave_locked ch c r))) x =
      (if x = c \<and> fmlookup (rt_clientChan r) c = Some ch then None else fmlookup (rt_clientChan r) x)"
    "rt_pubPeers (fst (leave_locked ch c r)) = rt_pubPeers r" "rt_whisperPairs (fst (leave_locked ch c r)) = rt_whisperPairs r"
    "rt_trackSlots (fst (leave_locked ch c r)) = rt_trackSlots r" "rt_echoChannel (fst (leave_locked ch c r)) = rt_echoChannel r"
    "membership_ok (fst (leave_locked ch c r))"
  using leaveChannel_members [OF assms, of ch c] rest_membership [OF leave_locked_rest, of ch c r]
  by (simp_all add: restD [OF leave_locked_rest])

lemma leave_locked_inv:
  assumes inv: "rt_inv r"
  shows "rt_inv (fst (leave_locked ch c r))"
proof -
  let ?l = "leaveChannelLocked ch c r" and ?r = "fst (leave_locked ch c r)"
  have mem: "membership_ok r" and J: "justified r" and P: "pairs_ok r" and C: "claims_ok r" using inv by (simp_all add: rt_inv_def)
  note rs = leave_locked_rest [of ch c r] and lm = leaveChannel_members [OF mem, of ch c]
  have "membership_ok ?r" using rest_membership [OF rs] lm(1) by simp
  moreover have "claims_ok ?r" using rest_claims [OF rs] C by simp
  moreover have "pairs_ok ?r"
    using P unfolding pairs_ok_def restD(3) [OF rs] leaveChannel_frame leave_locked_pair [OF mem] by (auto split: if_splits)
  moreover have "justified ?r" unfolding justified_def
  proof (intro allI impI)
    fix s p assume "pair ?r s p \<noteq> None"
    then have e: "pair r s p \<noteq> None" and nc: "\<not> ((s = c \<and> (p = c \<or> fmlookup (rt_clientChan r) p = Some ch)) \<or> (p = c \<and> fmlookup (rt_clientChan r) s = Some ch))"
      by (auto simp: leave_locked_pair [OF mem] split: if_splits)
    have "same_channel s p r \<or> (s \<noteq> p \<and> s |\<in>| fmset_get (rt_whisperPairs r) p)" using J e by (auto simp: justified_def)
    then show "same_channel s p ?r \<or> (s \<noteq> p \<and> s |\<in>| fmset_get (rt_whisperPairs ?r) p)"
      using nc by (auto simp: same_channel_def leave_locked_fields [OF mem])
  qed
  ultimately show ?thesis by (simp add: rt_inv_def)
qed

subsubsection \<open>Joining\<close>

text \<open>The state between the departure from the previous channel and the creation of tracks.\<close>

definition joined :: "channel_id \<Rightarrow> client_id \<Rightarrow> router \<Rightarrow> router" where
  "joined ch c r =
     (let r1 = (case fmlookup (rt_clientChan r) c of
                  Some prev \<Rightarrow> if prev \<noteq> ch then fst (leave_locked prev c r) else r
                | None \<Rightarrow> r)
      in r1\<lparr>rt_members := fmset_add ch c (rt_members r1), rt_clientChan := fmupd c ch (rt_clientChan r1)\<rparr>)"

lemma join_locked_alt:
  "fst (join_locked ok ch c r) =
     fst (echo_pair ok ch c (fst (add_pairs ok c (sorted_list_of_fset (fmset_get (rt_members (joined ch c r)) ch)) (joined ch c r) {||})))"
proof -
  have "(case fmlookup (rt_clientChan r) c of
      Some prev \<Rightarrow> if prev \<noteq> ch then fst (removePairsLocked prev c (leaveChannelLocked prev c r)) else r | None \<Rightarrow> r) =
    (case fmlookup (rt_clientChan r) c of Some prev \<Rightarrow> if prev \<noteq> ch then fst (leave_locked prev c r) else r | None \<Rightarrow> r)"
    unfolding leave_locked_def by (rule refl)
  then show ?thesis unfolding join_locked_def joined_def Let_def by (simp add: case_prod_beta)
qed

lemma membership_enter:
  assumes "membership_ok r" "fmlookup (rt_clientChan r) c = None \<or> fmlookup (rt_clientChan r) c = Some ch"
  shows "membership_ok (r\<lparr>rt_members := fmset_add ch c (rt_members r), rt_clientChan := fmupd c ch (rt_clientChan r)\<rparr>)"
  using assms by (auto simp: membership_ok_def)

lemma joined_props:
  assumes inv: "rt_inv r"
  shows "rt_inv (joined ch c r)" "fmlookup (rt_clientChan (joined ch c r)) x = (if x = c then Some ch else fmlookup (rt_clientChan r) x)"
    "rt_pubPeers (joined ch c r) = rt_pubPeers r" "rt_whisperPairs (joined ch c r) = rt_whisperPairs r"
    "rt_trackSlots (joined ch c r) = rt_trackSlots r" "rt_echoChannel (joined ch c r) = rt_echoChannel r"
    "pair (joined ch c r) s p = pair r s p \<or> (pair (joined ch c r) s p = None \<and> (s = c \<or> p = c))"
proof -
  define r1 where "r1 = (case fmlookup (rt_clientChan r) c of Some prev \<Rightarrow> if prev \<noteq> ch then fst (leave_locked prev c r) else r | None \<Rightarrow> r)"
  have mem: "membership_ok r" using inv by (simp add: rt_inv_def)
  have r1: "rt_inv r1" "fmlookup (rt_clientChan r1) c = None \<or> fmlookup (rt_clientChan r1) c = Some ch"
    "x \<noteq> c \<Longrightarrow> fmlookup (rt_clientChan r1) x = fmlookup (rt_clientChan r) x"
    "rt_pubPeers r1 = rt_pubPeers r" "rt_whisperPairs r1 = rt_whisperPairs r" "rt_trackSlots r1 = rt_trackSlots r" "rt_echoChannel r1 = rt_echoChannel r"
    "pair r1 s p = pair r s p \<or> (pair r1 s p = None \<and> (s = c \<or> p = c))" for x
    using inv leave_locked_inv [OF inv] leave_locked_fields [OF mem] leave_locked_pair [OF mem]
    by (auto simp: r1_def split: option.splits)
  have j: "joined ch c r = r1\<lparr>rt_members := fmset_add ch c (rt_members r1), rt_clientChan := fmupd c ch (rt_clientChan r1)\<rparr>"
    by (simp add: joined_def r1_def Let_def)
  have pj: "pair (joined ch c r) a b = pair r1 a b" for a b by (simp add: j pair_def)
  have "membership_ok (joined ch c r)" unfolding j using r1(1,2) by (intro membership_enter) (simp_all add: rt_inv_def)
  moreover have "pairs_ok (joined ch c r)" using r1(1) unfolding pairs_ok_def pj by (simp add: j rt_inv_def pairs_ok_def)
  moreover have "claims_ok (joined ch c r)" using r1(1) by (simp add: j rt_inv_def claims_ok_def)
  moreover have "justified (joined ch c r)" unfolding justified_def
  proof (intro allI impI)
    fix a b assume "pair (joined ch c r) a b \<noteq> None"
    then have "same_channel a b r1 \<or> (a \<noteq> b \<and> a |\<in>| fmset_get (rt_whisperPairs r1) b)" using r1(1) by (auto simp: pj rt_inv_def justified_def)
    then show "same_channel a b (joined ch c r) \<or> (a \<noteq> b \<and> a |\<in>| fmset_get (rt_whisperPairs (joined ch c r)) b)"
      using r1(2) by (auto simp: j same_channel_def)
  qed
  ultimately show "rt_inv (joined ch c r)" by (simp add: rt_inv_def)
  show "fmlookup (rt_clientChan (joined ch c r)) x = (if x = c then Some ch else fmlookup (rt_clientChan r) x)"
    using r1(3) by (simp add: j)
  show "rt_pubPeers (joined ch c r) = rt_pubPeers r" "rt_whisperPairs (joined ch c r) = rt_whisperPairs r"
    "rt_trackSlots (joined ch c r) = rt_trackSlots r" "rt_echoChannel (joined ch c r) = rt_echoChannel r" using r1 by (simp_all add: j)
  show "pair (joined ch c r) s p = pair r s p \<or> (pair (joined ch c r) s p = None \<and> (s = c \<or> p = c))" unfolding pj by (rule r1(8))
qed

lemma echo_pair_rest [simp]: "rest (fst (echo_pair ok ch c r)) = rest r"
  by (simp add: echo_pair_def)

lemma echo_pair_pair:
  "pair (fst (echo_pair ok ch c r)) s p =
     (if s = c \<and> p = c \<and> ch = rt_echoChannel r \<and> rt_echoChannel r \<noteq> 0 then grown ok r c c else pair r s p)"
  by (auto simp: echo_pair_def addPublisher_pair)

text \<open>Creating the tracks between a client and the members of its channel, and the echo pair.\<close>

definition connect :: "add_ok \<Rightarrow> channel_id \<Rightarrow> client_id \<Rightarrow> router \<Rightarrow> router" where
  "connect ok ch c r = fst (echo_pair ok ch c (fst (add_pairs ok c (sorted_list_of_fset (fmset_get (rt_members r) ch)) r {||})))"

lemma connect_rest [simp]: "rest (connect ok ch c r) = rest r"
  by (simp add: connect_def)

lemma connect_pair:
  "pair (connect ok ch c r) s p =
     (if (s \<noteq> p \<and> ((s = c \<and> p |\<in>| fmset_get (rt_members r) ch) \<or> (p = c \<and> s |\<in>| fmset_get (rt_members r) ch))) \<or>
         (s = c \<and> p = c \<and> ch = rt_echoChannel r \<and> rt_echoChannel r \<noteq> 0)
      then grown ok r s p else pair r s p)"
proof -
  let ?r = "fst (add_pairs ok c (sorted_list_of_fset (fmset_get (rt_members r) ch)) r {||})"
  have ap: "pair ?r a b = (if a \<noteq> b \<and> ((a = c \<and> b |\<in>| fmset_get (rt_members r) ch) \<or> (b = c \<and> a |\<in>| fmset_get (rt_members r) ch))
      then grown ok r a b else pair r a b)" for a b
    by (subst add_pairs_pair) (simp_all add: sorted_list_of_fset.rep_eq)
  have e: "rt_echoChannel ?r = rt_echoChannel r" by (rule restD) simp
  have "grown ok ?r c c = grown ok r c c" by (rule grown_cong) (simp_all add: ap)
  then show ?thesis unfolding connect_def echo_pair_pair e ap by auto
qed

lemma connect_inv:
  assumes "rt_inv r" "fmlookup (rt_clientChan r) c = Some ch"
  shows "rt_inv (connect ok ch c r)"
proof (rule inv_grow [OF assms(1), of _ ok])
  have mem: "membership_ok r" using assms(1) by (simp add: rt_inv_def)
  fix s p
  show "pair (connect ok ch c r) s p = pair r s p \<or>
      pair (connect ok ch c r) s p = grown ok r s p \<and> (same_channel s p r \<or> s \<noteq> p \<and> s |\<in>| fmset_get (rt_whisperPairs r) p)"
    using assms(2) membershipD [OF mem] by (auto simp: connect_pair intro: same_channelI)
qed simp

lemma join_locked_connect: "fst (join_locked ok ch c r) = connect ok ch c (joined ch c r)"
  by (simp add: join_locked_alt connect_def)

lemma join_locked_inv: "rt_inv r \<Longrightarrow> rt_inv (fst (join_locked ok ch c r))"
  unfolding join_locked_connect by (intro connect_inv joined_props(1)) (simp_all add: joined_props(2))

subsubsection \<open>Detaching\<close>

lemma fmset_get_notin: "k |\<notin>| fmdom m \<Longrightarrow> fmset_get m k = {||}"
  by (simp add: fmset_get_def fmdom_notD)

lemma detach_locked_props:
  assumes "detach_locked c leave r = (r1, ren)"
  shows "pair r1 s p = (if s = c then None else pair r s p)" "s |\<in>| ren \<longleftrightarrow> s \<noteq> c \<and> pair r s c \<noteq> None"
    "rt_members r1 = rt_members r" "rt_clientChan r1 = rt_clientChan r" "rt_pubPeers r1 = fmdrop c (rt_pubPeers r)"
    "fmset_get (rt_whisperPairs r1) p = (if p = c then {||} else fmset_get (rt_whisperPairs r) p |-| {|c|})"
    "rt_slotClaims r1 = fmdrop c (rt_slotClaims r)" "rt_slotEpoch r1 = rt_slotEpoch r" "rt_echoChannel r1 = rt_echoChannel r"
    "p \<noteq> c \<Longrightarrow> fm_inner (rt_trackSlots r1) p = fm_inner (rt_trackSlots r) p"
proof -
  note d = assms [unfolded detach_locked_def Let_def prod.inject, THEN conjunct1, symmetric]
    and e = assms [unfolded detach_locked_def Let_def prod.inject, THEN conjunct2, symmetric]
  show pr: "pair r1 s p = (if s = c then None else pair r s p)" for s p by (simp add: d pair_def)
  have dom: "s |\<in>| fmdom (rt_pubTracks x)" if "fmlookup (fm_inner (rt_pubTracks x) s) q = Some t" for x s q t
    using that by (cases "fmlookup (rt_pubTracks x) s") (auto simp: fm_inner_def fmlookup_dom_iff)
  have "s |\<in>| ren \<longleftrightarrow> pair r1 s c \<noteq> None"
    unfolding e d [symmetric] subscribers_of_def pair_def using dom [of r1 s c] by auto
  then show "s |\<in>| ren \<longleftrightarrow> s \<noteq> c \<and> pair r s c \<noteq> None" by (simp add: pr)
  show "fmset_get (rt_whisperPairs r1) p = (if p = c then {||} else fmset_get (rt_whisperPairs r) p |-| {|c|})"
    by (auto simp: d fmset_get_del_keys fmset_get_notin)
qed (use assms in \<open>auto simp: detach_locked_def Let_def\<close>)

lemma fold_remove_rest: "rest (fold (\<lambda>sub x. fst (removePublisherLocked sub c x)) subs r) = rest r"
  by (induction subs arbitrary: r) simp_all

lemma fold_remove_pair:
  "pair (fold (\<lambda>sub x. fst (removePublisherLocked sub c x)) subs r) s p = (if p = c \<and> s \<in> set subs then None else pair r s p)"
  by (induction subs arbitrary: r) (auto simp: removePublisher_pair)

text \<open>The router after the peer and its tracks are gone, before a departure from the channel.\<close>

definition detached :: "client_id \<Rightarrow> bool \<Rightarrow> router \<Rightarrow> router" where
  "detached c leave r =
     (let (r1, ren) = detach_locked c leave r
      in fold (\<lambda>sub x. fst (removePublisherLocked sub c x)) (sorted_list_of_fset ren) r1)"

lemma detached_props:
  "pair (detached c leave r) s p = (if s = c \<or> p = c then None else pair r s p)"
  "rt_members (detached c leave r) = rt_members r" "rt_clientChan (detached c leave r) = rt_clientChan r"
  "rt_pubPeers (detached c leave r) = fmdrop c (rt_pubPeers r)"
  "fmset_get (rt_whisperPairs (detached c leave r)) p = (if p = c then {||} else fmset_get (rt_whisperPairs r) p |-| {|c|})"
  "rt_slotClaims (detached c leave r) = fmdrop c (rt_slotClaims r)" "rt_slotEpoch (detached c leave r) = rt_slotEpoch r"
  "rt_echoChannel (detached c leave r) = rt_echoChannel r"
  "p \<noteq> c \<Longrightarrow> fm_inner (rt_trackSlots (detached c leave r)) p = fm_inner (rt_trackSlots r) p"
proof -
  obtain r1 ren where dl: "detach_locked c leave r = (r1, ren)" by fastforce
  note d = detach_locked_props [OF dl]
  have e: "detached c leave r = fold (\<lambda>sub x. fst (removePublisherLocked sub c x)) (sorted_list_of_fset ren) r1"
    by (simp add: detached_def dl)
  have rs: "rest (detached c leave r) = rest r1" unfolding e by (rule fold_remove_rest)
  show "pair (detached c leave r) s p = (if s = c \<or> p = c then None else pair r s p)"
    unfolding e fold_remove_pair using d(1,2) by auto
  show "fmset_get (rt_whisperPairs (detached c leave r)) p = (if p = c then {||} else fmset_get (rt_whisperPairs r) p |-| {|c|})"
    unfolding restD(6) [OF rs] by (rule d(6))
  show "p \<noteq> c \<Longrightarrow> fm_inner (rt_trackSlots (detached c leave r)) p = fm_inner (rt_trackSlots r) p"
    unfolding restD(7) [OF rs] by (rule d(10))
qed (use detach_locked_props in \<open>auto simp: detached_def case_prod_beta restD [OF fold_remove_rest] intro: detach_locked_props [OF surjective_pairing]\<close>)

lemma detached_inv:
  assumes "rt_inv r"
  shows "rt_inv (detached c leave r)"
proof -
  let ?d = "detached c leave r"
  note d = detached_props [where c = c and leave = leave and r = r]
  have "membership_ok ?d" using assms by (simp add: rt_inv_def membership_ok_def d)
  moreover have "pairs_ok ?d" using assms by (auto simp: rt_inv_def pairs_ok_def d)
  moreover have "justified ?d" using assms by (auto simp: rt_inv_def justified_def d same_channel_def)
  moreover have "claims_ok ?d" using assms by (auto simp: rt_inv_def claims_ok_def d)
  ultimately show ?thesis by (simp add: rt_inv_def)
qed

lemma detachPeer_fst:
  "fst (detachPeer c leave r) =
     (case fmlookup (rt_clientChan r) c of
        Some ch \<Rightarrow> if leave then fst (leave_locked ch c (detached c leave r)) else detached c leave r
      | None \<Rightarrow> detached c leave r)"
  by (auto simp: detachPeer_def detached_def case_prod_beta Let_def rt_LeaveChannel_def split: option.splits)

lemma detachPeer_inv: "rt_inv r \<Longrightarrow> rt_inv (fst (detachPeer c leave r))"
  by (auto simp: detachPeer_fst detached_inv leave_locked_inv split: option.splits)

subsubsection \<open>Whispers\<close>

lemma addPublisher_False:
  assumes "addPublisherLocked ok sub pub r = (r1, False)"
  shows "rest r1 = rest r" "pair r1 s p = pair r s p"
proof -
  show "rest r1 = rest r" using addPublisher_rest [of ok sub pub r] assms by simp
  have "grown ok r sub pub = pair r sub pub"
  proof (cases "fmlookup (rt_pubPeers r) sub")
    case None
    then show ?thesis by (simp add: grown_def)
  next
    case (Some pc)
    let ?t0 = "case pair r sub pub of None \<Rightarrow> pt_empty | Some t \<Rightarrow> t"
    obtain t ch where a: "add_slots ok pc sub pub (publisherSlotsLocked pub r) ?t0 = (t, ch)" by fastforce
    have "\<not> ch" using assms Some a by (auto simp: addPublisherLocked_def pair_def Let_def split: if_splits)
    with add_slots_props(3) [OF a] a Some show ?thesis by (cases "pair r sub pub") (simp_all add: grown_def)
  qed
  with assms show "pair r1 s p = pair r s p" using addPublisher_pair [of ok sub pub r s p] by auto
qed

lemma inv_wp_grow:
  assumes "rt_inv r" "\<And>p. fmset_get (rt_whisperPairs r) p |\<subseteq>| fmset_get wp p"
  shows "rt_inv (r\<lparr>rt_whisperPairs := wp\<rparr>)"
proof -
  have "justified (r\<lparr>rt_whisperPairs := wp\<rparr>)"
    using assms by (fastforce simp: rt_inv_def justified_def pair_def same_channel_def)
  with assms(1) show ?thesis by (simp add: rt_inv_def membership_ok_def pairs_ok_def pair_def claims_ok_def)
qed

lemma whisper_add_step:
  assumes inv: "rt_inv r" and ap: "addPublisherLocked ok sub c r = (r1, b)" and ne: "sub \<noteq> c"
  shows "rt_inv (if b then r1\<lparr>rt_whisperPairs := fmset_add c sub (rt_whisperPairs r1)\<rparr> else r1)"
proof (cases b)
  case False
  with ap have "addPublisherLocked ok sub c r = (r1, False)" by simp
  note f = addPublisher_False [OF this]
  have "rt_inv r1" by (rule inv_remove [OF inv f(1)]) (simp add: f(2))
  with False show ?thesis by simp
next
  case True
  let ?w = "fmset_add c sub (rt_whisperPairs r)" and ?f = "\<lambda>x. x\<lparr>rt_whisperPairs := fmset_add c sub (rt_whisperPairs r)\<rparr>"
  have rs: "rest r1 = rest r" using addPublisher_rest [of ok sub c r] ap by simp
  have r1: "r1 = r\<lparr>rt_pubTracks := rt_pubTracks r1\<rparr>" using rs by (cases r; cases r1) (simp add: rest_def)
  have ri: "rt_inv (?f r)" by (rule inv_wp_grow [OF inv]) auto
  have pf: "pair (?f x) s p = pair x s p" for x s p by (simp add: pair_def)
  have gf: "grown ok (?f r) s p = grown ok r s p" for s p by (rule grown_cong') (simp_all add: pf)
  have "rt_inv (?f r1)"
  proof (rule inv_grow [OF ri, of _ ok])
    show "rest (?f r1) = rest (?f r)" by (subst r1) (simp add: rest_def)
    fix s p
    show "pair (?f r1) s p = pair (?f r) s p \<or> pair (?f r1) s p = grown ok (?f r) s p \<and>
        (same_channel s p (?f r) \<or> s \<noteq> p \<and> s |\<in>| fmset_get (rt_whisperPairs (?f r)) p)"
      using addPublisher_pair [of ok sub c r s p] ap ne unfolding pf gf by auto
  qed
  moreover have "rt_whisperPairs r1 = rt_whisperPairs r" by (rule restD(6) [OF rs])
  ultimately show ?thesis using True by simp
qed

text \<open>The fields no whisper operation touches.\<close>

definition base_eq :: "router \<Rightarrow> router \<Rightarrow> bool" where
  "base_eq a b \<longleftrightarrow> rt_members a = rt_members b \<and> rt_clientChan a = rt_clientChan b \<and> rt_pubPeers a = rt_pubPeers b \<and>
     rt_trackSlots a = rt_trackSlots b \<and> rt_echoChannel a = rt_echoChannel b"

lemma base_eq_rest: "rest a = rest b \<Longrightarrow> base_eq a b"
  unfolding base_eq_def by (auto dest: restD)

lemma base_eq_trans: "base_eq a b \<Longrightarrow> base_eq b c \<Longrightarrow> base_eq a c"
  by (simp add: base_eq_def)

lemma whisper_add_inv:
  assumes "rt_inv r" "c \<notin> set subs"
  shows "rt_inv (fst (whisper_add ok c subs r ren)) \<and> base_eq (fst (whisper_add ok c subs r ren)) r \<and>
    (\<forall>s p. pair r s p \<noteq> None \<longrightarrow> pair (fst (whisper_add ok c subs r ren)) s p \<noteq> None)"
  using assms
proof (induction subs arbitrary: r ren)
  case Nil
  then show ?case by (simp add: base_eq_def)
next
  case (Cons sub subs)
  obtain r1 b where ap: "addPublisherLocked ok sub c r = (r1, b)" by fastforce
  let ?r = "if b then r1\<lparr>rt_whisperPairs := fmset_add c sub (rt_whisperPairs r1)\<rparr> else r1"
  have ri: "rt_inv ?r" by (rule whisper_add_step [OF Cons.prems(1) ap]) (use Cons.prems(2) in auto)
  have "base_eq r1 r" using addPublisher_rest [of ok sub c r] ap by (intro base_eq_rest) simp
  then have be: "base_eq ?r r" by (simp add: base_eq_def)
  have keep: "pair r s p \<noteq> None \<Longrightarrow> pair ?r s p \<noteq> None" for s p
    using addPublisher_pair [of ok sub c r s p] ap grown_keeps [of r sub c ok] by (auto simp: pair_def split: if_splits)
  show ?case using Cons.IH [OF ri, of "if b then finsert sub ren else ren"] Cons.prems(2) ap keep base_eq_trans [OF _ be]
    by (cases b) auto
qed

lemma whisper_remove_step:
  assumes inv: "rt_inv r" and r1: "r1 = r\<lparr>rt_whisperPairs := fmset_del c sub (rt_whisperPairs r)\<rparr>"
  shows "rt_inv (if same_channel sub c r1 then r1 else fst (removePublisherLocked sub c r1))"
proof -
  let ?r = "if same_channel sub c r1 then r1 else fst (removePublisherLocked sub c r1)"
  have rs: "rest ?r = rest r1" by simp
  have pr1: "pair r1 s p = pair r s p" for s p by (simp add: r1 pair_def)
  have pr: "pair ?r s p = (if \<not> same_channel sub c r1 \<and> s = sub \<and> p = c then None else pair r s p)" for s p
    using pr1 by (auto simp: removePublisher_pair)
  have sc: "same_channel s p ?r = same_channel s p r" for s p
    using rest_same_channel [OF rs, of s p] by (simp add: r1 same_channel_def)
  have wp: "rt_whisperPairs ?r = fmset_del c sub (rt_whisperPairs r)" using restD(6) [OF rs] by (simp add: r1)
  have "justified ?r" unfolding justified_def sc wp pr using inv
    by (auto simp: rt_inv_def justified_def r1 same_channel_def)
  moreover have "pairs_ok ?r" unfolding pairs_ok_def restD(3) [OF rs] pr using inv by (auto simp: rt_inv_def pairs_ok_def r1)
  moreover have "membership_ok ?r" using rest_membership [OF rs] inv by (simp add: r1 rt_inv_def membership_ok_def)
  moreover have "claims_ok ?r" using rest_claims [OF rs] inv by (simp add: r1 rt_inv_def claims_ok_def)
  ultimately show ?thesis by (simp only: rt_inv_def)
qed

lemma whisper_remove_inv:
  assumes "rt_inv r"
  shows "rt_inv (fst (whisper_remove c keep subs r ren)) \<and> base_eq (fst (whisper_remove c keep subs r ren)) r \<and>
    (\<forall>s p. pair (fst (whisper_remove c keep subs r ren)) s p = pair r s p \<or> \<not> same_channel s p r)"
  using assms
proof (induction subs arbitrary: r ren)
  case Nil
  then show ?case by (simp add: base_eq_def)
next
  case (Cons sub subs)
  show ?case
  proof (cases "sub |\<in>| keep \<or> sub |\<notin>| fmset_get (rt_whisperPairs r) c")
    case True
    with Cons show ?thesis by simp
  next
    case False
    define r1 where "r1 = r\<lparr>rt_whisperPairs := fmset_del c sub (rt_whisperPairs r)\<rparr>"
    let ?r = "if same_channel sub c r1 then r1 else fst (removePublisherLocked sub c r1)"
    have ri: "rt_inv ?r" by (rule whisper_remove_step [OF Cons.prems r1_def])
    have rs: "rest ?r = rest r1" by simp
    have be: "base_eq ?r r" by (rule base_eq_trans [OF base_eq_rest [OF rs]]) (simp add: r1_def base_eq_def)
    have sc: "same_channel s p ?r = same_channel s p r" for s p using be by (simp only: base_eq_def same_channel_def)
    have pr1: "pair r1 s p = pair r s p" "same_channel s p r1 = same_channel s p r" for s p
      by (simp_all add: r1_def pair_def same_channel_def)
    have pr: "pair ?r s p = pair r s p \<or> \<not> same_channel s p r" for s p
      using pr1 by (auto simp: removePublisher_pair)
    have e: "\<exists>ren'. whisper_remove c keep (sub # subs) r ren = whisper_remove c keep subs ?r ren'"
      using False by (simp add: Let_def r1_def [symmetric] case_prod_beta) blast
    then show ?thesis using Cons.IH [OF ri] base_eq_trans [OF _ be] pr sc by metis
  qed
qed

lemma SetWhisper_cases:
  obtains r1 ren r2 where "rt_inv r \<Longrightarrow> rt_inv r1" "base_eq r1 r" "\<And>s p. pair r1 s p = pair r s p"
    "fst (SetWhisper ok c clients channels act r) = r2"
    "\<exists>cfg keep subs ren ra. ra = (if act then fst (whisper_add ok c (sorted_list_of_fset (whisperTargetsLocked c cfg r1)) r1 {||}) else r1) \<and>
       (r2 = ra \<or> (\<exists>ren. r2 = fst (whisper_remove c keep subs ra ren)))"
proof -
  define cfg where "cfg = \<lparr>wh_active = act, wh_clients = fset_of_list clients, wh_channels = fset_of_list channels\<rparr>"
  define r1 where "r1 = r\<lparr>rt_whispers := fmupd c cfg (rt_whispers r)\<rparr>"
  define a where "a = (if act then whisper_add ok c (sorted_list_of_fset (whisperTargetsLocked c cfg r1)) r1 {||} else (r1, {||}))"
  have 1: "rt_inv r \<Longrightarrow> rt_inv r1"
    by (simp add: r1_def rt_inv_def membership_ok_def pairs_ok_def justified_def claims_ok_def pair_def same_channel_def)
  have 2: "base_eq r1 r" by (simp add: r1_def base_eq_def)
  have 3: "pair r1 s p = pair r s p" for s p by (simp add: r1_def pair_def)
  have e: "fst (SetWhisper ok c clients channels act r) =
      fst (case fmlookup (rt_whispers r) c of
             Some o0 \<Rightarrow> if wh_active o0
               then whisper_remove c (if act then whisperTargetsLocked c cfg (fst a) else {||}) (sorted_list_of_fset (whisperTargetsLocked c o0 (fst a))) (fst a) (snd a)
               else a
           | None \<Rightarrow> a)"
    unfolding SetWhisper_def Let_def cfg_def [symmetric] r1_def [symmetric]
    by (cases act) (simp_all add: a_def case_prod_beta split: option.splits)
  have fa: "fst a = (if act then fst (whisper_add ok c (sorted_list_of_fset (whisperTargetsLocked c cfg r1)) r1 {||}) else r1)"
    by (simp add: a_def)
  show thesis
    by (rule that [OF 1 2 3 e]) (use fa in \<open>auto split: option.splits\<close>)
qed

lemma SetWhisper_inv:
  assumes "rt_inv r"
  shows "rt_inv (fst (SetWhisper ok c clients channels act r))"
proof -
  obtain r1 r2 cfg keep subs ra where
    r1: "rt_inv r \<Longrightarrow> rt_inv r1" and r2: "fst (SetWhisper ok c clients channels act r) = r2"
    and ra: "ra = (if act then fst (whisper_add ok c (sorted_list_of_fset (whisperTargetsLocked c cfg r1)) r1 {||}) else r1)"
    and e: "r2 = ra \<or> (\<exists>ren. r2 = fst (whisper_remove c keep subs ra ren))"
    using SetWhisper_cases [of r ok c clients channels act] by metis
  have "c \<notin> set (sorted_list_of_fset (whisperTargetsLocked c cfg r1))" by (simp add: whisperTargetsLocked_def)
  with whisper_add_inv [OF r1 [OF assms]] r1 [OF assms] have "rt_inv ra" by (auto simp: ra)
  with e whisper_remove_inv show ?thesis unfolding r2 by blast
qed

subsubsection \<open>Slots and claims\<close>

lemma resync_props:
  assumes "resync_slots ok peers pub added removed sub t = (t', c)"
  shows "fmlookup peers sub = Some pc \<Longrightarrow> track_ok pub pc t \<Longrightarrow> track_ok pub pc t'"
    "fmlookup peers sub = Some pc \<Longrightarrow> no_fail ok \<Longrightarrow> slotKinds x \<noteq> None \<Longrightarrow> has_slot t x \<or> x \<in> set added \<Longrightarrow> x \<notin> set removed \<Longrightarrow> has_slot t' x"
proof -
  obtain t1 c1 where a: "(case fmlookup peers sub of None \<Rightarrow> (t, False) | Some pc \<Rightarrow> add_slots ok pc sub pub added t) = (t1, c1)" by fastforce
  obtain t2 c2 where b: "remove_slots removed t1 = (t2, c2)" by fastforce
  have t': "t' = t2" using assms a b by (simp add: resync_slots_def)
  note B = remove_slots_props [OF b]
  { assume pc: "fmlookup peers sub = Some pc"
    with a have "add_slots ok pc sub pub added t = (t1, c1)" by simp
    note A = add_slots_props [OF this]
    show "track_ok pub pc t \<Longrightarrow> track_ok pub pc t'" using A(1) B(1) by (simp add: t')
    show "no_fail ok \<Longrightarrow> slotKinds x \<noteq> None \<Longrightarrow> has_slot t x \<or> x \<in> set added \<Longrightarrow> x \<notin> set removed \<Longrightarrow> has_slot t' x"
      using A(2,4) B(2) unfolding t' by blast }
qed

lemma SetTrackSlots_props:
  fixes r :: router and pub :: client_id and ok :: add_ok and slots :: "(string, slot) fmap"
  defines "r' \<equiv> fst (SetTrackSlots ok pub slots r)"
  shows "rt_members r' = rt_members r" "rt_clientChan r' = rt_clientChan r" "rt_pubPeers r' = rt_pubPeers r"
    "rt_whisperPairs r' = rt_whisperPairs r" "rt_slotClaims r' = rt_slotClaims r" "rt_slotEpoch r' = rt_slotEpoch r"
    "p \<noteq> pub \<Longrightarrow> fm_inner (rt_trackSlots r') p = fm_inner (rt_trackSlots r) p"
    "\<exists>added removed. slotDiff (publisherSlotsLocked pub r) (publisherSlotsLocked pub r') = (added, removed) \<and>
      (\<forall>s p. pair r' s p = (if p = pub \<and> (added \<noteq> [] \<or> removed \<noteq> [])
          then map_option (\<lambda>t. fst (resync_slots ok (rt_pubPeers r) pub added removed s t)) (pair r s p) else pair r s p))"
proof -
  define declared where "declared = fmfilter (\<lambda>t. slotKinds (the (fmlookup slots t)) \<noteq> None) slots"
  define r1 where "r1 = r\<lparr>rt_trackSlots := (if declared = fmempty then fmdrop pub (rt_trackSlots r) else fmupd pub declared (rt_trackSlots r))\<rparr>"
  obtain added removed where d: "slotDiff (publisherSlotsLocked pub r) (publisherSlotsLocked pub r1) = (added, removed)" by fastforce
  define sync where "sync = resync_slots ok (rt_pubPeers r) pub added removed"
  have pp: "rt_pubPeers r1 = rt_pubPeers r" "rt_pubTracks r1 = rt_pubTracks r" by (simp_all add: r1_def)
  have r': "r' = (if added = [] \<and> removed = [] then r1
      else r1\<lparr>rt_pubTracks := fmmap_keys (\<lambda>sub tracks. case fmlookup tracks pub of None \<Rightarrow> tracks | Some t \<Rightarrow> fmupd pub (fst (sync sub t)) tracks) (rt_pubTracks r1)\<rparr>)"
    unfolding r'_def SetTrackSlots_def Let_def declared_def [symmetric] r1_def [symmetric] d sync_def pp by simp
  have ts: "rt_trackSlots r' = rt_trackSlots r1" by (simp add: r')
  then have ps: "publisherSlotsLocked pub r' = publisherSlotsLocked pub r1" by (simp add: publisherSlotsLocked_def)
  show "rt_members r' = rt_members r" "rt_clientChan r' = rt_clientChan r" "rt_pubPeers r' = rt_pubPeers r"
    "rt_whisperPairs r' = rt_whisperPairs r" "rt_slotClaims r' = rt_slotClaims r" "rt_slotEpoch r' = rt_slotEpoch r"
    by (simp_all add: r' r1_def)
  show "p \<noteq> pub \<Longrightarrow> fm_inner (rt_trackSlots r') p = fm_inner (rt_trackSlots r) p" unfolding ts by (simp add: r1_def)
  have "pair r' s p = (if p = pub \<and> (added \<noteq> [] \<or> removed \<noteq> []) then map_option (\<lambda>t. fst (sync s t)) (pair r s p) else pair r s p)" for s p
    by (cases "fmlookup (rt_pubTracks r) s")
      (auto simp: r' pair_def fm_inner_def pp split: option.splits)
  with d show "\<exists>added removed. slotDiff (publisherSlotsLocked pub r) (publisherSlotsLocked pub r') = (added, removed) \<and>
      (\<forall>s p. pair r' s p = (if p = pub \<and> (added \<noteq> [] \<or> removed \<noteq> [])
          then map_option (\<lambda>t. fst (resync_slots ok (rt_pubPeers r) pub added removed s t)) (pair r s p) else pair r s p))"
    unfolding ps sync_def by blast
qed

lemma SetTrackSlots_inv:
  assumes "rt_inv r"
  shows "rt_inv (fst (SetTrackSlots ok pub slots r))"
proof -
  let ?r = "fst (SetTrackSlots ok pub slots r)"
  note f = SetTrackSlots_props [where ok = ok and pub = pub and slots = slots and r = r]
  obtain added removed where pr: "pair ?r s p = (if p = pub \<and> (added \<noteq> [] \<or> removed \<noteq> [])
      then map_option (\<lambda>t. fst (resync_slots ok (rt_pubPeers r) pub added removed s t)) (pair r s p) else pair r s p)" for s p
    using f(8) by blast
  have ex: "pair ?r s p \<noteq> None \<longleftrightarrow> pair r s p \<noteq> None" for s p by (simp add: pr)
  have "justified ?r" using assms unfolding rt_inv_def justified_def ex by (simp add: same_channel_def f)
  moreover have "pairs_ok ?r" unfolding pairs_ok_def
  proof (intro allI impI)
    fix s p t assume t: "pair ?r s p = Some t"
    then obtain t0 where t0: "pair r s p = Some t0" using ex [of s p] by auto
    then obtain pc where pc: "fmlookup (rt_pubPeers r) s = Some pc" "track_ok p pc t0"
      using assms unfolding rt_inv_def pairs_ok_def by blast
    show "\<exists>pc. fmlookup (rt_pubPeers ?r) s = Some pc \<and> track_ok p pc t"
    proof (cases "p = pub \<and> (added \<noteq> [] \<or> removed \<noteq> [])")
      case True
      then have "t = fst (resync_slots ok (rt_pubPeers r) pub added removed s t0)" using t t0 by (simp add: pr)
      moreover have "track_ok pub pc (fst (resync_slots ok (rt_pubPeers r) pub added removed s t0))"
        by (rule resync_props(1) [OF surjective_pairing pc(1)]) (use pc True in simp)
      ultimately show ?thesis using pc True f(3) by auto
    next
      case False
      with t t0 have "t = t0" by (auto simp: pr split: if_splits)
      with pc f(3) show ?thesis by simp
    qed
  qed
  ultimately show ?thesis using assms by (simp add: rt_inv_def membership_ok_def claims_ok_def f)
qed

lemma claimSlot_inv:
  assumes "rt_inv r"
  shows "rt_inv (fst (claimSlot c key r))"
proof (cases "fmlookup (fm_inner (rt_slotClaims r) c) key")
  case (Some t)
  with assms show ?thesis by (simp add: claimSlot_def)
next
  case None
  let ?r = "fst (claimSlot c key r)" and ?e = "rt_slotEpoch r + 1"
  have cl: "rt_slotEpoch ?r = ?e"
    "fmlookup (fm_inner (rt_slotClaims ?r) c') k' = (if c' = c \<and> k' = key then Some ?e else fmlookup (fm_inner (rt_slotClaims r) c') k')" for c' k'
    using None by (auto simp: claimSlot_def Let_def)
  have old: "t \<le> rt_slotEpoch r" if "fmlookup (fm_inner (rt_slotClaims r) c') k' = Some t" for c' k' t
    using assms that by (auto simp: rt_inv_def claims_ok_def)
  have "claims_ok ?r" unfolding claims_ok_def
  proof (intro allI impI)
    fix a k t assume t: "fmlookup (fm_inner (rt_slotClaims ?r) a) k = Some t"
    show "0 < t \<and> t \<le> rt_slotEpoch ?r \<and> (\<forall>c' k'. fmlookup (fm_inner (rt_slotClaims ?r) c') k' = Some t \<longrightarrow> c' = a \<and> k' = k)"
    proof (cases "a = c \<and> k = key")
      case True
      with t have "t = ?e" by (simp add: cl)
      with True old show ?thesis by (fastforce simp: cl split: if_splits)
    next
      case False
      with t have t0: "fmlookup (fm_inner (rt_slotClaims r) a) k = Some t" by (auto simp: cl split: if_splits)
      with assms have "0 < t" "\<And>c' k'. fmlookup (fm_inner (rt_slotClaims r) c') k' = Some t \<Longrightarrow> c' = a \<and> k' = k"
        unfolding rt_inv_def claims_ok_def by blast+
      with old [OF t0] show ?thesis by (auto simp: cl split: if_splits)
    qed
  qed
  moreover have "membership_ok ?r" "pairs_ok ?r" "justified ?r"
    using assms None by (simp_all add: claimSlot_def Let_def rt_inv_def membership_ok_def pairs_ok_def justified_def pair_def same_channel_def)
  ultimately show ?thesis by (simp add: rt_inv_def)
qed

lemma releaseSlot_claims:
  "fmlookup (fm_inner (rt_slotClaims (releaseSlot c key token r)) c') k' =
     (if c' = c \<and> k' = key \<and> fmlookup (fm_inner (rt_slotClaims r) c) key = Some token then None
      else fmlookup (fm_inner (rt_slotClaims r) c') k')"
proof (cases "fmlookup (rt_slotClaims r) c")
  case None
  then show ?thesis by (simp add: releaseSlot_def fm_inner_def)
next
  case (Some claims)
  have inner: "fm_inner (rt_slotClaims r) c = claims" using Some by (simp add: fm_inner_def)
  have drop: "fmlookup claims q = None" if "fmdrop key claims = fmempty" "q \<noteq> key" for q
    using arg_cong [OF that(1), of "\<lambda>m. fmlookup m q"] that(2) by simp
  show ?thesis using Some inner drop [of k'] by (auto simp: releaseSlot_def)
qed

lemma releaseSlot_inv:
  assumes "rt_inv r"
  shows "rt_inv (releaseSlot c key token r)"
proof -
  have "claims_ok (releaseSlot c key token r)"
    using assms unfolding rt_inv_def claims_ok_def releaseSlot_claims
    by (auto simp: releaseSlot_def split: option.splits if_splits)
  moreover have "membership_ok (releaseSlot c key token r)" "pairs_ok (releaseSlot c key token r)" "justified (releaseSlot c key token r)"
    using assms by (auto simp: releaseSlot_def rt_inv_def membership_ok_def pairs_ok_def justified_def pair_def same_channel_def split: option.splits)
  ultimately show ?thesis by (simp add: rt_inv_def)
qed

subsection \<open>Runs\<close>

text \<open>
  The operations as the rest of the server calls them, from any goroutine and in any order.  Only
  attaching a peer has a precondition: \<open>HandleOffer\<close> detaches the client first.  The second component
  of the state is the set of clients between \<open>AttachPeer\<close> and \<open>EnsurePublishers\<close>, two calls that
  other operations may run between.
\<close>

type_synonym rid_order = "(string, 32 word) fmap \<Rightarrow> string list"

datatype rt_op =
    RJoin add_ok rid_order time channel_id client_id
  | RLeave channel_id client_id
  | RLeaveAll client_id
  | RAttach client_id nat
  | REnsure add_ok rid_order time client_id
  | RDetach client_id bool
  | RWhisper add_ok client_id "client_id list" "channel_id list" bool
  | RTrackSlots add_ok client_id "(string, slot) fmap"
  | REcho channel_id
  | RAddOutput client_id nat
  | RRemoveOutput client_id
  | RAddVideoOutput client_id nat
  | RClaim client_id string
  | RRelease client_id string nat
  | RQuality rid_order time client_id string
  | RKeyframe rid_order time client_id slot string
  | RRelay "client_id fset \<Rightarrow> client_id list" time "32 word"
  | RRegister client_id slot string "32 word"
  | RUnregister client_id slot string "32 word"

type_synonym rt_state = "router \<times> client_id fset"

fun rt_step :: "rt_op \<Rightarrow> rt_state \<Rightarrow> rt_state" where
  "rt_step (RJoin ok ord now ch c) (r, att) = (fst (rt_JoinChannel ok ord now ch c r), att)"
| "rt_step (RLeave ch c) (r, att) = (fst (rt_LeaveChannel ch c r), att)"
| "rt_step (RLeaveAll c) (r, att) = (fst (LeaveAll c r), att)"
| "rt_step (RAttach c pc) (r, att) = (AttachPeer c pc r, finsert c att)"
| "rt_step (REnsure ok ord now c) (r, att) = (fst (EnsurePublishers ok ord now c r), att |-| {|c|})"
| "rt_step (RDetach c leave) (r, att) = (fst (detachPeer c leave r), att |-| {|c|})"
| "rt_step (RWhisper ok c cl chs act) (r, att) = (fst (SetWhisper ok c cl chs act r), att)"
| "rt_step (RTrackSlots ok p slots) (r, att) = (fst (SetTrackSlots ok p slots r), att)"
| "rt_step (REcho ch) (r, att) = (SetEchoChannel ch r, att)"
| "rt_step (RAddOutput c w) (r, att) = (AddOutput c w r, att)"
| "rt_step (RRemoveOutput c) (r, att) = (RemoveOutput c r, att)"
| "rt_step (RAddVideoOutput c w) (r, att) = (addVideoOutput c w r, att)"
| "rt_step (RClaim c key) (r, att) = (fst (claimSlot c key r), att)"
| "rt_step (RRelease c key t) (r, att) = (releaseSlot c key t r, att)"
| "rt_step (RQuality ord now c q) (r, att) = (case SetVideoQuality ord now c q r of None \<Rightarrow> (r, att) | Some (r1, _) \<Rightarrow> (r1, att))"
| "rt_step (RKeyframe ord now p s rid) (r, att) = (fst (RequestKeyframe ord now p s rid r), att)"
| "rt_step (RRelay ord now ssrc) (r, att) = (fst (relayKeyframeRequest ord now ssrc r), att)"
| "rt_step (RRegister c s rid ssrc) (r, att) = (registerVideoSource c s rid ssrc r, att)"
| "rt_step (RUnregister c s rid ssrc) (r, att) = (unregisterVideoSource c s rid ssrc r, att)"

fun rt_ok :: "rt_op \<Rightarrow> rt_state \<Rightarrow> bool" where
  "rt_ok (RAttach c pc) (r, att) = (fmlookup (rt_pubPeers r) c = None)"
| "rt_ok _ _ = True"

text \<open>The fields the invariant reads.\<close>

definition core_eq :: "router \<Rightarrow> router \<Rightarrow> bool" where
  "core_eq a b \<longleftrightarrow> base_eq a b \<and> rt_pubTracks a = rt_pubTracks b \<and> rt_whisperPairs a = rt_whisperPairs b \<and>
     rt_slotClaims a = rt_slotClaims b \<and> rt_slotEpoch a = rt_slotEpoch b"

lemma core_eq_inv: "core_eq a b \<Longrightarrow> rt_inv a = rt_inv b"
  by (simp add: core_eq_def base_eq_def rt_inv_def membership_ok_def pairs_ok_def justified_def claims_ok_def pair_def same_channel_def)

lemma core_eq_refl [simp]: "core_eq r r"
  by (simp add: core_eq_def base_eq_def)

lemma core_eq_trans: "core_eq a b \<Longrightarrow> core_eq b c \<Longrightarrow> core_eq a c"
  by (simp add: core_eq_def base_eq_def)

lemma allowKeyframe_core: "core_eq (fst (allowKeyframeRequest ssrc now r)) r"
  by (auto simp: allowKeyframeRequest_def core_eq_def base_eq_def split: option.splits)

lemma RequestKeyframe_core: "core_eq (fst (RequestKeyframe ord now p s rid r)) r"
  using allowKeyframe_core [of "keyframe_ssrc ord p s rid r" now r]
  by (auto simp: RequestKeyframe_def Let_def split: prod.splits bool.splits)

lemma relayKeyframe_core: "core_eq (fst (relayKeyframeRequest ord now ssrc r)) r"
  using allowKeyframe_core [of ssrc now r] by (auto simp: relayKeyframeRequest_def Let_def split: prod.splits bool.splits)

lemma request_keyframes_core: "core_eq (fst (request_keyframes ord now rid refs r)) r"
proof (induction refs arbitrary: r)
  case Nil
  then show ?case by simp
next
  case (Cons a refs)
  obtain p s where a: "a = (p, s)" by fastforce
  from Cons.IH [of "fst (RequestKeyframe ord now p s rid r)"] RequestKeyframe_core [of ord now p s rid r]
  show ?case by (auto simp: a case_prod_beta intro: core_eq_trans)
qed

lemma JoinChannel_core: "core_eq (fst (rt_JoinChannel ok ord now ch c r)) (fst (join_locked ok ch c r))"
  using request_keyframes_core by (simp add: rt_JoinChannel_def case_prod_beta)

lemma EnsurePublishers_core:
  "core_eq (fst (EnsurePublishers ok ord now c r))
     (case fmlookup (rt_clientChan r) c of None \<Rightarrow> r | Some ch \<Rightarrow> connect ok ch c r)"
  using request_keyframes_core by (auto simp: EnsurePublishers_def connect_def case_prod_beta Let_def split: option.splits)

lemma quiet_ops_core:
  "core_eq (AddOutput c w r) r" "core_eq (RemoveOutput c r) r" "core_eq (addVideoOutput c w r) r"
  "core_eq (registerVideoSource c s rid ssrc r) r" "core_eq (unregisterVideoSource c s rid ssrc r) r"
  "SetVideoQuality ord now c q r = Some (r1, outs) \<Longrightarrow> core_eq r1 r"
proof -
  assume sq: "SetVideoQuality ord now c q r = Some (r1, outs)"
  then obtain rid where q: "qualityToRID q = Some rid" by (auto simp: SetVideoQuality_def split: option.splits)
  let ?r = "r\<lparr>rt_layerPrefs := fmupd c rid (rt_layerPrefs r)\<rparr>"
  have 0: "core_eq ?r r" by (simp add: core_eq_def base_eq_def)
  show "core_eq r1 r"
  proof (cases "fmlookup (rt_clientChan r) c")
    case None
    with sq q 0 show ?thesis by (simp add: SetVideoQuality_def)
  next
    case (Some ch)
    with sq q have "r1 = fst (request_keyframes ord now rid (videoPublishersLocked ch c ?r) ?r)"
      by (simp add: SetVideoQuality_def Let_def)
    then show ?thesis using core_eq_trans [OF request_keyframes_core 0] by simp
  qed
qed (auto simp: AddOutput_def RemoveOutput_def addVideoOutput_def registerVideoSource_def unregisterVideoSource_def Let_def
    core_eq_def base_eq_def split: option.splits)

lemma EnsurePublishers_inv: "rt_inv r \<Longrightarrow> rt_inv (fst (EnsurePublishers ok ord now c r))"
  unfolding core_eq_inv [OF EnsurePublishers_core] by (auto simp: connect_inv split: option.splits)

lemma AttachPeer_inv:
  assumes "rt_inv r" "fmlookup (rt_pubPeers r) c = None"
  shows "rt_inv (AttachPeer c pc r)"
proof -
  have "pair r c p = None" for p using pair_peer [OF assms(1), of c p] assms(2) by (cases "pair r c p") auto
  moreover have "pair (AttachPeer c pc r) s p = pair r s p" for s p by (simp add: AttachPeer_def pair_def)
  ultimately have "pairs_ok (AttachPeer c pc r)" using assms(1) by (auto simp: rt_inv_def pairs_ok_def AttachPeer_def)
  with assms(1) show ?thesis
    by (simp add: AttachPeer_def rt_inv_def membership_ok_def justified_def claims_ok_def pair_def same_channel_def)
qed

lemma rt_step_inv:
  assumes "rt_inv (fst st)" "rt_ok p st"
  shows "rt_inv (fst (rt_step p st))"
proof -
  obtain r att where st: "st = (r, att)" by fastforce
  have inv: "rt_inv r" using assms(1) st by simp
  show ?thesis
  proof (cases p)
    case (RJoin ok ord now ch c)
    with st join_locked_inv [OF inv] show ?thesis by (simp add: core_eq_inv [OF JoinChannel_core])
  next
    case (RAttach c pc)
    with assms st AttachPeer_inv [OF inv] show ?thesis by simp
  next
    case (RQuality ord now c q)
    with st inv core_eq_inv [OF quiet_ops_core(6)] show ?thesis by (auto split: option.splits prod.splits)
  next
    case (REcho ch)
    with st inv show ?thesis
      by (simp add: SetEchoChannel_def rt_inv_def membership_ok_def pairs_ok_def justified_def claims_ok_def pair_def same_channel_def)
  qed (use st inv in \<open>auto simp: rt_LeaveChannel_def LeaveAll_def leave_locked_inv EnsurePublishers_inv detachPeer_inv SetWhisper_inv
      SetTrackSlots_inv claimSlot_inv releaseSlot_inv case_prod_beta core_eq_inv [OF quiet_ops_core(1)] core_eq_inv [OF quiet_ops_core(2)]
      core_eq_inv [OF quiet_ops_core(3)] core_eq_inv [OF quiet_ops_core(4)] core_eq_inv [OF quiet_ops_core(5)]
      core_eq_inv [OF RequestKeyframe_core] core_eq_inv [OF relayKeyframe_core] split: option.splits\<close>)
qed

lemma NewRouter_inv: "rt_inv NewRouter"
  by (simp add: NewRouter_def rt_inv_def membership_ok_def pairs_ok_def justified_def claims_ok_def pair_def)

interpretation rt: invariant_system rt_step rt_ok "\<lambda>st. rt_inv (fst st)" "(NewRouter, {||})"
  by unfold_locales (simp_all add: NewRouter_inv rt_step_inv)

subsection \<open>Completeness when no track creation fails\<close>

definition complete_pairs :: "router \<Rightarrow> bool" where
  "complete_pairs r \<longleftrightarrow> (\<forall>s p t. pair r s p = Some t \<longrightarrow> (\<forall>x \<in> set (publisherSlotsLocked p r). has_slot t x))"

definition attached :: "client_id fset \<Rightarrow> router \<Rightarrow> client_id \<Rightarrow> bool" where
  "attached att r c \<longleftrightarrow> fmlookup (rt_pubPeers r) c \<noteq> None \<and> c |\<notin>| att"

text \<open>Any two attached members of a channel have output tracks for each other.\<close>

definition connected :: "client_id fset \<Rightarrow> router \<Rightarrow> bool" where
  "connected att r \<longleftrightarrow>
     (\<forall>s p. s \<noteq> p \<longrightarrow> same_channel s p r \<longrightarrow> attached att r s \<longrightarrow> attached att r p \<longrightarrow> pair r s p \<noteq> None)"

definition rt_full :: "rt_state \<Rightarrow> bool" where
  "rt_full st \<longleftrightarrow> rt_inv (fst st) \<and> complete_pairs (fst st) \<and> connected (snd st) (fst st)"

lemma complete_core: "core_eq a b \<Longrightarrow> complete_pairs a = complete_pairs b"
  by (simp add: core_eq_def base_eq_def complete_pairs_def pair_def publisherSlotsLocked_def)

lemma connected_core: "core_eq a b \<Longrightarrow> connected att a = connected att b"
  by (simp add: core_eq_def base_eq_def connected_def attached_def pair_def same_channel_alt)

lemma rt_full_core: "core_eq a b \<Longrightarrow> rt_full (a, att) = rt_full (b, att)"
  by (simp add: rt_full_def complete_core core_eq_inv connected_core)

lemma publisherSlots_cong: "fm_inner (rt_trackSlots a) p = fm_inner (rt_trackSlots b) p \<Longrightarrow> publisherSlotsLocked p a = publisherSlotsLocked p b"
  by (simp add: publisherSlotsLocked_def)

lemma complete_remove:
  assumes "complete_pairs r" "\<And>s p t. pair r' s p = Some t \<Longrightarrow> pair r s p = Some t \<and> fm_inner (rt_trackSlots r') p = fm_inner (rt_trackSlots r) p"
  shows "complete_pairs r'"
  using assms publisherSlots_cong unfolding complete_pairs_def by metis

lemma complete_grow:
  assumes "complete_pairs r" "no_fail ok" "rt_trackSlots r' = rt_trackSlots r"
    "\<And>s p. pair r' s p = pair r s p \<or> pair r' s p = grown ok r s p"
  shows "complete_pairs r'"
  unfolding complete_pairs_def
proof (intro allI impI ballI)
  fix s p t x assume t: "pair r' s p = Some t" and x: "x \<in> set (publisherSlotsLocked p r')"
  have x': "x \<in> set (publisherSlotsLocked p r)" using x assms(3) by (simp add: publisherSlotsLocked_def)
  show "has_slot t x"
  proof (cases "pair r' s p = pair r s p")
    case True
    with t x' assms(1) show ?thesis by (simp add: complete_pairs_def)
  next
    case False
    with assms(4) [of s p] have g: "pair r' s p = grown ok r s p" by simp
    show ?thesis
    proof (cases "fmlookup (rt_pubPeers r) s")
      case None
      with g False show ?thesis by (simp add: grown_def)
    next
      case (Some pc)
      with grown_complete [OF assms(2), of r s pc p] g t x' show ?thesis by auto
    qed
  qed
qed

lemma connected_mono:
  assumes "connected att r" "\<And>s p. same_channel s p r' \<Longrightarrow> same_channel s p r" "\<And>c. attached att' r' c \<Longrightarrow> attached att r c"
    "\<And>s p. pair r s p \<noteq> None \<Longrightarrow> same_channel s p r' \<Longrightarrow> pair r' s p \<noteq> None"
  shows "connected att' r'"
  using assms unfolding connected_def by blast

lemma leave_full:
  assumes "rt_full (r, att)"
  shows "rt_full (fst (leave_locked ch c r), att)"
proof -
  have mem: "membership_ok r" using assms by (simp add: rt_full_def rt_inv_def)
  note lp = leave_locked_pair [OF mem, of ch c] and lf = leave_locked_fields [OF mem, of ch c]
  have "complete_pairs (fst (leave_locked ch c r))"
    by (rule complete_remove [of r]) (use assms in \<open>auto simp: rt_full_def lp lf split: if_splits\<close>)
  moreover have "connected att (fst (leave_locked ch c r))"
    using assms by (auto simp: rt_full_def connected_def attached_def same_channel_alt lp lf)
  ultimately show ?thesis using assms leave_locked_inv by (simp add: rt_full_def)
qed

lemma connect_full:
  assumes full: "rt_inv r" "complete_pairs r" and ok: "no_fail ok" and c: "fmlookup (rt_clientChan r) c = Some ch"
    and con: "\<And>s p. s \<noteq> p \<Longrightarrow> s \<noteq> c \<Longrightarrow> p \<noteq> c \<Longrightarrow> same_channel s p r \<Longrightarrow> attached att r s \<Longrightarrow> attached att r p \<Longrightarrow> pair r s p \<noteq> None"
  shows "rt_full (connect ok ch c r, att)"
proof -
  have rs: "rest (connect ok ch c r) = rest r" by simp
  have mem: "membership_ok r" using full by (simp add: rt_inv_def)
  have "complete_pairs (connect ok ch c r)"
    by (rule complete_grow [OF full(2) ok restD(7) [OF rs]]) (simp add: connect_pair)
  moreover have "connected att (connect ok ch c r)"
    unfolding connected_def attached_def restD(3) [OF rs] rest_same_channel [OF rs]
  proof (intro allI impI)
    fix s p assume a: "s \<noteq> p" "same_channel s p r" "fmlookup (rt_pubPeers r) s \<noteq> None \<and> s |\<notin>| att" "fmlookup (rt_pubPeers r) p \<noteq> None \<and> p |\<notin>| att"
    show "pair (connect ok ch c r) s p \<noteq> None"
    proof (cases "s = c \<or> p = c")
      case True
      have "(s = c \<and> p |\<in>| fmset_get (rt_members r) ch) \<or> (p = c \<and> s |\<in>| fmset_get (rt_members r) ch)"
        using True a(2) c membershipD [OF mem] by (auto simp: same_channel_alt)
      then have "pair (connect ok ch c r) s p = grown ok r s p" using a(1) by (simp add: connect_pair)
      then show ?thesis using a(3) grown_complete [OF ok, of r s _ p] by auto
    next
      case False
      then have "pair (connect ok ch c r) s p = pair r s p" by (simp add: connect_pair)
      then show ?thesis using con [of s p] a False by (simp add: attached_def)
    qed
  qed
  ultimately show ?thesis using connect_inv [OF full(1) c] by (simp add: rt_full_def)
qed

lemma join_full:
  assumes full: "rt_full (r, att)" and ok: "no_fail ok"
  shows "rt_full (fst (join_locked ok ch c r), att)"
proof -
  have inv: "rt_inv r" and cp: "complete_pairs r" and con: "connected att r" using full by (simp_all add: rt_full_def)
  note j = joined_props [OF inv, where ch = ch and c = c]
  have "complete_pairs (joined ch c r)"
    by (rule complete_remove [OF cp]) (use j(7) j(5) in \<open>metis option.distinct(1)\<close>)
  then show ?thesis unfolding join_locked_connect
  proof (intro connect_full [OF j(1) _ ok])
    show "fmlookup (rt_clientChan (joined ch c r)) c = Some ch" by (simp add: j(2))
    fix s p assume a: "s \<noteq> p" "s \<noteq> c" "p \<noteq> c" "same_channel s p (joined ch c r)" "attached att (joined ch c r) s" "attached att (joined ch c r) p"
    have "same_channel s p r" using a(2-4) by (simp add: same_channel_alt j(2))
    moreover have "attached att r s" "attached att r p" using a(5,6) by (simp_all add: attached_def j(3))
    ultimately have "pair r s p \<noteq> None" using con a(1) unfolding connected_def by blast
    with j(7) [of s p] a show "pair (joined ch c r) s p \<noteq> None" by auto
  qed
qed

lemma ensure_full:
  assumes full: "rt_full (r, att)" and ok: "no_fail ok"
  shows "rt_full (fst (EnsurePublishers ok ord now c r), att |-| {|c|})"
proof -
  have inv: "rt_inv r" and cp: "complete_pairs r" and con: "connected att r" using full by (simp_all add: rt_full_def)
  show ?thesis
  proof (cases "fmlookup (rt_clientChan r) c")
    case None
    then have "connected (att |-| {|c|}) r" using con by (auto simp: connected_def attached_def same_channel_alt)
    with None inv cp rt_full_core [OF EnsurePublishers_core [of ok ord now c r], of "att |-| {|c|}"] show ?thesis by (simp add: rt_full_def)
  next
    case (Some ch)
    have "rt_full (connect ok ch c r, att |-| {|c|})"
    proof (rule connect_full [OF inv cp ok Some])
      fix s p assume "s \<noteq> p" "s \<noteq> c" "p \<noteq> c" "same_channel s p r" "attached (att |-| {|c|}) r s" "attached (att |-| {|c|}) r p"
      then show "pair r s p \<noteq> None" using con by (auto simp: connected_def attached_def)
    qed
    with Some rt_full_core [OF EnsurePublishers_core [of ok ord now c r], of "att |-| {|c|}"] show ?thesis by simp
  qed
qed

lemma detached_full:
  assumes "rt_full (r, att)"
  shows "rt_full (detached c leave r, att |-| {|c|})"
proof -
  note d = detached_props [where c = c and leave = leave and r = r]
  have "complete_pairs (detached c leave r)"
    by (rule complete_remove [of r]) (use assms in \<open>auto simp: rt_full_def d split: if_splits\<close>)
  moreover have "connected (att |-| {|c|}) (detached c leave r)"
    using assms by (auto simp: rt_full_def connected_def attached_def same_channel_alt d split: if_splits)
  ultimately show ?thesis using assms detached_inv by (simp add: rt_full_def)
qed

lemma detachPeer_full: "rt_full (r, att) \<Longrightarrow> rt_full (fst (detachPeer c leave r), att |-| {|c|})"
  by (auto simp: detachPeer_fst detached_full leave_full split: option.splits)

lemma whisper_add_complete:
  assumes "complete_pairs r" "no_fail ok"
  shows "complete_pairs (fst (whisper_add ok c subs r ren))"
  using assms
proof (induction subs arbitrary: r ren)
  case Nil
  then show ?case by simp
next
  case (Cons sub subs)
  obtain r1 b where ap: "addPublisherLocked ok sub c r = (r1, b)" by fastforce
  let ?r = "if b then r1\<lparr>rt_whisperPairs := fmset_add c sub (rt_whisperPairs r1)\<rparr> else r1"
  have rs: "rest r1 = rest r" using addPublisher_rest [of ok sub c r] ap by simp
  have "complete_pairs ?r"
  proof (rule complete_grow [OF Cons.prems])
    show "rt_trackSlots ?r = rt_trackSlots r" using restD(7) [OF rs] by simp
    show "pair ?r s p = pair r s p \<or> pair ?r s p = grown ok r s p" for s p
      using addPublisher_pair [of ok sub c r s p] ap by (auto simp: pair_def)
  qed
  from Cons.IH [OF this Cons.prems(2), of "if b then finsert sub ren else ren"] ap show ?case by (cases b) simp_all
qed

lemma whisper_remove_pair:
  "pair (fst (whisper_remove c keep subs r ren)) s p = pair r s p \<or> pair (fst (whisper_remove c keep subs r ren)) s p = None"
proof (induction subs arbitrary: r ren)
  case Nil
  then show ?case by simp
next
  case (Cons sub subs)
  define r1 where "r1 = r\<lparr>rt_whisperPairs := fmset_del c sub (rt_whisperPairs r)\<rparr>"
  have r1: "pair r1 s p = pair r s p" by (simp add: r1_def pair_def)
  have r2: "pair (fst (removePublisherLocked sub c r1)) s p = pair r s p \<or> pair (fst (removePublisherLocked sub c r1)) s p = None"
    by (simp add: removePublisher_pair r1)
  show ?case
    using Cons.IH [of r ren] Cons.IH [of r1 ren] r1 r2
      Cons.IH [of "fst (removePublisherLocked sub c r1)" "if snd (removePublisherLocked sub c r1) then finsert sub ren else ren"]
    by (auto simp: Let_def r1_def [symmetric] case_prod_beta)
qed

lemma whisper_full:
  assumes full: "rt_full (r, att)" and ok: "no_fail ok"
  shows "rt_full (fst (SetWhisper ok c clients channels act r), att)"
proof -
  have inv: "rt_inv r" and cp: "complete_pairs r" and con: "connected att r" using full by (simp_all add: rt_full_def)
  obtain r1 r2 cfg keep subs ra where
    r1: "rt_inv r1" "base_eq r1 r" "\<And>s p. pair r1 s p = pair r s p" and r2: "fst (SetWhisper ok c clients channels act r) = r2"
    and ra: "ra = (if act then fst (whisper_add ok c (sorted_list_of_fset (whisperTargetsLocked c cfg r1)) r1 {||}) else r1)"
    and e: "r2 = ra \<or> (\<exists>ren. r2 = fst (whisper_remove c keep subs ra ren))"
    using SetWhisper_cases [of r ok c clients channels act] inv by metis
  have c1: "complete_pairs r1" by (rule complete_remove [OF cp]) (use r1 in \<open>simp add: base_eq_def\<close>)
  have nc: "c \<notin> set (sorted_list_of_fset (whisperTargetsLocked c cfg r1))" by (simp add: whisperTargetsLocked_def)
  note wa = whisper_add_inv [OF r1(1) nc, of ok "{||}"]
  have a: "rt_inv ra" "complete_pairs ra" "base_eq ra r" "\<And>s p. pair r s p \<noteq> None \<Longrightarrow> pair ra s p \<noteq> None"
    using wa whisper_add_complete [OF c1 ok] c1 r1 base_eq_trans [OF _ r1(2)] by (auto simp: ra)
  have b: "rt_inv r2" "complete_pairs r2" "base_eq r2 r" "\<And>s p. pair r s p \<noteq> None \<Longrightarrow> same_channel s p r \<Longrightarrow> pair r2 s p \<noteq> None"
  proof -
    have "rt_inv r2 \<and> complete_pairs r2 \<and> base_eq r2 r \<and> (\<forall>s p. pair r s p \<noteq> None \<longrightarrow> same_channel s p r \<longrightarrow> pair r2 s p \<noteq> None)"
    proof (cases "r2 = ra")
      case True
      with a show ?thesis by simp
    next
      case False
      with e obtain ren where w: "r2 = fst (whisper_remove c keep subs ra ren)" by auto
      note wr = whisper_remove_inv [OF a(1), of c keep subs ren]
      have be: "base_eq r2 ra" using wr w by simp
      have "complete_pairs r2"
      proof (rule complete_remove [OF a(2)])
        fix s p t assume "pair r2 s p = Some t"
        then show "pair ra s p = Some t \<and> fm_inner (rt_trackSlots r2) p = fm_inner (rt_trackSlots ra) p"
          using whisper_remove_pair [of c keep subs ra ren s p] be w by (auto simp: base_eq_def)
      qed
      moreover have "same_channel s p ra = same_channel s p r" for s p using a(3) by (simp add: base_eq_def same_channel_alt)
      ultimately show ?thesis using wr w a(4) base_eq_trans [OF be a(3)] by metis
    qed
    then show "rt_inv r2" "complete_pairs r2" "base_eq r2 r" "\<And>s p. pair r s p \<noteq> None \<Longrightarrow> same_channel s p r \<Longrightarrow> pair r2 s p \<noteq> None" by blast+
  qed
  have "connected att r2"
    by (rule connected_mono [OF con]) (use b(3,4) in \<open>simp_all add: attached_def base_eq_def same_channel_alt\<close>)
  with b show ?thesis by (simp add: rt_full_def r2)
qed

lemma slots_full:
  assumes full: "rt_full (r, att)" and ok: "no_fail ok"
  shows "rt_full (fst (SetTrackSlots ok pub slots r), att)"
proof -
  let ?r = "fst (SetTrackSlots ok pub slots r)"
  have inv: "rt_inv r" and cp: "complete_pairs r" and con: "connected att r" using full by (simp_all add: rt_full_def)
  note f = SetTrackSlots_props [where ok = ok and pub = pub and slots = slots and r = r]
  obtain added removed where sd: "slotDiff (publisherSlotsLocked pub r) (publisherSlotsLocked pub ?r) = (added, removed)"
    and pr: "pair ?r s p = (if p = pub \<and> (added \<noteq> [] \<or> removed \<noteq> [])
      then map_option (\<lambda>t. fst (resync_slots ok (rt_pubPeers r) pub added removed s t)) (pair r s p) else pair r s p)" for s p
    using f(8) by blast
  have "connected att ?r" by (rule connected_mono [OF con]) (auto simp: attached_def same_channel_alt f pr)
  moreover have "complete_pairs ?r" unfolding complete_pairs_def
  proof (intro allI impI ballI)
    fix s p t x assume t: "pair ?r s p = Some t" and x: "x \<in> set (publisherSlotsLocked p ?r)"
    obtain t0 where t0: "pair r s p = Some t0" using t by (auto simp: pr split: if_splits)
    show "has_slot t x"
    proof (cases "p = pub")
      case False
      then have "publisherSlotsLocked p ?r = publisherSlotsLocked p r" by (intro publisherSlots_cong f(7))
      with x t t0 False cp show ?thesis by (auto simp: pr complete_pairs_def)
    next
      case True
      have old: "has_slot t0 y" if "y \<in> set (publisherSlotsLocked p r)" for y using cp t0 that by (auto simp: complete_pairs_def)
      have in_ad: "x \<in> set added \<or> x \<in> set (publisherSlotsLocked p r)" "x \<notin> set removed" using sd x True by (auto simp: slotDiff_def)
      obtain pc where pc: "fmlookup (rt_pubPeers r) s = Some pc" using pair_peer [OF inv t0] by auto
      show ?thesis
      proof (cases "added \<noteq> [] \<or> removed \<noteq> []")
        case ch: True
        then have "t = fst (resync_slots ok (rt_pubPeers r) pub added removed s t0)" using t t0 True by (simp add: pr)
        then show ?thesis
          using resync_props(2) [OF surjective_pairing pc ok publisherSlots_known [OF x] _ in_ad(2)] in_ad(1) old by auto
      next
        case False
        then have "t = t0" using t t0 by (auto simp: pr split: if_splits)
        with False in_ad old show ?thesis by auto
      qed
    qed
  qed
  ultimately show ?thesis using SetTrackSlots_inv [OF inv] by (simp add: rt_full_def)
qed

fun no_fail_op :: "rt_op \<Rightarrow> bool" where
  "no_fail_op (RJoin ok ord now ch c) = no_fail ok"
| "no_fail_op (REnsure ok ord now c) = no_fail ok"
| "no_fail_op (RWhisper ok c cl chs act) = no_fail ok"
| "no_fail_op (RTrackSlots ok p slots) = no_fail ok"
| "no_fail_op _ = True"

lemma claim_full: "rt_full (r, att) \<Longrightarrow> rt_full (fst (claimSlot c key r), att)"
  using claimSlot_inv [of r c key]
  by (auto simp: rt_full_def claimSlot_def Let_def complete_pairs_def connected_def attached_def same_channel_alt pair_def publisherSlotsLocked_def)

lemma release_full: "rt_full (r, att) \<Longrightarrow> rt_full (releaseSlot c key t r, att)"
  using releaseSlot_inv [of r c key t]
  by (auto simp: rt_full_def releaseSlot_def complete_pairs_def connected_def attached_def same_channel_alt pair_def publisherSlotsLocked_def
      split: option.splits)

lemma rt_step_full:
  assumes "rt_full st" "rt_ok p st \<and> no_fail_op p"
  shows "rt_full (rt_step p st)"
proof -
  obtain r att where st: "st = (r, att)" by fastforce
  have full: "rt_full (r, att)" using assms(1) st by simp
  show ?thesis
  proof (cases p)
    case (RJoin ok ord now ch c)
    with assms st join_full [OF full] show ?thesis by (simp add: rt_full_core [OF JoinChannel_core])
  next
    case (RAttach c pc)
    have "rt_inv (AttachPeer c pc r)" using AttachPeer_inv full assms(2) RAttach st by (simp add: rt_full_def)
    moreover have "complete_pairs (AttachPeer c pc r)"
      using full by (simp add: rt_full_def AttachPeer_def complete_pairs_def pair_def publisherSlotsLocked_def)
    moreover have "connected (finsert c att) (AttachPeer c pc r)"
      by (rule connected_mono [of att r])
        (use full in \<open>auto simp: rt_full_def AttachPeer_def attached_def same_channel_alt pair_def split: if_splits\<close>)
    ultimately show ?thesis using RAttach st by (simp add: rt_full_def)
  next
    case (RQuality ord now c q)
    with st full rt_full_core [OF quiet_ops_core(6)] show ?thesis by (auto split: option.splits prod.splits)
  next
    case (REcho ch)
    have "rt_inv (SetEchoChannel ch r)" using rt_step_inv [of "(r, att)" "REcho ch"] full by (simp add: rt_full_def)
    with REcho st full show ?thesis
      by (simp add: rt_full_def SetEchoChannel_def complete_pairs_def connected_def attached_def same_channel_alt pair_def publisherSlotsLocked_def)
  next
    case (RLeaveAll c)
    with st leave_full [OF full] full show ?thesis by (auto simp: LeaveAll_def rt_LeaveChannel_def case_prod_beta split: option.splits)
  qed (use st full assms(2) in \<open>auto simp: rt_LeaveChannel_def leave_full ensure_full detachPeer_full whisper_full slots_full
      claim_full release_full case_prod_beta rt_full_core [OF quiet_ops_core(1)] rt_full_core [OF quiet_ops_core(2)]
      rt_full_core [OF quiet_ops_core(3)] rt_full_core [OF quiet_ops_core(4)] rt_full_core [OF quiet_ops_core(5)]
      rt_full_core [OF RequestKeyframe_core] rt_full_core [OF relayKeyframe_core]\<close>)
qed

lemma NewRouter_full: "rt_full (NewRouter, {||})"
  using NewRouter_inv by (simp add: rt_full_def complete_pairs_def connected_def pair_def same_channel_alt NewRouter_def)

interpretation rt_nofail: invariant_system rt_step "\<lambda>p st. rt_ok p st \<and> no_fail_op p" rt_full "(NewRouter, {||})"
  by unfold_locales (simp_all add: NewRouter_full rt_step_full)

subsection \<open>Properties\<close>

text \<open>C13: the router stays consistent.  In every run of its operations (joins, leaves, attached, rebuilt and
  detached peers, whispers, slot declarations, claims, keyframe requests, in any order, with any
  output-track creation failing), a client is in a channel's member set exactly when that channel is
  its current one, every output track belongs to an attached subscriber, and it is there for a
  reason: subscriber and publisher share a channel, or a whisper created it.\<close>

theorem router_runs_consistent:
  assumes "ops_ok rt_step rt_ok ps (NewRouter, {||})"
  defines "r \<equiv> fst (run_ops rt_step ps (NewRouter, {||}))"
  shows "(c |\<in>| fmset_get (rt_members r) ch \<longleftrightarrow> ChannelOf c r = Some ch) \<and>
    (pair r sub pub \<noteq> None \<longrightarrow>
      fmlookup (rt_pubPeers r) sub \<noteq> None \<and>
      (same_channel sub pub r \<or> (sub \<noteq> pub \<and> sub |\<in>| fmset_get (rt_whisperPairs r) pub)))"
proof -
  have inv: "rt_inv r" unfolding r_def using rt.run_start_inv [OF assms(1)] by simp
  then have "membership_ok r" "justified r" by (simp_all add: rt_inv_def)
  then show ?thesis using membershipD [of r] pair_peer [OF inv, of sub pub]
    by (auto simp: ChannelOf_def justified_def)
qed

text \<open>A run used by the witnesses: two clients in channel 1 with peers, and a whisper to channel 2.\<close>

definition all_ok :: add_ok where "all_ok a b s = True"

definition no_order :: rid_order where "no_order src = []"

definition demo_ops :: "rt_op list" where
  "demo_ops = [RJoin all_ok no_order 0 1 ''a'', RAttach ''a'' 10, REnsure all_ok no_order 0 ''a'',
     RAttach ''b'' 11, REnsure all_ok no_order 0 ''b'', RJoin all_ok no_order 0 1 ''b'']"

lemma demo_run:
  "ops_ok rt_step rt_ok demo_ops (NewRouter, {||})" "ops_ok rt_step (\<lambda>p st. rt_ok p st \<and> no_fail_op p) demo_ops (NewRouter, {||})"
  by (simp_all add: demo_ops_def no_fail_def all_ok_def; code_simp)+

lemma demo_pair: "pair (fst (run_ops rt_step demo_ops (NewRouter, {||}))) ''a'' ''b'' \<noteq> None"
  by code_simp

theorem router_runs_consistent_witness:
  "''a'' |\<in>| fmset_get (rt_members (fst (run_ops rt_step demo_ops (NewRouter, {||})))) 1 \<and>
   fmlookup (rt_pubPeers (fst (run_ops rt_step demo_ops (NewRouter, {||})))) ''a'' \<noteq> None"
proof -
  have "ChannelOf ''a'' (fst (run_ops rt_step demo_ops (NewRouter, {||}))) = Some 1" by code_simp
  then show ?thesis using router_runs_consistent [OF demo_run(1), of "''a''" 1 "''a''" "''b''"] demo_pair by simp
qed

end
