(* ===== verification/Voice_Forwarding.thy ===== *)
theory Voice_Forwarding
  imports Voice_Routing
begin

text \<open>
  Who receives a packet: the audience of a sender, the per-packet gate of the read loops, voice
  activity detection, simulcast layers and keyframe requests
  (\<^verbatim>\<open>internal/webrtc/router.go\<close>, \<^verbatim>\<open>internal/webrtc/opus.go\<close>).
\<close>

subsection \<open>Read loops\<close>

record channel_audio =
  ca_Bitrate :: int
  ca_FEC :: bool
  ca_DTX :: bool
  ca_Stereo :: bool

definition musicMinBitrate :: int where "musicMinBitrate = 96000"

definition IsMusic :: "channel_audio \<Rightarrow> bool" where
  "IsMusic c \<longleftrightarrow> ca_Stereo c \<and> ca_Bitrate c \<ge> musicMinBitrate"

text \<open>\<open>lookup\<close> is the resolver installed by \<open>SetChannelAudioLookup\<close>, None when there is none.\<close>

definition isMusicChannelLocked :: "(channel_id \<Rightarrow> channel_audio) option \<Rightarrow> client_id \<Rightarrow> router \<Rightarrow> bool" where
  "isMusicChannelLocked lookup c r =
     (case lookup of
        None \<Rightarrow> False
      | Some f \<Rightarrow> (case fmlookup (rt_clientChan r) c of None \<Rightarrow> False | Some ch \<Rightarrow> IsMusic (f ch)))"

definition allowTalk :: "(client_id \<Rightarrow> bool) option \<Rightarrow> client_id \<Rightarrow> bool" where
  "allowTalk gate c = (case gate of None \<Rightarrow> True | Some g \<Rightarrow> g c)"

type_synonym byte = "8 word"

definition audioLevel :: "byte list \<Rightarrow> byte option" where
  "audioLevel ext = (case ext of [] \<Rightarrow> None | b # _ \<Rightarrow> Some (and b 0x7F))"

definition vadSpeakThreshold :: byte where "vadSpeakThreshold = 55"
definition vadHangover :: int where "vadHangover = 300000000"

record vad =
  vd_speaking :: bool
  vd_lastVoice :: "time option"

definition vad_Update :: "byte \<Rightarrow> time \<Rightarrow> vad \<Rightarrow> vad \<times> bool \<times> bool" where
  "vad_Update level now v =
     (if level \<le> vadSpeakThreshold then
        (v\<lparr>vd_lastVoice := Some now, vd_speaking := True\<rparr>, True, \<not> vd_speaking v)
      else if vd_speaking v \<and> (case vd_lastVoice v of None \<Rightarrow> True | Some t \<Rightarrow> now - t \<ge> vadHangover)
      then (v\<lparr>vd_speaking := False\<rparr>, False, True)
      else (v, vd_speaking v, False))"

text \<open>
  One received packet with what the loop observes when it handles it: the answers of the talk gate
  and of the music-channel test, the bytes of the level extension and the clock.
\<close>

record rx =
  rx_pkt :: nat
  rx_talk :: bool
  rx_music :: bool
  rx_level_ext :: "byte list"
  rx_now :: time

datatype loop_out = LSpeak bool | LForward nat

fun read_loop :: "bool \<Rightarrow> rx list \<Rightarrow> vad \<Rightarrow> bool \<Rightarrow> loop_out list" where
  "read_loop ext [] v announced = (if announced then [LSpeak False] else [])"
| "read_loop ext (x # xs) v announced =
     (if \<not> (rx_talk x \<or> rx_music x)
      then (if announced then LSpeak False # read_loop ext xs v False else read_loop ext xs v False)
      else
        (case (if ext then audioLevel (rx_level_ext x) else None) of
           None \<Rightarrow> LForward (rx_pkt x) # read_loop ext xs v announced
         | Some level \<Rightarrow>
             (case vad_Update level (rx_now x) v of
                (v1, speaking, _) \<Rightarrow>
                  (if speaking \<noteq> announced then [LSpeak speaking] else []) @
                  LForward (rx_pkt x) # read_loop ext xs v1 speaking)))"

text \<open>The whole loop: nothing when the slot is taken; otherwise the claim, its token and the outputs.\<close>

definition ReadLoop :: "client_id \<Rightarrow> slot \<Rightarrow> byte \<Rightarrow> rx list \<Rightarrow> router \<Rightarrow> router \<times> (nat \<times> loop_out list) option" where
  "ReadLoop c s extID xs r =
     (case claimSlot c s r of
        (r1, None) \<Rightarrow> (r1, None)
      | (r1, Some token) \<Rightarrow>
          (r1, Some (token, read_loop (s = SlotMic \<and> extID \<noteq> 0) xs \<lparr>vd_speaking = False, vd_lastVoice = None\<rparr> False)))"

text \<open>
  The video loop: the gate is asked once before the claim and again for every packet; the packets
  of \<open>xs\<close> carry its answers in \<open>rx_talk\<close>.
\<close>

definition ReadVideoLoop ::
  "client_id \<Rightarrow> slot \<Rightarrow> string \<Rightarrow> 32 word \<Rightarrow> bool \<Rightarrow> rx list \<Rightarrow> router \<Rightarrow> router \<times> (nat \<times> nat list) option" where
  "ReadVideoLoop c s rid ssrc allowed xs r =
     (if \<not> allowed then (r, None)
      else
        (case claimSlot c (s @ slotSep @ rid) r of
           (r1, None) \<Rightarrow> (r1, None)
         | (r1, Some token) \<Rightarrow> (registerVideoSource c s rid ssrc r1, Some (token, map rx_pkt (filter rx_talk xs)))))"

subsection \<open>The audience\<close>

text \<open>Whom a client means to reach: the targets of its active whisper, otherwise its channel.\<close>

definition whispering :: "client_id \<Rightarrow> router \<Rightarrow> bool" where
  "whispering c r = (case fmlookup (rt_whispers r) c of None \<Rightarrow> False | Some cfg \<Rightarrow> wh_active cfg)"

definition whisper_audience :: "client_id \<Rightarrow> router \<Rightarrow> client_id set" where
  "whisper_audience c r =
     (case fmlookup (rt_whispers r) c of
        None \<Rightarrow> {}
      | Some cfg \<Rightarrow> {x. x \<noteq> c \<and> (x |\<in>| wh_clients cfg \<or> (\<exists>ch. ch |\<in>| wh_channels cfg \<and> ChannelOf x r = Some ch))})"

definition channel_audience :: "client_id \<Rightarrow> router \<Rightarrow> client_id set" where
  "channel_audience c r =
     {x. \<exists>ch. ChannelOf c r = Some ch \<and> ChannelOf x r = Some ch \<and> (x \<noteq> c \<or> ch = rt_echoChannel r)}"

definition audience :: "client_id \<Rightarrow> router \<Rightarrow> client_id set" where
  "audience c r = (if whispering c r then whisper_audience c r else channel_audience c r)"

lemma ffUnion_iff: "x |\<in>| ffUnion (f |`| A) \<longleftrightarrow> (\<exists>a. a |\<in>| A \<and> x |\<in>| f a)"
  by (auto simp: ffUnion.rep_eq)

lemma whisperTargets_audience:
  assumes "membership_ok r" "fmlookup (rt_whispers r) c = Some cfg"
  shows "fset (whisperTargetsLocked c cfg r) = whisper_audience c r"
  using assms(2)
  by (auto simp: whisperTargetsLocked_def whisper_audience_def ChannelOf_def membershipD [OF assms(1)] ffUnion_iff)

lemma channel_targets:
  assumes "membership_ok r" "fmlookup (rt_clientChan r) c = Some ch"
  shows "set (filter (\<lambda>x. \<not> (x = c \<and> ch \<noteq> rt_echoChannel r)) (sorted_list_of_fset (fmset_get (rt_members r) ch))) = channel_audience c r"
  using assms(2) membershipD [OF assms(1)] by (auto simp: channel_audience_def ChannelOf_def)

text \<open>The code's target list is the audience.\<close>

lemma targets_audience:
  assumes "membership_ok r"
  shows "set (targetSubscribersLocked c r) = audience c r"
proof -
  have ch: "set (case fmlookup (rt_clientChan r) c of None \<Rightarrow> []
      | Some ch \<Rightarrow> filter (\<lambda>x. \<not> (x = c \<and> ch \<noteq> rt_echoChannel r)) (sorted_list_of_fset (fmset_get (rt_members r) ch))) = channel_audience c r"
  proof (cases "fmlookup (rt_clientChan r) c")
    case None
    then show ?thesis by (simp add: channel_audience_def ChannelOf_def)
  next
    case (Some k)
    with channel_targets [OF assms Some] show ?thesis by simp
  qed
  show ?thesis
  proof (cases "fmlookup (rt_whispers r) c")
    case None
    with ch show ?thesis by (simp add: targetSubscribersLocked_def audience_def whispering_def)
  next
    case (Some cfg)
    with ch whisperTargets_audience [OF assms Some] show ?thesis
      by (simp add: targetSubscribersLocked_def audience_def whispering_def)
  qed
qed

lemma track_writer_iff:
  "w \<in> set (track_writer k c s r x) \<longleftrightarrow>
     (\<exists>t ps. pair r x c = Some t \<and> fmlookup (pt_slots k t) s = Some ps \<and> w = WTrack x ps)"
  unfolding track_writer_def pair_def [symmetric]
  by (cases "pair r x c"; simp; cases "fmlookup (pt_slots k (the (pair r x c))) s"; simp)

lemma track_writer_sound:
  assumes "rt_inv r" "WTrack sub ps \<in> set (track_writer k c s r x)"
  shows "x = sub" "ps_track ps = slotTrackID c s" "ps_stream ps = slotStreamID c s" "fmlookup (rt_pubPeers r) sub = Some (ps_peer ps)"
    "slotKinds s = Some k"
proof -
  obtain t where t: "pair r sub c = Some t" "fmlookup (pt_slots k t) s = Some ps" and x: "x = sub"
    using assms(2) unfolding track_writer_iff by blast
  obtain pc where pc: "fmlookup (rt_pubPeers r) sub = Some pc" "track_ok c pc t" using pair_peer [OF assms(1) t(1)] by blast
  then have "slot_typed k c pc (pt_slots k t)" by (simp add: track_ok_alt)
  with t(2) have "slotKinds s = Some k" "ps = \<lparr>ps_track = slotTrackID c s, ps_stream = slotStreamID c s, ps_peer = pc\<rparr>"
    unfolding slot_typed_def by blast+
  with x pc show "x = sub" "ps_track ps = slotTrackID c s" "ps_stream ps = slotStreamID c s" "fmlookup (rt_pubPeers r) sub = Some (ps_peer ps)"
    "slotKinds s = Some k" by simp_all
qed

lemma tap_writer_sound:
  assumes "w \<in> set (tap_writers ord taps c r)" "fmlookup taps [] = None"
  shows "\<exists>t h ch. w = WTap t h \<and> fmlookup taps t = Some h \<and> ChannelOf c r = Some ch \<and> chan_or_zero t r = ch"
proof -
  let ?t = "senderTapID ord taps c r"
  obtain h where h: "fmlookup taps ?t = Some h" "w = WTap ?t h"
    using assms(1) by (cases "fmlookup taps ?t") (simp_all add: tap_writers_def Let_def)
  with assms(2) have "?t \<noteq> []" by auto
  then obtain ch where ch: "fmlookup (rt_clientChan r) c = Some ch" by (auto simp: senderTapID_def split: option.splits)
  obtain x xs where f: "filter (\<lambda>t. chan_or_zero t r = ch) (ord (fmdom taps)) = x # xs"
    using \<open>?t \<noteq> []\<close> ch by (cases "filter (\<lambda>t. chan_or_zero t r = ch) (ord (fmdom taps))") (auto simp: senderTapID_def)
  have "x \<in> set (filter (\<lambda>t. chan_or_zero t r = ch) (ord (fmdom taps)))" using f by simp
  then have "chan_or_zero x r = ch" by simp
  moreover have "?t = x" using ch f by (simp add: senderTapID_def)
  ultimately show ?thesis using h ch by (auto simp: ChannelOf_def)
qed

lemma no_track_in_taps: "WTrack sub ps \<notin> set (tap_writers ord taps c r)"
  by (auto simp: tap_writers_def Let_def split: option.splits)

lemma no_tap_in_tracks: "WTap t h \<notin> set (track_writer k c s r x)"
  by (auto simp: track_writer_def split: option.splits)


lemma writers_track:
  "WTrack sub ps \<in> set (audio_writers ord c s r) \<longleftrightarrow>
     sub \<in> set (targetSubscribersLocked c r) \<and> (\<exists>t. pair r sub c = Some t \<and> fmlookup (pt_slots KAudio t) s = Some ps)"
  "WTrack sub ps \<in> set (video_writers ord c s rid r) \<longleftrightarrow>
     sub \<in> set (targetSubscribersLocked c r) \<and> acceptLayerLocked sub c s rid r \<and>
     (\<exists>t. pair r sub c = Some t \<and> fmlookup (pt_slots KVideo t) s = Some ps)"
  using no_track_in_taps by (auto simp: audio_writers_def video_writers_def track_writer_iff)

lemma writers_tap:
  "WTap t h \<in> set (audio_writers ord c s r) \<longleftrightarrow> s = SlotMic \<and> WTap t h \<in> set (tap_writers ord (rt_outputs r) c r)"
  "WTap t h \<in> set (video_writers ord c s rid r) \<longleftrightarrow> s = SlotCam \<and> WTap t h \<in> set (tap_writers ord (rt_videoOutputs r) c r)"
  using no_tap_in_tracks by (auto simp: audio_writers_def video_writers_def)

lemma targets_distinct: "distinct (targetSubscribersLocked c r)"
  by (auto simp: targetSubscribersLocked_def sorted_list_of_fset.rep_eq split: option.splits)

lemma tap_in_channel:
  assumes "WTap t h \<in> set (tap_writers ord taps c r)" "fmlookup taps [] = None"
  shows "\<exists>ch. ChannelOf c r = Some ch \<and> chan_or_zero t r = ch"
  using tap_writer_sound [OF assms] by auto

lemma tracks_distinct: "distinct xs \<Longrightarrow> distinct (concat (map (track_writer k c s r) xs))"
proof (induction xs)
  case Nil
  then show ?case by simp
next
  case (Cons x xs)
  have "distinct (track_writer k c s r x)" by (auto simp: track_writer_def split: option.splits)
  with Cons show ?case by (auto simp: track_writer_iff)
qed

lemma audio_writers_distinct: "distinct (audio_writers ord c s r)"
proof -
  have "distinct (tap_writers ord taps c r)" for taps by (auto simp: tap_writers_def Let_def split: option.splits)
  then show ?thesis
    using tracks_distinct [OF targets_distinct, of KAudio c s r c r] no_track_in_taps
    by (auto simp: audio_writers_def track_writer_iff)
qed

subsection \<open>Properties\<close>

text \<open>C6: media reaches its audience only.  In every reachable state a packet of client \<open>c\<close> is written to an
  output track of a client only if that client is in the audience of \<open>c\<close> (the targets of its active
  whisper, otherwise the other members of its channel), on the track labelled with \<open>c\<close> and the
  slot and on the client's current peer; a recorder tap gets it only on the primary slot and only
  when the tap is registered in the sender's channel.\<close>

theorem media_only_to_audience:
  assumes "ops_ok rt_step rt_ok ops (NewRouter, {||})"
  defines "r \<equiv> fst (run_ops rt_step ops (NewRouter, {||}))"
  shows "(WTrack sub ps \<in> set (audio_writers ord c s r) \<union> set (video_writers ord c s rid r) \<longrightarrow>
       sub \<in> audience c r \<and> ps_track ps = slotTrackID c s \<and> ps_stream ps = slotStreamID c s \<and>
       fmlookup (rt_pubPeers r) sub = Some (ps_peer ps)) \<and>
     (WTap t h \<in> set (audio_writers ord c s r) \<longrightarrow> fmlookup (rt_outputs r) [] = None \<longrightarrow>
       s = SlotMic \<and> (\<exists>ch. ChannelOf c r = Some ch \<and> chan_or_zero t r = ch)) \<and>
     (WTap t h \<in> set (video_writers ord c s rid r) \<longrightarrow> fmlookup (rt_videoOutputs r) [] = None \<longrightarrow>
       s = SlotCam \<and> (\<exists>ch. ChannelOf c r = Some ch \<and> chan_or_zero t r = ch))"
proof -
  have inv: "rt_inv r" unfolding r_def using rt.run_start_inv [OF assms(1)] by simp
  then have tg: "set (targetSubscribersLocked c r) = audience c r" by (simp add: targets_audience rt_inv_def)
  have tr: "ps_track ps = slotTrackID c s \<and> ps_stream ps = slotStreamID c s \<and> fmlookup (rt_pubPeers r) sub = Some (ps_peer ps)"
    if "pair r sub c = Some u" "fmlookup (pt_slots k u) s = Some ps" for u k
  proof -
    have "WTrack sub ps \<in> set (track_writer k c s r sub)" unfolding track_writer_iff using that by blast
    note track_writer_sound [OF inv this]
    then show ?thesis by blast
  qed
  have "WTrack sub ps \<in> set (audio_writers ord c s r) \<union> set (video_writers ord c s rid r) \<longrightarrow> sub \<in> audience c r \<and>
      ps_track ps = slotTrackID c s \<and> ps_stream ps = slotStreamID c s \<and> fmlookup (rt_pubPeers r) sub = Some (ps_peer ps)"
    using tr [of _ KAudio] tr [of _ KVideo] tg unfolding Un_iff writers_track by blast
  then show ?thesis unfolding writers_tap using tap_in_channel by blast
qed

theorem media_only_to_audience_witness: "''b'' \<in> audience ''a'' (fst (run_ops rt_step demo_ops (NewRouter, {||})))"
proof -
  let ?ps = "\<lparr>ps_track = ''a'', ps_stream = ''noxa-a'', ps_peer = 11\<rparr>"
  have "WTrack ''b'' ?ps \<in> set (audio_writers sorted_list_of_fset ''a'' SlotMic (fst (run_ops rt_step demo_ops (NewRouter, {||}))))" by code_simp
  then show ?thesis using media_only_to_audience [OF demo_run(1), of "''b''" ?ps sorted_list_of_fset "''a''" SlotMic] by blast
qed

text \<open>Members of a channel hear each other.  When no output-track creation fails, in every reachable state a
  packet of a client that is not whispering is written exactly once to each other attached member
  of its channel, for the microphone and for every further audio slot the client has declared.\<close>

theorem channel_members_hear:
  assumes "ops_ok rt_step (\<lambda>p st. rt_ok p st \<and> no_fail_op p) ops (NewRouter, {||})"
    and "run_ops rt_step ops (NewRouter, {||}) = (r, att)"
    and "attached att r c" "attached att r sub" "sub \<noteq> c" "\<not> whispering c r"
    and "s \<in> set (publisherSlotsLocked c r)" "slotKinds s = Some KAudio"
  shows "distinct (audio_writers ord c s r) \<and>
     ((\<exists>!ps. WTrack sub ps \<in> set (audio_writers ord c s r)) \<longleftrightarrow> same_channel c sub r) \<and>
     (\<not> same_channel c sub r \<longrightarrow> (\<forall>ps. WTrack sub ps \<notin> set (audio_writers ord c s r)))"
proof -
  have full: "rt_full (r, att)" using rt_nofail.run_start_inv [OF assms(1)] assms(2) by simp
  then have inv: "rt_inv r" and cp: "complete_pairs r" and con: "connected att r" by (simp_all add: rt_full_def)
  have tg: "sub \<in> set (targetSubscribersLocked c r) \<longleftrightarrow> same_channel c sub r"
    using inv assms(5,6) by (auto simp: targets_audience rt_inv_def audience_def channel_audience_def ChannelOf_def same_channel_alt)
  have ex: "\<exists>t ps. pair r sub c = Some t \<and> fmlookup (pt_slots KAudio t) s = Some ps" if "same_channel c sub r"
  proof -
    have "same_channel sub c r" using that by (auto simp: same_channel_alt)
    then obtain t where t: "pair r sub c = Some t" using con assms(3-5) by (auto simp: connected_def)
    then have "has_slot t s" using cp assms(7) by (auto simp: complete_pairs_def)
    with t assms(8) show ?thesis by (auto simp: has_slot_def)
  qed
  show ?thesis using tg ex audio_writers_distinct by (auto simp: writers_track)
qed


theorem channel_members_hear_witness:
  "\<exists>!ps. WTrack ''b'' ps \<in> set (audio_writers sorted_list_of_fset ''a'' SlotMic (fst (run_ops rt_step demo_ops (NewRouter, {||}))))"
proof -
  let ?st = "run_ops rt_step demo_ops (NewRouter, {||})"
  have a: "?st = (fst ?st, snd ?st)" by simp
  have b: "attached (snd ?st) (fst ?st) ''a''" "attached (snd ?st) (fst ?st) ''b''" by code_simp+
  have c: "''b'' \<noteq> ''a''" "\<not> whispering ''a'' (fst ?st)" by (simp, code_simp)
  have d: "SlotMic \<in> set (publisherSlotsLocked ''a'' (fst ?st))" "slotKinds SlotMic = Some KAudio"
    by (simp_all add: publisherSlots_default slotKinds_def)
  have e: "same_channel ''a'' ''b'' (fst ?st)" by code_simp
  from channel_members_hear [OF demo_run(2) a b c d, of sorted_list_of_fset] e show ?thesis by blast
qed

end
