(* ===== verification/Voice_Media.thy ===== *)
theory Voice_Media
  imports Voice_Forwarding
begin

text \<open>
  What travels beside the routing table: track labels, slot claims over whole runs, the read loops'
  packet gate and speaking reports, simulcast layer selection and the spacing of keyframe requests
  (\<^verbatim>\<open>internal/webrtc/router.go\<close>).
\<close>

subsection \<open>Frames\<close>

text \<open>Slot epochs, keyframe times and layer preferences: only their own operations change them.\<close>

definition side :: "router \<Rightarrow> nat \<times> (32 word, time) fmap \<times> (client_id, string) fmap" where
  "side r = (rt_slotEpoch r, rt_keyframeLast r, rt_layerPrefs r)"

lemma side_rest: "rest a = rest b \<Longrightarrow> side a = side b"
  unfolding side_def by (frule restD(9), frule restD(12), drule restD(13)) simp

lemma side_leave [simp]: "side (leaveChannelLocked ch c r) = side r" "side (fst (leave_locked ch c r)) = side r"
proof -
  show a: "side (leaveChannelLocked ch c r) = side r" by (simp add: side_def leaveChannelLocked_def)
  show "side (fst (leave_locked ch c r)) = side r" using side_rest [OF leave_locked_rest [of ch c r]] a by simp
qed

lemma side_connect [simp]:
  "side (fst (add_pairs ok c xs r out)) = side r" "side (fst (echo_pair ok ch c r)) = side r" "side (fst (removePairsLocked ch c r)) = side r"
  by (rule side_rest, simp)+

lemma side_join [simp]: "side (fst (join_locked ok ch c r)) = side r"
proof -
  define r1 where "r1 = (case fmlookup (rt_clientChan r) c of
                  Some prev \<Rightarrow> if prev \<noteq> ch then fst (removePairsLocked prev c (leaveChannelLocked prev c r)) else r
                | None \<Rightarrow> r)"
  define r2 where "r2 = r1\<lparr>rt_members := fmset_add ch c (rt_members r1), rt_clientChan := fmupd c ch (rt_clientChan r1)\<rparr>"
  have "side r1 = side r" by (simp add: r1_def split: option.splits)
  then have "side r2 = side r" by (simp add: r2_def side_def)
  then show ?thesis unfolding join_locked_def Let_def r1_def [symmetric] r2_def [symmetric] by (simp add: case_prod_beta)
qed

lemma side_whisper [simp]: "side (fst (SetWhisper ok c clients channels act r)) = side r"
proof -
  have add: "side (fst (whisper_add ok c subs x ren)) = side x" for subs x ren
  proof (induction subs arbitrary: x ren)
    case Nil
    then show ?case by simp
  next
    case (Cons sub subs)
    obtain r1 b where ap: "addPublisherLocked ok sub c x = (r1, b)" by fastforce
    then have "side r1 = side x" using side_rest [OF addPublisher_rest [of ok sub c x]] by simp
    with ap Cons.IH show ?case by (cases b) (simp_all add: side_def)
  qed
  have del: "side (fst (whisper_remove c keep subs x ren)) = side x" for keep subs x ren
  proof (induction subs arbitrary: x ren)
    case Nil
    then show ?case by simp
  next
    case (Cons sub subs)
    define x1 where "x1 = x\<lparr>rt_whisperPairs := fmset_del c sub (rt_whisperPairs x)\<rparr>"
    have "side x1 = side x" by (simp add: x1_def side_def)
    moreover have "side (fst (removePublisherLocked sub c x1)) = side x1" by (rule side_rest) simp
    ultimately show ?case using Cons.IH by (simp add: Let_def x1_def [symmetric] case_prod_beta)
  qed
  have "side (r\<lparr>rt_whispers := w\<rparr>) = side r" for w by (simp add: side_def)
  with add del show ?thesis by (auto simp: SetWhisper_def Let_def case_prod_beta split: option.splits)
qed

lemma side_slots [simp]: "side (fst (SetTrackSlots ok p slots r)) = side r"
  by (simp add: SetTrackSlots_def Let_def side_def case_prod_beta)

lemma side_detach:
  "rt_slotEpoch (fst (detachPeer c leave r)) = rt_slotEpoch r" "rt_keyframeLast (fst (detachPeer c leave r)) = rt_keyframeLast r"
  "rt_layerPrefs (fst (detachPeer c leave r)) = fmdrop c (rt_layerPrefs r)"
proof -
  have "side (detached c leave r) = side (fst (detach_locked c leave r))"
    by (auto simp: detached_def case_prod_beta intro!: side_rest fold_remove_rest)
  also have "\<dots> = (rt_slotEpoch r, rt_keyframeLast r, fmdrop c (rt_layerPrefs r))" by (simp add: detach_locked_def Let_def side_def)
  finally have "side (fst (detachPeer c leave r)) = (rt_slotEpoch r, rt_keyframeLast r, fmdrop c (rt_layerPrefs r))"
    by (cases "fmlookup (rt_clientChan r) c"; cases leave) (simp_all add: detachPeer_fst)
  then show "rt_slotEpoch (fst (detachPeer c leave r)) = rt_slotEpoch r" "rt_keyframeLast (fst (detachPeer c leave r)) = rt_keyframeLast r"
    "rt_layerPrefs (fst (detachPeer c leave r)) = fmdrop c (rt_layerPrefs r)" by (simp_all add: side_def)
qed

subsection \<open>Keyframe requests\<close>

text \<open>The keyframe requests an operation sends, with the clock reading it used.\<close>

definition plis :: "router_out list \<Rightarrow> 32 word list" where
  "plis outs = concat (map (\<lambda>x. case x of PLI p ssrc \<Rightarrow> [ssrc] | Renegotiate c \<Rightarrow> []) outs)"

lemma plis_simps [simp]:
  "plis [] = []" "plis (PLI p x # outs) = x # plis outs" "plis (a @ b) = plis a @ plis b" "plis (hook_outs S) = []"
  "plis [Renegotiate c] = []" "plis (if g then u else v) = (if g then plis u else plis v)"
  by (auto simp: plis_def hook_outs_def o_def)

fun rt_plis :: "rt_op \<Rightarrow> rt_state \<Rightarrow> (time \<times> 32 word) list" where
  "rt_plis (RJoin ok ord now ch c) (r, att) = map (Pair now) (plis (snd (rt_JoinChannel ok ord now ch c r)))"
| "rt_plis (REnsure ok ord now c) (r, att) = map (Pair now) (plis (snd (EnsurePublishers ok ord now c r)))"
| "rt_plis (RQuality ord now c q) (r, att) =
     (case SetVideoQuality ord now c q r of None \<Rightarrow> [] | Some (_, outs) \<Rightarrow> map (Pair now) (plis outs))"
| "rt_plis (RKeyframe ord now p s rid) (r, att) = map (Pair now) (plis (snd (RequestKeyframe ord now p s rid r)))"
| "rt_plis (RRelay ord now ssrc) (r, att) = map (Pair now) (plis (snd (relayKeyframeRequest ord now ssrc r)))"
| "rt_plis _ _ = []"

fun pli_log :: "rt_op list \<Rightarrow> rt_state \<Rightarrow> (time \<times> 32 word) list" where
  "pli_log [] st = []"
| "pli_log (p # ps) st = rt_plis p st @ pli_log ps (rt_step p st)"

text \<open>Sources \<open>D\<close> were asked at time \<open>now\<close>: each was due, and the table records it.\<close>

definition due :: "(32 word, time) fmap \<Rightarrow> time \<times> 32 word \<Rightarrow> bool" where
  "due m e = (case fmlookup m (snd e) of None \<Rightarrow> True | Some t \<Rightarrow> fst e - t \<ge> keyframeRequestWindow)"

definition kf_step :: "time \<Rightarrow> (32 word, time) fmap \<Rightarrow> (32 word, time) fmap \<Rightarrow> 32 word list \<Rightarrow> bool" where
  "kf_step now m m' D \<longleftrightarrow> distinct D \<and> (\<forall>x \<in> set D. due m (now, x)) \<and> (\<forall>x. fmlookup m' x = (if x \<in> set D then Some now else fmlookup m x))"

lemma kf_step_refl [simp]: "kf_step now m m []"
  by (simp add: kf_step_def)

lemma kf_step_trans:
  assumes "kf_step now m m1 D" "kf_step now m1 m2 E"
  shows "kf_step now m m2 (D @ E)"
proof -
  have "x \<notin> set D" if "x \<in> set E" for x
  proof
    assume "x \<in> set D"
    then have "fmlookup m1 x = Some now" using assms(1) by (simp add: kf_step_def)
    moreover have "due m1 (now, x)" using assms(2) that by (simp add: kf_step_def)
    ultimately show False by (simp add: due_def keyframeRequestWindow_def)
  qed
  with assms show ?thesis by (auto simp: kf_step_def due_def)
qed

lemma allowKeyframe_kf:
  "kf_step now (rt_keyframeLast r) (rt_keyframeLast (fst (allowKeyframeRequest x now r))) (if snd (allowKeyframeRequest x now r) then [x] else [])"
proof -
  have "allowKeyframeRequest x now r =
      (if due (rt_keyframeLast r) (now, x) then (r\<lparr>rt_keyframeLast := fmupd x now (rt_keyframeLast r)\<rparr>, True) else (r, False))"
    unfolding allowKeyframeRequest_def due_def by (cases "fmlookup (rt_keyframeLast r) x") (simp_all add: not_le)
  then have "fst (allowKeyframeRequest x now r) =
      (if due (rt_keyframeLast r) (now, x) then r\<lparr>rt_keyframeLast := fmupd x now (rt_keyframeLast r)\<rparr> else r)"
    and "snd (allowKeyframeRequest x now r) = due (rt_keyframeLast r) (now, x)" by (auto split: if_split)
  then show ?thesis unfolding kf_step_def by (cases "due (rt_keyframeLast r) (now, x)") auto
qed

lemma RequestKeyframe_kf:
  "kf_step now (rt_keyframeLast r) (rt_keyframeLast (fst (RequestKeyframe ord now p s rid r))) (plis (snd (RequestKeyframe ord now p s rid r)))"
  using allowKeyframe_kf [of now r "keyframe_ssrc ord p s rid r"]
  by (auto simp: RequestKeyframe_def Let_def split: prod.splits bool.splits)

lemma relayKeyframe_kf:
  "kf_step now (rt_keyframeLast r) (rt_keyframeLast (fst (relayKeyframeRequest ord now x r))) (plis (snd (relayKeyframeRequest ord now x r)))"
  using allowKeyframe_kf [of now r x] by (auto simp: relayKeyframeRequest_def Let_def split: prod.splits bool.splits)

lemma request_keyframes_kf:
  "kf_step now (rt_keyframeLast r) (rt_keyframeLast (fst (request_keyframes ord now rid refs r))) (plis (snd (request_keyframes ord now rid refs r)))"
proof (induction refs arbitrary: r)
  case Nil
  then show ?case by simp
next
  case (Cons a refs)
  obtain p s where a: "a = (p, s)" by fastforce
  show ?case using kf_step_trans [OF RequestKeyframe_kf [of now r ord p s rid] Cons.IH] by (simp add: a case_prod_beta)
qed

lemma sideD: "side a = side b \<Longrightarrow> rt_keyframeLast a = rt_keyframeLast b"
  by (simp add: side_def)

lemma rt_step_kf:
  "\<exists>now D. rt_plis p st = map (Pair now) D \<and> kf_step now (rt_keyframeLast (fst st)) (rt_keyframeLast (fst (rt_step p st))) D"
proof -
  obtain r att where st: "st = (r, att)" by fastforce
  have still: ?thesis if "rt_plis p st = []" "rt_keyframeLast (fst (rt_step p st)) = rt_keyframeLast r"
    using that st by (intro exI [of _ 0] exI [of _ "[]"]) simp
  have quiet: "rt_keyframeLast (SetEchoChannel ch r) = rt_keyframeLast r" "rt_keyframeLast (AttachPeer c pc r) = rt_keyframeLast r"
    "rt_keyframeLast (AddOutput c pc r) = rt_keyframeLast r" "rt_keyframeLast (RemoveOutput c r) = rt_keyframeLast r"
    "rt_keyframeLast (addVideoOutput c pc r) = rt_keyframeLast r" "rt_keyframeLast (fst (claimSlot c key r)) = rt_keyframeLast r"
    "rt_keyframeLast (releaseSlot c key tok r) = rt_keyframeLast r" "rt_keyframeLast (registerVideoSource c s rid x r) = rt_keyframeLast r"
    "rt_keyframeLast (unregisterVideoSource c s rid x r) = rt_keyframeLast r" for ch c pc key tok s rid x
    by (simp_all add: AttachPeer_def SetEchoChannel_def AddOutput_def RemoveOutput_def addVideoOutput_def claimSlot_def releaseSlot_def
      registerVideoSource_def unregisterVideoSource_def Let_def split: option.splits)
  show ?thesis
  proof (cases p)
    case (RJoin ok ord now ch c)
    define r1 where "r1 = fst (join_locked ok ch c r)"
    have "rt_keyframeLast r1 = rt_keyframeLast r" unfolding r1_def by (rule sideD) simp
    then have "kf_step now (rt_keyframeLast r) (rt_keyframeLast (fst (rt_JoinChannel ok ord now ch c r))) (plis (snd (rt_JoinChannel ok ord now ch c r)))"
      using request_keyframes_kf [of now r1 ord "layerPrefLocked c r1" "videoPublishersLocked ch c r1"]
      by (simp add: rt_JoinChannel_def case_prod_beta r1_def)
    with RJoin st show ?thesis by auto
  next
    case (REnsure ok ord now c)
    have "kf_step now (rt_keyframeLast r) (rt_keyframeLast (fst (EnsurePublishers ok ord now c r))) (plis (snd (EnsurePublishers ok ord now c r)))"
    proof (cases "fmlookup (rt_clientChan r) c")
      case (Some ch)
      define r2 where "r2 = fst (echo_pair ok ch c (fst (add_pairs ok c (sorted_list_of_fset (fmset_get (rt_members r) ch)) r {||})))"
      have "rt_keyframeLast r2 = rt_keyframeLast r" unfolding r2_def by (rule sideD) simp
      with Some request_keyframes_kf [of now r2 ord "layerPrefLocked c r2" "videoPublishersLocked ch c r2"]
      show ?thesis by (simp add: EnsurePublishers_def Let_def case_prod_beta r2_def)
    qed (simp add: EnsurePublishers_def)
    with REnsure st show ?thesis by auto
  next
    case (RQuality ord now c q)
    show ?thesis
    proof (cases "SetVideoQuality ord now c q r")
      case None
      with RQuality st show ?thesis by (intro still) simp_all
    next
      case (Some res)
      then have "kf_step now (rt_keyframeLast r) (rt_keyframeLast (fst res)) (plis (snd res))"
        using request_keyframes_kf [of now "r\<lparr>rt_layerPrefs := fmupd c _ (rt_layerPrefs r)\<rparr>"]
        by (auto simp: SetVideoQuality_def Let_def split: option.splits)
      with Some RQuality st show ?thesis by (auto simp: case_prod_beta)
    qed
  next
    case (RKeyframe ord now p s rid)
    with st RequestKeyframe_kf [of now r ord p s rid] show ?thesis by auto
  next
    case (RRelay ord now x)
    with st relayKeyframe_kf [of now r ord x] show ?thesis by auto
  next
    case (RLeaveAll c)
    with st show ?thesis
      by (intro still) (auto simp: LeaveAll_def rt_LeaveChannel_def case_prod_beta intro: sideD split: option.splits)
  qed (use st in \<open>auto intro!: still simp: sideD [OF side_leave(2)] sideD [OF side_whisper] sideD [OF side_slots] side_detach rt_LeaveChannel_def case_prod_beta
      quiet\<close>)
qed


text \<open>Requests for one source are a window apart.\<close>

definition spaced :: "(time \<times> 32 word) list \<Rightarrow> bool" where
  "spaced es = sorted_wrt (\<lambda>a b. snd a = snd b \<longrightarrow> fst b - fst a \<ge> keyframeRequestWindow) es"

lemma spaced_batch:
  assumes "kf_step now m m' D" "spaced es" "\<And>e. e \<in> set es \<Longrightarrow> due m' e"
  shows "spaced (map (Pair now) D @ es)" "e \<in> set es \<Longrightarrow> due m e"
proof -
  have w: "0 \<le> keyframeRequestWindow" by (simp add: keyframeRequestWindow_def)
  have "sorted_wrt (\<lambda>a b. snd a = snd b \<longrightarrow> fst b - fst a \<ge> keyframeRequestWindow) (map (Pair now) D)"
  proof -
    have "distinct D" using assms(1) by (simp add: kf_step_def)
    then show ?thesis by (induction D) auto
  qed
  moreover have in_D: "fst e - now \<ge> keyframeRequestWindow" if "e \<in> set es" "snd e \<in> set D" for e
    using assms(1) assms(3) [OF that(1)] that(2) by (simp add: kf_step_def due_def)
  ultimately show "spaced (map (Pair now) D @ es)" using assms(2) unfolding spaced_def sorted_wrt_append by force
  assume e: "e \<in> set es"
  show "due m e"
  proof (cases "snd e \<in> set D")
    case True
    with in_D [OF e True] assms(1) w show ?thesis by (auto simp: kf_step_def due_def split: option.splits)
  next
    case False
    with assms(1) assms(3) [OF e] show ?thesis by (simp add: kf_step_def due_def)
  qed
qed

lemma pli_log_spaced: "spaced (pli_log ps st) \<and> (\<forall>e \<in> set (pli_log ps st). due (rt_keyframeLast (fst st)) e)"
proof (induction ps arbitrary: st)
  case Nil
  then show ?case by (simp add: spaced_def)
next
  case (Cons p ps)
  obtain now D where d: "rt_plis p st = map (Pair now) D" and k: "kf_step now (rt_keyframeLast (fst st)) (rt_keyframeLast (fst (rt_step p st))) D"
    using rt_step_kf by blast
  have ih: "spaced (pli_log ps (rt_step p st))" "\<And>e. e \<in> set (pli_log ps (rt_step p st)) \<Longrightarrow> due (rt_keyframeLast (fst (rt_step p st))) e"
    using Cons.IH by blast+
  note b = spaced_batch [OF k ih]
  have "due (rt_keyframeLast (fst st)) (now, x)" if "x \<in> set D" for x using k that by (simp add: kf_step_def)
  with b show ?case by (auto simp: d)
qed

subsection \<open>Slot claims over runs\<close>

lemma rt_step_epoch: "rt_slotEpoch (fst st) \<le> rt_slotEpoch (fst (rt_step p st))"
proof -
  obtain r att where st: "st = (r, att)" by fastforce
  have core: "core_eq a b \<Longrightarrow> rt_slotEpoch a = rt_slotEpoch b" for a b by (simp add: core_eq_def)
  have se: "side a = side b \<Longrightarrow> rt_slotEpoch a = rt_slotEpoch b" for a b by (simp add: side_def)
  have small: "rt_slotEpoch (AttachPeer c pc r) = rt_slotEpoch r" "rt_slotEpoch (SetEchoChannel ch r) = rt_slotEpoch r"
    "rt_slotEpoch (releaseSlot c key t r) = rt_slotEpoch r" "rt_slotEpoch r \<le> rt_slotEpoch (fst (claimSlot c key r))" for c pc ch key t
    by (simp_all add: AttachPeer_def SetEchoChannel_def releaseSlot_def claimSlot_def Let_def split: option.splits)
  show ?thesis
  proof (cases p)
    case (REnsure ok ord now c)
    with st core [OF EnsurePublishers_core [of ok ord now c r]] se [OF side_rest [OF connect_rest]] show ?thesis
      by (simp split: option.splits)
  next
    case (RQuality ord now c q)
    with st core [OF quiet_ops_core(6), of ord now c q r] show ?thesis by (auto split: option.splits)
  next
    case (RLeaveAll c)
    with st se [OF side_leave(2)] show ?thesis by (simp add: LeaveAll_def rt_LeaveChannel_def case_prod_beta split: option.splits)
  qed (use st in \<open>simp_all add: small core [OF JoinChannel_core] se [OF side_join] se [OF side_leave(2)] rt_LeaveChannel_def case_prod_beta
      side_detach se [OF side_whisper] se [OF side_slots] core [OF quiet_ops_core(1)] core [OF quiet_ops_core(2)] core [OF quiet_ops_core(3)]
      core [OF quiet_ops_core(4)] core [OF quiet_ops_core(5)] core [OF RequestKeyframe_core] core [OF relayKeyframe_core]\<close>)
qed

lemma run_epoch: "rt_slotEpoch (fst st) \<le> rt_slotEpoch (fst (run_ops rt_step ps st))"
proof (induction ps arbitrary: st)
  case Nil
  then show ?case by simp
next
  case (Cons p ps)
  from rt_step_epoch [of st p] Cons [of "rt_step p st"] show ?case by simp
qed

lemma claimSlot_cases:
  assumes "claimSlot c key r = (r', Some t)"
  shows "fmlookup (fm_inner (rt_slotClaims r) c) key = None" "t = rt_slotEpoch r + 1" "rt_slotEpoch r' = t"
    "fmlookup (fm_inner (rt_slotClaims r') c') key' = (if c' = c \<and> key' = key then Some t else fmlookup (fm_inner (rt_slotClaims r) c') key')"
  using assms by (auto simp: claimSlot_def Let_def split: if_splits)

lemma release_other:
  assumes "t \<noteq> t'" "fmlookup (fm_inner (rt_slotClaims r) c') k' = Some t'"
  shows "fmlookup (fm_inner (rt_slotClaims (releaseSlot c k t r)) c') k' = Some t'"
  using assms by (auto simp: releaseSlot_claims)


subsection \<open>Read loops\<close>

definition forwarded :: "loop_out list \<Rightarrow> nat list" where
  "forwarded outs = concat (map (\<lambda>x. case x of LForward n \<Rightarrow> [n] | LSpeak b \<Rightarrow> []) outs)"

definition reports :: "loop_out list \<Rightarrow> bool list" where
  "reports outs = concat (map (\<lambda>x. case x of LForward n \<Rightarrow> [] | LSpeak b \<Rightarrow> [b]) outs)"

text \<open>Reports alternate and end with silence; \<open>b\<close> is the last announced state.\<close>

fun alternates :: "bool \<Rightarrow> bool list \<Rightarrow> bool" where
  "alternates b [] = (\<not> b)"
| "alternates b (x # xs) = (x \<noteq> b \<and> alternates x xs)"

lemma outs_simps [simp]:
  "forwarded [] = []" "forwarded (LForward n # outs) = n # forwarded outs" "forwarded (LSpeak b # outs) = forwarded outs"
  "reports [] = []" "reports (LForward n # outs) = reports outs" "reports (LSpeak b # outs) = b # reports outs"
  by (simp_all add: forwarded_def reports_def)

lemma read_loop_forwards: "forwarded (read_loop ext xs v b) = map rx_pkt (filter (\<lambda>x. rx_talk x \<or> rx_music x) xs)"
proof (induction xs arbitrary: v b)
  case Nil
  then show ?case by simp
next
  case (Cons x xs)
  then show ?case by (cases ext; simp split: option.splits prod.splits)
qed

lemma read_loop_reports: "alternates b (reports (read_loop ext xs v b))"
proof (induction xs arbitrary: v b)
  case Nil
  then show ?case by simp
next
  case (Cons x xs)
  then show ?case by (cases ext; cases b; simp split: option.splits prod.splits)
qed

lemma read_loop_quiet: "reports (read_loop False xs v False) = []"
  by (induction xs) simp_all

subsection \<open>Simulcast layers\<close>

lemma first_layer_published: "first_layer src as = Some a \<Longrightarrow> fmlookup src a \<noteq> None"
  by (induction as) (auto split: if_splits)

lemma first_layer_None: "first_layer src as = None \<longleftrightarrow> (\<forall>a \<in> set as. fmlookup src a = None)"
  by (induction as) auto

lemma layerFallback_set: "set (layerFallback p) = {''f'', ''h'', ''q''}"
  by (auto simp: layerFallback_def)

lemma layerFallback_head: "p \<in> {''f'', ''h'', ''q''} \<Longrightarrow> \<exists>as. layerFallback p = p # as"
  by (auto simp: layerFallback_def)

definition prefs_ok :: "router \<Rightarrow> bool" where
  "prefs_ok r \<longleftrightarrow> (\<forall>c p. fmlookup (rt_layerPrefs r) c = Some p \<longrightarrow> p \<in> {''f'', ''h'', ''q''})"


lemma prefs_side: "side a = side b \<Longrightarrow> prefs_ok a = prefs_ok b"
  by (simp add: side_def prefs_ok_def)

lemma prefs_upd: "prefs_ok r \<Longrightarrow> rid \<in> {''f'', ''h'', ''q''} \<Longrightarrow> prefs_ok (r\<lparr>rt_layerPrefs := fmupd c rid (rt_layerPrefs r)\<rparr>)"
  by (auto simp: prefs_ok_def split: if_splits)

lemma request_keyframes_prefs: "rt_layerPrefs (fst (request_keyframes ord now rid refs r)) = rt_layerPrefs r"
proof (induction refs arbitrary: r)
  case Nil
  then show ?case by simp
next
  case (Cons a refs)
  obtain p s where a: "a = (p, s)" by fastforce
  have "rt_layerPrefs (fst (RequestKeyframe ord now p s rid r)) = rt_layerPrefs r"
    by (auto simp: RequestKeyframe_def allowKeyframeRequest_def Let_def split: option.splits prod.splits bool.splits if_splits)
  with Cons show ?case by (simp add: a case_prod_beta)
qed

lemma NewRouter_prefs: "prefs_ok NewRouter"
  by (simp add: prefs_ok_def NewRouter_def)

lemma rt_step_prefs:
  assumes "prefs_ok (fst st)"
  shows "prefs_ok (fst (rt_step p st))"
proof -
  obtain r att where st: "st = (r, att)" by fastforce
  have pk: "prefs_ok x" if "rt_layerPrefs x = rt_layerPrefs r" for x using assms st that by (simp add: prefs_ok_def)
  have rk: "prefs_ok (fst (request_keyframes ord now rid refs x))" if "prefs_ok x" for ord now rid refs x
    using that by (simp add: prefs_ok_def request_keyframes_prefs)
  have pr: "prefs_ok r" using assms st by simp
  have sp: "prefs_ok x" if "side x = side r" for x using prefs_side [OF that] pr by simp
  show ?thesis
  proof (cases p)
    case (RJoin ok ord now ch c)
    with st rk [OF sp [OF side_join]] show ?thesis by (simp add: rt_JoinChannel_def case_prod_beta)
  next
    case (REnsure ok ord now c)
    have "prefs_ok (fst (request_keyframes ord now rid refs (fst (echo_pair ok ch c (fst (add_pairs ok c xs r out))))))" for rid refs ch xs out
      by (rule rk, rule sp) simp
    with REnsure st pr show ?thesis by (simp add: EnsurePublishers_def Let_def case_prod_beta split: option.splits)
  next
    case (RQuality ord now c q)
    show ?thesis
    proof (cases "qualityToRID q")
      case None
      with RQuality st pr show ?thesis by (simp add: SetVideoQuality_def)
    next
      case (Some rid)
      then have "prefs_ok (r\<lparr>rt_layerPrefs := fmupd c rid (rt_layerPrefs r)\<rparr>)"
        by (intro prefs_upd pr) (auto simp: qualityToRID_def split: if_splits)
      then show ?thesis using RQuality st Some rk
        by (cases "fmlookup (rt_clientChan r) c") (simp_all add: SetVideoQuality_def Let_def case_prod_beta)
    qed
  next
    case (RDetach c leave)
    with st pr show ?thesis by (auto simp: prefs_ok_def side_detach split: if_splits)
  next
    case (RLeaveAll c)
    with st pr sp [OF side_leave(2)] show ?thesis by (simp add: LeaveAll_def rt_LeaveChannel_def case_prod_beta split: option.splits)
  next
    case (RLeave ch c)
    with st sp [OF side_leave(2)] show ?thesis by (simp add: rt_LeaveChannel_def case_prod_beta)
  next
    case (RWhisper ok c cl chs act)
    with st sp [OF side_whisper] show ?thesis by simp
  next
    case (RTrackSlots ok c slots)
    with st sp [OF side_slots] show ?thesis by simp
  qed (use st in \<open>auto intro!: pk simp: AttachPeer_def SetEchoChannel_def AddOutput_def RemoveOutput_def addVideoOutput_def claimSlot_def
      releaseSlot_def registerVideoSource_def unregisterVideoSource_def RequestKeyframe_def relayKeyframeRequest_def allowKeyframeRequest_def
      Let_def split: option.splits prod.splits bool.splits if_splits\<close>)
qed

interpretation prefs: invariant_system rt_step rt_ok "\<lambda>st. prefs_ok (fst st)" "(NewRouter, {||})"
  by unfold_locales (simp_all add: rt_step_prefs NewRouter_prefs)


subsection \<open>Properties\<close>

text \<open>C25: track labels identify their source.  For client ids without the separator character, the MSID track and
  stream ids of two (publisher, slot) pairs agree only if publisher and slot do.\<close>

theorem slot_labels_injective:
  assumes "CHR ''|'' \<notin> set p" "CHR ''|'' \<notin> set q"
  shows "(slotTrackID p s = slotTrackID q u \<longleftrightarrow> p = q \<and> s = u) \<and> (slotStreamID p s = slotStreamID q u \<longleftrightarrow> p = q \<and> s = u)"
proof -
  have split: "a @ ''|'' @ s = b @ ''|'' @ u \<longleftrightarrow> a = b \<and> s = u" if "CHR ''|'' \<notin> set a" "CHR ''|'' \<notin> set b" for a b :: string
    using that by (auto simp: append_eq_append_conv2 Cons_eq_append_conv append_eq_Cons_conv)
  have pub: "CHR ''|'' \<notin> set (publisherStreamID x)" if "CHR ''|'' \<notin> set x" for x using that by (simp add: publisherStreamID_def)
  have inj: "publisherStreamID p = publisherStreamID q \<longleftrightarrow> p = q" by (simp add: publisherStreamID_def)
  have mixed: "a \<noteq> b @ ''|'' @ w" if "CHR ''|'' \<notin> set a" for a b w :: string using that by auto
  note mx = mixed [OF assms(1), of q u] mixed [OF assms(2), of p s]
    mixed [OF pub [OF assms(1)], of "publisherStreamID q" u] mixed [OF pub [OF assms(2)], of "publisherStreamID p" s]
  show ?thesis
    unfolding slotTrackID_def slotStreamID_def slotSep_def
    using split [OF assms(1,2)] split [OF pub [OF assms(1)] pub [OF assms(2)]] inj mx mx [symmetric]
    by (cases "s = SlotMic"; cases "u = SlotMic") simp_all
qed

theorem slot_labels_injective_witness: "slotTrackID ''a'' SlotMic \<noteq> slotTrackID ''a'' SlotCam"
  using slot_labels_injective [of "''a''" "''a''" SlotMic SlotCam] by (simp add: SlotMic_def SlotCam_def)

text \<open>A slot has one read loop.  A claim is granted only on a free key, with a token no earlier claim of the
  run had, so the release of an earlier loop that ends late never frees the slot of the loop that
  replaced it.\<close>

theorem stale_release_harmless:
  assumes "ops_ok rt_step rt_ok ps (NewRouter, {||})"
    and "claimSlot c key (fst (run_ops rt_step ps (NewRouter, {||}))) = (r1, Some t1)"
    and "claimSlot c' key' (fst (run_ops rt_step qs (r1, att))) = (r2, Some t2)"
  shows "fmlookup (fm_inner (rt_slotClaims (fst (run_ops rt_step qs (r1, att)))) c') key' = None \<and>
    t1 \<noteq> t2 \<and> fmlookup (fm_inner (rt_slotClaims (releaseSlot c key t1 r2)) c') key' = Some t2"
proof -
  have "t1 = rt_slotEpoch r1" using claimSlot_cases(3) [OF assms(2)] by simp
  also have "\<dots> \<le> rt_slotEpoch (fst (run_ops rt_step qs (r1, att)))" using run_epoch [of "(r1, att)" qs] by simp
  also have "\<dots> < t2" using claimSlot_cases(2) [OF assms(3)] by simp
  finally have "t1 \<noteq> t2" by simp
  with claimSlot_cases(1,4) [OF assms(3)] release_other [of t1 t2 r2 c' key' c key] show ?thesis by simp
qed

theorem stale_release_harmless_witness:
  "let r1 = fst (claimSlot ''a'' SlotMic (fst (run_ops rt_step demo_ops (NewRouter, {||}))));
       r2 = fst (claimSlot ''a'' SlotMic (fst (run_ops rt_step [RDetach ''a'' False] (r1, {||}))))
   in fmlookup (fm_inner (rt_slotClaims (releaseSlot ''a'' SlotMic 1 r2)) ''a'') SlotMic = Some 2"
proof -
  define r1 where "r1 = fst (claimSlot ''a'' SlotMic (fst (run_ops rt_step demo_ops (NewRouter, {||}))))"
  define r2 where "r2 = fst (claimSlot ''a'' SlotMic (fst (run_ops rt_step [RDetach ''a'' False] (r1, {||}))))"
  have "snd (claimSlot ''a'' SlotMic (fst (run_ops rt_step demo_ops (NewRouter, {||})))) = Some 1" by code_simp
  then have a: "claimSlot ''a'' SlotMic (fst (run_ops rt_step demo_ops (NewRouter, {||}))) = (r1, Some 1)" by (simp add: r1_def prod_eq_iff)
  have "snd (claimSlot ''a'' SlotMic (fst (run_ops rt_step [RDetach ''a'' False] (r1, {||})))) = Some 2" unfolding r1_def by code_simp
  then have b: "claimSlot ''a'' SlotMic (fst (run_ops rt_step [RDetach ''a'' False] (r1, {||}))) = (r2, Some 2)" by (simp add: r2_def prod_eq_iff)
  from stale_release_harmless [OF demo_run(1) a b] show ?thesis by (simp add: Let_def r1_def r2_def)
qed

text \<open>The audio read loop.  It runs only when it gets the slot; then it forwards exactly the packets that pass
  the talk gate (or come from a music channel), in order; its speaking reports alternate, starting
  with speech and ending with silence; only the microphone slot reports at all.\<close>

theorem ReadLoop_gate_and_reports:
  "case ReadLoop c s extID xs r of
     (r', None) \<Rightarrow> r' = r \<and> fmlookup (fm_inner (rt_slotClaims r) c) s \<noteq> None
   | (r', Some (token, outs)) \<Rightarrow>
       fmlookup (fm_inner (rt_slotClaims r) c) s = None \<and> fmlookup (fm_inner (rt_slotClaims r') c) s = Some token \<and>
       forwarded outs = map rx_pkt (filter (\<lambda>x. rx_talk x \<or> rx_music x) xs) \<and>
       alternates False (reports outs) \<and> (reports outs = [] \<or> s = SlotMic \<and> extID \<noteq> 0)"
proof (cases "fmlookup (fm_inner (rt_slotClaims r) c) s")
  case None
  then show ?thesis
    using read_loop_forwards read_loop_reports read_loop_quiet
    by (cases "s = SlotMic \<and> extID \<noteq> 0") (auto simp: ReadLoop_def claimSlot_def Let_def)
next
  case (Some t)
  then show ?thesis by (simp add: ReadLoop_def claimSlot_def)
qed

text \<open>One simulcast layer per subscriber.  When a publisher sends a slot in simulcast layers, a subscriber
  accepts exactly one of the published layers: the one it asked for if that is published.\<close>

theorem one_layer_accepted:
  assumes "ops_ok rt_step rt_ok ops (NewRouter, {||})"
  defines "r \<equiv> fst (run_ops rt_step ops (NewRouter, {||}))"
  assumes "fmlookup (fm_inner (fm_inner (rt_videoSources r) pub) s) [] = None"
    and "\<exists>rid \<in> {''f'', ''h'', ''q''}. fmlookup (fm_inner (fm_inner (rt_videoSources r) pub) s) rid \<noteq> None"
  shows "(\<exists>!rid. acceptLayerLocked sub pub s rid r) \<and>
    (\<forall>rid. acceptLayerLocked sub pub s rid r \<longrightarrow> fmlookup (fm_inner (fm_inner (rt_videoSources r) pub) s) rid \<noteq> None) \<and>
    (fmlookup (fm_inner (fm_inner (rt_videoSources r) pub) s) (layerPrefLocked sub r) \<noteq> None \<longrightarrow>
      acceptLayerLocked sub pub s (layerPrefLocked sub r) r)"
proof -
  let ?src = "fm_inner (fm_inner (rt_videoSources r) pub) s"
  let ?fb = "layerFallback (layerPrefLocked sub r)"
  obtain x where x: "x \<in> {''f'', ''h'', ''q''}" "fmlookup ?src x \<noteq> None" using assms(4) by (rule bexE)
  then have ne: "?src \<noteq> fmempty" by auto
  have "x \<in> set ?fb" unfolding layerFallback_set by (rule x(1))
  then have "first_layer ?src ?fb \<noteq> None" using x(2) first_layer_None [of ?src ?fb] by metis
  then obtain a where a: "first_layer ?src ?fb = Some a" by auto
  then have acc: "acceptLayerLocked sub pub s rid r \<longleftrightarrow> rid = a" for rid using ne assms(3) by (simp add: acceptLayerLocked_def Let_def)
  have pub: "fmlookup ?src a \<noteq> None" by (rule first_layer_published [OF a])
  have "prefs_ok r" unfolding r_def using prefs.run_start_inv [OF assms(1)] by simp
  then have "layerPrefLocked sub r \<in> {''f'', ''h'', ''q''}" by (auto simp: prefs_ok_def layerPrefLocked_def split: option.splits)
  then obtain as where "?fb = layerPrefLocked sub r # as" using layerFallback_head by blast
  with a have "fmlookup ?src (layerPrefLocked sub r) \<noteq> None \<Longrightarrow> layerPrefLocked sub r = a" by (auto split: if_splits)
  then show ?thesis unfolding acc using pub by simp
qed

theorem one_layer_accepted_witness:
  "let r = fst (run_ops rt_step (demo_ops @ [RRegister ''b'' SlotCam ''q'' 7, RRegister ''b'' SlotCam ''f'' 8]) (NewRouter, {||}))
   in \<exists>!rid. acceptLayerLocked ''a'' ''b'' SlotCam rid r"
proof -
  let ?ops = "demo_ops @ [RRegister ''b'' SlotCam ''q'' 7, RRegister ''b'' SlotCam ''f'' 8]"
  let ?src = "fm_inner (fm_inner (rt_videoSources (fst (run_ops rt_step ?ops (NewRouter, {||})))) ''b'') SlotCam"
  have ok: "ops_ok rt_step rt_ok ?ops (NewRouter, {||})" by code_simp
  have n: "fmlookup ?src [] = None" by code_simp
  have "fmlookup ?src ''q'' \<noteq> None" by code_simp
  then have e: "\<exists>rid \<in> {''f'', ''h'', ''q''}. fmlookup ?src rid \<noteq> None" by blast
  show ?thesis using one_layer_accepted [OF ok n e, of "''a''"] by (simp add: Let_def)
qed

text \<open>Keyframe requests are coalesced.  Over any sequence of router operations, two keyframe requests sent for
  the same source are at least the request window (one second) apart.\<close>

theorem keyframe_requests_spaced: "spaced (pli_log ops (NewRouter, {||}))"
  using pli_log_spaced by blast


subsection \<open>Where the code and its comments differ\<close>

text \<open>
  \<open>WhisperTargets\<close> promises the clients an active whisper reaches right now.  A target that shares the
  whisperer's channel and moves away stays listed, but its output track went with the move and
  nothing recreates it: no packet reaches it until the whisper is set again.
\<close>

lemma whisper_lost_after_move:
  "let r = fst (run_ops rt_step (demo_ops @ [RWhisper all_ok ''a'' [''b''] [] True, RJoin all_ok no_order 0 2 ''b'']) (NewRouter, {||}))
   in ''b'' |\<in>| WhisperTargets ''a'' r \<and> audio_writers sorted_list_of_fset ''a'' SlotMic r = []"
  by code_simp

text \<open>
  Deactivating a whisper visits the old configuration's targets as they are then.  A client that left
  the whispered channel in between keeps the whisper-created track.
\<close>

lemma whisper_track_leaked:
  "let r = fst (run_ops rt_step (demo_ops @ [RJoin all_ok no_order 0 2 ''b'', RWhisper all_ok ''a'' [] [2] True,
        RJoin all_ok no_order 0 3 ''b'', RWhisper all_ok ''a'' [] [] False]) (NewRouter, {||}))
   in \<not> whispering ''a'' r \<and> \<not> same_channel ''b'' ''a'' r \<and> pair r ''b'' ''a'' \<noteq> None"
  by code_simp

text \<open>
  \<open>SetTrackSlots\<close> says that a track declared with an unknown slot name is dropped.  The declaration is
  ignored, so the track takes the default slot of its kind.
\<close>

lemma unknown_slot_lands_in_default:
  assumes "slotKinds s = None"
  shows "slotFor c t k (fst (SetTrackSlots ok c (fmupd t s slots) r)) = defaultSlot k"
proof -
  let ?d = "fmfilter (\<lambda>x. slotKinds (the (fmlookup (fmupd t s slots) x)) \<noteq> None) (fmupd t s slots)"
  have "fmlookup ?d t = None" using assms by simp
  moreover have "rt_trackSlots (fst (SetTrackSlots ok c (fmupd t s slots) r)) =
      (if ?d = fmempty then fmdrop c (rt_trackSlots r) else fmupd c ?d (rt_trackSlots r))"
    by (simp add: SetTrackSlots_def Let_def case_prod_beta)
  ultimately show ?thesis by (simp add: slotFor_def)
qed

text \<open>\<open>LeaveChannel\<close> calls itself a no-op for a client that is not a member; it still tears down a whisper's track.\<close>

lemma leave_by_stranger_drops_whisper:
  "let r = fst (run_ops rt_step (demo_ops @ [RJoin all_ok no_order 0 2 ''b'', RWhisper all_ok ''a'' [''b''] [] True]) (NewRouter, {||}))
   in ChannelOf ''a'' r = Some 1 \<and> pair r ''b'' ''a'' \<noteq> None \<and> pair (fst (rt_LeaveChannel 2 ''a'' r)) ''b'' ''a'' = None"
  by code_simp

text \<open>
  A client that moves with \<open>JoinChannel\<close> takes its tracks away from the members of its old channel, but
  they are not renegotiated; \<open>LeaveChannel\<close> does renegotiate them.
\<close>

lemma move_without_renegotiation:
  "let r = fst (run_ops rt_step demo_ops (NewRouter, {||}))
   in pair r ''a'' ''b'' \<noteq> None \<and> pair (fst (rt_JoinChannel all_ok no_order 0 2 ''b'' r)) ''a'' ''b'' = None \<and>
      snd (rt_JoinChannel all_ok no_order 0 2 ''b'' r) = [] \<and> snd (rt_LeaveChannel 1 ''b'' r) = [Renegotiate ''a'']"
  by code_simp

end
