(* ===== verification/Voice_Renegotiation.thy ===== *)
theory Voice_Renegotiation
  imports Noxa_Prelude
begin

text \<open>
  The signalling facade (\<^verbatim>\<open>internal/webrtc/voice.go\<close>): scheduling of server-initiated offers.

  A scheduling state is a heap object, since the code compares its pointer to notice a replaced
  session.  Every section under \<open>renegMu\<close> is one operation; a goroutine between two sections is a
  \<open>task\<close>, so that sections of different goroutines interleave freely.  An armed timer carries the
  arguments of its callback and its due time; \<open>Stop\<close> disarms it unless it has fired.  The peer
  connection is a parameter: \<open>VCreateOk\<close> and \<open>VCreateFail\<close> are the results of \<open>CreateOffer\<close>, and
  \<open>VAnswer\<close> is an answer the peer connection accepted.
\<close>

subsection \<open>State\<close>

record reneg_state =
  rn_timer :: "nat option"
  rn_generation :: nat
  rn_pending :: bool
  rn_lastSent :: "time option"
  rn_unanswered :: nat

definition newReneg :: reneg_state where
  "newReneg = \<lparr>rn_timer = None, rn_generation = 0, rn_pending = False, rn_lastSent = None, rn_unanswered = 0\<rparr>"

datatype task =
    TSched client_id nat nat time
  | TArmed client_id nat nat nat
  | TFire client_id nat nat
  | TCreate client_id nat
  | TDeliver client_id nat
  | TAnswer client_id "nat option"
  | TResched client_id nat

text \<open>What happened to a scheduling state, newest first: a ghost log the properties speak about.\<close>

datatype reneg_event =
    EvSchedule nat | EvOffer nat | EvSkip nat | EvFail nat | EvDeliver nat time | EvAnswer nat | EvStop nat

record voice =
  vc_reneg :: "(client_id, nat) fmap"
  vc_heap :: "(nat, reneg_state) fmap"
  vc_next :: nat
  vc_armed :: "(nat, client_id \<times> nat \<times> nat \<times> time) fmap"
  vc_nextTimer :: nat
  vc_tasks :: "task list"
  vc_peers :: "client_id fset"
  vc_debounce :: time
  vc_rateLimit :: time
  vc_log :: "reneg_event list"

definition defaultRenegDebounce :: time where "defaultRenegDebounce = 200000000"
definition defaultRenegRateLimit :: time where "defaultRenegRateLimit = 2000000000"

definition NewVoice :: voice where
  "NewVoice = \<lparr>vc_reneg = fmempty, vc_heap = fmempty, vc_next = 0, vc_armed = fmempty, vc_nextTimer = 0, vc_tasks = [],
     vc_peers = {||}, vc_debounce = defaultRenegDebounce, vc_rateLimit = defaultRenegRateLimit, vc_log = []\<rparr>"

definition reneg_at :: "voice \<Rightarrow> nat \<Rightarrow> reneg_state" where
  "reneg_at v p = (case fmlookup (vc_heap v) p of None \<Rightarrow> newReneg | Some st \<Rightarrow> st)"

definition set_reneg :: "nat \<Rightarrow> reneg_state \<Rightarrow> voice \<Rightarrow> voice" where
  "set_reneg p st v = v\<lparr>vc_heap := fmupd p st (vc_heap v)\<rparr>"

definition stop_timer :: "nat option \<Rightarrow> voice \<Rightarrow> voice" where
  "stop_timer t v = (case t of None \<Rightarrow> v | Some tid \<Rightarrow> v\<lparr>vc_armed := fmdrop tid (vc_armed v)\<rparr>)"

definition spawn :: "task \<Rightarrow> voice \<Rightarrow> voice" where
  "spawn t v = v\<lparr>vc_tasks := t # vc_tasks v\<rparr>"

definition note_event :: "reneg_event \<Rightarrow> voice \<Rightarrow> voice" where
  "note_event e v = v\<lparr>vc_log := e # vc_log v\<rparr>"

subsection \<open>Operations\<close>

definition renegScheduleConfigLocked :: "voice \<Rightarrow> time \<times> time" where
  "renegScheduleConfigLocked v =
     (if vc_debounce v \<le> 0 then defaultRenegDebounce else vc_debounce v,
      if vc_rateLimit v \<le> 0 then defaultRenegRateLimit else vc_rateLimit v)"

definition reneg_delay :: "voice \<Rightarrow> time \<Rightarrow> reneg_state \<Rightarrow> time" where
  "reneg_delay v now st =
     (case renegScheduleConfigLocked v of
        (debounce, rateLimit) \<Rightarrow>
          (case rn_lastSent st of
             None \<Rightarrow> debounce
           | Some t \<Rightarrow> if now - t < rateLimit then rateLimit - (now - t) else debounce))"

definition reneg_alloc :: "client_id \<Rightarrow> voice \<Rightarrow> nat \<times> voice" where
  "reneg_alloc c v =
     (case fmlookup (vc_reneg v) c of
        Some p \<Rightarrow> (p, v)
      | None \<Rightarrow>
          (vc_next v,
           (set_reneg (vc_next v) newReneg v)\<lparr>vc_next := vc_next v + 1, vc_reneg := fmupd c (vc_next v) (vc_reneg v)\<rparr>))"

text \<open>The first section of \<open>scheduleRenegotiateForState\<close>.\<close>

definition schedule_locked :: "client_id \<Rightarrow> nat option \<Rightarrow> time \<Rightarrow> voice \<Rightarrow> voice" where
  "schedule_locked c expected now v =
     (if expected \<noteq> None \<and> fmlookup (vc_reneg v) c \<noteq> expected then v
      else
        (case reneg_alloc c v of
           (p, v1) \<Rightarrow>
             let st = reneg_at v1 p;
                 v2 = stop_timer (rn_timer st) v1;
                 g = rn_generation st + 1
             in note_event (EvSchedule p)
                  (spawn (TSched c p g (reneg_delay v2 now st))
                    (set_reneg p (st\<lparr>rn_timer := None, rn_generation := g, rn_pending := True\<rparr>) v2))))"

definition after_func :: "client_id \<Rightarrow> nat \<Rightarrow> nat \<Rightarrow> time \<Rightarrow> time \<Rightarrow> voice \<Rightarrow> voice" where
  "after_func c p g delay now v =
     spawn (TArmed c p g (vc_nextTimer v))
       (v\<lparr>vc_armed := fmupd (vc_nextTimer v) (c, p, g, now + delay) (vc_armed v), vc_nextTimer := vc_nextTimer v + 1\<rparr>)"

text \<open>The second section: keep the timer or stop it.\<close>

definition schedule_commit :: "client_id \<Rightarrow> nat \<Rightarrow> nat \<Rightarrow> nat \<Rightarrow> voice \<Rightarrow> voice" where
  "schedule_commit c p g tid v =
     (let st = reneg_at v p
      in if fmlookup (vc_reneg v) c = Some p \<and> rn_generation st = g \<and> rn_pending st
         then set_reneg p (st\<lparr>rn_timer := Some tid\<rparr>) v
         else stop_timer (Some tid) v)"

definition send_locked :: "client_id \<Rightarrow> nat \<Rightarrow> nat \<Rightarrow> voice \<Rightarrow> voice" where
  "send_locked c p g v =
     (let st = reneg_at v p; st1 = st\<lparr>rn_timer := None\<rparr>
      in if fmlookup (vc_reneg v) c \<noteq> Some p \<or> rn_generation st \<noteq> g \<or> \<not> rn_pending st then v
         else if rn_unanswered st > 0 then set_reneg p st1 v
         else if c |\<notin>| vc_peers v then note_event (EvSkip p) (set_reneg p (st1\<lparr>rn_pending := False\<rparr>) v)
         else note_event (EvOffer p) (spawn (TCreate c p) (set_reneg p (st1\<lparr>rn_pending := False, rn_unanswered := 1\<rparr>) v)))"

definition create_failed :: "client_id \<Rightarrow> nat \<Rightarrow> voice \<Rightarrow> voice" where
  "create_failed c p v =
     (if fmlookup (vc_reneg v) c = Some p then note_event (EvFail p) (set_reneg p (reneg_at v p\<lparr>rn_unanswered := 0\<rparr>) v) else v)"

definition deliver_locked :: "client_id \<Rightarrow> nat \<Rightarrow> time \<Rightarrow> voice \<Rightarrow> voice" where
  "deliver_locked c p now v =
     (if fmlookup (vc_reneg v) c = Some p then note_event (EvDeliver p now) (set_reneg p (reneg_at v p\<lparr>rn_lastSent := Some now\<rparr>) v) else v)"

definition answer_commit :: "client_id \<Rightarrow> nat option \<Rightarrow> voice \<Rightarrow> voice" where
  "answer_commit c cur v =
     (case cur of
        None \<Rightarrow> v
      | Some p \<Rightarrow>
          if fmlookup (vc_reneg v) c \<noteq> Some p then v
          else
            let st = reneg_at v p; v1 = note_event (EvAnswer p) (set_reneg p (st\<lparr>rn_unanswered := 0\<rparr>) v)
            in if rn_pending st then spawn (TResched c p) v1 else v1)"

definition stopReneg :: "client_id \<Rightarrow> voice \<Rightarrow> voice" where
  "stopReneg c v =
     (case fmlookup (vc_reneg v) c of
        None \<Rightarrow> v
      | Some p \<Rightarrow> note_event (EvStop p) ((stop_timer (rn_timer (reneg_at v p)) v)\<lparr>vc_reneg := fmdrop c (vc_reneg v)\<rparr>))"

text \<open>Operations of the whole: calls of the facade, timers, and the next section of a running goroutine.\<close>

datatype voice_op =
    VChange client_id time
  | VAfterFunc client_id nat nat time time
  | VCommit client_id nat nat nat
  | VFire nat time
  | VSend client_id nat nat
  | VCreateOk client_id nat
  | VCreateFail client_id nat
  | VDeliver client_id nat time
  | VAnswer client_id
  | VAnswerCommit client_id "nat option"
  | VResched client_id nat time
  | VStop client_id
  | VPeer client_id bool

definition on_task :: "task \<Rightarrow> (voice \<Rightarrow> voice) \<Rightarrow> voice \<Rightarrow> voice" where
  "on_task t f v = (if t \<in> set (vc_tasks v) then f (v\<lparr>vc_tasks := remove1 t (vc_tasks v)\<rparr>) else v)"

fun voice_step :: "voice_op \<Rightarrow> voice \<Rightarrow> voice" where
  "voice_step (VChange c now) v = schedule_locked c None now v"
| "voice_step (VAfterFunc c p g d now) v = on_task (TSched c p g d) (after_func c p g d now) v"
| "voice_step (VCommit c p g tid) v = on_task (TArmed c p g tid) (schedule_commit c p g tid) v"
| "voice_step (VFire tid now) v =
     (case fmlookup (vc_armed v) tid of
        None \<Rightarrow> v
      | Some (c, p, g, at) \<Rightarrow> if at \<le> now then spawn (TFire c p g) (v\<lparr>vc_armed := fmdrop tid (vc_armed v)\<rparr>) else v)"
| "voice_step (VSend c p g) v = on_task (TFire c p g) (send_locked c p g) v"
| "voice_step (VCreateOk c p) v = on_task (TCreate c p) (spawn (TDeliver c p)) v"
| "voice_step (VCreateFail c p) v = on_task (TCreate c p) (create_failed c p) v"
| "voice_step (VDeliver c p now) v = on_task (TDeliver c p) (deliver_locked c p now) v"
| "voice_step (VAnswer c) v = (if c |\<in>| vc_peers v then spawn (TAnswer c (fmlookup (vc_reneg v) c)) v else v)"
| "voice_step (VAnswerCommit c cur) v = on_task (TAnswer c cur) (answer_commit c cur) v"
| "voice_step (VResched c p now) v = on_task (TResched c p) (schedule_locked c (Some p) now) v"
| "voice_step (VStop c) v = stopReneg c v"
| "voice_step (VPeer c b) v = v\<lparr>vc_peers := (if b then finsert c else (\<lambda>s. s |-| {|c|})) (vc_peers v)\<rparr>"


subsection \<open>Invariant\<close>

text \<open>Reading the log of one state, newest event first.\<close>

fun open_offer :: "nat \<Rightarrow> reneg_event list \<Rightarrow> bool" where
  "open_offer p [] = False"
| "open_offer p (EvOffer q # l) = (p = q \<or> open_offer p l)"
| "open_offer p (EvFail q # l) = (p \<noteq> q \<and> open_offer p l)"
| "open_offer p (EvAnswer q # l) = (p \<noteq> q \<and> open_offer p l)"
| "open_offer p (_ # l) = open_offer p l"

fun due_change :: "nat \<Rightarrow> reneg_event list \<Rightarrow> bool" where
  "due_change p [] = False"
| "due_change p (EvSchedule q # l) = (p = q \<or> due_change p l)"
| "due_change p (EvOffer q # l) = (p \<noteq> q \<and> due_change p l)"
| "due_change p (EvSkip q # l) = (p \<noteq> q \<and> due_change p l)"
| "due_change p (_ # l) = due_change p l"

text \<open>An offer is made only with the previous one answered (or not created), and never for a stopped state.\<close>

fun offers_ok :: "reneg_event list \<Rightarrow> bool" where
  "offers_ok [] = True"
| "offers_ok (EvOffer p # l) = (\<not> open_offer p l \<and> EvStop p \<notin> set l \<and> offers_ok l)"
| "offers_ok (EvDeliver p t # l) = (EvOffer p \<in> set l \<and> EvStop p \<notin> set l \<and> offers_ok l)"
| "offers_ok (_ # l) = offers_ok l"

fun ev_state :: "reneg_event \<Rightarrow> nat" where
  "ev_state (EvSchedule p) = p" | "ev_state (EvOffer p) = p" | "ev_state (EvSkip p) = p" | "ev_state (EvFail p) = p"
| "ev_state (EvDeliver p t) = p" | "ev_state (EvAnswer p) = p" | "ev_state (EvStop p) = p"

fun task_states :: "task \<Rightarrow> nat set" where
  "task_states (TSched c p g d) = {p}" | "task_states (TArmed c p g t) = {p}" | "task_states (TFire c p g) = {p}"
| "task_states (TCreate c p) = {p}" | "task_states (TDeliver c p) = {p}" | "task_states (TAnswer c cur) = set_option cur"
| "task_states (TResched c p) = {p}"

text \<open>Pointers are fresh and owned by one client; a timer belongs to the state and task that know it.\<close>

definition ptrs_ok :: "voice \<Rightarrow> bool" where
  "ptrs_ok v \<longleftrightarrow>
     (\<forall>c p. fmlookup (vc_reneg v) c = Some p \<longrightarrow> p < vc_next v \<and> (\<forall>c'. fmlookup (vc_reneg v) c' = Some p \<longrightarrow> c' = c)) \<and>
     (\<forall>t \<in> set (vc_tasks v). \<forall>p \<in> task_states t. p < vc_next v) \<and>
     (\<forall>e \<in> set (vc_log v). ev_state e < vc_next v) \<and>
     (\<forall>p. p \<ge> vc_next v \<longrightarrow> fmlookup (vc_heap v) p = None)"

definition timers_ok :: "voice \<Rightarrow> bool" where
  "timers_ok v \<longleftrightarrow>
     (\<forall>t x. fmlookup (vc_armed v) t = Some x \<longrightarrow> t < vc_nextTimer v) \<and>
     (\<forall>t c p g d. fmlookup (vc_armed v) t = Some (c, p, g, d) \<longrightarrow> p < vc_next v) \<and>
     (\<forall>p t. rn_timer (reneg_at v p) = Some t \<longrightarrow> t < vc_nextTimer v) \<and>
     (\<forall>p t c q g d. rn_timer (reneg_at v p) = Some t \<longrightarrow> fmlookup (vc_armed v) t = Some (c, q, g, d) \<longrightarrow> q = p) \<and>
     (\<forall>c p g t. TArmed c p g t \<in> set (vc_tasks v) \<longrightarrow> t < vc_nextTimer v) \<and>
     (\<forall>c p g t c' q g' d. TArmed c p g t \<in> set (vc_tasks v) \<longrightarrow> fmlookup (vc_armed v) t = Some (c', q, g', d) \<longrightarrow> (c', q, g') = (c, p, g))"

definition log_ok :: "voice \<Rightarrow> bool" where
  "log_ok v \<longleftrightarrow>
     (\<forall>p. rn_unanswered (reneg_at v p) = (if open_offer p (vc_log v) then 1 else 0)) \<and>
     (\<forall>p. rn_pending (reneg_at v p) = due_change p (vc_log v)) \<and>
     (\<forall>c p. fmlookup (vc_reneg v) c = Some p \<longrightarrow> EvStop p \<notin> set (vc_log v)) \<and>
     (\<forall>c p. TCreate c p \<in> set (vc_tasks v) \<or> TDeliver c p \<in> set (vc_tasks v) \<longrightarrow> EvOffer p \<in> set (vc_log v)) \<and>
     offers_ok (vc_log v)"

text \<open>Somebody still has to act on the pending change of the current state \<open>p\<close> of \<open>c\<close>.\<close>

definition in_work :: "client_id \<Rightarrow> nat \<Rightarrow> voice \<Rightarrow> bool" where
  "in_work c p v \<longleftrightarrow>
     (let g = rn_generation (reneg_at v p)
      in (\<exists>d. TSched c p g d \<in> set (vc_tasks v)) \<or> (\<exists>t d. fmlookup (vc_armed v) t = Some (c, p, g, d)) \<or>
         TFire c p g \<in> set (vc_tasks v) \<or> TResched c p \<in> set (vc_tasks v))"

definition retained :: "voice \<Rightarrow> bool" where
  "retained v \<longleftrightarrow>
     (\<forall>c p. fmlookup (vc_reneg v) c = Some p \<longrightarrow> EvFail p \<notin> set (vc_log v) \<longrightarrow> rn_pending (reneg_at v p) \<longrightarrow>
        rn_unanswered (reneg_at v p) > 0 \<or> in_work c p v)"

definition voice_inv :: "voice \<Rightarrow> bool" where
  "voice_inv v \<longleftrightarrow> ptrs_ok v \<and> timers_ok v \<and> log_ok v \<and> retained v"

named_theorems voice_simps \<open>fields after the elementary updates of the scheduler\<close>

lemma voice_fields [voice_simps]:
  "vc_reneg (set_reneg p st v) = vc_reneg v" "vc_next (set_reneg p st v) = vc_next v" "vc_armed (set_reneg p st v) = vc_armed v"
  "vc_nextTimer (set_reneg p st v) = vc_nextTimer v" "vc_tasks (set_reneg p st v) = vc_tasks v" "vc_log (set_reneg p st v) = vc_log v"
  "vc_heap (set_reneg p st v) = fmupd p st (vc_heap v)" "vc_peers (set_reneg p st v) = vc_peers v"
  "vc_reneg (spawn t v) = vc_reneg v" "vc_next (spawn t v) = vc_next v" "vc_armed (spawn t v) = vc_armed v"
  "vc_nextTimer (spawn t v) = vc_nextTimer v" "vc_tasks (spawn t v) = t # vc_tasks v" "vc_log (spawn t v) = vc_log v"
  "vc_heap (spawn t v) = vc_heap v" "vc_peers (spawn t v) = vc_peers v"
  "vc_reneg (note_event e v) = vc_reneg v" "vc_next (note_event e v) = vc_next v" "vc_armed (note_event e v) = vc_armed v"
  "vc_nextTimer (note_event e v) = vc_nextTimer v" "vc_tasks (note_event e v) = vc_tasks v" "vc_log (note_event e v) = e # vc_log v"
  "vc_heap (note_event e v) = vc_heap v" "vc_peers (note_event e v) = vc_peers v"
  "vc_reneg (stop_timer x v) = vc_reneg v" "vc_next (stop_timer x v) = vc_next v" "vc_nextTimer (stop_timer x v) = vc_nextTimer v"
  "vc_tasks (stop_timer x v) = vc_tasks v" "vc_log (stop_timer x v) = vc_log v" "vc_heap (stop_timer x v) = vc_heap v"
  "vc_peers (stop_timer x v) = vc_peers v"
  "fmlookup (vc_armed (stop_timer x v)) tid = (if x = Some tid then None else fmlookup (vc_armed v) tid)"
  by (auto simp: set_reneg_def spawn_def note_event_def stop_timer_def split: option.splits)

lemma reneg_at_simps [voice_simps]:
  "reneg_at (set_reneg p st v) q = (if q = p then st else reneg_at v q)" "reneg_at (spawn t v) q = reneg_at v q"
  "reneg_at (note_event e v) q = reneg_at v q" "reneg_at (stop_timer x v) q = reneg_at v q"
  "reneg_at (v\<lparr>vc_tasks := ts\<rparr>) q = reneg_at v q" "reneg_at (v\<lparr>vc_reneg := m\<rparr>) q = reneg_at v q"
  "reneg_at (v\<lparr>vc_armed := a\<rparr>) q = reneg_at v q" "reneg_at (v\<lparr>vc_nextTimer := n\<rparr>) q = reneg_at v q"
  "reneg_at (v\<lparr>vc_next := k\<rparr>) q = reneg_at v q" "reneg_at (v\<lparr>vc_peers := s\<rparr>) q = reneg_at v q"
  by (simp_all add: reneg_at_def voice_fields)

lemma open_offer_fresh: "\<forall>e \<in> set l. ev_state e \<noteq> p \<Longrightarrow> \<not> open_offer p l \<and> \<not> due_change p l \<and> EvStop p \<notin> set l"
  by (induction p l rule: open_offer.induct) auto


lemma ptrs_okI:
  assumes "\<And>c p. fmlookup (vc_reneg v) c = Some p \<Longrightarrow> p < vc_next v"
    "\<And>c c' p. fmlookup (vc_reneg v) c = Some p \<Longrightarrow> fmlookup (vc_reneg v) c' = Some p \<Longrightarrow> c' = c"
    "\<And>t p. t \<in> set (vc_tasks v) \<Longrightarrow> p \<in> task_states t \<Longrightarrow> p < vc_next v"
    "\<And>e. e \<in> set (vc_log v) \<Longrightarrow> ev_state e < vc_next v" "\<And>p. p \<ge> vc_next v \<Longrightarrow> fmlookup (vc_heap v) p = None"
  shows "ptrs_ok v"
  unfolding ptrs_ok_def using assms by blast

lemma ptrs_okD:
  assumes "ptrs_ok v"
  shows "fmlookup (vc_reneg v) c = Some p \<Longrightarrow> p < vc_next v"
    "fmlookup (vc_reneg v) c = Some p \<Longrightarrow> fmlookup (vc_reneg v) c' = Some p \<Longrightarrow> c' = c"
    "t \<in> set (vc_tasks v) \<Longrightarrow> p \<in> task_states t \<Longrightarrow> p < vc_next v"
    "e \<in> set (vc_log v) \<Longrightarrow> ev_state e < vc_next v" "p \<ge> vc_next v \<Longrightarrow> fmlookup (vc_heap v) p = None"
  using assms unfolding ptrs_ok_def by blast+

lemma timers_okI:
  assumes "\<And>t x. fmlookup (vc_armed v) t = Some x \<Longrightarrow> t < vc_nextTimer v"
    "\<And>t c p g d. fmlookup (vc_armed v) t = Some (c, p, g, d) \<Longrightarrow> p < vc_next v"
    "\<And>p t. rn_timer (reneg_at v p) = Some t \<Longrightarrow> t < vc_nextTimer v"
    "\<And>p t c q g d. rn_timer (reneg_at v p) = Some t \<Longrightarrow> fmlookup (vc_armed v) t = Some (c, q, g, d) \<Longrightarrow> q = p"
    "\<And>c p g t. TArmed c p g t \<in> set (vc_tasks v) \<Longrightarrow> t < vc_nextTimer v"
    "\<And>c p g t c' q g' d. TArmed c p g t \<in> set (vc_tasks v) \<Longrightarrow> fmlookup (vc_armed v) t = Some (c', q, g', d) \<Longrightarrow> (c', q, g') = (c, p, g)"
  shows "timers_ok v"
  unfolding timers_ok_def by (iprover intro: assms)

lemma timers_okD:
  assumes "timers_ok v"
  shows "fmlookup (vc_armed v) t = Some x \<Longrightarrow> t < vc_nextTimer v"
    "fmlookup (vc_armed v) t = Some (c, p, g, d) \<Longrightarrow> p < vc_next v"
    "rn_timer (reneg_at v p) = Some t \<Longrightarrow> t < vc_nextTimer v"
    "rn_timer (reneg_at v p) = Some t \<Longrightarrow> fmlookup (vc_armed v) t = Some (c, q, g, d) \<Longrightarrow> q = p"
    "TArmed c p g t \<in> set (vc_tasks v) \<Longrightarrow> t < vc_nextTimer v"
    "TArmed c p g t \<in> set (vc_tasks v) \<Longrightarrow> fmlookup (vc_armed v) t = Some (c', q, g', d) \<Longrightarrow> (c', q, g') = (c, p, g)"
proof -
  note h1 = assms [unfolded timers_ok_def] note h2 = conjunct2 [OF h1] note h3 = conjunct2 [OF h2]
  note h4 = conjunct2 [OF h3] note h5 = conjunct2 [OF h4]
  show "fmlookup (vc_armed v) t = Some x \<Longrightarrow> t < vc_nextTimer v" using conjunct1 [OF h1] by blast
  show "fmlookup (vc_armed v) t = Some (c, p, g, d) \<Longrightarrow> p < vc_next v" using conjunct1 [OF h2] by blast
  show "rn_timer (reneg_at v p) = Some t \<Longrightarrow> t < vc_nextTimer v" using conjunct1 [OF h3] by blast
  show "rn_timer (reneg_at v p) = Some t \<Longrightarrow> fmlookup (vc_armed v) t = Some (c, q, g, d) \<Longrightarrow> q = p" using conjunct1 [OF h4] by blast
  show "TArmed c p g t \<in> set (vc_tasks v) \<Longrightarrow> t < vc_nextTimer v" using conjunct1 [OF h5] by blast
  show "TArmed c p g t \<in> set (vc_tasks v) \<Longrightarrow> fmlookup (vc_armed v) t = Some (c', q, g', d) \<Longrightarrow> (c', q, g') = (c, p, g)"
    using conjunct2 [OF h5] by blast
qed

lemma log_okI:
  assumes "\<And>p. rn_unanswered (reneg_at v p) = (if open_offer p (vc_log v) then 1 else 0)"
    "\<And>p. rn_pending (reneg_at v p) = due_change p (vc_log v)"
    "\<And>c p. fmlookup (vc_reneg v) c = Some p \<Longrightarrow> EvStop p \<notin> set (vc_log v)"
    "\<And>c p. TCreate c p \<in> set (vc_tasks v) \<Longrightarrow> EvOffer p \<in> set (vc_log v)"
    "\<And>c p. TDeliver c p \<in> set (vc_tasks v) \<Longrightarrow> EvOffer p \<in> set (vc_log v)"
    "offers_ok (vc_log v)"
  shows "log_ok v"
  unfolding log_ok_def using assms by blast

lemma log_okD:
  assumes "log_ok v"
  shows "rn_unanswered (reneg_at v p) = (if open_offer p (vc_log v) then 1 else 0)"
    "rn_pending (reneg_at v p) = due_change p (vc_log v)"
    "fmlookup (vc_reneg v) c = Some p \<Longrightarrow> EvStop p \<notin> set (vc_log v)"
    "TCreate c p \<in> set (vc_tasks v) \<Longrightarrow> EvOffer p \<in> set (vc_log v)"
    "TDeliver c p \<in> set (vc_tasks v) \<Longrightarrow> EvOffer p \<in> set (vc_log v)"
    "offers_ok (vc_log v)"
  using assms unfolding log_ok_def by blast+

definition core_ok :: "voice \<Rightarrow> bool" where
  "core_ok v \<longleftrightarrow> ptrs_ok v \<and> timers_ok v \<and> log_ok v"

lemma coreD: "core_ok v \<Longrightarrow> ptrs_ok v" "core_ok v \<Longrightarrow> timers_ok v" "core_ok v \<Longrightarrow> log_ok v"
  by (simp_all add: core_ok_def)

lemma coreI: "ptrs_ok v \<Longrightarrow> timers_ok v \<Longrightarrow> log_ok v \<Longrightarrow> core_ok v"
  by (simp add: core_ok_def)

lemma core_tasks:
  assumes "core_ok v" "set ts \<subseteq> set (vc_tasks v)"
  shows "core_ok (v\<lparr>vc_tasks := ts\<rparr>)"
proof (rule coreI)
  note P = ptrs_okD [OF coreD(1) [OF assms(1)]] and T = timers_okD [OF coreD(2) [OF assms(1)]] and L = log_okD [OF coreD(3) [OF assms(1)]]
  have sub: "t \<in> set ts \<Longrightarrow> t \<in> set (vc_tasks v)" for t using assms(2) by auto
  show "ptrs_ok (v\<lparr>vc_tasks := ts\<rparr>)" by (rule ptrs_okI) (auto intro: P(1,3,4,5) sub dest: P(2))
  show "timers_ok (v\<lparr>vc_tasks := ts\<rparr>)" by (rule timers_okI) (auto simp: reneg_at_simps dest: T sub)
  show "log_ok (v\<lparr>vc_tasks := ts\<rparr>)" by (rule log_okI) (auto simp: reneg_at_simps L(1,2,6) dest: L(3,4,5) sub)
qed

lemma alloc_props:
  assumes "core_ok v" "reneg_alloc c v = (p, v1)"
  shows "core_ok v1" "fmlookup (vc_reneg v1) c = Some p" "vc_tasks v1 = vc_tasks v" "vc_armed v1 = vc_armed v" "vc_log v1 = vc_log v"
    "reneg_at v1 q = reneg_at v q" "c' \<noteq> c \<Longrightarrow> fmlookup (vc_reneg v1) c' = fmlookup (vc_reneg v) c'"
    "c' \<noteq> c \<Longrightarrow> fmlookup (vc_reneg v) c' \<noteq> Some p" "vc_nextTimer v1 = vc_nextTimer v"
proof -
  note P = ptrs_okD [OF coreD(1) [OF assms(1)]] and T = timers_okD [OF coreD(2) [OF assms(1)]] and L = log_okD [OF coreD(3) [OF assms(1)]]
  show "fmlookup (vc_reneg v1) c = Some p" and tk: "vc_tasks v1 = vc_tasks v" and ar: "vc_armed v1 = vc_armed v" and lg: "vc_log v1 = vc_log v"
    and nt: "vc_nextTimer v1 = vc_nextTimer v" and "c' \<noteq> c \<Longrightarrow> fmlookup (vc_reneg v1) c' = fmlookup (vc_reneg v) c'" for c'
    using assms(2) by (auto simp: reneg_alloc_def voice_simps split: option.splits)
  have fresh: "reneg_at v (vc_next v) = newReneg" using P(5) by (simp add: reneg_at_def)
  show rt: "reneg_at v1 q = reneg_at v q" for q using assms(2) fresh by (auto simp: reneg_alloc_def voice_simps split: option.splits)
  show other: "c' \<noteq> c \<Longrightarrow> fmlookup (vc_reneg v) c' \<noteq> Some p" for c'
    using assms(2) P(1) [of c'] P(2) [of c p c'] by (auto simp: reneg_alloc_def split: option.splits)
  show "core_ok v1"
  proof (cases "fmlookup (vc_reneg v) c")
    case (Some q)
    with assms show ?thesis by (simp add: reneg_alloc_def)
  next
    case None
    then have p: "p = vc_next v" and nx: "vc_next v1 = vc_next v + 1" and rn: "vc_reneg v1 = fmupd c (vc_next v) (vc_reneg v)"
      and hp: "vc_heap v1 = fmupd (vc_next v) newReneg (vc_heap v)"
      using assms(2) by (auto simp: reneg_alloc_def voice_simps)
    have less: "q < vc_next v \<Longrightarrow> q < vc_next v1" for q by (simp add: nx)
    have st: "EvStop p \<notin> set (vc_log v)" using P(4) [of "EvStop p"] p by auto
    show ?thesis
    proof (rule coreI)
      show "ptrs_ok v1"
      proof (rule ptrs_okI)
        show "c'' = c'" if "fmlookup (vc_reneg v1) c' = Some q" "fmlookup (vc_reneg v1) c'' = Some q" for c' c'' q
          using that P(2) [of c' q c''] other [unfolded p] by (auto simp: rn split: if_splits)
      qed (auto simp: rn nx tk lg hp split: if_splits intro: less_SucI P(1,3,4,5))
      show "timers_ok v1" by (rule timers_okI) (auto simp: ar rt tk nt nx dest: T)
      show "log_ok v1" by (rule log_okI) (use st p in \<open>auto simp: rn rt tk lg L(1,2,6) split: if_splits dest: L(3,4,5)\<close>)
    qed
  qed
qed

text \<open>The state after \<open>schedule_locked\<close>, with its parts named.\<close>

lemma schedule_cases:
  assumes "core_ok v" "\<not> (expected \<noteq> None \<and> fmlookup (vc_reneg v) c \<noteq> expected)"
  obtains p v1 d where "reneg_alloc c v = (p, v1)" "schedule_locked c expected now v =
      note_event (EvSchedule p) (spawn (TSched c p (rn_generation (reneg_at v p) + 1) d)
        (set_reneg p (reneg_at v p\<lparr>rn_timer := None, rn_generation := rn_generation (reneg_at v p) + 1, rn_pending := True\<rparr>)
          (stop_timer (rn_timer (reneg_at v p)) v1)))"
proof -
  obtain p v1 where a: "reneg_alloc c v = (p, v1)" by fastforce
  have "reneg_at v1 p = reneg_at v p" by (rule alloc_props(6) [OF assms(1) a])
  with a assms(2) show ?thesis by (intro that [of p v1]) (auto simp: schedule_locked_def Let_def)
qed

lemma schedule_core:
  assumes "core_ok v"
  shows "core_ok (schedule_locked c expected now v)"
proof (cases "expected \<noteq> None \<and> fmlookup (vc_reneg v) c \<noteq> expected")
  case True
  then show ?thesis using assms by (simp add: schedule_locked_def)
next
  case False
  obtain p v1 d where a: "reneg_alloc c v = (p, v1)" and w: "schedule_locked c expected now v =
      note_event (EvSchedule p) (spawn (TSched c p (rn_generation (reneg_at v p) + 1) d)
        (set_reneg p (reneg_at v p\<lparr>rn_timer := None, rn_generation := rn_generation (reneg_at v p) + 1, rn_pending := True\<rparr>)
          (stop_timer (rn_timer (reneg_at v p)) v1)))"
    using schedule_cases [OF assms False] .
  note ap = alloc_props [OF assms a]
  note P = ptrs_okD [OF coreD(1) [OF ap(1)]] and T = timers_okD [OF coreD(2) [OF ap(1)]] and L = log_okD [OF coreD(3) [OF ap(1)]]
  have pn: "p < vc_next v1" by (rule P(1) [OF ap(2)])
  show ?thesis unfolding w
  proof (rule coreI)
    let ?w = "note_event (EvSchedule p) (spawn (TSched c p (rn_generation (reneg_at v p) + 1) d)
        (set_reneg p (reneg_at v p\<lparr>rn_timer := None, rn_generation := rn_generation (reneg_at v p) + 1, rn_pending := True\<rparr>)
          (stop_timer (rn_timer (reneg_at v p)) v1)))"
    show "ptrs_ok ?w" by (rule ptrs_okI) (use pn in \<open>auto simp: voice_simps intro: P(1,3,4,5) dest: P(2)\<close>)
    show "timers_ok ?w" by (rule timers_okI) (auto simp: voice_simps split: if_splits dest: T)
    show "log_ok ?w" by (rule log_okI) (auto simp: voice_simps ap(6) [symmetric] L(1,2,6) split: if_splits dest: L(3,4,5))
  qed
qed


text \<open>The elementary updates, each with what it needs.\<close>

fun task_ok :: "task \<Rightarrow> voice \<Rightarrow> bool" where
  "task_ok (TArmed c p g t) v = False"
| "task_ok (TCreate c p) v = (EvOffer p \<in> set (vc_log v))"
| "task_ok (TDeliver c p) v = (EvOffer p \<in> set (vc_log v))"
| "task_ok _ v = True"

lemma spawn_core:
  assumes "core_ok v" "\<And>p. p \<in> task_states t \<Longrightarrow> p < vc_next v" "task_ok t v"
  shows "core_ok (spawn t v)"
proof (rule coreI)
  note P = ptrs_okD [OF coreD(1) [OF assms(1)]] and T = timers_okD [OF coreD(2) [OF assms(1)]] and L = log_okD [OF coreD(3) [OF assms(1)]]
  show "ptrs_ok (spawn t v)" by (rule ptrs_okI) (auto simp: voice_simps intro: P(1,3,4,5) assms(2) dest: P(2))
  show "timers_ok (spawn t v)" by (rule timers_okI) (use assms(3) in \<open>auto simp: voice_simps dest: T\<close>)
  show "log_ok (spawn t v)" by (rule log_okI) (use assms(3) in \<open>auto simp: voice_simps L(1,2,6) dest: L(3,4,5)\<close>)
qed

lemma disarm_core:
  assumes "core_ok v"
  shows "core_ok (v\<lparr>vc_armed := fmdrop t (vc_armed v)\<rparr>)"
proof (rule coreI)
  note P = ptrs_okD [OF coreD(1) [OF assms(1)]] and T = timers_okD [OF coreD(2) [OF assms(1)]] and L = log_okD [OF coreD(3) [OF assms(1)]]
  let ?w = "v\<lparr>vc_armed := fmdrop t (vc_armed v)\<rparr>"
  show "ptrs_ok ?w" by (rule ptrs_okI) (auto intro: P(1,3,4,5) dest: P(2))
  show "timers_ok ?w" by (rule timers_okI) (auto simp: voice_simps split: if_splits dest: T)
  show "log_ok ?w" by (rule log_okI) (auto simp: voice_simps L(1,2,6) dest: L(3,4,5))
qed

lemma stop_timer_core: "core_ok v \<Longrightarrow> core_ok (stop_timer x v)"
  by (cases x) (simp_all add: stop_timer_def disarm_core)

text \<open>A change of one state that keeps its timer (or drops it), with the event that explains it.\<close>

lemma event_core:
  assumes "core_ok v" "p < vc_next v" "rn_timer st = rn_timer (reneg_at v p) \<or> rn_timer st = None" "ev_state e = p"
    and "\<And>q. q \<noteq> p \<Longrightarrow> open_offer q (e # vc_log v) = open_offer q (vc_log v) \<and> due_change q (e # vc_log v) = due_change q (vc_log v)"
    and "rn_unanswered st = (if open_offer p (e # vc_log v) then 1 else 0)" "rn_pending st = due_change p (e # vc_log v)"
    and "offers_ok (e # vc_log v)" "\<And>c. fmlookup (vc_reneg v) c = Some p \<Longrightarrow> e \<noteq> EvStop p"
  shows "core_ok (note_event e (set_reneg p st v))"
proof (rule coreI)
  note P = ptrs_okD [OF coreD(1) [OF assms(1)]] and T = timers_okD [OF coreD(2) [OF assms(1)]] and L = log_okD [OF coreD(3) [OF assms(1)]]
  let ?w = "note_event e (set_reneg p st v)"
  show "ptrs_ok ?w" by (rule ptrs_okI) (use assms(2,4) in \<open>auto simp: voice_simps intro: P(1,3,4,5) dest: P(2)\<close>)
  show "timers_ok ?w" by (rule timers_okI) (use assms(3) in \<open>auto simp: voice_simps split: if_splits dest: T T(3,4) [OF sym]\<close>)
  show "log_ok ?w"
  proof (rule log_okI)
    show "rn_unanswered (reneg_at ?w q) = (if open_offer q (vc_log ?w) then 1 else 0)" for q
      using assms(5) [of q] assms(6) L(1) [of q] by (cases "q = p") (simp_all add: voice_simps)
    show "rn_pending (reneg_at ?w q) = due_change q (vc_log ?w)" for q
      using assms(5) [of q] assms(7) L(2) [of q] by (cases "q = p") (simp_all add: voice_simps)
    show "EvStop q \<notin> set (vc_log ?w)" if "fmlookup (vc_reneg ?w) c = Some q" for c q
      using that L(3) [of c q] assms(4) assms(9) [of c] by (auto simp: voice_simps)
  qed (use assms(8) in \<open>auto simp: voice_simps dest: L(4,5)\<close>)
qed

lemma quiet_core:
  assumes "core_ok v" "p < vc_next v" "\<And>t. rn_timer st = Some t \<Longrightarrow> t < vc_nextTimer v \<and> (\<forall>c q g d. fmlookup (vc_armed v) t = Some (c, q, g, d) \<longrightarrow> q = p)"
    and "rn_unanswered st = rn_unanswered (reneg_at v p)" "rn_pending st = rn_pending (reneg_at v p)"
  shows "core_ok (set_reneg p st v)"
proof (rule coreI)
  note P = ptrs_okD [OF coreD(1) [OF assms(1)]] and T = timers_okD [OF coreD(2) [OF assms(1)]] and L = log_okD [OF coreD(3) [OF assms(1)]]
  show "ptrs_ok (set_reneg p st v)" by (rule ptrs_okI) (use assms(2) in \<open>auto simp: voice_simps intro: P(1,3,4,5) dest: P(2)\<close>)
  show "timers_ok (set_reneg p st v)" by (rule timers_okI) (use assms(3) in \<open>auto simp: voice_simps split: if_splits dest: T\<close>)
  show "log_ok (set_reneg p st v)" by (rule log_okI) (use assms(4,5) in \<open>auto simp: voice_simps L(1,2,6) dest: L(3,4,5)\<close>)
qed

lemma reneg_ptr: "core_ok v \<Longrightarrow> fmlookup (vc_reneg v) c = Some p \<Longrightarrow> p < vc_next v"
  using ptrs_okD(1) coreD(1) by blast

lemma own_timer: "core_ok v \<Longrightarrow> rn_timer (reneg_at v p) = Some t \<Longrightarrow>
    t < vc_nextTimer v \<and> (\<forall>c q g d. fmlookup (vc_armed v) t = Some (c, q, g, d) \<longrightarrow> q = p)"
  using timers_okD(3,4) coreD(2) by blast

lemma after_func_core:
  assumes "core_ok v" "p < vc_next v"
  shows "core_ok (after_func c p g delay now v)"
proof (rule coreI)
  note P = ptrs_okD [OF coreD(1) [OF assms(1)]] and T = timers_okD [OF coreD(2) [OF assms(1)]] and L = log_okD [OF coreD(3) [OF assms(1)]]
  let ?w = "after_func c p g delay now v"
  have f: "vc_tasks ?w = TArmed c p g (vc_nextTimer v) # vc_tasks v" "vc_reneg ?w = vc_reneg v" "vc_log ?w = vc_log v" "vc_heap ?w = vc_heap v"
    "vc_next ?w = vc_next v" "vc_nextTimer ?w = vc_nextTimer v + 1" "reneg_at ?w q = reneg_at v q"
    "vc_armed ?w = fmupd (vc_nextTimer v) (c, p, g, now + delay) (vc_armed v)" for q
    by (simp_all add: after_func_def voice_simps)
  show "ptrs_ok ?w" by (rule ptrs_okI) (use assms(2) in \<open>auto simp: f intro: P(1,3,4,5) dest: P(2)\<close>)
  show "log_ok ?w" by (rule log_okI) (auto simp: f L(1,2,6) dest: L(3,4,5))
  have "t \<noteq> vc_nextTimer v" if "rn_timer (reneg_at v q) = Some t" for q t using T(3) [OF that] by simp
  moreover have "t \<noteq> vc_nextTimer v" if "TArmed c q g t \<in> set (vc_tasks v)" for c q g t using T(5) [OF that] by simp
  moreover have "fmlookup (vc_armed v) (vc_nextTimer v) = None" using T(1) [of "vc_nextTimer v"] by (cases "fmlookup (vc_armed v) (vc_nextTimer v)") auto
  ultimately show "timers_ok ?w"
    by (intro timers_okI) (use assms(2) in \<open>auto simp: f less_Suc_eq split: if_splits dest: T\<close>)
qed


lemma commit_core:
  assumes "core_ok v" "tid < vc_nextTimer v" "\<And>c' q g' d. fmlookup (vc_armed v) tid = Some (c', q, g', d) \<Longrightarrow> q = p"
  shows "core_ok (schedule_commit c p g tid v)"
  using assms by (auto simp: schedule_commit_def Let_def intro!: quiet_core stop_timer_core reneg_ptr)

lemma send_core:
  assumes "core_ok v"
  shows "core_ok (send_locked c p g v)"
proof (cases "fmlookup (vc_reneg v) c \<noteq> Some p \<or> rn_generation (reneg_at v p) \<noteq> g \<or> \<not> rn_pending (reneg_at v p)")
  case True
  with assms show ?thesis by (simp add: send_locked_def Let_def)
next
  case False
  note L = log_okD [OF coreD(3) [OF assms]]
  have cur: "fmlookup (vc_reneg v) c = Some p" using False by simp
  have pn: "p < vc_next v" by (rule reneg_ptr [OF assms cur])
  let ?st = "reneg_at v p\<lparr>rn_timer := None\<rparr>"
  have stop: "EvStop p \<notin> set (vc_log v)" by (rule L(3) [OF cur])
  show ?thesis
  proof (cases "rn_unanswered (reneg_at v p) > 0")
    case True
    have "core_ok (set_reneg p ?st v)" by (rule quiet_core [OF assms pn]) simp_all
    with False True show ?thesis by (simp add: send_locked_def Let_def)
  next
    case un: False
    then have no: "\<not> open_offer p (vc_log v)" using L(1) [of p] by (simp split: if_splits)
    have a: "core_ok (note_event (EvSkip p) (set_reneg p (?st\<lparr>rn_pending := False\<rparr>) v))"
      by (rule event_core [OF assms pn]) (use no L(1) [of p] L(6) in simp_all)
    let ?w = "note_event (EvOffer p) (set_reneg p (?st\<lparr>rn_pending := False, rn_unanswered := 1\<rparr>) v)"
    have "core_ok ?w" by (rule event_core [OF assms pn]) (use no L(6) stop in simp_all)
    then have b: "core_ok (spawn (TCreate c p) ?w)" by (rule spawn_core) (use pn in \<open>auto simp: voice_simps\<close>)
    have "spawn (TCreate c p) ?w = note_event (EvOffer p) (spawn (TCreate c p) (set_reneg p (?st\<lparr>rn_pending := False, rn_unanswered := 1\<rparr>) v))"
      by (simp add: spawn_def note_event_def)
    with False un a b show ?thesis by (simp add: send_locked_def Let_def)
  qed
qed

lemma fail_core:
  assumes "core_ok v"
  shows "core_ok (create_failed c p v)"
proof (cases "fmlookup (vc_reneg v) c = Some p")
  case True
  note L = log_okD [OF coreD(3) [OF assms]]
  have "core_ok (note_event (EvFail p) (set_reneg p (reneg_at v p\<lparr>rn_unanswered := 0\<rparr>) v))"
    by (rule event_core [OF assms reneg_ptr [OF assms True]]) (use L(2) [of p] L(6) in simp_all)
  with True show ?thesis by (simp add: create_failed_def)
next
  case False
  with assms show ?thesis by (simp add: create_failed_def)
qed

lemma deliver_core:
  assumes "core_ok v" "EvOffer p \<in> set (vc_log v)"
  shows "core_ok (deliver_locked c p now v)"
proof (cases "fmlookup (vc_reneg v) c = Some p")
  case True
  note L = log_okD [OF coreD(3) [OF assms(1)]]
  have "core_ok (note_event (EvDeliver p now) (set_reneg p (reneg_at v p\<lparr>rn_lastSent := Some now\<rparr>) v))"
    by (rule event_core [OF assms(1) reneg_ptr [OF assms(1) True]])
      (use L(1) [of p] L(2) [of p] L(6) L(3) [OF True] assms(2) in simp_all)
  with True show ?thesis by (simp add: deliver_locked_def)
next
  case False
  with assms show ?thesis by (simp add: deliver_locked_def)
qed

lemma answer_core: "core_ok v \<Longrightarrow> core_ok (answer_commit c cur v)"
proof (cases "\<exists>p. cur = Some p \<and> fmlookup (vc_reneg v) c = Some p")
  case False
  then show "core_ok v \<Longrightarrow> core_ok (answer_commit c cur v)" by (auto simp: answer_commit_def split: option.splits)
next
  assume core: "core_ok v"
  case True
  then obtain p where p: "cur = Some p" "fmlookup (vc_reneg v) c = Some p" by blast
  note L = log_okD [OF coreD(3) [OF core]]
  have pn: "p < vc_next v" by (rule reneg_ptr [OF core p(2)])
  let ?w = "note_event (EvAnswer p) (set_reneg p (reneg_at v p\<lparr>rn_unanswered := 0\<rparr>) v)"
  have w: "core_ok ?w" by (rule event_core [OF core pn]) (use L in simp_all)
  have "core_ok (spawn (TResched c p) ?w)" by (rule spawn_core [OF w]) (use pn in \<open>simp_all add: voice_simps\<close>)
  with w p show ?thesis by (simp add: answer_commit_def Let_def)
qed

lemma stop_core:
  assumes "core_ok v"
  shows "core_ok (stopReneg c v)"
proof (cases "fmlookup (vc_reneg v) c")
  case None
  with assms show ?thesis by (simp add: stopReneg_def)
next
  case (Some p)
  let ?u = "stop_timer (rn_timer (reneg_at v p)) v"
  let ?w = "note_event (EvStop p) (?u\<lparr>vc_reneg := fmdrop c (vc_reneg v)\<rparr>)"
  note P = ptrs_okD [OF coreD(1) [OF assms]] and T = timers_okD [OF coreD(2) [OF assms]] and L = log_okD [OF coreD(3) [OF assms]]
  have pn: "p < vc_next v" by (rule reneg_ptr [OF assms Some])
  have other: "q \<noteq> p" if "fmlookup (vc_reneg v) c' = Some q" "c' \<noteq> c" for c' q
    using that ptrs_okD(2) [OF coreD(1) [OF assms] Some, of c'] by auto
  have "ptrs_ok ?w" by (rule ptrs_okI) (use pn in \<open>auto simp: voice_simps split: if_splits intro: P(1,3,4,5) dest: P(2)\<close>)
  moreover have "timers_ok ?w" by (rule timers_okI) (auto simp: voice_simps split: if_splits dest: T)
  moreover have "log_ok ?w"
    by (rule log_okI) (use other in \<open>auto simp: voice_simps L(1,2,6) split: if_splits dest: L(3,4,5)\<close>)
  ultimately show ?thesis using Some by (simp add: stopReneg_def core_ok_def)
qed


subsection \<open>Pending changes are retained\<close>

definition kept :: "client_id \<Rightarrow> nat \<Rightarrow> voice \<Rightarrow> bool" where
  "kept c p v \<longleftrightarrow>
     (EvFail p \<notin> set (vc_log v) \<longrightarrow> rn_pending (reneg_at v p) \<longrightarrow> rn_unanswered (reneg_at v p) > 0 \<or> in_work c p v)"

lemma retained_alt: "retained v \<longleftrightarrow> (\<forall>c p. fmlookup (vc_reneg v) c = Some p \<longrightarrow> kept c p v)"
  by (simp add: retained_def kept_def)

text \<open>The tasks that act on the pending change.\<close>

definition carries :: "task \<Rightarrow> client_id \<Rightarrow> nat \<Rightarrow> nat \<Rightarrow> bool" where
  "carries t c p g \<longleftrightarrow> (\<exists>d. t = TSched c p g d) \<or> t = TFire c p g \<or> t = TResched c p"

lemma in_work_alt:
  "in_work c p v \<longleftrightarrow> (\<exists>t \<in> set (vc_tasks v). carries t c p (rn_generation (reneg_at v p))) \<or>
     (\<exists>t d. fmlookup (vc_armed v) t = Some (c, p, rn_generation (reneg_at v p), d))"
  unfolding in_work_def carries_def Let_def by blast

lemma kept_mono:
  assumes "kept c p v" "reneg_at w p = reneg_at v p" "set (vc_log v) \<subseteq> set (vc_log w)"
    and "\<And>t. t \<in> set (vc_tasks v) \<Longrightarrow> carries t c p (rn_generation (reneg_at v p)) \<Longrightarrow> in_work c p w"
    and "\<And>t d. fmlookup (vc_armed v) t = Some (c, p, rn_generation (reneg_at v p), d) \<Longrightarrow> in_work c p w"
  shows "kept c p w"
proof -
  have "in_work c p v \<Longrightarrow> in_work c p w" using assms(4,5) in_work_alt [of c p v] by blast
  with assms(1-3) show ?thesis by (auto simp: kept_def)
qed

lemma in_work_taskI: "t \<in> set (vc_tasks v) \<Longrightarrow> carries t c p (rn_generation (reneg_at v p)) \<Longrightarrow> in_work c p v"
  by (auto simp: in_work_alt)

lemma in_work_timerI: "fmlookup (vc_armed v) t = Some (c, p, rn_generation (reneg_at v p), d) \<Longrightarrow> in_work c p v"
  by (auto simp: in_work_alt)

text \<open>Frame: nothing that concerns \<open>p\<close> is taken away.\<close>

lemma kept_frame:
  assumes "kept c p v" "reneg_at w p = reneg_at v p" "set (vc_log v) \<subseteq> set (vc_log w)" "set (vc_tasks v) \<subseteq> set (vc_tasks w)"
    and "\<And>t g d. fmlookup (vc_armed v) t = Some (c, p, g, d) \<Longrightarrow> fmlookup (vc_armed w) t = Some (c, p, g, d)"
  shows "kept c p w"
proof (rule kept_mono [OF assms(1-3)])
  show "in_work c p w" if "t \<in> set (vc_tasks v)" "carries t c p (rn_generation (reneg_at v p))" for t
    using that assms(2,4) by (intro in_work_taskI [of t]) auto
  show "in_work c p w" if "fmlookup (vc_armed v) t = Some (c, p, rn_generation (reneg_at v p), d)" for t d
    using assms(5) [OF that] assms(2) by (intro in_work_timerI [of w t]) simp
qed

text \<open>A task that does not carry the change of \<open>p\<close> may go.\<close>

lemma kept_remove:
  assumes "kept c p v" "\<not> carries t c p (rn_generation (reneg_at v p))"
  shows "kept c p (v\<lparr>vc_tasks := remove1 t (vc_tasks v)\<rparr>)"
proof (rule kept_mono [OF assms(1)])
  show "in_work c p (v\<lparr>vc_tasks := remove1 t (vc_tasks v)\<rparr>)" if "u \<in> set (vc_tasks v)" "carries u c p (rn_generation (reneg_at v p))" for u
  proof (rule in_work_taskI)
    have "u \<noteq> t" using that(2) assms(2) by auto
    with that(1) show "u \<in> set (vc_tasks (v\<lparr>vc_tasks := remove1 t (vc_tasks v)\<rparr>))" by simp
  qed (use that(2) in \<open>simp add: voice_simps\<close>)
  show "in_work c p (v\<lparr>vc_tasks := remove1 t (vc_tasks v)\<rparr>)" if "fmlookup (vc_armed v) u = Some (c, p, rn_generation (reneg_at v p), d)" for u d
    using that by (intro in_work_timerI [of _ u]) (auto simp: voice_simps)
qed (simp_all add: voice_simps)

lemma schedule_kept:
  assumes "core_ok v" "\<And>c' p'. c' \<noteq> c \<Longrightarrow> fmlookup (vc_reneg v) c' = Some p' \<Longrightarrow> kept c' p' v"
    and "\<not> (expected \<noteq> None \<and> fmlookup (vc_reneg v) c \<noteq> expected)"
  shows "retained (schedule_locked c expected now v)"
proof -
  obtain p v1 d where a: "reneg_alloc c v = (p, v1)" and w: "schedule_locked c expected now v =
      note_event (EvSchedule p) (spawn (TSched c p (rn_generation (reneg_at v p) + 1) d)
        (set_reneg p (reneg_at v p\<lparr>rn_timer := None, rn_generation := rn_generation (reneg_at v p) + 1, rn_pending := True\<rparr>)
          (stop_timer (rn_timer (reneg_at v p)) v1)))" (is "_ = ?w")
    using schedule_cases [OF assms(1,3)] .
  note ap = alloc_props [OF assms(1) a]
  have "kept c' q ?w" if q: "fmlookup (vc_reneg ?w) c' = Some q" for c' q
  proof (cases "c' = c")
    case True
    with q ap(2) have "q = p" by (simp add: voice_simps)
    then have "in_work c p ?w" by (intro in_work_taskI [of "TSched c p (rn_generation (reneg_at v p) + 1) d"]) (simp_all add: voice_simps carries_def)
    with True \<open>q = p\<close> show ?thesis by (simp add: kept_def)
  next
    case False
    have qv: "fmlookup (vc_reneg v) c' = Some q" using q ap(7) [OF False] by (simp add: voice_simps)
    then have ne: "q \<noteq> p" using ap(8) [OF False] by auto
    show ?thesis
    proof (rule kept_frame [OF assms(2) [OF False qv]])
      show "fmlookup (vc_armed ?w) t = Some (c', q, g, e)" if "fmlookup (vc_armed v) t = Some (c', q, g, e)" for t g e
        using that own_timer [OF assms(1), of p t] ne by (auto simp: voice_simps ap(4))
    qed (use ne in \<open>auto simp: voice_simps ap(3,5,6)\<close>)
  qed
  then show ?thesis by (simp add: retained_alt w)
qed


text \<open>Each section, run after its task \<open>t\<close> has left the list.\<close>

lemma not_carries [simp]:
  "\<not> carries (TArmed c p g t) c' p' g'" "\<not> carries (TCreate c p) c' p' g'" "\<not> carries (TDeliver c p) c' p' g'"
  "\<not> carries (TAnswer c cur) c' p' g'" "carries (TSched c p g d) c' p' g' \<longleftrightarrow> c' = c \<and> p' = p \<and> g' = g"
  "carries (TFire c p g) c' p' g' \<longleftrightarrow> c' = c \<and> p' = p \<and> g' = g" "carries (TResched c p) c' p' g' \<longleftrightarrow> c' = c \<and> p' = p"
  by (auto simp: carries_def)

lemma after_func_kept:
  assumes "core_ok v" "kept c' p' v"
  shows "kept c' p' (after_func c p g delay now (v\<lparr>vc_tasks := remove1 (TSched c p g delay) (vc_tasks v)\<rparr>))" (is "kept _ _ ?w")
proof -
  have f: "reneg_at ?w q = reneg_at v q" "vc_log ?w = vc_log v"
    "vc_armed ?w = fmupd (vc_nextTimer v) (c, p, g, now + delay) (vc_armed v)"
    "set (remove1 (TSched c p g delay) (vc_tasks v)) \<subseteq> set (vc_tasks ?w)" for q by (auto simp: after_func_def voice_simps)
  have fresh: "fmlookup (vc_armed v) (vc_nextTimer v) = None"
    using timers_okD(1) [OF coreD(2) [OF assms(1)], of "vc_nextTimer v"] by (cases "fmlookup (vc_armed v) (vc_nextTimer v)") auto
  show ?thesis
  proof (cases "carries (TSched c p g delay) c' p' (rn_generation (reneg_at v p'))")
    case True
    then have "in_work c' p' ?w" by (intro in_work_timerI [of _ "vc_nextTimer v" _ _ "now + delay"]) (auto simp: f)
    then show ?thesis by (simp add: kept_def)
  next
    case False
    show ?thesis by (rule kept_frame [OF kept_remove [OF assms(2) False]]) (use f fresh in \<open>auto simp: voice_simps\<close>)
  qed
qed

lemma commit_kept:
  assumes "kept c' p' v" "fmlookup (vc_reneg v) c' = Some p'"
    and "\<And>d q g' c'. fmlookup (vc_armed v) tid = Some (c', q, g', d) \<Longrightarrow> (c', q, g') = (c, p, g)"
  shows "kept c' p' (schedule_commit c p g tid v)"
proof (cases "fmlookup (vc_reneg v) c = Some p \<and> rn_generation (reneg_at v p) = g \<and> rn_pending (reneg_at v p)")
  case True
  then have "schedule_commit c p g tid v = set_reneg p (reneg_at v p\<lparr>rn_timer := Some tid\<rparr>) v" by (simp add: schedule_commit_def Let_def)
  moreover have "in_work c' p' (set_reneg p (reneg_at v p\<lparr>rn_timer := Some tid\<rparr>) v) = in_work c' p' v" by (auto simp: in_work_alt voice_simps)
  ultimately show ?thesis using assms(1) by (auto simp: kept_def voice_simps)
next
  case False
  then have w: "schedule_commit c p g tid v = stop_timer (Some tid) v" by (auto simp: schedule_commit_def Let_def)
  show ?thesis
  proof (cases "rn_pending (reneg_at v p')")
    case pend: True
    show ?thesis unfolding w
    proof (rule kept_mono [OF assms(1)])
      show "in_work c' p' (stop_timer (Some tid) v)" if "fmlookup (vc_armed v) t = Some (c', p', rn_generation (reneg_at v p'), d)" for t d
      proof -
        have "t \<noteq> tid" using assms(3) [of c' p' "rn_generation (reneg_at v p')" d] that False pend assms(2) by auto
        with that show ?thesis by (intro in_work_timerI [of _ t]) (simp add: voice_simps)
      qed
    qed (auto simp: voice_simps in_work_taskI)
  qed (simp add: w kept_def voice_simps)
qed

lemma fire_kept:
  assumes "kept c' p' v" "fmlookup (vc_armed v) tid = Some (c, p, g, d)"
  shows "kept c' p' (spawn (TFire c p g) (v\<lparr>vc_armed := fmdrop tid (vc_armed v)\<rparr>))" (is "kept _ _ ?w")
proof (rule kept_mono [OF assms(1)])
  show "in_work c' p' ?w" if "t \<in> set (vc_tasks v)" "carries t c' p' (rn_generation (reneg_at v p'))" for t
    using that by (intro in_work_taskI [of t]) (auto simp: voice_simps)
  show "in_work c' p' ?w" if a: "fmlookup (vc_armed v) t = Some (c', p', rn_generation (reneg_at v p'), e)" for t e
  proof (cases "t = tid")
    case True
    with a assms(2) show ?thesis by (intro in_work_taskI [of "TFire c p g"]) (auto simp: voice_simps)
  next
    case False
    with a show ?thesis by (intro in_work_timerI [of _ t]) (simp add: voice_simps)
  qed
qed (simp_all add: voice_simps)

lemma send_kept:
  assumes core: "core_ok v" and k: "kept c' p' v" and cur: "fmlookup (vc_reneg v) c' = Some p'"
  shows "kept c' p' (send_locked c p g (v\<lparr>vc_tasks := remove1 (TFire c p g) (vc_tasks v)\<rparr>))" (is "kept _ _ (send_locked _ _ _ ?x)")
proof (cases "c' = c \<and> p' = p \<and> rn_generation (reneg_at v p) = g \<and> rn_pending (reneg_at v p)")
  case True
  with cur have "rn_pending (reneg_at (send_locked c p g ?x) p) \<longrightarrow> rn_unanswered (reneg_at (send_locked c p g ?x) p) > 0"
    by (auto simp: send_locked_def Let_def voice_simps)
  with True show ?thesis by (simp add: kept_def)
next
  case False
  show ?thesis
  proof (cases "p' = p")
    case True
    then have "c' = c \<Longrightarrow> send_locked c p g ?x = ?x" using False by (auto simp: send_locked_def Let_def voice_simps)
    moreover have "c' \<noteq> c \<Longrightarrow> send_locked c p g ?x = ?x"
      using True cur ptrs_okD(2) [OF coreD(1) [OF core], of c' p c] by (auto simp: send_locked_def Let_def)
    ultimately have "send_locked c p g ?x = ?x" by blast
    moreover have "kept c' p' ?x"
    proof (cases "rn_pending (reneg_at v p')")
      case pend: True
      then show ?thesis using False True by (intro kept_remove [OF k]) auto
    qed (simp add: kept_def voice_simps)
    ultimately show ?thesis by simp
  next
    case ne: False
    have "kept c' p' ?x" using ne by (intro kept_remove [OF k]) simp
    then show ?thesis by (rule kept_frame) (use ne in \<open>auto simp: send_locked_def Let_def voice_simps\<close>)
  qed
qed


lemma fail_kept:
  assumes "kept c' p' v"
  shows "kept c' p' (create_failed c p v)"
proof (cases "p' = p")
  case True
  with assms show ?thesis by (simp add: create_failed_def kept_def voice_simps)
next
  case False
  show ?thesis by (rule kept_frame [OF assms]) (use False in \<open>auto simp: create_failed_def voice_simps\<close>)
qed

lemma deliver_kept:
  assumes "kept c' p' v"
  shows "kept c' p' (deliver_locked c p now v)"
proof (cases "fmlookup (vc_reneg v) c = Some p")
  case True
  then have "in_work c' p' (deliver_locked c p now v) = in_work c' p' v" by (auto simp: deliver_locked_def in_work_alt voice_simps)
  with True assms show ?thesis by (auto simp: deliver_locked_def kept_def voice_simps)
qed (use assms in \<open>simp add: deliver_locked_def\<close>)

lemma answer_kept:
  assumes core: "core_ok v" and k: "kept c' p' v" and cur: "fmlookup (vc_reneg v) c' = Some p'"
  shows "kept c' p' (answer_commit c rcv v)"
proof (cases "rcv = Some p' \<and> fmlookup (vc_reneg v) c = Some p'")
  case True
  then have "c' = c" using ptrs_okD(2) [OF coreD(1) [OF core], of c p' c'] cur by simp
  show ?thesis
  proof (cases "rn_pending (reneg_at v p')")
    case pend: True
    then have "TResched c p' \<in> set (vc_tasks (answer_commit c rcv v))" using True by (simp add: answer_commit_def Let_def voice_simps)
    then have "in_work c p' (answer_commit c rcv v)" by (rule in_work_taskI) simp
    with \<open>c' = c\<close> show ?thesis by (simp add: kept_def)
  next
    case False
    with True show ?thesis by (simp add: answer_commit_def Let_def kept_def voice_simps)
  qed
next
  case False
  show ?thesis by (rule kept_frame [OF k]) (use False in \<open>auto simp: answer_commit_def Let_def voice_simps split: option.splits\<close>)
qed

lemma stop_kept:
  assumes core: "core_ok v" and k: "kept c' p' v" and cur: "fmlookup (vc_reneg (stopReneg c v)) c' = Some p'"
  shows "kept c' p' (stopReneg c v)"
proof (cases "fmlookup (vc_reneg v) c")
  case None
  with k show ?thesis by (simp add: stopReneg_def)
next
  case (Some p)
  with cur have c': "c' \<noteq> c" "fmlookup (vc_reneg v) c' = Some p'" by (auto simp: stopReneg_def voice_simps split: if_splits)
  then have ne: "p' \<noteq> p" using Some ptrs_okD(2) [OF coreD(1) [OF core], of c p c'] by auto
  show ?thesis
  proof (rule kept_frame [OF k])
    show "fmlookup (vc_armed (stopReneg c v)) t = Some (c', p', g, d)" if "fmlookup (vc_armed v) t = Some (c', p', g, d)" for t g d
      using that Some own_timer [OF core, of p t] ne by (auto simp: stopReneg_def voice_simps)
  qed (use Some in \<open>auto simp: stopReneg_def voice_simps\<close>)
qed

lemma voice_invI: "core_ok v \<Longrightarrow> (\<And>c p. fmlookup (vc_reneg v) c = Some p \<Longrightarrow> kept c p v) \<Longrightarrow> voice_inv v"
  by (simp add: voice_inv_def core_ok_def retained_alt)

lemma voice_invD: "voice_inv v \<Longrightarrow> core_ok v" "voice_inv v \<Longrightarrow> fmlookup (vc_reneg v) c = Some p \<Longrightarrow> kept c p v"
  by (auto simp: voice_inv_def core_ok_def retained_alt)

lemma schedule_inv:
  assumes "core_ok v" "\<And>c' p'. fmlookup (vc_reneg v) c' = Some p' \<Longrightarrow> (c', Some p') \<noteq> (c, expected) \<Longrightarrow> kept c' p' v"
  shows "voice_inv (schedule_locked c expected now v)"
proof (cases "expected \<noteq> None \<and> fmlookup (vc_reneg v) c \<noteq> expected")
  case True
  then have "schedule_locked c expected now v = v" by (simp add: schedule_locked_def)
  with True assms show ?thesis by (auto intro!: voice_invI)
next
  case False
  have "retained (schedule_locked c expected now v)" by (rule schedule_kept [OF assms(1) _ False]) (use assms(2) in blast)
  then show ?thesis using schedule_core [OF assms(1)] by (simp add: voice_inv_def core_ok_def)
qed

text \<open>Removing a task and running its section.\<close>

lemma on_task_inv:
  assumes "voice_inv v"
    and "t \<in> set (vc_tasks v) \<Longrightarrow> core_ok (v\<lparr>vc_tasks := remove1 t (vc_tasks v)\<rparr>) \<Longrightarrow> voice_inv (f (v\<lparr>vc_tasks := remove1 t (vc_tasks v)\<rparr>))"
  shows "voice_inv (on_task t f v)"
  using assms core_tasks [OF voice_invD(1) [OF assms(1)] set_remove1_subset [of t]] by (simp add: on_task_def)

lemma voice_step_inv:
  assumes inv: "voice_inv v"
  shows "voice_inv (voice_step q v)"
proof -
  have core: "core_ok v" by (rule voice_invD(1) [OF inv])
  note P = ptrs_okD [OF coreD(1) [OF core]] and T = timers_okD [OF coreD(2) [OF core]] and L = log_okD [OF coreD(3) [OF core]]
  note k = voice_invD(2) [OF inv]
  let ?x = "\<lambda>t. v\<lparr>vc_tasks := remove1 t (vc_tasks v)\<rparr>"
  have xk: "kept c p (?x t)" if "fmlookup (vc_reneg (?x t)) c = Some p" "\<not> carries t c p (rn_generation (reneg_at v p))" for c p t
    using that by (intro kept_remove k) simp_all
  show ?thesis
  proof (cases q)
    case (VChange c now)
    then show ?thesis using schedule_inv [OF core k, of c None] by simp
  next
    case (VAfterFunc c p g d now)
    show ?thesis unfolding VAfterFunc voice_step.simps
    proof (rule on_task_inv [OF inv], rule voice_invI)
      assume t: "TSched c p g d \<in> set (vc_tasks v)" and x: "core_ok (?x (TSched c p g d))"
      show "core_ok (after_func c p g d now (?x (TSched c p g d)))" using P(3) [OF t, of p] by (intro after_func_core [OF x]) simp
    qed (rule after_func_kept [OF core k], simp add: after_func_def voice_simps)
  next
    case (VCommit c p g tid)
    show ?thesis unfolding VCommit voice_step.simps
    proof (rule on_task_inv [OF inv], rule voice_invI)
      assume t: "TArmed c p g tid \<in> set (vc_tasks v)" and x: "core_ok (?x (TArmed c p g tid))"
      note own = T(5) [OF t] T(6) [OF t]
      show "core_ok (schedule_commit c p g tid (?x (TArmed c p g tid)))" using own by (intro commit_core [OF x]) auto
      fix c' p' assume "fmlookup (vc_reneg (schedule_commit c p g tid (?x (TArmed c p g tid)))) c' = Some p'"
      then have cur: "fmlookup (vc_reneg (?x (TArmed c p g tid))) c' = Some p'" by (simp add: schedule_commit_def Let_def voice_simps split: if_splits)
      show "kept c' p' (schedule_commit c p g tid (?x (TArmed c p g tid)))"
        by (rule commit_kept [OF xk [OF cur] cur]) (use own(2) in auto)
    qed
  next
    case (VFire tid now)
    show ?thesis
    proof (cases "fmlookup (vc_armed v) tid")
      case None
      with VFire inv show ?thesis by simp
    next
      case (Some e)
      obtain c p g d where e: "fmlookup (vc_armed v) tid = Some (c, p, g, d)" using Some by (cases e) auto
      have "voice_inv (spawn (TFire c p g) (v\<lparr>vc_armed := fmdrop tid (vc_armed v)\<rparr>))"
      proof (rule voice_invI)
        show "core_ok (spawn (TFire c p g) (v\<lparr>vc_armed := fmdrop tid (vc_armed v)\<rparr>))"
          by (rule spawn_core [OF disarm_core [OF core]]) (use T(2) [OF e] in simp_all)
        show "kept c' p' (spawn (TFire c p g) (v\<lparr>vc_armed := fmdrop tid (vc_armed v)\<rparr>))"
          if "fmlookup (vc_reneg (spawn (TFire c p g) (v\<lparr>vc_armed := fmdrop tid (vc_armed v)\<rparr>))) c' = Some p'" for c' p'
          using that by (intro fire_kept [OF k e]) (simp add: voice_simps)
      qed
      with VFire e inv show ?thesis by simp
    qed
  next
    case (VSend c p g)
    show ?thesis unfolding VSend voice_step.simps
    proof (rule on_task_inv [OF inv], rule voice_invI)
      assume x: "core_ok (?x (TFire c p g))"
      show "core_ok (send_locked c p g (?x (TFire c p g)))" by (rule send_core [OF x])
      fix c' p' assume "fmlookup (vc_reneg (send_locked c p g (?x (TFire c p g)))) c' = Some p'"
      then have cur: "fmlookup (vc_reneg v) c' = Some p'" by (simp add: send_locked_def Let_def voice_simps split: if_splits)
      show "kept c' p' (send_locked c p g (?x (TFire c p g)))" by (rule send_kept [OF core k [OF cur] cur])
    qed
  next
    case (VCreateOk c p)
    show ?thesis unfolding VCreateOk voice_step.simps
    proof (rule on_task_inv [OF inv], rule voice_invI)
      assume t: "TCreate c p \<in> set (vc_tasks v)" and x: "core_ok (?x (TCreate c p))"
      show "core_ok (spawn (TDeliver c p) (?x (TCreate c p)))" by (rule spawn_core [OF x]) (use P(3) [OF t] L(4) [OF t] in auto)
      fix c' p' assume "fmlookup (vc_reneg (spawn (TDeliver c p) (?x (TCreate c p)))) c' = Some p'"
      then have "kept c' p' (?x (TCreate c p))" by (intro xk) (simp_all add: voice_simps)
      then show "kept c' p' (spawn (TDeliver c p) (?x (TCreate c p)))" by (rule kept_frame) (auto simp: voice_simps)
    qed
  next
    case (VCreateFail c p)
    show ?thesis unfolding VCreateFail voice_step.simps
    proof (rule on_task_inv [OF inv], rule voice_invI)
      assume x: "core_ok (?x (TCreate c p))"
      show "core_ok (create_failed c p (?x (TCreate c p)))" by (rule fail_core [OF x])
    qed (rule fail_kept, rule xk, simp_all add: create_failed_def voice_simps split: if_splits)
  next
    case (VDeliver c p now)
    show ?thesis unfolding VDeliver voice_step.simps
    proof (rule on_task_inv [OF inv], rule voice_invI)
      assume t: "TDeliver c p \<in> set (vc_tasks v)" and x: "core_ok (?x (TDeliver c p))"
      show "core_ok (deliver_locked c p now (?x (TDeliver c p)))" by (rule deliver_core [OF x]) (use L(5) [OF t] in simp)
    qed (rule deliver_kept, rule xk, simp_all add: deliver_locked_def voice_simps split: if_splits)
  next
    case (VAnswer c)
    have "voice_inv (spawn (TAnswer c (fmlookup (vc_reneg v) c)) v)"
    proof (rule voice_invI)
      show "core_ok (spawn (TAnswer c (fmlookup (vc_reneg v) c)) v)" by (rule spawn_core [OF core]) (auto intro: P(1) split: option.splits)
      fix c' p' assume "fmlookup (vc_reneg (spawn (TAnswer c (fmlookup (vc_reneg v) c)) v)) c' = Some p'"
      then have "kept c' p' v" by (intro k) (simp add: voice_simps)
      then show "kept c' p' (spawn (TAnswer c (fmlookup (vc_reneg v) c)) v)" by (rule kept_frame) (auto simp: voice_simps)
    qed
    with VAnswer inv show ?thesis by simp
  next
    case (VAnswerCommit c rcv)
    show ?thesis unfolding VAnswerCommit voice_step.simps
    proof (rule on_task_inv [OF inv], rule voice_invI)
      assume x: "core_ok (?x (TAnswer c rcv))"
      show "core_ok (answer_commit c rcv (?x (TAnswer c rcv)))" by (rule answer_core [OF x])
      fix c' p' assume "fmlookup (vc_reneg (answer_commit c rcv (?x (TAnswer c rcv)))) c' = Some p'"
      then have cur: "fmlookup (vc_reneg (?x (TAnswer c rcv))) c' = Some p'"
        by (auto simp: answer_commit_def Let_def voice_simps split: option.splits if_splits)
      show "kept c' p' (answer_commit c rcv (?x (TAnswer c rcv)))" by (rule answer_kept [OF x xk [OF cur] cur]) simp
    qed
  next
    case (VResched c p now)
    show ?thesis unfolding VResched voice_step.simps
    proof (rule on_task_inv [OF inv], rule schedule_inv)
      show "kept c' p' (?x (TResched c p))" if "fmlookup (vc_reneg (?x (TResched c p))) c' = Some p'" "(c', Some p') \<noteq> (c, Some p)" for c' p'
        using that by (intro xk) auto
    qed
  next
    case (VStop c)
    have "voice_inv (stopReneg c v)"
    proof (rule voice_invI)
      show "core_ok (stopReneg c v)" by (rule stop_core [OF core])
      fix c' p' assume cur: "fmlookup (vc_reneg (stopReneg c v)) c' = Some p'"
      then have "fmlookup (vc_reneg v) c' = Some p'" by (auto simp: stopReneg_def voice_simps split: option.splits if_splits)
      from stop_kept [OF core k [OF this] cur] show "kept c' p' (stopReneg c v)" .
    qed
    with VStop show ?thesis by simp
  next
    case (VPeer c b)
    have "voice_inv (v\<lparr>vc_peers := s\<rparr>)" for s
    proof (rule voice_invI)
      show "core_ok (v\<lparr>vc_peers := s\<rparr>)"
      proof (rule coreI)
        show "ptrs_ok (v\<lparr>vc_peers := s\<rparr>)" by (rule ptrs_okI) (auto intro: P(1,3,4,5) dest: P(2))
        show "timers_ok (v\<lparr>vc_peers := s\<rparr>)" by (rule timers_okI) (auto simp: reneg_at_simps dest: T)
        show "log_ok (v\<lparr>vc_peers := s\<rparr>)" by (rule log_okI) (auto simp: reneg_at_simps L(1,2,6) dest: L(3,4,5))
      qed
      fix c' p' assume "fmlookup (vc_reneg (v\<lparr>vc_peers := s\<rparr>)) c' = Some p'"
      then have "kept c' p' v" by (intro k) simp
      then show "kept c' p' (v\<lparr>vc_peers := s\<rparr>)" by (rule kept_frame) (auto simp: voice_simps)
    qed
    with VPeer show ?thesis by simp
  qed
qed

lemma NewVoice_inv: "voice_inv NewVoice"
  by (simp add: voice_inv_def ptrs_ok_def timers_ok_def log_ok_def retained_def NewVoice_def reneg_at_def newReneg_def)

interpretation vc: invariant_system voice_step "\<lambda>q v. True" voice_inv NewVoice
  by unfold_locales (simp_all add: NewVoice_inv voice_step_inv)


subsection \<open>Properties\<close>



text \<open>An answer resumes suspended changes.  When a change waits for the answer of an attached client and
  everything else is at rest, the accepted answer followed by the sections it triggers produces the
  next offer.\<close>

theorem answer_resumes:
  assumes "fmlookup (vc_reneg v) c = Some p" "c |\<in>| vc_peers v" "rn_pending (reneg_at v p)" "vc_tasks v = []" "vc_armed v = fmempty"
    and "g = rn_generation (reneg_at v p) + 1" "t = vc_nextTimer v"
  shows "\<exists>d. vc_log (run_ops voice_step [VAnswer c, VAnswerCommit c (Some p), VResched c p now, VAfterFunc c p g d now, VCommit c p g t,
      VFire t (now + d), VSend c p g] v) = EvOffer p # EvSchedule p # EvAnswer p # vc_log v"
proof -
  let ?st = "reneg_at v p\<lparr>rn_unanswered := 0\<rparr>"
  define v1 where "v1 = note_event (EvAnswer p) (set_reneg p ?st v)"
  have s1: "run_ops voice_step [VAnswer c, VAnswerCommit c (Some p)] v = spawn (TResched c p) v1"
    using assms(1-4) by (simp add: on_task_def answer_commit_def v1_def voice_simps Let_def spawn_def note_event_def set_reneg_def reneg_at_def)
  define d where "d = reneg_delay (stop_timer (rn_timer ?st) v1) now ?st"
  define v2 where "v2 = note_event (EvSchedule p) (spawn (TSched c p g d)
     (set_reneg p (?st\<lparr>rn_timer := None, rn_generation := g, rn_pending := True\<rparr>) (stop_timer (rn_timer ?st) v1)))"
  have rm: "spawn (TResched c p) v1\<lparr>vc_tasks := remove1 (TResched c p) (vc_tasks (spawn (TResched c p) v1))\<rparr> = v1"
    by (simp add: spawn_def v1_def)
  have "schedule_locked c (Some p) now v1 = v2"
    using assms(1,6) by (simp add: schedule_locked_def reneg_alloc_def v1_def voice_simps Let_def v2_def d_def)
  then have s2: "voice_step (VResched c p now) (spawn (TResched c p) v1) = v2" using rm by (simp add: on_task_def voice_simps)
  have f2: "vc_tasks v2 = [TSched c p g d]" "vc_nextTimer v2 = t" "fmlookup (vc_reneg v2) c = Some p" "vc_peers v2 = vc_peers v"
    "reneg_at v2 p = ?st\<lparr>rn_timer := None, rn_generation := g, rn_pending := True\<rparr>" "vc_log v2 = EvSchedule p # EvAnswer p # vc_log v"
    using assms(1,4,7) by (simp_all add: v2_def v1_def voice_simps)
  let ?v3 = "voice_step (VCommit c p g t) (voice_step (VAfterFunc c p g d now) v2)"
  have f3: "vc_tasks ?v3 = []" "fmlookup (vc_armed ?v3) t = Some (c, p, g, now + d)" "fmlookup (vc_reneg ?v3) c = Some p" "vc_peers ?v3 = vc_peers v"
    "reneg_at ?v3 p = ?st\<lparr>rn_timer := Some t, rn_generation := g, rn_pending := True\<rparr>" "vc_log ?v3 = vc_log v2"
    using f2 by (simp_all add: on_task_def after_func_def schedule_commit_def Let_def voice_simps)
  have "vc_log (voice_step (VSend c p g) (voice_step (VFire t (now + d)) ?v3)) = EvOffer p # vc_log v2"
    using f3 assms(2) by (simp add: on_task_def send_locked_def Let_def voice_simps)
  then have "vc_log (run_ops voice_step [VAnswer c, VAnswerCommit c (Some p), VResched c p now, VAfterFunc c p g d now, VCommit c p g t,
      VFire t (now + d), VSend c p g] v) = EvOffer p # EvSchedule p # EvAnswer p # vc_log v"
    using s1 s2 f2(6) by simp
  then show ?thesis by blast
qed

text \<open>A run for the witnesses: an offer is open when a second change arrives and its timer fires.\<close>

definition suspended_ops :: "voice_op list" where
  "suspended_ops = [VPeer ''a'' True, VChange ''a'' 0, VAfterFunc ''a'' 0 1 defaultRenegDebounce 0, VCommit ''a'' 0 1 0, VFire 0 defaultRenegDebounce,
     VSend ''a'' 0 1, VChange ''a'' 201000000, VAfterFunc ''a'' 0 2 defaultRenegDebounce 201000000, VCommit ''a'' 0 2 1, VFire 1 401000000, VSend ''a'' 0 2,
     VCreateOk ''a'' 0, VDeliver ''a'' 0 402000000]"


theorem answer_resumes_witness:
  "\<exists>ops. hd (vc_log (run_ops voice_step ops (run_ops voice_step suspended_ops NewVoice))) = EvOffer 0"
proof -
  let ?v = "run_ops voice_step suspended_ops NewVoice"
  have a: "fmlookup (vc_reneg ?v) ''a'' = Some 0" by code_simp
  have b: "''a'' |\<in>| vc_peers ?v" by code_simp
  have c: "rn_pending (reneg_at ?v 0)" by code_simp
  have d: "vc_tasks ?v = []" "vc_armed ?v = fmempty" by code_simp+
  from answer_resumes [OF a b c d refl refl, of 500000000] show ?thesis by (metis list.sel(1))
qed

subsection \<open>Two gaps\<close>

text \<open>
  When creating an offer fails, \<open>sendRenegotiation\<close> reopens the way for offers but arms nothing: a change
  whose timer fired in the meantime stays pending with nobody to act on it.
\<close>

lemma failed_offer_strands_change:
  "let v = run_ops voice_step [VPeer ''a'' True, VChange ''a'' 0, VAfterFunc ''a'' 0 1 defaultRenegDebounce 0, VCommit ''a'' 0 1 0, VFire 0 defaultRenegDebounce,
     VSend ''a'' 0 1, VChange ''a'' 201000000, VAfterFunc ''a'' 0 2 defaultRenegDebounce 201000000, VCommit ''a'' 0 2 1, VFire 1 401000000, VSend ''a'' 0 2,
     VCreateFail ''a'' 0] NewVoice
   in fmlookup (vc_reneg v) ''a'' = Some 0 \<and> rn_pending (reneg_at v 0) \<and> rn_unanswered (reneg_at v 0) = 0 \<and> vc_tasks v = [] \<and> vc_armed v = fmempty"
  by code_simp

text \<open>
  \<open>HandleAnswer\<close> releases the lock between clearing \<open>unanswered\<close> and rescheduling the pending change: the
  old timer may fire in between, and the next offer goes out within the rate limit.
\<close>

lemma rate_limit_race:
  "let v = run_ops voice_step [VPeer ''a'' True, VChange ''a'' 0, VAfterFunc ''a'' 0 1 defaultRenegDebounce 0, VCommit ''a'' 0 1 0, VFire 0 defaultRenegDebounce,
     VSend ''a'' 0 1, VChange ''a'' 201000000, VAfterFunc ''a'' 0 2 defaultRenegDebounce 201000000, VCommit ''a'' 0 2 1, VCreateOk ''a'' 0, VDeliver ''a'' 0 210000000,
     VAnswer ''a'', VAnswerCommit ''a'' (Some 0), VFire 1 401000000, VSend ''a'' 0 2, VCreateOk ''a'' 0, VDeliver ''a'' 0 402000000] NewVoice
   in EvDeliver 0 210000000 \<in> set (vc_log v) \<and> EvDeliver 0 402000000 \<in> set (vc_log v)"
  by code_simp

end
