(* ===== verification/Voice_Facade.thy ===== *)
theory Voice_Facade
  imports Voice_Media Voice_Renegotiation
begin

text \<open>
  The operations of the voice facade that combine the router with the offer scheduler
  (\<^verbatim>\<open>internal/webrtc/voice.go\<close>): answering a client's offer by rebuilding its peer connection,
  closing a session, and recorder taps.  The router's renegotiation hook is the scheduler.  The peer
  connection engine is a parameter: \<open>peer\<close> is the new peer connection (None when creating it fails)
  and \<open>accepts\<close> says whether it accepts the SDP offer.
\<close>

definition hook_all :: "time \<Rightarrow> router_out list \<Rightarrow> voice \<Rightarrow> voice" where
  "hook_all now outs v = fold (\<lambda>x v. case x of Renegotiate c \<Rightarrow> schedule_locked c None now v | PLI _ _ \<Rightarrow> v) outs v"

definition set_peer :: "client_id \<Rightarrow> bool \<Rightarrow> voice \<Rightarrow> voice" where
  "set_peer c b v = voice_step (VPeer c b) v"

datatype offer_result = OfferNoPeer | OfferRejected | OfferAnswered

definition HandleOffer ::
  "add_ok \<Rightarrow> rid_order \<Rightarrow> time \<Rightarrow> nat option \<Rightarrow> bool \<Rightarrow> client_id \<Rightarrow> voice \<times> router \<Rightarrow> (voice \<times> router) \<times> offer_result" where
  "HandleOffer ok ord now peer accepts c st =
     (case st of (v, r) \<Rightarrow>
        (case DetachPeerKeepChannel c r of (r1, o1) \<Rightarrow>
           let v1 = set_peer c False (hook_all now o1 (stopReneg c v))
           in (case peer of
                 None \<Rightarrow> ((v1, r1), OfferNoPeer)
               | Some pc \<Rightarrow>
                   (case EnsurePublishers ok ord now c (AttachPeer c pc r1) of (r2, o2) \<Rightarrow>
                      let v2 = hook_all now o2 (set_peer c True v1)
                      in if accepts then ((v2, r2), OfferAnswered)
                         else (case DetachPeerKeepChannel c r2 of (r3, o3) \<Rightarrow>
                                 ((set_peer c False (hook_all now o3 v2), r3), OfferRejected))))))"

definition ClosePeer :: "time \<Rightarrow> client_id \<Rightarrow> voice \<times> router \<Rightarrow> voice \<times> router" where
  "ClosePeer now c st =
     (case st of (v, r) \<Rightarrow>
        (case DetachPeer c r of (r1, outs) \<Rightarrow> (set_peer c False (hook_all now outs (stopReneg c v)), r1)))"

definition AddTap :: "add_ok \<Rightarrow> rid_order \<Rightarrow> time \<Rightarrow> channel_id \<Rightarrow> client_id \<Rightarrow> nat option \<Rightarrow> nat option \<Rightarrow> router \<Rightarrow> router \<times> router_out list" where
  "AddTap ok ord now ch tap audio video r =
     (let r1 = (case audio of None \<Rightarrow> r | Some w \<Rightarrow> AddOutput tap w r);
          r2 = (case video of None \<Rightarrow> r1 | Some w \<Rightarrow> addVideoOutput tap w r1)
      in rt_JoinChannel ok ord now ch tap r2)"

definition RemoveTap :: "client_id \<Rightarrow> router \<Rightarrow> router \<times> router_out list" where
  "RemoveTap tap r = DetachPeer tap r"

definition channelAudioFor :: "(channel_id \<Rightarrow> channel_audio) option \<Rightarrow> client_id \<Rightarrow> router \<Rightarrow> channel_audio" where
  "channelAudioFor lookup c r =
     (let zero = \<lparr>ca_Bitrate = 0, ca_FEC = False, ca_DTX = False, ca_Stereo = False\<rparr>
      in case lookup of
           None \<Rightarrow> zero
         | Some f \<Rightarrow> (case fmlookup (rt_clientChan r) c of None \<Rightarrow> zero | Some ch \<Rightarrow> f ch))"

subsection \<open>Frames\<close>

lemma hook_all_inv: "voice_inv v \<Longrightarrow> voice_inv (hook_all now outs v)"
proof (induction outs arbitrary: v)
  case Nil
  then show ?case by (simp add: hook_all_def)
next
  case (Cons x outs)
  have "voice_inv (case x of Renegotiate c \<Rightarrow> schedule_locked c None now v | PLI _ _ \<Rightarrow> v)"
    using voice_step_inv [OF Cons.prems, of "VChange _ now"] Cons.prems by (cases x) simp_all
  with Cons.IH show ?case by (simp add: hook_all_def)
qed

lemma set_peer_inv: "voice_inv v \<Longrightarrow> voice_inv (set_peer c b v)"
  unfolding set_peer_def by (rule voice_step_inv)

lemma stopReneg_inv: "voice_inv v \<Longrightarrow> voice_inv (stopReneg c v)"
  using voice_step_inv [of v "VStop c"] by simp

lemma keep_detach:
  "rt_clientChan (fst (DetachPeerKeepChannel c r)) = rt_clientChan r" "rt_members (fst (DetachPeerKeepChannel c r)) = rt_members r"
  "rt_pubPeers (fst (DetachPeerKeepChannel c r)) = fmdrop c (rt_pubPeers r)"
  by (simp_all add: DetachPeerKeepChannel_def detachPeer_fst detached_props split: option.splits)

lemma ensure_fields:
  "rt_clientChan (fst (EnsurePublishers ok ord now c r)) = rt_clientChan r" "rt_members (fst (EnsurePublishers ok ord now c r)) = rt_members r"
  "rt_pubPeers (fst (EnsurePublishers ok ord now c r)) = rt_pubPeers r"
proof -
  have "core_eq (fst (EnsurePublishers ok ord now c r)) r \<or> (\<exists>ch. core_eq (fst (EnsurePublishers ok ord now c r)) (connect ok ch c r))"
    using EnsurePublishers_core [of ok ord now c r] by (auto split: option.splits)
  then have "base_eq (fst (EnsurePublishers ok ord now c r)) r"
    using base_eq_rest [OF connect_rest] base_eq_trans by (auto simp: core_eq_def)
  then show "rt_clientChan (fst (EnsurePublishers ok ord now c r)) = rt_clientChan r" "rt_members (fst (EnsurePublishers ok ord now c r)) = rt_members r"
    "rt_pubPeers (fst (EnsurePublishers ok ord now c r)) = rt_pubPeers r" by (simp_all add: base_eq_def)
qed

lemma rebuild_full:
  assumes "rt_full (r, att)" "no_fail ok" "fmlookup (rt_pubPeers r) c = None"
  shows "rt_full (fst (EnsurePublishers ok ord now c (AttachPeer c pc r)), att |-| {|c|})"
proof -
  have "rt_full (rt_step (RAttach c pc) (r, att))" by (rule rt_step_full [OF assms(1)]) (use assms(3) in simp)
  then have "rt_full (rt_step (REnsure ok ord now c) (rt_step (RAttach c pc) (r, att)))" by (rule rt_step_full) (use assms(2) in simp)
  moreover have "finsert c att |-| {|c|} = att |-| {|c|}" by auto
  ultimately show ?thesis by simp
qed

lemma detach_full: "rt_full (r, att) \<Longrightarrow> rt_full (fst (DetachPeerKeepChannel c r), att |-| {|c|})"
  unfolding DetachPeerKeepChannel_def by (rule detachPeer_full)


lemma hook_all_other:
  assumes "voice_inv v" "Renegotiate c \<notin> set outs"
  shows "fmlookup (vc_reneg (hook_all now outs v)) c = fmlookup (vc_reneg v) c"
  using assms
proof (induction outs arbitrary: v)
  case Nil
  then show ?case by (simp add: hook_all_def)
next
  case (Cons x outs)
  let ?w = "case x of Renegotiate c \<Rightarrow> schedule_locked c None now v | PLI _ _ \<Rightarrow> v"
  have w: "voice_inv ?w" using voice_step_inv [OF Cons.prems(1), of "VChange _ now"] Cons.prems by (cases x) simp_all
  have "fmlookup (vc_reneg ?w) c = fmlookup (vc_reneg v) c"
  proof (cases x)
    case (Renegotiate d)
    then have ne: "c \<noteq> d" using Cons.prems(2) by auto
    obtain p v1 e where a: "reneg_alloc d v = (p, v1)" "schedule_locked d None now v =
      note_event (EvSchedule p) (spawn (TSched d p (rn_generation (reneg_at v p) + 1) e)
        (set_reneg p (reneg_at v p\<lparr>rn_timer := None, rn_generation := rn_generation (reneg_at v p) + 1, rn_pending := True\<rparr>)
          (stop_timer (rn_timer (reneg_at v p)) v1)))"
      using schedule_cases [OF voice_invD(1) [OF Cons.prems(1)], of None d now] by auto
    with Renegotiate alloc_props(7) [OF voice_invD(1) [OF Cons.prems(1)] a(1) ne] show ?thesis by (simp add: voice_simps)
  qed simp
  with Cons.IH [OF w] Cons.prems(2) show ?case by (simp add: hook_all_def)
qed

lemma leave_outs: "Renegotiate c \<notin> set (snd (rt_LeaveChannel ch c r))"
  by (auto simp: rt_LeaveChannel_def leave_locked_def removePairsLocked_def hook_outs_def case_prod_beta)

lemma detach_outs: "Renegotiate c \<notin> set (snd (detachPeer c leave r))"
proof -
  obtain r1 ren where d: "detach_locked c leave r = (r1, ren)" by fastforce
  have "c |\<notin>| ren" using detach_locked_props(2) [OF d] by simp
  then have "Renegotiate c \<notin> set (hook_outs ren)" by (auto simp: hook_outs_def)
  with leave_outs [of c] show ?thesis by (auto simp: detachPeer_def d Let_def case_prod_beta split: option.splits)
qed

lemma detach_pairs:
  assumes "rt_inv r"
  shows "pair (fst (DetachPeer c r)) c x = None \<and> pair (fst (DetachPeer c r)) x c = None \<and> ChannelOf c (fst (DetachPeer c r)) = None \<and>
    fmlookup (rt_pubPeers (fst (DetachPeer c r))) c = None \<and> (x \<noteq> c \<longrightarrow> ChannelOf x (fst (DetachPeer c r)) = ChannelOf x r)"
proof (cases "fmlookup (rt_clientChan r) c")
  case None
  then show ?thesis by (simp add: DetachPeer_def detachPeer_fst detached_props ChannelOf_def)
next
  case (Some ch)
  have d: "rt_inv (detached c True r)" by (rule detached_inv [OF assms])
  then have mem: "membership_ok (detached c True r)" by (simp add: rt_inv_def)
  note l = leave_locked_pair [OF mem, of ch c] leave_locked_fields [OF mem, of ch c]
  from Some show ?thesis by (simp add: DetachPeer_def detachPeer_fst l detached_props ChannelOf_def)
qed

subsection \<open>Properties\<close>

text \<open>A client offer rebuilds the peer connection and nothing else.  In every reachable state without failing
  track creation, and whatever the engine answers, every client keeps its channel and every other
  client its peer; the client has the new peer exactly when the offer was answered, and then it and
  every other attached member of its channel have output tracks for each other; router and scheduler
  stay consistent.\<close>

theorem HandleOffer_rebuilds:
  assumes "ops_ok rt_step (\<lambda>p st. rt_ok p st \<and> no_fail_op p) ops (NewRouter, {||})" "run_ops rt_step ops (NewRouter, {||}) = (r, att)"
    and "no_fail ok" "HandleOffer ok ord now peer accepts c (run_ops voice_step vs NewVoice, r) = ((v', r'), res)"
  shows "ChannelOf x r' = ChannelOf x r \<and> (x \<noteq> c \<longrightarrow> fmlookup (rt_pubPeers r') x = fmlookup (rt_pubPeers r) x) \<and>
    (res = OfferAnswered \<longleftrightarrow> accepts \<and> peer \<noteq> None) \<and> fmlookup (rt_pubPeers r') c = (if res = OfferAnswered then peer else None) \<and>
    (res = OfferAnswered \<and> x \<noteq> c \<and> same_channel c x r' \<and> attached att r' x \<longrightarrow> pair r' c x \<noteq> None \<and> pair r' x c \<noteq> None) \<and>
    rt_inv r' \<and> voice_inv v'"
proof -
  have full: "rt_full (r, att)" using rt_nofail.run_start_inv [OF assms(1)] assms(2) by simp
  have "ops_ok voice_step (\<lambda>q v. True) qs y" for qs y by (induction qs arbitrary: y) simp_all
  then have vi: "voice_inv (run_ops voice_step vs NewVoice)" by (rule vc.run_start_inv)
  obtain r1 o1 where d1: "DetachPeerKeepChannel c r = (r1, o1)" by fastforce
  have f1: "rt_clientChan r1 = rt_clientChan r" "rt_pubPeers r1 = fmdrop c (rt_pubPeers r)" "rt_full (r1, att |-| {|c|})"
    using keep_detach [of c r] detach_full [OF full, of c] d1 by simp_all
  define v1 where "v1 = set_peer c False (hook_all now o1 (stopReneg c (run_ops voice_step vs NewVoice)))"
  have v1: "voice_inv v1" unfolding v1_def by (intro set_peer_inv hook_all_inv stopReneg_inv vi)
  show ?thesis
  proof (cases peer)
    case None
    then have "v' = v1" "r' = r1" "res = OfferNoPeer" using assms(4) d1 by (simp_all add: HandleOffer_def v1_def Let_def)
    with f1 v1 None show ?thesis by (simp add: ChannelOf_def rt_full_def)
  next
    case (Some pc)
    obtain r2 o2 where e2: "EnsurePublishers ok ord now c (AttachPeer c pc r1) = (r2, o2)" by fastforce
    have f2: "rt_clientChan r2 = rt_clientChan r" "rt_pubPeers r2 = fmupd c pc (fmdrop c (rt_pubPeers r))" "rt_full (r2, att |-| {|c|})"
    proof -
      show "rt_clientChan r2 = rt_clientChan r" "rt_pubPeers r2 = fmupd c pc (fmdrop c (rt_pubPeers r))"
        using ensure_fields [of ok ord now c "AttachPeer c pc r1"] e2 f1 by (simp_all add: AttachPeer_def)
      have "rt_full (r2, (att |-| {|c|}) |-| {|c|})" using rebuild_full [OF f1(3) assms(3), of c ord now pc] e2 f1(2) by simp
      moreover have "(att |-| {|c|}) |-| {|c|} = att |-| {|c|}" by auto
      ultimately show "rt_full (r2, att |-| {|c|})" by simp
    qed
    define v2 where "v2 = hook_all now o2 (set_peer c True v1)"
    have v2: "voice_inv v2" unfolding v2_def by (intro set_peer_inv hook_all_inv v1)
    show ?thesis
    proof (cases accepts)
      case True
      then have res: "v' = v2" "r' = r2" "res = OfferAnswered" using assms(4) d1 e2 Some by (simp_all add: HandleOffer_def v1_def v2_def Let_def)
      have con: "connected (att |-| {|c|}) r2" and ri: "rt_inv r2" using f2(3) by (simp_all add: rt_full_def)
      have "pair r2 c x \<noteq> None \<and> pair r2 x c \<noteq> None" if "x \<noteq> c" "same_channel c x r2" "attached att r2 x"
        using con that f2(2) by (auto simp: connected_def attached_def same_channel_alt)
      with res f2 v2 ri Some True show ?thesis by (simp add: ChannelOf_def)
    next
      case False
      obtain r3 o3 where d3: "DetachPeerKeepChannel c r2 = (r3, o3)" by fastforce
      have res: "v' = set_peer c False (hook_all now o3 v2)" "r' = r3" "res = OfferRejected"
        using assms(4) d1 e2 d3 Some False by (simp_all add: HandleOffer_def v1_def v2_def Let_def)
      have "rt_clientChan r3 = rt_clientChan r" "rt_pubPeers r3 = fmdrop c (rt_pubPeers r2)" "rt_inv r3"
        using keep_detach [of c r2] detach_full [OF f2(3), of c] d3 f2(1) by (simp_all add: rt_full_def)
      with res f2 set_peer_inv [OF hook_all_inv [OF v2]] False show ?thesis by (simp add: ChannelOf_def)
    qed
  qed
qed

theorem HandleOffer_rebuilds_witness:
  "ChannelOf ''a'' (snd (fst (HandleOffer all_ok no_order 0 (Some 20) True ''a'' (NewVoice, fst (run_ops rt_step demo_ops (NewRouter, {||})))))) = Some 1"
proof -
  let ?st = "run_ops rt_step demo_ops (NewRouter, {||})"
  let ?h = "HandleOffer all_ok no_order 0 (Some 20) True ''a'' (run_ops voice_step [] NewVoice, fst ?st)"
  have a: "?st = (fst ?st, snd ?st)" by simp
  have b: "no_fail all_ok" by (simp add: no_fail_def all_ok_def)
  have c: "?h = ((fst (fst ?h), snd (fst ?h)), snd ?h)" by simp
  have "ChannelOf ''a'' (fst ?st) = Some 1" by code_simp
  with HandleOffer_rebuilds [OF demo_run(2) a b c, of "''a''"] show ?thesis by simp
qed

text \<open>Closing a session forgets it.  The client is in no channel, has no peer, no output track towards or from
  anyone and no scheduling state, so no timer of the old session can send an offer; all other clients
  keep their channels.\<close>

theorem ClosePeer_forgets:
  assumes "ops_ok rt_step rt_ok ops (NewRouter, {||})"
    and "ClosePeer now c (run_ops voice_step vs NewVoice, fst (run_ops rt_step ops (NewRouter, {||}))) = (v', r')"
  shows "ChannelOf c r' = None \<and> fmlookup (rt_pubPeers r') c = None \<and> pair r' c x = None \<and> pair r' x c = None \<and>
    fmlookup (vc_reneg v') c = None \<and> c |\<notin>| vc_peers v' \<and> (x \<noteq> c \<longrightarrow> ChannelOf x r' = ChannelOf x (fst (run_ops rt_step ops (NewRouter, {||}))))"
proof -
  let ?r = "fst (run_ops rt_step ops (NewRouter, {||}))" and ?v = "run_ops voice_step vs NewVoice"
  have ri: "rt_inv ?r" using rt.run_start_inv [OF assms(1)] by simp
  have "ops_ok voice_step (\<lambda>q v. True) qs y" for qs y by (induction qs arbitrary: y) simp_all
  then have vi: "voice_inv ?v" by (rule vc.run_start_inv)
  have r': "r' = fst (DetachPeer c ?r)" and v': "v' = set_peer c False (hook_all now (snd (DetachPeer c ?r)) (stopReneg c ?v))"
    using assms(2) by (simp_all add: ClosePeer_def case_prod_beta)
  have "fmlookup (vc_reneg (stopReneg c ?v)) c = None" by (simp add: stopReneg_def voice_simps split: option.splits)
  moreover have "Renegotiate c \<notin> set (snd (DetachPeer c ?r))" unfolding DetachPeer_def by (rule detach_outs)
  ultimately have "fmlookup (vc_reneg v') c = None" "c |\<notin>| vc_peers v'"
    using hook_all_other [OF stopReneg_inv [OF vi]] by (simp_all add: v' set_peer_def)
  with detach_pairs [OF ri, of c x] show ?thesis by (simp add: r')
qed

theorem ClosePeer_forgets_witness:
  "ChannelOf ''b'' (snd (ClosePeer 0 ''a'' (NewVoice, fst (run_ops rt_step demo_ops (NewRouter, {||}))))) = Some 1"
proof -
  let ?h = "ClosePeer 0 ''a'' (run_ops voice_step [] NewVoice, fst (run_ops rt_step demo_ops (NewRouter, {||})))"
  have c: "?h = (fst ?h, snd ?h)" by simp
  have "ChannelOf ''b'' (fst (run_ops rt_step demo_ops (NewRouter, {||}))) = Some 1" by code_simp
  with ClosePeer_forgets [OF demo_run(1) c, of "''b''"] show ?thesis by simp
qed

end
