(* ===== verification/Server_Scopes.thy ===== *)
theory Server_Scopes
  imports Server_Auth Channel_Lifecycle Chat_Keys Voice_Facade
begin

text \<open>
  What happens when a client enters or leaves a channel (\<^verbatim>\<open>internal/server/handlers.go\<close>, \<^verbatim>\<open>admin.go\<close>, \<^verbatim>\<open>tcp.go\<close>,
  \<^verbatim>\<open>e2e.go\<close>, \<^verbatim>\<open>subscriptions.go\<close>): joining, moving, kicking, banning and disconnecting, which keep the state, the
  channel table's timers, the voice router and the chat keys in step.  This is where the components of the other theories meet.

  A handler runs on \<open>scope_world\<close>.  The environment \<open>scope_env\<close> gives the clock, the answers of the permission queries, which writes fail,
  the order in which map iterations visit ids, and the random bytes and faults of each call into the key manager (\<open>key_call\<close>
  names the call; one handler makes each call at most once).  Frames, events and audit entries are appended to \<open>sw_out\<close>.
\<close>

subsection \<open>State and environment\<close>

datatype key_call = CallRotate scope_id | CallEnsure client_id scope_id | CallSeal client_id scope_id nat

datatype scope_out =
    SError client_id err_code
  | SKey client_id scope_id nat string
  | SBundle client_id scope_id "(scope_id \<times> nat \<times> string) list" "nat list"
  | SSubs client_id "channel_id list"
  | SMoved client_id channel_id channel_id string
  | SKicked client_id channel_id string string bool bool "time option"
  | STold client_id
  | SClosed client_id
  | SUnregistered client_id
  | SLeft client_id bool
  | SAudit string string string

record scope_env =
  sn_key :: "key_call \<Rightarrow> key_env"
  sn_now :: time
  sn_ask :: "db_query \<Rightarrow> db_reply"
  sn_write :: "scope_out \<Rightarrow> bool"
  sn_order :: "client_id fset \<Rightarrow> client_id list"
  sn_track :: add_ok
  sn_rids :: rid_order
  sn_banFails :: bool
  sn_banID :: int

record scope_deps =
  sd_state :: bool
  sd_channels :: bool
  sd_voice :: bool
  sd_broadcast :: bool
  sd_bans :: bool
  sd_banAdmin :: bool
  sd_groups :: bool
  sd_perms :: bool
  sd_guestGroup :: int
  sd_nacl :: nacl
  sd_argon :: argon
  sd_rotateMin :: int
  sd_rate :: bool

record chat_bucket =
  cb_tokens :: int
  cb_reset :: time

record chat_rate =
  cr_max :: int
  cr_window :: int
  cr_buckets :: "(string, chat_bucket) fmap"

record scope_world =
  sw_cm :: cmgr
  sw_conns :: "(client_id, tcp_client) fmap"
  sw_loader :: loader
  sw_keys :: chat_keys
  sw_voice :: voice
  sw_router :: router
  sw_rot :: "channel_id fset"
  sw_users :: auth_db
  sw_rate :: chat_rate
  sw_out :: "scope_out list"

definition st :: "scope_world \<Rightarrow> manager" where
  "st w = cm_state (sw_cm w)"

definition put_state :: "manager \<Rightarrow> scope_world \<Rightarrow> scope_world" where
  "put_state m w = w\<lparr>sw_cm := (sw_cm w)\<lparr>cm_state := m\<rparr>\<rparr>"

definition clientByID :: "client_id \<Rightarrow> scope_world \<Rightarrow> tcp_client option" where
  "clientByID i w = fmlookup (sw_conns w) i"

definition log_out :: "scope_out \<Rightarrow> scope_world \<Rightarrow> scope_world" where
  "log_out x w = w\<lparr>sw_out := sw_out w @ [x]\<rparr>"

definition write_out :: "scope_env \<Rightarrow> scope_out \<Rightarrow> scope_world \<Rightarrow> bool \<times> scope_world" where
  "write_out e x w = (sn_write e x, log_out x w)"

definition refuse :: "scope_env \<Rightarrow> tcp_client \<Rightarrow> err_code \<Rightarrow> scope_world \<Rightarrow> bool \<times> scope_world" where
  "refuse e c code w = write_out e (SError (tc_ID c) code) w"

definition broadcastEvent :: "scope_deps \<Rightarrow> scope_out \<Rightarrow> scope_world \<Rightarrow> scope_world" where
  "broadcastEvent d x w = (if sd_broadcast d then log_out x w else w)"

definition audit :: "scope_deps \<Rightarrow> string \<Rightarrow> string \<Rightarrow> string \<Rightarrow> scope_world \<Rightarrow> scope_world" where
  "audit d actor action target w = (if sd_groups d then log_out (SAudit actor action target) w else w)"

definition perms_of :: "scope_deps \<Rightarrow> scope_env \<Rightarrow> scope_world \<Rightarrow> perm_deps" where
  "perms_of d e w =
     \<lparr>pd_wired = sd_perms d, pd_ask = sn_ask e, pd_now = sn_now e, pd_guestGroup = sd_guestGroup d,
      pd_state = (if sd_state d then Some (st w) else None)\<rparr>"

subsection \<open>The rate limiter of chat requests\<close>

definition newChatRateLimiter :: "int \<Rightarrow> int \<Rightarrow> chat_rate" where
  "newChatRateLimiter mx window =
     \<lparr>cr_max = (if mx \<le> 0 then 5 else mx), cr_window = (if window \<le> 0 then 3000000000 else window), cr_buckets = fmempty\<rparr>"

definition allowLimit :: "string \<Rightarrow> time \<Rightarrow> int \<Rightarrow> chat_rate \<Rightarrow> bool \<times> chat_rate" where
  "allowLimit uid now limit l =
     (let lim = (if limit \<le> 0 then cr_max l else limit);
          b = (case fmlookup (cr_buckets l) uid of
                 None \<Rightarrow> \<lparr>cb_tokens = lim, cb_reset = now + cr_window l\<rparr>
               | Some b \<Rightarrow> if now > cb_reset b then \<lparr>cb_tokens = lim, cb_reset = now + cr_window l\<rparr> else b)
      in if cb_tokens b \<le> 0 then (False, l\<lparr>cr_buckets := fmupd uid b (cr_buckets l)\<rparr>)
         else (True, l\<lparr>cr_buckets := fmupd uid (b\<lparr>cb_tokens := cb_tokens b - 1\<rparr>) (cr_buckets l)\<rparr>))"

definition allow :: "string \<Rightarrow> time \<Rightarrow> chat_rate \<Rightarrow> bool \<times> chat_rate" where
  "allow uid now l = allowLimit uid now (cr_max l) l"

text \<open>A nil limiter lets everything pass.\<close>

definition rate_ok :: "scope_deps \<Rightarrow> scope_env \<Rightarrow> string \<Rightarrow> scope_world \<Rightarrow> bool \<times> scope_world" where
  "rate_ok d e uid w =
     (if \<not> sd_rate d then (True, w)
      else (case allow uid (sn_now e) (sw_rate w) of (b, l) \<Rightarrow> (b, w\<lparr>sw_rate := l\<rparr>)))"

subsection \<open>Subscriptions\<close>

definition subscriptionSet :: "scope_deps \<Rightarrow> tcp_client \<Rightarrow> scope_world \<Rightarrow> channel_id list" where
  "subscriptionSet d c w =
     (if \<not> sd_state d then []
      else
        let own = (case ClientChannelState (tc_ID c) (st w) of Some (ch, _) \<Rightarrow> if ch \<noteq> 0 then [ch] else [] | None \<Rightarrow> [])
        in sort (own @ filter (\<lambda>i. i \<notin> set own) (Subscriptions (tc_ID c) (st w))))"

definition sendSubscriptionState :: "scope_deps \<Rightarrow> scope_env \<Rightarrow> tcp_client \<Rightarrow> scope_world \<Rightarrow> bool \<times> scope_world" where
  "sendSubscriptionState d e c w = write_out e (SSubs (tc_ID c) (subscriptionSet d c w)) w"

text \<open>The scan separates the subscribers that are still entitled from those that lost the power.\<close>

fun sub_scan :: "scope_deps \<Rightarrow> scope_env \<Rightarrow> channel_id \<Rightarrow> client_id list \<Rightarrow> scope_world \<Rightarrow> tcp_client list \<times> tcp_client list \<times> scope_world" where
  "sub_scan d e ch [] w = ([], [], w)"
| "sub_scan d e ch (i # is) w =
     (case GetClient i (st w) of
        None \<Rightarrow> sub_scan d e ch is w
      | Some sc \<Rightarrow>
          if c_ChannelID sc = ch then sub_scan d e ch is w
          else
            (case clientByID i w of
               None \<Rightarrow> sub_scan d e ch is w
             | Some c \<Rightarrow>
                 (case subscribeAllowed (perms_of d e w) c ch (sw_loader w) of
                    (b, l) \<Rightarrow>
                      (case sub_scan d e ch is (w\<lparr>sw_loader := l\<rparr>) of
                         (entitled, revoked, w') \<Rightarrow> if b then (c # entitled, revoked, w') else (entitled, c # revoked, w')))))"

definition drop_subscriber :: "scope_deps \<Rightarrow> scope_env \<Rightarrow> channel_id \<Rightarrow> tcp_client \<Rightarrow> scope_world \<Rightarrow> scope_world" where
  "drop_subscriber d e ch c w = snd (sendSubscriptionState d e c (put_state (Unsubscribe (tc_ID c) [ch] (st w)) w))"

definition channelSubscribers :: "scope_deps \<Rightarrow> scope_env \<Rightarrow> channel_id \<Rightarrow> scope_world \<Rightarrow> tcp_client list \<times> scope_world" where
  "channelSubscribers d e ch w =
     (if ch = 0 \<or> \<not> sd_state d then ([], w)
      else
        (case sub_scan d e ch (sn_order e (c_ClientID |`| ChannelSubscribers ch (st w))) w of
           (entitled, revoked, w1) \<Rightarrow> (entitled, fold (drop_subscriber d e ch) revoked w1)))"

subsection \<open>Chat keys of a scope\<close>

definition deliverScopeKey :: "scope_deps \<Rightarrow> scope_env \<Rightarrow> tcp_client \<Rightarrow> scope_id \<Rightarrow> scope_world \<Rightarrow> bool \<times> scope_world" where
  "deliverScopeKey d e c scope w =
     (if \<not> sd_state d \<or> \<not> ck_configured (sw_keys w) then (True, w)
      else
        (case GetClient (tc_ID c) (st w) of
           None \<Rightarrow> (True, w)
         | Some sc \<Rightarrow>
             if c_E2EPublicKey sc = [] then (True, w)
             else
               (case EnsureScope (sd_nacl d) (sn_key e (CallEnsure (tc_ID c) scope)) scope (sw_keys w) of
                  (Inl _, ck) \<Rightarrow> (False, w\<lparr>sw_keys := ck\<rparr>)
                | (Inr (gen, _), ck) \<Rightarrow>
                    (case sealFor (sd_nacl d) (sn_key e (CallSeal (tc_ID c) scope gen)) scope gen (c_E2EPublicKey sc) ck of
                       (Inl _, ck1) \<Rightarrow> (False, w\<lparr>sw_keys := ck1\<rparr>)
                     | (Inr (sid, g, sealed), ck1) \<Rightarrow> write_out e (SKey (tc_ID c) sid g sealed) (w\<lparr>sw_keys := ck1\<rparr>)))))"

definition scopeReadable :: "scope_deps \<Rightarrow> scope_env \<Rightarrow> tcp_client \<Rightarrow> scope_id \<Rightarrow> scope_world \<Rightarrow> bool \<times> scope_world" where
  "scopeReadable d e c scope w =
     (if scope = 0 then (True, w)
      else if \<not> sd_state d then (False, w)
      else
        (case ClientChannelState (tc_ID c) (st w) of
           None \<Rightarrow> (False, w)
         | Some (ch, _) \<Rightarrow>
             if ch = scope then (True, w)
             else if \<not> IsSubscribed (tc_ID c) scope (st w) then (False, w)
             else (case subscribeAllowed (perms_of d e w) c scope (sw_loader w) of (b, l) \<Rightarrow> (b, w\<lparr>sw_loader := l\<rparr>))))"

definition deliver_to :: "scope_deps \<Rightarrow> scope_env \<Rightarrow> scope_id \<Rightarrow> tcp_client \<Rightarrow> scope_world \<Rightarrow> scope_world" where
  "deliver_to d e scope c w = snd (deliverScopeKey d e c scope w)"

definition deliver_member :: "scope_deps \<Rightarrow> scope_env \<Rightarrow> scope_id \<Rightarrow> client_id \<Rightarrow> scope_world \<Rightarrow> scope_world" where
  "deliver_member d e scope i w = (case clientByID i w of None \<Rightarrow> w | Some c \<Rightarrow> deliver_to d e scope c w)"

definition doRotateScopeKey :: "scope_deps \<Rightarrow> scope_env \<Rightarrow> channel_id \<Rightarrow> scope_world \<Rightarrow> scope_world" where
  "doRotateScopeKey d e ch w =
     (case rotate_key (sd_nacl d) (sn_key e (CallRotate ch)) ch (sw_keys w) of
        (Inl _, ck) \<Rightarrow> w\<lparr>sw_keys := ck\<rparr>
      | (Inr _, ck) \<Rightarrow>
          let w1 = fold (deliver_member d e ch) (sn_order e (c_ClientID |`| ChannelMembers ch (st w))) (w\<lparr>sw_keys := ck\<rparr>)
          in (case channelSubscribers d e ch w1 of (entitled, w2) \<Rightarrow> fold (deliver_to d e ch) entitled w2))"

text \<open>With a window the rotation waits in \<open>sw_rot\<close> for its timer, which \<open>rotationFires\<close> is.\<close>

definition rotateScopeKey :: "scope_deps \<Rightarrow> scope_env \<Rightarrow> channel_id \<Rightarrow> scope_world \<Rightarrow> scope_world" where
  "rotateScopeKey d e ch w =
     (if ch = 0 \<or> \<not> sd_state d \<or> \<not> ck_configured (sw_keys w) then w
      else if sd_rotateMin d \<le> 0 then doRotateScopeKey d e ch w
      else if ch |\<in>| sw_rot w then w
      else w\<lparr>sw_rot := finsert ch (sw_rot w)\<rparr>)"

definition rotationFires :: "scope_deps \<Rightarrow> scope_env \<Rightarrow> channel_id \<Rightarrow> scope_world \<Rightarrow> scope_world" where
  "rotationFires d e ch w = doRotateScopeKey d e ch (w\<lparr>sw_rot := sw_rot w |-| {|ch|}\<rparr>)"

text \<open>The copy of the key in the users table is not modelled; a failure to write it is only logged.\<close>

definition handleKeyPublish :: "scope_deps \<Rightarrow> scope_env \<Rightarrow> tcp_client \<Rightarrow> string option \<Rightarrow> scope_world \<Rightarrow> bool \<times> scope_world" where
  "handleKeyPublish d e c msg w =
     (case msg of
        None \<Rightarrow> refuse e c errCodeMalformed w
      | Some key \<Rightarrow>
          if (case DecodeString key of None \<Rightarrow> True | Some raw \<Rightarrow> length raw \<noteq> 32) then refuse e c errCodeMalformed w
          else if \<not> sd_state d then refuse e c errCodeUnavailable w
          else
            let w1 = put_state (SetE2EPublicKey (tc_ID c) key (st w)) w
            in (case deliverScopeKey d e c 0 w1 of
                  (False, w2) \<Rightarrow> (False, w2)
                | (True, w2) \<Rightarrow>
                    (case GetClient (tc_ID c) (st w2) of
                       None \<Rightarrow> (True, w2)
                     | Some sc \<Rightarrow> if c_ChannelID sc = 0 then (True, w2) else deliverScopeKey d e c (c_ChannelID sc) w2)))"

definition maxKeysPerResponse :: nat where "maxKeysPerResponse = 64"

fun bundle_loop ::
  "scope_deps \<Rightarrow> scope_env \<Rightarrow> client_id \<Rightarrow> string \<Rightarrow> scope_id \<Rightarrow> nat list \<Rightarrow> chat_keys \<Rightarrow> (scope_id \<times> nat \<times> string) list \<times> nat list \<times> chat_keys" where
  "bundle_loop d e i pub scope [] ck = ([], [], ck)"
| "bundle_loop d e i pub scope (g # gs) ck =
     (case sealFor (sd_nacl d) (sn_key e (CallSeal i scope g)) scope g pub ck of
        (Inl _, ck1) \<Rightarrow> (case bundle_loop d e i pub scope gs ck1 of (ks, rs, ck2) \<Rightarrow> (ks, g # rs, ck2))
      | (Inr k, ck1) \<Rightarrow> (case bundle_loop d e i pub scope gs ck1 of (ks, rs, ck2) \<Rightarrow> (k # ks, rs, ck2)))"

definition handleChatKeyRequest ::
  "scope_deps \<Rightarrow> scope_env \<Rightarrow> tcp_client \<Rightarrow> (scope_id \<times> nat list) option \<Rightarrow> scope_world \<Rightarrow> bool \<times> scope_world" where
  "handleChatKeyRequest d e c msg w =
     (case msg of
        None \<Rightarrow> refuse e c errCodeMalformed w
      | Some (scope, ids) \<Rightarrow>
          if ids = [] \<or> length ids > maxKeysPerResponse then refuse e c errCodeMalformed w
          else
            (case rate_ok d e (tc_UniqueID c) w of
               (False, w1) \<Rightarrow> refuse e c errCodeMalformed w1
             | (True, w1) \<Rightarrow>
                 if \<not> sd_state d then refuse e c errCodeUnavailable w1
                 else
                   (case GetClient (tc_ID c) (st w1) of
                      None \<Rightarrow> refuse e c errCodePermissionDenied w1
                    | Some sc \<Rightarrow>
                        if c_E2EPublicKey sc = [] then refuse e c errCodePermissionDenied w1
                        else
                          (case scopeReadable d e c scope w1 of
                             (False, w2) \<Rightarrow> write_out e (SBundle (tc_ID c) scope [] ids) w2
                           | (True, w2) \<Rightarrow>
                               (case bundle_loop d e (tc_ID c) (c_E2EPublicKey sc) scope ids (sw_keys w2) of
                                  (ks, rs, ck) \<Rightarrow> write_out e (SBundle (tc_ID c) scope ks rs) (w2\<lparr>sw_keys := ck\<rparr>))))))"

subsection \<open>Moving\<close>

definition voice_leave :: "scope_env \<Rightarrow> client_id \<Rightarrow> channel_id \<Rightarrow> scope_world \<Rightarrow> scope_world" where
  "voice_leave e i ch w =
     (case rt_LeaveChannel ch i (sw_router w) of (r, outs) \<Rightarrow> w\<lparr>sw_router := r, sw_voice := hook_all (sn_now e) outs (sw_voice w)\<rparr>)"

definition voice_join :: "scope_env \<Rightarrow> client_id \<Rightarrow> channel_id \<Rightarrow> scope_world \<Rightarrow> scope_world" where
  "voice_join e i ch w =
     (case rt_JoinChannel (sn_track e) (sn_rids e) (sn_now e) ch i (sw_router w) of
        (r, outs) \<Rightarrow> w\<lparr>sw_router := r, sw_voice := hook_all (sn_now e) outs (sw_voice w)\<rparr>)"

definition afterMove :: "scope_deps \<Rightarrow> scope_env \<Rightarrow> client_id \<Rightarrow> channel_id \<Rightarrow> string \<Rightarrow> channel_id \<Rightarrow> scope_world \<Rightarrow> scope_world" where
  "afterMove d e i ch by prev w =
     (let left = (prev \<noteq> 0 \<and> prev \<noteq> ch);
          w1 = (if sd_voice d then voice_join e i ch (if left then voice_leave e i prev w else w) else w);
          w2 = (if left then rotateScopeKey d e prev w1 else w1);
          w3 = (case clientByID i w2 of
                  None \<Rightarrow> w2
                | Some c \<Rightarrow> snd (sendSubscriptionState d e c (snd (deliverScopeKey d e c ch w2))))
      in broadcastEvent d (SMoved i prev ch by) w3)"

definition moveClient :: "scope_deps \<Rightarrow> scope_env \<Rightarrow> client_id \<Rightarrow> channel_id \<Rightarrow> string \<Rightarrow> scope_world \<Rightarrow> bool \<times> scope_world" where
  "moveClient d e i ch by w =
     (if sd_channels d then
        (case cm_MoveClient i ch (sw_cm w) of
           (cm, _, Some _) \<Rightarrow> (False, w\<lparr>sw_cm := cm\<rparr>)
         | (cm, prev, None) \<Rightarrow> (True, afterMove d e i ch by prev (w\<lparr>sw_cm := cm\<rparr>)))
      else
        let old = (case GetClient i (st w) of None \<Rightarrow> 0 | Some sc \<Rightarrow> c_ChannelID sc)
        in (case MoveClient i ch (st w) of
              (m, Some _) \<Rightarrow> (False, put_state m w)
            | (m, None) \<Rightarrow> (True, afterMove d e i ch by old (put_state m w))))"

definition handleJoinChannel :: "scope_deps \<Rightarrow> scope_env \<Rightarrow> tcp_client \<Rightarrow> (channel_id \<times> string) option \<Rightarrow> scope_world \<Rightarrow> bool \<times> scope_world" where
  "handleJoinChannel d e c msg w =
     (case msg of
        None \<Rightarrow> refuse e c errCodeMalformed w
      | Some (chid, password) \<Rightarrow>
          if \<not> sd_state d then refuse e c errCodeUnavailable w
          else if tc_rulesPending c then refuse e c errCodePermissionDenied w
          else
            (case GetChannel chid (st w) of
               None \<Rightarrow> refuse e c errCodeNotFound w
             | Some x \<Rightarrow>
                 (case permCheckerFor (perms_of d e w) c (sw_loader w) of
                    (Inl _, l) \<Rightarrow> refuse e c errCodeUnavailable (w\<lparr>sw_loader := l\<rparr>)
                  | (Inr pc, l) \<Rightarrow>
                      if \<not> joinAllowed pc (EffectiveJoinPower (ch_ChannelID x) (st w))
                      then refuse e c errCodePermissionDenied (w\<lparr>sw_loader := l\<rparr>)
                      else if ch_PasswordHash x \<noteq> [] \<and> \<not> granted pc ''b_channel_join_ignore_password'' \<and>
                        VerifyPassword (sd_argon d) password (ch_PasswordHash x) \<noteq> None
                      then refuse e c errCodePermissionDenied (w\<lparr>sw_loader := l\<rparr>)
                      else
                        (case moveClient d e (tc_ID c) chid (tc_ID c) (w\<lparr>sw_loader := l\<rparr>) of
                           (True, w1) \<Rightarrow> (True, w1)
                         | (False, w1) \<Rightarrow> refuse e c errCodeNotFound w1))))"

definition handleMoveClient :: "scope_deps \<Rightarrow> scope_env \<Rightarrow> tcp_client \<Rightarrow> (client_id \<times> channel_id) option \<Rightarrow> scope_world \<Rightarrow> bool \<times> scope_world" where
  "handleMoveClient d e c msg w =
     (case msg of
        None \<Rightarrow> refuse e c errCodeMalformed w
      | Some (tid, chid) \<Rightarrow>
          if \<not> sd_state d then refuse e c errCodeUnavailable w
          else if GetChannel chid (st w) = None then refuse e c errCodeNotFound w
          else
            (case clientByID tid w of
               None \<Rightarrow> refuse e c errCodeNotFound w
             | Some target \<Rightarrow>
                 if \<not> tc_authed target then refuse e c errCodeNotFound w
                 else if tc_rulesPending target then refuse e c errCodePermissionDenied w
                 else
                   (case checkPowerOver (perms_of d e w) c target ''i_client_move_power'' ''i_client_needed_move_power'' (sw_loader w) of
                      (Inl _, l) \<Rightarrow> refuse e c errCodePermissionDenied (w\<lparr>sw_loader := l\<rparr>)
                    | (Inr _, l) \<Rightarrow>
                        (case moveClient d e (tc_ID target) chid (tc_ID c) (w\<lparr>sw_loader := l\<rparr>) of
                           (True, w1) \<Rightarrow> (True, w1)
                         | (False, w1) \<Rightarrow> refuse e c errCodeNotFound w1))))"

text \<open>The trusted operation of ServerQuery.\<close>

definition admin_MoveClient :: "scope_deps \<Rightarrow> scope_env \<Rightarrow> client_id \<Rightarrow> channel_id \<Rightarrow> scope_world \<Rightarrow> bool \<times> scope_world" where
  "admin_MoveClient d e i chid w =
     (if \<not> sd_state d \<or> GetChannel chid (st w) = None \<or> clientByID i w = None then (False, w)
      else moveClient d e i chid ''serverquery'' w)"

subsection \<open>Bans\<close>

text \<open>
  The expiry of a temporary ban: the seconds become a \<open>time.Duration\<close>, a signed 64-bit number of nanoseconds, by a
  multiplication that wraps around.  None is the zero time of a permanent ban.
\<close>

definition banExpiration :: "time \<Rightarrow> int \<Rightarrow> time option" where
  "banExpiration now seconds =
     (if seconds \<le> 0 then None else Some (now + sint (word_of_int seconds * 1000000000 :: 64 word)))"

definition insertBan :: "scope_deps \<Rightarrow> scope_env \<Rightarrow> string \<Rightarrow> string \<Rightarrow> time option \<Rightarrow> scope_world \<Rightarrow> bool \<times> scope_world" where
  "insertBan d e uniqueID reason expires w =
     (if \<not> sd_bans d then (True, w)
      else if sn_banFails e then (False, w)
      else (True, w\<lparr>sw_users := (sw_users w)\<lparr>ad_bans := ad_bans (sw_users w) @
        [\<lparr>br_id = sn_banID e, br_type = 1, br_value = uniqueID, br_reason = Some reason, br_channel = None, br_expires = expires\<rparr>]\<rparr>\<rparr>))"

definition recordBan :: "scope_deps \<Rightarrow> scope_env \<Rightarrow> tcp_client \<Rightarrow> string \<Rightarrow> int \<Rightarrow> scope_world \<Rightarrow> (time option) option \<times> scope_world" where
  "recordBan d e target reason seconds w =
     (let expires = banExpiration (sn_now e) seconds
      in (case insertBan d e (tc_UniqueID target) reason expires w of (True, w1) \<Rightarrow> (Some expires, w1) | (False, w1) \<Rightarrow> (None, w1)))"

definition DeleteBan :: "bool \<Rightarrow> int \<Rightarrow> auth_db \<Rightarrow> bool \<times> auth_db" where
  "DeleteBan fails i db = (if fails then (False, db) else (True, db\<lparr>ad_bans := filter (\<lambda>b. br_id b \<noteq> i) (ad_bans db)\<rparr>))"

definition banAdminAllowed :: "scope_deps \<Rightarrow> scope_env \<Rightarrow> tcp_client \<Rightarrow> scope_world \<Rightarrow> bool \<times> scope_world" where
  "banAdminAllowed d e c w =
     (case permCheckerFor (perms_of d e w) c (sw_loader w) of
        (Inl _, l) \<Rightarrow> (False, w\<lparr>sw_loader := l\<rparr>)
      | (Inr pc, l) \<Rightarrow> (granted pc ''b_client_ban'' \<or> powerAtLeast pc ''i_client_ban_power'' 1, w\<lparr>sw_loader := l\<rparr>))"

definition handleBanRemove :: "scope_deps \<Rightarrow> scope_env \<Rightarrow> tcp_client \<Rightarrow> int option \<Rightarrow> scope_world \<Rightarrow> bool \<times> scope_world" where
  "handleBanRemove d e c msg w =
     (case msg of
        None \<Rightarrow> refuse e c errCodeMalformed w
      | Some banID \<Rightarrow>
          if \<not> sd_banAdmin d then refuse e c errCodeUnavailable w
          else
            (case banAdminAllowed d e c w of
               (False, w1) \<Rightarrow> refuse e c errCodePermissionDenied w1
             | (True, w1) \<Rightarrow>
                 (case DeleteBan (sn_banFails e) banID (sw_users w1) of
                    (False, _) \<Rightarrow> refuse e c errCodeUnavailable w1
                  | (True, db) \<Rightarrow> (True, audit d (tc_UniqueID c) ''ban_remove'' (if banID < 0 then ''-'' @ dec (nat (- banID)) else dec (nat banID)) (w1\<lparr>sw_users := db\<rparr>)))))"

subsection \<open>Kicking\<close>

definition leave_state :: "scope_deps \<Rightarrow> client_id \<Rightarrow> scope_world \<Rightarrow> channel_id option \<times> scope_world" where
  "leave_state d i w =
     (if sd_channels d then
        (case LeaveClient i (sw_cm w) of
           (cm, _, Some _) \<Rightarrow> (None, w\<lparr>sw_cm := cm\<rparr>)
         | (cm, ch, None) \<Rightarrow> (Some ch, w\<lparr>sw_cm := cm\<rparr>))
      else
        (case GetClient i (st w) of
           None \<Rightarrow> (None, w)
         | Some sc \<Rightarrow>
             if c_ChannelID sc = 0 then (None, w)
             else (case LeaveChannel i (st w) of
                     (m, Some _) \<Rightarrow> (None, put_state m w)
                   | (m, None) \<Rightarrow> (Some (c_ChannelID sc), put_state m w))))"

definition performKick ::
  "scope_deps \<Rightarrow> scope_env \<Rightarrow> string \<Rightarrow> client_id \<Rightarrow> bool \<Rightarrow> bool \<Rightarrow> string \<Rightarrow> time option \<Rightarrow> scope_world \<Rightarrow> bool \<times> scope_world" where
  "performKick d e by tid fromServer ban reason expires w =
     (if \<not> sd_state d then (False, w)
      else
        (case clientByID tid w of
           None \<Rightarrow> (False, w)
         | Some target \<Rightarrow>
             if \<not> tc_authed target then (False, w)
             else
               (case GetClient (tc_ID target) (st w) of
                  None \<Rightarrow> (False, w)
                | Some ts \<Rightarrow>
                    if fromServer then
                      (True, log_out (SClosed (tc_ID target))
                        (broadcastEvent d (SKicked (tc_ID target) (c_ChannelID ts) by reason fromServer ban expires)
                          (log_out (STold (tc_ID target)) w)))
                    else
                      (case leave_state d (tc_ID target) w of
                         (None, w1) \<Rightarrow> (False, w1)
                       | (Some ch, w1) \<Rightarrow>
                           (True, broadcastEvent d (SKicked (tc_ID target) ch by reason fromServer ban expires)
                              (if sd_voice d then voice_leave e (tc_ID target) ch w1 else w1))))))"

record KickClient =
  kc_ClientID :: client_id
  kc_FromServer :: bool
  kc_Ban :: bool
  kc_Reason :: string
  kc_DurationSeconds :: int

definition kick_keys :: "KickClient \<Rightarrow> PermissionKey \<times> PermissionKey" where
  "kick_keys msg =
     (if kc_Ban msg then (''i_client_ban_power'', ''i_client_needed_ban_power'')
      else if kc_FromServer msg then (''i_client_kick_from_server_power'', ''i_client_needed_kick_from_server_power'')
      else (''i_client_kick_from_channel_power'', ''i_client_needed_kick_from_channel_power''))"

definition handleKickClient :: "scope_deps \<Rightarrow> scope_env \<Rightarrow> tcp_client \<Rightarrow> KickClient option \<Rightarrow> scope_world \<Rightarrow> bool \<times> scope_world" where
  "handleKickClient d e c m w =
     (case m of
        None \<Rightarrow> refuse e c errCodeMalformed w
      | Some msg \<Rightarrow>
          if \<not> sd_state d then refuse e c errCodeUnavailable w
          else
            (case clientByID (kc_ClientID msg) w of
               None \<Rightarrow> refuse e c errCodeNotFound w
             | Some target \<Rightarrow>
                 if \<not> tc_authed target then refuse e c errCodeNotFound w
                 else
                   (case checkPowerOver (perms_of d e w) c target (fst (kick_keys msg)) (snd (kick_keys msg)) (sw_loader w) of
                      (Inl _, l) \<Rightarrow> refuse e c errCodePermissionDenied (w\<lparr>sw_loader := l\<rparr>)
                    | (Inr _, l) \<Rightarrow>
                        (case (if kc_Ban msg then recordBan d e target (kc_Reason msg) (kc_DurationSeconds msg) (w\<lparr>sw_loader := l\<rparr>)
                               else (Some None, w\<lparr>sw_loader := l\<rparr>)) of
                           (None, w1) \<Rightarrow> refuse e c errCodeUnavailable w1
                         | (Some expires, w1) \<Rightarrow>
                             (case performKick d e (tc_ID c) (tc_ID target) (kc_FromServer msg \<or> kc_Ban msg) (kc_Ban msg) (kc_Reason msg) expires w1 of
                                (False, w2) \<Rightarrow> refuse e c errCodeNotFound w2
                              | (True, w2) \<Rightarrow>
                                  (True, audit d (tc_UniqueID c) (if kc_Ban msg then ''ban'' else ''kick'') (tc_UniqueID target) w2))))))"

definition admin_KickClient :: "scope_deps \<Rightarrow> scope_env \<Rightarrow> string \<Rightarrow> client_id \<Rightarrow> bool \<Rightarrow> string \<Rightarrow> scope_world \<Rightarrow> bool \<times> scope_world" where
  "admin_KickClient d e by tid fromServer reason w =
     (case clientByID tid w of
        None \<Rightarrow> (False, w)
      | Some target \<Rightarrow>
          if \<not> tc_authed target then (False, w)
          else
            (case performKick d e by tid fromServer False reason None w of
               (False, w1) \<Rightarrow> (False, w1)
             | (True, w1) \<Rightarrow> (True, audit d by ''kick'' (tc_UniqueID target) w1)))"

definition BanClient :: "scope_deps \<Rightarrow> scope_env \<Rightarrow> string \<Rightarrow> client_id \<Rightarrow> int \<Rightarrow> string \<Rightarrow> scope_world \<Rightarrow> bool \<times> scope_world" where
  "BanClient d e by tid seconds reason w =
     (case clientByID tid w of
        None \<Rightarrow> (False, w)
      | Some target \<Rightarrow>
          if \<not> tc_authed target then (False, w)
          else
            let expires = banExpiration (sn_now e) seconds
            in (case insertBan d e (tc_UniqueID target) reason expires w of
                  (False, w1) \<Rightarrow> (False, w1)
                | (True, w1) \<Rightarrow>
                    (case performKick d e by tid True True reason expires w1 of
                       (False, w2) \<Rightarrow> (False, w2)
                     | (True, w2) \<Rightarrow> (True, audit d by ''ban'' (tc_UniqueID target) w2))))"

subsection \<open>Disconnecting\<close>

definition onDisconnect :: "scope_deps \<Rightarrow> scope_env \<Rightarrow> tcp_client \<Rightarrow> scope_world \<Rightarrow> scope_world" where
  "onDisconnect d e c w =
     (if \<not> tc_authed c then w
      else
        (case (if \<not> sd_state d then (None, w)
               else if sd_channels d then
                 (case cm_RemoveClient (tc_ID c) (sw_cm w) of
                    (cm, Inl _) \<Rightarrow> (None, w\<lparr>sw_cm := cm\<rparr>)
                  | (cm, Inr removed) \<Rightarrow> (Some removed, w\<lparr>sw_cm := cm\<rparr>))
               else (case RemoveClient (tc_ID c) (st w) of (m, r) \<Rightarrow> (r, put_state m w))) of
           (removed, w1) \<Rightarrow>
             let ch = (case removed of None \<Rightarrow> 0 | Some r \<Rightarrow> c_ChannelID r);
                 invisible = (case removed of None \<Rightarrow> False | Some r \<Rightarrow> c_Status r = ''invisible'');
                 w2 = (if sd_broadcast d then log_out (SLeft (tc_ID c) invisible) (log_out (SUnregistered (tc_ID c)) w1) else w1);
                 w3 = (if ch \<noteq> 0 then rotateScopeKey d e ch w2 else w2)
             in if sd_voice d then
                  (case ClosePeer (sn_now e) (tc_ID c) (sw_voice w3, sw_router w3) of (v, r) \<Rightarrow> w3\<lparr>sw_voice := v, sw_router := r\<rparr>)
                else w3))"

definition connection_ends :: "scope_deps \<Rightarrow> scope_env \<Rightarrow> client_id \<Rightarrow> scope_world \<Rightarrow> scope_world" where
  "connection_ends d e i w =
     (case clientByID i w of None \<Rightarrow> w | Some c \<Rightarrow> onDisconnect d e c (w\<lparr>sw_conns := fmdrop i (sw_conns w)\<rparr>))"

subsection \<open>What the key manager keeps\<close>

text \<open>A loaded entry keeps its current generation through every operation but a rotation.\<close>

definition cur_kept :: "chat_keys \<Rightarrow> chat_keys \<Rightarrow> bool" where
  "cur_kept ck ck' \<longleftrightarrow>
     (\<forall>sc. en_loaded (entry sc ck) \<and> en_curID (entry sc ck) \<noteq> 0 \<longrightarrow>
        en_loaded (entry sc ck') \<and> en_curID (entry sc ck') = en_curID (entry sc ck))"

lemma cur_kept_refl [simp]: "cur_kept ck ck"
  by (simp add: cur_kept_def)

lemma cur_kept_trans: "cur_kept a b \<Longrightarrow> cur_kept b c \<Longrightarrow> cur_kept a c"
  by (simp add: cur_kept_def)

lemma entry_other: "x \<noteq> sc \<Longrightarrow> entry x (put_entry sc e ck) = entry x ck"
  by (simp add: entry_def put_entry_def)

lemma entry_db [simp]: "entry x (ck\<lparr>ck_db := db\<rparr>) = entry x ck"
  by (simp add: entry_def)

lemma fresh_entry: "fresh_generation sb env sc ck = (res, ck1) \<Longrightarrow> entry x ck1 = entry x ck"
  by (cases "AllocScopeKeyID (ke_alloc env) sc (ck_db ck)") (auto simp: fresh_generation_def split: option.splits prod.splits)

lemma mint_entry:
  assumes "mintLocked sb env sc e ck = (res, ck')" "x \<noteq> sc"
  shows "entry x ck' = entry x ck"
proof -
  obtain o1 ck1 where fr: "fresh_generation sb env sc ck = (o1, ck1)" by fastforce
  note n = fresh_entry [OF fr, of x]
  show ?thesis
  proof (cases o1)
    case None
    with assms fr n show ?thesis by (auto simp: mintLocked_def entry_other split: if_splits)
  next
    case (Some rk)
    obtain r key b db' where rk: "rk = (r, key)" "InsertScopeKey (ke_write env) r (ck_db ck1) = (b, db')" by fastforce
    with assms fr Some n show ?thesis by (auto simp: mintLocked_def entry_other split: if_splits bool.splits)
  qed
qed

lemma put_cur_kept:
  assumes "entry sc ck = e0" "en_loaded e0 \<and> en_curID e0 \<noteq> 0 \<longrightarrow> en_loaded e \<and> en_curID e = en_curID e0"
  shows "cur_kept ck (put_entry sc e ck)"
  unfolding cur_kept_def
proof (intro allI impI)
  fix x
  assume "en_loaded (entry x ck) \<and> en_curID (entry x ck) \<noteq> 0"
  with assms show "en_loaded (entry x (put_entry sc e ck)) \<and> en_curID (entry x (put_entry sc e ck)) = en_curID (entry x ck)"
    by (cases "x = sc") (auto simp: entry_other)
qed

lemma load_same: "en_loaded (entry sc ck) \<Longrightarrow> loadLocked sb env sc ck = Inr (entry sc ck)"
  by (simp add: loadLocked_def Let_def)

lemma load_loaded: "loadLocked sb env sc ck = Inr e \<Longrightarrow> en_loaded e"
  by (auto simp: loadLocked_def Let_def split: if_splits sum.splits option.splits)

lemma ensure_cur_kept: "EnsureScope sb env sc ck = (res, ck') \<Longrightarrow> cur_kept ck ck'"
proof (cases "en_loaded (entry sc ck) \<and> en_curID (entry sc ck) \<noteq> 0")
  case True
  assume "EnsureScope sb env sc ck = (res, ck')"
  with True have "ck' = put_entry sc (entry sc ck) ck" by (simp add: EnsureScope_def load_same)
  then show ?thesis using put_cur_kept [OF refl] by blast
next
  case False
  assume a: "EnsureScope sb env sc ck = (res, ck')"
  have "entry x ck' = entry x ck" if "x \<noteq> sc" for x
    using a that by (auto simp: EnsureScope_def entry_other dest: mint_entry split: sum.splits if_splits)
  with False show ?thesis unfolding cur_kept_def by metis
qed

lemma cacheOld_fields [simp]: "en_loaded (cacheOldLocked g k e) = en_loaded e" "en_curID (cacheOldLocked g k e) = en_curID e"
  "en_curKey (cacheOldLocked g k e) = en_curKey e"
  by (simp_all add: cacheOldLocked_def Let_def)

lemma key_at_entry:
  assumes "key_at sb env sc g ck = (res, ck')"
  shows "ck' = ck \<or> (\<exists>e. ck' = put_entry sc e ck \<and> (e = entry sc ck \<or> (\<exists>e1. loadLocked sb env sc ck = Inr e1 \<and> en_loaded e = en_loaded e1 \<and> en_curID e = en_curID e1)))"
proof (cases "g = 0")
  case True
  with assms show ?thesis by (simp add: key_at_def)
next
  case g: False
  show ?thesis
  proof (cases "loadLocked sb env sc ck")
    case (Inl err)
    with assms g show ?thesis by (auto simp: key_at_def)
  next
    case (Inr e)
    then have "\<exists>e2. ck' = put_entry sc e2 ck \<and> en_loaded e2 = en_loaded e \<and> en_curID e2 = en_curID e"
      using assms g by (auto simp: key_at_def split: if_splits option.splits sum.splits)
    with Inr show ?thesis by blast
  qed
qed

lemma key_at_cur_kept: "key_at sb env sc g ck = (res, ck') \<Longrightarrow> cur_kept ck ck'"
  using key_at_entry [of sb env sc g ck res ck'] load_same [of sc ck sb env] by (auto intro!: put_cur_kept [OF refl])

lemma sealFor_cases:
  assumes "sealFor sb env sc g pub ck = (res, ck')"
  shows "ck' = ck \<or> (\<exists>r1. key_at sb env sc g ck = (r1, ck'))" "res = Inr (s, g', sealed) \<Longrightarrow> s = sc \<and> g' = g \<and> (\<exists>k. fst (key_at sb env sc g ck) = Inr k)"
  using assms by (auto simp: sealFor_def split: option.splits if_splits prod.splits sum.splits)

lemma sealFor_cur_kept: "sealFor sb env sc g pub ck = (res, ck') \<Longrightarrow> cur_kept ck ck'"
  using sealFor_cases(1) [of sb env sc g pub ck res ck'] by (auto dest: key_at_cur_kept)

lemma rotate_current:
  assumes "rotate_key sb env sc ck = (Inr (g, k), ck')"
  shows "en_loaded (entry sc ck') \<and> en_curID (entry sc ck') = g \<and> en_curKey (entry sc ck') = k"
proof -
  obtain e where l: "loadLocked sb env sc ck = Inr e" using assms by (cases "loadLocked sb env sc ck") (simp_all add: rotate_key_def)
  have ld: "en_loaded e" by (rule load_loaded [OF l])
  obtain o1 ck1 where fr: "fresh_generation sb env sc ck = (o1, ck1)" by fastforce
  show ?thesis
  proof (cases o1)
    case None
    with assms l fr show ?thesis by (auto simp: rotate_key_def mintLocked_def split: if_splits)
  next
    case (Some rk)
    obtain r key where rk: "rk = (r, key)" by fastforce
    obtain b db' b2 db2 where w: "InsertScopeKey (ke_write env) r (ck_db ck1) = (b, db')" "RotateScopeKey (ke_write env) r (ck_db ck1) = (b2, db2)" by fastforce
    from assms l fr Some rk w ld show ?thesis by (auto simp: rotate_key_def mintLocked_def split: if_splits bool.splits)
  qed
qed

text \<open>A rotation that succeeds allocates a generation above every earlier one.\<close>

definition cur_grows :: "chat_keys \<Rightarrow> chat_keys \<Rightarrow> bool" where
  "cur_grows ck ck' \<longleftrightarrow>
     (\<forall>sc. en_loaded (entry sc ck) \<and> en_curID (entry sc ck) \<noteq> 0 \<longrightarrow>
        en_loaded (entry sc ck') \<and> en_curID (entry sc ck) \<le> en_curID (entry sc ck'))"

lemma cur_grows_refl [simp]: "cur_grows ck ck"
  by (simp add: cur_grows_def)

lemma cur_grows_trans: "cur_grows a b \<Longrightarrow> cur_grows b c \<Longrightarrow> cur_grows a c"
  unfolding cur_grows_def by (metis le_trans le_zero_eq)

lemma kept_grows: "cur_kept a b \<Longrightarrow> cur_grows a b"
  by (simp add: cur_kept_def cur_grows_def)

lemma rotate_other:
  assumes "rotate_key sb env sc ck = (res, ck')" "x \<noteq> sc"
  shows "entry x ck' = entry x ck"
  using assms by (auto simp: rotate_key_def entry_other dest: mint_entry fresh_entry split: sum.splits if_splits prod.splits option.splits bool.splits)

lemma rotate_failed:
  assumes "rotate_key sb env sc ck = (Inl err, ck')" "en_loaded (entry sc ck)" "en_curID (entry sc ck) \<noteq> 0"
  shows "entry sc ck' = entry sc ck"
proof -
  have "\<exists>a. ck' = put_entry sc (entry sc ck) a"
    using assms by (auto simp: rotate_key_def load_same split: if_splits prod.splits option.splits bool.splits)
  then show ?thesis by (auto simp: entry_def put_entry_def)
qed

lemma rotate_grows:
  assumes "ck_inv sb ck" "box_ok sb" "env_ok env" "rotate_key sb env sc ck = (res, ck')"
  shows "cur_grows ck ck'"
  unfolding cur_grows_def
proof (intro allI impI, elim conjE)
  fix x
  assume x: "en_loaded (entry x ck)" "en_curID (entry x ck) \<noteq> 0"
  show "en_loaded (entry x ck') \<and> en_curID (entry x ck) \<le> en_curID (entry x ck')"
  proof (cases "x = sc")
    case False
    with x rotate_other [OF assms(4)] show ?thesis by simp
  next
    case True
    show ?thesis
    proof (cases res)
      case (Inl err)
      with x True rotate_failed [of sb env sc ck err ck'] assms(4) show ?thesis by simp
    next
      case (Inr gk)
      obtain g k where gk: "gk = (g, k)" by fastforce
      have g: "g = next_id sc (ck_db ck)" using rotate_ok [OF assms] Inr gk by blast
      have "entry_ok sb (ck_ring ck) (ck_db ck) sc (entry sc ck)" by (rule entry_inv [OF assms(1)])
      with x True have "gen_key sb (ck_ring ck) (ck_db ck) sc (en_curID (entry sc ck)) = Some (en_curKey (entry sc ck))" by (simp add: entry_ok_def)
      from gen_key_bound [OF _ this] have "en_curID (entry sc ck) < g" using assms(1) g by (simp add: ck_inv_def)
      with True Inr gk rotate_current [of sb env sc ck g k ck'] assms(4) show ?thesis by simp
    qed
  qed
qed

lemma current_loaded:
  assumes "en_loaded (entry sc ck)" "en_curID (entry sc ck) \<noteq> 0"
  shows "fst (current sb env sc ck) = Inr (en_curID (entry sc ck), en_curKey (entry sc ck))"
  using assms by (simp add: current_def load_same)

lemma op_ok_trans: "op_ok sb a b \<Longrightarrow> op_ok sb b c \<Longrightarrow> op_ok sb a c"
  by (auto simp: op_ok_def intro: keeps_trans)

subsection \<open>What a delivery of keys changes\<close>

definition sent :: "scope_out list \<Rightarrow> client_id \<Rightarrow> scope_id \<Rightarrow> nat \<Rightarrow> bool" where
  "sent xs i sc g \<longleftrightarrow>
     (\<exists>s. SKey i sc g s \<in> set xs) \<or> (\<exists>sc' ks rs s. SBundle i sc' ks rs \<in> set xs \<and> (sc, g, s) \<in> set ks)"

lemma sent_simps [simp]: "\<not> sent [] i sc g" "sent (xs @ ys) i sc g \<longleftrightarrow> sent xs i sc g \<or> sent ys i sc g"
  unfolding sent_def set_append by (simp, blast)

definition scope_env_ok :: "scope_env \<Rightarrow> bool" where
  "scope_env_ok e \<longleftrightarrow> (\<forall>c. env_ok (sn_key e c)) \<and> (\<forall>S. set (sn_order e S) = fset S \<and> distinct (sn_order e S))"

text \<open>
  The steps that distribute keys: connections, voice, timers and bans stay, clients stay where they are, subscriptions are only dropped,
  every generation and every current generation stays, and keys go to the clients and scopes in \<open>P\<close> only.
\<close>

definition quiet :: "scope_deps \<Rightarrow> (client_id \<times> scope_id) set \<Rightarrow> scope_world \<Rightarrow> scope_world \<Rightarrow> bool" where
  "quiet d P w w' \<longleftrightarrow>
     sw_conns w' = sw_conns w \<and> sw_voice w' = sw_voice w \<and> sw_router w' = sw_router w \<and> sw_users w' = sw_users w \<and>
     (cm_inv (sw_cm w) \<longrightarrow> cm_inv (sw_cm w')) \<and>
     a_where (abs (st w')) = a_where (abs (st w)) \<and> a_subs (abs (st w')) \<subseteq> a_subs (abs (st w)) \<and>
     op_ok (sd_nacl d) (sw_keys w) (sw_keys w') \<and> cur_kept (sw_keys w) (sw_keys w') \<and>
     (\<forall>x. next_id x (ck_db (sw_keys w)) \<le> next_id x (ck_db (sw_keys w'))) \<and>
     (\<exists>xs. sw_out w' = sw_out w @ xs \<and> (\<forall>i sc g. sent xs i sc g \<longrightarrow> (i, sc) \<in> P \<and> g < next_id sc (ck_db (sw_keys w'))))"

lemma quietD:
  assumes "quiet d P w w'"
  shows "sw_conns w' = sw_conns w" "sw_voice w' = sw_voice w" "sw_router w' = sw_router w" "sw_users w' = sw_users w"
    "cm_inv (sw_cm w) \<Longrightarrow> cm_inv (sw_cm w')" "a_where (abs (st w')) = a_where (abs (st w))" "a_subs (abs (st w')) \<subseteq> a_subs (abs (st w))"
    "op_ok (sd_nacl d) (sw_keys w) (sw_keys w')" "cur_kept (sw_keys w) (sw_keys w')"
    "next_id x (ck_db (sw_keys w)) \<le> next_id x (ck_db (sw_keys w'))"
  using assms by (simp_all add: quiet_def)

lemma quiet_mono: "quiet d P w w' \<Longrightarrow> P \<subseteq> Q \<Longrightarrow> quiet d Q w w'"
  unfolding quiet_def by blast

lemma quiet_refl [simp]: "ck_inv (sd_nacl d) (sw_keys w) \<Longrightarrow> quiet d P w w"
  by (simp add: quiet_def op_ok_refl)

lemma quiet_ck: "quiet d P w w' \<Longrightarrow> ck_inv (sd_nacl d) (sw_keys w')"
  by (simp add: quiet_def op_ok_def)

lemma quiet_trans:
  assumes "quiet d P a b" "quiet d P b c"
  shows "quiet d P a c"
proof -
  obtain xs where xs: "sw_out b = sw_out a @ xs" "\<And>i sc g. sent xs i sc g \<Longrightarrow> (i, sc) \<in> P \<and> g < next_id sc (ck_db (sw_keys b))"
    using assms(1) unfolding quiet_def by blast
  obtain ys where ys: "sw_out c = sw_out b @ ys" "\<And>i sc g. sent ys i sc g \<Longrightarrow> (i, sc) \<in> P \<and> g < next_id sc (ck_db (sw_keys c))"
    using assms(2) unfolding quiet_def by blast
  have "sw_out c = sw_out a @ (xs @ ys)" using xs(1) ys(1) by simp
  moreover have "sent (xs @ ys) i sc g \<longrightarrow> (i, sc) \<in> P \<and> g < next_id sc (ck_db (sw_keys c))" for i sc g
    using xs(2) [of i sc g] ys(2) [of i sc g] quietD(10) [OF assms(2), of sc] by auto
  ultimately have outs: "\<exists>xs. sw_out c = sw_out a @ xs \<and> (\<forall>i sc g. sent xs i sc g \<longrightarrow> (i, sc) \<in> P \<and> g < next_id sc (ck_db (sw_keys c)))" by blast
  note q1 = quietD [OF assms(1)] and q2 = quietD [OF assms(2)]
  have "next_id x (ck_db (sw_keys a)) \<le> next_id x (ck_db (sw_keys c))" for x using q1(10) [of x] q2(10) [of x] by simp
  then show ?thesis
    using outs q1(1-9) q2(1-9) op_ok_trans [OF q1(8) q2(8)] cur_kept_trans [OF q1(9) q2(9)] unfolding quiet_def by simp
qed

lemma quiet_fold:
  assumes "\<And>x w. x \<in> set xs \<Longrightarrow> R w \<Longrightarrow> quiet d P w (f x w) \<and> R (f x w)" "R w" "ck_inv (sd_nacl d) (sw_keys w)"
  shows "quiet d P w (fold f xs w) \<and> R (fold f xs w)"
  using assms
proof (induction xs arbitrary: w)
  case (Cons x xs)
  have 1: "quiet d P w (f x w)" "R (f x w)" using Cons.prems by auto
  have "quiet d P (f x w) (fold f xs (f x w)) \<and> R (fold f xs (f x w))" using Cons 1 by (auto intro: quiet_ck)
  with 1 show ?case by (auto intro: quiet_trans)
qed simp

lemma log_quiet:
  assumes "ck_inv (sd_nacl d) (sw_keys w)" "\<And>i sc g. \<not> sent [x] i sc g"
  shows "quiet d P w (log_out x w)"
  using assms by (auto simp: quiet_def log_out_def st_def op_ok_refl)

lemma quiet_keys:
  assumes "op_ok (sd_nacl d) (sw_keys w) ck" "cur_kept (sw_keys w) ck" "\<And>x. next_id x (ck_db (sw_keys w)) \<le> next_id x (ck_db ck)"
  shows "quiet d P w (w\<lparr>sw_keys := ck\<rparr>)"
  using assms by (simp add: quiet_def st_def)

lemma quiet_loader: "ck_inv (sd_nacl d) (sw_keys w) \<Longrightarrow> quiet d P w (w\<lparr>sw_loader := l\<rparr>)" "ck_inv (sd_nacl d) (sw_keys w) \<Longrightarrow> quiet d P w (w\<lparr>sw_rate := q\<rparr>)"
  "ck_inv (sd_nacl d) (sw_keys w) \<Longrightarrow> quiet d P w (w\<lparr>sw_rot := t\<rparr>)"
  by (simp_all add: quiet_def st_def op_ok_refl)

lemma deliver_quiet:
  assumes "ck_inv (sd_nacl d) (sw_keys w)" "box_ok (sd_nacl d)" "scope_env_ok e"
  shows "quiet d {(tc_ID c, scope)} w (snd (deliverScopeKey d e c scope w)) \<and> sw_cm (snd (deliverScopeKey d e c scope w)) = sw_cm w"
proof (cases "\<not> sd_state d \<or> \<not> ck_configured (sw_keys w) \<or> GetClient (tc_ID c) (st w) = None \<or> (\<exists>sc. GetClient (tc_ID c) (st w) = Some sc \<and> c_E2EPublicKey sc = [])")
  case True
  then have "deliverScopeKey d e c scope w = (True, w)" by (auto simp: deliverScopeKey_def)
  with assms(1) show ?thesis by simp
next
  case False
  let ?sb = "sd_nacl d" and ?ck = "sw_keys w"
  obtain sc where g: "sd_state d" "ck_configured ?ck" "GetClient (tc_ID c) (st w) = Some sc" "c_E2EPublicKey sc \<noteq> []" using False by auto
  have env: "env_ok (sn_key e x)" for x using assms(3) by (simp add: scope_env_ok_def)
  obtain r1 ck1 where en: "EnsureScope ?sb (sn_key e (CallEnsure (tc_ID c) scope)) scope ?ck = (r1, ck1)" by fastforce
  note ok = EnsureScope_ok [OF assms(1,2) env en] and cur = ensure_cur_kept [OF en]
  have nx: "next_id x (ck_db ?ck) \<le> next_id x (ck_db ck1)" for x
    using ensure_next [of x ?ck ?sb "sn_key e (CallEnsure (tc_ID c) scope)" scope] en by simp
  note q1 = quiet_keys [OF ok(1) cur nx]
  show ?thesis
  proof (cases r1)
    case (Inl err)
    then have "deliverScopeKey d e c scope w = (False, w\<lparr>sw_keys := ck1\<rparr>)" using g en by (simp add: deliverScopeKey_def)
    with q1 show ?thesis by simp
  next
    case (Inr gk)
    obtain gen k where gk: "gk = (gen, k)" by fastforce
    obtain r2 ck2 where se: "sealFor ?sb (sn_key e (CallSeal (tc_ID c) scope gen)) scope gen (c_E2EPublicKey sc) ck1 = (r2, ck2)" by fastforce
    have i1: "ck_inv ?sb ck1" using ok(1) by (simp add: op_ok_def)
    have s2: "op_ok ?sb ck1 ck2" "ck_db ck2 = ck_db ck1" using sealFor_ok [OF i1] se by (metis snd_conv)+
    have "quiet d {(tc_ID c, scope)} (w\<lparr>sw_keys := ck1\<rparr>) (w\<lparr>sw_keys := ck1\<rparr>\<lparr>sw_keys := ck2\<rparr>)"
      using s2 sealFor_cur_kept [OF se] by (intro quiet_keys) simp_all
    then have q2: "quiet d {(tc_ID c, scope)} w (w\<lparr>sw_keys := ck2\<rparr>)" using quiet_trans [OF q1] by fastforce
    show ?thesis
    proof (cases r2)
      case (Inl err)
      then have "deliverScopeKey d e c scope w = (False, w\<lparr>sw_keys := ck2\<rparr>)" using g en se gk \<open>r1 = Inr gk\<close> by (simp add: deliverScopeKey_def)
      with q2 show ?thesis by simp
    next
      case (Inr x)
      obtain s' g' sealed where x: "x = (s', g', sealed)" by (cases x) auto
      have sg: "s' = scope" "g' = gen" using sealFor_cases(2) [OF se] Inr x by simp_all
      have "gen_key ?sb (ck_ring ck1) (ck_db ck1) scope gen = Some k" using ok(2) \<open>r1 = Inr gk\<close> gk by simp
      then have lt: "gen < next_id scope (ck_db ck2)" using gen_key_bound i1 s2(2) by (auto simp: ck_inv_def)
      have "snd (deliverScopeKey d e c scope w) = log_out (SKey (tc_ID c) scope gen sealed) (w\<lparr>sw_keys := ck2\<rparr>)"
        using g en se gk \<open>r1 = Inr gk\<close> Inr x sg by (simp add: deliverScopeKey_def write_out_def)
      moreover have "quiet d {(tc_ID c, scope)} (w\<lparr>sw_keys := ck2\<rparr>) (log_out (SKey (tc_ID c) scope gen sealed) (w\<lparr>sw_keys := ck2\<rparr>))"
        using lt op_ok_refl quiet_ck [OF q2] by (auto simp: quiet_def log_out_def st_def sent_def)
      ultimately show ?thesis using quiet_trans [OF q2] by (auto simp: log_out_def)
    qed
  qed
qed

subsection \<open>Who receives a rotated key\<close>

definition conns_ok :: "scope_world \<Rightarrow> bool" where
  "conns_ok w \<longleftrightarrow> (\<forall>i c. fmlookup (sw_conns w) i = Some c \<longrightarrow> tc_ID c = i)"

text \<open>The readers of a channel: its members and its subscribers.\<close>

definition readers :: "channel_id \<Rightarrow> manager \<Rightarrow> (client_id \<times> scope_id) set" where
  "readers ch m = {(i, s). s = ch \<and> (a_where (abs m) i = Some ch \<or> (i, ch) \<in> a_subs (abs m))}"

lemma member_ids:
  assumes "mgr_inv m" "i |\<in>| c_ClientID |`| ChannelMembers ch m"
  shows "a_where (abs m) i = Some ch"
proof -
  obtain cid c where c: "cid |\<in>| fmset_get (membership m) ch" "fmlookup (clients m) cid = Some c" "i = c_ClientID c"
    using assms(2) by (auto simp: ChannelMembers_def)
  have "c_ClientID c = cid" using mgr_invD(1) [OF assms(1)] c(2) by (simp add: inv_keys_def)
  moreover have "ch \<noteq> 0 \<and> (\<exists>c. fmlookup (clients m) cid = Some c \<and> c_ChannelID c = ch)"
    using mgr_invD(2) [OF assms(1)] c(1) by (simp add: inv_members_def)
  ultimately show ?thesis using c(2,3) by (auto simp: a_where_iff)
qed

lemma subscriber_ids:
  assumes "mgr_inv m" "i |\<in>| c_ClientID |`| ChannelSubscribers ch m"
  shows "(i, ch) \<in> a_subs (abs m)"
proof -
  obtain cid c where c: "cid |\<in>| fmset_get (subsByChannel m) ch" "fmlookup (clients m) cid = Some c" "i = c_ClientID c"
    using assms(2) by (auto simp: ChannelSubscribers_def)
  have "c_ClientID c = cid" using mgr_invD(1) [OF assms(1)] c(2) by (simp add: inv_keys_def)
  moreover have "ch |\<in>| fmset_get (subs m) cid" using mgr_invD(5) [OF assms(1)] c(1) by (simp add: inv_subs_def)
  ultimately show ?thesis using c(3) by (simp add: abs_fields)
qed

lemma sub_scan_props:
  assumes "conns_ok w" "distinct is" "sub_scan d e ch is w = (ent, rvk, w')"
  shows "(\<exists>l. w' = w\<lparr>sw_loader := l\<rparr>) \<and> tc_ID ` set ent \<subseteq> set is \<and> tc_ID ` set rvk \<subseteq> set is \<and> tc_ID ` set ent \<inter> tc_ID ` set rvk = {}"
  using assms
proof (induction "is" arbitrary: w ent rvk w')
  case Nil
  then show ?case by (auto intro!: exI [of _ "sw_loader w"])
next
  case (Cons i ids)
  have skip: ?case if s: "sub_scan d e ch ids w = (ent, rvk, w')" using Cons.IH [OF Cons.prems(1) _ s] Cons.prems(2) by auto
  show ?case
  proof (cases "GetClient i (st w) = None \<or> (\<exists>sc. GetClient i (st w) = Some sc \<and> c_ChannelID sc = ch) \<or> clientByID i w = None")
    case True
    with Cons.prems(3) have "sub_scan d e ch ids w = (ent, rvk, w')" by (auto split: option.splits if_splits)
    then show ?thesis by (rule skip)
  next
    case False
    then obtain sc c where c: "GetClient i (st w) = Some sc" "c_ChannelID sc \<noteq> ch" "clientByID i w = Some c" by auto
    obtain b l where s: "subscribeAllowed (perms_of d e w) c ch (sw_loader w) = (b, l)" by fastforce
    obtain en1 rv1 w1 where r: "sub_scan d e ch ids (w\<lparr>sw_loader := l\<rparr>) = (en1, rv1, w1)" by (metis prod_cases3)
    have ok: "conns_ok (w\<lparr>sw_loader := l\<rparr>)" using Cons.prems(1) by (simp add: conns_ok_def)
    have id: "tc_ID c = i" using Cons.prems(1) c(3) by (simp add: conns_ok_def clientByID_def)
    have IH: "(\<exists>l'. w1 = w\<lparr>sw_loader := l\<rparr>\<lparr>sw_loader := l'\<rparr>) \<and> tc_ID ` set en1 \<subseteq> set ids \<and> tc_ID ` set rv1 \<subseteq> set ids \<and> tc_ID ` set en1 \<inter> tc_ID ` set rv1 = {}"
      by (rule Cons.IH [OF ok _ r]) (use Cons.prems(2) in simp)
    have res: "w' = w1" "if b then ent = c # en1 \<and> rvk = rv1 else ent = en1 \<and> rvk = c # rv1"
      using Cons.prems(3) c s r by (auto split: if_splits)
    show ?thesis using IH res id Cons.prems(2) by (cases b) auto
  qed
qed

lemma unsubscribe_cm:
  assumes "cm_inv cm"
  shows "cm_inv (cm\<lparr>cm_state := Unsubscribe i chs (cm_state cm)\<rparr>)"
proof -
  let ?m = "Unsubscribe i chs (cm_state cm)"
  have core: "cm_core cm" using assms by (simp add: cm_inv_def)
  have "mgr_inv ?m" by (rule Unsubscribe_inv [OF cm_coreD(1) [OF core]])
  moreover have "synced (cm_db cm) ?m" using cm_coreD(3) [OF core] by (simp add: Unsubscribe_def synced_def Let_def split: option.split)
  moreover have "i \<notin> {} \<Longrightarrow> i \<in> occupied ?m \<longleftrightarrow> i \<in> occupied (cm_state cm)" for i
    by (simp add: occupied_def abs_Unsubscribe)
  ultimately show ?thesis using cm_inv_state_step [OF assms, of ?m "{}"] by (simp add: cm_inv_def)
qed

lemma drop_quiet:
  assumes "ck_inv (sd_nacl d) (sw_keys w)"
  shows "quiet d P w (drop_subscriber d e ch c w) \<and> a_subs (abs (st (drop_subscriber d e ch c w))) = {p \<in> a_subs (abs (st w)). p \<noteq> (tc_ID c, ch)}"
proof -
  let ?w = "put_state (Unsubscribe (tc_ID c) [ch] (st w)) w"
  have s: "a_where (abs (st ?w)) = a_where (abs (st w))" "a_subs (abs (st ?w)) = {p \<in> a_subs (abs (st w)). p \<noteq> (tc_ID c, ch)}"
    by (auto simp: put_state_def st_def abs_Unsubscribe)
  have "quiet d P w ?w" using assms s unsubscribe_cm [of "sw_cm w"] by (auto simp: quiet_def put_state_def st_def op_ok_refl)
  moreover have "quiet d P ?w (log_out (SSubs (tc_ID c) x) ?w)" for x
    using assms by (intro log_quiet) (auto simp: put_state_def sent_def)
  ultimately show ?thesis using quiet_trans s by (auto simp: drop_subscriber_def sendSubscriptionState_def write_out_def log_out_def st_def)
qed

lemma drops_quiet:
  assumes "ck_inv (sd_nacl d) (sw_keys w)"
  shows "quiet d P w (fold (drop_subscriber d e ch) cs w) \<and>
    a_subs (abs (st (fold (drop_subscriber d e ch) cs w))) = {p \<in> a_subs (abs (st w)). p \<notin> (\<lambda>c. (tc_ID c, ch)) ` set cs}"
  using assms
proof (induction cs arbitrary: w)
  case (Cons c cs)
  note 1 = drop_quiet [OF Cons.prems, of P e ch c]
  have "ck_inv (sd_nacl d) (sw_keys (drop_subscriber d e ch c w))" using 1 by (auto intro: quiet_ck)
  from Cons.IH [OF this] 1 show ?case by (auto intro: quiet_trans)
qed simp

lemma subscribers_quiet:
  assumes "ck_inv (sd_nacl d) (sw_keys w)" "conns_ok w" "scope_env_ok e" "cm_inv (sw_cm w)" "channelSubscribers d e ch w = (ent, w')"
  shows "quiet d P w w' \<and> (\<forall>c \<in> set ent. (tc_ID c, ch) \<in> a_subs (abs (st w')))"
proof (cases "ch = 0 \<or> \<not> sd_state d")
  case True
  with assms(1,5) show ?thesis by (auto simp: channelSubscribers_def)
next
  case False
  let ?ids = "sn_order e (c_ClientID |`| ChannelSubscribers ch (st w))"
  obtain en rv w1 where s: "sub_scan d e ch ?ids w = (en, rv, w1)" by (metis prod_cases3)
  have ids: "distinct ?ids" "set ?ids = fset (c_ClientID |`| ChannelSubscribers ch (st w))" using assms(3) by (simp_all add: scope_env_ok_def)
  note p = sub_scan_props [OF assms(2) ids(1) s]
  obtain l where l: "w1 = w\<lparr>sw_loader := l\<rparr>" using p by blast
  have r: "ent = en" "w' = fold (drop_subscriber d e ch) rv w1" using assms(5) False s by (simp_all add: channelSubscribers_def)
  have i1: "ck_inv (sd_nacl d) (sw_keys w1)" using assms(1) l by simp
  note q = drops_quiet [OF i1, of P e ch rv]
  have "quiet d P w w1" unfolding l by (rule quiet_loader(1) [OF assms(1)])
  then have "quiet d P w w'" using q r quiet_trans by blast
  moreover have "(tc_ID c, ch) \<in> a_subs (abs (st w'))" if "c \<in> set ent" for c
  proof -
    have m: "mgr_inv (st w)" using assms(4) by (simp add: cm_inv_def cm_core_def st_def)
    have "tc_ID c \<in> set ?ids" using p that r by blast
    then have "(tc_ID c, ch) \<in> a_subs (abs (st w))" using subscriber_ids [OF m] ids(2) by simp
    moreover have "tc_ID c \<notin> tc_ID ` set rv" using p that r by blast
    ultimately show ?thesis using q r l by (auto simp: st_def)
  qed
  ultimately show ?thesis by blast
qed

lemma quiet_conns: "quiet d P w w' \<Longrightarrow> conns_ok w' = conns_ok w"
  by (simp add: conns_ok_def quietD(1))

lemma deliver_members_quiet:
  assumes "ck_inv (sd_nacl d) (sw_keys w)" "box_ok (sd_nacl d)" "scope_env_ok e" "conns_ok w"
  shows "quiet d ((\<lambda>i. (i, ch)) ` set is) w (fold (deliver_member d e ch) is w) \<and> sw_cm (fold (deliver_member d e ch) is w) = sw_cm w"
proof -
  let ?R = "\<lambda>x. ck_inv (sd_nacl d) (sw_keys x) \<and> conns_ok x \<and> sw_cm x = sw_cm w"
  have "quiet d ((\<lambda>i. (i, ch)) ` set is) x (deliver_member d e ch i x) \<and> ?R (deliver_member d e ch i x)" if "i \<in> set is" "?R x" for i x
  proof (cases "clientByID i x")
    case None
    with that(2) show ?thesis by (simp add: deliver_member_def)
  next
    case (Some c)
    have "tc_ID c = i" using that(2) Some by (simp add: conns_ok_def clientByID_def)
    then have q: "quiet d {(i, ch)} x (deliver_member d e ch i x) \<and> sw_cm (deliver_member d e ch i x) = sw_cm x"
      using deliver_quiet [OF _ assms(2,3), of x c ch] that(2) Some by (simp add: deliver_member_def deliver_to_def)
    then have "quiet d ((\<lambda>i. (i, ch)) ` set is) x (deliver_member d e ch i x)" using that(1) by (blast intro: quiet_mono)
    with q that(2) show ?thesis by (auto intro: quiet_ck simp: quiet_conns)
  qed
  then have "quiet d ((\<lambda>i. (i, ch)) ` set is) w (fold (deliver_member d e ch) is w) \<and> ?R (fold (deliver_member d e ch) is w)"
    using assms(1,4) by (intro quiet_fold [where R = ?R]) auto
  then show ?thesis by blast
qed

lemma deliver_clients_quiet:
  assumes "ck_inv (sd_nacl d) (sw_keys w)" "box_ok (sd_nacl d)" "scope_env_ok e"
  shows "quiet d ((\<lambda>c. (tc_ID c, ch)) ` set cs) w (fold (deliver_to d e ch) cs w) \<and> sw_cm (fold (deliver_to d e ch) cs w) = sw_cm w"
proof -
  let ?R = "\<lambda>x. ck_inv (sd_nacl d) (sw_keys x) \<and> sw_cm x = sw_cm w"
  have "quiet d ((\<lambda>c. (tc_ID c, ch)) ` set cs) x (deliver_to d e ch c x) \<and> ?R (deliver_to d e ch c x)" if "c \<in> set cs" "?R x" for c x
  proof -
    have q: "quiet d {(tc_ID c, ch)} x (deliver_to d e ch c x) \<and> sw_cm (deliver_to d e ch c x) = sw_cm x"
      using deliver_quiet [OF _ assms(2,3), of x c ch] that(2) by (simp add: deliver_to_def)
    then have "quiet d ((\<lambda>c. (tc_ID c, ch)) ` set cs) x (deliver_to d e ch c x)" using that(1) by (blast intro: quiet_mono)
    with q that(2) show ?thesis by (auto intro: quiet_ck)
  qed
  then have "quiet d ((\<lambda>c. (tc_ID c, ch)) ` set cs) w (fold (deliver_to d e ch) cs w) \<and> ?R (fold (deliver_to d e ch) cs w)"
    using assms(1) by (intro quiet_fold [where R = ?R]) auto
  then show ?thesis by blast
qed

definition redistribute :: "scope_deps \<Rightarrow> scope_env \<Rightarrow> channel_id \<Rightarrow> scope_world \<Rightarrow> scope_world" where
  "redistribute d e ch w =
     (case channelSubscribers d e ch (fold (deliver_member d e ch) (sn_order e (c_ClientID |`| ChannelMembers ch (st w))) w) of
        (ent, w2) \<Rightarrow> fold (deliver_to d e ch) ent w2)"

lemma redistribute_quiet:
  assumes "ck_inv (sd_nacl d) (sw_keys w)" "box_ok (sd_nacl d)" "scope_env_ok e" "conns_ok w" "cm_inv (sw_cm w)"
  shows "quiet d (readers ch (st (redistribute d e ch w))) w (redistribute d e ch w)"
proof -
  let ?ids = "sn_order e (c_ClientID |`| ChannelMembers ch (st w))"
  define w1 where "w1 = fold (deliver_member d e ch) ?ids w"
  obtain ent w2 where s: "channelSubscribers d e ch w1 = (ent, w2)" by fastforce
  define w3 where "w3 = fold (deliver_to d e ch) ent w2"
  have w3: "redistribute d e ch w = w3" by (simp add: redistribute_def w1_def [symmetric] s w3_def)
  have q1: "quiet d ((\<lambda>i. (i, ch)) ` set ?ids) w w1" "sw_cm w1 = sw_cm w"
    using deliver_members_quiet [OF assms(1-4), of ch ?ids] by (simp_all add: w1_def)
  have i1: "ck_inv (sd_nacl d) (sw_keys w1)" "conns_ok w1" "cm_inv (sw_cm w1)"
    using quiet_ck [OF q1(1)] quiet_conns [OF q1(1)] q1(2) assms(4,5) by simp_all
  have q2: "quiet d P w1 w2" "c \<in> set ent \<Longrightarrow> (tc_ID c, ch) \<in> a_subs (abs (st w2))" for P c
    using subscribers_quiet [OF i1(1,2) assms(3) i1(3) s] by blast+
  have q3: "quiet d ((\<lambda>c. (tc_ID c, ch)) ` set ent) w2 w3" "sw_cm w3 = sw_cm w2"
    using deliver_clients_quiet [OF quiet_ck [OF q2(1)] assms(2,3), of ch ent] by (simp_all add: w3_def)
  have m: "mgr_inv (st w)" using assms(5) by (simp add: cm_inv_def cm_core_def st_def)
  have same: "a_where (abs (st w3)) = a_where (abs (st w))" "st w3 = st w2"
    using quietD(6) [OF q1(1)] quietD(6) [OF q2(1)] q3(2) by (simp_all add: st_def)
  have "set ?ids = fset (c_ClientID |`| ChannelMembers ch (st w))" using assms(3) by (simp add: scope_env_ok_def)
  then have "(\<lambda>i. (i, ch)) ` set ?ids \<subseteq> readers ch (st w3)" using member_ids [OF m] same(1) by (auto simp: readers_def)
  moreover have "(\<lambda>c. (tc_ID c, ch)) ` set ent \<subseteq> readers ch (st w3)" using q2(2) same(2) by (auto simp: readers_def)
  ultimately show ?thesis
    unfolding w3 by (intro quiet_trans [OF quiet_trans [OF quiet_mono [OF q1(1)] q2(1)] quiet_mono [OF q3(1)]])
qed

lemma doRotate_alt:
  "doRotateScopeKey d e ch w =
     (case rotate_key (sd_nacl d) (sn_key e (CallRotate ch)) ch (sw_keys w) of
        (Inl _, ck) \<Rightarrow> w\<lparr>sw_keys := ck\<rparr> | (Inr _, ck) \<Rightarrow> redistribute d e ch (w\<lparr>sw_keys := ck\<rparr>))"
  by (simp add: doRotateScopeKey_def redistribute_def Let_def st_def split: prod.split sum.split)

text \<open>A rotation is quiet but for the current generation of its scope.\<close>

definition settles :: "scope_deps \<Rightarrow> (client_id \<times> scope_id) set \<Rightarrow> scope_world \<Rightarrow> scope_world \<Rightarrow> bool" where
  "settles d P w w' \<longleftrightarrow> (\<exists>ck. op_ok (sd_nacl d) (sw_keys w) ck \<and> cur_grows (sw_keys w) ck \<and>
     (\<forall>x. next_id x (ck_db (sw_keys w)) \<le> next_id x (ck_db ck)) \<and> quiet d P (w\<lparr>sw_keys := ck\<rparr>) w')"

lemma quiet_settles: "quiet d P w w' \<Longrightarrow> ck_inv (sd_nacl d) (sw_keys w) \<Longrightarrow> settles d P w w'"
  unfolding settles_def by (intro exI [of _ "sw_keys w"]) (simp add: op_ok_refl)

lemma settles_quiet: "settles d P a b \<Longrightarrow> quiet d P b c \<Longrightarrow> settles d P a c"
  unfolding settles_def by (blast intro: quiet_trans)

lemma settles_mono: "settles d P a b \<Longrightarrow> P \<subseteq> Q \<Longrightarrow> settles d Q a b"
  unfolding settles_def by (blast intro: quiet_mono)

lemma settlesD:
  assumes "settles d P w w'"
  shows "sw_conns w' = sw_conns w" "sw_voice w' = sw_voice w" "sw_router w' = sw_router w" "sw_users w' = sw_users w"
    "cm_inv (sw_cm w) \<Longrightarrow> cm_inv (sw_cm w')" "a_where (abs (st w')) = a_where (abs (st w))" "a_subs (abs (st w')) \<subseteq> a_subs (abs (st w))"
    "op_ok (sd_nacl d) (sw_keys w) (sw_keys w')" "next_id x (ck_db (sw_keys w)) \<le> next_id x (ck_db (sw_keys w'))"
    "\<exists>xs. sw_out w' = sw_out w @ xs \<and> (\<forall>i sc g. sent xs i sc g \<longrightarrow> (i, sc) \<in> P \<and> g < next_id sc (ck_db (sw_keys w')))"
    "cur_grows (sw_keys w) (sw_keys w')"
proof -
  obtain ck where ck: "op_ok (sd_nacl d) (sw_keys w) ck" "\<And>x. next_id x (ck_db (sw_keys w)) \<le> next_id x (ck_db ck)" "quiet d P (w\<lparr>sw_keys := ck\<rparr>) w'"
    "cur_grows (sw_keys w) ck"
    using assms unfolding settles_def by blast
  note q = quietD [OF ck(3)]
  show "sw_conns w' = sw_conns w" "sw_voice w' = sw_voice w" "sw_router w' = sw_router w" "sw_users w' = sw_users w"
    "cm_inv (sw_cm w) \<Longrightarrow> cm_inv (sw_cm w')" "a_where (abs (st w')) = a_where (abs (st w))" "a_subs (abs (st w')) \<subseteq> a_subs (abs (st w))"
    using q(1-7) by (simp_all add: st_def)
  show "op_ok (sd_nacl d) (sw_keys w) (sw_keys w')" using op_ok_trans [OF ck(1)] q(8) by simp
  show "next_id x (ck_db (sw_keys w)) \<le> next_id x (ck_db (sw_keys w'))" using ck(2) [of x] q(10) [of x] by simp
  show "\<exists>xs. sw_out w' = sw_out w @ xs \<and> (\<forall>i sc g. sent xs i sc g \<longrightarrow> (i, sc) \<in> P \<and> g < next_id sc (ck_db (sw_keys w')))"
    using ck(3) unfolding quiet_def by simp
  show "cur_grows (sw_keys w) (sw_keys w')" using cur_grows_trans [OF ck(4) kept_grows] q(9) by simp
qed

lemma doRotate_settles:
  assumes "ck_inv (sd_nacl d) (sw_keys w)" "box_ok (sd_nacl d)" "scope_env_ok e" "conns_ok w" "cm_inv (sw_cm w)"
  shows "settles d (readers ch (st (doRotateScopeKey d e ch w))) w (doRotateScopeKey d e ch w)"
proof -
  have env: "env_ok (sn_key e x)" for x using assms(3) by (simp add: scope_env_ok_def)
  obtain r ck where ro: "rotate_key (sd_nacl d) (sn_key e (CallRotate ch)) ch (sw_keys w) = (r, ck)" by fastforce
  have ok: "op_ok (sd_nacl d) (sw_keys w) ck" using rotate_ok [OF assms(1,2) env ro] by blast
  then have i: "ck_inv (sd_nacl d) ck" by (simp add: op_ok_def)
  have "quiet d (readers ch (st (redistribute d e ch (w\<lparr>sw_keys := ck\<rparr>)))) (w\<lparr>sw_keys := ck\<rparr>) (redistribute d e ch (w\<lparr>sw_keys := ck\<rparr>))"
    using assms i by (intro redistribute_quiet) (simp_all add: conns_ok_def)
  then show ?thesis
    unfolding settles_def doRotate_alt ro using ok rotate_next [OF ro] i rotate_grows [OF assms(1,2) env ro] by (cases r) (auto intro!: exI [of _ ck])
qed

text \<open>Once a rotation has succeeded, its generation is current to the end of the step.\<close>

lemma doRotate_current:
  assumes "ck_inv (sd_nacl d) (sw_keys w)" "box_ok (sd_nacl d)" "scope_env_ok e" "conns_ok w" "cm_inv (sw_cm w)"
    "rotate_key (sd_nacl d) (sn_key e (CallRotate ch)) ch (sw_keys w) = (Inr (g, k), ck)"
  shows "en_loaded (entry ch (sw_keys (doRotateScopeKey d e ch w))) \<and> en_curID (entry ch (sw_keys (doRotateScopeKey d e ch w))) = g \<and>
    g = next_id ch (ck_db (sw_keys w)) \<and> g \<noteq> 0"
proof -
  have env: "env_ok (sn_key e x)" for x using assms(3) by (simp add: scope_env_ok_def)
  note ok = rotate_ok [OF assms(1,2) env assms(6)]
  then have i: "ck_inv (sd_nacl d) ck" by (simp add: op_ok_def)
  have gk: "gen_key (sd_nacl d) (ck_ring ck) (ck_db ck) ch g = Some k" "g = next_id ch (ck_db (sw_keys w))" using ok by auto
  have "g \<noteq> 0" using gen_key_bound [OF _ gk(1)] i by (auto simp: ck_inv_def)
  have "quiet d (readers ch (st (redistribute d e ch (w\<lparr>sw_keys := ck\<rparr>)))) (w\<lparr>sw_keys := ck\<rparr>) (redistribute d e ch (w\<lparr>sw_keys := ck\<rparr>))"
    using assms i by (intro redistribute_quiet) (simp_all add: conns_ok_def)
  from quietD(9) [OF this] rotate_current [OF assms(6)] \<open>g \<noteq> 0\<close> gk(2) show ?thesis
    by (auto simp: doRotate_alt assms(6) cur_kept_def)
qed

subsection \<open>The invariant of the server\<close>

text \<open>
  The voice router has every client in the channel the state has it in; every generation that was sent is one that was allocated;
  and the components are consistent each for itself.
\<close>

definition in_step :: "scope_world \<Rightarrow> bool" where
  "in_step w \<longleftrightarrow> (\<forall>i. ChannelOf i (sw_router w) = a_where (abs (st w)) i)"

definition log_ok :: "scope_world \<Rightarrow> bool" where
  "log_ok w \<longleftrightarrow> (\<forall>i sc g. sent (sw_out w) i sc g \<longrightarrow> g < next_id sc (ck_db (sw_keys w)))"

definition parts_ok :: "scope_deps \<Rightarrow> scope_world \<Rightarrow> bool" where
  "parts_ok d w \<longleftrightarrow>
     cm_inv (sw_cm w) \<and> rt_inv (sw_router w) \<and> voice_inv (sw_voice w) \<and> ck_inv (sd_nacl d) (sw_keys w) \<and> conns_ok w \<and> log_ok w"

definition srv_inv :: "scope_deps \<Rightarrow> scope_world \<Rightarrow> bool" where
  "srv_inv d w \<longleftrightarrow> parts_ok d w \<and> in_step w"

text \<open>Who may read a scope: everybody the global one, members and subscribers a channel.\<close>

definition may_read :: "manager \<Rightarrow> (client_id \<times> scope_id) set" where
  "may_read m = {(i, s). s = 0 \<or> a_where (abs m) i = Some s \<or> (i, s) \<in> a_subs (abs m)}"

definition serves :: "scope_world \<Rightarrow> scope_world \<Rightarrow> bool" where
  "serves w w' \<longleftrightarrow> cur_grows (sw_keys w) (sw_keys w') \<and> (\<exists>xs. sw_out w' = sw_out w @ xs \<and> (\<forall>i sc g. sent xs i sc g \<longrightarrow> (i, sc) \<in> may_read (st w')))"

definition wired :: "scope_deps \<Rightarrow> bool" where
  "wired d \<longleftrightarrow> sd_state d \<and> sd_channels d \<and> sd_voice d \<and> box_ok (sd_nacl d)"

lemma readers_may: "readers ch m \<subseteq> may_read m"
  by (auto simp: readers_def may_read_def)

lemma serves_refl [simp]: "sw_out w' = sw_out w \<Longrightarrow> sw_keys w' = sw_keys w \<Longrightarrow> serves w w'"
  unfolding serves_def by (intro conjI exI [of _ "[]"]) auto

lemma settles_parts: "settles d P w w' \<Longrightarrow> parts_ok d w \<Longrightarrow> parts_ok d w'"
proof -
  assume s: "settles d P w w'" and p: "parts_ok d w"
  note q = settlesD [OF s]
  obtain xs where xs: "sw_out w' = sw_out w @ xs" "\<And>i sc g. sent xs i sc g \<Longrightarrow> g < next_id sc (ck_db (sw_keys w'))" using q(10) by blast
  have "log_ok w'" unfolding log_ok_def
  proof (intro allI impI)
    fix i sc g
    assume "sent (sw_out w') i sc g"
    then consider "sent (sw_out w) i sc g" | "sent xs i sc g" using xs(1) by auto
    then show "g < next_id sc (ck_db (sw_keys w'))"
    proof cases
      case 1
      with p have "g < next_id sc (ck_db (sw_keys w))" unfolding parts_ok_def log_ok_def by blast
      with q(9) [of sc] show ?thesis by simp
    qed (rule xs(2))
  qed
  moreover have "ck_inv (sd_nacl d) (sw_keys w')" using q(8) by (simp add: op_ok_def)
  ultimately show ?thesis using p q(1-5) by (simp add: parts_ok_def conns_ok_def)
qed

lemma settles_in_step: "settles d P w w' \<Longrightarrow> in_step w' = in_step w"
  by (simp add: in_step_def settlesD(3,6))

lemma settles_serves: "settles d P w w' \<Longrightarrow> P \<subseteq> may_read (st w') \<Longrightarrow> serves w w'"
  using settlesD(10,11) [of d P w w'] unfolding serves_def by blast

lemma serves_trans: "serves a b \<Longrightarrow> serves b c \<Longrightarrow> may_read (st b) \<subseteq> may_read (st c) \<Longrightarrow> serves a c"
proof -
  assume ab: "serves a b" and bc: "serves b c" and m: "may_read (st b) \<subseteq> may_read (st c)"
  obtain xs where xs: "sw_out b = sw_out a @ xs" "\<And>i sc g. sent xs i sc g \<Longrightarrow> (i, sc) \<in> may_read (st b)" using ab unfolding serves_def by blast
  obtain ys where ys: "sw_out c = sw_out b @ ys" "\<And>i sc g. sent ys i sc g \<Longrightarrow> (i, sc) \<in> may_read (st c)" using bc unfolding serves_def by blast
  have "sw_out c = sw_out a @ (xs @ ys)" using xs(1) ys(1) by simp
  moreover have "sent (xs @ ys) i sc g \<Longrightarrow> (i, sc) \<in> may_read (st c)" for i sc g using xs(2) ys(2) m by auto
  ultimately show ?thesis using ab bc cur_grows_trans unfolding serves_def by blast
qed

text \<open>A step keeps the parts in order, sends keys to readers only and takes no scope back to an earlier generation.\<close>

definition fair :: "scope_deps \<Rightarrow> scope_world \<Rightarrow> scope_world \<Rightarrow> bool" where
  "fair d w w' \<longleftrightarrow> parts_ok d w' \<and> serves w w'"

lemma fair_trans: "fair d a b \<Longrightarrow> fair d b c \<Longrightarrow> may_read (st b) \<subseteq> may_read (st c) \<Longrightarrow> fair d a c"
  unfolding fair_def by (blast intro: serves_trans)

lemma settles_fair: "settles d P w w' \<Longrightarrow> parts_ok d w \<Longrightarrow> P \<subseteq> may_read (st w') \<Longrightarrow> fair d w w'"
  by (simp add: fair_def settles_parts settles_serves)

lemma parts_ck: "parts_ok d w \<Longrightarrow> ck_inv (sd_nacl d) (sw_keys w)"
  by (simp add: parts_ok_def)

lemma quiet_fair: "quiet d P w w' \<Longrightarrow> parts_ok d w \<Longrightarrow> P \<subseteq> may_read (st w') \<Longrightarrow> fair d w w'"
  by (rule settles_fair [OF quiet_settles]) (simp_all add: parts_ck)

lemma log_fair: "parts_ok d w \<Longrightarrow> (\<And>i sc g. \<not> sent [x] i sc g) \<Longrightarrow> fair d w (log_out x w)"
  by (rule quiet_fair [OF log_quiet [where P = "{}"]]) (simp_all add: parts_ck)

lemma log_st [simp]: "st (log_out x w) = st w" "sw_router (log_out x w) = sw_router w" "sw_keys (log_out x w) = sw_keys w"
  "sw_conns (log_out x w) = sw_conns w" "sw_cm (log_out x w) = sw_cm w" "sw_users (log_out x w) = sw_users w"
  by (simp_all add: log_out_def st_def)

lemma not_sent [simp]:
  "\<not> sent [SError a b] i sc g" "\<not> sent [SSubs a c] i sc g" "\<not> sent [SMoved a h k s] i sc g" "\<not> sent [SKicked a h s s' b1 b2 t] i sc g"
  "\<not> sent [STold a] i sc g" "\<not> sent [SClosed a] i sc g" "\<not> sent [SUnregistered a] i sc g" "\<not> sent [SLeft a b1] i sc g"
  "\<not> sent [SAudit s s' s''] i sc g"
  by (simp_all add: sent_def)

lemma log_step:
  assumes "parts_ok d w" "\<And>i sc g. \<not> sent [x] i sc g"
  shows "fair d w (log_out x w) \<and> in_step (log_out x w) = in_step w"
  using log_fair [OF assms] by (simp add: in_step_def)

lemma broadcast_step:
  assumes "parts_ok d w" "\<And>i sc g. \<not> sent [x] i sc g"
  shows "fair d w (broadcastEvent d x w) \<and> in_step (broadcastEvent d x w) = in_step w \<and> st (broadcastEvent d x w) = st w"
  using log_step [OF assms] assms(1) by (simp add: broadcastEvent_def fair_def)

lemma audit_step:
  assumes "parts_ok d w"
  shows "fair d w (audit d a b c w) \<and> in_step (audit d a b c w) = in_step w \<and> st (audit d a b c w) = st w"
  using log_step [OF assms, of "SAudit a b c"] assms by (simp add: audit_def fair_def)

lemma refuse_step:
  assumes "parts_ok d w"
  shows "fair d w (snd (refuse e c code w)) \<and> in_step (snd (refuse e c code w)) = in_step w \<and> st (snd (refuse e c code w)) = st w"
  using log_step [OF assms, of "SError (tc_ID c) code"] by (simp add: refuse_def write_out_def)

lemma rotate_step:
  assumes "parts_ok d w" "wired d" "scope_env_ok e"
  shows "fair d w (rotateScopeKey d e ch w) \<and> in_step (rotateScopeKey d e ch w) = in_step w \<and>
    a_where (abs (st (rotateScopeKey d e ch w))) = a_where (abs (st w)) \<and> sw_router (rotateScopeKey d e ch w) = sw_router w \<and>
    sw_conns (rotateScopeKey d e ch w) = sw_conns w \<and> a_subs (abs (st (rotateScopeKey d e ch w))) \<subseteq> a_subs (abs (st w))"
proof -
  have p: "ck_inv (sd_nacl d) (sw_keys w)" "conns_ok w" "cm_inv (sw_cm w)" using assms(1) by (simp_all add: parts_ok_def)
  have b: "box_ok (sd_nacl d)" using assms(2) by (simp add: wired_def)
  have "settles d (readers ch (st (rotateScopeKey d e ch w))) w (rotateScopeKey d e ch w)"
    using doRotate_settles [OF p(1) b assms(3) p(2,3), of ch] quiet_settles [OF quiet_refl] quiet_settles [OF quiet_loader(3)] p(1)
    by (simp add: rotateScopeKey_def)
  from settles_fair [OF this assms(1) readers_may] settles_in_step [OF this] settlesD [OF this] show ?thesis by simp
qed

subsection \<open>Voice follows\<close>

lemma clientChan_join:
  assumes "rt_inv r"
  shows "rt_inv (fst (rt_JoinChannel ok ord now ch i r)) \<and> ChannelOf x (fst (rt_JoinChannel ok ord now ch i r)) = (if x = i then Some ch else ChannelOf x r)"
proof -
  have c: "core_eq (fst (rt_JoinChannel ok ord now ch i r)) (fst (join_locked ok ch i r))" by (rule JoinChannel_core)
  have "rt_clientChan (fst (rt_JoinChannel ok ord now ch i r)) = rt_clientChan (joined ch i r)"
    using c restD(2) [OF connect_rest [of ok ch i "joined ch i r"]] by (simp add: core_eq_def base_eq_def join_locked_connect)
  then show ?thesis using core_eq_inv [OF c] join_locked_inv [OF assms] joined_props(2) [OF assms] by (simp add: ChannelOf_def)
qed

lemma clientChan_leave:
  assumes "rt_inv r"
  shows "rt_inv (fst (rt_LeaveChannel ch i r)) \<and> ChannelOf x (fst (rt_LeaveChannel ch i r)) = (if x = i \<and> ChannelOf i r = Some ch then None else ChannelOf x r)"
  using leave_locked_fields(1) [of r ch i x] leave_locked_inv [OF assms, of ch i] assms
  by (simp add: rt_LeaveChannel_def ChannelOf_def rt_inv_def case_prod_beta)

lemma voice_join_step:
  assumes "parts_ok d w"
  shows "parts_ok d (voice_join e i ch w) \<and> sw_out (voice_join e i ch w) = sw_out w \<and> sw_cm (voice_join e i ch w) = sw_cm w \<and>
    sw_conns (voice_join e i ch w) = sw_conns w \<and> sw_keys (voice_join e i ch w) = sw_keys w \<and>
    ChannelOf x (sw_router (voice_join e i ch w)) = (if x = i then Some ch else ChannelOf x (sw_router w))"
proof -
  have r: "rt_inv (sw_router w)" using assms by (simp add: parts_ok_def)
  show ?thesis
    using clientChan_join [OF r, of "sn_track e" "sn_rids e" "sn_now e" ch i x] assms
    by (auto simp: voice_join_def case_prod_beta parts_ok_def conns_ok_def log_ok_def hook_all_inv)
qed

lemma voice_leave_step:
  assumes "parts_ok d w"
  shows "parts_ok d (voice_leave e i ch w) \<and> sw_out (voice_leave e i ch w) = sw_out w \<and> sw_cm (voice_leave e i ch w) = sw_cm w \<and>
    sw_conns (voice_leave e i ch w) = sw_conns w \<and> sw_keys (voice_leave e i ch w) = sw_keys w \<and>
    ChannelOf x (sw_router (voice_leave e i ch w)) = (if x = i \<and> ChannelOf i (sw_router w) = Some ch then None else ChannelOf x (sw_router w))"
proof -
  have r: "rt_inv (sw_router w)" using assms by (simp add: parts_ok_def)
  show ?thesis
    using clientChan_leave [OF r, of ch i x] assms
    by (auto simp: voice_leave_def case_prod_beta parts_ok_def conns_ok_def log_ok_def hook_all_inv)
qed

lemma close_step:
  assumes "parts_ok d w" "ClosePeer now i (sw_voice w, sw_router w) = (v, r)"
  shows "parts_ok d (w\<lparr>sw_voice := v, sw_router := r\<rparr>) \<and> ChannelOf x r = (if x = i then None else ChannelOf x (sw_router w))"
proof -
  have ri: "rt_inv (sw_router w)" "voice_inv (sw_voice w)" using assms(1) by (simp_all add: parts_ok_def)
  have r: "r = fst (DetachPeer i (sw_router w))" "v = set_peer i False (hook_all now (snd (DetachPeer i (sw_router w))) (stopReneg i (sw_voice w)))"
    using assms(2) by (simp_all add: ClosePeer_def case_prod_beta)
  have "rt_inv r" unfolding r DetachPeer_def by (rule detachPeer_inv [OF ri(1)])
  moreover have "voice_inv v" unfolding r by (intro set_peer_inv hook_all_inv stopReneg_inv ri(2))
  ultimately show ?thesis
    using assms(1) detach_pairs [OF ri(1), of i x] r by (auto simp: parts_ok_def conns_ok_def log_ok_def)
qed

lemma serves_eq: "sw_out b = sw_out a \<Longrightarrow> sw_keys b = sw_keys a \<Longrightarrow> serves b c \<Longrightarrow> serves a c"
  by (simp add: serves_def)

lemma may_read_same: "sw_cm b = sw_cm a \<Longrightarrow> may_read (st b) = may_read (st a)"
  by (simp add: st_def)

subsection \<open>Moves\<close>

lemma deliver_fair:
  assumes "parts_ok d w" "wired d" "scope_env_ok e" "(tc_ID c, ch) \<in> may_read (st w)"
  shows "fair d w (snd (deliverScopeKey d e c ch w)) \<and> st (snd (deliverScopeKey d e c ch w)) = st w \<and>
    sw_router (snd (deliverScopeKey d e c ch w)) = sw_router w \<and> sw_conns (snd (deliverScopeKey d e c ch w)) = sw_conns w"
proof -
  have q: "quiet d {(tc_ID c, ch)} w (snd (deliverScopeKey d e c ch w)) \<and> sw_cm (snd (deliverScopeKey d e c ch w)) = sw_cm w"
    using deliver_quiet [OF parts_ck [OF assms(1)] _ assms(3)] assms(2) by (simp add: wired_def)
  then have "st (snd (deliverScopeKey d e c ch w)) = st w" by (simp add: st_def)
  with q quiet_fair [OF _ assms(1)] assms(4) quietD(1,3) show ?thesis by auto
qed

lemma notify_fair:
  assumes "parts_ok d w" "wired d" "scope_env_ok e" "a_where (abs (st w)) i = Some ch"
  shows "fair d w (case clientByID i w of None \<Rightarrow> w | Some c \<Rightarrow> snd (sendSubscriptionState d e c (snd (deliverScopeKey d e c ch w)))) \<and>
    st (case clientByID i w of None \<Rightarrow> w | Some c \<Rightarrow> snd (sendSubscriptionState d e c (snd (deliverScopeKey d e c ch w)))) = st w \<and>
    sw_router (case clientByID i w of None \<Rightarrow> w | Some c \<Rightarrow> snd (sendSubscriptionState d e c (snd (deliverScopeKey d e c ch w)))) = sw_router w"
proof (cases "clientByID i w")
  case None
  with assms(1) show ?thesis by (simp add: fair_def)
next
  case (Some c)
  have "tc_ID c = i" using assms(1) Some by (simp add: parts_ok_def conns_ok_def clientByID_def)
  then have d: "fair d w (snd (deliverScopeKey d e c ch w))" "st (snd (deliverScopeKey d e c ch w)) = st w"
    "sw_router (snd (deliverScopeKey d e c ch w)) = sw_router w"
    using deliver_fair [OF assms(1-3), of c ch] assms(4) by (simp_all add: may_read_def)
  let ?w = "snd (deliverScopeKey d e c ch w)"
  have p: "parts_ok d ?w" using d(1) by (simp add: fair_def)
  have l: "fair d ?w (log_out x ?w)" if "\<And>i sc g. \<not> sent [x] i sc g" for x using log_fair [OF p that] .
  show ?thesis using Some d fair_trans [OF d(1) l] by (simp add: sendSubscriptionState_def write_out_def)
qed

lemma afterMove_fair:
  assumes "parts_ok d w" "wired d" "scope_env_ok e" "a_where (abs (st w)) i = Some ch"
    "\<And>x. x \<noteq> i \<Longrightarrow> ChannelOf x (sw_router w) = a_where (abs (st w)) x"
  shows "fair d w (afterMove d e i ch by prev w) \<and> in_step (afterMove d e i ch by prev w)"
proof -
  let ?left = "prev \<noteq> 0 \<and> prev \<noteq> ch"
  define w0 where "w0 = (if ?left then voice_leave e i prev w else w)"
  define w1 where "w1 = voice_join e i ch w0"
  define w2 where "w2 = (if ?left then rotateScopeKey d e prev w1 else w1)"
  define w3 where "w3 = (case clientByID i w2 of None \<Rightarrow> w2 | Some c \<Rightarrow> snd (sendSubscriptionState d e c (snd (deliverScopeKey d e c ch w2))))"
  have w0: "parts_ok d w0" "sw_out w0 = sw_out w" "sw_cm w0 = sw_cm w" "sw_keys w0 = sw_keys w" "x \<noteq> i \<Longrightarrow> ChannelOf x (sw_router w0) = ChannelOf x (sw_router w)" for x
    using voice_leave_step [OF assms(1), of e i prev x] assms(1) by (simp_all add: w0_def)
  have w1: "parts_ok d w1" "sw_out w1 = sw_out w" "sw_cm w1 = sw_cm w" "in_step w1" "sw_keys w1 = sw_keys w"
    using voice_join_step [OF w0(1), of e i ch] w0 assms(4,5) by (auto simp: w1_def in_step_def st_def)
  have w2: "fair d w1 w2" "in_step w2" "a_where (abs (st w2)) = a_where (abs (st w1))"
    using rotate_step [OF w1(1) assms(2,3), of prev] w1(1,4) by (auto simp: w2_def fair_def)
  have p2: "parts_ok d w2" using w2(1) by (simp add: fair_def)
  have wh: "a_where (abs (st w2)) i = Some ch" using w2(3) w1(3) assms(4) by (simp add: st_def)
  have w3: "fair d w2 w3" "st w3 = st w2" "sw_router w3 = sw_router w2" using notify_fair [OF p2 assms(2,3) wh] by (simp_all add: w3_def)
  have p3: "parts_ok d w3" using w3(1) by (simp add: fair_def)
  note b = broadcast_step [OF p3, of "SMoved i prev ch by"]
  have f13: "fair d w1 w3" using fair_trans [OF w2(1) w3(1)] w3(2) by simp
  have "fair d w1 (broadcastEvent d (SMoved i prev ch by) w3)" using fair_trans [OF f13] b by simp
  then have "fair d w (broadcastEvent d (SMoved i prev ch by) w3)" using serves_eq [OF w1(2,5)] by (simp add: fair_def)
  moreover have "in_step (broadcastEvent d (SMoved i prev ch by) w3)" using b w2(2) w3(2,3) by (simp add: in_step_def)
  moreover have v: "sd_voice d = True" using assms(2) by (simp add: wired_def)
  have "afterMove d e i ch by prev w = broadcastEvent d (SMoved i prev ch by) w3"
    by (simp only: afterMove_def Let_def v if_True w3_def w2_def w1_def w0_def)
  ultimately show ?thesis by simp
qed

lemma moveClient_cases:
  assumes "srv_inv d w" "wired d"
  obtains (stays) "moveClient d e i ch by w = (False, w)"
  | (moved) c cm where "moveClient d e i ch by w = (True, afterMove d e i ch by (c_ChannelID c) (w\<lparr>sw_cm := cm\<rparr>))"
    "fmlookup (clients (st w)) i = Some c" "parts_ok d (w\<lparr>sw_cm := cm\<rparr>)" "ch \<noteq> 0"
    "abs (cm_state cm) = (abs (st w))\<lparr>a_where := (a_where (abs (st w)))(i \<mapsto> ch)\<rparr>"
proof -
  have p: "parts_ok d w" "mgr_inv (cm_state (sw_cm w))" using assms(1) by (simp_all add: srv_inv_def parts_ok_def cm_inv_def cm_core_def)
  show ?thesis
  proof (cases rule: cm_MoveClient_cases [OF p(2), of i ch, case_names fail moved])
    case (fail er)
    then obtain prev where "cm_MoveClient i ch (sw_cm w) = (sw_cm w, prev, Some er)" by (metis prod.collapse)
    then show ?thesis using assms(2) stays by (simp add: moveClient_def wired_def)
  next
    case m: (moved c x m)
    define cm where "cm = fst (cm_MoveClient i ch (sw_cm w))"
    have cm: "cm_MoveClient i ch (sw_cm w) = (cm, c_ChannelID c, None)" using m(6) by (simp add: cm_def prod_eq_iff)
    have s: "cm_state cm = m" using m(5) by (simp add: cm_def Let_def)
    have "cm_inv cm" unfolding cm_def by (rule cm_MoveClient_inv) (use p(1) in \<open>simp add: parts_ok_def\<close>)
    then have p1: "parts_ok d (w\<lparr>sw_cm := cm\<rparr>)" using p(1) by (simp add: parts_ok_def conns_ok_def log_ok_def)
    have ab: "abs (cm_state cm) = (abs (st w))\<lparr>a_where := (a_where (abs (st w)))(i \<mapsto> ch)\<rparr>"
      using abs_place(2) [OF p(2) m(1,2)] m(3) s by (simp add: st_def)
    have nz: "ch \<noteq> 0" using mgr_invD(1) [OF p(2)] m(2) by (auto simp: inv_keys_def)
    show ?thesis using moved [OF _ _ p1 nz ab] m(1) cm assms(2) by (simp add: moveClient_def wired_def st_def)
  qed
qed

lemma moveClient_fair:
  assumes "srv_inv d w" "wired d" "scope_env_ok e"
  shows "fair d w (snd (moveClient d e i ch by w)) \<and> in_step (snd (moveClient d e i ch by w))"
proof (cases rule: moveClient_cases [OF assms(1,2), of e i ch "by", case_names stays moved])
  case stays
  with assms(1) show ?thesis by (simp add: fair_def srv_inv_def)
next
  case (moved c cm)
  have wh: "a_where (abs (st (w\<lparr>sw_cm := cm\<rparr>))) i = Some ch" using moved(5) by (simp add: st_def)
  have oth: "y \<noteq> i \<Longrightarrow> ChannelOf y (sw_router (w\<lparr>sw_cm := cm\<rparr>)) = a_where (abs (st (w\<lparr>sw_cm := cm\<rparr>))) y" for y
    using assms(1) moved(5) by (simp add: srv_inv_def in_step_def st_def)
  note f = afterMove_fair [OF moved(3) assms(2,3) wh oth, of "by" "c_ChannelID c"]
  with moved(1) serves_eq [of "w\<lparr>sw_cm := cm\<rparr>" w] show ?thesis by (auto simp: fair_def)
qed

subsection \<open>Handlers\<close>

definition good :: "scope_deps \<Rightarrow> scope_world \<Rightarrow> scope_world \<Rightarrow> bool" where
  "good d w w' \<longleftrightarrow> fair d w w' \<and> in_step w'"

lemma good_refl: "srv_inv d w \<Longrightarrow> good d w w"
  by (simp add: good_def fair_def srv_inv_def)

lemma good_inv: "good d w w' \<Longrightarrow> srv_inv d w'"
  by (simp add: good_def fair_def srv_inv_def)

lemma good_trans: "good d a b \<Longrightarrow> good d b c \<Longrightarrow> may_read (st b) \<subseteq> may_read (st c) \<Longrightarrow> good d a c"
  unfolding good_def by (blast intro: fair_trans)

text \<open>The parts of the world that the invariant does not look at.\<close>

lemma inv_fields [simp]:
  "srv_inv d (w\<lparr>sw_loader := l\<rparr>) = srv_inv d w" "srv_inv d (w\<lparr>sw_rate := q\<rparr>) = srv_inv d w" "srv_inv d (w\<lparr>sw_users := u\<rparr>) = srv_inv d w"
  "srv_inv d (w\<lparr>sw_rot := t\<rparr>) = srv_inv d w"
  by (simp_all add: srv_inv_def parts_ok_def conns_ok_def log_ok_def in_step_def st_def)

lemma good_fields [simp]:
  "good d (w\<lparr>sw_loader := l\<rparr>) w' = good d w w'" "good d (w\<lparr>sw_rate := q\<rparr>) w' = good d w w'" "good d (w\<lparr>sw_users := u\<rparr>) w' = good d w w'"
  "good d (w\<lparr>sw_rot := t\<rparr>) w' = good d w w'"
  by (simp_all add: good_def fair_def serves_def)

lemma st_fields [simp]:
  "st (w\<lparr>sw_loader := l\<rparr>) = st w" "st (w\<lparr>sw_rate := q\<rparr>) = st w" "st (w\<lparr>sw_users := u\<rparr>) = st w" "st (w\<lparr>sw_rot := t\<rparr>) = st w"
  by (simp_all add: st_def)

lemma good_refuse: "srv_inv d w \<Longrightarrow> good d w (snd (refuse e c code w))"
  using refuse_step [of d w e c code] by (simp add: good_def srv_inv_def)

lemma good_then_refuse: "good d w w' \<Longrightarrow> good d w (snd (refuse e c code w'))"
  using good_trans [OF _ good_refuse] refuse_step [of d w' e c code] good_inv [of d w w'] by (simp add: srv_inv_def)

lemma good_audit: "good d w w' \<Longrightarrow> good d w (audit d a b s w')"
proof -
  assume g: "good d w w'"
  then have p: "parts_ok d w'" "in_step w'" by (simp_all add: good_def fair_def)
  have "good d w' (audit d a b s w')" using audit_step [OF p(1), of a b s] p(2) by (simp add: good_def)
  from good_trans [OF g this] audit_step [OF p(1), of a b s] show ?thesis by simp
qed

lemma good_log: "good d w w' \<Longrightarrow> (\<And>i sc g. \<not> sent [x] i sc g) \<Longrightarrow> good d w (log_out x w')"
proof -
  assume g: "good d w w'" and x: "\<And>i sc g. \<not> sent [x] i sc g"
  then have p: "parts_ok d w'" "in_step w'" by (simp_all add: good_def fair_def)
  have "good d w' (log_out x w')" using log_step [OF p(1) x] p(2) by (simp add: good_def)
  from good_trans [OF g this] show ?thesis by simp
qed

lemma good_broadcast: "good d w w' \<Longrightarrow> (\<And>i sc g. \<not> sent [x] i sc g) \<Longrightarrow> good d w (broadcastEvent d x w')"
  by (simp add: broadcastEvent_def good_log)

lemma good_move:
  assumes "srv_inv d w" "wired d" "scope_env_ok e"
  shows "good d w (snd (moveClient d e i ch y w))"
  using moveClient_fair [OF assms] by (simp add: good_def)

lemma good_move_or:
  assumes "srv_inv d w" "wired d" "scope_env_ok e"
  shows "good d w (snd (case moveClient d e i ch y w of (True, w1) \<Rightarrow> (True, w1) | (False, w1) \<Rightarrow> refuse e c code w1))"
  using good_move [OF assms, of i ch y] good_then_refuse
  by (cases "moveClient d e i ch y w"; cases "fst (moveClient d e i ch y w)") auto

lemma good_join:
  assumes "srv_inv d w" "wired d" "scope_env_ok e"
  shows "good d w (snd (handleJoinChannel d e c msg w))"
proof -
  have r: "good d w (snd (refuse e c code w))" "good d w (snd (refuse e c code (w\<lparr>sw_loader := l\<rparr>)))" for code l
    using good_refuse [OF assms(1)] good_refuse [of d "w\<lparr>sw_loader := l\<rparr>"] assms(1) by simp_all
  have m: "good d w (snd (case moveClient d e i ch i (w\<lparr>sw_loader := l\<rparr>) of (True, w1) \<Rightarrow> (True, w1) | (False, w1) \<Rightarrow> refuse e c code w1))" for i ch l code
    using good_move_or [of d "w\<lparr>sw_loader := l\<rparr>" e c code i ch i] assms by simp
  show ?thesis
    unfolding handleJoinChannel_def by (simp add: r m [unfolded case_prod_beta] case_prod_beta split: option.split sum.split)
qed

lemma good_moveHandler:
  assumes "srv_inv d w" "wired d" "scope_env_ok e"
  shows "good d w (snd (handleMoveClient d e c msg w))"
proof -
  have r: "good d w (snd (refuse e c code w))" "good d w (snd (refuse e c code (w\<lparr>sw_loader := l\<rparr>)))" for code l
    using good_refuse [OF assms(1)] good_refuse [of d "w\<lparr>sw_loader := l\<rparr>"] assms(1) by simp_all
  have m: "good d w (snd (case moveClient d e i ch y (w\<lparr>sw_loader := l\<rparr>) of (True, w1) \<Rightarrow> (True, w1) | (False, w1) \<Rightarrow> refuse e c code w1))" for i ch y l code
    using good_move_or [of d "w\<lparr>sw_loader := l\<rparr>" e c code i ch y] assms by simp
  show ?thesis
    unfolding handleMoveClient_def by (simp add: r m [unfolded case_prod_beta] case_prod_beta split: option.split sum.split)
qed

lemma good_adminMove:
  assumes "srv_inv d w" "wired d" "scope_env_ok e"
  shows "good d w (snd (admin_MoveClient d e i ch w))"
  using good_move [OF assms] good_refl [OF assms(1)] by (simp add: admin_MoveClient_def)

lemma leave_good:
  assumes "srv_inv d w" "wired d" "LeaveClient i (sw_cm w) = (cm, ch, err)"
  shows "err \<noteq> None \<and> cm = sw_cm w \<or> err = None \<and> a_where (abs (st w)) i = Some ch \<and> good d w (voice_leave e i ch (w\<lparr>sw_cm := cm\<rparr>)) \<and>
    sw_keys (voice_leave e i ch (w\<lparr>sw_cm := cm\<rparr>)) = sw_keys w"
proof (cases "\<exists>c. fmlookup (clients (st w)) i = Some c \<and> c_ChannelID c \<noteq> 0")
  case False
  with assms(3) show ?thesis by (auto simp: LeaveClient_def ClientChannelState_def st_def split: option.splits if_splits)
next
  case True
  then obtain c where c: "fmlookup (clients (st w)) i = Some c" "c_ChannelID c \<noteq> 0" by blast
  have p: "parts_ok d w" "in_step w" using assms(1) by (simp_all add: srv_inv_def)
  have l: "LeaveChannel i (st w) = (departed i c (st w), None)" by (rule LeaveChannel_departed [OF c])
  have r: "ch = c_ChannelID c" "err = None" "cm_state cm = departed i c (st w)" "cm = fst (LeaveClient i (sw_cm w))"
    using assms(3) c l by (auto simp: LeaveClient_def ClientChannelState_def st_def)
  have "cm_inv cm" unfolding r(4) by (rule LeaveClient_inv) (use p(1) in \<open>simp add: parts_ok_def\<close>)
  then have p1: "parts_ok d (w\<lparr>sw_cm := cm\<rparr>)" using p(1) by (simp add: parts_ok_def conns_ok_def log_ok_def)
  have ab: "a_where (abs (cm_state cm)) = (a_where (abs (st w)))(i := None)" using abs_departed [OF c(1)] r(3) by simp
  have wh: "a_where (abs (st w)) i = Some ch" using c r(1) by (simp add: a_where_iff)
  note v = voice_leave_step [OF p1, of e i ch]
  have "in_step (voice_leave e i ch (w\<lparr>sw_cm := cm\<rparr>))"
    unfolding in_step_def using v ab wh p(2) by (auto simp: in_step_def st_def)
  then have "good d w (voice_leave e i ch (w\<lparr>sw_cm := cm\<rparr>))" using v by (simp add: good_def fair_def)
  with wh r v show ?thesis by simp
qed

lemma good_kick:
  assumes "srv_inv d w" "wired d"
  shows "good d w (snd (performKick d e y tid fs ban reason exps w))"
proof -
  have r: "good d w w" by (rule good_refl [OF assms(1)])
  have srv: "good d w (log_out (SClosed i) (broadcastEvent d (SKicked i ch y reason b ban exps) (log_out (STold i) w)))" for i ch b
    by (intro good_log good_broadcast r) simp_all
  have chan: "good d w (snd (case leave_state d i w of (None, w1) \<Rightarrow> (False, w1)
      | (Some ch, w1) \<Rightarrow> (True, broadcastEvent d (SKicked i ch y reason fs ban exps) (if sd_voice d then voice_leave e i ch w1 else w1))))" for i
  proof -
    obtain cm ch err where l: "LeaveClient i (sw_cm w) = (cm, ch, err)" by (metis prod_cases3)
    from leave_good [OF assms l, of e] r l assms(2) show ?thesis by (auto simp: leave_state_def wired_def intro!: good_broadcast)
  qed
  show ?thesis
    unfolding performKick_def using r srv chan by (cases fs) (simp_all split: option.split)
qed

lemma recordBan_fields: "recordBan d e t reason secs w = (r, w') \<Longrightarrow> \<exists>u. w' = w\<lparr>sw_users := u\<rparr>"
  by (auto simp: recordBan_def insertBan_def Let_def split: if_splits prod.splits bool.splits intro: exI [of _ "sw_users w"])

lemma good_kick_fields:
  assumes "srv_inv d w" "wired d"
  shows "good d w (snd (performKick d e y tid fs ban reason exps (w\<lparr>sw_loader := l, sw_users := u\<rparr>)))"
    "good d w (snd (performKick d e y tid fs ban reason exps (w\<lparr>sw_loader := l\<rparr>)))"
    "good d w (snd (performKick d e y tid fs ban reason exps (w\<lparr>sw_users := u\<rparr>)))"
  using good_kick [of d "w\<lparr>sw_loader := l, sw_users := u\<rparr>" e y tid fs ban reason exps] good_kick [of d "w\<lparr>sw_loader := l\<rparr>" e y tid fs ban reason exps]
    good_kick [of d "w\<lparr>sw_users := u\<rparr>" e y tid fs ban reason exps] assms by simp_all

lemma good_kick_then:
  assumes "good d w (snd r)"
  shows "good d w (snd (case r of (False, w2) \<Rightarrow> refuse e c code w2 | (True, w2) \<Rightarrow> (True, audit d a b s w2)))"
    "good d w (snd (case r of (False, w2) \<Rightarrow> (False, w2) | (True, w2) \<Rightarrow> (True, audit d a b s w2)))"
  using assms by (cases r; cases "fst r"; simp add: good_then_refuse good_audit)+

lemma good_kickHandler:
  assumes "srv_inv d w" "wired d"
  shows "good d w (snd (handleKickClient d e c m w))"
proof -
  have r: "good d w (snd (refuse e c code w))" "good d w (snd (refuse e c code (w\<lparr>sw_loader := l\<rparr>)))"
    "good d w (snd (refuse e c code (w\<lparr>sw_loader := l, sw_users := u\<rparr>)))" for code l u
    using good_refuse [OF assms(1)] good_refuse [of d "w\<lparr>sw_loader := l\<rparr>"] good_refuse [of d "w\<lparr>sw_loader := l, sw_users := u\<rparr>"] assms(1) by simp_all
  have b: "good d w (snd (case recordBan d e t x y (w\<lparr>sw_loader := l\<rparr>) of
      (None, w1) \<Rightarrow> refuse e c errCodeUnavailable w1
    | (Some exps, w1) \<Rightarrow>
        (case performKick d e y1 i fs ban x exps w1 of (False, w2) \<Rightarrow> refuse e c errCodeNotFound w2 | (True, w2) \<Rightarrow> (True, audit d a1 a2 a3 w2))))"
    for t x y l y1 i fs ban a1 a2 a3
  proof -
    obtain q w1 where q: "recordBan d e t x y (w\<lparr>sw_loader := l\<rparr>) = (q, w1)" by fastforce
    obtain u where u: "w1 = w\<lparr>sw_loader := l, sw_users := u\<rparr>" using recordBan_fields [OF q] by auto
    show ?thesis using q u r(3) good_kick_then(1) [OF good_kick_fields(1) [OF assms]] by (cases q) simp_all
  qed
  have k: "good d w (snd (case performKick d e y1 i fs ban x exps (w\<lparr>sw_loader := l\<rparr>) of
      (False, w2) \<Rightarrow> refuse e c errCodeNotFound w2 | (True, w2) \<Rightarrow> (True, audit d a1 a2 a3 w2)))" for y1 i fs ban x exps l a1 a2 a3
    by (rule good_kick_then(1) [OF good_kick_fields(2) [OF assms]])
  show ?thesis
  proof (cases m)
    case None
    with r(1) show ?thesis by (simp add: handleKickClient_def)
  next
    case (Some msg)
    show ?thesis
    proof (cases "clientByID (kc_ClientID msg) w")
      case None
      with r(1) Some show ?thesis by (simp add: handleKickClient_def)
    next
      case t: (Some t)
      obtain q l where "checkPowerOver (perms_of d e w) c t (fst (kick_keys msg)) (snd (kick_keys msg)) (sw_loader w) = (q, l)" by fastforce
      with r Some t show ?thesis by (cases q) (auto simp: handleKickClient_def intro: b k)
    qed
  qed
qed

lemma good_adminKick:
  assumes "srv_inv d w" "wired d"
  shows "good d w (snd (admin_KickClient d e y tid fs reason w))"
proof (cases "clientByID tid w")
  case (Some t)
  with good_kick_then(2) [OF good_kick [OF assms]] good_refl [OF assms(1)] show ?thesis by (simp add: admin_KickClient_def)
qed (simp add: admin_KickClient_def good_refl [OF assms(1)])

lemma insertBan_fields: "insertBan d e u reason ex w = (b, w') \<Longrightarrow> \<exists>v. w' = w\<lparr>sw_users := v\<rparr>"
  by (auto simp: insertBan_def split: if_splits intro: exI [of _ "sw_users w"])

lemma good_ban:
  assumes "srv_inv d w" "wired d"
  shows "good d w (snd (BanClient d e y tid secs reason w))"
proof (cases "clientByID tid w")
  case (Some t)
  obtain b w1 where i: "insertBan d e (tc_UniqueID t) reason (banExpiration (sn_now e) secs) w = (b, w1)" by fastforce
  obtain v where v: "w1 = w\<lparr>sw_users := v\<rparr>" using insertBan_fields [OF i] by blast
  have "good d w w1" using good_refl [of d w1] assms(1) v by simp
  then show ?thesis
    using Some i v good_kick_then(2) [OF good_kick_fields(3) [OF assms]] good_refl [OF assms(1)] by (cases b) (simp_all add: BanClient_def Let_def)
qed (simp add: BanClient_def good_refl [OF assms(1)])

lemma good_banRemove:
  assumes "srv_inv d w"
  shows "good d w (snd (handleBanRemove d e c msg w))"
proof -
  obtain b w1 where b: "banAdminAllowed d e c w = (b, w1)" by fastforce
  have "\<exists>l. w1 = w\<lparr>sw_loader := l\<rparr>" using b by (auto simp: banAdminAllowed_def split: prod.splits sum.splits)
  then obtain l where l: "w1 = w\<lparr>sw_loader := l\<rparr>" ..
  obtain q db where q: "DeleteBan (sn_banFails e) (the msg) (sw_users w1) = (q, db)" by fastforce
  have r: "good d w (snd (refuse e c code w))" "good d w (snd (refuse e c code (w\<lparr>sw_loader := l\<rparr>)))" for code
    using good_refuse [OF assms(1)] good_refuse [of d "w\<lparr>sw_loader := l\<rparr>"] assms(1) by simp_all
  have "good d w (w\<lparr>sw_loader := l, sw_users := db\<rparr>)" using good_refl [of d "w\<lparr>sw_loader := l, sw_users := db\<rparr>"] assms by simp
  from good_audit [OF this] r b l q show ?thesis
    by (cases b; cases q) (auto simp: handleBanRemove_def split: option.split)
qed

subsection \<open>Disconnects, keys and sessions\<close>

lemma remove_state:
  assumes "parts_ok d w" "cm_RemoveClient i (sw_cm w) = (cm, r)"
  shows "parts_ok d (w\<lparr>sw_cm := cm\<rparr>) \<and> a_where (abs (cm_state cm)) = (a_where (abs (st w)))(i := None)"
proof -
  have ci: "cm_inv (sw_cm w)" "mgr_inv (st w)" using assms(1) by (simp_all add: parts_ok_def cm_inv_def cm_core_def st_def)
  have cm: "cm = fst (cm_RemoveClient i (sw_cm w))" using assms(2) by simp
  have "cm_inv cm" unfolding cm by (rule cm_RemoveClient_inv [OF ci(1)])
  then have p: "parts_ok d (w\<lparr>sw_cm := cm\<rparr>)" using assms(1) by (simp add: parts_ok_def conns_ok_def log_ok_def)
  show ?thesis
  proof (cases "fmlookup (clients (st w)) i")
    case None
    then have "cm = sw_cm w" "a_where (abs (st w)) i = None" using assms(2) by (simp_all add: cm_RemoveClient_def GetClient_def st_def abs_fields)
    then show ?thesis using p by (auto simp: st_def fun_eq_iff)
  next
    case (Some c)
    then have "cm_state cm = fst (RemoveClient i (st w))"
      by (simp add: cm cm_RemoveClient_def GetClient_def st_def RemoveClient_def Let_def)
    with p abs_RemoveClient [OF ci(2), of i] show ?thesis by simp
  qed
qed

lemma good_end:
  assumes "srv_inv d w" "wired d" "scope_env_ok e"
  shows "good d w (connection_ends d e i w)"
proof (cases "clientByID i w")
  case None
  with good_refl [OF assms(1)] show ?thesis by (simp add: connection_ends_def)
next
  case (Some c)
  let ?w = "w\<lparr>sw_conns := fmdrop i (sw_conns w)\<rparr>"
  have p: "parts_ok d ?w" "in_step ?w" "tc_ID c = i"
    using assms(1) Some by (auto simp: srv_inv_def parts_ok_def conns_ok_def log_ok_def in_step_def st_def clientByID_def)
  show ?thesis
  proof (cases "tc_authed c")
    case False
    with p Some show ?thesis by (simp add: connection_ends_def onDisconnect_def good_def fair_def)
  next
    case True
    obtain cm r where r: "cm_RemoveClient i (sw_cm ?w) = (cm, r)" by fastforce
    define w1 where "w1 = ?w\<lparr>sw_cm := cm\<rparr>"
    have w1: "parts_ok d w1" "a_where (abs (st w1)) = (a_where (abs (st w)))(i := None)" "sw_out w1 = sw_out w" "sw_router w1 = sw_router w"
      using remove_state [OF p(1) r] by (simp_all add: w1_def st_def)
    define ch where "ch = (case r of Inl _ \<Rightarrow> 0 | Inr x \<Rightarrow> c_ChannelID x)"
    define inv where "inv = (case r of Inl _ \<Rightarrow> False | Inr x \<Rightarrow> c_Status x = ''invisible'')"
    define w2 where "w2 = (if sd_broadcast d then log_out (SLeft i inv) (log_out (SUnregistered i) w1) else w1)"
    define w3 where "w3 = (if ch \<noteq> 0 then rotateScopeKey d e ch w2 else w2)"
    have "fair d w1 (log_out (SUnregistered i) w1)" by (rule log_fair [OF w1(1)]) simp
    moreover from this have "fair d (log_out (SUnregistered i) w1) (log_out (SLeft i inv) (log_out (SUnregistered i) w1))"
      by (intro log_fair) (simp_all add: fair_def)
    ultimately have w2: "fair d w1 w2" "st w2 = st w1" "sw_router w2 = sw_router w1"
      using w1(1) fair_trans by (auto simp: w2_def fair_def intro: serves_trans)
    have p2: "parts_ok d w2" using w2(1) by (simp add: fair_def)
    have w3: "fair d w2 w3" "a_where (abs (st w3)) = a_where (abs (st w2))" "sw_router w3 = sw_router w2"
      using rotate_step [OF p2 assms(2,3), of ch] p2 by (auto simp: w3_def fair_def)
    have p3: "parts_ok d w3" using w3(1) by (simp add: fair_def)
    obtain v rt where cl: "ClosePeer (sn_now e) i (sw_voice w3, sw_router w3) = (v, rt)" by fastforce
    define w4 where "w4 = w3\<lparr>sw_voice := v, sw_router := rt\<rparr>"
    have w4: "parts_ok d w4" "sw_out w4 = sw_out w3" "st w4 = st w3" "sw_keys w4 = sw_keys w3" using close_step [OF p3 cl] by (simp_all add: w4_def st_def)
    have "in_step w4"
      unfolding in_step_def
    proof
      fix x
      show "ChannelOf x (sw_router w4) = a_where (abs (st w4)) x"
        using close_step [OF p3 cl, of x] w3(2,3) w2(2,3) w1(2,4) w4(3) p(2) by (auto simp: in_step_def w4_def st_def)
    qed
    moreover have "fair d w w4"
    proof -
      have "serves w2 w4" using w3(1) w4(2-4) by (auto simp: fair_def serves_def)
      moreover have "sw_out w2 = sw_out w \<or> sw_out w2 = sw_out w @ [SUnregistered i, SLeft i inv]" using w1(3) by (simp add: w2_def log_out_def)
      moreover have "sw_keys w2 = sw_keys w" by (simp add: w2_def w1_def)
      ultimately have "serves w w4" unfolding serves_def by (auto simp: sent_def)
      with w4(1) show ?thesis by (simp add: fair_def)
    qed
    moreover have "connection_ends d e i w = w4"
    proof -
      have "connection_ends d e i w = (case ClosePeer (sn_now e) i (sw_voice w3, sw_router w3) of (v, r) \<Rightarrow> w3\<lparr>sw_voice := v, sw_router := r\<rparr>)"
        using Some True p(3) r assms(2)
        by (cases r) (simp_all add: connection_ends_def onDisconnect_def wired_def Let_def w3_def w2_def w1_def ch_def inv_def del: log_st)
      then show ?thesis by (simp add: cl w4_def)
    qed
    ultimately show ?thesis by (simp add: good_def)
  qed
qed

lemma good_rotation:
  assumes "srv_inv d w" "wired d" "scope_env_ok e"
  shows "good d w (rotationFires d e ch w)"
proof -
  let ?w = "w\<lparr>sw_rot := sw_rot w |-| {|ch|}\<rparr>"
  have i: "srv_inv d ?w" using assms(1) by simp
  then have p: "parts_ok d ?w" "in_step ?w" by (simp_all add: srv_inv_def)
  have "settles d (readers ch (st (rotationFires d e ch w))) ?w (rotationFires d e ch w)"
    unfolding rotationFires_def using p(1) assms(2,3) by (intro doRotate_settles) (simp_all add: parts_ok_def wired_def)
  from settles_fair [OF this p(1) readers_may] settles_in_step [OF this] p(2) have "good d ?w (rotationFires d e ch w)" by (simp add: good_def)
  then show ?thesis by simp
qed

lemma state_step:
  assumes "parts_ok d w" "mgr_inv m" "channels m = channels (st w)" "a_where (abs m) = a_where (abs (st w))"
  shows "parts_ok d (put_state m w)"
proof -
  let ?cm = "sw_cm w"
  have ci: "cm_inv ?cm" using assms(1) by (simp add: parts_ok_def)
  then have core: "cm_core ?cm" by (simp add: cm_inv_def)
  have sy: "synced (cm_db ?cm) m" using cm_coreD(3) [OF core] assms(3) by (simp add: synced_def st_def)
  have "i \<notin> {} \<Longrightarrow> i \<in> occupied m \<longleftrightarrow> i \<in> occupied (cm_state ?cm)" for i using assms(4) by (simp add: occupied_def st_def)
  from cm_inv_state_step [OF ci assms(2) sy, of "{}"] this have "cm_inv (?cm\<lparr>cm_state := m\<rparr>)" by (simp add: cm_inv_def)
  then show ?thesis using assms(1) by (simp add: parts_ok_def put_state_def conns_ok_def log_ok_def)
qed

lemma put_st [simp]: "st (put_state m w) = m" "sw_router (put_state m w) = sw_router w" "sw_out (put_state m w) = sw_out w"
  "sw_keys (put_state m w) = sw_keys w"
  by (simp_all add: put_state_def st_def)

lemma state_good:
  assumes "srv_inv d w" "mgr_inv m" "channels m = channels (st w)" "a_where (abs m) = a_where (abs (st w))"
  shows "good d w (put_state m w)"
  using state_step [OF _ assms(2-4)] assms(1,4) by (simp add: good_def fair_def srv_inv_def in_step_def)

lemma inv_mgr: "srv_inv d w \<Longrightarrow> mgr_inv (st w)"
  by (simp add: srv_inv_def parts_ok_def cm_inv_def cm_core_def st_def)

lemma good_deliver:
  assumes "srv_inv d w" "wired d" "scope_env_ok e" "(tc_ID c, ch) \<in> may_read (st w)"
  shows "good d w (snd (deliverScopeKey d e c ch w)) \<and> st (snd (deliverScopeKey d e c ch w)) = st w"
  using deliver_fair [OF _ assms(2-4)] assms(1) by (simp add: good_def srv_inv_def in_step_def)

lemma good_publish:
  assumes "srv_inv d w" "wired d" "scope_env_ok e"
  shows "good d w (snd (handleKeyPublish d e c msg w))"
proof -
  have r: "good d w (snd (refuse e c code w))" for code by (rule good_refuse [OF assms(1)])
  have ok: "good d w (snd (case deliverScopeKey d e c 0 w1 of (False, w2) \<Rightarrow> (False, w2)
      | (True, w2) \<Rightarrow> (case GetClient (tc_ID c) (st w2) of None \<Rightarrow> (True, w2)
          | Some sc \<Rightarrow> if c_ChannelID sc = 0 then (True, w2) else deliverScopeKey d e c (c_ChannelID sc) w2)))"
    if w1: "w1 = put_state (SetE2EPublicKey (tc_ID c) key (st w)) w" for key w1
  proof -
    have "channels (SetE2EPublicKey (tc_ID c) key (st w)) = channels (st w)" by (simp add: SetE2EPublicKey_def split: option.split)
    then have g1: "good d w w1" using state_good [OF assms(1) presence_inv(3) [OF inv_mgr [OF assms(1)]]] by (simp add: w1 abs_presence_ops)
    obtain b w2 where d2: "deliverScopeKey d e c 0 w1 = (b, w2)" by fastforce
    have g2: "good d w w2" "st w2 = st w1"
      using good_deliver [OF good_inv [OF g1] assms(2,3), of c 0] good_trans [OF g1, of w2] d2 by (auto simp: may_read_def)
    have g3: "good d w (snd (deliverScopeKey d e c (c_ChannelID sc) w2))" if "GetClient (tc_ID c) (st w2) = Some sc" "c_ChannelID sc \<noteq> 0" for sc
    proof -
      have "(tc_ID c, c_ChannelID sc) \<in> may_read (st w2)" using that by (auto simp: may_read_def a_where_iff GetClient_def)
      from good_deliver [OF good_inv [OF g2(1)] assms(2,3) this] good_trans [OF g2(1)] show ?thesis by simp
    qed
    show ?thesis using d2 g2 g3 by (cases b) (auto split: option.split)
  qed
  show ?thesis
    unfolding handleKeyPublish_def using r ok [OF refl] by (auto simp: Let_def split: option.split)
qed

lemma bundle_props:
  assumes "ck_inv (sd_nacl d) ck" "bundle_loop d e i pub scope gs ck = (ks, rs, ck')"
  shows "op_ok (sd_nacl d) ck ck' \<and> cur_kept ck ck' \<and> ck_db ck' = ck_db ck \<and> (\<forall>(s, g, x) \<in> set ks. s = scope \<and> g < next_id scope (ck_db ck))"
  using assms
proof (induction gs arbitrary: ck ks rs ck')
  case Nil
  then show ?case by (simp add: op_ok_refl)
next
  case (Cons g gs)
  let ?sb = "sd_nacl d" and ?env = "sn_key e (CallSeal i scope g)"
  obtain r ck1 where s: "sealFor ?sb ?env scope g pub ck = (r, ck1)" by fastforce
  have s1: "op_ok ?sb ck ck1" "ck_db ck1 = ck_db ck" "cur_kept ck ck1"
    using sealFor_ok [OF Cons.prems(1), of ?env scope g pub] s sealFor_cur_kept [OF s] by (metis snd_conv)+
  have i1: "ck_inv ?sb ck1" using s1(1) by (simp add: op_ok_def)
  obtain ks1 rs1 ck2 where l: "bundle_loop d e i pub scope gs ck1 = (ks1, rs1, ck2)" by (metis prod_cases3)
  have b: "op_ok ?sb ck1 ck2 \<and> cur_kept ck1 ck2 \<and> ck_db ck2 = ck_db ck1 \<and> (\<forall>(s, g, x) \<in> set ks1. s = scope \<and> g < next_id scope (ck_db ck1))"
    by (rule Cons.IH [OF i1 l])
  have c: "ck' = ck2" "ks = ks1 \<or> (\<exists>k. r = Inr k \<and> ks = k # ks1)" using Cons.prems(2) s l by (auto split: sum.splits)
  have k: "fst k = scope \<and> fst (snd k) < next_id scope (ck_db ck)" if "r = Inr k" for k
  proof -
    obtain a b x where k: "k = (a, b, x)" by (cases k) auto
    have ab: "a = scope" "b = g" "\<exists>q. fst (key_at ?sb ?env scope g ck) = Inr q" using sealFor_cases(2) [OF s] that k by simp_all
    then obtain q ck3 where q: "key_at ?sb ?env scope g ck = (Inr q, ck3)" by (metis prod.collapse)
    have "gen_key ?sb (ck_ring ck) (ck_db ck) scope g = Some q" using key_at_ok [OF Cons.prems(1) q] by blast
    then show ?thesis using gen_key_bound Cons.prems(1) ab k by (auto simp: ck_inv_def)
  qed
  show ?case using b c s1 k op_ok_trans [OF s1(1)] cur_kept_trans [OF s1(3)] by auto
qed

lemma readable_props:
  assumes "scopeReadable d e c scope w = (b, w')"
  shows "(\<exists>l. w' = w\<lparr>sw_loader := l\<rparr>) \<and> (b \<longrightarrow> (tc_ID c, scope) \<in> may_read (st w))"
proof (cases "scope = 0 \<or> \<not> sd_state d \<or> ClientChannelState (tc_ID c) (st w) = None")
  case True
  with assms show ?thesis by (auto simp: scopeReadable_def may_read_def split: if_splits intro: exI [of _ "sw_loader w"])
next
  case False
  then obtain ch k where c: "ClientChannelState (tc_ID c) (st w) = Some (ch, k)" "scope \<noteq> 0" "sd_state d" by auto
  show ?thesis
  proof (cases "ch = scope")
    case True
    then have "a_where (abs (st w)) (tc_ID c) = Some scope" using c by (auto simp: ClientChannelState_def a_where_iff split: option.splits)
    with assms c True show ?thesis by (auto simp: scopeReadable_def may_read_def intro: exI [of _ "sw_loader w"])
  next
    case ne: False
    show ?thesis
    proof (cases "IsSubscribed (tc_ID c) scope (st w)")
      case True
      then have "(tc_ID c, scope) \<in> a_subs (abs (st w))" by (simp add: IsSubscribed_def abs_fields)
      with assms c ne True show ?thesis by (auto simp: scopeReadable_def may_read_def split: prod.splits)
    qed (use assms c ne in \<open>auto simp: scopeReadable_def intro: exI [of _ "sw_loader w"]\<close>)
  qed
qed

lemma good_request:
  assumes "srv_inv d w"
  shows "good d w (snd (handleChatKeyRequest d e c msg w))"
proof -
  obtain b1 w1 where q: "rate_ok d e (tc_UniqueID c) w = (b1, w1)" by fastforce
  have "\<exists>v. w1 = w\<lparr>sw_rate := v\<rparr>" using q by (auto simp: rate_ok_def split: if_splits prod.splits intro: exI [of _ "sw_rate w"])
  then obtain v where v: "w1 = w\<lparr>sw_rate := v\<rparr>" ..
  have i1: "srv_inv d w1" using assms v by simp
  have r: "good d w (snd (refuse e c code w))" "good d w (snd (refuse e c code w1))" for code
    using good_refuse [OF assms] good_refuse [OF i1] v by simp_all
  have body: "good d w (snd (case scopeReadable d e c scope w1 of (False, w2) \<Rightarrow> write_out e (SBundle (tc_ID c) scope [] ids) w2
      | (True, w2) \<Rightarrow> (case bundle_loop d e (tc_ID c) pub scope ids (sw_keys w2) of
          (ks, rs, ck) \<Rightarrow> write_out e (SBundle (tc_ID c) scope ks rs) (w2\<lparr>sw_keys := ck\<rparr>))))" for scope ids pub
  proof -
    obtain b2 w2 where s: "scopeReadable d e c scope w1 = (b2, w2)" by fastforce
    obtain l where l: "w2 = w1\<lparr>sw_loader := l\<rparr>" using readable_props [OF s] by blast
    have i2: "srv_inv d w2" using i1 l by simp
    show ?thesis
    proof (cases b2)
      case False
      have "good d w2 (log_out (SBundle (tc_ID c) scope [] ids) w2)" using good_log [OF good_refl [OF i2]] by (simp add: sent_def)
      then have "good d w (log_out (SBundle (tc_ID c) scope [] ids) w2)" unfolding l v by simp
      then show ?thesis using False s by (simp add: write_out_def)
    next
      case True
      obtain ks rs ck where k: "bundle_loop d e (tc_ID c) pub scope ids (sw_keys w2) = (ks, rs, ck)" by (metis prod_cases3)
      have p2: "parts_ok d w2" using i2 by (simp add: srv_inv_def)
      note bp = bundle_props [OF parts_ck [OF p2] k]
      let ?w = "log_out (SBundle (tc_ID c) scope ks rs) (w2\<lparr>sw_keys := ck\<rparr>)"
      have "quiet d {(tc_ID c, scope)} w2 ?w"
        using bp by (auto simp: quiet_def log_out_def st_def sent_def)
      moreover have "{(tc_ID c, scope)} \<subseteq> may_read (st ?w)" using readable_props [OF s] True l by (auto simp: st_def)
      ultimately have "fair d w2 ?w" using quiet_fair p2 by blast
      moreover have "in_step ?w" using i2 by (simp add: srv_inv_def in_step_def log_out_def st_def)
      ultimately have "good d w2 ?w" by (simp add: good_def)
      then have "good d (w1\<lparr>sw_loader := l\<rparr>) ?w" by (simp add: l)
      then have "good d (w\<lparr>sw_rate := v\<rparr>) ?w" using v by simp
      then have "good d w ?w" by simp
      then show ?thesis using True s k by (simp add: write_out_def)
    qed
  qed
  show ?thesis
    unfolding handleChatKeyRequest_def using r body q
    by (cases b1) (auto split: option.split)
qed

end
