(* ===== verification/Server_Runs.thy ===== *)
theory Server_Runs
  imports Server_Scopes "HOL-Library.Char_ord" "HOL-Library.List_Lexorder"
begin

text \<open>
  Runs of the server of \<open>Server_Scopes\<close>: any interleaving of connections, messages, administrative commands, timers and ended connections.
  Each handler is one step: the state manager, the channel manager, the router and the key manager each hold their mutex for the
  calls a handler makes, and the steps here are whole handlers.  The properties of a run are that the voice router is where the state is,
  that keys go only to those who may read, and what a leaver, a kicked and a banned client is left with.
\<close>

subsection \<open>Runs\<close>

datatype scope_op =
    WLogin tcp_client client
  | WCreate create_env channel_spec
  | WCleanup db_faults channel_id nat
  | WSubscribe client_id "channel_id list"
  | WUnsubscribe client_id "channel_id list"
  | WJoin scope_env client_id "(channel_id \<times> string) option"
  | WMove scope_env client_id "(client_id \<times> channel_id) option"
  | WAdminMove scope_env client_id channel_id
  | WKick scope_env client_id "KickClient option"
  | WAdminKick scope_env string client_id bool string
  | WBan scope_env string client_id int string
  | WBanRemove scope_env client_id "int option"
  | WPublish scope_env client_id "string option"
  | WRequest scope_env client_id "(scope_id \<times> nat list) option"
  | WRotation scope_env channel_id
  | WEnd scope_env client_id

definition by_client :: "client_id \<Rightarrow> (tcp_client \<Rightarrow> scope_world \<Rightarrow> bool \<times> scope_world) \<Rightarrow> scope_world \<Rightarrow> scope_world" where
  "by_client i h w = (case clientByID i w of None \<Rightarrow> w | Some c \<Rightarrow> snd (h c w))"

fun scope_step :: "scope_deps \<Rightarrow> scope_op \<Rightarrow> scope_world \<Rightarrow> scope_world" where
  "scope_step d (WLogin c sc) w = put_state (AddClient (Some sc) (st w)) (w\<lparr>sw_conns := fmupd (tc_ID c) c (sw_conns w)\<rparr>)"
| "scope_step d (WCreate ce s) w = w\<lparr>sw_cm := fst (CreateChannel ce s (sw_cm w))\<rparr>"
| "scope_step d (WCleanup f ch g) w = w\<lparr>sw_cm := cleanupCallback f ch g (sw_cm w)\<rparr>"
| "scope_step d (WSubscribe i chs) w = put_state (Subscribe i chs (st w)) w"
| "scope_step d (WUnsubscribe i chs) w = put_state (Unsubscribe i chs (st w)) w"
| "scope_step d (WJoin e i msg) w = by_client i (\<lambda>c. handleJoinChannel d e c msg) w"
| "scope_step d (WMove e i msg) w = by_client i (\<lambda>c. handleMoveClient d e c msg) w"
| "scope_step d (WAdminMove e i ch) w = snd (admin_MoveClient d e i ch w)"
| "scope_step d (WKick e i msg) w = by_client i (\<lambda>c. handleKickClient d e c msg) w"
| "scope_step d (WAdminKick e y i fs reason) w = snd (admin_KickClient d e y i fs reason w)"
| "scope_step d (WBan e y i secs reason) w = snd (BanClient d e y i secs reason w)"
| "scope_step d (WBanRemove e i msg) w = by_client i (\<lambda>c. handleBanRemove d e c msg) w"
| "scope_step d (WPublish e i msg) w = by_client i (\<lambda>c. handleKeyPublish d e c msg) w"
| "scope_step d (WRequest e i msg) w = by_client i (\<lambda>c. handleChatKeyRequest d e c msg) w"
| "scope_step d (WRotation e ch) w = rotationFires d e ch w"
| "scope_step d (WEnd e i) w = connection_ends d e i w"

text \<open>
  What the rest of the server and the database promise a step: a connection logs in under a fresh id, outside every channel; the table hands out fresh positive
  channel ids; a delete that failed reports so; the iterations visit every id once and random bytes have the requested length.
\<close>

fun scope_op_ok :: "scope_op \<Rightarrow> scope_world \<Rightarrow> bool" where
  "scope_op_ok (WLogin c sc) w \<longleftrightarrow> tc_ID c = c_ClientID sc \<and> fmlookup (clients (st w)) (c_ClientID sc) = None \<and> c_ChannelID sc = 0 \<and> \<not> c_IsSpeaking sc"
| "scope_op_ok (WCreate ce s) w \<longleftrightarrow> (case ce_insert ce of None \<Rightarrow> True | Some (i, _) \<Rightarrow> 0 < i \<and> fmlookup (cm_db (sw_cm w)) i = None)"
| "scope_op_ok (WCleanup f ch g) w \<longleftrightarrow> delete_faults_ok f"
| "scope_op_ok (WJoin e i msg) w \<longleftrightarrow> scope_env_ok e"
| "scope_op_ok (WMove e i msg) w \<longleftrightarrow> scope_env_ok e"
| "scope_op_ok (WAdminMove e i ch) w \<longleftrightarrow> scope_env_ok e"
| "scope_op_ok (WPublish e i msg) w \<longleftrightarrow> scope_env_ok e"
| "scope_op_ok (WRotation e ch) w \<longleftrightarrow> scope_env_ok e"
| "scope_op_ok (WEnd e i) w \<longleftrightarrow> scope_env_ok e"
| "scope_op_ok _ w \<longleftrightarrow> True"

definition scope_start :: "KEKRing \<Rightarrow> auth_db \<Rightarrow> scope_world" where
  "scope_start ring users =
     \<lparr>sw_cm = cm_New fmempty state_New, sw_conns = fmempty, sw_loader = NewLoader, sw_keys = ks_ck (key_start ring), sw_voice = NewVoice,
      sw_router = NewRouter, sw_rot = {||}, sw_users = users, sw_rate = newChatRateLimiter 0 0, sw_out = []\<rparr>"

lemma scope_start_inv:
  assumes "wired d" "ring_ok ring"
  shows "srv_inv d (scope_start ring users)"
proof -
  have "ck_inv (sd_nacl d) (ks_ck (key_start ring))" using key_start_inv [of "sd_nacl d" ring] assms by (simp add: key_inv_def wired_def)
  moreover have "\<not> a_where (abs state_New) i = Some ch" for i ch by (simp add: a_where_iff state_New_def)
  then have "a_where (abs state_New) i = None" for i by (cases "a_where (abs state_New) i") simp_all
  ultimately show ?thesis
    using chan.start_inv NewRouter_inv NewVoice_inv
    by (simp add: srv_inv_def parts_ok_def in_step_def scope_start_def conns_ok_def Server_Scopes.log_ok_def st_def cm_New_def ChannelOf_def NewRouter_def)
qed

text \<open>A step that changes the table of channels and nobody's place.\<close>

lemma table_good:
  assumes "srv_inv d w" "cm_inv cm" "a_where (abs (cm_state cm)) = a_where (abs (st w))"
  shows "good d w (w\<lparr>sw_cm := cm\<rparr>)"
  using assms by (simp add: good_def fair_def srv_inv_def parts_ok_def conns_ok_def Server_Scopes.log_ok_def in_step_def st_def)

lemma good_create:
  assumes "srv_inv d w" "scope_op_ok (WCreate ce s) w"
  shows "good d w (w\<lparr>sw_cm := fst (CreateChannel ce s (sw_cm w))\<rparr>)"
proof (rule table_good [OF assms(1)])
  have "cm_inv (sw_cm w)" using assms(1) by (simp add: srv_inv_def parts_ok_def)
  then show "cm_inv (fst (CreateChannel ce s (sw_cm w)))" by (rule CreateChannel_inv) (use assms(2) in simp)
  show "a_where (abs (cm_state (fst (CreateChannel ce s (sw_cm w))))) = a_where (abs (st w))"
    by (auto simp: CreateChannel_def create_inserted_def Let_def abs_adding_ops(2) st_def split: option.split sum.split)
qed

lemma good_cleanup:
  assumes "srv_inv d w" "delete_faults_ok f"
  shows "good d w (w\<lparr>sw_cm := cleanupCallback f ch g (sw_cm w)\<rparr>)"
proof (rule table_good [OF assms(1)])
  have ci: "cm_inv (sw_cm w)" using assms(1) by (simp add: srv_inv_def parts_ok_def)
  then have core: "cm_core (sw_cm w)" by (simp add: cm_inv_def)
  show "cm_inv (cleanupCallback f ch g (sw_cm w))" by (rule cleanupCallback_inv [OF ci assms(2)])
  show "a_where (abs (cm_state (cleanupCallback f ch g (sw_cm w)))) = a_where (abs (st w))"
    by (cases rule: cleanupCallback_cases [OF ci assms(2), of ch g]) (simp_all add: st_def cleaned_alone(3) [OF core])
qed

lemma good_login:
  assumes "srv_inv d w" "scope_op_ok (WLogin c sc) w"
  shows "good d w (put_state (AddClient (Some sc) (st w)) (w\<lparr>sw_conns := fmupd (tc_ID c) c (sw_conns w)\<rparr>))"
proof -
  let ?w = "w\<lparr>sw_conns := fmupd (tc_ID c) c (sw_conns w)\<rparr>"
  have i: "srv_inv d ?w" "st ?w = st w"
    using assms by (auto simp: srv_inv_def parts_ok_def conns_ok_def Server_Scopes.log_ok_def in_step_def st_def)
  have n: "a_where (abs (AddClient (Some sc) (st w))) = a_where (abs (st w))" using abs_adding_ops(1) [of "st w" sc] assms(2) by simp
  have m: "mgr_inv (AddClient (Some sc) (st w))" using AddClient_inv [OF inv_mgr [OF assms(1)]] assms(2) by simp
  have "good d ?w (put_state (AddClient (Some sc) (st w)) ?w)" using i n m by (intro state_good) (simp_all add: AddClient_def)
  then show ?thesis by (simp add: good_def fair_def serves_def)
qed

lemma subscribe_channels: "channels (fold (subscribe_one i) chs m) = channels m"
  by (induction chs arbitrary: m) (simp_all add: subscribe_one_def split: option.split)

lemma good_subscribe:
  assumes "srv_inv d w"
  shows "good d w (put_state (Subscribe i chs (st w)) w)" "good d w (put_state (Unsubscribe i chs (st w)) w)"
proof -
  have f: "channels (Subscribe i chs (st w)) = channels (st w)" "channels (Unsubscribe i chs (st w)) = channels (st w)"
    by (simp_all add: Subscribe_def Unsubscribe_def subscribe_channels Let_def split: option.split)
  show "good d w (put_state (Subscribe i chs (st w)) w)" "good d w (put_state (Unsubscribe i chs (st w)) w)"
    using inv_mgr [OF assms] by (auto intro!: state_good [OF assms] Subscribe_inv Unsubscribe_inv simp: f abs_Subscribe abs_Unsubscribe)
qed

lemma by_client_good: "srv_inv d w \<Longrightarrow> (\<And>c. good d w (snd (h c w))) \<Longrightarrow> good d w (by_client i h w)"
  by (simp add: by_client_def good_refl split: option.split)

lemma scope_step_good:
  assumes "wired d" "srv_inv d w" "scope_op_ok p w"
  shows "good d w (scope_step d p w)"
  using assms(3)
proof (cases p)
  case (WLogin c sc)
  with assms good_login show ?thesis by simp
next
  case (WCreate ce s)
  with assms good_create show ?thesis by simp
qed (use assms in \<open>simp_all add: good_cleanup good_subscribe by_client_good good_join good_moveHandler good_adminMove good_kickHandler good_adminKick
   good_ban good_banRemove good_publish good_request good_rotation good_end\<close>)

text \<open>The invariant of a run is an instance of the generic one, for every configuration with its components wired and every ring.\<close>

lemma scope_system: "wired d \<Longrightarrow> ring_ok ring \<Longrightarrow> invariant_system (scope_step d) scope_op_ok (srv_inv d) (scope_start ring users)"
  by unfold_locales (auto intro: scope_start_inv good_inv [OF scope_step_good])

lemmas scope_run_inv = invariant_system.run_start_inv [OF scope_system]

lemma ops_ok_append: "ops_ok step ok (ps @ qs) s \<longleftrightarrow> ops_ok step ok ps s \<and> ops_ok step ok qs (run_ops step ps s)"
  by (induction ps arbitrary: s) auto

subsection \<open>What a move does\<close>

lemma afterMove_split:
  assumes "parts_ok d w" "wired d" "scope_env_ok e"
  obtains w1 w2 w3 where "parts_ok d w1" "sw_out w1 = sw_out w" "sw_cm w1 = sw_cm w" "sw_keys w1 = sw_keys w"
    "w2 = (if prev \<noteq> 0 \<and> prev \<noteq> ch then rotateScopeKey d e prev w1 else w1)"
    "quiet d {(i, ch)} w2 w3" "sw_cm w3 = sw_cm w2" "afterMove d e i ch by prev w = broadcastEvent d (SMoved i prev ch by) w3"
proof -
  let ?left = "prev \<noteq> 0 \<and> prev \<noteq> ch"
  define w0 where "w0 = (if ?left then voice_leave e i prev w else w)"
  define w1 where "w1 = voice_join e i ch w0"
  define w2 where "w2 = (if ?left then rotateScopeKey d e prev w1 else w1)"
  define w3 where "w3 = (case clientByID i w2 of None \<Rightarrow> w2 | Some c \<Rightarrow> snd (sendSubscriptionState d e c (snd (deliverScopeKey d e c ch w2))))"
  have w0: "parts_ok d w0" "sw_out w0 = sw_out w" "sw_cm w0 = sw_cm w" "sw_keys w0 = sw_keys w"
    using voice_leave_step [OF assms(1), of e i prev] assms(1) by (simp_all add: w0_def)
  have w1: "parts_ok d w1" "sw_out w1 = sw_out w" "sw_cm w1 = sw_cm w" "sw_keys w1 = sw_keys w"
    using voice_join_step [OF w0(1), of e i ch] w0 by (simp_all add: w1_def)
  have p2: "parts_ok d w2" using rotate_step [OF w1(1) assms(2,3), of prev] w1(1) by (auto simp: w2_def fair_def)
  have "quiet d {(i, ch)} w2 w3 \<and> sw_cm w3 = sw_cm w2"
  proof (cases "clientByID i w2")
    case (Some c)
    have "tc_ID c = i" using p2 Some by (simp add: parts_ok_def conns_ok_def clientByID_def)
    then have dl: "quiet d {(i, ch)} w2 (snd (deliverScopeKey d e c ch w2))" "sw_cm (snd (deliverScopeKey d e c ch w2)) = sw_cm w2"
      using deliver_quiet [OF parts_ck [OF p2] _ assms(3), of c ch] assms(2) by (simp_all add: wired_def)
    have "quiet d {(i, ch)} (snd (deliverScopeKey d e c ch w2)) (log_out (SSubs j x) (snd (deliverScopeKey d e c ch w2)))" for j x
      by (rule log_quiet [OF quiet_ck [OF dl(1)]]) simp
    from quiet_trans [OF dl(1) this] dl(2) Some show ?thesis by (simp add: w3_def sendSubscriptionState_def write_out_def)
  qed (simp add: w3_def parts_ck [OF p2])
  moreover have "sd_voice d" using assms(2) by (simp add: wired_def)
  then have "afterMove d e i ch by prev w = broadcastEvent d (SMoved i prev ch by) w3"
    by (simp only: afterMove_def Let_def if_True w3_def w2_def w1_def w0_def)
  ultimately show ?thesis using that [OF w1 w2_def] by blast
qed

lemma afterMove_where:
  assumes "parts_ok d w" "wired d" "scope_env_ok e"
  shows "a_where (abs (st (afterMove d e i ch by prev w))) = a_where (abs (st w))"
proof (rule afterMove_split [OF assms])
  fix w1 w2 w3
  assume a: "parts_ok d w1" "sw_cm w1 = sw_cm w" "w2 = (if prev \<noteq> 0 \<and> prev \<noteq> ch then rotateScopeKey d e prev w1 else w1)"
    "sw_cm w3 = sw_cm w2" "afterMove d e i ch by prev w = broadcastEvent d (SMoved i prev ch by) w3"
  then have "a_where (abs (st w2)) = a_where (abs (st w1))" using rotate_step [OF a(1) assms(2,3), of prev] by simp
  with a show ?thesis by (simp add: broadcastEvent_def st_def)
qed

lemma moveClient_where:
  assumes "srv_inv d w" "wired d" "scope_env_ok e"
  shows "a_where (abs (st (snd (moveClient d e i ch by w)))) =
    (if fst (moveClient d e i ch by w) then (a_where (abs (st w)))(i \<mapsto> ch) else a_where (abs (st w)))"
proof (cases rule: moveClient_cases [OF assms(1,2), of e i ch "by", case_names stays moved])
  case (moved c cm)
  with afterMove_where [OF moved(3) assms(2,3), of i ch "by" "c_ChannelID c"] show ?thesis by (simp add: st_def)
qed simp

subsection \<open>Locked out of a scope\<close>

text \<open>
  A client is cut off from a channel's chat at a generation \<open>g\<close>: the channel's current generation is \<open>g\<close> or later,
  and the client was sent only earlier ones.
\<close>

definition cut_off :: "scope_deps \<Rightarrow> client_id \<Rightarrow> channel_id \<Rightarrow> nat \<Rightarrow> scope_world \<Rightarrow> bool" where
  "cut_off d i p g w \<longleftrightarrow>
     srv_inv d w \<and> 0 < g \<and> en_loaded (entry p (sw_keys w)) \<and> g \<le> en_curID (entry p (sw_keys w)) \<and> (\<forall>g'. sent (sw_out w) i p g' \<longrightarrow> g' < g)"

lemma cut_off_step:
  assumes "cut_off d i p g w" "good d w w'" "(i, p) \<notin> may_read (st w')"
  shows "cut_off d i p g w'"
proof -
  have s: "serves w w'" "srv_inv d w'" using assms(2) good_inv by (auto simp: good_def fair_def)
  then obtain xs where xs: "sw_out w' = sw_out w @ xs" "\<And>j sc h. sent xs j sc h \<Longrightarrow> (j, sc) \<in> may_read (st w')" unfolding serves_def by blast
  have "cur_grows (sw_keys w) (sw_keys w')" using s(1) by (simp add: serves_def)
  with assms(1) have "en_loaded (entry p (sw_keys w')) \<and> g \<le> en_curID (entry p (sw_keys w'))" by (fastforce simp: cut_off_def cur_grows_def)
  with assms(1,3) s(2) xs show ?thesis by (auto simp: cut_off_def)
qed

lemma cut_off_seal:
  assumes "cut_off d i p g w" "fst (seal_body sb env p plain (sw_keys w)) = Inr (h, blob)" "sent (sw_out w) i p g'"
  shows "g' < h"
proof -
  have "en_loaded (entry p (sw_keys w))" "en_curID (entry p (sw_keys w)) \<noteq> 0" using assms(1) by (auto simp: cut_off_def)
  from current_loaded [OF this, of sb env] assms(2) have "h = en_curID (entry p (sw_keys w))"
    by (auto simp: seal_body_def split: prod.splits sum.splits option.splits)
  with assms(1,3) show ?thesis by (auto simp: cut_off_def)
qed

lemma cut_off_seals:
  assumes "cut_off d i p g w" "ke_nonce env \<noteq> None"
  shows "\<exists>h blob. fst (seal_body sb env p plain (sw_keys w)) = Inr (h, blob)"
proof -
  have "en_loaded (entry p (sw_keys w))" "en_curID (entry p (sw_keys w)) \<noteq> 0" using assms(1) by (auto simp: cut_off_def)
  from current_loaded [OF this, of sb env] assms(2) show ?thesis
    by (auto simp: seal_body_def split: prod.splits sum.splits option.splits)
qed

text \<open>A successful rotation cuts off everyone who may not read the channel.\<close>

lemma doRotate_cuts:
  assumes "parts_ok d w" "wired d" "scope_env_ok e" "(i, p) \<notin> may_read (st w)"
    "rotate_key (sd_nacl d) (sn_key e (CallRotate p)) p (sw_keys w) = (Inr (g, k), ck)"
  shows "0 < g \<and> en_loaded (entry p (sw_keys (doRotateScopeKey d e p w))) \<and> en_curID (entry p (sw_keys (doRotateScopeKey d e p w))) = g \<and>
    (\<forall>g'. sent (sw_out (doRotateScopeKey d e p w)) i p g' \<longrightarrow> g' < g)"
proof -
  have ps: "ck_inv (sd_nacl d) (sw_keys w)" "conns_ok w" "cm_inv (sw_cm w)" "Server_Scopes.log_ok w" using assms(1) by (simp_all add: parts_ok_def)
  have b: "box_ok (sd_nacl d)" using assms(2) by (simp add: wired_def)
  note cur = doRotate_current [OF ps(1) b assms(3) ps(2,3) assms(5)]
  note s = doRotate_settles [OF ps(1) b assms(3) ps(2,3), of p]
  obtain xs where xs: "sw_out (doRotateScopeKey d e p w) = sw_out w @ xs"
    "\<And>j sc h. sent xs j sc h \<Longrightarrow> (j, sc) \<in> readers p (st (doRotateScopeKey d e p w))"
    using settlesD(10) [OF s] by blast
  have "(i, p) \<notin> readers p (st (doRotateScopeKey d e p w))"
    using assms(4) settlesD(6,7) [OF s] by (auto simp: readers_def may_read_def)
  then have "\<not> sent xs i p g'" for g' using xs(2) by blast
  moreover have "sent (sw_out w) i p g' \<Longrightarrow> g' < g" for g' using ps(4) cur by (auto simp: Server_Scopes.log_ok_def)
  ultimately show ?thesis using cur xs(1) by auto
qed

lemma good_log_grows: "good d w w' \<Longrightarrow> sent (sw_out w) i sc g \<Longrightarrow> sent (sw_out w') i sc g"
  by (auto simp: good_def fair_def serves_def)

lemma rotation_seals:
  assumes "srv_inv d w" "wired d" "scope_env_ok e" "rotate_key (sd_nacl d) (sn_key e (CallRotate p)) p (sw_keys w) = (Inr (g, k), ck)" "ke_nonce env = Some n"
  shows "\<exists>h blob. fst (seal_body sb env p plain (sw_keys (rotationFires d e p w))) = Inr (h, blob)"
proof -
  let ?w = "w\<lparr>sw_rot := sw_rot w |-| {|p|}\<rparr>"
  have "srv_inv d ?w" using assms(1) by simp
  then have ps: "ck_inv (sd_nacl d) (sw_keys ?w)" "conns_ok ?w" "cm_inv (sw_cm ?w)" by (simp_all add: srv_inv_def parts_ok_def)
  from doRotate_current [OF ps(1) _ assms(3) ps(2,3)] assms(2,4) current_loaded [of p "sw_keys (rotationFires d e p w)" sb env] assms(5) show ?thesis
    by (auto simp: wired_def rotationFires_def seal_body_def split: prod.splits sum.splits option.splits)
qed

text \<open>A run in which the client never may read the channel keeps it cut off.\<close>

definition stays_out :: "scope_deps \<Rightarrow> client_id \<Rightarrow> channel_id \<Rightarrow> scope_op \<Rightarrow> scope_world \<Rightarrow> bool" where
  "stays_out d i p q w \<longleftrightarrow> scope_op_ok q w \<and> (i, p) \<notin> may_read (st (scope_step d q w))"

lemma cut_off_system:
  assumes "wired d" "cut_off d i p g w"
  shows "invariant_system (scope_step d) (stays_out d i p) (cut_off d i p g) w"
proof unfold_locales
  fix v q
  assume v: "cut_off d i p g v" and q: "stays_out d i p q v"
  then have "good d v (scope_step d q v)" by (intro scope_step_good [OF assms(1)]) (simp_all add: cut_off_def stays_out_def)
  with v q show "cut_off d i p g (scope_step d q v)" by (intro cut_off_step [OF v]) (simp_all add: stays_out_def)
qed (rule assms(2))

lemmas cut_off_run = invariant_system.run_start_inv [OF cut_off_system]

lemma move_cuts:
  assumes "srv_inv d w" "wired d" "scope_env_ok e" "sd_rotateMin d \<le> 0" "ck_configured (sw_keys w)"
    "moveClient d e i ch by w = (True, w')" "GetClient i (st w) = Some c" "c_ChannelID c = p" "p \<noteq> 0" "p \<noteq> ch" "(i, p) \<notin> a_subs (abs (st w))"
    "rotate_key (sd_nacl d) (sn_key e (CallRotate p)) p (sw_keys w) = (Inr (g, k), ck)"
  shows "cut_off d i p g w'"
proof -
  have inv: "srv_inv d w'" using moveClient_fair [OF assms(1-3), of i ch "by"] assms(6) by (simp add: srv_inv_def fair_def)
  show ?thesis
  proof (cases rule: moveClient_cases [OF assms(1,2), of e i ch "by", case_names stays moved])
    case stays
    with assms(6) show ?thesis by simp
  next
    case (moved c' cm)
    have c: "c_ChannelID c' = p" "w' = afterMove d e i ch by p (w\<lparr>sw_cm := cm\<rparr>)" using moved(1,2) assms(6-8) by (auto simp: GetClient_def)
    show ?thesis
    proof (rule afterMove_split [OF moved(3) assms(2,3), of p ch i "by"])
      fix w1 w2 w3
      assume a: "parts_ok d w1" "sw_cm w1 = sw_cm (w\<lparr>sw_cm := cm\<rparr>)" "sw_keys w1 = sw_keys (w\<lparr>sw_cm := cm\<rparr>)"
        "w2 = (if p \<noteq> 0 \<and> p \<noteq> ch then rotateScopeKey d e p w1 else w1)" "quiet d {(i, ch)} w2 w3"
        "afterMove d e i ch by p (w\<lparr>sw_cm := cm\<rparr>) = broadcastEvent d (SMoved i p ch by) w3"
      have w2: "w2 = doRotateScopeKey d e p w1" using a(3,4) assms(2,4,5,9,10) by (simp add: rotateScopeKey_def wired_def)
      have "(i, p) \<notin> may_read (st w1)" using a(2) moved(5) assms(9-11) by (simp add: may_read_def st_def)
      from doRotate_cuts [OF a(1) assms(2,3) this] a(3) assms(12)
      have cut: "0 < g" "en_loaded (entry p (sw_keys w2))" "en_curID (entry p (sw_keys w2)) = g" "\<And>g'. sent (sw_out w2) i p g' \<Longrightarrow> g' < g"
        by (simp_all add: w2)
      obtain xs where xs: "sw_out w3 = sw_out w2 @ xs" "\<And>j sc h. sent xs j sc h \<Longrightarrow> (j, sc) \<in> {(i, ch)}" using a(5) unfolding quiet_def by blast
      have "\<not> sent xs i p g'" for g' using xs(2) [of i p g'] assms(10) by blast
      then have w3: "sent (sw_out w3) i p g' \<Longrightarrow> g' < g" for g' using cut(4) xs(1) by auto
      have "en_loaded (entry p (sw_keys w3)) \<and> en_curID (entry p (sw_keys w3)) = g" using quietD(9) [OF a(5)] cut(1-3) by (simp add: cur_kept_def)
      moreover have "sw_keys w' = sw_keys w3" "sw_out w' = sw_out w3 \<or> sw_out w' = sw_out w3 @ [SMoved i p ch by]"
        using a(6) c(2) by (simp_all add: broadcastEvent_def log_out_def)
      ultimately show ?thesis using inv cut(1) w3 by (auto simp: cut_off_def)
    qed
  qed
qed

lemma LeaveClient_out:
  "LeaveClient i cm = (cm', ch, None) \<Longrightarrow> \<exists>c. fmlookup (clients (cm_state cm')) i = Some c \<and> c_ChannelID c = 0 \<and> subs (cm_state cm') = subs (cm_state cm)"
  by (auto simp: LeaveClient_def LeaveChannel_def leave_members_def Let_def split: option.splits if_splits prod.splits)

lemma kick_effect:
  assumes "srv_inv d w" "wired d" "performKick d e y i False ban reason ex w = (True, w')"
  shows "sw_keys w' = sw_keys w" "sw_rot w' = sw_rot w" "sent (sw_out w') j sc g = sent (sw_out w) j sc g"
    "\<exists>c. GetClient i (st w') = Some c \<and> c_ChannelID c = 0" "subs (st w') = subs (st w)"
proof -
  obtain t where t: "clientByID i w = Some t" "tc_ID t = i"
    using assms by (cases "clientByID i w") (auto simp: performKick_def wired_def clientByID_def srv_inv_def parts_ok_def conns_ok_def)
  obtain cm ch err where l: "LeaveClient i (sw_cm w) = (cm, ch, err)" by (metis prod_cases3)
  have "err = None \<and> w' = broadcastEvent d (SKicked i ch y reason False ban ex) (voice_leave e i ch (w\<lparr>sw_cm := cm\<rparr>))"
    using assms(2,3) t l by (auto simp: performKick_def wired_def leave_state_def split: option.splits if_splits)
  with LeaveClient_out [of i "sw_cm w" cm ch] l
  show "sw_keys w' = sw_keys w" "sw_rot w' = sw_rot w" "sent (sw_out w') j sc g = sent (sw_out w) j sc g"
    "\<exists>c. GetClient i (st w') = Some c \<and> c_ChannelID c = 0" "subs (st w') = subs (st w)"
    by (auto simp: broadcastEvent_def log_out_def voice_leave_def case_prod_beta GetClient_def st_def)
qed

subsection \<open>An example\<close>

text \<open>A server with two channels and one client, which an administrator moved into the first one.\<close>

definition scope_demo :: scope_deps where
  "scope_demo = \<lparr>sd_state = True, sd_channels = True, sd_voice = True, sd_broadcast = True, sd_bans = True, sd_banAdmin = True, sd_groups = True,
     sd_perms = True, sd_guestGroup = 0, sd_nacl = keys_demo_nacl, sd_argon = (\<lambda>_ _ _ _ _ _. []), sd_rotateMin = 0, sd_rate = True\<rparr>"

definition scope_demo_env :: scope_env where
  "scope_demo_env = \<lparr>sn_key = (\<lambda>_. keys_demo_env), sn_now = 1, sn_ask = (\<lambda>_. RError), sn_write = (\<lambda>_. True), sn_order = sorted_list_of_fset,
     sn_track = (\<lambda>_ _ _. True), sn_rids = (\<lambda>_. []), sn_banFails = False, sn_banID = 7\<rparr>"

definition scope_demo_conn :: tcp_client where
  "scope_demo_conn = setIdentity ''n'' ''u'' 7 False (new_client ''a'' 0)"

definition scope_demo_user :: client where
  "scope_demo_user = ex_client\<lparr>c_E2EPublicKey := EncodeToString (replicate 32 1)\<rparr>"

definition scope_demo_users :: auth_db where
  "scope_demo_users = \<lparr>ad_users = [], ad_bans = []\<rparr>"

definition scope_demo_ops :: "scope_op list" where
  "scope_demo_ops = [WCreate (ex_env 5) ex_spec, WCreate (ex_env 6) ex_spec, WLogin scope_demo_conn scope_demo_user]"

definition scope_demo_in :: "scope_op list" where
  "scope_demo_in = scope_demo_ops @ [WAdminMove scope_demo_env ''a'' 5]"

definition scope_demo_0 :: scope_world where
  "scope_demo_0 = run_ops (scope_step scope_demo) scope_demo_ops (scope_start keys_demo_ring scope_demo_users)"

definition scope_demo_1 :: scope_world where
  "scope_demo_1 = run_ops (scope_step scope_demo) scope_demo_in (scope_start keys_demo_ring scope_demo_users)"

lemma scope_demo_wired [simp]: "wired scope_demo" "scope_env_ok scope_demo_env"
  by (simp_all add: wired_def scope_demo_def scope_env_ok_def scope_demo_env_def sorted_list_of_fset.rep_eq)

lemma scope_demo_on:
  "sd_state scope_demo" "sd_voice scope_demo" "sd_channels scope_demo" "sd_broadcast scope_demo" "sd_nacl scope_demo = keys_demo_nacl" "sd_rotateMin scope_demo = 0"
  "sd_bans scope_demo" "sd_groups scope_demo" "sn_key scope_demo_env x = keys_demo_env" "sn_write scope_demo_env y" "\<not> sn_banFails scope_demo_env" "sn_now scope_demo_env = 1"
  by (simp_all add: scope_demo_def scope_demo_env_def)

lemma keys_demo_nonce_some: "ke_nonce keys_demo_env = Some keys_demo_nonce"
  by (simp add: keys_demo_env_def)

lemma scope_demo_create: "fst (CreateChannel (ex_env i) ex_spec cm) = create_inserted (ex_env i) ex_spec None i 0 cm"
  by (simp add: CreateChannel_def Validate_def ex_spec_def ex_env_def ChannelType_Valid_def hash_password_def)

lemma scope_demo_ops_ok: "ops_ok (scope_step scope_demo) scope_op_ok scope_demo_ops (scope_start keys_demo_ring scope_demo_users)"
  by (simp add: scope_demo_ops_def scope_demo_create create_inserted_def Let_def AddChannel_def st_def put_state_def scope_start_def)
     (simp add: ex_env_def cm_New_def state_New_def scope_demo_user_def ex_client_def scope_demo_conn_def setIdentity_def new_client_def)

lemma scope_demo_in_ok: "ops_ok (scope_step scope_demo) scope_op_ok scope_demo_in (scope_start keys_demo_ring scope_demo_users)"
  using scope_demo_ops_ok by (simp add: scope_demo_in_def ops_ok_append del: scope_step.simps)

lemma scope_demo_inv: "srv_inv scope_demo scope_demo_0" "srv_inv scope_demo scope_demo_1"
  unfolding scope_demo_0_def scope_demo_1_def using scope_run_inv [OF scope_demo_wired(1) _ scope_demo_ops_ok] scope_run_inv [OF scope_demo_wired(1) _ scope_demo_in_ok] by simp_all

lemma scope_demo_parts:
  "fmlookup (channels (st scope_demo_0)) 5 = Some (spec_channel ex_spec None 5 0)" "fmlookup (channels (st scope_demo_0)) 6 = Some (spec_channel ex_spec None 6 0)"
  "fmlookup (clients (st scope_demo_0)) ''a'' = Some scope_demo_user" "sw_conns scope_demo_0 = fmupd ''a'' scope_demo_conn fmempty"
  "sw_keys scope_demo_0 = ks_ck (key_start keys_demo_ring)" "sw_out scope_demo_0 = []" "subs (st scope_demo_0) = fmempty"
  by (simp_all add: scope_demo_0_def scope_demo_ops_def scope_demo_create create_inserted_def Let_def AddChannel_def AddClient_def st_def put_state_def
      scope_start_def cm_New_def state_New_def scope_demo_user_def ex_client_def scope_demo_conn_def setIdentity_def new_client_def)
     (simp_all add: ex_spec_def spec_channel_def)

definition scope_demo_ck :: chat_keys where
  "scope_demo_ck = ks_ck (key_step keys_demo_nacl (KRotate keys_demo_env 5) (key_start keys_demo_ring))"

definition scope_demo_sealed :: string where
  "scope_demo_sealed = EncodeToString (sb_anon keys_demo_nacl keys_demo_key (replicate 32 1) keys_demo_nonce)"

lemma scope_demo_entry: "entry 5 scope_demo_ck = new_entry\<lparr>en_curID := 1, en_curKey := keys_demo_key, en_loaded := True\<rparr>"
  unfolding scope_demo_ck_def keys_demo_step1 by (simp add: entry_def)

lemma scope_demo_ensure:
  "EnsureScope keys_demo_nacl keys_demo_env 5 (ks_ck (key_start keys_demo_ring)) = (Inr (1, keys_demo_key), scope_demo_ck)"
proof -
  let ?ck = "ks_ck (key_start keys_demo_ring)"
  have l: "loadLocked keys_demo_nacl keys_demo_env 5 ?ck = Inr (new_entry\<lparr>en_loaded := True\<rparr>)"
    by (simp add: loadLocked_def key_start_def entry_def new_entry_def CurrentScopeKey_def scanScopeKey_def keys_demo_env_def Let_def)
  then have eq: "EnsureScope keys_demo_nacl keys_demo_env 5 ?ck = rotate_key keys_demo_nacl keys_demo_env 5 ?ck"
    by (simp add: EnsureScope_def rotate_key_def new_entry_def)
  obtain r ck where r: "rotate_key keys_demo_nacl keys_demo_env 5 ?ck = (r, ck)" by fastforce
  have "ks_issued (key_step keys_demo_nacl (KRotate keys_demo_env 5) (key_start keys_demo_ring)) = [(5, 1)]" "ks_issued (key_start keys_demo_ring) = []"
    by (simp only: keys_demo_step1 key_sys.simps) (simp add: key_start_def)
  then obtain k where k: "r = Inr (1, k)" "scope_demo_ck = ck" using r by (cases r) (auto simp: scope_demo_ck_def)
  from rotate_current [of keys_demo_nacl keys_demo_env 5 ?ck 1 k ck] r k scope_demo_entry have "k = keys_demo_key" by simp
  with eq r k show ?thesis by simp
qed

lemma scope_demo_put: "put_entry 5 (entry 5 scope_demo_ck) scope_demo_ck = scope_demo_ck"
  unfolding scope_demo_entry by (simp only: scope_demo_ck_def keys_demo_step1 key_sys.simps put_entry_def chat_keys.simps) simp

lemma scope_demo_seal:
  "sealFor keys_demo_nacl keys_demo_env 5 1 (EncodeToString (replicate 32 1)) scope_demo_ck = (Inr (5, 1, scope_demo_sealed), scope_demo_ck)"
proof -
  have "key_at keys_demo_nacl keys_demo_env 5 1 scope_demo_ck = (Inr keys_demo_key, scope_demo_ck)"
    using scope_demo_put by (simp add: key_at_def load_same scope_demo_entry)
  then show ?thesis by (simp add: sealFor_def keys_demo_env_def scope_demo_sealed_def)
qed

lemma scope_demo_moved:
  "st scope_demo_1 = enter_channel ''a'' scope_demo_user 5 (st scope_demo_0)" "sw_keys scope_demo_1 = scope_demo_ck"
  "clientByID ''a'' scope_demo_1 = Some scope_demo_conn"
  "sw_out scope_demo_1 = [SKey ''a'' 5 1 scope_demo_sealed, SSubs ''a'' [5], SMoved ''a'' 0 5 ''serverquery'']"
proof -
  have c0: "c_ChannelID scope_demo_user = 0" "c_E2EPublicKey scope_demo_user = EncodeToString (replicate 32 1)" "tc_ID scope_demo_conn = ''a''"
    by (simp_all add: scope_demo_user_def ex_client_def scope_demo_conn_def setIdentity_def new_client_def)
  have key: "EncodeToString (replicate 32 1) \<noteq> []" using encode_solid [of "replicate 32 1"] by simp
  have m: "MoveClient ''a'' 5 (st scope_demo_0) = (enter_channel ''a'' scope_demo_user 5 (st scope_demo_0), None)"
    by (simp add: MoveClient_def scope_demo_parts c0)
  obtain cm where cm: "cm_MoveClient ''a'' 5 (sw_cm scope_demo_0) = (cm, 0, None)" "cm_state cm = enter_channel ''a'' scope_demo_user 5 (st scope_demo_0)"
    using m by (simp add: cm_MoveClient_def ClientChannelState_def scope_demo_parts c0 Let_def flip: st_def)
  define w1 where "w1 = voice_join scope_demo_env ''a'' 5 (scope_demo_0\<lparr>sw_cm := cm\<rparr>)"
  define w2 where "w2 = log_out (SKey ''a'' 5 1 scope_demo_sealed) (w1\<lparr>sw_keys := scope_demo_ck\<rparr>)"
  have f: "st w1 = enter_channel ''a'' scope_demo_user 5 (st scope_demo_0)" "sw_keys w1 = ks_ck (key_start keys_demo_ring)"
    "sw_conns w1 = sw_conns scope_demo_0" "sw_out w1 = []"
    by (simp_all add: w1_def voice_join_def st_def cm(2) scope_demo_parts case_prod_beta)
  note on = scope_demo_on
  have "ck_configured (ks_ck (key_start keys_demo_ring))" by (simp add: key_start_def)
  then have dl: "deliverScopeKey scope_demo scope_demo_env scope_demo_conn 5 w1 = (True, w2)"
    using key by (simp add: deliverScopeKey_def GetClient_def f c0 on enter_channel_def scope_demo_ensure scope_demo_seal write_out_def w2_def del: One_nat_def)
  have s2: "st w2 = st w1" by (simp add: w2_def st_def)
  have ss: "subscriptionSet scope_demo scope_demo_conn w2 = [5]"
    by (simp add: subscriptionSet_def on ClientChannelState_def s2 f(1) c0 enter_channel_def Subscriptions_def scope_demo_parts fmset_get_def sorted_list_of_fset.rep_eq)
  have "scope_demo_1 = snd (admin_MoveClient scope_demo scope_demo_env ''a'' 5 scope_demo_0)"
    by (simp add: scope_demo_1_def scope_demo_in_def run_ops_append scope_demo_0_def [symmetric])
  also have "\<dots> = afterMove scope_demo scope_demo_env ''a'' 5 ''serverquery'' 0 (scope_demo_0\<lparr>sw_cm := cm\<rparr>)"
    using cm(1) by (simp add: admin_MoveClient_def moveClient_def GetChannel_def clientByID_def scope_demo_parts on)
  also have "\<dots> = log_out (SMoved ''a'' 0 5 ''serverquery'') (log_out (SSubs ''a'' [5]) w2)"
    using f(3) dl ss c0
    by (simp add: afterMove_def Let_def on w1_def [symmetric] clientByID_def scope_demo_parts broadcastEvent_def sendSubscriptionState_def write_out_def)
  finally have e: "scope_demo_1 = log_out (SMoved ''a'' 0 5 ''serverquery'') (log_out (SSubs ''a'' [5]) w2)" .
  show "st scope_demo_1 = enter_channel ''a'' scope_demo_user 5 (st scope_demo_0)" "sw_keys scope_demo_1 = scope_demo_ck"
    "clientByID ''a'' scope_demo_1 = Some scope_demo_conn"
    "sw_out scope_demo_1 = [SKey ''a'' 5 1 scope_demo_sealed, SSubs ''a'' [5], SMoved ''a'' 0 5 ''serverquery'']"
    using f s2 by (simp_all add: e w2_def clientByID_def scope_demo_parts) (simp add: log_out_def)
qed

lemma scope_demo_client:
  "GetClient ''a'' (st scope_demo_1) = Some (scope_demo_user\<lparr>c_ChannelID := 5\<rparr>)" "\<not> IsSubscribed ''a'' 5 (st scope_demo_1)" "ck_configured (sw_keys scope_demo_1)"
  unfolding scope_demo_moved scope_demo_ck_def keys_demo_step1
  by (simp_all add: GetClient_def enter_channel_def IsSubscribed_def scope_demo_parts fmset_get_def)

lemma scope_demo_leaves: "fst (moveClient scope_demo scope_demo_env ''a'' 6 ''serverquery'' scope_demo_1)"
proof -
  have "fst (snd (cm_MoveClient ''a'' 6 (sw_cm scope_demo_1))) = 5 \<and> snd (snd (cm_MoveClient ''a'' 6 (sw_cm scope_demo_1))) = None"
    using scope_demo_moved(1)
    by (simp add: cm_MoveClient_def ClientChannelState_def MoveClient_def enter_channel_def inc_count_def scope_demo_parts Let_def flip: st_def)
  then show ?thesis by (auto simp: moveClient_def scope_demo_def split: prod.splits)
qed

lemma scope_demo_rotates: "\<exists>k ck. rotate_key (sd_nacl scope_demo) (sn_key scope_demo_env (CallRotate 5)) 5 (sw_keys scope_demo_1) = (Inr (2, k), ck)"
proof -
  have ck: "ck_ring scope_demo_ck = keys_demo_ring" "next_id 5 (ck_db scope_demo_ck) = 2"
    unfolding scope_demo_ck_def keys_demo_step1 by (simp_all add: next_id_def)
  have rows: "kd_rows (ck_db scope_demo_ck) = [keys_demo_row 1]" "ke_write keys_demo_env = NoFault"
    unfolding scope_demo_ck_def keys_demo_step1 by (simp_all add: keys_demo_env_def)
  have "rotate_key keys_demo_nacl keys_demo_env 5 scope_demo_ck = (Inr (2, keys_demo_key), snd (rotate_key keys_demo_nacl keys_demo_env 5 scope_demo_ck))"
    using keys_demo_fresh [OF ck] rows by (simp add: rotate_key_def load_same scope_demo_entry RotateScopeKey_def keys_demo_row_id row_at_def)
  then show ?thesis unfolding scope_demo_moved(2) scope_demo_on by blast
qed

lemma scope_demo_kick: "\<exists>w'. performKick scope_demo scope_demo_env ''serverquery'' ''a'' False False [] None scope_demo_1 = (True, w')"
proof -
  have l: "snd (snd (LeaveClient ''a'' (sw_cm scope_demo_1))) = None"
    using scope_demo_client(1) by (simp add: LeaveClient_def ClientChannelState_def LeaveChannel_def GetClient_def Let_def flip: st_def)
  have t: "tc_authed scope_demo_conn" "tc_ID scope_demo_conn = ''a''" by (simp_all add: scope_demo_conn_def setIdentity_def new_client_def)
  show ?thesis using l t by (auto simp: performKick_def scope_demo_on scope_demo_moved(3) scope_demo_client(1) leave_state_def split: prod.splits)
qed

definition scope_demo_out :: "scope_op list" where
  "scope_demo_out = scope_demo_in @ [WAdminKick scope_demo_env ''serverquery'' ''a'' False []]"

definition scope_demo_2 :: scope_world where
  "scope_demo_2 = run_ops (scope_step scope_demo) scope_demo_out (scope_start keys_demo_ring scope_demo_users)"

lemma scope_demo_kicked:
  "sw_keys scope_demo_2 = sw_keys scope_demo_1" "\<exists>c. GetClient ''a'' (st scope_demo_2) = Some c \<and> c_ChannelID c = 0" "\<not> IsSubscribed ''a'' 5 (st scope_demo_2)"
  "sent (sw_out scope_demo_2) ''a'' 5 1"
proof -
  obtain w' where k: "performKick scope_demo scope_demo_env ''serverquery'' ''a'' False False [] None scope_demo_1 = (True, w')" using scope_demo_kick by blast
  note e = kick_effect [OF scope_demo_inv(2) scope_demo_wired(1) k]
  have t: "tc_authed scope_demo_conn" by (simp add: scope_demo_conn_def setIdentity_def)
  have "scope_demo_2 = snd (admin_KickClient scope_demo scope_demo_env ''serverquery'' ''a'' False [] scope_demo_1)"
    by (simp add: scope_demo_2_def scope_demo_out_def run_ops_append scope_demo_1_def [symmetric])
  then have w: "scope_demo_2 = log_out (SAudit ''serverquery'' ''kick'' (tc_UniqueID scope_demo_conn)) w'"
    using k t by (simp add: admin_KickClient_def scope_demo_moved(3) audit_def scope_demo_on)
  show "sw_keys scope_demo_2 = sw_keys scope_demo_1" "\<exists>c. GetClient ''a'' (st scope_demo_2) = Some c \<and> c_ChannelID c = 0" "\<not> IsSubscribed ''a'' 5 (st scope_demo_2)"
    unfolding w using e(1,4,5) scope_demo_client(2) by (auto simp: IsSubscribed_def)
  have "sent (sw_out scope_demo_1) ''a'' 5 1" by (simp add: scope_demo_moved sent_def)
  with e(3) [of "''a''" 5 1] show "sent (sw_out scope_demo_2) ''a'' 5 1" unfolding w by (simp add: log_out_def)
qed

subsection \<open>Properties\<close>





text \<open>C1: Who leaves a channel cannot read what is said there afterwards.  Take a client that moves from one channel to another and is not subscribed to
  the first, with rotation not delayed and the key backend answering.  From then on, through any run in which the client never again may read the
  channel, every generation of the channel's key that the client was ever sent lies below every generation under which the server seals a message there.\<close>

theorem leaver_cannot_read:
  assumes "wired d" "ring_ok ring" "ops_ok (scope_step d) scope_op_ok ops (scope_start ring users)"
    "w = run_ops (scope_step d) ops (scope_start ring users)"
    "scope_env_ok e" "sd_rotateMin d \<le> 0" "ck_configured (sw_keys w)"
    "GetClient i (st w) = Some c" "c_ChannelID c = p" "p \<noteq> 0" "p \<noteq> ch" "\<not> IsSubscribed i p (st w)"
    "rotate_key (sd_nacl d) (sn_key e (CallRotate p)) p (sw_keys w) = (Inr (g, k), ck)"
    "moveClient d e i ch by w = (True, w')"
    "ops_ok (scope_step d) (stays_out d i p) later w'" "v = run_ops (scope_step d) later w'"
    "fst (seal_body (sd_nacl d) env p plain (sw_keys v)) = Inr (h, blob)"
  shows "{g'. sent (sw_out v) i p g'} \<subseteq> {..<h}"
proof -
  have "srv_inv d w" unfolding assms(4) by (rule scope_run_inv [OF assms(1-3)])
  moreover have "(i, p) \<notin> a_subs (abs (st w))" using assms(12) by (simp add: IsSubscribed_def abs_fields)
  ultimately have "cut_off d i p g w'" using assms(1,5-11,13,14) by (intro move_cuts)
  from cut_off_run [OF assms(1) this assms(15)] have v: "cut_off d i p g v" by (simp add: assms(16))
  from cut_off_seal [OF v assms(17)] show ?thesis by auto
qed

theorem leaver_cannot_read_witness:
  "\<exists>w' h blob. moveClient scope_demo scope_demo_env ''a'' 6 ''serverquery'' scope_demo_1 = (True, w') \<and>
     fst (seal_body keys_demo_nacl keys_demo_env 5 [104, 105] (sw_keys w')) = Inr (h, blob) \<and> {g'. sent (sw_out w') ''a'' 5 g'} \<subseteq> {..<h}"
proof -
  obtain w' where m: "moveClient scope_demo scope_demo_env ''a'' 6 ''serverquery'' scope_demo_1 = (True, w')" using scope_demo_leaves by (cases "moveClient scope_demo scope_demo_env ''a'' 6 ''serverquery'' scope_demo_1") auto
  obtain k ck where r: "rotate_key (sd_nacl scope_demo) (sn_key scope_demo_env (CallRotate 5)) 5 (sw_keys scope_demo_1) = (Inr (2, k), ck)" using scope_demo_rotates by blast
  have sub: "(''a'', 5) \<notin> a_subs (abs (st scope_demo_1))" using scope_demo_client(2) by (simp add: IsSubscribed_def abs_fields)
  have cut: "cut_off scope_demo ''a'' 5 2 w'"
    by (rule move_cuts [OF scope_demo_inv(2) scope_demo_wired _ scope_demo_client(3) m scope_demo_client(1) _ _ _ sub r]) (simp_all add: scope_demo_on)
  have "ke_nonce keys_demo_env \<noteq> None" by (simp add: keys_demo_nonce_some)
  from cut_off_seals [OF cut this, of keys_demo_nacl "[104, 105]"]
  obtain h blob where s: "fst (seal_body keys_demo_nacl keys_demo_env 5 [104, 105] (sw_keys w')) = Inr (h, blob)"
    by blast
  have h: "sd_rotateMin scope_demo \<le> 0" "c_ChannelID (scope_demo_user\<lparr>c_ChannelID := 5\<rparr>) = 5" "(5 :: int) \<noteq> 0" "(5 :: int) \<noteq> 6"
    "ops_ok (scope_step scope_demo) (stays_out scope_demo ''a'' 5) [] w'" "w' = run_ops (scope_step scope_demo) [] w'"
    "fst (seal_body (sd_nacl scope_demo) keys_demo_env 5 [104, 105] (sw_keys w')) = Inr (h, blob)"
    using s by (simp_all add: scope_demo_on)
  have "{g'. sent (sw_out w') ''a'' 5 g'} \<subseteq> {..<h}"
    by (rule leaver_cannot_read [OF scope_demo_wired(1) keys_demo_ok(2) scope_demo_in_ok scope_demo_1_def scope_demo_wired(2) h(1) scope_demo_client(3,1) h(2-4)
          scope_demo_client(2) r m h(5-7)])
  with m s show ?thesis by blast
qed

text \<open>C36: The same with a delayed rotation: when the timer of a channel's rotation fires and the key backend answers, every client that at that moment may not read
  the channel is cut off from what is said there from then on, until it may read the channel again.\<close>

theorem rotation_locks_out:
  assumes "wired d" "ring_ok ring" "ops_ok (scope_step d) scope_op_ok (ops @ [WRotation e p]) (scope_start ring users)"
    "w = run_ops (scope_step d) ops (scope_start ring users)"
    "p \<noteq> 0" "\<not> IsSubscribed i p (st w)" "\<And>c. GetClient i (st w) = Some c \<Longrightarrow> c_ChannelID c \<noteq> p"
    "rotate_key (sd_nacl d) (sn_key e (CallRotate p)) p (sw_keys w) = (Inr (g, k), ck)"
    "ops_ok (scope_step d) (stays_out d i p) later (rotationFires d e p w)" "v = run_ops (scope_step d) later (rotationFires d e p w)"
    "fst (seal_body (sd_nacl d) env p plain (sw_keys v)) = Inr (h, blob)"
  shows "{g'. sent (sw_out v) i p g'} \<subseteq> {..<h}"
proof -
  have ok: "ops_ok (scope_step d) scope_op_ok ops (scope_start ring users)" "scope_env_ok e" using assms(3) by (simp_all add: ops_ok_append)
  have inv: "srv_inv d w" unfolding assms(4) by (rule scope_run_inv [OF assms(1,2) ok(1)])
  let ?w = "w\<lparr>sw_rot := sw_rot w |-| {|p|}\<rparr>"
  have p: "parts_ok d ?w" using inv_fields(4) [of d "sw_rot w |-| {|p|}" w] inv by (simp add: srv_inv_def)
  have "(i, p) \<notin> may_read (st ?w)" using assms(5-7) by (auto simp: may_read_def abs_fields IsSubscribed_def GetClient_def st_def split: option.splits if_splits)
  from doRotate_cuts [OF p assms(1) ok(2) this] assms(8) good_inv [OF good_rotation [OF inv assms(1) ok(2), of p]]
  have "cut_off d i p g (rotationFires d e p w)" by (simp add: cut_off_def rotationFires_def)
  from cut_off_run [OF assms(1) this assms(9)] have v: "cut_off d i p g v" by (simp add: assms(10))
  from cut_off_seal [OF v assms(11)] show ?thesis by auto
qed

theorem rotation_locks_out_witness:
  "\<exists>h blob. sent (sw_out (rotationFires scope_demo scope_demo_env 5 scope_demo_2)) ''a'' 5 1 \<and>
     fst (seal_body (sd_nacl scope_demo) keys_demo_env 5 [104, 105] (sw_keys (rotationFires scope_demo scope_demo_env 5 scope_demo_2))) = Inr (h, blob) \<and>
     {g'. sent (sw_out (rotationFires scope_demo scope_demo_env 5 scope_demo_2)) ''a'' 5 g'} \<subseteq> {..<h}"
proof -
  let ?w = "rotationFires scope_demo scope_demo_env 5 scope_demo_2"
  obtain k ck where r: "rotate_key (sd_nacl scope_demo) (sn_key scope_demo_env (CallRotate 5)) 5 (sw_keys scope_demo_2) = (Inr (2, k), ck)"
    using scope_demo_rotates scope_demo_kicked(1) by auto
  have ok: "ops_ok (scope_step scope_demo) scope_op_ok scope_demo_out (scope_start keys_demo_ring scope_demo_users)"
    using scope_demo_in_ok by (simp add: scope_demo_out_def ops_ok_append)
  have inv: "srv_inv scope_demo scope_demo_2" unfolding scope_demo_2_def by (rule scope_run_inv [OF scope_demo_wired(1) keys_demo_ok(2) ok])
  obtain h blob where s: "fst (seal_body (sd_nacl scope_demo) keys_demo_env 5 [104, 105] (sw_keys ?w)) = Inr (h, blob)"
    using rotation_seals [OF inv scope_demo_wired r keys_demo_nonce_some, of "sd_nacl scope_demo" "[104, 105]"] by blast
  have out: "c_ChannelID c \<noteq> 5" if "GetClient ''a'' (st scope_demo_2) = Some c" for c using scope_demo_kicked(2) that by auto
  have hs: "ops_ok (scope_step scope_demo) scope_op_ok (scope_demo_out @ [WRotation scope_demo_env 5]) (scope_start keys_demo_ring scope_demo_users)"
    "(5 :: int) \<noteq> 0" "ops_ok (scope_step scope_demo) (stays_out scope_demo ''a'' 5) [] ?w" "?w = run_ops (scope_step scope_demo) [] ?w"
    using ok by (simp_all add: ops_ok_append)
  have "{g'. sent (sw_out ?w) ''a'' 5 g'} \<subseteq> {..<h}"
    by (rule rotation_locks_out [OF scope_demo_wired(1) keys_demo_ok(2) hs(1) scope_demo_2_def hs(2) scope_demo_kicked(3) out r hs(3,4) s])
  moreover have "sent (sw_out ?w) ''a'' 5 1"
    using good_log_grows [OF good_rotation [OF inv scope_demo_wired, of 5]] scope_demo_kicked(4) by blast
  ultimately show ?thesis using s by blast
qed

text \<open>C38: A client that is kicked from its channel keeps the channel's key.  Unlike a move and a disconnect, a channel kick rotates nothing and schedules no rotation:
  the client is out of the channel, yet a message sealed there afterwards is sealed exactly as before the kick, under the generation the client was sent.\<close>

theorem kick_keeps_key:
  assumes "wired d" "ring_ok ring" "ops_ok (scope_step d) scope_op_ok ops (scope_start ring users)"
    "w = run_ops (scope_step d) ops (scope_start ring users)"
    "performKick d e y i False ban reason ex w = (True, w')"
    "sent (sw_out w) i p g" "fst (seal_body (sd_nacl d) env p plain (sw_keys w)) = Inr (g, blob)"
  shows "(\<exists>c. GetClient i (st w') = Some c \<and> c_ChannelID c = 0) \<and> sw_rot w' = sw_rot w \<and>
    sent (sw_out w') i p g \<and> fst (seal_body (sd_nacl d) env p plain (sw_keys w')) = Inr (g, blob)"
proof -
  have "srv_inv d w" unfolding assms(4) by (rule scope_run_inv [OF assms(1-3)])
  from kick_effect [OF this assms(1,5)] assms(6,7) show ?thesis by simp
qed

theorem kick_keeps_key_witness:
  "\<exists>w' blob. performKick scope_demo scope_demo_env ''serverquery'' ''a'' False False [] None scope_demo_1 = (True, w') \<and>
     sent (sw_out w') ''a'' 5 1 \<and> fst (seal_body (sd_nacl scope_demo) keys_demo_env 5 [104, 105] (sw_keys w')) = Inr (1, blob)"
proof -
  obtain w' where k: "performKick scope_demo scope_demo_env ''serverquery'' ''a'' False False [] None scope_demo_1 = (True, w')" using scope_demo_kick by blast
  have s: "sent (sw_out scope_demo_1) ''a'' 5 1" by (simp add: scope_demo_moved sent_def)
  have "fst (current keys_demo_nacl keys_demo_env 5 scope_demo_ck) = Inr (1, keys_demo_key)" using current_loaded [of 5 scope_demo_ck] by (simp add: scope_demo_entry)
  then have "\<exists>blob. fst (seal_body (sd_nacl scope_demo) keys_demo_env 5 [104, 105] (sw_keys scope_demo_1)) = Inr (1, blob)"
    unfolding scope_demo_moved(2) scope_demo_on by (auto simp: seal_body_def keys_demo_nonce_some split: prod.splits option.splits)
  then obtain blob where b: "fst (seal_body (sd_nacl scope_demo) keys_demo_env 5 [104, 105] (sw_keys scope_demo_1)) = Inr (1, blob)" by blast
  from kick_keeps_key [OF scope_demo_wired(1) keys_demo_ok(2) scope_demo_in_ok scope_demo_1_def k s b] k show ?thesis by blast
qed

subsection \<open>Bans\<close>

lemma find_insert:
  assumes "\<not> P b"
  shows "List.find P (sort_key f (xs @ [b])) = List.find P (sort_key f xs)"
proof -
  have *: "List.find P ys = (case filter P ys of [] \<Rightarrow> None | y # _ \<Rightarrow> Some y)" for ys by (induction ys) auto
  show ?thesis unfolding * filter_sort using assms by simp
qed

lemma ban_seconds:
  assumes "0 < s" "s \<le> 9223372036"
  shows "sint (word_of_int s * 1000000000 :: 64 word) = s * 1000000000"
proof -
  have w: "word_of_int s * 1000000000 = (word_of_int (s * 1000000000) :: 64 word)" by (simp add: word_of_int_eq_iff)
  have "signed_take_bit 63 (s * 1000000000) = s * 1000000000"
    by (rule signed_take_bit_int_eq_self) (use assms in auto)
  then show ?thesis unfolding w signed_of_int by simp
qed

lemma ban_seconds_wrap:
  assumes "9223372036 < s" "s \<le> 18446744073"
  shows "sint (word_of_int s * 1000000000 :: 64 word) = s * 1000000000 - 2 ^ 64"
proof -
  have w: "word_of_int s * 1000000000 = (word_of_int (s * 1000000000 - 2 ^ 64) :: 64 word)"
    by (simp add: word_of_int_eq_iff take_bit_eq_mod)
  have "signed_take_bit 63 (s * 1000000000 - 2 ^ 64) = s * 1000000000 - 2 ^ 64"
    by (rule signed_take_bit_int_eq_self) (use assms in auto)
  then show ?thesis unfolding w signed_of_int by simp
qed

lemma BanClient_effect:
  assumes "sd_bans d" "clientByID i w = Some t" "BanClient d e y i seconds reason w = (True, w')"
  shows "ad_bans (sw_users w') = ad_bans (sw_users w) @ [\<lparr>br_id = sn_banID e, br_type = 1, br_value = tc_UniqueID t, br_reason = Some reason, br_channel = None,
      br_expires = banExpiration (sn_now e) seconds\<rparr>]"
proof -
  have u: "performKick d e y i True True reason ex v = (b, v') \<Longrightarrow> sw_users v' = sw_users v" for ex v b v'
    by (auto simp: performKick_def log_out_def broadcastEvent_def split: option.splits if_splits)
  show ?thesis
    using assms
    by (auto simp: BanClient_def insertBan_def Let_def audit_def log_out_def dest!: u split: if_splits prod.splits bool.splits)
qed

text \<open>C39: A ban takes effect and lasts: once an administrator has banned a connected client, permanently or for at most 9,223,372,036 seconds (292 years), the
  client's unique id is found banned at every later moment before the ban's end, and at every moment when the ban is permanent.\<close>

theorem ban_is_active:
  assumes "sd_bans d" "clientByID i w = Some t" "BanClient d e y i seconds reason w = (True, w')"
    "seconds \<le> 9223372036" "seconds \<le> 0 \<or> now < sn_now e + seconds * 1000000000"
  shows "\<exists>b. LookupActiveBan False now (tc_UniqueID t) ip (sw_users w') = Inr (Some b)"
proof -
  define b where "b = \<lparr>br_id = sn_banID e, br_type = 1, br_value = tc_UniqueID t, br_reason = Some reason, br_channel = None,
      br_expires = banExpiration (sn_now e) seconds\<rparr>"
  have "b \<in> set (ad_bans (sw_users w'))" using BanClient_effect [OF assms(1-3)] by (simp add: b_def)
  moreover have "ban_matches now (tc_UniqueID t) ip b"
    using assms(4,5) ban_seconds [of seconds] by (cases "seconds \<le> 0") (simp_all add: b_def ban_matches_def banExpiration_def)
  ultimately have "\<exists>b. b \<in> set (ad_bans (sw_users w')) \<and> ban_matches now (tc_UniqueID t) ip b" by blast
  then have "List.find (ban_matches now (tc_UniqueID t) ip) (sort_key br_id (ad_bans (sw_users w'))) \<noteq> None"
    by (auto simp: find_None_iff)
  then show ?thesis by (auto simp: LookupActiveBan_def)
qed


lemma st_users: "st (w\<lparr>sw_users := u\<rparr>) = st w"
  by (simp add: st_def)

lemma clientByID_users [simp]: "clientByID i (w\<lparr>sw_users := u\<rparr>) = clientByID i w"
  by (simp add: clientByID_def)

lemma scope_demo_ban: "\<exists>w'. BanClient scope_demo scope_demo_env ''serverquery'' ''a'' seconds [] scope_demo_1 = (True, w')"
proof -
  have t: "tc_authed scope_demo_conn" "tc_ID scope_demo_conn = ''a''" by (simp_all add: scope_demo_conn_def setIdentity_def new_client_def)
  then show ?thesis by (simp add: BanClient_def insertBan_def performKick_def scope_demo_moved(3) scope_demo_client(1) scope_demo_on Let_def st_users)
qed

theorem ban_is_active_witness:
  "\<exists>w' b. BanClient scope_demo scope_demo_env ''serverquery'' ''a'' 60 [] scope_demo_1 = (True, w') \<and>
     LookupActiveBan False 2 (tc_UniqueID scope_demo_conn) [] (sw_users w') = Inr (Some b)"
proof -
  obtain w' where "BanClient scope_demo scope_demo_env ''serverquery'' ''a'' 60 [] scope_demo_1 = (True, w')" using scope_demo_ban by blast
  from this ban_is_active [OF scope_demo_on(7) scope_demo_moved(3) this, of 2 "[]"] show ?thesis by (simp add: scope_demo_on)
qed


subsection \<open>Joining\<close>

text \<open>C37: A join message moves nobody but its sender, to the channel it names, and only when the sender has accepted the rules, the channel exists, the sender's
  join power reaches what the channel and its parents need, and the channel has no password, the password was right, or the sender may ignore it.\<close>

theorem join_gated:
  assumes "wired d" "ring_ok ring" "ops_ok (scope_step d) scope_op_ok ops (scope_start ring users)"
    "w = run_ops (scope_step d) ops (scope_start ring users)" "scope_env_ok e"
    "handleJoinChannel d e c (Some (chid, password)) w = (r, w')" "a_where (abs (st w')) \<noteq> a_where (abs (st w))"
  shows "a_where (abs (st w')) = (a_where (abs (st w)))(tc_ID c \<mapsto> chid) \<and> \<not> tc_rulesPending c \<and>
    (\<exists>x pc l. GetChannel chid (st w) = Some x \<and> permCheckerFor (perms_of d e w) c (sw_loader w) = (Inr pc, l) \<and>
       joinAllowed pc (EffectiveJoinPower chid (st w)) \<and>
       (ch_PasswordHash x = [] \<or> granted pc ''b_channel_join_ignore_password'' \<or> VerifyPassword (sd_argon d) password (ch_PasswordHash x) = None))"
proof -
  have inv: "srv_inv d w" unfolding assms(4) by (rule scope_run_inv [OF assms(1-3)])
  have st_l: "st (w\<lparr>sw_loader := l\<rparr>) = st w" for l by (simp add: st_def)
  have rf: "st (snd (refuse e c code v)) = st v" for code v by (simp add: refuse_def write_out_def)
  have w': "w' = snd (handleJoinChannel d e c (Some (chid, password)) w)" using assms(6) by simp
  have on: "sd_state d" using assms(1) by (simp add: wired_def)
  show ?thesis
  proof (cases "GetChannel chid (st w)")
    case None
    then have False using assms(7) w' on rf by (auto simp: handleJoinChannel_def split: if_splits)
    then show ?thesis ..
  next
    case (Some x)
    have x: "ch_ChannelID x = chid" using mgr_invD(1) [OF inv_mgr [OF inv]] Some by (simp add: inv_keys_def GetChannel_def)
    obtain res l where pc: "permCheckerFor (perms_of d e w) c (sw_loader w) = (res, l)" by fastforce
    have mv: "a_where (abs (st (snd (moveClient d e (tc_ID c) chid (tc_ID c) (w\<lparr>sw_loader := l\<rparr>))))) =
      (if fst (moveClient d e (tc_ID c) chid (tc_ID c) (w\<lparr>sw_loader := l\<rparr>)) then (a_where (abs (st w)))(tc_ID c \<mapsto> chid) else a_where (abs (st w)))"
      using moveClient_where [of d "w\<lparr>sw_loader := l\<rparr>" e] inv assms(1,5) st_l by simp
    obtain b w1 where m: "moveClient d e (tc_ID c) chid (tc_ID c) (w\<lparr>sw_loader := l\<rparr>) = (b, w1)" by fastforce
    show ?thesis
    proof (cases res)
      case (Inl err)
      with assms(7) w' on Some pc rf st_l have False by (auto simp: handleJoinChannel_def split: if_splits)
      then show ?thesis ..
    next
      case (Inr p)
      with assms(7) w' on Some pc rf st_l x mv m show ?thesis
        by (cases b) (auto simp: handleJoinChannel_def split: if_splits)
    qed
  qed
qed

definition scope_demo_guest :: tcp_client where
  "scope_demo_guest = scope_demo_conn\<lparr>tc_UserID := 0\<rparr>"

lemma scope_demo_join:
  "fst (handleJoinChannel scope_demo scope_demo_env scope_demo_guest (Some (5, [])) scope_demo_0)"
  "a_where (abs (st (snd (handleJoinChannel scope_demo scope_demo_env scope_demo_guest (Some (5, [])) scope_demo_0)))) = (a_where (abs (st scope_demo_0)))(''a'' \<mapsto> 5)"
proof -
  let ?pc = "\<lparr>pc_tp = NewTieredPermissions, pc_admin = False, pc_guest = True\<rparr>"
  have g: "tc_ID scope_demo_guest = ''a''" "tc_UserID scope_demo_guest = 0" "\<not> tc_rulesPending scope_demo_guest"
    by (simp_all add: scope_demo_guest_def scope_demo_conn_def setIdentity_def new_client_def)
  have d: "sd_perms scope_demo" "sd_guestGroup scope_demo = 0" by (simp_all add: scope_demo_def)
  have u: "c_ChannelID scope_demo_user = 0" by (simp add: scope_demo_user_def ex_client_def)
  have pc: "permCheckerFor (perms_of scope_demo scope_demo_env scope_demo_0) scope_demo_guest (sw_loader scope_demo_0) = (Inr ?pc, sw_loader scope_demo_0)"
    by (simp add: permCheckerFor_def perms_of_def g d u client_channel_def GetClient_def scope_demo_parts guest_channel_tier_def guestGroupSet_def scope_demo_on)
  have sp: "ch_ParentID (spec_channel ex_spec None 5 0) = 0" "ch_NeededJoinPower (spec_channel ex_spec None 5 0) = 0"
    "ch_PasswordHash (spec_channel ex_spec None 5 0) = []" "ch_ChannelID (spec_channel ex_spec None 5 0) = 5"
    by (simp_all add: spec_channel_def ex_spec_def coalesce_def)
  have "join_power_loop (Suc n) (channels (st scope_demo_0)) 5 0 = 0" for n by (simp add: scope_demo_parts sp)
  then have "join_power_loop maxChannelDepth (channels (st scope_demo_0)) 5 0 = 0" using maxChannelDepth_def by (metis Suc_numeral numeral_eq_Suc)
  then have j: "EffectiveJoinPower 5 (st scope_demo_0) = 0" by (simp add: EffectiveJoinPower_def scope_demo_parts sp)
  have ja: "joinAllowed ?pc 0"
    by (simp add: joinAllowed_def own_power_def) (simp add: ResolveInt_def Resolve_def tierOrder_def tp_Get_def NewTieredPermissions_def)
  have l: "scope_demo_0\<lparr>sw_loader := sw_loader scope_demo_0\<rparr> = scope_demo_0" by simp
  have "snd (snd (cm_MoveClient ''a'' 5 (sw_cm scope_demo_0))) = None"
    by (simp add: cm_MoveClient_def ClientChannelState_def MoveClient_def scope_demo_parts u Let_def flip: st_def)
  then have m: "fst (moveClient scope_demo scope_demo_env ''a'' 5 ''a'' scope_demo_0)" by (auto simp: moveClient_def scope_demo_on split: prod.splits)
  have e: "handleJoinChannel scope_demo scope_demo_env scope_demo_guest (Some (5, [])) scope_demo_0 = moveClient scope_demo scope_demo_env ''a'' 5 ''a'' scope_demo_0"
    using m by (cases "moveClient scope_demo scope_demo_env ''a'' 5 ''a'' scope_demo_0") (simp add: handleJoinChannel_def scope_demo_on g pc GetChannel_def scope_demo_parts j ja sp l)
  show "fst (handleJoinChannel scope_demo scope_demo_env scope_demo_guest (Some (5, [])) scope_demo_0)"
    "a_where (abs (st (snd (handleJoinChannel scope_demo scope_demo_env scope_demo_guest (Some (5, [])) scope_demo_0)))) = (a_where (abs (st scope_demo_0)))(''a'' \<mapsto> 5)"
    using m moveClient_where [OF scope_demo_inv(1) scope_demo_wired, of "''a''" 5 "''a''"] unfolding e by simp_all
qed

theorem join_gated_witness:
  "a_where (abs (st (snd (handleJoinChannel scope_demo scope_demo_env scope_demo_guest (Some (5, [])) scope_demo_0)))) = (a_where (abs (st scope_demo_0)))(''a'' \<mapsto> 5) \<and>
   (\<exists>x. GetChannel 5 (st scope_demo_0) = Some x)"
proof -
  obtain r w' where h: "handleJoinChannel scope_demo scope_demo_env scope_demo_guest (Some (5, [])) scope_demo_0 = (r, w')" by fastforce
  have n: "a_where (abs (st scope_demo_0)) ''a'' = None" by (simp add: abs_fields scope_demo_parts scope_demo_user_def ex_client_def)
  have "a_where (abs (st w')) ''a'' = Some 5" using scope_demo_join(2) h by simp
  with n have "a_where (abs (st w')) \<noteq> a_where (abs (st scope_demo_0))" by auto
  from join_gated [OF scope_demo_wired(1) keys_demo_ok(2) scope_demo_ops_ok scope_demo_0_def scope_demo_wired(2) h this] scope_demo_join(2)
  show ?thesis by blast
qed

end
