(* ===== verification/Query_Protocol.thy ===== *)
theory Query_Protocol
  imports Noxa_Prelude
begin

text \<open>
  The text encoding of the ServerQuery protocol (\<^verbatim>\<open>internal/query/protocol.go\<close>).  A Go string is
  its bytes, here a list of characters.  \<open>strings.NewReplacer\<close> with one-byte patterns replaces byte
  by byte.
\<close>

definition backslash :: char where "backslash = CHR 0x5C"

definition newline :: char where "newline = CHR 0x0A"

definition return :: char where "return = CHR 0x0D"

definition tab :: char where "tab = CHR 0x09"

definition escape_char :: "char \<Rightarrow> string" where
  "escape_char c =
     (if c = backslash then [backslash, backslash]
      else if c = CHR '' '' then [backslash, CHR ''s'']
      else if c = CHR ''|'' then [backslash, CHR ''p'']
      else if c = CHR ''/'' then [backslash, CHR ''/'']
      else if c = newline then [backslash, CHR ''n'']
      else if c = return then [backslash, CHR ''r'']
      else if c = tab then [backslash, CHR ''t'']
      else [c])"

definition escape :: "string \<Rightarrow> string" where
  "escape s = concat (map escape_char s)"

definition unescape_char :: "char \<Rightarrow> char" where
  "unescape_char c =
     (if c = CHR ''s'' then CHR '' ''
      else if c = CHR ''p'' then CHR ''|''
      else if c = CHR ''n'' then newline
      else if c = CHR ''r'' then return
      else if c = CHR ''t'' then tab
      else c)"

fun unescape :: "string \<Rightarrow> string" where
  "unescape [] = []"
| "unescape [c] = [c]"
| "unescape (c # d # s) =
     (if c \<noteq> backslash then c # unescape (d # s) else unescape_char d # unescape s)"

text \<open>The decimal form \<open>%d\<close> of an integer.\<close>

fun digits :: "nat \<Rightarrow> string" where
  "digits n = (if n < 10 then [char_of (48 + n)] else digits (n div 10) @ [char_of (48 + n mod 10)])"

declare digits.simps [simp del]

definition itoa :: "int \<Rightarrow> string" where
  "itoa i = (if i < 0 then CHR ''-'' # digits (nat (- i)) else digits (nat i))"

definition errorLine :: "int \<Rightarrow> string \<Rightarrow> string" where
  "errorLine i msg = ''error id='' @ itoa i @ '' msg='' @ escape msg @ [newline]"

subsection \<open>Escaping\<close>

lemmas char_defs = backslash_def newline_def return_def tab_def

lemma escape_simps [simp]: "escape [] = []" "escape (c # s) = escape_char c @ escape s"
  by (simp_all add: escape_def)

text \<open>A character that is not a backslash is copied whatever follows it.\<close>

lemma unescape_plain: "c \<noteq> backslash \<Longrightarrow> unescape (c # s) = c # unescape s"
  by (cases s) simp_all

lemma unescape_escape_char: "unescape (escape_char c @ s) = c # unescape s"
  by (simp add: escape_char_def unescape_char_def unescape_plain) (simp add: char_defs)

definition separators :: "char set" where
  "separators = {CHR '' '', CHR ''|'', newline, return, tab}"

lemma escape_char_clean: "set (escape_char c) \<inter> separators = {}"
  by (simp add: escape_char_def separators_def) (simp add: char_defs)

lemma escape_clean: "set (escape s) \<inter> separators = {}"
  using escape_char_clean by (induction s) auto

lemma digit_char:
  fixes n :: nat
  assumes "n < 10"
  shows "char_of (48 + n) \<noteq> newline \<and> char_of (48 + n) \<noteq> CHR '' ''"
proof -
  have "of_char (char_of (48 + n) :: char) = 48 + n" using assms by simp
  moreover have "of_char newline = (10 :: nat)" "of_char CHR '' '' = (32 :: nat)" by (simp_all add: newline_def)
  ultimately show ?thesis by fastforce
qed

lemma digits_clean: "newline \<notin> set (digits n) \<and> CHR '' '' \<notin> set (digits n)"
proof (induction n rule: digits.induct)
  case (1 n)
  show ?case
  proof (cases "n < 10")
    case True
    with digit_char [of n] show ?thesis by (subst (1 2) digits.simps) auto
  next
    case False
    with 1 digit_char [of "n mod 10"] show ?thesis by (subst (1 2) digits.simps) auto
  qed
qed

lemma itoa_clean: "newline \<notin> set (itoa i)" "CHR '' '' \<notin> set (itoa i)"
  using digits_clean by (auto simp: itoa_def char_defs)

text \<open>Escaping is undone by unescaping, for every value, and an escaped value holds no space, pipe,
  line break, carriage return or tab, so it can be neither split nor continued on a new line.\<close>

theorem escape_roundtrip:
  "unescape (escape s) = s \<and> set (escape s) \<inter> separators = {}"
proof
  show "unescape (escape s) = s" by (induction s) (simp_all add: unescape_escape_char)
  show "set (escape s) \<inter> separators = {}" by (rule escape_clean)
qed

text \<open>An error line is exactly one line whatever the message: the only line break is its last byte, and
  the message is recovered from the text between \<open>msg=\<close> and the line break.\<close>

theorem errorLine_single_line:
  "\<exists>body. errorLine i msg = body @ [newline] \<and> newline \<notin> set body \<and>
     unescape (drop (length (''error id='' @ itoa i @ '' msg='')) body) = msg"
proof -
  let ?body = "''error id='' @ itoa i @ '' msg='' @ escape msg"
  have "newline \<notin> set (escape msg)" using escape_clean [of msg] by (auto simp: separators_def)
  then have "newline \<notin> set ?body" using itoa_clean(1) by (auto simp: char_defs)
  moreover have "unescape (escape msg) = msg" by (induction msg) (simp_all add: unescape_escape_char)
  ultimately show ?thesis by (intro exI [of _ ?body]) (simp add: errorLine_def)
qed

end
