(* ===== verification/Event_Bus.thy ===== *)
theory Event_Bus
  imports Noxa_Prelude "HOL-Library.Sublist"
begin

text \<open>
  The publish/subscribe registry for control events (\<^verbatim>\<open>internal/eventbus/bus.go\<close>).

  A subscription is an object that outlives its registration: \<open>bs_objs\<close> holds every subscription
  ever made, \<open>bs_subs\<close> the identifiers that are registered.  A buffered Go channel is a queue with a
  capacity.  Sending on a closed channel panics, so the fan-out records that as \<open>bs_panic\<close>.

  \<open>Publish\<close> holds \<open>publishMu\<close> from its fan-out to its last eviction, but releases the registry lock
  between them.  The interleaving is explicit: the fan-out is one step, each eviction is another, and
  between them consumers may receive or unsubscribe and the bus may close.  The order in which the
  fan-out visits the subscriptions is arbitrary.  Sequence numbers and identifiers count up from
  zero in 64 bits and are natural numbers here.
\<close>

record event =
  ev_Seq :: nat
  ev_Type :: string
  ev_Time :: time
  ev_Data :: string

datatype close_reason = CloseReasonOpen | CloseReasonUnsubscribed | CloseReasonSlowConsumer | CloseReasonBusClosed

record subscription =
  sb_types :: "string fset option"
  sb_cap :: nat
  sb_queue :: "event list"
  sb_drops :: int
  sb_dropped :: nat
  sb_evicting :: bool
  sb_closed :: bool
  sb_reason :: close_reason

record bus =
  bs_Buffer :: int
  bs_MaxDrops :: int
  bs_closed :: bool
  bs_nextID :: nat
  bs_subs :: "nat fset"
  bs_objs :: "(nat, subscription) fmap"
  bs_seq :: nat
  bs_delivered :: nat
  bs_dropped :: nat
  bs_evicted :: nat
  bs_panic :: bool

definition bus_New :: bus where
  "bus_New = \<lparr>bs_Buffer = 256, bs_MaxDrops = 64, bs_closed = False, bs_nextID = 0, bs_subs = {||}, bs_objs = fmempty,
     bs_seq = 0, bs_delivered = 0, bs_dropped = 0, bs_evicted = 0, bs_panic = False\<rparr>"

definition bus_Subscribe :: "string list \<Rightarrow> int \<Rightarrow> bus \<Rightarrow> bus \<times> nat option" where
  "bus_Subscribe types buffer b =
     (if bs_closed b then (b, None)
      else
        let buffer1 = (if buffer \<le> 0 then bs_Buffer b else buffer);
            buffer2 = (if buffer1 < 1 then 1 else buffer1);
            filt = (if types \<noteq> [] then Some (fset_of_list types) else None);
            i = bs_nextID b + 1;
            sub = \<lparr>sb_types = filt, sb_cap = nat buffer2, sb_queue = [], sb_drops = 0, sb_dropped = 0,
              sb_evicting = False, sb_closed = False, sb_reason = CloseReasonOpen\<rparr>
        in (b\<lparr>bs_nextID := i, bs_objs := fmupd i sub (bs_objs b), bs_subs := finsert i (bs_subs b)\<rparr>, Some i))"

definition sub_close :: "close_reason \<Rightarrow> subscription \<Rightarrow> subscription" where
  "sub_close reason s = (if sb_closed s then s else s\<lparr>sb_closed := True, sb_reason := reason\<rparr>)"

definition close_obj :: "close_reason \<Rightarrow> nat \<Rightarrow> (nat, subscription) fmap \<Rightarrow> (nat, subscription) fmap" where
  "close_obj reason i objs =
     (case fmlookup objs i of None \<Rightarrow> objs | Some s \<Rightarrow> fmupd i (sub_close reason s) objs)"

definition bus_Unsubscribe :: "nat \<Rightarrow> bus \<Rightarrow> bus" where
  "bus_Unsubscribe i b =
     (if bs_closed b then b\<lparr>bs_objs := close_obj CloseReasonBusClosed i (bs_objs b)\<rparr>
      else b\<lparr>bs_subs := bs_subs b |-| {|i|}, bs_objs := close_obj CloseReasonUnsubscribed i (bs_objs b)\<rparr>)"

definition sub_wants :: "subscription \<Rightarrow> string \<Rightarrow> bool" where
  "sub_wants s ty = (case sb_types s of None \<Rightarrow> True | Some f \<Rightarrow> ty |\<in>| f)"

datatype fan_result = FSkip | FDelivered | FDropped | FEvict | FPanic

definition fan_sub :: "int \<Rightarrow> event \<Rightarrow> subscription \<Rightarrow> subscription \<times> fan_result" where
  "fan_sub maxDrops e s =
     (if \<not> sub_wants s (ev_Type e) then (s, FSkip)
      else if sb_closed s then (s, FPanic)
      else if length (sb_queue s) < sb_cap s
      then (s\<lparr>sb_queue := sb_queue s @ [e], sb_drops := 0\<rparr>, FDelivered)
      else
        let s1 = s\<lparr>sb_dropped := sb_dropped s + 1, sb_drops := sb_drops s + 1\<rparr>
        in if sb_drops s1 \<ge> maxDrops \<and> \<not> sb_evicting s1 then (s1\<lparr>sb_evicting := True\<rparr>, FEvict)
           else (s1, FDropped))"

definition count_fan :: "fan_result \<Rightarrow> bus \<Rightarrow> bus" where
  "count_fan r b =
     (case r of
        FSkip \<Rightarrow> b
      | FDelivered \<Rightarrow> b\<lparr>bs_delivered := bs_delivered b + 1\<rparr>
      | FDropped \<Rightarrow> b\<lparr>bs_dropped := bs_dropped b + 1\<rparr>
      | FEvict \<Rightarrow> b\<lparr>bs_dropped := bs_dropped b + 1\<rparr>
      | FPanic \<Rightarrow> b\<lparr>bs_panic := True\<rparr>)"

text \<open>The fan-out visits the identifiers in the given order and collects those to evict.\<close>

fun fan_out :: "int \<Rightarrow> event \<Rightarrow> nat list \<Rightarrow> bus \<Rightarrow> bus \<times> nat list" where
  "fan_out maxDrops e [] b = (b, [])"
| "fan_out maxDrops e (i # is) b =
     (case fmlookup (bs_objs b) i of
        None \<Rightarrow> fan_out maxDrops e is b
      | Some s \<Rightarrow>
          let r = fan_sub maxDrops e s;
              (b1, ev) = fan_out maxDrops e is (count_fan (snd r) (b\<lparr>bs_objs := fmupd i (fst r) (bs_objs b)\<rparr>))
          in (b1, if snd r = FEvict then i # ev else ev))"

text \<open>\<open>Publish\<close> up to the release of the registry lock; the second result is the list \<open>evict\<close>.\<close>

definition bus_Publish :: "nat list \<Rightarrow> time \<Rightarrow> string \<Rightarrow> string \<Rightarrow> bus \<Rightarrow> bus \<times> nat list" where
  "bus_Publish ids now eventType data b =
     (if bs_closed b \<or> bs_subs b = {||} then (b\<lparr>bs_seq := bs_seq b + 1\<rparr>, [])
      else
        let b1 = b\<lparr>bs_seq := bs_seq b + 1\<rparr>;
            evt = \<lparr>ev_Seq = bs_seq b1, ev_Type = eventType, ev_Time = now, ev_Data = data\<rparr>;
            maxDrops = (if bs_MaxDrops b < 1 then 1 else bs_MaxDrops b)
        in fan_out maxDrops evt ids b1)"

definition bus_evict :: "nat \<Rightarrow> bus \<Rightarrow> bus" where
  "bus_evict i b =
     (if i |\<in>| bs_subs b
      then b\<lparr>bs_objs := close_obj CloseReasonSlowConsumer i (bs_objs b), bs_subs := bs_subs b |-| {|i|},
             bs_evicted := bs_evicted b + 1\<rparr>
      else b)"

definition bus_Close :: "bus \<Rightarrow> bus" where
  "bus_Close b =
     (if bs_closed b then b
      else b\<lparr>bs_closed := True,
             bs_objs := fmmap_keys (\<lambda>i s. if i |\<in>| bs_subs b then sub_close CloseReasonBusClosed s else s) (bs_objs b),
             bs_subs := {||}\<rparr>)"

record bus_stats =
  st_Subscribers :: nat
  st_Published :: nat
  st_Delivered :: nat
  st_Dropped :: nat
  st_Evicted :: nat

definition bus_Stats :: "bus \<Rightarrow> bus_stats" where
  "bus_Stats b =
     \<lparr>st_Subscribers = fcard (bs_subs b), st_Published = bs_seq b, st_Delivered = bs_delivered b,
      st_Dropped = bs_dropped b, st_Evicted = bs_evicted b\<rparr>"

text \<open>A consumer takes the next event from its channel, also after the channel was closed.\<close>

definition sub_receive :: "nat \<Rightarrow> bus \<Rightarrow> bus \<times> event option" where
  "sub_receive i b =
     (case fmlookup (bs_objs b) i of
        None \<Rightarrow> (b, None)
      | Some s \<Rightarrow>
          (case sb_queue s of
             [] \<Rightarrow> (b, None)
           | e # q \<Rightarrow> (b\<lparr>bs_objs := fmupd i (s\<lparr>sb_queue := q\<rparr>) (bs_objs b)\<rparr>, Some e)))"

subsection \<open>Interleavings\<close>

text \<open>
  The system: the bus, the evictions the running \<open>Publish\<close> still has to do, and two histories, the
  events each consumer received and the events that were fanned out to it.
\<close>

record bsys =
  bz_bus :: bus
  bz_pend :: "nat list"
  bz_got :: "nat \<Rightarrow> event list"
  bz_off :: "nat \<Rightarrow> event list"

definition bsys_start :: "int \<Rightarrow> int \<Rightarrow> bsys" where
  "bsys_start buffer maxDrops =
     \<lparr>bz_bus = bus_New\<lparr>bs_Buffer := buffer, bs_MaxDrops := maxDrops\<rparr>, bz_pend = [], bz_got = (\<lambda>_. []), bz_off = (\<lambda>_. [])\<rparr>"

text \<open>What the fan-out of an event offers: to each registered subscription that wants it.\<close>

definition offer :: "event \<Rightarrow> bus \<Rightarrow> (nat \<Rightarrow> event list) \<Rightarrow> nat \<Rightarrow> event list" where
  "offer e b off i =
     (if i |\<in>| bs_subs b \<and> (case fmlookup (bs_objs b) i of None \<Rightarrow> False | Some s \<Rightarrow> sub_wants s (ev_Type e))
      then off i @ [e] else off i)"

inductive bus_step :: "bsys \<Rightarrow> bsys \<Rightarrow> bool" where
  step_subscribe: "bus_step y (y\<lparr>bz_bus := fst (bus_Subscribe types buffer (bz_bus y))\<rparr>)"
| step_unsubscribe: "bus_step y (y\<lparr>bz_bus := bus_Unsubscribe i (bz_bus y)\<rparr>)"
| step_publish:
    "bz_pend y = [] \<Longrightarrow> distinct ids \<Longrightarrow> set ids = fset (bs_subs (bz_bus y)) \<Longrightarrow>
     bus_Publish ids now ty data (bz_bus y) = (b1, ev) \<Longrightarrow>
     bus_step y (y\<lparr>bz_bus := b1, bz_pend := ev,
       bz_off := offer \<lparr>ev_Seq = bs_seq b1, ev_Type = ty, ev_Time = now, ev_Data = data\<rparr> (bz_bus y) (bz_off y)\<rparr>)"
| step_evict: "bz_pend y = i # is \<Longrightarrow> bus_step y (y\<lparr>bz_bus := bus_evict i (bz_bus y), bz_pend := is\<rparr>)"
| step_receive:
    "sub_receive i (bz_bus y) = (b1, Some e) \<Longrightarrow>
     bus_step y (y\<lparr>bz_bus := b1, bz_got := (bz_got y)(i := bz_got y i @ [e])\<rparr>)"
| step_close: "bus_step y (y\<lparr>bz_bus := bus_Close (bz_bus y)\<rparr>)"

inductive_cases bus_stepE: "bus_step y z"

inductive bus_reach :: "bsys \<Rightarrow> bsys \<Rightarrow> bool" for y0 where
  reach_start: "bus_reach y0 y0"
| reach_step: "bus_reach y0 y \<Longrightarrow> bus_step y z \<Longrightarrow> bus_reach y0 z"

subsection \<open>The fan-out\<close>

lemma count_fan_frame [simp]:
  "bs_objs (count_fan r b) = bs_objs b" "bs_subs (count_fan r b) = bs_subs b" "bs_seq (count_fan r b) = bs_seq b"
  "bs_closed (count_fan r b) = bs_closed b" "bs_nextID (count_fan r b) = bs_nextID b" "bs_evicted (count_fan r b) = bs_evicted b"
  "bs_MaxDrops (count_fan r b) = bs_MaxDrops b" "bs_Buffer (count_fan r b) = bs_Buffer b"
  "bs_panic (count_fan r b) = (bs_panic b \<or> r = FPanic)"
  by (cases r; simp add: count_fan_def)+

lemma fan_out_frame:
  assumes "fan_out md e ids b = (b1, ev)"
  shows "bs_subs b1 = bs_subs b \<and> bs_seq b1 = bs_seq b \<and> bs_closed b1 = bs_closed b \<and> bs_nextID b1 = bs_nextID b \<and>
    bs_evicted b1 = bs_evicted b \<and> bs_MaxDrops b1 = bs_MaxDrops b \<and> bs_Buffer b1 = bs_Buffer b"
  using assms
proof (induction ids arbitrary: b b1 ev)
  case Nil
  then show ?case by simp
next
  case (Cons i js)
  show ?case
  proof (cases "fmlookup (bs_objs b) i")
    case None
    with Cons.prems Cons.IH [of b b1 ev] show ?thesis by simp
  next
    case (Some s)
    obtain b2 ev2 where f: "fan_out md e js (count_fan (snd (fan_sub md e s)) (b\<lparr>bs_objs := fmupd i (fst (fan_sub md e s)) (bs_objs b)\<rparr>)) = (b2, ev2)"
      by fastforce
    from Cons.IH [OF f] Cons.prems Some f show ?thesis by (simp add: Let_def)
  qed
qed

text \<open>Each subscription is treated by itself, whatever the order and the other subscriptions.\<close>

lemma fan_out_objs:
  assumes "fan_out md e ids b = (b1, ev)" "distinct ids" "\<And>i. i \<in> set ids \<Longrightarrow> fmlookup (bs_objs b) i \<noteq> None"
  shows "fmlookup (bs_objs b1) j =
      (if j \<in> set ids then map_option (\<lambda>s. fst (fan_sub md e s)) (fmlookup (bs_objs b) j) else fmlookup (bs_objs b) j) \<and>
    (j \<in> set ev \<longleftrightarrow> j \<in> set ids \<and> snd (fan_sub md e (the (fmlookup (bs_objs b) j))) = FEvict) \<and>
    (bs_panic b1 \<longleftrightarrow> bs_panic b \<or> (\<exists>i \<in> set ids. snd (fan_sub md e (the (fmlookup (bs_objs b) i))) = FPanic))"
  using assms
proof (induction ids arbitrary: b b1 ev)
  case Nil
  then show ?case by simp
next
  case (Cons i js)
  from Cons.prems(3) [of i] obtain s where s: "fmlookup (bs_objs b) i = Some s" by auto
  let ?r = "fan_sub md e s"
  let ?b = "count_fan (snd ?r) (b\<lparr>bs_objs := fmupd i (fst ?r) (bs_objs b)\<rparr>)"
  obtain ev2 where f: "fan_out md e js ?b = (b1, ev2)" "ev = (if snd ?r = FEvict then i # ev2 else ev2)"
    using Cons.prems(1) s by (auto simp: Let_def split: prod.splits)
  have i: "i \<notin> set js" "distinct js" using Cons.prems(2) by simp_all
  have same: "x \<in> set js \<Longrightarrow> fmlookup (bs_objs ?b) x = fmlookup (bs_objs b) x" for x using i by auto
  have pres: "fmlookup (bs_objs ?b) x \<noteq> None" if "x \<in> set js" for x using same [OF that] Cons.prems(3) [of x] that by simp
  note IH = Cons.IH [OF f(1) i(2) pres]
  have pan: "(\<exists>x \<in> set js. snd (fan_sub md e (the (fmlookup (bs_objs ?b) x))) = FPanic) \<longleftrightarrow>
      (\<exists>x \<in> set js. snd (fan_sub md e (the (fmlookup (bs_objs b) x))) = FPanic)"
    using same by (intro bex_cong) auto
  have "fmlookup (bs_objs b1) j = (if j \<in> set (i # js) then map_option (\<lambda>s. fst (fan_sub md e s)) (fmlookup (bs_objs b) j) else fmlookup (bs_objs b) j)"
    using IH i(1) s same [of j] by (cases "j = i") auto
  moreover have "j \<in> set ev \<longleftrightarrow> j \<in> set (i # js) \<and> snd (fan_sub md e (the (fmlookup (bs_objs b) j))) = FEvict"
    using IH i(1) s same [of j] f(2) by (cases "j = i") auto
  moreover have "bs_panic b1 \<longleftrightarrow> bs_panic b \<or> (\<exists>x \<in> set (i # js). snd (fan_sub md e (the (fmlookup (bs_objs b) x))) = FPanic)"
    using IH pan s by auto
  ultimately show ?case by blast
qed

subsection \<open>The invariant\<close>

definition max_drops :: "bus \<Rightarrow> int" where
  "max_drops b = (if bs_MaxDrops b < 1 then 1 else bs_MaxDrops b)"

text \<open>
  One subscription: its queue is within its capacity; received and queued events are a
  subsequence of what it was offered, the rest being counted as dropped; what it was offered it
  wants, in strictly increasing sequence order.
\<close>

definition stream_ok :: "nat \<Rightarrow> event list \<Rightarrow> event list \<Rightarrow> subscription \<Rightarrow> bool" where
  "stream_ok seq got off s \<longleftrightarrow>
     length (sb_queue s) \<le> sb_cap s \<and> 0 < sb_cap s \<and>
     subseq (got @ sb_queue s) off \<and> length off = length (got @ sb_queue s) + sb_dropped s \<and>
     sorted_wrt (<) (map ev_Seq off) \<and> (\<forall>e \<in> set off. ev_Seq e \<le> seq \<and> sub_wants s (ev_Type e))"

definition slot_ok :: "bus \<Rightarrow> nat list \<Rightarrow> nat \<Rightarrow> subscription \<Rightarrow> bool" where
  "slot_ok b pend i s \<longleftrightarrow>
     (i |\<in>| bs_subs b \<longleftrightarrow> \<not> sb_closed s) \<and> (sb_closed s \<longleftrightarrow> sb_reason s \<noteq> CloseReasonOpen) \<and> 0 \<le> sb_drops s \<and>
     (i |\<in>| bs_subs b \<longrightarrow> i \<notin> set pend \<longrightarrow> \<not> sb_evicting s \<and> sb_drops s < max_drops b)"

definition bus_inv :: "bsys \<Rightarrow> bool" where
  "bus_inv y \<longleftrightarrow>
     (\<forall>i s. fmlookup (bs_objs (bz_bus y)) i = Some s \<longrightarrow>
        i \<le> bs_nextID (bz_bus y) \<and> slot_ok (bz_bus y) (bz_pend y) i s \<and>
        stream_ok (bs_seq (bz_bus y)) (bz_got y i) (bz_off y i) s) \<and>
     (\<forall>i. fmlookup (bs_objs (bz_bus y)) i = None \<longrightarrow> i |\<notin>| bs_subs (bz_bus y) \<and> bz_got y i = [] \<and> bz_off y i = []) \<and>
     (bs_closed (bz_bus y) \<longrightarrow> bs_subs (bz_bus y) = {||}) \<and> \<not> bs_panic (bz_bus y)"

lemma bus_invD:
  assumes "bus_inv y"
  shows "fmlookup (bs_objs (bz_bus y)) i = Some s \<Longrightarrow> slot_ok (bz_bus y) (bz_pend y) i s"
    "fmlookup (bs_objs (bz_bus y)) i = Some s \<Longrightarrow> stream_ok (bs_seq (bz_bus y)) (bz_got y i) (bz_off y i) s"
    "fmlookup (bs_objs (bz_bus y)) i = Some s \<Longrightarrow> i \<le> bs_nextID (bz_bus y)"
    "fmlookup (bs_objs (bz_bus y)) i = None \<Longrightarrow> i |\<notin>| bs_subs (bz_bus y) \<and> bz_got y i = [] \<and> bz_off y i = []"
    "bs_closed (bz_bus y) \<Longrightarrow> bs_subs (bz_bus y) = {||}" "\<not> bs_panic (bz_bus y)"
  using assms unfolding bus_inv_def by blast+

lemma bus_invI:
  assumes "\<And>i s. fmlookup (bs_objs (bz_bus y)) i = Some s \<Longrightarrow> i \<le> bs_nextID (bz_bus y)"
    "\<And>i s. fmlookup (bs_objs (bz_bus y)) i = Some s \<Longrightarrow> slot_ok (bz_bus y) (bz_pend y) i s"
    "\<And>i s. fmlookup (bs_objs (bz_bus y)) i = Some s \<Longrightarrow> stream_ok (bs_seq (bz_bus y)) (bz_got y i) (bz_off y i) s"
    "\<And>i. fmlookup (bs_objs (bz_bus y)) i = None \<Longrightarrow> i |\<notin>| bs_subs (bz_bus y) \<and> bz_got y i = [] \<and> bz_off y i = []"
    "bs_closed (bz_bus y) \<Longrightarrow> bs_subs (bz_bus y) = {||}" "\<not> bs_panic (bz_bus y)"
  shows "bus_inv y"
  using assms unfolding bus_inv_def by blast

lemma bsys_start_inv: "bus_inv (bsys_start buffer maxDrops)"
  by (simp add: bus_inv_def bsys_start_def bus_New_def)

lemma close_obj_lookup:
  "fmlookup (close_obj r i objs) j = (if j = i then map_option (sub_close r) (fmlookup objs i) else fmlookup objs j)"
  by (auto simp: close_obj_def split: option.splits)

lemma stream_close [simp]: "stream_ok seq got off (sub_close r s) = stream_ok seq got off s"
  by (simp add: stream_ok_def sub_close_def sub_wants_def)

lemma subscribe_inv:
  assumes inv: "bus_inv y"
  shows "bus_inv (y\<lparr>bz_bus := fst (bus_Subscribe types buffer (bz_bus y))\<rparr>)"
proof (cases "bs_closed (bz_bus y)")
  case True
  with inv show ?thesis by (simp add: bus_Subscribe_def)
next
  case False
  let ?b = "bz_bus y" and ?i = "bs_nextID (bz_bus y) + 1"
  have new: "fmlookup (bs_objs ?b) ?i = None" using bus_invD(3) [OF inv, of ?i] by (cases "fmlookup (bs_objs ?b) ?i") auto
  note old = bus_invD [OF inv]
  obtain sub where b': "fst (bus_Subscribe types buffer ?b) =
      ?b\<lparr>bs_nextID := ?i, bs_objs := fmupd ?i sub (bs_objs ?b), bs_subs := finsert ?i (bs_subs ?b)\<rparr>"
    and sub: "sb_queue sub = []" "sb_drops sub = 0" "sb_dropped sub = 0" "\<not> sb_evicting sub" "\<not> sb_closed sub"
      "sb_reason sub = CloseReasonOpen" "0 < sb_cap sub"
    using False by (auto simp: bus_Subscribe_def Let_def)
  let ?y = "y\<lparr>bz_bus := fst (bus_Subscribe types buffer ?b)\<rparr>"
  show ?thesis
  proof (rule bus_invI)
    fix i s assume s: "fmlookup (bs_objs (bz_bus ?y)) i = Some s"
    show "i \<le> bs_nextID (bz_bus ?y)" using s old(3) [of i s] by (auto simp: b' split: if_splits)
    show "slot_ok (bz_bus ?y) (bz_pend ?y) i s"
      using s old(1) [of i s] sub by (auto simp: b' slot_ok_def max_drops_def split: if_splits)
    show "stream_ok (bs_seq (bz_bus ?y)) (bz_got ?y i) (bz_off ?y i) s"
    proof (cases "i = ?i")
      case True
      with s old(4) [OF new] sub show ?thesis by (simp add: b' stream_ok_def)
    next
      case False
      with s old(2) [of i s] show ?thesis by (simp add: b')
    qed
  next
    fix i assume "fmlookup (bs_objs (bz_bus ?y)) i = None"
    then show "i |\<notin>| bs_subs (bz_bus ?y) \<and> bz_got ?y i = [] \<and> bz_off ?y i = []"
      using old(4) [of i] by (simp add: b' split: if_splits)
  qed (use False old(6) in \<open>simp_all add: b'\<close>)
qed

text \<open>Closing some subscriptions and taking them out of the registry keeps the invariant.\<close>

lemma deregister_inv:
  assumes inv: "bus_inv y" and r: "r \<noteq> CloseReasonOpen"
    and objs: "\<And>i. fmlookup (bs_objs (bz_bus z)) i = map_option (\<lambda>s. if i \<in> D then sub_close r s else s) (fmlookup (bs_objs (bz_bus y)) i)"
    and subs: "fset (bs_subs (bz_bus z)) = fset (bs_subs (bz_bus y)) - D"
    and same: "bs_seq (bz_bus z) = bs_seq (bz_bus y)" "bs_nextID (bz_bus z) = bs_nextID (bz_bus y)"
      "bs_MaxDrops (bz_bus z) = bs_MaxDrops (bz_bus y)" "bs_panic (bz_bus z) = bs_panic (bz_bus y)"
      "bz_got z = bz_got y" "bz_off z = bz_off y"
    and pend: "\<And>j. j \<in> set (bz_pend y) \<Longrightarrow> j |\<in>| bs_subs (bz_bus z) \<Longrightarrow> j \<in> set (bz_pend z)"
    and cl: "bs_closed (bz_bus z) \<Longrightarrow> bs_subs (bz_bus z) = {||}"
  shows "bus_inv z"
proof (rule bus_invI)
  fix i s assume s: "fmlookup (bs_objs (bz_bus z)) i = Some s"
  then obtain s0 where s0: "fmlookup (bs_objs (bz_bus y)) i = Some s0" "s = (if i \<in> D then sub_close r s0 else s0)"
    using objs [of i] by auto
  note old = bus_invD(1-3) [OF inv s0(1)]
  have mem: "i |\<in>| bs_subs (bz_bus z) \<longleftrightarrow> i |\<in>| bs_subs (bz_bus y) \<and> i \<notin> D" using subs by auto
  show "i \<le> bs_nextID (bz_bus z)" using old(3) same by simp
  show "stream_ok (bs_seq (bz_bus z)) (bz_got z i) (bz_off z i) s" using old(2) same s0(2) by auto
  have md: "max_drops (bz_bus z) = max_drops (bz_bus y)" using same(3) by (simp add: max_drops_def)
  show "slot_ok (bz_bus z) (bz_pend z) i s"
  proof (cases "i \<in> D")
    case True
    then show ?thesis using old(1) r s0(2) mem by (auto simp: slot_ok_def sub_close_def)
  next
    case False
    then show ?thesis using old(1) s0(2) mem md pend [of i] by (auto simp: slot_ok_def)
  qed
next
  fix i assume "fmlookup (bs_objs (bz_bus z)) i = None"
  then have "fmlookup (bs_objs (bz_bus y)) i = None" using objs [of i] by simp
  from bus_invD(4) [OF inv this] subs same show "i |\<notin>| bs_subs (bz_bus z) \<and> bz_got z i = [] \<and> bz_off z i = []" by auto
qed (use cl same(4) bus_invD(6) [OF inv] in simp_all)

lemma unsubscribe_inv:
  assumes "bus_inv y"
  shows "bus_inv (y\<lparr>bz_bus := bus_Unsubscribe i (bz_bus y)\<rparr>)"
proof (rule deregister_inv [OF assms, of "if bs_closed (bz_bus y) then CloseReasonBusClosed else CloseReasonUnsubscribed" _ "{i}"])
  show "fset (bs_subs (bz_bus (y\<lparr>bz_bus := bus_Unsubscribe i (bz_bus y)\<rparr>))) = fset (bs_subs (bz_bus y)) - {i}"
    using bus_invD(5) [OF assms] by (auto simp: bus_Unsubscribe_def)
  show "fmlookup (bs_objs (bz_bus (y\<lparr>bz_bus := bus_Unsubscribe i (bz_bus y)\<rparr>))) j =
      map_option (\<lambda>s. if j \<in> {i} then sub_close (if bs_closed (bz_bus y) then CloseReasonBusClosed else CloseReasonUnsubscribed) s else s)
        (fmlookup (bs_objs (bz_bus y)) j)" for j
    by (cases "fmlookup (bs_objs (bz_bus y)) j") (auto simp: bus_Unsubscribe_def close_obj_lookup)
qed (use bus_invD(5) [OF assms] in \<open>auto simp: bus_Unsubscribe_def\<close>)

lemma evict_inv:
  assumes "bus_inv y" "bz_pend y = i # js"
  shows "bus_inv (y\<lparr>bz_bus := bus_evict i (bz_bus y), bz_pend := js\<rparr>)"
proof (rule deregister_inv [OF assms(1), of CloseReasonSlowConsumer _ "{i} \<inter> fset (bs_subs (bz_bus y))"])
  let ?z = "y\<lparr>bz_bus := bus_evict i (bz_bus y), bz_pend := js\<rparr>"
  show "fmlookup (bs_objs (bz_bus ?z)) j =
      map_option (\<lambda>s. if j \<in> {i} \<inter> fset (bs_subs (bz_bus y)) then sub_close CloseReasonSlowConsumer s else s)
        (fmlookup (bs_objs (bz_bus y)) j)" for j
    by (cases "fmlookup (bs_objs (bz_bus y)) j") (auto simp: bus_evict_def close_obj_lookup)
  show "j \<in> set (bz_pend ?z)" if "j \<in> set (bz_pend y)" "j |\<in>| bs_subs (bz_bus ?z)" for j
    using that assms(2) by (auto simp: bus_evict_def split: if_splits)
qed (use bus_invD(5) [OF assms(1)] in \<open>auto simp: bus_evict_def\<close>)

lemma close_inv:
  assumes "bus_inv y"
  shows "bus_inv (y\<lparr>bz_bus := bus_Close (bz_bus y)\<rparr>)"
proof (rule deregister_inv [OF assms, of CloseReasonBusClosed _ "fset (bs_subs (bz_bus y))"])
  show "fmlookup (bs_objs (bz_bus (y\<lparr>bz_bus := bus_Close (bz_bus y)\<rparr>))) j =
      map_option (\<lambda>s. if j \<in> fset (bs_subs (bz_bus y)) then sub_close CloseReasonBusClosed s else s)
        (fmlookup (bs_objs (bz_bus y)) j)" for j
    using bus_invD(5) [OF assms] by (cases "fmlookup (bs_objs (bz_bus y)) j") (auto simp: bus_Close_def)
qed (use bus_invD(5) [OF assms] in \<open>auto simp: bus_Close_def\<close>)

lemma receive_inv:
  assumes inv: "bus_inv y" and rc: "sub_receive i (bz_bus y) = (b1, Some e)"
  shows "bus_inv (y\<lparr>bz_bus := b1, bz_got := (bz_got y)(i := bz_got y i @ [e])\<rparr>)"
proof -
  obtain s q where s: "fmlookup (bs_objs (bz_bus y)) i = Some s" "sb_queue s = e # q"
    "b1 = (bz_bus y)\<lparr>bs_objs := fmupd i (s\<lparr>sb_queue := q\<rparr>) (bs_objs (bz_bus y))\<rparr>"
    using rc by (auto simp: sub_receive_def split: option.splits list.splits)
  note old = bus_invD [OF inv]
  let ?s = "s\<lparr>sb_queue := q\<rparr>"
  define z where "z = y\<lparr>bz_bus := b1, bz_got := (bz_got y)(i := bz_got y i @ [e])\<rparr>"
  have z: "fmlookup (bs_objs (bz_bus z)) j = (if j = i then Some ?s else fmlookup (bs_objs (bz_bus y)) j)"
    "bs_nextID (bz_bus z) = bs_nextID (bz_bus y)" "bs_seq (bz_bus z) = bs_seq (bz_bus y)" "bs_subs (bz_bus z) = bs_subs (bz_bus y)"
    "bs_closed (bz_bus z) = bs_closed (bz_bus y)" "bs_panic (bz_bus z) = bs_panic (bz_bus y)"
    "bz_pend z = bz_pend y" "bz_off z = bz_off y" "bz_got z j = (if j = i then bz_got y i @ [e] else bz_got y j)"
    "max_drops (bz_bus z) = max_drops (bz_bus y)" for j
    by (simp_all add: z_def s(3) max_drops_def)
  have slot: "slot_ok (bz_bus z) pend j x = slot_ok (bz_bus y) pend j x" for j x pend
    by (simp add: slot_ok_def z)
  have "slot_ok (bz_bus y) (bz_pend y) i ?s" using old(1) [OF s(1)] by (simp add: slot_ok_def)
  moreover have "stream_ok (bs_seq (bz_bus y)) (bz_got y i @ [e]) (bz_off y i) ?s"
    using old(2) [OF s(1)] s(2) by (simp add: stream_ok_def sub_wants_def)
  ultimately have "bus_inv z" using old s(1)
    by (intro bus_invI) (auto simp: z slot split: if_splits)
  then show ?thesis by (simp add: z_def)
qed

lemma stream_seq_mono: "stream_ok n got off s \<Longrightarrow> n \<le> m \<Longrightarrow> stream_ok m got off s"
  by (auto simp: stream_ok_def)

text \<open>An event with the next sequence number offered to an open subscription.\<close>

lemma fan_sub_stream:
  assumes st: "stream_ok n got off s" and op: "\<not> sb_closed s" and e: "ev_Seq e = n + 1"
  shows "stream_ok (n + 1) got (if sub_wants s (ev_Type e) then off @ [e] else off) (fst (fan_sub md e s))"
proof (cases "sub_wants s (ev_Type e)")
  case False
  then show ?thesis using stream_seq_mono [OF st] by (simp add: fan_sub_def)
next
  case w: True
  have lt: "x \<in> set off \<Longrightarrow> ev_Seq x < ev_Seq e" for x using st e by (auto simp: stream_ok_def)
  have srt: "sorted_wrt (<) (map ev_Seq (off @ [e]))" using st lt by (auto simp: stream_ok_def sorted_wrt_append)
  have all: "\<forall>x \<in> set (off @ [e]). ev_Seq x \<le> n + 1 \<and> sub_wants s (ev_Type x)" using st w e by (auto simp: stream_ok_def)
  have sub: "subseq (got @ sb_queue s) off" "length off = length (got @ sb_queue s) + sb_dropped s"
    "length (sb_queue s) \<le> sb_cap s" "0 < sb_cap s" using st by (simp_all add: stream_ok_def)
  show ?thesis
  proof (cases "length (sb_queue s) < sb_cap s")
    case True
    have "subseq ((got @ sb_queue s) @ [e]) (off @ [e])" using sub(1) by (rule subseq_append [THEN iffD2])
    then show ?thesis using True w op srt all sub by (simp add: fan_sub_def stream_ok_def sub_wants_def)
  next
    case False
    have "subseq (got @ sb_queue s) (off @ [e])" using sub(1) by (rule subseq_order.order_trans) (simp add: prefix_imp_subseq)
    then show ?thesis using False w op srt all sub by (auto simp: fan_sub_def stream_ok_def sub_wants_def Let_def)
  qed
qed

lemma fan_sub_slot:
  assumes "\<not> sb_closed s" "sb_reason s = CloseReasonOpen" "0 \<le> sb_drops s" "\<not> sb_evicting s" "sb_drops s < md" "0 < md"
  shows "\<not> sb_closed (fst (fan_sub md e s))" "sb_reason (fst (fan_sub md e s)) = CloseReasonOpen"
    "0 \<le> sb_drops (fst (fan_sub md e s))" "snd (fan_sub md e s) \<noteq> FPanic"
    "snd (fan_sub md e s) \<noteq> FEvict \<Longrightarrow> \<not> sb_evicting (fst (fan_sub md e s)) \<and> sb_drops (fst (fan_sub md e s)) < md"
  using assms by (auto simp: fan_sub_def Let_def split: if_splits)

lemma publish_inv:
  assumes inv: "bus_inv y" and p0: "bz_pend y = []" and ids: "distinct ids" "set ids = fset (bs_subs (bz_bus y))"
    and pub: "bus_Publish ids now ty data (bz_bus y) = (b1, ev)"
  defines "e \<equiv> \<lparr>ev_Seq = bs_seq b1, ev_Type = ty, ev_Time = now, ev_Data = data\<rparr>"
  shows "bus_inv (y\<lparr>bz_bus := b1, bz_pend := ev, bz_off := offer e (bz_bus y) (bz_off y)\<rparr>)"
proof (cases "bs_closed (bz_bus y) \<or> bs_subs (bz_bus y) = {||}")
  case True
  then have em: "bs_subs (bz_bus y) = {||}" using bus_invD(5) [OF inv] by auto
  have off: "offer e (bz_bus y) (bz_off y) = bz_off y" by (rule ext) (simp add: offer_def em)
  have b1: "b1 = (bz_bus y)\<lparr>bs_seq := bs_seq (bz_bus y) + 1\<rparr>" "ev = []" using pub True by (simp_all add: bus_Publish_def)
  have slot: "slot_ok b1 pend j x = slot_ok (bz_bus y) pend j x" for j x pend by (simp add: slot_ok_def max_drops_def b1)
  note old = bus_invD [OF inv]
  show ?thesis unfolding off b1(2)
    by (rule bus_invI)
      (use old p0 in \<open>simp_all add: slot, simp_all add: b1(1) stream_seq_mono [of "bs_seq (bz_bus y)"]\<close>)
next
  case False
  let ?b = "(bz_bus y)\<lparr>bs_seq := bs_seq (bz_bus y) + 1\<rparr>" and ?md = "max_drops (bz_bus y)"
  note old = bus_invD [OF inv]
  have ev_seq: "bs_seq b1 = bs_seq (bz_bus y) + 1"
    using pub False fan_out_frame [of _ _ ids ?b b1 ev] by (auto simp: bus_Publish_def Let_def)
  have es: "ev_Seq e = bs_seq (bz_bus y) + 1" by (simp add: e_def ev_seq)
  have fo: "fan_out ?md e ids ?b = (b1, ev)"
    using pub False ev_seq by (simp add: bus_Publish_def Let_def max_drops_def e_def)
  have pres: "fmlookup (bs_objs ?b) i \<noteq> None" if "i \<in> set ids" for i using that ids(2) old(4) [of i] by auto
  note fr = fan_out_frame [OF fo] and ob = fan_out_objs [OF fo ids(1) pres]
  have md: "max_drops b1 = ?md" "0 < ?md" using fr by (simp_all add: max_drops_def)
  define z where "z = y\<lparr>bz_bus := b1, bz_pend := ev, bz_off := offer e (bz_bus y) (bz_off y)\<rparr>"
  have open_sub: "\<not> sb_closed s \<and> sb_reason s = CloseReasonOpen \<and> 0 \<le> sb_drops s \<and> \<not> sb_evicting s \<and> sb_drops s < ?md"
    if "i \<in> set ids" "fmlookup (bs_objs (bz_bus y)) i = Some s" for i s
    using old(1) [OF that(2)] that(1) ids(2) p0 by (auto simp: slot_ok_def)
  have one: "i \<le> bs_nextID b1 \<and> slot_ok b1 ev i s \<and> stream_ok (bs_seq b1) (bz_got y i) (offer e (bz_bus y) (bz_off y) i) s"
    if lk: "fmlookup (bs_objs b1) i = Some s" for i s
  proof (cases "i \<in> set ids")
    case True
    then obtain s0 where s0: "fmlookup (bs_objs (bz_bus y)) i = Some s0" "s = fst (fan_sub ?md e s0)"
      using lk ob [of i] by auto
    note o = open_sub [OF True s0(1)]
    note sl = fan_sub_slot [of s0 ?md e, OF _ _ _ _ _ md(2)]
    have reg: "i |\<in>| bs_subs (bz_bus y)" using True ids(2) by simp
    have "stream_ok (bs_seq b1) (bz_got y i) (offer e (bz_bus y) (bz_off y) i) s"
      using fan_sub_stream [OF old(2) [OF s0(1)] _ es, of ?md] o s0 ev_seq reg by (simp add: offer_def)
    moreover have "slot_ok b1 ev i s"
      using sl o ob [of i] True s0 reg fr md(1) by (auto simp: slot_ok_def)
    ultimately show ?thesis using old(3) [OF s0(1)] fr by simp
  next
    case False
    then have s0: "fmlookup (bs_objs (bz_bus y)) i = Some s" using lk ob [of i] by simp
    have nreg: "i |\<notin>| bs_subs (bz_bus y)" using False ids(2) by simp
    then have "slot_ok b1 ev i s" using old(1) [OF s0] fr by (auto simp: slot_ok_def)
    then show ?thesis using old(2,3) [OF s0] fr nreg ev_seq by (auto simp: offer_def intro: stream_seq_mono)
  qed
  have "bus_inv z"
  proof (rule bus_invI)
    fix i assume "fmlookup (bs_objs (bz_bus z)) i = None"
    then have "fmlookup (bs_objs (bz_bus y)) i = None" using ob [of i] by (auto simp: z_def split: if_splits)
    with old(4) [OF this] fr show "i |\<notin>| bs_subs (bz_bus z) \<and> bz_got z i = [] \<and> bz_off z i = []"
      by (simp add: z_def offer_def)
  next
    show "\<not> bs_panic (bz_bus z)"
      using ob old(6) open_sub pres fan_sub_slot(4) [OF _ _ _ _ _ md(2)] by (fastforce simp: z_def)
  qed (use one fr old(5) False in \<open>auto simp: z_def\<close>)
  then show ?thesis by (simp add: z_def)
qed

lemma bus_step_inv: "bus_inv y \<Longrightarrow> bus_step y z \<Longrightarrow> bus_inv z"
  by (erule bus_stepE) (simp_all add: subscribe_inv unsubscribe_inv publish_inv evict_inv receive_inv close_inv)

lemma bus_reach_inv: "bus_reach (bsys_start buffer maxDrops) y \<Longrightarrow> bus_inv y"
  by (induction rule: bus_reach.induct) (auto intro: bsys_start_inv bus_step_inv)

lemma subseq_sorted_seq:
  "subseq xs ys \<Longrightarrow> sorted_wrt (<) (map ev_Seq ys) \<Longrightarrow> sorted_wrt (<) (map ev_Seq xs)"
proof (induction rule: list_emb.induct)
  case (list_emb_Cons2 x y xs ys)
  then show ?case using list_emb_set [of "(=)" xs ys] by auto
qed auto

text \<open>A closed subscription is only drained.\<close>

lemma closed_step:
  assumes inv: "bus_inv y" and st: "bus_step y z" and s: "fmlookup (bs_objs (bz_bus y)) i = Some s" "sb_closed s"
  shows "\<exists>s'. fmlookup (bs_objs (bz_bus z)) i = Some s' \<and> sb_closed s' \<and> sb_reason s' = sb_reason s \<and> suffix (sb_queue s') (sb_queue s)"
  using st
proof (cases rule: bus_step.cases)
  case (step_subscribe types buffer)
  have "i \<noteq> bs_nextID (bz_bus y) + 1" using bus_invD(3) [OF inv s(1)] by simp
  with s step_subscribe show ?thesis by (simp add: bus_Subscribe_def Let_def)
next
  case (step_unsubscribe j)
  with s show ?thesis by (auto simp: bus_Unsubscribe_def close_obj_lookup sub_close_def)
next
  case (step_publish ids now ty data b1 ev)
  have ni: "i \<notin> set ids" using bus_invD(1) [OF inv s(1)] s(2) step_publish(4) by (simp add: slot_ok_def)
  have pres: "fmlookup (bs_objs (bz_bus y)) j \<noteq> None" if "j \<in> set ids" for j
    using that step_publish(4) bus_invD(4) [OF inv, of j] by auto
  have "fmlookup (bs_objs b1) i = Some s"
  proof (cases "bs_closed (bz_bus y) \<or> bs_subs (bz_bus y) = {||}")
    case True
    with step_publish(5) s show ?thesis by (auto simp: bus_Publish_def)
  next
    case False
    with step_publish(5) obtain md e where
      "fan_out md e ids ((bz_bus y)\<lparr>bs_seq := bs_seq (bz_bus y) + 1\<rparr>) = (b1, ev)" by (auto simp: bus_Publish_def Let_def)
    from fan_out_objs [OF this step_publish(3), of i] pres ni s show ?thesis by simp
  qed
  with s step_publish(1) show ?thesis by simp
next
  case (step_evict j js)
  with s show ?thesis by (auto simp: bus_evict_def close_obj_lookup sub_close_def)
next
  case (step_receive j b1 e)
  with s show ?thesis by (auto simp: sub_receive_def suffix_def split: option.splits list.splits)
next
  case step_close
  with s show ?thesis by (auto simp: bus_Close_def sub_close_def)
qed

text \<open>
  A run used by the witnesses: a bus with buffers of one event that evicts at the first drop; one
  subscriber, two events, the second of which overflows the buffer; then the eviction.
\<close>

definition example_sub :: subscription where
  "example_sub = \<lparr>sb_types = None, sb_cap = 1, sb_queue = [], sb_drops = 0, sb_dropped = 0, sb_evicting = False,
     sb_closed = False, sb_reason = CloseReasonOpen\<rparr>"

definition example_event :: "nat \<Rightarrow> event" where
  "example_event n = \<lparr>ev_Seq = n, ev_Type = ''t'', ev_Time = 0, ev_Data = []\<rparr>"

definition example_bus :: bus where
  "example_bus = bus_New\<lparr>bs_Buffer := 1, bs_MaxDrops := 1, bs_nextID := 1, bs_subs := {|1|}\<rparr>"

definition example_full :: bsys where
  "example_full =
     \<lparr>bz_bus = example_bus\<lparr>bs_objs := fmupd 1 (example_sub\<lparr>sb_queue := [example_event 1]\<rparr>) fmempty, bs_seq := 1, bs_delivered := 1\<rparr>,
      bz_pend = [], bz_got = (\<lambda>_. []), bz_off = (\<lambda>_. [])(1 := [example_event 1])\<rparr>"

definition example_drop :: bsys where
  "example_drop =
     \<lparr>bz_bus = example_bus\<lparr>bs_objs := fmupd 1 (example_sub\<lparr>sb_queue := [example_event 1], sb_drops := 1, sb_dropped := 1, sb_evicting := True\<rparr>) fmempty,
        bs_seq := 2, bs_delivered := 1, bs_dropped := 1\<rparr>,
      bz_pend = [1], bz_got = (\<lambda>_. []), bz_off = (\<lambda>_. [])(1 := [example_event 1, example_event 2])\<rparr>"

definition example_evicted :: bsys where
  "example_evicted = example_drop\<lparr>bz_bus := bus_evict 1 (bz_bus example_drop), bz_pend := []\<rparr>"

lemmas example_defs = example_sub_def example_event_def example_bus_def example_full_def example_drop_def example_evicted_def
  bus_New_def bsys_start_def

lemma example_publish:
  assumes "bz_pend y = []" "bs_subs (bz_bus y) = {|1|}" "bus_Publish [1] 0 ''t'' [] (bz_bus y) = (b1, ev)"
    "z = y\<lparr>bz_bus := b1, bz_pend := ev, bz_off := offer (example_event (bs_seq b1)) (bz_bus y) (bz_off y)\<rparr>"
  shows "bus_step y z"
  using step_publish [OF assms(1) _ _ assms(3)] assms(2,4) by (simp add: example_event_def)

lemma example_reach: "bus_reach (bsys_start 1 1) example_full" "bus_reach (bsys_start 1 1) example_drop"
  "bus_reach (bsys_start 1 1) example_evicted" "bus_step example_evicted (example_evicted\<lparr>bz_bus := bus_Close (bz_bus example_evicted)\<rparr>)"
proof -
  let ?y = "\<lparr>bz_bus = example_bus\<lparr>bs_objs := fmupd 1 example_sub fmempty\<rparr>, bz_pend = [], bz_got = (\<lambda>_. []), bz_off = (\<lambda>_. [])\<rparr>"
  have "(bsys_start 1 1)\<lparr>bz_bus := fst (bus_Subscribe [] 0 (bz_bus (bsys_start 1 1)))\<rparr> = ?y"
    by (simp add: example_defs bus_Subscribe_def)
  then have "bus_step (bsys_start 1 1) ?y" using step_subscribe [of "bsys_start 1 1" "[]" 0] by simp
  then have y: "bus_reach (bsys_start 1 1) ?y" by (rule reach_step [OF reach_start])
  have "bus_step ?y example_full"
    by (rule example_publish [of _ "bz_bus example_full" "[]"])
      (auto simp: example_defs bus_Publish_def fan_sub_def sub_wants_def count_fan_def offer_def fun_eq_iff)
  with y show f: "bus_reach (bsys_start 1 1) example_full" by (rule reach_step)
  have "bus_step example_full example_drop"
    by (rule example_publish [of _ "bz_bus example_drop" "[1]"])
      (auto simp: example_defs bus_Publish_def fan_sub_def sub_wants_def count_fan_def offer_def fun_eq_iff)
  with f show d: "bus_reach (bsys_start 1 1) example_drop" by (rule reach_step)
  have "bus_step example_drop example_evicted"
    unfolding example_evicted_def by (rule step_evict) (simp add: example_drop_def)
  with d show "bus_reach (bsys_start 1 1) example_evicted" by (rule reach_step)
  show "bus_step example_evicted (example_evicted\<lparr>bz_bus := bus_Close (bz_bus example_evicted)\<rparr>)" by (rule step_close)
qed

lemma example_evicted_sub:
  "fmlookup (bs_objs (bz_bus example_evicted)) 1 =
     Some (example_sub\<lparr>sb_queue := [example_event 1], sb_drops := 1, sb_dropped := 1, sb_evicting := True, sb_closed := True,
       sb_reason := CloseReasonSlowConsumer\<rparr>)"
  by (simp add: example_defs bus_evict_def close_obj_def sub_close_def)

subsection \<open>Properties\<close>

text \<open>C24: every subscriber sees an ordered stream and its losses are counted.  In every reachable state,
  under all interleavings of publishers, consumers, evictions and shutdown, the events a consumer has
  received followed by those queued for it are a subsequence of the events fanned out to it that its
  filter accepts, with strictly increasing sequence numbers (no duplicate, no reordering), and the
  number missing is exactly its drop counter.\<close>

theorem bus_streams_ordered:
  assumes "bus_reach (bsys_start buffer maxDrops) y" and "fmlookup (bs_objs (bz_bus y)) i = Some s"
  shows "sorted_wrt (<) (map ev_Seq (bz_got y i @ sb_queue s)) \<and> subseq (bz_got y i @ sb_queue s) (bz_off y i) \<and>
    length (bz_off y i) = length (bz_got y i) + length (sb_queue s) + sb_dropped s \<and> length (sb_queue s) \<le> sb_cap s \<and>
    (\<forall>e \<in> set (bz_got y i). sub_wants s (ev_Type e) \<and> ev_Seq e \<le> bs_seq (bz_bus y))"
proof -
  note st = bus_invD(2) [OF bus_reach_inv [OF assms(1)] assms(2)]
  have sub: "subseq (bz_got y i @ sb_queue s) (bz_off y i)" "sorted_wrt (<) (map ev_Seq (bz_off y i))"
    using st by (simp_all add: stream_ok_def)
  have "set (bz_got y i) \<subseteq> set (bz_off y i)" using list_emb_set [OF sub(1)] by auto
  with st sub subseq_sorted_seq [OF sub] show ?thesis by (auto simp: stream_ok_def)
qed

theorem bus_streams_ordered_witness:
  "\<exists>s. fmlookup (bs_objs (bz_bus example_evicted)) 1 = Some s \<and> sb_dropped s = 1 \<and>
     sorted_wrt (<) (map ev_Seq (bz_got example_evicted 1 @ sb_queue s)) \<and>
     length (bz_off example_evicted 1) = length (bz_got example_evicted 1) + length (sb_queue s) + sb_dropped s"
  using bus_streams_ordered [OF example_reach(3) example_evicted_sub] example_evicted_sub by simp

text \<open>The registry is safe.  In every reachable state no publisher ever sent on a closed channel
  (which would panic), a subscription is registered exactly while it is open, a closed bus has no
  subscriptions and accepts none, and whenever no publish is running every registered subscription
  has fewer than \<open>MaxDrops\<close> consecutive drops: a consumer that stops reading is evicted.\<close>

theorem bus_registry_safe:
  assumes "bus_reach (bsys_start buffer maxDrops) y"
  shows "\<not> bs_panic (bz_bus y) \<and>
    (\<forall>i s. fmlookup (bs_objs (bz_bus y)) i = Some s \<longrightarrow>
       (i |\<in>| bs_subs (bz_bus y) \<longleftrightarrow> \<not> sb_closed s) \<and> (sb_closed s \<longleftrightarrow> sb_reason s \<noteq> CloseReasonOpen) \<and>
       (bz_pend y = [] \<longrightarrow> i |\<in>| bs_subs (bz_bus y) \<longrightarrow> sb_drops s < max_drops (bz_bus y))) \<and>
    (bs_closed (bz_bus y) \<longrightarrow> bs_subs (bz_bus y) = {||} \<and> bus_Subscribe types buf (bz_bus y) = (bz_bus y, None))"
proof -
  note inv = bus_invD [OF bus_reach_inv [OF assms]]
  have "(i |\<in>| bs_subs (bz_bus y) \<longleftrightarrow> \<not> sb_closed s) \<and> (sb_closed s \<longleftrightarrow> sb_reason s \<noteq> CloseReasonOpen) \<and>
       (bz_pend y = [] \<longrightarrow> i |\<in>| bs_subs (bz_bus y) \<longrightarrow> sb_drops s < max_drops (bz_bus y))"
    if "fmlookup (bs_objs (bz_bus y)) i = Some s" for i s
    using inv(1) [OF that] by (simp add: slot_ok_def)
  with inv(5,6) show ?thesis by (simp add: bus_Subscribe_def)
qed

theorem bus_registry_safe_witness:
  "\<not> bs_panic (bz_bus example_full) \<and> \<not> sb_closed (example_sub\<lparr>sb_queue := [example_event 1]\<rparr>) \<and>
   sb_drops (example_sub\<lparr>sb_queue := [example_event 1]\<rparr>) < max_drops (bz_bus example_full)"
proof -
  have "fmlookup (bs_objs (bz_bus example_full)) 1 = Some (example_sub\<lparr>sb_queue := [example_event 1]\<rparr>)"
    "bz_pend example_full = []" "1 |\<in>| bs_subs (bz_bus example_full)" by (simp_all add: example_defs)
  then show ?thesis using bus_registry_safe [OF example_reach(1), of "[]" 0] by blast
qed

text \<open>The terminal state of a subscription is immutable.  Once it is closed, whatever happens next it
  stays closed with the same reason and its queue only shrinks.\<close>

theorem close_reason_immutable:
  assumes "bus_reach (bsys_start buffer maxDrops) y" and "bus_step y z"
    and "fmlookup (bs_objs (bz_bus y)) i = Some s" and "sb_closed s"
  shows "\<exists>s'. fmlookup (bs_objs (bz_bus z)) i = Some s' \<and> sb_closed s' \<and> sb_reason s' = sb_reason s \<and>
    suffix (sb_queue s') (sb_queue s)"
  by (rule closed_step [OF bus_reach_inv [OF assms(1)] assms(2-4)])

theorem close_reason_immutable_witness:
  "\<exists>s'. fmlookup (bs_objs (bz_bus (example_evicted\<lparr>bz_bus := bus_Close (bz_bus example_evicted)\<rparr>))) 1 = Some s' \<and>
     sb_closed s' \<and> sb_reason s' = CloseReasonSlowConsumer"
  using close_reason_immutable [OF example_reach(3,4) example_evicted_sub] by auto

end
