(* ===== verification/Spec2Isabelle.thy ===== *)
theory Spec2Isabelle
  imports Permissions Netproto_Frame State_Manager Channel_Lifecycle Perm_Admin Server_Auth Chat_Keys Server_Runs Query_Protocol Login_Limiter Event_Bus Voice_Facade
begin

text \<open>
  This development models the server core of noXa, a voice chat server in Go, and proves the
  properties that make it correct.  Paths below are relative to \<^verbatim>\<open>src/internal/\<close>.

  \<^bold>\<open>The program.\<close>  A client connects over TCP and exchanges length-prefixed control frames
  (\<^verbatim>\<open>netproto\<close>).  Logging in passes the login-failure limiter (\<^verbatim>\<open>auth\<close>).  The in-memory state manager
  (\<^verbatim>\<open>state\<close>) knows who is connected, in which channel, who speaks and who is subscribed; the channel
  manager (\<^verbatim>\<open>channels\<close>) keeps it in step with the channel table and removes empty temporary channels by
  timers.  Handlers ask the permission checker (\<^verbatim>\<open>server/perms.go\<close>), which loads the caller's tiers with
  the caching loader and resolves keys with the resolver (\<^verbatim>\<open>permissions\<close>).  Voice and video go through
  the SFU router (\<^verbatim>\<open>webrtc\<close>), whose facade also schedules renegotiation offers.  Events reach dashboards
  through the event bus (\<^verbatim>\<open>eventbus\<close>), and ServerQuery clients use the text protocol (\<^verbatim>\<open>query\<close>).

  \<^bold>\<open>The theories.\<close>

  \<^item> \<open>Noxa_Prelude\<close>: finite maps of sets, runs of operation lists, and the locale \<open>invariant_system\<close> (an
    operation type, a step function, its preconditions, an invariant) every component interprets.
  \<^item> \<open>Permissions\<close> (\<^verbatim>\<open>permissions/types.go, tiers.go, merge.go, resolver.go, conflicts.go\<close>): permission sets,
    tiers, the merge within a tier in closed form, the resolver as first-tier-wins, the conflict report.
  \<^item> \<open>Perm_Loader\<close> (\<^verbatim>\<open>permissions/loader.go\<close>): the queries and their assembly into tiers, the override
    merge over the channel chain, both caches.  Table writes, invalidations and the two locked sections
    of every load are interleaved freely; no load returns stale tables after an invalidation.
  \<^item> \<open>State_Manager\<close> (\<^verbatim>\<open>state/types.go, manager.go\<close>): the whole manager, its consistency invariant and the
    refinement of an abstract state in which a client has one place.
  \<^item> \<open>Channel_Manager\<close>, \<open>Channel_Tree\<close>, \<open>Channel_Lifecycle\<close> (\<^verbatim>\<open>channels/types.go, manager.go\<close>): table and
    state operations with their database faults, cleanup timers with generation tokens, subtree deletion,
    the cycle guard, lock ordering; table and state stay in step over every run.
  \<^item> \<open>Netproto_Frame\<close>, \<open>Safecast\<close> (\<^verbatim>\<open>netproto/frame.go, udp.go\<close>, \<^verbatim>\<open>safecast\<close>): framing on byte streams with
    short reads and bounds, checked integer conversions at their widths.
  \<^item> \<open>Query_Protocol\<close> (\<^verbatim>\<open>query/protocol.go\<close>): value escaping and the status line.
  \<^item> \<open>Login_Limiter\<close> (\<^verbatim>\<open>auth/limiter.go\<close>): reservations, lockouts, eviction under capacity pressure.
  \<^item> \<open>Event_Bus\<close> (\<^verbatim>\<open>eventbus/bus.go\<close>): publish, subscribe, drop-oldest, eviction, close, interleaved.
  \<^item> \<open>Voice_Router\<close>, \<open>Voice_Routing\<close>, \<open>Voice_Forwarding\<close>, \<open>Voice_Media\<close> (\<^verbatim>\<open>webrtc/router.go\<close>): memberships,
    output tracks, whispers, forwarding, slot claims, read loops, simulcast layers, keyframe requests.
  \<^item> \<open>Voice_Renegotiation\<close>, \<open>Voice_Facade\<close> (\<^verbatim>\<open>webrtc/voice.go\<close>): the offer scheduler as an interleaved
    system and the session operations over it.
  \<^item> This theory: properties that span components.

  \<^bold>\<open>Conventions.\<close>  A struct is a record, an enumeration a datatype, an error the left of a sum or the
  constructor of an error type.  Code under a mutex is one step; code that releases the lock in between
  is several steps, and the interleavings are the operation lists of \<open>run_ops\<close>.  What the code cannot
  determine (a database fault, the iteration order of a Go map, the current time, whether a track
  could be created) is an argument of the step, so the theorems hold for all values of it.  Times are
  integers in nanoseconds.

  \<^bold>\<open>Bounds and fuel.\<close>  The walks over parent links carry the source's own depth bound of 64;
  the loops over worklists are functions with a termination measure.  Counters that the code keeps in
  64 bits and that only count events (generations, tokens) are natural numbers.

  \<^bold>\<open>Not modelled.\<close>  The SQL engine, the network, pion/webrtc, bcrypt and TLS are libraries; the models
  take their results as arguments.  The wails client, the recorder's media files, gRPC, metrics,
  configuration loading and the command line programs are I/O around the core.  The manifest lists
  every part with its status.
\<close>

section \<open>The enforced permission chain is the displayed one\<close>

text \<open>
  The loader walks the parents with a recursive query on the table, the state manager walks them in
  memory.  The channel manager keeps table and state in step, so the two walks agree.
\<close>

lemma synced_fields:
  assumes "synced db m" "fmlookup db i = Some r"
  obtains x where "fmlookup (channels m) i = Some x" "ch_InheritPermissions x = row_inherit r" "ch_ParentID x = coalesce (row_parent r) 0"
proof -
  have "map_option persisted_view (fmlookup (channels m) i) = Some (persisted_view (scan_row i r))"
    using assms by (simp add: synced_def)
  then obtain x where x: "fmlookup (channels m) i = Some x" "persisted_view x = persisted_view (scan_row i r)" by auto
  from arg_cong [OF x(2), of ch_InheritPermissions] arg_cong [OF x(2), of ch_ParentID]
  have "ch_InheritPermissions x = row_inherit r" "ch_ParentID x = coalesce (row_parent r) 0"
    by (simp_all add: persisted_view_def scan_row_def)
  with x(1) show thesis by (rule that)
qed

lemma synced_None: "synced db m \<Longrightarrow> fmlookup (channels m) i = None \<longleftrightarrow> fmlookup db i = None"
  unfolding synced_def by (metis option.map_disc_iff)

lemma db_chain_state:
  assumes "db_wf db" "synced db m" "fmlookup db i = Some r"
  shows "db_chain n db i = i # chain_loop n (channels m) i"
  using assms(3)
proof (induction n arbitrary: i r)
  case 0
  then show ?case by simp
next
  case (Suc n)
  obtain x where x: "fmlookup (channels m) i = Some x" "ch_InheritPermissions x = row_inherit r" "ch_ParentID x = coalesce (row_parent r) 0"
    using synced_fields [OF assms(2) Suc.prems] .
  show ?case
  proof (cases "row_parent r")
    case None
    with Suc.prems x show ?thesis by (simp add: coalesce_def)
  next
    case (Some p)
    then obtain q where q: "fmlookup db p = Some q" using db_wfD(3) [OF assms(1) Suc.prems] by blast
    have "fmlookup (channels m) p \<noteq> None" using synced_None [OF assms(2), of p] q by simp
    moreover have "p \<noteq> 0" using db_wfD(1) [OF assms(1) q] by simp
    ultimately show ?thesis using Suc.prems x Some Suc.IH [OF q] by (auto simp: coalesce_def)
  qed
qed

lemma db_chain_is_ChannelPermissionChain:
  assumes "db_wf db" "synced db m"
  shows "db_chain perm_maxChannelDepth db ch = ChannelPermissionChain ch m"
proof (cases "fmlookup db ch")
  case None
  then show ?thesis using synced_None [OF assms(2), of ch] by (simp add: ChannelPermissionChain_def perm_maxChannelDepth_def eval_nat_numeral)
next
  case (Some r)
  then show ?thesis
    using db_chain_state [OF assms Some] synced_None [OF assms(2), of ch]
    by (simp add: ChannelPermissionChain_def perm_maxChannelDepth_def maxChannelDepth_def)
qed

text \<open>C14: After any run of channel operations, the channel tier that permission checks load from the table
  for an existing channel holds, for every key, the entry of the nearest channel that has one along
  the inheritance chain the in-memory state shows; the nearer channel wins also when it grants less.\<close>

theorem channel_tier_follows_state:
  assumes "ops_ok cm_step cm_op_ok ps (cm_New fmempty state_New)"
    and "cm = run_ops cm_step ps (cm_New fmempty state_New)"
    and "pd_channels db = cm_db cm" "fmlookup (channels (cm_state cm)) ch \<noteq> None"
  shows "\<exists>s. loadChannelPermissionChain (answer db) ch = Inr s \<and>
    (\<forall>k. fmlookup s k = nearest_entry (own_set db) (ChannelPermissionChain ch (cm_state cm)) k)"
proof -
  have core: "cm_core cm" using chan.run_start_inv [OF assms(1)] assms(2) by (simp add: cm_inv_def)
  have "db_chain perm_maxChannelDepth (pd_channels db) ch = ChannelPermissionChain ch (cm_state cm)"
    using db_chain_is_ChannelPermissionChain cm_coreD [OF core] assms(3) by simp
  then show ?thesis using assms(4) by (intro channel_tier_nearest) (simp_all add: ChannelPermissionChain_def)
qed

theorem channel_tier_follows_state_witness:
  "\<exists>s. loadChannelPermissionChain (answer (loader_demo_db 1\<lparr>pd_channels := cm_db ex_cm, pd_channel_permissions := [(1, 1)]\<rparr>)) 1 = Inr s \<and>
    fmlookup s ''b_x'' = nearest_entry (own_set (loader_demo_db 1\<lparr>pd_channels := cm_db ex_cm, pd_channel_permissions := [(1, 1)]\<rparr>))
      (ChannelPermissionChain 1 (cm_state ex_cm)) ''b_x''"
proof -
  have "fmlookup (channels (cm_state ex_cm)) 1 \<noteq> None" by code_simp
  then show ?thesis
    using channel_tier_follows_state [OF ex_cm_ops_ok ex_cm_def,
        of "loader_demo_db 1\<lparr>pd_channels := cm_db ex_cm, pd_channel_permissions := [(1, 1)]\<rparr>" 1] by auto
qed

end
